(* ===== verification/Prelude.thy ===== *)
theory Prelude
  imports Main "HOL-Library.AList" "HOL-Library.Char_ord" "HOL-Library.List_Lexorder"
    "HOL-Library.Multiset"
begin

text \<open>
  What the components share: results of fallible calls (a sum whose left injection is the
  error), instants and durations, the string functions of Go's \<open>strings\<close> and \<open>strconv\<close>
  packages that the sources call, Go maps as association lists, and three interfaces stated as
  locales: a \<open>codec\<close> (a value written as text and read back), a \<open>spelling\<close> (an enumeration with
  one name per member) and a \<open>machine\<close> (steps and an invariant they keep).
\<close>

named_theorems go_simps
  \<open>defining equations of the Go library functions the sources call\<close>

section \<open>Results\<close>

text \<open>
  A Go function returning \<open>(T, error)\<close> is a function into a sum: \<open>Inl\<close> is the error, \<open>Inr\<close> the
  value. \<open>rbind\<close> is the statement \<open>if err != nil { return err }\<close>.
\<close>

type_synonym ('e, 'a) result = "'e + 'a"

primrec rbind :: "('e, 'a) result \<Rightarrow> ('a \<Rightarrow> ('e, 'b) result) \<Rightarrow> ('e, 'b) result" where
  "rbind (Inl e) f = Inl e"
| "rbind (Inr x) f = f x"

lemma rbind_Inr_iff [simp]: "rbind m f = Inr y \<longleftrightarrow> (\<exists>x. m = Inr x \<and> f x = Inr y)"
  by (cases m) auto

lemma rbind_Inl_iff: "rbind m f = Inl e \<longleftrightarrow> m = Inl e \<or> (\<exists>x. m = Inr x \<and> f x = Inl e)"
  by (cases m) auto

lemma rbind_cong [fundef_cong]:
  "m = m' \<Longrightarrow> (\<And>x. m' = Inr x \<Longrightarrow> f x = f' x) \<Longrightarrow> rbind m f = rbind m' f'"
  by (cases m') auto

lemma not_isl_Inr: "\<not> isl m \<Longrightarrow> \<exists>x. m = Inr x"
  by (cases m) auto

text \<open>\<open>rall f xs\<close> is a loop over \<open>xs\<close> that appends what \<open>f\<close> answers and returns at the first error.\<close>

primrec rall :: "('a \<Rightarrow> ('e, 'b) result) \<Rightarrow> 'a list \<Rightarrow> ('e, 'b list) result" where
  "rall f [] = Inr []"
| "rall f (x # xs) = rbind (f x) (\<lambda>y. rbind (rall f xs) (\<lambda>ys. Inr (y # ys)))"

lemma rall_Inr_iff: "rall f xs = Inr ys \<longleftrightarrow> list_all2 (\<lambda>x y. f x = Inr y) xs ys"
  by (induction xs arbitrary: ys) (auto simp: list_all2_Cons1)

lemma rall_Inr_map: "(\<And>x. x \<in> set xs \<Longrightarrow> f x = Inr (g x)) \<Longrightarrow> rall f xs = Inr (map g xs)"
  by (induction xs) auto

lemma rall_cong [fundef_cong]:
  "xs = ys \<Longrightarrow> (\<And>x. x \<in> set ys \<Longrightarrow> f x = g x) \<Longrightarrow> rall f xs = rall g ys"
  by (induction ys arbitrary: xs) auto

text \<open>\<open>rfold f xs s\<close> is a loop over \<open>xs\<close> that threads a state and returns at the first error.\<close>

primrec rfold :: "('a \<Rightarrow> 's \<Rightarrow> ('e, 's) result) \<Rightarrow> 'a list \<Rightarrow> 's \<Rightarrow> ('e, 's) result" where
  "rfold f [] s = Inr s"
| "rfold f (x # xs) s = rbind (f x s) (rfold f xs)"

text \<open>
  \<open>sfold f xs s\<close> is a loop over \<open>xs\<close> that changes a state in place and stops at the first error; what
  it changed before the error stays changed.
\<close>

primrec sfold :: "('a \<Rightarrow> 's \<Rightarrow> 's \<times> 'e option) \<Rightarrow> 'a list \<Rightarrow> 's \<Rightarrow> 's \<times> 'e option" where
  "sfold f [] s = (s, None)"
| "sfold f (x # xs) s = (case f x s of (t, Some e) \<Rightarrow> (t, Some e) | (t, None) \<Rightarrow> sfold f xs t)"

lemma sfold_invariant:
  assumes "P s" and "\<And>x s. x \<in> set xs \<Longrightarrow> P s \<Longrightarrow> P (fst (f x s))"
  shows "P (fst (sfold f xs s))"
  using assms
proof (induction xs arbitrary: s)
  case (Cons x xs)
  obtain t r where t: "f x s = (t, r)" by (cases "f x s")
  have "P t" using Cons.prems(2)[of x s] Cons.prems(1) t by simp
  then have "P (fst (sfold f xs t))" using Cons.prems(2) by (intro Cons.IH) auto
  with \<open>P t\<close> t show ?case by (cases r) auto
qed simp

lemma rfold_invariant:
  assumes "rfold f xs s = Inr t" "P s"
    and "\<And>x s s'. x \<in> set xs \<Longrightarrow> P s \<Longrightarrow> f x s = Inr s' \<Longrightarrow> P s'"
  shows "P t"
  using assms by (induction xs arbitrary: s) auto

lemma take_3: "3 \<le> length xs \<Longrightarrow> take 3 xs = [xs ! 0, xs ! 1, xs ! 2]"
  by (cases xs; cases "tl xs"; cases "tl (tl xs)") auto

lemma length_4: "length xs = 4 \<Longrightarrow> xs = [xs ! 0, xs ! 1, xs ! 2, xs ! 3]"
  by (cases xs; cases "tl xs"; cases "tl (tl xs)"; cases "tl (tl (tl xs))") auto

section \<open>Instants and durations\<close>

text \<open>
  A \<open>time.Time\<close> is an instant: nanoseconds since the zero time, so \<open>IsZero\<close> is equality with \<open>0\<close>,
  \<open>Before\<close> and \<open>After\<close> are the order, and \<open>UTC\<close>, which changes no instant, is the identity. A
  \<open>time.Duration\<close> is a signed 64-bit count of nanoseconds; \<open>wrap64\<close> is what arithmetic on one
  gives when it overflows.
\<close>

type_synonym time = int
type_synonym duration = int

abbreviation (input) zero_time :: time where "zero_time \<equiv> 0"

definition max_int64 :: int where "max_int64 = 9223372036854775807"

definition wrap64 :: "int \<Rightarrow> int" where
  "wrap64 x = (x + 9223372036854775808) mod 18446744073709551616 - 9223372036854775808"

lemma wrap64_id: "- 9223372036854775808 \<le> x \<Longrightarrow> x \<le> max_int64 \<Longrightarrow> wrap64 x = x"
  by (simp add: wrap64_def max_int64_def)

lemma wrap64_range: "- 9223372036854775808 \<le> wrap64 x \<and> wrap64 x \<le> max_int64"
  by (simp add: wrap64_def max_int64_def)

section \<open>Go maps\<close>

text \<open>
  A Go map is an association list read by \<^const>\<open>map_of\<close> and written by \<^const>\<open>AList.update\<close>,
  which replaces a binding where there is one and adds one where there is none, so the keys stay
  distinct. \<open>sorted_keys\<close> is \<open>slices.Sorted(maps.Keys(m))\<close>, with Go's order on strings, which is
  the lexicographic order of their bytes.
\<close>

type_synonym ('k, 'v) gomap = "('k \<times> 'v) list"

definition sorted_keys :: "('k::linorder, 'v) gomap \<Rightarrow> 'k list" where
  "sorted_keys m = sort (remdups (map fst m))"

definition has_key :: "('k, 'v) gomap \<Rightarrow> 'k \<Rightarrow> bool" where
  "has_key m k = (map_of m k \<noteq> None)"

lemma set_sorted_keys [simp]: "set (sorted_keys m) = fst ` set m"
  by (simp add: sorted_keys_def)

lemma distinct_sorted_keys [simp]: "distinct (sorted_keys m)"
  by (simp add: sorted_keys_def)

lemma sorted_sorted_keys [simp]: "sorted (sorted_keys m)"
  by (simp add: sorted_keys_def)

lemma has_key_iff: "has_key m k \<longleftrightarrow> k \<in> fst ` set m"
  by (simp add: has_key_def map_of_eq_None_iff)

lemma map_of_update [simp]: "map_of (AList.update k v m) = (map_of m)(k \<mapsto> v)"
  by (simp add: update_conv')

lemma keys_update [simp]: "fst ` set (AList.update k v m) = insert k (fst ` set m)"
  using dom_update[of k v m] by auto

lemma sorted_keys_eqI:
  "fst ` set m = fst ` set m' \<Longrightarrow> sorted_keys m = sorted_keys m'"
  unfolding sorted_keys_def
  by (rule sorted_distinct_set_unique) auto

text \<open>
  \<open>entries\<close> is what a \<open>range\<close> over a map visits, each key once. Go visits them in an order of its own
  choosing; the model fixes one, and the lemmas show where the answer does not depend on it.
\<close>

definition entries :: "('k::linorder, 'v) gomap \<Rightarrow> ('k \<times> 'v) list" where
  "entries m = map (\<lambda>k. (k, the (map_of m k))) (sorted_keys m)"

lemma entries_iff: "(k, v) \<in> set (entries m) \<longleftrightarrow> map_of m k = Some v"
proof -
  have "(k, v) \<in> set (entries m) \<longleftrightarrow> k \<in> dom (map_of m) \<and> v = the (map_of m k)"
    by (auto simp: entries_def dom_map_of_conv_image_fst)
  also have "\<dots> \<longleftrightarrow> map_of m k = Some v"
    by (cases "map_of m k") (auto simp: dom_def)
  finally show ?thesis .
qed

lemma entries_Nil_iff [simp]: "entries m = [] \<longleftrightarrow> m = []"
proof -
  have "entries m = [] \<longleftrightarrow> fst ` set m = {}"
    using set_sorted_keys[of m] by (metis entries_def map_is_Nil_conv set_empty)
  then show ?thesis by simp
qed

lemma entries_cong: "map_of m = map_of m' \<Longrightarrow> entries m = entries m'"
proof -
  assume eq: "map_of m = map_of m'"
  then have "dom (map_of m) = dom (map_of m')" by simp
  then have "fst ` set m = fst ` set m'" by (simp add: dom_map_of_conv_image_fst)
  then show ?thesis using eq by (simp add: entries_def sorted_keys_eqI[of m m'])
qed

section \<open>Strings\<close>

text \<open>
  A Go string is a list of bytes, which is HOL's \<^typ>\<open>string\<close>. \<open>strings.Split\<close> on a separator of
  one byte, \<open>strings.Cut\<close>, \<open>strings.CutPrefix\<close> and \<open>strings.CutSuffix\<close>:
\<close>

fun split_on :: "char \<Rightarrow> string \<Rightarrow> string list" where
  "split_on c [] = [[]]"
| "split_on c (x # xs) =
     (if x = c then [] # split_on c xs
      else (case split_on c xs of [] \<Rightarrow> [[x]] | p # ps \<Rightarrow> (x # p) # ps))"

fun join_with :: "string \<Rightarrow> string list \<Rightarrow> string" where
  "join_with sep [] = []"
| "join_with sep [p] = p"
| "join_with sep (p # q # ps) = p @ sep @ join_with sep (q # ps)"

definition cut_prefix :: "string \<Rightarrow> string \<Rightarrow> string option" where
  "cut_prefix s p = (if take (length p) s = p then Some (drop (length p) s) else None)"

definition cut_suffix :: "string \<Rightarrow> string \<Rightarrow> string option" where
  "cut_suffix s p = map_option rev (cut_prefix (rev s) (rev p))"

definition cut_at :: "char \<Rightarrow> string \<Rightarrow> (string \<times> string) option" where
  "cut_at c s = (if c \<in> set s
                 then Some (takeWhile (\<lambda>x. x \<noteq> c) s, drop 1 (dropWhile (\<lambda>x. x \<noteq> c) s)) else None)"

lemma split_on_nonempty [simp]: "split_on c s \<noteq> []"
  by (induction s) (auto split: list.splits)

lemma split_on_free: "c \<notin> set s \<Longrightarrow> split_on c s = [s]"
  by (induction s) auto

lemma split_on_append: "c \<notin> set p \<Longrightarrow> split_on c (p @ c # s) = p # split_on c s"
  by (induction p) auto

lemma split_on_sep_free: "p \<in> set (split_on c s) \<Longrightarrow> c \<notin> set p"
  by (induction s arbitrary: p) (auto split: list.splits if_splits)

lemma join_split: "join_with [c] (split_on c s) = s"
proof (induction s)
  case Nil
  show ?case by simp
next
  case (Cons x xs)
  obtain p ps where ps: "split_on c xs = p # ps"
    using split_on_nonempty[of c xs] by (meson neq_Nil_conv)
  show ?case
    using Cons.IH ps by (cases ps) auto
qed

lemma split_on_join:
  "ps \<noteq> [] \<Longrightarrow> (\<And>p. p \<in> set ps \<Longrightarrow> c \<notin> set p) \<Longrightarrow> split_on c (join_with [c] ps) = ps"
proof (induction ps)
  case (Cons p ps)
  then show ?case
    by (cases ps) (auto simp: split_on_free split_on_append)
qed simp

lemma cut_prefix_append [simp]: "cut_prefix (p @ s) p = Some s"
  by (simp add: cut_prefix_def)

lemma cut_prefix_Some_iff: "cut_prefix s p = Some r \<longleftrightarrow> s = p @ r"
  by (auto simp: cut_prefix_def) (metis append_take_drop_id)

lemma cut_suffix_Some_iff: "cut_suffix s p = Some r \<longleftrightarrow> s = r @ p"
proof -
  have "cut_suffix s p = Some r \<longleftrightarrow> cut_prefix (rev s) (rev p) = Some (rev r)"
    by (auto simp: cut_suffix_def)
  also have "\<dots> \<longleftrightarrow> rev s = rev p @ rev r"
    by (rule cut_prefix_Some_iff)
  also have "\<dots> \<longleftrightarrow> s = r @ p"
    by (metis rev_append rev_rev_ident)
  finally show ?thesis .
qed

lemma cut_at_None_iff: "cut_at c s = None \<longleftrightarrow> c \<notin> set s"
  by (simp add: cut_at_def)

lemma takeWhile_sep [simp]: "c \<notin> set p \<Longrightarrow> takeWhile (\<lambda>x. x \<noteq> c) (p @ c # s) = p"
  by (induction p) auto

lemma dropWhile_sep [simp]: "c \<notin> set p \<Longrightarrow> dropWhile (\<lambda>x. x \<noteq> c) (p @ c # s) = c # s"
  by (induction p) auto

lemma cut_at_append: "c \<notin> set p \<Longrightarrow> cut_at c (p @ c # s) = Some (p, s)"
  by (simp add: cut_at_def)

lemma cut_at_Some: "cut_at c s = Some (p, r) \<longleftrightarrow> c \<notin> set p \<and> s = p @ c # r"
proof
  assume h: "cut_at c s = Some (p, r)"
  then have "c \<in> set s"
    by (auto simp: cut_at_def split: if_splits)
  then obtain p' r' where "s = p' @ c # r'" and "c \<notin> set p'"
    by (meson split_list_first)
  with h show "c \<notin> set p \<and> s = p @ c # r"
    by (simp add: cut_at_append)
qed (auto simp: cut_at_append)

section \<open>Decimal numbers\<close>

text \<open>\<open>strconv.Itoa\<close>, and the digits \<open>strconv.Atoi\<close> and \<open>strconv.ParseInt\<close> read.\<close>

definition digit_char :: "nat \<Rightarrow> char" where
  "digit_char d = char_of (48 + d)"

definition digit_val :: "char \<Rightarrow> nat" where
  "digit_val c = of_char c - 48"

definition is_digit :: "char \<Rightarrow> bool" where
  "is_digit c = (48 \<le> (of_char c :: nat) \<and> (of_char c :: nat) \<le> 57)"

fun digits_of :: "nat \<Rightarrow> string" where
  "digits_of n = (if n < 10 then [digit_char n] else digits_of (n div 10) @ [digit_char (n mod 10)])"

declare digits_of.simps [simp del]

definition itoa :: "int \<Rightarrow> string" where
  "itoa n = (if n < 0 then CHR ''-'' # digits_of (nat (- n)) else digits_of (nat n))"

definition digits_val :: "string \<Rightarrow> nat" where
  "digits_val s = foldl (\<lambda>n c. 10 * n + digit_val c) 0 s"

lemma of_digit_char [simp]: "d < 10 \<Longrightarrow> (of_char (digit_char d) :: nat) = 48 + d"
  by (simp add: digit_char_def of_char_of)

lemma digit_val_char [simp]: "d < 10 \<Longrightarrow> digit_val (digit_char d) = d"
  by (simp add: digit_val_def)

lemma is_digit_char [simp]: "d < 10 \<Longrightarrow> is_digit (digit_char d)"
  by (simp add: is_digit_def)

lemma digit_char_val: "is_digit c \<Longrightarrow> digit_char (digit_val c) = c"
  by (simp add: is_digit_def digit_char_def digit_val_def)

lemma digits_val_snoc: "digits_val (s @ [c]) = 10 * digits_val s + digit_val c"
  by (simp add: digits_val_def)

lemma digits_val_of [simp]: "digits_val (digits_of n) = n"
proof (induction n rule: digits_of.induct)
  case (1 n)
  show ?case
  proof (cases "n < 10")
    case True
    then show ?thesis by (simp add: digits_of.simps[of n] digits_val_def)
  next
    case False
    with 1 show ?thesis by (simp add: digits_of.simps[of n] digits_val_snoc)
  qed
qed

lemma digits_of_digits: "c \<in> set (digits_of n) \<Longrightarrow> is_digit c"
proof (induction n rule: digits_of.induct)
  case (1 n)
  then show ?case by (cases "n < 10") (auto simp: digits_of.simps[of n])
qed

lemma digits_of_nonempty [simp]: "digits_of n \<noteq> []"
  by (simp add: digits_of.simps[of n])

lemma digits_of_hd: "n > 0 \<Longrightarrow> hd (digits_of n) \<noteq> CHR ''0''"
proof (induction n rule: digits_of.induct)
  case (1 n)
  show ?case
  proof (cases "n < 10")
    case True
    have "digit_char n \<noteq> CHR ''0''"
      using 1(2) digit_val_char[OF True] by (auto simp: digit_val_def)
    then show ?thesis using True by (simp add: digits_of.simps[of n])
  next
    case False
    with 1 show ?thesis by (simp add: digits_of.simps[of n])
  qed
qed

lemma foldl_digits:
  "foldl (\<lambda>n c. 10 * n + digit_val c) n s = n * 10 ^ length s + digits_val s"
proof (induction s rule: rev_induct)
  case Nil
  show ?case by (simp add: digits_val_def)
next
  case (snoc c s)
  have "foldl (\<lambda>n c. 10 * n + digit_val c) n (s @ [c]) = 10 * (n * 10 ^ length s + digits_val s) + digit_val c"
    by (simp add: snoc.IH)
  also have "\<dots> = n * 10 ^ length (s @ [c]) + digits_val (s @ [c])"
    by (simp add: digits_val_snoc add_mult_distrib2)
  finally show ?case .
qed

lemma digits_val_Cons: "digits_val (c # s) = digit_val c * 10 ^ length s + digits_val s"
  using foldl_digits[of "digit_val c" s] by (simp add: digits_val_def)

lemma digits_val_pos:
  assumes "s \<noteq> []" "\<And>c. c \<in> set s \<Longrightarrow> is_digit c" "hd s \<noteq> CHR ''0''"
  shows "digits_val s > 0"
proof -
  obtain c r where s: "s = c # r" using assms(1) by (cases s) auto
  have "is_digit c" "c \<noteq> CHR ''0''" using assms(2,3) s by auto
  moreover have "digit_char 0 = CHR ''0''"
    by (simp add: digit_char_def char_of_def bit_iff_odd)
  ultimately have "digit_val c \<noteq> 0"
    by (metis digit_char_val)
  then show ?thesis by (simp add: s digits_val_Cons)
qed

lemma digits_of_val:
  assumes "s \<noteq> []" "\<And>c. c \<in> set s \<Longrightarrow> is_digit c" "length s > 1 \<Longrightarrow> hd s \<noteq> CHR ''0''"
  shows "digits_of (digits_val s) = s"
  using assms
proof (induction s rule: rev_induct)
  case Nil
  then show ?case by simp
next
  case (snoc c s)
  have c: "is_digit c" using snoc.prems by simp
  then have d: "digit_val c < 10" by (auto simp: digit_val_def is_digit_def)
  show ?case
  proof (cases "s = []")
    case True
    then show ?thesis
      using c d by (simp add: digits_val_def digits_of.simps[of "digit_val c"] digit_char_val)
  next
    case False
    then have hd: "hd s \<noteq> CHR ''0''" using snoc.prems(3) by (cases s) auto
    have pos: "digits_val s > 0"
      using False snoc.prems(2) hd by (intro digits_val_pos) auto
    have IH: "digits_of (digits_val s) = s"
      using False snoc.prems hd by (intro snoc.IH) auto
    have "digits_of (10 * digits_val s + digit_val c) = digits_of (digits_val s) @ [digit_char (digit_val c)]"
      using pos d by (subst digits_of.simps) auto
    then show ?thesis by (simp add: digits_val_snoc IH c digit_char_val)
  qed
qed

section \<open>Interfaces\<close>

text \<open>
  A \<open>codec\<close> writes the values \<open>ok\<close> accepts as text and reads them back; reading accepts nothing
  else. A \<open>canonical_codec\<close> reads only the text it would write, so one value has one spelling.
\<close>

locale codec =
  fixes enc :: "'a \<Rightarrow> string" and dec :: "string \<Rightarrow> ('e, 'a) result" and ok :: "'a \<Rightarrow> bool"
  assumes dec_enc: "ok x \<Longrightarrow> dec (enc x) = Inr x"
    and dec_ok: "dec s = Inr x \<Longrightarrow> ok x"
begin

lemma enc_inj:
  assumes "ok x" "ok y" "enc x = enc y"
  shows "x = y"
proof -
  have "Inr x = dec (enc y)"
    unfolding assms(3)[symmetric] by (rule dec_enc[OF assms(1), symmetric])
  then show ?thesis
    unfolding dec_enc[OF assms(2)] by (rule Inr_inject)
qed

lemma dec_enc_dec: "dec s = Inr x \<Longrightarrow> dec (enc x) = Inr x"
  by (auto intro: dec_enc dec_ok)

end

locale canonical_codec = codec +
  assumes enc_dec: "dec s = Inr x \<Longrightarrow> enc x = s"
begin

lemma dec_accepts_iff: "(\<exists>x. dec s = Inr x) \<longleftrightarrow> (\<exists>x. ok x \<and> enc x = s)"
proof
  assume "\<exists>x. dec s = Inr x"
  then obtain x where x: "dec s = Inr x" ..
  show "\<exists>x. ok x \<and> enc x = s"
    using dec_ok[OF x] enc_dec[OF x] by auto
next
  assume "\<exists>x. ok x \<and> enc x = s"
  then show "\<exists>x. dec s = Inr x"
    by (auto dest: dec_enc)
qed

lemma dec_Inr_iff: "dec s = Inr x \<longleftrightarrow> ok x \<and> s = enc x"
proof
  show "dec s = Inr x \<Longrightarrow> ok x \<and> s = enc x"
    by (simp add: dec_ok enc_dec)
  show "ok x \<and> s = enc x \<Longrightarrow> dec s = Inr x"
    by (simp add: dec_enc)
qed

end

text \<open>
  A \<open>spelling\<close> is an enumeration of the sources with the table that names its members: the table
  covers every member and names no two alike, which is what makes \<open>MarshalText\<close> and
  \<open>UnmarshalText\<close> a canonical codec.
\<close>

definition spell :: "('a \<times> string) list \<Rightarrow> 'a \<Rightarrow> string" where
  "spell table v = (case map_of table v of None \<Rightarrow> [] | Some s \<Rightarrow> s)"

fun lookup :: "('a \<times> string) list \<Rightarrow> string \<Rightarrow> (string, 'a) result" where
  "lookup [] s = Inl s"
| "lookup ((v, name) # rest) s = (if name \<noteq> [] \<and> name = s then Inr v else lookup rest s)"

lemma lookup_Inr: "lookup table s = Inr v \<Longrightarrow> (v, s) \<in> set table"
  by (induction table s rule: lookup.induct) (auto split: if_splits)

lemma lookup_mem:
  "(v, s) \<in> set table \<Longrightarrow> s \<noteq> [] \<Longrightarrow> distinct (map snd table) \<Longrightarrow> lookup table s = Inr v"
  by (induction table s rule: lookup.induct) (force split: if_splits)+

locale spelling =
  fixes table :: "('a \<times> string) list"
  assumes covers: "map_of table v \<noteq> None"
    and names: "distinct (map snd table)"
    and members: "distinct (map fst table)"
    and named: "[] \<notin> snd ` set table"
begin

lemma spell_mem: "(v, spell table v) \<in> set table"
  using covers[of v] by (auto simp: spell_def dest: map_of_SomeD)

sublocale canonical_codec "spell table" "lookup table" "\<lambda>_. True"
proof unfold_locales
  show "lookup table (spell table v) = Inr v" for v
    using spell_mem[of v] named names by (intro lookup_mem) force+
  show "spell table v = s" if "lookup table s = Inr v" for s v
    using lookup_Inr[OF that] members by (simp add: spell_def)
qed auto

end

text \<open>
  A \<open>machine\<close> is a set of starting states, a step relation and an invariant that holds at the
  start and that every step keeps. Every state a run reaches then has it.
\<close>

locale machine =
  fixes start :: "'s \<Rightarrow> bool" and step :: "'s \<Rightarrow> 's \<Rightarrow> bool" and inv :: "'s \<Rightarrow> bool"
  assumes inv_start: "start s \<Longrightarrow> inv s"
    and inv_step: "inv s \<Longrightarrow> step s t \<Longrightarrow> inv t"
begin

lemma inv_reachable: "start s \<Longrightarrow> step\<^sup>*\<^sup>* s t \<Longrightarrow> inv t"
  by (rotate_tac, induction rule: rtranclp_induct) (auto intro: inv_start inv_step)

lemma inv_steps: "inv s \<Longrightarrow> step\<^sup>*\<^sup>* s t \<Longrightarrow> inv t"
  by (rotate_tac, induction rule: rtranclp_induct) (auto intro: inv_step)

end

end
