(* ===== verification/Vocabulary.thy ===== *)
theory Vocabulary
  imports Prelude
begin

text \<open>
  Package \<open>agk\<close>, the vocabulary every other package speaks: the step verdicts, the task states, the
  run states and the trigger kinds with their spellings; the exit code table and the failures a
  retry policy can name; the grammar of a name; the task identifier, which is the idempotency key;
  the \<open>agk://\<close> URI of an artifact; an image reference.

  An enumeration of the sources is a datatype, its table of names an association list in the
  sources' order, and its \<open>MarshalText\<close> and \<open>UnmarshalText\<close> are \<^const>\<open>spell\<close> and \<^const>\<open>lookup\<close>
  on the table. Errors are values of \<open>name_error\<close> and \<open>parse_error\<close>, one constructor per refusal;
  the sentence a refusal prints is not modelled.
\<close>

section \<open>Verdicts, task states, run states\<close>

datatype verdict = VerdictPending | VerdictRunning | VerdictSucceeded | VerdictFailed
  | VerdictSkipped | VerdictCancelled

definition verdicts :: "(verdict \<times> string) list" where
  "verdicts = [(VerdictPending, ''pending''), (VerdictRunning, ''running''),
     (VerdictSucceeded, ''succeeded''), (VerdictFailed, ''failed''),
     (VerdictSkipped, ''skipped''), (VerdictCancelled, ''cancelled'')]"

fun verdict_Terminal :: "verdict \<Rightarrow> bool" where
  "verdict_Terminal VerdictSucceeded = True"
| "verdict_Terminal VerdictFailed = True"
| "verdict_Terminal VerdictSkipped = True"
| "verdict_Terminal VerdictCancelled = True"
| "verdict_Terminal _ = False"

datatype task_state = TaskPending | TaskDispatched | TaskRunning | TaskPublishing | TaskSucceeded
  | TaskFailed | TaskLost | TaskTimedOut | TaskCancelled

definition taskStates :: "(task_state \<times> string) list" where
  "taskStates = [(TaskPending, ''pending''), (TaskDispatched, ''dispatched''),
     (TaskRunning, ''running''), (TaskPublishing, ''publishing''), (TaskSucceeded, ''succeeded''),
     (TaskFailed, ''failed''), (TaskLost, ''lost''), (TaskTimedOut, ''timed_out''),
     (TaskCancelled, ''cancelled'')]"

fun task_Terminal :: "task_state \<Rightarrow> bool" where
  "task_Terminal TaskSucceeded = True"
| "task_Terminal TaskFailed = True"
| "task_Terminal TaskLost = True"
| "task_Terminal TaskTimedOut = True"
| "task_Terminal TaskCancelled = True"
| "task_Terminal _ = False"

datatype run_state = Queued | Running | Waiting | Succeeded | Failed | Cancelled | TimedOut

definition runStates :: "(run_state \<times> string) list" where
  "runStates = [(Queued, ''queued''), (Running, ''running''), (Waiting, ''waiting''),
     (Succeeded, ''succeeded''), (Failed, ''failed''), (Cancelled, ''cancelled''),
     (TimedOut, ''timed_out'')]"

fun run_Terminal :: "run_state \<Rightarrow> bool" where
  "run_Terminal Succeeded = True"
| "run_Terminal Failed = True"
| "run_Terminal Cancelled = True"
| "run_Terminal TimedOut = True"
| "run_Terminal _ = False"

datatype trigger_kind = TriggerManual | TriggerSchedule | TriggerWebhook | TriggerEvent | TriggerMCP
  | TriggerTerraform | TriggerWorkflow

definition triggerKinds :: "(trigger_kind \<times> string) list" where
  "triggerKinds = [(TriggerManual, ''manual''), (TriggerSchedule, ''schedule''),
     (TriggerWebhook, ''webhook''), (TriggerEvent, ''event''), (TriggerMCP, ''mcp''),
     (TriggerTerraform, ''terraform''), (TriggerWorkflow, ''workflow'')]"

definition Unattended :: "trigger_kind \<Rightarrow> bool" where
  "Unattended t = (t = TriggerSchedule \<or> t = TriggerWebhook \<or> t = TriggerEvent)"

section \<open>The exit code table\<close>

datatype failure = FailureTransient | FailureFailed | FailureLost | FailureTimeout

definition failures :: "(failure \<times> string) list" where
  "failures = [(FailureTransient, ''transient''), (FailureFailed, ''failed''),
     (FailureLost, ''lost''), (FailureTimeout, ''timeout'')]"

definition ParseFailure :: "string \<Rightarrow> (string, failure) result" where
  "ParseFailure s = lookup failures s"

datatype exit_band = BandSuccess | BandApplicationFailure | BandTransientFailure | BandInvalidInput
  | BandReservedForRunner | BandRuntimeFailure

definition Band :: "int \<Rightarrow> exit_band" where
  "Band code =
     (if code = 0 then BandSuccess
      else if code \<ge> 1 \<and> code \<le> 99 then BandApplicationFailure
      else if code \<ge> 100 \<and> code \<le> 119 then BandTransientFailure
      else if code = 120 then BandInvalidInput
      else if code \<ge> 121 \<and> code \<le> 124 then BandReservedForRunner
      else BandRuntimeFailure)"

fun band_Retryable :: "exit_band \<Rightarrow> bool" where
  "band_Retryable BandApplicationFailure = True"
| "band_Retryable BandTransientFailure = True"
| "band_Retryable _ = False"

fun band_Failure :: "exit_band \<Rightarrow> failure option" where
  "band_Failure BandApplicationFailure = Some FailureFailed"
| "band_Failure BandTransientFailure = Some FailureTransient"
| "band_Failure _ = None"

section \<open>Names\<close>

datatype name_error = NameEmpty | NameTooLong nat | NotIdentifier string | NamesDirectory string
  | CarriesByte char

definition IdentifierMaxBytes :: nat where "IdentifierMaxBytes = 255"

definition PortMaxBytes :: nat where "PortMaxBytes = IdentifierMaxBytes - length ''.json''"

definition is_alnum :: "char \<Rightarrow> bool" where
  "is_alnum c = (let n = (of_char c :: nat) in
     (65 \<le> n \<and> n \<le> 90) \<or> (97 \<le> n \<and> n \<le> 122) \<or> (48 \<le> n \<and> n \<le> 57))"

definition agk_identifier :: "string \<Rightarrow> name_error option" where
  "agk_identifier v =
     (if v = [] then Some NameEmpty
      else if length v > IdentifierMaxBytes then Some (NameTooLong (length v))
      else if is_alnum (hd v) \<and> (\<forall>c \<in> set (tl v). is_alnum c \<or> c = CHR ''_'' \<or> c = CHR ''-'')
      then None
      else Some (NotIdentifier v))"

definition segment_refuses :: "char \<Rightarrow> bool" where
  "segment_refuses c = (let n = (of_char c :: nat) in
     n \<le> 32 \<or> n = 127 \<or> c \<in> {CHR ''/'', CHR 0x5C, CHR ''?'', CHR ''#'', CHR ''['', CHR '']''})"

definition segment :: "string \<Rightarrow> name_error option" where
  "segment v =
     (if v = [] then Some NameEmpty
      else if v = ''.'' \<or> v = ''..'' then Some (NamesDirectory v)
      else map_option CarriesByte (find segment_refuses v))"

definition RunID_Validate :: "string \<Rightarrow> name_error option" where
  "RunID_Validate r = (if r = [] then Some NameEmpty else segment r)"

definition ReservedNamespaces :: "string list" where
  "ReservedNamespaces = [''auth'', ''me'', ''users'', ''groups'', ''service-accounts'',
     ''namespaces'', ''runners'', ''runner-pools'', ''bus'', ''tasks'', ''bricks'', ''runs'',
     ''artifacts'', ''stats'', ''api'', ''hooks'', ''mcp'', ''objects'']"

record late_reservation =
  lr_Word :: string
  lr_Since :: string
  lr_Route :: string
  lr_Served :: string
  lr_Console :: bool

definition LateReservations :: "late_reservation list" where
  "LateReservations =
    [\<lparr>lr_Word = ''stats'', lr_Since = ''v0.3.0'', lr_Route = ''GET /api/v1/stats/pools'',
      lr_Served = ''v0.6.0'', lr_Console = False\<rparr>,
     \<lparr>lr_Word = ''api'', lr_Since = ''v0.7.0'', lr_Route = ''GET /{namespace}'',
      lr_Served = ''v0.6.0'', lr_Console = True\<rparr>,
     \<lparr>lr_Word = ''hooks'', lr_Since = ''v0.7.0'', lr_Route = ''GET /{namespace}'',
      lr_Served = ''v0.6.0'', lr_Console = True\<rparr>,
     \<lparr>lr_Word = ''mcp'', lr_Since = ''v0.7.0'', lr_Route = ''GET /{namespace}'',
      lr_Served = ''v0.6.0'', lr_Console = True\<rparr>,
     \<lparr>lr_Word = ''objects'', lr_Since = ''v0.7.0'', lr_Route = ''GET /{namespace}'',
      lr_Served = ''v0.6.0'', lr_Console = True\<rparr>]"

definition IsReservedNamespace :: "string \<Rightarrow> bool" where
  "IsReservedNamespace name = (name \<in> set ReservedNamespaces)"

definition ReservedLate :: "string \<Rightarrow> late_reservation option" where
  "ReservedLate name = find (\<lambda>r. name = lr_Word r) LateReservations"

definition NamesNoNamespace :: "string \<Rightarrow> bool" where
  "NamesNoNamespace name = (IsReservedNamespace name \<and> ReservedLate name = None)"

section \<open>Shards and task identifiers\<close>

record shard =
  sh_Index :: int
  sh_Of :: int

definition no_shard :: shard where "no_shard = \<lparr>sh_Index = 0, sh_Of = 0\<rparr>"

definition shard_IsZero :: "shard \<Rightarrow> bool" where
  "shard_IsZero s = (sh_Index s = 0 \<and> sh_Of s = 0)"

definition shard_String :: "shard \<Rightarrow> string" where
  "shard_String s = (if shard_IsZero s then [] else itoa (sh_Index s) @ ''/'' @ itoa (sh_Of s))"

datatype parse_error = NotTaskID | InName name_error | NumberEmpty | NotDigits string
  | LeadingZero string | NumberRange string | AttemptBelowOne int | ShardCardinality int
  | ShardIndex int int | ShardWritten | NotCanonical | NotURI | NotURIForm

definition shard_Validate :: "shard \<Rightarrow> parse_error option" where
  "shard_Validate s =
     (if shard_IsZero s then None
      else if sh_Of s < 1 then Some (ShardCardinality (sh_Of s))
      else if sh_Index s < 1 \<or> sh_Index s > sh_Of s then Some (ShardIndex (sh_Index s) (sh_Of s))
      else None)"

definition number :: "string \<Rightarrow> (parse_error, int) result" where
  "number s =
     (if s = [] then Inl NumberEmpty
      else if \<not> list_all is_digit s then Inl (NotDigits s)
      else if length s > 1 \<and> hd s = CHR ''0'' then Inl (LeadingZero s)
      else if int (digits_val s) > max_int64 then Inl (NumberRange s)
      else Inr (int (digits_val s)))"

definition NewTaskID :: "string \<Rightarrow> string \<Rightarrow> int \<Rightarrow> shard \<Rightarrow> string" where
  "NewTaskID run step attempt sh =
     run @ ''/'' @ step @ ''/'' @ itoa attempt @ (if shard_IsZero sh then [] else ''/'' @ shard_String sh)"

definition named :: "name_error option \<Rightarrow> (parse_error, unit) result" where
  "named e = (case e of None \<Rightarrow> Inr () | Some x \<Rightarrow> Inl (InName x))"

definition parseShard :: "string list \<Rightarrow> (parse_error, shard) result" where
  "parseShard parts =
     (if length parts = 5
      then rbind (number (parts ! 3)) (\<lambda>i. rbind (number (parts ! 4)) (\<lambda>n.
             let sh = \<lparr>sh_Index = i, sh_Of = n\<rparr> in
             case shard_Validate sh of
               Some e \<Rightarrow> Inl e
             | None \<Rightarrow> if shard_IsZero sh then Inl ShardWritten else Inr sh))
      else Inr no_shard)"

definition ParseTaskID :: "string \<Rightarrow> (parse_error, string \<times> string \<times> int \<times> shard) result" where
  "ParseTaskID s =
     (let parts = split_on CHR ''/'' s in
      if length parts \<noteq> 3 \<and> length parts \<noteq> 5 then Inl NotTaskID
      else rbind (named (RunID_Validate (parts ! 0))) (\<lambda>_.
           rbind (named (agk_identifier (parts ! 1))) (\<lambda>_.
           rbind (number (parts ! 2)) (\<lambda>attempt.
           if attempt < 1 then Inl (AttemptBelowOne attempt)
           else rbind (parseShard parts) (\<lambda>sh. Inr (parts ! 0, parts ! 1, attempt, sh))))))"

definition TaskID_Validate :: "string \<Rightarrow> parse_error option" where
  "TaskID_Validate t =
     (case ParseTaskID t of
        Inl e \<Rightarrow> Some e
      | Inr (run, step, attempt, sh) \<Rightarrow>
          if NewTaskID run step attempt sh \<noteq> t then Some NotCanonical else None)"

section \<open>Artifact URIs and image references\<close>

definition uriPrefix :: string where "uriPrefix = ''agk://run/''"

record uri =
  u_Run :: string
  u_Step :: string
  u_Port :: string
  u_Name :: string

definition URI_String :: "uri \<Rightarrow> string" where
  "URI_String u = uriPrefix @ u_Run u @ ''/'' @ u_Step u @ ''/'' @ u_Port u @ ''/'' @ u_Name u"

definition URI_validate :: "uri \<Rightarrow> (parse_error, unit) result" where
  "URI_validate u =
     rbind (named (RunID_Validate (u_Run u))) (\<lambda>_.
     rbind (named (agk_identifier (u_Step u))) (\<lambda>_.
     rbind (named (agk_identifier (u_Port u))) (\<lambda>_.
     named (segment (u_Name u)))))"

definition ParseURI :: "string \<Rightarrow> (parse_error, uri) result" where
  "ParseURI s =
     (case cut_prefix s uriPrefix of
        None \<Rightarrow> Inl NotURI
      | Some rest \<Rightarrow>
          (let p = split_on CHR ''/'' rest in
           if length p \<noteq> 4 then Inl NotURIForm
           else let u = \<lparr>u_Run = p ! 0, u_Step = p ! 1, u_Port = p ! 2, u_Name = p ! 3\<rparr> in
                rbind (URI_validate u) (\<lambda>_. Inr u)))"

definition is_hex :: "char \<Rightarrow> bool" where
  "is_hex c = (let n = (of_char c :: nat) in (48 \<le> n \<and> n \<le> 57) \<or> (97 \<le> n \<and> n \<le> 102))"

definition re_space :: "char \<Rightarrow> bool" where
  "re_space c = ((of_char c :: nat) \<in> {9, 10, 12, 13, 32})"

definition ImageByDigest :: "string \<Rightarrow> bool" where
  "ImageByDigest ref =
     (case cut_at CHR ''@'' ref of
        None \<Rightarrow> False
      | Some (repo, rest) \<Rightarrow>
          repo \<noteq> [] \<and> (\<forall>c \<in> set repo. \<not> re_space c) \<and>
          (case cut_prefix rest ''sha256:'' of
             None \<Rightarrow> False
           | Some d \<Rightarrow> length d = 64 \<and> list_all is_hex d))"

definition ImageRepository :: "string \<Rightarrow> string" where
  "ImageRepository ref =
     (let ref = takeWhile (\<lambda>c. c \<noteq> CHR ''@'') ref;
          last_part = rev (takeWhile (\<lambda>c. c \<noteq> CHR ''/'') (rev ref))
      in if CHR '':'' \<in> set last_part
         then rev (drop 1 (dropWhile (\<lambda>c. c \<noteq> CHR '':'') (rev ref)))
         else ref)"

section \<open>The spellings are codecs\<close>

text \<open>
  \<open>MarshalText\<close> of a member followed by \<open>UnmarshalText\<close> gives the member back, no two members are
  spelled alike, and a text that is not a member's name is refused: the interpretations below give
  these laws for each table.
\<close>

interpretation verdict_names: spelling verdicts
proof unfold_locales
  show "map_of verdicts v \<noteq> None" for v by (cases v) (simp_all add: verdicts_def)
qed (simp_all add: verdicts_def)

interpretation task_names: spelling taskStates
proof unfold_locales
  show "map_of taskStates v \<noteq> None" for v by (cases v) (simp_all add: taskStates_def)
qed (simp_all add: taskStates_def)

interpretation run_names: spelling runStates
proof unfold_locales
  show "map_of runStates v \<noteq> None" for v by (cases v) (simp_all add: runStates_def)
qed (simp_all add: runStates_def)

interpretation trigger_names: spelling triggerKinds
proof unfold_locales
  show "map_of triggerKinds v \<noteq> None" for v by (cases v) (simp_all add: triggerKinds_def)
qed (simp_all add: triggerKinds_def)

interpretation failure_names: spelling failures
proof unfold_locales
  show "map_of failures v \<noteq> None" for v by (cases v) (simp_all add: failures_def)
qed (simp_all add: failures_def)

section \<open>Names hold no separator\<close>

lemma segment_None_iff:
  "segment v = None \<longleftrightarrow> v \<noteq> [] \<and> v \<noteq> ''.'' \<and> v \<noteq> ''..'' \<and> (\<forall>c \<in> set v. \<not> segment_refuses c)"
  by (auto simp: segment_def find_None_iff)

lemma segment_no_slash: "segment v = None \<Longrightarrow> CHR ''/'' \<notin> set v"
  by (auto simp: segment_None_iff segment_refuses_def)

lemma RunID_Validate_None_iff: "RunID_Validate r = None \<longleftrightarrow> segment r = None"
  by (auto simp: RunID_Validate_def segment_def)

lemma identifier_None_iff:
  "agk_identifier v = None \<longleftrightarrow> v \<noteq> [] \<and> length v \<le> IdentifierMaxBytes \<and> is_alnum (hd v) \<and>
     (\<forall>c \<in> set (tl v). is_alnum c \<or> c = CHR ''_'' \<or> c = CHR ''-'')"
  by (auto simp: agk_identifier_def)

lemma identifier_chars:
  "agk_identifier v = None \<Longrightarrow> c \<in> set v \<Longrightarrow> is_alnum c \<or> c = CHR ''_'' \<or> c = CHR ''-''"
  by (cases v) (auto simp: identifier_None_iff)

lemma identifier_no_slash: "agk_identifier v = None \<Longrightarrow> CHR ''/'' \<notin> set v"
  using identifier_chars[of v "CHR ''/''"] by (auto simp: is_alnum_def)

lemma identifier_is_segment: "agk_identifier v = None \<Longrightarrow> segment v = None"
proof -
  assume v: "agk_identifier v = None"
  have "\<not> segment_refuses c" if "c \<in> set v" for c
    using identifier_chars[OF v that] by (auto simp: is_alnum_def segment_refuses_def Let_def)
  moreover have "v \<noteq> ''.''" "v \<noteq> ''..''" "v \<noteq> []"
    using v by (auto simp: identifier_None_iff is_alnum_def)
  ultimately show ?thesis by (simp add: segment_None_iff)
qed

lemma named_Inr [simp]: "named e = Inr u \<longleftrightarrow> e = None"
  by (auto simp: named_def split: option.splits)

section \<open>Numbers have one spelling\<close>

lemma number_itoa: "0 \<le> n \<Longrightarrow> n \<le> max_int64 \<Longrightarrow> number (itoa n) = Inr n"
proof -
  assume n: "0 \<le> n" "n \<le> max_int64"
  have "hd (digits_of (nat n)) \<noteq> CHR ''0''" if "length (digits_of (nat n)) > 1"
  proof (cases "nat n = 0")
    case True
    with that show ?thesis by (simp add: digits_of.simps)
  next
    case False
    then show ?thesis by (intro digits_of_hd) simp
  qed
  with n show ?thesis
    by (auto simp: number_def itoa_def list_all_iff dest: digits_of_digits)
qed

lemma number_Inr:
  assumes "number s = Inr n"
  shows "itoa n = s \<and> 0 \<le> n \<and> n \<le> max_int64"
proof -
  have s: "s \<noteq> []" "list_all is_digit s" "length s > 1 \<Longrightarrow> hd s \<noteq> CHR ''0''"
    and n: "n = int (digits_val s)" "n \<le> max_int64"
    using assms by (auto simp: number_def split: if_splits)
  have "digits_of (digits_val s) = s"
    using s by (intro digits_of_val) (auto simp: list_all_iff)
  with n show ?thesis by (simp add: itoa_def)
qed

lemma itoa_no_slash: "0 \<le> n \<Longrightarrow> CHR ''/'' \<notin> set (itoa n)"
  using digits_of_digits[of "CHR ''/''" "nat n"] by (auto simp: itoa_def is_digit_def)

section \<open>The task identifier is a canonical codec\<close>

text \<open>The tasks there can be: what \<open>NewTaskID\<close> is called with.\<close>

definition task_ok :: "string \<times> string \<times> int \<times> shard \<Rightarrow> bool" where
  "task_ok = (\<lambda>(run, step, attempt, sh).
     RunID_Validate run = None \<and> agk_identifier step = None \<and> 1 \<le> attempt \<and> attempt \<le> max_int64 \<and>
     shard_Validate sh = None \<and> sh_Of sh \<le> max_int64)"

abbreviation task_id :: "string \<times> string \<times> int \<times> shard \<Rightarrow> string" where
  "task_id \<equiv> \<lambda>(run, step, attempt, sh). NewTaskID run step attempt sh"

lemma shard_eta [simp]: "\<lparr>sh_Index = sh_Index sh, sh_Of = sh_Of sh\<rparr> = sh"
  by (cases sh) simp

lemma shard_zero_iff: "shard_IsZero sh \<longleftrightarrow> sh = no_shard"
  by (cases sh) (auto simp: shard_IsZero_def no_shard_def)

lemma task_id_parts:
  "NewTaskID run step attempt sh =
     join_with ''/'' ([run, step, itoa attempt] @
       (if shard_IsZero sh then [] else [itoa (sh_Index sh), itoa (sh_Of sh)]))"
  by (simp add: NewTaskID_def shard_String_def)

lemma split_task_id:
  assumes "task_ok (run, step, attempt, sh)"
  shows "split_on CHR ''/'' (NewTaskID run step attempt sh) =
     [run, step, itoa attempt] @ (if shard_IsZero sh then [] else [itoa (sh_Index sh), itoa (sh_Of sh)])"
  unfolding task_id_parts
proof (rule split_on_join)
  have "CHR ''/'' \<notin> set run" "CHR ''/'' \<notin> set step"
    using assms by (auto simp: task_ok_def RunID_Validate_None_iff segment_no_slash identifier_no_slash)
  moreover have "0 \<le> sh_Index sh \<and> 0 \<le> sh_Of sh"
    using assms by (auto simp: task_ok_def shard_Validate_def shard_IsZero_def split: if_splits)
  moreover have "0 \<le> attempt" using assms by (simp add: task_ok_def)
  ultimately show "CHR ''/'' \<notin> set p"
    if "p \<in> set ([run, step, itoa attempt] @
          (if shard_IsZero sh then [] else [itoa (sh_Index sh), itoa (sh_Of sh)]))" for p
    using that itoa_no_slash by (auto split: if_splits)
qed simp

lemma ParseTaskID_NewTaskID:
  assumes ok: "task_ok (run, step, attempt, sh)"
  shows "ParseTaskID (NewTaskID run step attempt sh) = Inr (run, step, attempt, sh)"
proof -
  have v: "RunID_Validate run = None" "agk_identifier step = None" "1 \<le> attempt" "attempt \<le> max_int64"
    "shard_Validate sh = None" "sh_Of sh \<le> max_int64"
    using ok by (auto simp: task_ok_def)
  have n: "number (itoa attempt) = Inr attempt" using v by (intro number_itoa) auto
  show ?thesis
  proof (cases "shard_IsZero sh")
    case True
    then have "split_on CHR ''/'' (NewTaskID run step attempt sh) = [run, step, itoa attempt]"
      using split_task_id[OF ok] by simp
    with True v n show ?thesis
      by (simp add: ParseTaskID_def named_def parseShard_def shard_zero_iff)
  next
    case False
    then have i: "1 \<le> sh_Index sh" "sh_Index sh \<le> sh_Of sh"
      using v by (auto simp: shard_Validate_def split: if_splits)
    then have "number (itoa (sh_Index sh)) = Inr (sh_Index sh)" "number (itoa (sh_Of sh)) = Inr (sh_Of sh)"
      using v by (auto intro!: number_itoa)
    with False v n show ?thesis
      by (simp add: ParseTaskID_def split_task_id[OF ok] named_def parseShard_def Let_def)
  qed
qed

lemma parseShard_Inr:
  assumes "parseShard parts = Inr sh" "length parts = 3 \<or> length parts = 5"
  shows "shard_Validate sh = None \<and> sh_Of sh \<le> max_int64 \<and>
     drop 3 parts = (if shard_IsZero sh then [] else [itoa (sh_Index sh), itoa (sh_Of sh)])"
proof (cases "length parts = 5")
  case False
  with assms show ?thesis
    by (auto simp: parseShard_def no_shard_def shard_Validate_def shard_IsZero_def max_int64_def)
next
  case True
  then obtain i n where i: "number (parts ! 3) = Inr i" "number (parts ! 4) = Inr n"
    and sh: "sh = \<lparr>sh_Index = i, sh_Of = n\<rparr>" "shard_Validate sh = None" "\<not> shard_IsZero sh"
    using assms(1) by (auto simp: parseShard_def Let_def split: option.splits if_splits)
  have "drop 3 parts = [parts ! 3, parts ! 4]"
    using True by (simp add: list_eq_iff_nth_eq nth_Cons split: nat.splits)
  with i sh show ?thesis
    using number_Inr[OF i(1)] number_Inr[OF i(2)] by simp
qed

lemma ParseTaskID_Inr:
  assumes "ParseTaskID s = Inr (run, step, attempt, sh)"
  shows "task_ok (run, step, attempt, sh) \<and> NewTaskID run step attempt sh = s"
proof -
  define parts where "parts = split_on CHR ''/'' s"
  have len: "length parts = 3 \<or> length parts = 5"
    and ok: "RunID_Validate run = None" "agk_identifier step = None" "1 \<le> attempt"
    and n: "number (parts ! 2) = Inr attempt" and r: "run = parts ! 0" "step = parts ! 1"
    and sh: "parseShard parts = Inr sh"
    using assms by (auto simp: ParseTaskID_def parts_def Let_def split: if_splits)
  note q = parseShard_Inr[OF sh len]
  note m = number_Inr[OF n]
  have "parts = take 3 parts @ drop 3 parts" by simp
  also have "take 3 parts = [run, step, itoa attempt]"
    using len r m take_3[of parts] by auto
  finally have "parts = [run, step, itoa attempt] @
      (if shard_IsZero sh then [] else [itoa (sh_Index sh), itoa (sh_Of sh)])"
    using q by simp
  then have "NewTaskID run step attempt sh = join_with ''/'' parts"
    by (simp add: task_id_parts)
  then have "NewTaskID run step attempt sh = s"
    by (simp add: parts_def join_split)
  with ok q m show ?thesis by (simp add: task_ok_def)
qed

interpretation task_ids: canonical_codec task_id ParseTaskID task_ok
proof unfold_locales
  show "ParseTaskID (task_id x) = Inr x" if "task_ok x" for x
    using that ParseTaskID_NewTaskID by (cases x) auto
  show "task_ok x" "task_id x = s" if "ParseTaskID s = Inr x" for s x
    using that ParseTaskID_Inr[of s] by (cases x; auto)+
qed

section \<open>The artifact URI is a canonical codec\<close>

abbreviation uri_ok :: "uri \<Rightarrow> bool" where
  "uri_ok u \<equiv> URI_validate u = Inr ()"

lemma uri_ok_iff:
  "uri_ok u \<longleftrightarrow> RunID_Validate (u_Run u) = None \<and> agk_identifier (u_Step u) = None \<and>
     agk_identifier (u_Port u) = None \<and> segment (u_Name u) = None"
  by (auto simp: URI_validate_def)

lemma uri_eta [simp]:
  "\<lparr>u_Run = u_Run u, u_Step = u_Step u, u_Port = u_Port u, u_Name = u_Name u\<rparr> = u"
  by (cases u) simp

lemma uri_parts:
  "URI_String u = uriPrefix @ join_with ''/'' [u_Run u, u_Step u, u_Port u, u_Name u]"
  by (simp add: URI_String_def)

interpretation uris: canonical_codec URI_String ParseURI uri_ok
proof unfold_locales
  fix u assume ok: "uri_ok u"
  have "split_on CHR ''/'' (join_with ''/'' [u_Run u, u_Step u, u_Port u, u_Name u]) =
      [u_Run u, u_Step u, u_Port u, u_Name u]"
    using ok by (intro split_on_join)
      (auto simp: uri_ok_iff RunID_Validate_None_iff segment_no_slash identifier_no_slash)
  with ok show "ParseURI (URI_String u) = Inr u"
    unfolding uri_parts by (simp add: ParseURI_def Let_def)
next
  fix s u assume "ParseURI s = Inr u"
  then obtain rest where rest: "s = uriPrefix @ rest" "length (split_on CHR ''/'' rest) = 4"
    and u: "u = \<lparr>u_Run = split_on CHR ''/'' rest ! 0, u_Step = split_on CHR ''/'' rest ! 1,
        u_Port = split_on CHR ''/'' rest ! 2, u_Name = split_on CHR ''/'' rest ! 3\<rparr>"
    and ok: "uri_ok u"
    by (auto simp: ParseURI_def cut_prefix_Some_iff Let_def split: option.splits if_splits)
  show "uri_ok u" by (rule ok)
  have "split_on CHR ''/'' rest = [u_Run u, u_Step u, u_Port u, u_Name u]"
    using length_4[OF rest(2)] u by simp
  then show "URI_String u = s"
    unfolding uri_parts using join_split[of "CHR ''/''" rest] rest(1) by simp
qed

section \<open>Properties\<close>

text \<open>
  The idempotency key is canonical. A text parses as a task identifier exactly when it is the
  identifier \<open>NewTaskID\<close> writes for a run name, a step name, an attempt of at least one and a shard
  that hold, and what it parses to is that task: parsing inverts printing, two tasks have two
  identifiers, and one task has one.
\<close>

theorem task_id_canonical:
  "ParseTaskID s = Inr (run, step, attempt, sh) \<longleftrightarrow>
     task_ok (run, step, attempt, sh) \<and> s = NewTaskID run step attempt sh"
  using task_ids.dec_Inr_iff[of s "(run, step, attempt, sh)"] by simp

text \<open>
  \<open>TaskID.Validate\<close> accepts a text exactly when it parses: the second refusal it can give, that
  an identifier parses and is not written the one way it is written, never comes.
\<close>

theorem task_id_validate:
  "TaskID_Validate t = None \<longleftrightarrow> (\<exists>task. ParseTaskID t = Inr task)"
proof (cases "ParseTaskID t")
  case (Inl e)
  then show ?thesis by (simp add: TaskID_Validate_def)
next
  case (Inr x)
  then show ?thesis
    using ParseTaskID_Inr[of t "fst x" "fst (snd x)" "fst (snd (snd x))" "snd (snd (snd x))"]
    by (cases x) (simp add: TaskID_Validate_def)
qed

text \<open>
  An artifact URI has one spelling. A text parses as the URI of an artifact exactly when it is
  what \<open>URI.String\<close> writes for a URI whose run, step, port and name hold.
\<close>

theorem uri_canonical:
  "ParseURI s = Inr u \<longleftrightarrow> URI_validate u = Inr () \<and> s = URI_String u"
  by (rule uris.dec_Inr_iff)

text \<open>
  The spellings of the verdicts, the task states, the run states, the trigger kinds and the
  failures are read back as what they were written from, and nothing else is read: each table has
  one name per member and one member per name.
\<close>

theorem spellings_canonical:
  "(lookup verdicts s = Inr v \<longleftrightarrow> s = spell verdicts v) \<and>
   (lookup taskStates s = Inr ts \<longleftrightarrow> s = spell taskStates ts) \<and>
   (lookup runStates s = Inr rs \<longleftrightarrow> s = spell runStates rs) \<and>
   (lookup triggerKinds s = Inr tk \<longleftrightarrow> s = spell triggerKinds tk) \<and>
   (ParseFailure s = Inr f \<longleftrightarrow> s = spell failures f)"
  by (simp add: ParseFailure_def verdict_names.dec_Inr_iff task_names.dec_Inr_iff
      run_names.dec_Inr_iff trigger_names.dec_Inr_iff failure_names.dec_Inr_iff)

end
