(* ===== verification/Golib.thy ===== *)
theory Golib
  imports Vocabulary
begin

text \<open>
  The parts of Go's standard library the envelope and the evaluator call: \<open>encoding/json\<close> as an
  encoder of values (compact, keys in order, strings escaped), \<open>time.Time\<close> written as RFC 3339 with
  nanoseconds, and \<open>mime.ParseMediaType\<close>. A value of type \<open>any\<close> as it comes out of a decoder that
  keeps numbers as they were written is a \<open>json\<close>: a number is its text. \<open>JSecret\<close> is
  \<open>graph.SecretParam\<close>, the reference to a secret that stands for a value once an expression naming
  one has been resolved; it is written as the object that names it.
\<close>

datatype json = JNull | JBool bool | JNum string | JStr string | JArr "json list"
  | JObj "(string \<times> json) list" | JSecret string

section \<open>Strings as JSON writes them\<close>

definition byte :: "char \<Rightarrow> nat" where "byte c = of_char c"

definition hex_char :: "nat \<Rightarrow> char" where
  "hex_char n = (if n < 10 then char_of (48 + n) else char_of (87 + n))"

text \<open>
  The number of bytes of the rune a string begins with, \<open>0\<close> where the bytes are not UTF-8: what
  \<open>utf8.DecodeRuneInString\<close> answers for a first byte of 128 or more.
\<close>

definition cont_byte :: "nat \<Rightarrow> bool" where "cont_byte b = (128 \<le> b \<and> b \<le> 191)"

definition utf8_len :: "nat list \<Rightarrow> nat" where
  "utf8_len bs =
     (case bs of
        b0 # b1 # rest \<Rightarrow>
          if 194 \<le> b0 \<and> b0 \<le> 223 then (if cont_byte b1 then 2 else 0)
          else if 224 \<le> b0 \<and> b0 \<le> 239 then
            (case rest of
               b2 # _ \<Rightarrow>
                 if (if b0 = 224 then 160 else 128) \<le> b1 \<and> b1 \<le> (if b0 = 237 then 159 else 191) \<and> cont_byte b2
                 then 3 else 0
             | [] \<Rightarrow> 0)
          else if 240 \<le> b0 \<and> b0 \<le> 244 then
            (case rest of
               b2 # b3 # _ \<Rightarrow>
                 if (if b0 = 240 then 144 else 128) \<le> b1 \<and> b1 \<le> (if b0 = 244 then 143 else 191) \<and> cont_byte b2 \<and> cont_byte b3
                 then 4 else 0
             | _ \<Rightarrow> 0)
          else 0
      | _ \<Rightarrow> 0)"

definition escape_ascii :: "bool \<Rightarrow> char \<Rightarrow> string" where
  "escape_ascii html c =
     (let b = byte c; bs = CHR 0x5C in
      if c = bs \<or> b = 34 then [bs, c]
      else if b = 8 then [bs, CHR ''b'']
      else if b = 12 then [bs, CHR ''f'']
      else if b = 10 then [bs, CHR ''n'']
      else if b = 13 then [bs, CHR ''r'']
      else if b = 9 then [bs, CHR ''t'']
      else if b < 32 \<or> (html \<and> b \<in> {38, 60, 62})
      then bs # ''u00'' @ [hex_char (b div 16), hex_char (b mod 16)]
      else [c])"

function escape :: "bool \<Rightarrow> string \<Rightarrow> string" where
  "escape html [] = []"
| "escape html (c # cs) =
     (if byte c < 128 then escape_ascii html c @ escape html cs
      else let k = utf8_len (map byte (c # cs)) in
           if k = 0 then CHR 0x5C # ''ufffd'' @ escape html cs
           else if map byte (take 2 (c # cs)) = [226, 128] \<and> byte (cs ! 1) \<in> {168, 169}
           then CHR 0x5C # ''u202'' @ [hex_char (byte (cs ! 1) mod 16)] @ escape html (drop 2 cs)
           else take k (c # cs) @ escape html (drop (k - 1) cs))"
  by pat_completeness auto
termination
  by (relation "measure (\<lambda>(html, s). length s)") auto

definition quote :: "bool \<Rightarrow> string \<Rightarrow> string" where
  "quote html s = CHR 0x22 # escape html s @ [CHR 0x22]"

section \<open>Values as JSON writes them\<close>

definition obj_text :: "bool \<Rightarrow> (string \<times> string) list \<Rightarrow> string" where
  "obj_text html kvs =
     ''{'' @ join_with '','' (map (\<lambda>(k, v). quote html k @ '':'' @ v) kvs) @ ''}''"

definition arr_text :: "string list \<Rightarrow> string" where
  "arr_text vs = ''['' @ join_with '','' vs @ '']''"

text \<open>
  A Go map is written with its keys in order. \<open>html\<close> says whether the encoder escapes \<open><\<close>, \<open>>\<close> and
  \<open>&\<close>, which \<open>json.Marshal\<close> does and an encoder with \<open>SetEscapeHTML(false)\<close> does not.
\<close>

fun encode :: "bool \<Rightarrow> json \<Rightarrow> string" where
  "encode html JNull = ''null''"
| "encode html (JBool b) = (if b then ''true'' else ''false'')"
| "encode html (JNum s) = s"
| "encode html (JStr s) = quote html s"
| "encode html (JArr vs) = arr_text (map (encode html) vs)"
| "encode html (JObj kvs) =
     obj_text html (sort_key fst (AList.clearjunk (map (\<lambda>(k, v). (k, encode html v)) kvs)))"
| "encode html (JSecret s) = obj_text html [(''secret'', quote html s)]"

definition json_size :: "json \<Rightarrow> int" where
  "json_size v = int (length (encode False v))"

section \<open>Instants as JSON writes them\<close>

definition pad :: "nat \<Rightarrow> int \<Rightarrow> string" where
  "pad w n = (let d = digits_of (nat n) in replicate (w - length d) CHR ''0'' @ d)"

definition leap :: "int \<Rightarrow> bool" where
  "leap y = (y mod 4 = 0 \<and> (y mod 100 \<noteq> 0 \<or> y mod 400 = 0))"

text \<open>The year and the day of the year, from the days since 1 January of year 1.\<close>

definition year_day :: "int \<Rightarrow> int \<times> int" where
  "year_day d =
     (let n400 = d div 146097; d1 = d mod 146097;
          n100 = min 3 (d1 div 36524); d2 = d1 - n100 * 36524;
          n4 = d2 div 1461; d3 = d2 mod 1461;
          n1 = min 3 (d3 div 365); d4 = d3 - n1 * 365
      in (400 * n400 + 100 * n100 + 4 * n4 + n1 + 1, d4))"

fun month_day :: "int list \<Rightarrow> int \<Rightarrow> int \<Rightarrow> int \<times> int" where
  "month_day [] m d = (m, d + 1)"
| "month_day (n # ns) m d = (if d < n then (m, d + 1) else month_day ns (m + 1) (d - n))"

definition months :: "int \<Rightarrow> int list" where
  "months y = [31, if leap y then 29 else 28, 31, 30, 31, 30, 31, 31, 30, 31, 30, 31]"

definition fraction :: "int \<Rightarrow> string" where
  "fraction ns = (if ns = 0 then []
     else CHR ''.'' # rev (dropWhile (\<lambda>c. c = CHR ''0'') (rev (pad 9 ns))))"

definition time_text :: "time \<Rightarrow> string option" where
  "time_text t =
     (let secs = t div 1000000000; ns = t mod 1000000000;
          days = secs div 86400; sod = secs mod 86400;
          (y, yd) = year_day days; (mo, da) = month_day (months y) 1 yd
      in if y < 0 \<or> y > 9999 then None
         else Some (pad 4 y @ ''-'' @ pad 2 mo @ ''-'' @ pad 2 da @ ''T'' @
                    pad 2 (sod div 3600) @ '':'' @ pad 2 (sod mod 3600 div 60) @ '':'' @
                    pad 2 (sod mod 60) @ fraction ns @ ''Z''))"

section \<open>Media types\<close>

text \<open>
  \<open>unicode.IsSpace\<close> on the rune a string begins with, as the number of bytes to drop, and
  \<open>strings.TrimLeftFunc\<close> and \<open>strings.TrimSpace\<close> by it; \<open>strings.ToLower\<close> as far as an ASCII result
  goes, the Kelvin sign and the dotted capital I among what it maps into ASCII.
\<close>

definition space_len :: "string \<Rightarrow> nat" where
  "space_len s =
     (let bs = map byte (take 3 s) in
      if bs \<noteq> [] \<and> hd bs \<in> {9, 10, 11, 12, 13, 32} then 1
      else if take 2 bs = [194, 133] \<or> take 2 bs = [194, 160] then 2
      else if bs = [225, 154, 128] \<or> bs = [226, 129, 159] \<or> bs = [227, 128, 128] then 3
      else if take 2 bs = [226, 128] \<and> length bs = 3 \<and>
              ((128 \<le> bs ! 2 \<and> bs ! 2 \<le> 138) \<or> bs ! 2 \<in> {168, 169, 175}) then 3
      else 0)"

function trim_left :: "string \<Rightarrow> string" where
  "trim_left s = (if space_len s = 0 \<or> s = [] then s else trim_left (drop (space_len s) s))"
  by pat_completeness auto
termination
  by (relation "measure length") auto

declare trim_left.simps [simp del]

definition all_space :: "string \<Rightarrow> bool" where "all_space s = (trim_left s = [])"

definition trim_space :: "string \<Rightarrow> string" where
  "trim_space s = (let l = trim_left s in
     case find (\<lambda>n. all_space (drop n l)) [0..<length l + 1] of None \<Rightarrow> l | Some n \<Rightarrow> take n l)"

fun to_lower :: "string \<Rightarrow> string" where
  "to_lower [] = []"
| "to_lower (c # cs) =
     (if 65 \<le> byte c \<and> byte c \<le> 90 then char_of (byte c + 32) # to_lower cs
      else if map byte (take 2 (c # cs)) = [196, 176] then CHR ''i'' # to_lower (drop 1 cs)
      else if map byte (take 3 (c # cs)) = [226, 132, 170] then CHR ''k'' # to_lower (drop 2 cs)
      else c # to_lower cs)"

definition token_char :: "char \<Rightarrow> bool" where
  "token_char c = (32 < byte c \<and> byte c < 127 \<and> c \<notin> set ''()<>@,;:/[]?='' \<and> byte c \<noteq> 34 \<and> byte c \<noteq> 92)"

definition tspecial :: "char \<Rightarrow> bool" where
  "tspecial c = (c \<in> set ''()<>@,;:/[]?='' \<or> byte c = 34 \<or> byte c = 92)"

definition consume_token :: "string \<Rightarrow> string \<times> string" where
  "consume_token v = (takeWhile token_char v, dropWhile token_char v)"

fun consume_quoted :: "string \<Rightarrow> string \<Rightarrow> (string \<times> string) option" where
  "consume_quoted acc [] = None"
| "consume_quoted acc (c # cs) =
     (if byte c = 34 then Some (rev acc, cs)
      else if byte c = 92 \<and> cs \<noteq> [] \<and> tspecial (hd cs) then consume_quoted (hd cs # acc) (tl cs)
      else if byte c = 13 \<or> byte c = 10 then None
      else consume_quoted (c # acc) cs)"

definition consume_value :: "string \<Rightarrow> string \<times> string" where
  "consume_value v =
     (if v = [] then ([], [])
      else if byte (hd v) \<noteq> 34 then consume_token v
      else case consume_quoted [] (tl v) of None \<Rightarrow> ([], v) | Some (x, rest) \<Rightarrow> (x, rest))"

definition consume_param :: "string \<Rightarrow> (string \<times> string \<times> string) option" where
  "consume_param v =
     (case cut_prefix (trim_left v) '';'' of
        None \<Rightarrow> None
      | Some r1 \<Rightarrow>
          (let (param, r2) = consume_token (trim_left r1) in
           if param = [] then None
           else case cut_prefix (trim_left r2) ''='' of
                  None \<Rightarrow> None
                | Some r3 \<Rightarrow>
                    (let r4 = trim_left r3; (value, r5) = consume_value r4 in
                     if value = [] \<and> r5 = r4 then None else Some (to_lower param, value, r5))))"

text \<open>
  The loop over the parameters: whether it ends with no error. Each round consumes at least the
  semicolon it begins with, so as many rounds as there are bytes are enough.
\<close>

fun params_ok :: "nat \<Rightarrow> (string \<times> string) list \<Rightarrow> string \<Rightarrow> bool" where
  "params_ok 0 seen v = (v = [])"
| "params_ok (Suc n) seen v =
     (let v' = trim_left v in
      if v' = [] then True
      else case consume_param v' of
             None \<Rightarrow> trim_space v' = '';''
           | Some (key, value, rest) \<Rightarrow>
               (case map_of seen key of
                  Some w \<Rightarrow> w = value \<and> params_ok n seen rest
                | None \<Rightarrow> params_ok n ((key, value) # seen) rest))"

definition media_token :: "string \<Rightarrow> bool" where
  "media_token s =
     (let (typ, rest) = consume_token s in
      typ \<noteq> [] \<and>
      (rest = [] \<or>
       (case cut_prefix rest ''/'' of
          None \<Rightarrow> False
        | Some r \<Rightarrow> (let (sub, r2) = consume_token r in sub \<noteq> [] \<and> r2 = []))))"

definition ParseMediaType :: "string \<Rightarrow> string option" where
  "ParseMediaType v =
     (let base = takeWhile (\<lambda>c. c \<noteq> CHR '';'') v; mt = trim_space (to_lower base) in
      if media_token mt \<and> params_ok (length v) [] (dropWhile (\<lambda>c. c \<noteq> CHR '';'') v)
      then Some mt else None)"

section \<open>Numbers, words and case\<close>

text \<open>\<open>strconv.Atoi\<close>: an optional sign and decimal digits, within a 64-bit integer.\<close>

definition atoi :: "string \<Rightarrow> int option" where
  "atoi s =
     (let neg = (s \<noteq> [] \<and> hd s = CHR ''-'');
          ds = (if s \<noteq> [] \<and> (hd s = CHR ''-'' \<or> hd s = CHR ''+'') then tl s else s);
          n = (if neg then - int (digits_val ds) else int (digits_val ds)) in
      if ds = [] \<or> \<not> list_all is_digit ds then None
      else if n > max_int64 \<or> n < - max_int64 - 1 then None else Some n)"

text \<open>
  \<open>strings.Fields\<close>: the words between runs of space, a byte at a time: \<open>k\<close> counts the bytes still to drop of a space
  longer than one byte, \<open>cur\<close> is the word being read, backwards. \<open>strings.EqualFold\<close> against a name in capital
  ASCII letters, which two letters outside ASCII fold to as well, the long s and the Kelvin sign.
\<close>

fun words_from :: "nat \<Rightarrow> string \<Rightarrow> string \<Rightarrow> string list" where
  "words_from k cur [] = (if cur = [] then [] else [rev cur])"
| "words_from (Suc k) cur (c # cs) = words_from k cur cs"
| "words_from 0 cur (c # cs) =
     (let n = space_len (c # cs) in
      if n = 0 then words_from 0 (c # cur) cs
      else if cur = [] then words_from (n - 1) [] cs
      else rev cur # words_from (n - 1) [] cs)"

definition Fields :: "string \<Rightarrow> string list" where
  "Fields s = words_from 0 [] s"

fun equal_fold :: "string \<Rightarrow> string \<Rightarrow> bool" where
  "equal_fold t [] = (t = [])"
| "equal_fold t (n # ns) =
     (if t \<noteq> [] \<and> (byte (hd t) = byte n \<or> (65 \<le> byte n \<and> byte n \<le> 90 \<and> byte (hd t) = byte n + 32)) then equal_fold (tl t) ns
      else if n = CHR ''S'' \<and> map byte (take 2 t) = [197, 191] then equal_fold (drop 2 t) ns
      else if n = CHR ''K'' \<and> map byte (take 3 t) = [226, 132, 170] then equal_fold (drop 3 t) ns
      else False)"

text \<open>\<open>strings.Trim\<close> by the ten digits.\<close>

definition trim_digits :: "string \<Rightarrow> string" where
  "trim_digits s = rev (dropWhile is_digit (rev (dropWhile is_digit s)))"

lemma trim_digits_Nil: "trim_digits s = [] \<longleftrightarrow> list_all is_digit s"
proof -
  have "trim_digits s = [] \<longleftrightarrow> dropWhile is_digit s = []"
  proof
    assume "trim_digits s = []"
    then have "list_all is_digit (dropWhile is_digit s)" by (auto simp: trim_digits_def list_all_iff dropWhile_eq_Nil_conv)
    then show "dropWhile is_digit s = []" by (metis hd_dropWhile list.pred_set list.set_sel(1))
  qed (simp add: trim_digits_def del: dropWhile_eq_Nil_conv)
  then show ?thesis by (simp add: list_all_iff dropWhile_eq_Nil_conv)
qed

end
