(* ===== verification/Envelope.thy ===== *)
theory Envelope
  imports Golib
begin

text \<open>
  Package \<open>agk\<close>, the envelope: the document that travels along a port. Its records, the rules it is
  held to (\<open>Validate\<close>: the shape, then the four size rules), and the two operations of a fan-out,
  \<open>Split\<close> and \<open>Concat\<close>. Reading an envelope out of JSON bytes is not modelled; writing one is, as
  far as its size, since \<open>envelope_max_bytes\<close> is measured on what is written.
\<close>

section \<open>The document\<close>

record agk_file =
  f_Name :: string
  f_URI :: uri
  f_MediaType :: string
  f_Size :: int
  f_SHA256 :: string

record item =
  it_ID :: string
  it_Data :: "(string \<times> json) list"
  it_Files :: "agk_file list"

record meta =
  m_RunID :: string
  m_Step :: string
  m_Port :: string
  m_Attempt :: int
  m_Count :: int
  m_ProducedAt :: time

record envelope =
  en_Meta :: meta
  en_Items :: "item list"

definition Empty :: "string \<Rightarrow> string \<Rightarrow> string \<Rightarrow> int \<Rightarrow> time \<Rightarrow> envelope" where
  "Empty run step port attempt at =
     \<lparr>en_Meta = \<lparr>m_RunID = run, m_Step = step, m_Port = port, m_Attempt = attempt, m_Count = 0,
        m_ProducedAt = at\<rparr>, en_Items = []\<rparr>"

section \<open>Limits and refusals\<close>

record limits =
  InlineMaxBytes :: int
  EnvelopeMaxBytes :: int
  MaxItems :: int
  ArtifactMaxBytes :: int

definition DefaultLimits :: limits where
  "DefaultLimits = \<lparr>InlineMaxBytes = 262144, EnvelopeMaxBytes = 4194304, MaxItems = 100000,
     ArtifactMaxBytes = 5368709120\<rparr>"

definition no_limits :: limits where
  "no_limits = \<lparr>InlineMaxBytes = 0, EnvelopeMaxBytes = 0, MaxItems = 0, ArtifactMaxBytes = 0\<rparr>"

datatype size_rule = RuleInlineMaxBytes | RuleEnvelopeMaxBytes | RuleMaxItems | RuleArtifactMaxBytes

datatype outcome = Reject | Fail

text \<open>
  A \<open>rejection\<close> is a document refused for its shape: where in the document, and the step and the port
  once they are known. A \<open>Refusal\<close> is a size rule refusing something. An outcome is what each does.
\<close>

datatype envelope_error =
    Rejection (rej_what: string) (rej_step: string) (rej_port: string)
  | Refusal (ref_rule: size_rule) (ref_outcome: outcome) (ref_step: string) (ref_port: string)
      (ref_what: string) (ref_got: int) (ref_limit: int)

fun outcome_of :: "envelope_error \<Rightarrow> outcome" where
  "outcome_of (Rejection _ _ _) = Reject"
| "outcome_of (Refusal _ oc _ _ _ _ _) = oc"

definition reject :: "string \<Rightarrow> envelope_error" where
  "reject what = Rejection what [] []"

fun under :: "string \<Rightarrow> envelope_error \<Rightarrow> envelope_error" where
  "under place (Rejection what s p) = Rejection (if what = [] then place else place @ ''.'' @ what) s p"
| "under place e = e"

fun located :: "string \<Rightarrow> string \<Rightarrow> envelope_error \<Rightarrow> envelope_error" where
  "located step port (Rejection what s p) =
     (if s = [] then Rejection what step port else Rejection what s p)"
| "located step port e = e"

section \<open>Serialised sizes\<close>

definition file_text :: "agk_file \<Rightarrow> string" where
  "file_text f = obj_text False
     [(''name'', quote False (f_Name f)), (''uri'', quote False (URI_String (f_URI f))),
      (''media_type'', quote False (f_MediaType f)), (''size'', itoa (f_Size f)),
      (''sha256'', quote False (f_SHA256 f))]"

definition item_text :: "item \<Rightarrow> string" where
  "item_text it = obj_text False
     [(''id'', quote False (it_ID it)), (''data'', encode False (JObj (it_Data it))),
      (''files'', arr_text (map file_text (it_Files it)))]"

definition meta_text :: "meta \<Rightarrow> string option" where
  "meta_text m = map_option (\<lambda>at. obj_text False
     [(''run_id'', quote False (m_RunID m)), (''step'', quote False (m_Step m)),
      (''port'', quote False (m_Port m)), (''attempt'', itoa (m_Attempt m)),
      (''count'', itoa (m_Count m)), (''produced_at'', quote False at)]) (time_text (m_ProducedAt m))"

definition envelope_text :: "envelope \<Rightarrow> string option" where
  "envelope_text e = map_option (\<lambda>m. obj_text False
     [(''meta'', m), (''items'', arr_text (map item_text (en_Items e)))]) (meta_text (en_Meta e))"

definition sizeOf :: "envelope \<Rightarrow> int option" where
  "sizeOf e = map_option (\<lambda>s. int (length s)) (envelope_text e)"

fun first_some :: "'a option list \<Rightarrow> 'a option" where
  "first_some [] = None"
| "first_some (Some x # xs) = Some x"
| "first_some (None # xs) = first_some xs"

text \<open>The most specific value above the limit: its path and its size.\<close>

function heaviest :: "string \<Rightarrow> json \<Rightarrow> int \<Rightarrow> (string \<times> int) option" where
  "heaviest path v limit =
     (if json_size v \<le> limit then None
      else case (case v of
                   JObj kvs \<Rightarrow>
                     first_some (map snd (sort_key fst (AList.clearjunk
                       (map (\<lambda>(k, w). (k, heaviest (path @ ''.'' @ k) w limit)) kvs))))
                 | JArr vs \<Rightarrow>
                     first_some (map (\<lambda>(i, w). heaviest (path @ ''['' @ itoa (int i) @ '']'') w limit)
                       (zip [0..<length vs] vs))
                 | _ \<Rightarrow> None) of
             Some found \<Rightarrow> Some found
           | None \<Rightarrow> Some (path, json_size v))"
  by pat_completeness auto
termination
proof (relation "measure (\<lambda>(path, v, limit). size v)", goal_cases)
  case 1
  show ?case by simp
next
  case (2 path v limit vs iw i w)
  then have "w \<in> set vs" by (auto dest: set_zip_rightD)
  then have "size w < size (JArr vs)"
    using size_list_estimation'[of w vs "size w" size] by simp
  with 2 show ?case by simp
next
  case (3 path v limit kvs kw k w)
  then have "(k, w) \<in> set kvs" by auto
  then have "size w < size (JObj kvs)"
    using size_list_estimation'[of "(k, w)" kvs "size w" "size_prod (\<lambda>x. 0) size"] by simp
  with 3 show ?case by simp
qed

declare heaviest.simps [simp del]

section \<open>The rules\<close>

definition named_at :: "string \<Rightarrow> name_error option \<Rightarrow> envelope_error option" where
  "named_at place e = (case e of None \<Rightarrow> None | Some _ \<Rightarrow> Some (reject place))"

definition meta_validate :: "meta \<Rightarrow> envelope_error option" where
  "meta_validate m =
     (if RunID_Validate (m_RunID m) \<noteq> None then Some (reject ''run_id'')
      else if agk_identifier (m_Step m) \<noteq> None then Some (reject ''step'')
      else if agk_identifier (m_Port m) \<noteq> None then Some (reject ''port'')
      else if m_Attempt m < 1 then Some (reject ''attempt'')
      else if m_Count m < 0 then Some (reject ''count'')
      else if m_ProducedAt m = zero_time then Some (reject ''produced_at'')
      else None)"

definition mediaType :: "string \<Rightarrow> bool" where
  "mediaType s =
     (case ParseMediaType s of
        None \<Rightarrow> False
      | Some t \<Rightarrow> (case cut_at CHR ''/'' t of None \<Rightarrow> False | Some (kind, sub) \<Rightarrow> kind \<noteq> [] \<and> sub \<noteq> []))"

definition digest :: "string \<Rightarrow> bool" where
  "digest s = (length s = 64 \<and> list_all is_hex s)"

definition file_Validate :: "agk_file \<Rightarrow> envelope_error option" where
  "file_Validate f =
     (if segment (f_Name f) \<noteq> None then Some (reject ''name'')
      else if \<not> uri_ok (f_URI f) then Some (reject ''uri'')
      else if f_Name f \<noteq> u_Name (f_URI f) then Some (reject ''name'')
      else if \<not> mediaType (f_MediaType f) then Some (reject ''media_type'')
      else if f_Size f < 0 then Some (reject ''size'')
      else if \<not> digest (f_SHA256 f) then Some (reject ''sha256'')
      else None)"

definition at_index :: "string \<Rightarrow> nat \<Rightarrow> string" where
  "at_index what i = what @ ''['' @ itoa (int i) @ '']''"

definition item_validate :: "item \<Rightarrow> envelope_error option" where
  "item_validate it =
     (if it_ID it = [] then Some (reject ''id'')
      else first_some (map (\<lambda>(n, f). map_option (under (at_index ''files'' n)) (file_Validate f))
             (zip [0..<length (it_Files it)] (it_Files it))))"

definition inline_refusal :: "limits \<Rightarrow> envelope \<Rightarrow> envelope_error option" where
  "inline_refusal l e =
     first_some (concat (map (\<lambda>(i, it).
       map (\<lambda>k. map_option (\<lambda>(path, n).
              Refusal RuleInlineMaxBytes Reject (m_Step (en_Meta e)) (m_Port (en_Meta e)) path n (InlineMaxBytes l))
              (heaviest (at_index ''items'' i @ ''.data.'' @ k)
                 (case map_of (it_Data it) k of None \<Rightarrow> JNull | Some v \<Rightarrow> v) (InlineMaxBytes l)))
         (sorted_keys (it_Data it)))
       (zip [0..<length (en_Items e)] (en_Items e))))"

definition size_refusal :: "limits \<Rightarrow> envelope \<Rightarrow> int \<Rightarrow> envelope_error option" where
  "size_refusal l e serialised =
     (let step = m_Step (en_Meta e); port = m_Port (en_Meta e) in
      case (if serialised < 0 then sizeOf e else Some serialised) of
        None \<Rightarrow> Some (located step port (reject []))
      | Some n \<Rightarrow>
          if n > EnvelopeMaxBytes l
          then Some (Refusal RuleEnvelopeMaxBytes Fail step port ''the serialised envelope'' n (EnvelopeMaxBytes l))
          else None)"

definition validate :: "envelope \<Rightarrow> limits \<Rightarrow> int \<Rightarrow> envelope_error option" where
  "validate e l serialised =
     (case meta_validate (en_Meta e) of
        Some err \<Rightarrow> Some (under ''meta'' err)
      | None \<Rightarrow>
          (let step = m_Step (en_Meta e); port = m_Port (en_Meta e); n = int (length (en_Items e)) in
           if m_Count (en_Meta e) \<noteq> n then Some (located step port (reject ''meta.count''))
           else case first_some (map (\<lambda>(i, it). map_option (under (at_index ''items'' i)) (item_validate it))
                       (zip [0..<length (en_Items e)] (en_Items e))) of
                  Some err \<Rightarrow> Some (located step port err)
                | None \<Rightarrow>
                    if MaxItems l > 0 \<and> n > MaxItems l
                    then Some (Refusal RuleMaxItems Fail step port ''the envelope'' n (MaxItems l))
                    else case (if InlineMaxBytes l > 0 then inline_refusal l e else None) of
                           Some err \<Rightarrow> Some err
                         | None \<Rightarrow> if EnvelopeMaxBytes l > 0 then size_refusal l e serialised else None))"

definition Validate :: "envelope \<Rightarrow> limits \<Rightarrow> envelope_error option" where
  "Validate e l = validate e l (- 1)"

section \<open>Concatenating and splitting\<close>

definition concat_step :: "meta \<Rightarrow> envelope \<Rightarrow> meta" where
  "concat_step m s =
     m\<lparr>m_Attempt := (if m_Attempt (en_Meta s) > m_Attempt m then m_Attempt (en_Meta s) else m_Attempt m),
       m_ProducedAt := (if m_ProducedAt (en_Meta s) > m_ProducedAt m
                        then m_ProducedAt (en_Meta s) else m_ProducedAt m)\<rparr>"

fun concat_mismatch :: "meta \<Rightarrow> nat \<Rightarrow> envelope list \<Rightarrow> envelope_error option" where
  "concat_mismatch first n [] = None"
| "concat_mismatch first n (s # ss) =
     (if m_RunID (en_Meta s) \<noteq> m_RunID first then Some (reject (at_index ''shards'' n @ ''.meta.run_id''))
      else if m_Step (en_Meta s) \<noteq> m_Step first then Some (reject (at_index ''shards'' n @ ''.meta.step''))
      else if m_Port (en_Meta s) \<noteq> m_Port first then Some (reject (at_index ''shards'' n @ ''.meta.port''))
      else concat_mismatch first (Suc n) ss)"

definition concat_envelopes :: "envelope list \<Rightarrow> envelope" where
  "concat_envelopes shards =
     (let items = concat (map en_Items shards) in
      \<lparr>en_Meta = (foldl concat_step (en_Meta (hd shards)) shards)\<lparr>m_Count := int (length items)\<rparr>,
       en_Items = items\<rparr>)"

definition Concat :: "envelope list \<Rightarrow> limits \<Rightarrow> (envelope_error, envelope) result" where
  "Concat shards l =
     (case shards of
        [] \<Rightarrow> Inl (reject ''shards'')
      | s # _ \<Rightarrow>
          (case concat_mismatch (en_Meta s) 0 shards of
             Some err \<Rightarrow> Inl err
           | None \<Rightarrow>
               (let out = concat_envelopes shards in
                case validate out l (- 1) of Some err \<Rightarrow> Inl err | None \<Rightarrow> Inr out)))"

fun chunks :: "nat \<Rightarrow> 'a list \<Rightarrow> 'a list list" where
  "chunks n [] = []"
| "chunks n (x # xs) = (if n = 0 then [] else take n (x # xs) # chunks n (drop (n - 1) xs))"

definition piece :: "meta \<Rightarrow> item list \<Rightarrow> envelope" where
  "piece m items = \<lparr>en_Meta = m\<lparr>m_Count := int (length items)\<rparr>, en_Items = items\<rparr>"

definition Split :: "envelope \<Rightarrow> int \<Rightarrow> (int, envelope list) result" where
  "Split e n =
     (if n < 1 then Inl n
      else Inr (map (piece (en_Meta e)) (chunks (nat n) (en_Items e))))"

section \<open>What the rules guarantee\<close>

lemma first_some_None_iff: "first_some xs = None \<longleftrightarrow> (\<forall>x \<in> set xs. x = None)"
  by (induction xs rule: first_some.induct) auto

lemma first_some_Some: "first_some xs = Some y \<Longrightarrow> Some y \<in> set xs"
  by (induction xs rule: first_some.induct) auto

lemma heaviest_None_iff: "heaviest path v limit = None \<longleftrightarrow> json_size v \<le> limit"
  by (subst heaviest.simps) (auto split: option.splits)

lemma set_clearjunk_subset: "set (AList.clearjunk al) \<subseteq> set al"
  by (induction al rule: AList.clearjunk.induct) (auto simp: AList.delete_eq)

lemma heaviest_over: "heaviest path v limit = Some (p, n) \<Longrightarrow> limit < n"
proof (induction path v limit arbitrary: p n rule: heaviest.induct)
  case (1 path v limit)
  show ?case
  proof (cases "json_size v \<le> limit")
    case True
    with "1.prems" heaviest_None_iff[of path v limit] show ?thesis by simp
  next
    case over: False
    have obj: "limit < n" if kvs: "v = JObj kvs"
      and "first_some (map snd (sort_key fst (AList.clearjunk
           (map (\<lambda>(k, w). (k, heaviest (path @ ''.'' @ k) w limit)) kvs)))) = Some (p, n)" for kvs
    proof -
      from that(2) have "Some (p, n) \<in> snd ` set (AList.clearjunk
           (map (\<lambda>(k, w). (k, heaviest (path @ ''.'' @ k) w limit)) kvs))"
        by (auto dest: first_some_Some)
      then have "Some (p, n) \<in> snd ` set (map (\<lambda>(k, w). (k, heaviest (path @ ''.'' @ k) w limit)) kvs)"
        using set_clearjunk_subset by fastforce
      then obtain k w where "(k, w) \<in> set kvs" "heaviest (path @ ''.'' @ k) w limit = Some (p, n)"
        by auto
      with "1.IH"(2)[OF over kvs] show ?thesis by auto
    qed
    have arr: "limit < n" if vs: "v = JArr vs"
      and "first_some (map (\<lambda>(i, w). heaviest (path @ ''['' @ itoa (int i) @ '']'') w limit)
           (zip [0..<length vs] vs)) = Some (p, n)" for vs
    proof -
      from that(2) obtain i w where "(i, w) \<in> set (zip [0..<length vs] vs)"
        "heaviest (path @ ''['' @ itoa (int i) @ '']'') w limit = Some (p, n)"
        by (force dest: first_some_Some)
      with "1.IH"(1)[OF over vs] show ?thesis by auto
    qed
    show ?thesis
      using "1.prems" over obj arr
      by (subst (asm) heaviest.simps) (auto split: option.splits json.splits)
  qed
qed

lemma zip_upt_items: "it \<in> set xs \<Longrightarrow> \<exists>i. (i, it) \<in> set (zip [0..<length xs] xs)"
  by (auto simp: in_set_conv_nth set_zip)

lemma validate_None:
  assumes "validate e l n = None"
  shows "meta_validate (en_Meta e) = None"
    and "m_Count (en_Meta e) = int (length (en_Items e))"
    and "it \<in> set (en_Items e) \<Longrightarrow> item_validate it = None"
    and "MaxItems l > 0 \<Longrightarrow> int (length (en_Items e)) \<le> MaxItems l"
    and "InlineMaxBytes l > 0 \<Longrightarrow> inline_refusal l e = None"
    and "EnvelopeMaxBytes l > 0 \<Longrightarrow> size_refusal l e n = None"
  using assms zip_upt_items[of it "en_Items e"]
  by (auto simp: validate_def Let_def first_some_None_iff split: option.splits if_splits)

lemma inline_refusal_None:
  assumes "inline_refusal l e = None" "it \<in> set (en_Items e)" "map_of (it_Data it) k = Some v"
  shows "json_size v \<le> InlineMaxBytes l"
proof -
  obtain i where "(i, it) \<in> set (zip [0..<length (en_Items e)] (en_Items e))"
    using zip_upt_items[OF assms(2)] by blast
  moreover have "k \<in> set (sorted_keys (it_Data it))"
    using assms(3) map_of_SomeD[OF assms(3)] by force
  ultimately have "heaviest (at_index ''items'' i @ ''.data.'' @ k) v (InlineMaxBytes l) = None"
    using assms(1,3) by (force simp: inline_refusal_def first_some_None_iff)
  then show ?thesis by (simp add: heaviest_None_iff)
qed

section \<open>Splitting and concatenating are inverse\<close>

lemma concat_chunks: "n > 0 \<Longrightarrow> concat (chunks n xs) = xs"
proof (induction n xs rule: chunks.induct)
  case (2 n x xs)
  then show ?case by (cases n) auto
qed simp

lemma chunks_bounds: "c \<in> set (chunks n xs) \<Longrightarrow> c \<noteq> [] \<and> length c \<le> n"
  by (induction n xs rule: chunks.induct) (auto split: if_splits)

lemma chunks_eq_Nil_iff: "n > 0 \<Longrightarrow> chunks n xs = [] \<longleftrightarrow> xs = []"
  by (cases xs) auto

lemma length_chunks: "n > 0 \<Longrightarrow> length (chunks n xs) = (length xs + n - 1) div n"
proof (induction n xs rule: chunks.induct)
  case (1 n)
  then show ?case by simp
next
  case (2 n x xs)
  show ?case
  proof (cases "length xs < n")
    case True
    then have "drop (n - 1) xs = []" using 2 by simp
    then have "length (chunks n (x # xs)) = 1" using 2 by simp
    moreover have "(length (x # xs) + n - 1) div n = 1"
      using True 2(2) by (intro div_nat_eqI) auto
    ultimately show ?thesis by simp
  next
    case False
    define a where "a = length xs - (n - 1) + n - 1"
    have "length (chunks n (x # xs)) = Suc (a div n)"
      using 2 by (simp add: a_def)
    also have "\<dots> = (a + n) div n"
      using 2(2) div_add_self2[of n a] by simp
    also have "a + n = length (x # xs) + n - 1"
      using False 2(2) by (simp add: a_def)
    finally show ?thesis .
  qed
qed

lemma meta_eta: "(m::meta)\<lparr>m_Count := m_Count m\<rparr> = m"
  by (cases m) simp

lemma concat_step_piece: "concat_step m (piece m c) = m"
  by (cases m) (simp add: concat_step_def piece_def)

lemma foldl_concat_step_pieces: "foldl concat_step m (map (piece m) cs) = m"
  by (induction cs) (auto simp: concat_step_piece)

lemma foldl_concat_step_pieces': "foldl concat_step (m\<lparr>m_Count := k\<rparr>) (map (piece m) cs) = m\<lparr>m_Count := k\<rparr>"
  by (induction cs) (cases m; auto simp: concat_step_def piece_def)+

lemma concat_mismatch_pieces:
  "m_RunID m = m_RunID m' \<Longrightarrow> m_Step m = m_Step m' \<Longrightarrow> m_Port m = m_Port m' \<Longrightarrow>
   concat_mismatch m' n (map (piece m) cs) = None"
  by (induction cs arbitrary: n) (auto simp: piece_def)

lemma concat_envelopes_pieces:
  assumes "cs \<noteq> []"
  shows "concat_envelopes (map (piece m) cs) = piece m (concat cs)"
proof -
  obtain c cs' where cs: "cs = c # cs'" using assms by (cases cs) auto
  have "en_Meta (hd (map (piece m) cs)) = m\<lparr>m_Count := int (length c)\<rparr>"
    by (simp add: cs piece_def)
  moreover have "map en_Items (map (piece m) cs) = cs"
    by (simp add: piece_def comp_def)
  ultimately show ?thesis
    using foldl_concat_step_pieces'[where m = m and k = "int (length c)" and cs = cs]
    by (simp add: concat_envelopes_def piece_def Let_def del: map_map)
qed

lemma Concat_Split:
  assumes "Split e n = Inr es" "en_Items e \<noteq> []" "Validate e l = None"
  shows "Concat es l = Inr e"
proof -
  have n: "nat n > 0" and es: "es = map (piece (en_Meta e)) (chunks (nat n) (en_Items e))"
    using assms(1) by (auto simp: Split_def split: if_splits)
  let ?cs = "chunks (nat n) (en_Items e)"
  have ne: "?cs \<noteq> []" using n assms(2) by (simp add: chunks_eq_Nil_iff)
  have "m_Count (en_Meta e) = int (length (en_Items e))"
    using validate_None(2) assms(3) by (auto simp: Validate_def)
  then have "piece (en_Meta e) (en_Items e) = e"
    by (cases e; cases "en_Meta e") (simp add: piece_def)
  then have out: "concat_envelopes es = e"
    by (simp add: es concat_envelopes_pieces[OF ne] concat_chunks[OF n])
  obtain c cs where "?cs = c # cs" using ne by (cases ?cs) auto
  then obtain s ss where s: "es = s # ss" "en_Meta s = (en_Meta e)\<lparr>m_Count := int (length c)\<rparr>"
    by (simp add: es piece_def)
  have "concat_mismatch (en_Meta s) 0 es = None"
    unfolding es by (rule concat_mismatch_pieces) (simp_all add: s(2))
  then show ?thesis
    using assms(3) out s(1) by (simp add: Concat_def Validate_def)
qed

lemma Split_Inr:
  assumes "Split e n = Inr es"
  shows "concat (map en_Items es) = en_Items e"
    and "length es = (length (en_Items e) + nat n - 1) div nat n"
    and "s \<in> set es \<Longrightarrow> en_Items s \<noteq> [] \<and> int (length (en_Items s)) \<le> n \<and>
           en_Meta s = (en_Meta e)\<lparr>m_Count := int (length (en_Items s))\<rparr>"
proof -
  have n: "nat n > 0" "n \<ge> 1" and es: "es = map (piece (en_Meta e)) (chunks (nat n) (en_Items e))"
    using assms by (auto simp: Split_def split: if_splits)
  show "concat (map en_Items es) = en_Items e"
    by (simp add: es piece_def comp_def concat_chunks[OF n(1)])
  show "length es = (length (en_Items e) + nat n - 1) div nat n"
    by (simp add: es length_chunks[OF n(1)])
  show "en_Items s \<noteq> [] \<and> int (length (en_Items s)) \<le> n \<and>
        en_Meta s = (en_Meta e)\<lparr>m_Count := int (length (en_Items s))\<rparr>" if "s \<in> set es"
    using that chunks_bounds[of _ "nat n" "en_Items e"] n by (fastforce simp: es piece_def)
qed

section \<open>What concatenation answers\<close>

lemma concat_step_fields [simp]:
  "m_RunID (concat_step m s) = m_RunID m" "m_Step (concat_step m s) = m_Step m"
  "m_Port (concat_step m s) = m_Port m" "m_Count (concat_step m s) = m_Count m"
  "m_Attempt (concat_step m s) = max (m_Attempt m) (m_Attempt (en_Meta s))"
  "m_ProducedAt (concat_step m s) = max (m_ProducedAt m) (m_ProducedAt (en_Meta s))"
  by (auto simp: concat_step_def)

lemma foldl_concat_step:
  "m_RunID (foldl concat_step m ss) = m_RunID m \<and> m_Step (foldl concat_step m ss) = m_Step m \<and>
   m_Port (foldl concat_step m ss) = m_Port m \<and> m_Count (foldl concat_step m ss) = m_Count m \<and>
   m_Attempt (foldl concat_step m ss) = foldl max (m_Attempt m) (map (m_Attempt \<circ> en_Meta) ss) \<and>
   m_ProducedAt (foldl concat_step m ss) = foldl max (m_ProducedAt m) (map (m_ProducedAt \<circ> en_Meta) ss)"
  by (induction ss arbitrary: m) auto

lemma Concat_Inr:
  assumes "Concat shards l = Inr e"
  shows "shards \<noteq> []" and "en_Items e = concat (map en_Items shards)"
    and "m_Count (en_Meta e) = int (length (en_Items e))"
    and "Validate e l = None"
    and "m_RunID (en_Meta e) = m_RunID (en_Meta (hd shards))"
    and "m_Step (en_Meta e) = m_Step (en_Meta (hd shards))"
    and "m_Port (en_Meta e) = m_Port (en_Meta (hd shards))"
  using assms
  by (auto simp: Concat_def Validate_def Let_def concat_envelopes_def foldl_concat_step
      split: list.splits option.splits)

section \<open>Properties\<close>

definition sample_meta :: meta where
  "sample_meta = \<lparr>m_RunID = ''r'', m_Step = ''s'', m_Port = ''out'', m_Attempt = 1, m_Count = 3, m_ProducedAt = 1\<rparr>"

definition sample_item :: "string \<Rightarrow> item" where
  "sample_item i = \<lparr>it_ID = i, it_Data = [(''n'', JNum ''7'')], it_Files = []\<rparr>"

definition sample_limits :: limits where
  "sample_limits = \<lparr>InlineMaxBytes = 10, EnvelopeMaxBytes = 400, MaxItems = 3, ArtifactMaxBytes = 0\<rparr>"

definition sample_envelope :: envelope where
  "sample_envelope = \<lparr>en_Meta = sample_meta, en_Items = map sample_item [''a'', ''b'', ''c'']\<rparr>"

lemma sample_valid: "Validate sample_envelope sample_limits = None"
  by code_simp

text \<open>
  Splitting an envelope and concatenating the pieces gives the envelope back, its metadata and the
  order and the identity of its items included, wherever the envelope holds its rules and carries an
  item.
\<close>

theorem split_concat:
  assumes "Split e n = Inr es" "en_Items e \<noteq> []" "Validate e l = None"
  shows "Concat es l = Inr e"
  using assms by (rule Concat_Split)

theorem split_concat_witness:
  "\<exists>es. Split sample_envelope 2 = Inr es \<and> length es = 2 \<and> Concat es sample_limits = Inr sample_envelope"
proof -
  obtain es where es: "Split sample_envelope 2 = Inr es" by (simp add: Split_def)
  have "length es = 2" using Split_Inr(2)[OF es] by (simp add: sample_envelope_def)
  moreover have "Concat es sample_limits = Inr sample_envelope"
    using es sample_valid by (intro split_concat) (simp_all add: sample_envelope_def)
  ultimately show ?thesis using es by blast
qed

text \<open>
  \<open>Split\<close> cuts an envelope of \<open>k\<close> items into \<open>k\<close> divided by \<open>n\<close>, rounded up, pieces: together
  they carry its items in order, each carries at least one and at most \<open>n\<close>, and each carries its
  metadata with the count rebuilt.
\<close>

theorem split_pieces:
  assumes "Split e n = Inr es"
  shows "concat (map en_Items es) = en_Items e \<and>
     length es = (length (en_Items e) + nat n - 1) div nat n \<and>
     (\<forall>s \<in> set es. en_Items s \<noteq> [] \<and> int (length (en_Items s)) \<le> n \<and>
        en_Meta s = (en_Meta e)\<lparr>m_Count := int (length (en_Items s))\<rparr>)"
  using Split_Inr[OF assms] by blast

theorem split_pieces_witness:
  "\<exists>es. Split sample_envelope 2 = Inr es \<and> concat (map en_Items es) = en_Items sample_envelope"
proof -
  obtain es where es: "Split sample_envelope 2 = Inr es" by (simp add: Split_def)
  then show ?thesis using split_pieces[OF es] by blast
qed

text \<open>
  An envelope \<open>Validate\<close> accepts is one a consumer can trust: its run, step and port are names,
  its attempt is at least one, its count is the number of its items, every item has an identifier and
  files whose name is the one their URI ends in, and every size rule that is set holds, on the number
  of items, on each inline value and on the serialised whole.
\<close>

theorem validate_guarantees:
  assumes "Validate e l = None"
  shows "RunID_Validate (m_RunID (en_Meta e)) = None \<and> agk_identifier (m_Step (en_Meta e)) = None \<and>
     agk_identifier (m_Port (en_Meta e)) = None \<and> 1 \<le> m_Attempt (en_Meta e) \<and>
     m_Count (en_Meta e) = int (length (en_Items e)) \<and>
     (\<forall>it \<in> set (en_Items e). it_ID it \<noteq> [] \<and>
        (\<forall>f \<in> set (it_Files it). f_Name f = u_Name (f_URI f) \<and> 0 \<le> f_Size f)) \<and>
     (0 < MaxItems l \<longrightarrow> int (length (en_Items e)) \<le> MaxItems l) \<and>
     (0 < InlineMaxBytes l \<longrightarrow>
        (\<forall>it \<in> set (en_Items e). \<forall>k v. map_of (it_Data it) k = Some v \<longrightarrow> json_size v \<le> InlineMaxBytes l)) \<and>
     (0 < EnvelopeMaxBytes l \<longrightarrow> (\<exists>n. sizeOf e = Some n \<and> n \<le> EnvelopeMaxBytes l))"
proof -
  note v = validate_None[OF assms[unfolded Validate_def]]
  have files: "it_ID it \<noteq> [] \<and> (\<forall>f \<in> set (it_Files it). f_Name f = u_Name (f_URI f) \<and> 0 \<le> f_Size f)"
    if "item_validate it = None" for it
  proof -
    have "file_Validate f = None" if "f \<in> set (it_Files it)" for f
      using zip_upt_items[OF that] \<open>item_validate it = None\<close>
      by (auto simp: item_validate_def first_some_None_iff split: if_splits)
    moreover have "it_ID it \<noteq> []" using that by (simp add: item_validate_def split: if_splits)
    moreover have "f_Name f = u_Name (f_URI f) \<and> 0 \<le> f_Size f" if "file_Validate f = None" for f
      using that by (auto simp: file_Validate_def split: if_splits)
    ultimately show ?thesis by blast
  qed
  have "\<exists>n. sizeOf e = Some n \<and> n \<le> EnvelopeMaxBytes l" if "0 < EnvelopeMaxBytes l"
    using v(6)[OF that] by (auto simp: size_refusal_def Let_def split: option.splits if_splits)
  then show ?thesis
    using v(1,2,4) files[OF v(3)] inline_refusal_None[OF v(5)]
    by (auto simp: meta_validate_def split: if_splits)
qed

theorem validate_guarantees_witness:
  "Validate sample_envelope sample_limits = None \<and> (\<exists>n. sizeOf sample_envelope = Some n \<and> n \<le> 400)"
  using sample_valid validate_guarantees[OF sample_valid] by (simp add: sample_limits_def)

end
