(* ===== verification/Workflow.thy ===== *)
theory Workflow
  imports Envelope
begin

text \<open>
  Package \<open>graph\<close>, the workflow as a value and what holds it together: the types of \<open>workflow.go\<close>,
  the rules of \<open>validate.go\<close> about the file as a whole, the rules of \<open>manifest.go\<close> that hold a step
  to the brick it runs, and the resolved graph of \<open>graph.go\<close> with its topological order.

  A map keyed by step, port or name is a \<open>gomap\<close>. What a refusal prints is not modelled; which rule
  refused, on which step and which port, is.
\<close>

section \<open>The file\<close>

record edge =
  e_Step :: string
  e_Port :: string
  e_As :: string

datatype merge = MergeWaitAll | MergeZip | MergeJoin | MergeFirst

datatype fan_out = FanOutNone | FanOutItem | FanOutBatch | FanOutMatrix

datatype when_state = WhenSucceeded | WhenFailed | WhenSkipped | WhenAlways

datatype network = NetworkNone | NetworkEgress | NetworkInternal

record strategy =
  sg_FanOut :: fan_out
  sg_Batch :: int
  sg_MaxParallel :: int
  sg_Matrix :: "(string, json list) gomap"
  sg_FailFast :: bool

record backoff =
  bo_Base :: duration
  bo_Max :: duration

record retry =
  rt_Max :: int
  rt_On :: "failure list"
  rt_Backoff :: backoff

record resources =
  rs_CPU :: string
  rs_Memory :: string
  rs_PIDs :: int

record file_selector =
  fs_From :: string
  fs_To :: string
  fs_Mode :: string

record call =
  c_Workflow :: string
  c_Ref :: string

record step =
  st_Image :: string
  st_Call :: "call option"
  st_Needs :: "edge list"
  st_Inputs :: "(string, json) gomap"
  st_Outputs :: "string list"
  st_Params :: "(string, json) gomap"
  st_If :: string
  st_When :: "when_state list"
  st_Merge :: merge
  st_Join :: string
  st_Strategy :: strategy
  st_Retry :: retry
  st_Timeout :: duration
  st_ContinueOnError :: bool
  st_Resources :: resources
  st_Network :: network
  st_EgressAllow :: "string list"
  st_RunsOn :: "string list"
  st_Secrets :: "string list"
  st_Cache :: bool
  st_Idempotent :: bool
  st_Files :: "file_selector list"
  st_Script :: "string list"
  st_BeforeScript :: "string list"
  st_AfterScript :: "string list"
  st_Shell :: "string list"
  st_Extends :: "string list"

record workflow_output =
  o_Step :: string
  o_Port :: string

datatype tool_mode = ToolSync | ToolAsync

record mcp =
  mc_Name :: string
  mc_Output :: string
  mc_Mode :: tool_mode
  mc_Timeout :: duration
  mc_Timed :: bool

record workflow =
  wf_Name :: string
  wf_Namespace :: string
  wf_Inputs :: "string list"
  wf_Outputs :: "(string, workflow_output) gomap"
  wf_MCP :: "mcp option"
  wf_Include :: "string list"
  wf_Secrets :: "string list"
  wf_Timeout :: duration
  wf_Steps :: "(string, step) gomap"
  wf_resolved :: bool

section \<open>The manifest of a brick\<close>

record param =
  p_Schema :: "json option"
  p_Required :: bool
  p_Sensitive :: bool

record manifest =
  mf_Name :: string
  mf_Version :: string
  mf_Inputs :: "string list"
  mf_Outputs :: "string list"
  mf_Params :: "(string, param) gomap"
  mf_Secrets :: "(string \<times> string) list"
  mf_Document :: json

definition ports_in_order :: "string list \<Rightarrow> string list" where
  "ports_in_order ports = sort (remdups ports)"

definition OutputPorts :: "manifest \<Rightarrow> string list" where
  "OutputPorts m = ports_in_order (mf_Outputs m)"

definition InputPorts :: "manifest \<Rightarrow> string list" where
  "InputPorts m = ports_in_order (mf_Inputs m)"

section \<open>Refusals and errors\<close>

datatype rule = RuleScriptWithoutOutputs | RuleSecretNotDeclared | RuleNeedsUnknownStep
  | RuleEdgePortNotDeclared | RuleOutputFromUnknownStep | RuleManifestMissing
  | RuleStepOutputNotInManifest | RuleStepInputPortNotInManifest | RuleParamsAgainstManifest
  | RuleZipLength | RuleMCPOutputNotDeclared | RuleMCPTimeoutOnAsyncTool | RuleMCPSyncTimeoutZero
  | RuleMCPSyncTimeoutAboveCeiling | RuleOther string

datatype path_error = PathEmpty | PathNoRoot | PathNoMember | PathOpenBracket | PathBadIndex string
  | PathBadStep string | PathRootOnly | PathBadHead | PathUnread

text \<open>
  The errors of the package. \<open>CycleInGraph\<close> carries the cycle the refusal names; \<open>WalkUnfinished\<close>
  and \<open>PathUnread\<close> are answers no call gives: they stand where a bounded recursion would run out.
\<close>

datatype graph_error =
    Refused rule string string
  | CycleInGraph string "string list"
  | WalkUnfinished
  | ScriptWithoutImage string
  | RunsNothing string
  | MatrixWithoutVariables string
  | IncludesUnresolved
  | CannotOrder nat nat
  | SchemaDoesNotCompile string string
  | AtPort string string envelope_error
  | EnvelopeRefused envelope_error
  | NothingToMerge string string
  | JoinPath string string path_error
  | BatchSize string int
  | SplitSize string string int
  | MatrixVariableEmpty string string
  | NoSuchStep string
  | NoSuchShard string shard
  | NotOver string verdict
  | NoSuchPort string string
  | BadTask parse_error
  | OtherRun string string
  | BadRun name_error
  | ConditionNotBoolean string string
  | ExpressionFailed string
  | InputsExpression string string graph_error
  | IfExpression string graph_error
  | ParamExpression string string graph_error
  | FedEntry string string nat
  | FedScalar string string
  | BarrierNoLonger string
  | ShardGone string shard
  | OutputMissing string graph_error
  | ReuseUnknown string
  | ReuseNotOver string verdict
  | NegativeRequeues int
  | NegativeDuration int
  | StateVersionOther int
  | CacheKeyFailed string
  | StateUnwritable

section \<open>Rules about one step and about an edge\<close>

definition step_of :: "workflow \<Rightarrow> string \<Rightarrow> step option" where
  "step_of w name = map_of (wf_Steps w) name"

definition checkStep :: "workflow \<Rightarrow> string \<Rightarrow> step \<Rightarrow> (graph_error, unit) result" where
  "checkStep w name st =
     (if st_Image st = [] \<and> st_Call st = None
      then Inl (if st_Script st \<noteq> [] then ScriptWithoutImage name else RunsNothing name)
      else if st_Script st \<noteq> [] \<and> st_Outputs st = []
      then Inl (Refused RuleScriptWithoutOutputs name [])
      else if sg_FanOut (st_Strategy st) = FanOutMatrix \<and> sg_Matrix (st_Strategy st) = []
      then Inl (MatrixWithoutVariables name)
      else if \<exists>s \<in> set (st_Secrets st). s \<notin> set (wf_Secrets w)
      then Inl (Refused RuleSecretNotDeclared name [])
      else Inr ())"

text \<open>A loop over the steps of a workflow in name order that returns at the first error.\<close>

definition each_step :: "(string \<Rightarrow> step \<Rightarrow> (graph_error, unit) result) \<Rightarrow> workflow \<Rightarrow> (graph_error, unit) result" where
  "each_step f w =
     rfold (\<lambda>name _. case step_of w name of None \<Rightarrow> Inr () | Some st \<Rightarrow> f name st)
       (sorted_keys (wf_Steps w)) ()"

definition checkSteps :: "workflow \<Rightarrow> (graph_error, unit) result" where
  "checkSteps w = each_step (checkStep w) w"

definition publishes :: "step \<Rightarrow> string \<Rightarrow> bool" where
  "publishes st port = (st_Call st \<noteq> None \<or> port \<in> set (st_Outputs st))"

definition checkEdge :: "workflow \<Rightarrow> string \<Rightarrow> edge \<Rightarrow> (graph_error, unit) result" where
  "checkEdge w name e =
     (case step_of w (e_Step e) of
        None \<Rightarrow> Inl (Refused RuleNeedsUnknownStep name (e_Port e))
      | Some from \<Rightarrow>
          if publishes from (e_Port e) then Inr ()
          else Inl (Refused RuleEdgePortNotDeclared name (e_Port e)))"

definition checkEdges :: "workflow \<Rightarrow> (graph_error, unit) result" where
  "checkEdges w =
     each_step (\<lambda>name st. rfold (\<lambda>e _. checkEdge w name e) (st_Needs st) ()) w"

section \<open>Cycles\<close>

definition edgesOf :: "workflow \<Rightarrow> string \<Rightarrow> edge list" where
  "edgesOf w name = (case step_of w name of None \<Rightarrow> [] | Some st \<Rightarrow> st_Needs st)"

datatype mark = Open | Closed

type_synonym marks = "string \<Rightarrow> mark option"

text \<open>
  \<open>walk\<close> opens a step, visits its edges and closes it. The recursion opens a step that carries no
  mark, so it is never deeper than there are steps: \<open>checkCycles\<close> gives it that much depth, and no
  walk runs out of it.
\<close>

definition from_first :: "string \<Rightarrow> string list \<Rightarrow> string list" where
  "from_first name path = dropWhile (\<lambda>x. x \<noteq> name) path"

definition visit ::
  "(string \<Rightarrow> marks \<times> string list \<Rightarrow> (graph_error, marks \<times> string list) result) \<Rightarrow> workflow \<Rightarrow>
   string \<Rightarrow> edge \<Rightarrow> marks \<times> string list \<Rightarrow> (graph_error, marks \<times> string list) result" where
  "visit deeper w name e = (\<lambda>(state, path).
     if step_of w (e_Step e) = None then Inr (state, path)
     else case state (e_Step e) of
            Some Open \<Rightarrow> Inl (CycleInGraph name (from_first (e_Step e) path @ [e_Step e]))
          | Some Closed \<Rightarrow> Inr (state, path)
          | None \<Rightarrow> deeper (e_Step e) (state, path))"

primrec walk ::
  "nat \<Rightarrow> workflow \<Rightarrow> string \<Rightarrow> marks \<times> string list \<Rightarrow> (graph_error, marks \<times> string list) result" where
  "walk 0 w name sp = Inl WalkUnfinished"
| "walk (Suc n) w name sp =
     rbind (rfold (visit (walk n w) w name) (edgesOf w name)
              ((fst sp)(name \<mapsto> Open), snd sp @ [name]))
       (\<lambda>(state, path). Inr (state(name \<mapsto> Closed), butlast path))"

definition checkCycles :: "workflow \<Rightarrow> (graph_error, unit) result" where
  "checkCycles w =
     rbind (rfold (\<lambda>name (state, path).
              if state name \<noteq> None then Inr (state, path)
              else walk (length (sorted_keys (wf_Steps w))) w name (state, path))
              (sorted_keys (wf_Steps w)) (Map.empty, []))
       (\<lambda>_. Inr ())"

section \<open>The boundary and the published surface\<close>

definition checkWorkflowOutput :: "workflow \<Rightarrow> workflow_output \<Rightarrow> (graph_error, unit) result" where
  "checkWorkflowOutput w out =
     (case step_of w (o_Step out) of
        None \<Rightarrow> Inl (Refused RuleOutputFromUnknownStep (o_Step out) (o_Port out))
      | Some st \<Rightarrow>
          if publishes st (o_Port out) then Inr ()
          else Inl (Refused RuleEdgePortNotDeclared (o_Step out) (o_Port out)))"

definition checkWorkflowOutputs :: "workflow \<Rightarrow> (graph_error, unit) result" where
  "checkWorkflowOutputs w =
     rfold (\<lambda>name _. case map_of (wf_Outputs w) name of None \<Rightarrow> Inr () | Some out \<Rightarrow> checkWorkflowOutput w out)
       (sorted_keys (wf_Outputs w)) ()"

definition toolTimeoutCeiling :: duration where "toolTimeoutCeiling = 120 * 1000000000"

definition toolTimeout :: "mcp \<Rightarrow> (graph_error, unit) result" where
  "toolTimeout tool =
     (if mc_Mode tool = ToolAsync \<and> mc_Timed tool
      then Inl (Refused RuleMCPTimeoutOnAsyncTool [] [])
      else if mc_Mode tool = ToolSync \<and> mc_Timed tool \<and> mc_Timeout tool = 0
      then Inl (Refused RuleMCPSyncTimeoutZero [] [])
      else if mc_Mode tool = ToolSync \<and> mc_Timeout tool > toolTimeoutCeiling
      then Inl (Refused RuleMCPSyncTimeoutAboveCeiling [] [])
      else Inr ())"

definition checkMCP :: "workflow \<Rightarrow> (graph_error, unit) result" where
  "checkMCP w =
     (case wf_MCP w of
        None \<Rightarrow> Inr ()
      | Some tool \<Rightarrow>
          if mc_Output tool \<noteq> [] \<and> \<not> has_key (wf_Outputs w) (mc_Output tool)
          then Inl (Refused RuleMCPOutputNotDeclared [] [])
          else toolTimeout tool)"

text \<open>
  \<open>Check\<close> runs the rules in order and answers the first refusal. The rules about triggers, which
  read cron expressions and time zones, and the two about expressions, which compile CEL, are
  arguments.
\<close>

record other_checks =
  checkTriggers :: "workflow \<Rightarrow> (graph_error, unit) result"
  checkExpressions :: "workflow \<Rightarrow> (graph_error, unit) result"
  checkFedPorts :: "workflow \<Rightarrow> (graph_error, unit) result"

definition Check :: "other_checks \<Rightarrow> workflow \<Rightarrow> (graph_error, unit) result" where
  "Check other w =
     rfold (\<lambda>check _. check w)
       [checkSteps, checkEdges, checkCycles, checkWorkflowOutputs, checkTriggers other, checkMCP,
        checkExpressions other, checkFedPorts other] ()"

section \<open>A step and the brick it runs\<close>

definition unmatchedPort :: string where "unmatchedPort = ''unmatched''"

definition first_outside :: "string list \<Rightarrow> string list \<Rightarrow> string option" where
  "first_outside declared ports = find (\<lambda>p. p \<notin> set declared) ports"

definition outputsInManifest :: "string \<Rightarrow> step \<Rightarrow> manifest \<Rightarrow> (graph_error, unit) result" where
  "outputsInManifest name st m =
     (case find (\<lambda>p. p \<notin> set (OutputPorts m) \<and> \<not> (p = unmatchedPort \<and> st_Merge st = MergeJoin)) (st_Outputs st) of
        None \<Rightarrow> Inr ()
      | Some port \<Rightarrow> Inl (Refused RuleStepOutputNotInManifest name port))"

definition fed_ports :: "step \<Rightarrow> string list" where
  "fed_ports st =
     foldl (\<lambda>fed e. if e_As e \<in> set fed then fed else fed @ [e_As e])
       (sorted_keys (st_Inputs st)) (st_Needs st)"

definition inputsInManifest :: "string \<Rightarrow> step \<Rightarrow> manifest \<Rightarrow> (graph_error, unit) result" where
  "inputsInManifest name st m =
     (case first_outside (InputPorts m) (fed_ports st) of
        None \<Rightarrow> Inr ()
      | Some port \<Rightarrow> Inl (Refused RuleStepInputPortNotInManifest name port))"

text \<open>\<open>strings.Contains\<close>.\<close>

fun contains :: "string \<Rightarrow> string \<Rightarrow> bool" where
  "contains p [] = (p = [])"
| "contains p (c # cs) = (take (length p) (c # cs) = p \<or> contains p cs)"

fun carriesExpression :: "json \<Rightarrow> bool" where
  "carriesExpression (JStr s) = contains ''${{'' s"
| "carriesExpression (JObj kvs) = list_ex (\<lambda>(_, v). carriesExpression v) kvs"
| "carriesExpression (JArr vs) = list_ex carriesExpression vs"
| "carriesExpression _ = False"

text \<open>
  \<open>schema\<close> stands for the JSON Schema library: whether the schema at a place of the manifest's
  document compiles, and if it does whether a value satisfies it.
\<close>

type_synonym schema_validator = "json \<Rightarrow> string \<Rightarrow> json \<Rightarrow> bool option"

definition check_param ::
  "schema_validator \<Rightarrow> string \<Rightarrow> manifest \<Rightarrow> (string, json) gomap \<Rightarrow> bool \<Rightarrow> string \<Rightarrow> (graph_error, unit) result" where
  "check_param schema name m params resolved key =
     (case map_of (mf_Params m) key of
        None \<Rightarrow> Inr ()
      | Some declared \<Rightarrow>
          (case map_of params key of
             None \<Rightarrow> if p_Required declared then Inl (Refused RuleParamsAgainstManifest name []) else Inr ()
           | Some value \<Rightarrow>
               if \<not> resolved \<and> carriesExpression value then Inr ()
               else case value of
                      JSecret s \<Rightarrow>
                        if p_Sensitive declared then Inr () else Inl (Refused RuleParamsAgainstManifest name [])
                    | _ \<Rightarrow>
                        if p_Schema declared = None then Inr ()
                        else case schema (mf_Document m) (''#/spec/params/'' @ key) value of
                               None \<Rightarrow> Inl (SchemaDoesNotCompile name key)
                             | Some True \<Rightarrow> Inr ()
                             | Some False \<Rightarrow> Inl (Refused RuleParamsAgainstManifest name [])))"

definition paramRefusal ::
  "schema_validator \<Rightarrow> string \<Rightarrow> manifest \<Rightarrow> (string, json) gomap \<Rightarrow> bool \<Rightarrow> (graph_error, unit) result" where
  "paramRefusal schema name m params resolved =
     rbind (rfold (\<lambda>key _. if has_key (mf_Params m) key then Inr ()
                           else Inl (Refused RuleParamsAgainstManifest name []))
              (sorted_keys params) ())
       (\<lambda>_. rfold (\<lambda>key _. check_param schema name m params resolved key) (sorted_keys (mf_Params m)) ())"

definition checkAgainstManifest ::
  "schema_validator \<Rightarrow> (string, manifest) gomap \<Rightarrow> string \<Rightarrow> step \<Rightarrow> (graph_error, unit) result" where
  "checkAgainstManifest schema manifests name st =
     (if st_Image st = [] \<or> st_Script st \<noteq> [] then Inr ()
      else case map_of manifests (st_Image st) of
             None \<Rightarrow> Inl (Refused RuleManifestMissing name [])
           | Some m \<Rightarrow>
               rbind (outputsInManifest name st m) (\<lambda>_.
               rbind (inputsInManifest name st m) (\<lambda>_.
               paramRefusal schema name m (st_Params st) False)))"

section \<open>The resolved graph\<close>

definition Images :: "workflow \<Rightarrow> string list" where
  "Images w =
     foldl (\<lambda>images name.
         case step_of w name of
           None \<Rightarrow> images
         | Some st \<Rightarrow>
             if st_Image st = [] \<or> st_Script st \<noteq> [] then images
             else if st_Image st \<in> set images then images else images @ [st_Image st])
       [] (sorted_keys (wf_Steps w))"

definition distinctSources :: "step \<Rightarrow> string list" where
  "distinctSources st =
     foldl (\<lambda>out e. if e_Step e \<in> set out then out else out @ [e_Step e]) [] (st_Needs st)"

definition sources_of :: "workflow \<Rightarrow> string \<Rightarrow> string list" where
  "sources_of w name = (case step_of w name of None \<Rightarrow> [] | Some st \<Rightarrow> distinctSources st)"

text \<open>How many distinct steps, itself apart, a step waits for.\<close>

definition initial_waiting :: "workflow \<Rightarrow> string \<Rightarrow> int" where
  "initial_waiting w name =
     (if name \<in> set (sorted_keys (wf_Steps w))
      then int (length (snd (foldl (\<lambda>(seen, counted) e.
             if e_Step e = name \<or> e_Step e \<in> set seen then (seen, counted)
             else (e_Step e # seen, e_Step e # counted)) ([], []) (edgesOf w name))))
      else 0)"

definition relax_edge ::
  "string \<Rightarrow> string \<Rightarrow> (string \<Rightarrow> int) \<times> string list \<Rightarrow> string \<Rightarrow> (string \<Rightarrow> int) \<times> string list" where
  "relax_edge name downstream = (\<lambda>(waiting, ready) e.
     if e \<noteq> name then (waiting, ready)
     else let waiting' = waiting(downstream := waiting downstream - 1) in
          (waiting', if waiting' downstream = 0 then ready @ [downstream] else ready))"

definition relax_step ::
  "workflow \<Rightarrow> string \<Rightarrow> (string \<Rightarrow> int) \<times> string list \<Rightarrow> string \<Rightarrow> (string \<Rightarrow> int) \<times> string list" where
  "relax_step w name wr downstream = foldl (relax_edge name downstream) wr (sources_of w downstream)"

definition relax ::
  "workflow \<Rightarrow> string \<Rightarrow> (string \<Rightarrow> int) \<times> string list \<Rightarrow> (string \<Rightarrow> int) \<times> string list" where
  "relax w name wr = foldl (relax_step w name) wr (sorted_keys (wf_Steps w))"

end
