(* ===== verification/Graph.thy ===== *)
theory Graph
  imports Workflow
begin

text \<open>
  Package \<open>graph\<close>, the resolved graph of \<open>graph.go\<close>: the topological order, \<open>Build\<close>, the readings
  of a graph the evaluator makes, and \<open>Upstream\<close> of \<open>replay.go\<close>. The lemmas show that the cycle
  check of \<open>validate.go\<close> is exact, that a refusal for a cycle names one, and that the order it lets
  through exists and puts every step after what it needs.
\<close>

section \<open>The topological order\<close>

definition declared :: "workflow \<Rightarrow> string set" where
  "declared w = fst ` set (wf_Steps w)"

lemma set_sorted_steps [simp]: "set (sorted_keys (wf_Steps w)) = declared w"
  by (simp add: declared_def)

declare set_sorted_keys [simp del]

lemma finite_declared [simp]: "finite (declared w)"
  by (simp add: declared_def)

lemma step_of_None_iff: "step_of w n = None \<longleftrightarrow> n \<notin> declared w"
  by (simp add: step_of_def declared_def map_of_eq_None_iff)

lemma edgesOf_declared: "e \<in> set (edgesOf w a) \<Longrightarrow> a \<in> declared w"
  using step_of_None_iff[of w a] by (cases "step_of w a") (auto simp: edgesOf_def)

lemma distinct_foldl_snoc:
  "distinct acc \<Longrightarrow> distinct (foldl (\<lambda>out e. if f e \<in> set out then out else out @ [f e]) acc es)"
  by (induction es arbitrary: acc) auto

lemma set_foldl_snoc [simp]:
  "set (foldl (\<lambda>out e. if f e \<in> set out then out else out @ [f e]) acc es) = set acc \<union> f ` set es"
  by (induction es arbitrary: acc) auto

lemma distinct_sources_of: "distinct (sources_of w d)"
  by (auto simp: sources_of_def distinctSources_def distinct_foldl_snoc split: option.splits)

lemma set_sources_of: "set (sources_of w d) = e_Step ` set (edgesOf w d)"
  by (auto simp: sources_of_def distinctSources_def edgesOf_def split: option.splits)

lemma foldl_relax_edge:
  "distinct xs \<Longrightarrow> foldl (relax_edge name d) (wt, rd) xs =
     (if name \<in> set xs
      then (wt(d := wt d - 1), if wt d = 1 then rd @ [d] else rd) else (wt, rd))"
  by (induction xs arbitrary: wt rd) (auto simp: relax_edge_def Let_def)

lemma foldl_relax_step:
  "distinct ks \<Longrightarrow> foldl (relax_step w name) (wt, rd) ks =
     ((\<lambda>d. wt d - (if d \<in> set ks \<and> name \<in> set (sources_of w d) then 1 else 0)),
      rd @ filter (\<lambda>d. name \<in> set (sources_of w d) \<and> wt d = 1) ks)"
proof (induction ks arbitrary: wt rd)
  case (Cons k ks)
  let ?wt = "if name \<in> set (sources_of w k) then wt(k := wt k - 1) else wt"
  let ?rd = "if name \<in> set (sources_of w k) \<and> wt k = 1 then rd @ [k] else rd"
  have step: "relax_step w name (wt, rd) k = (?wt, ?rd)"
    by (auto simp: relax_step_def foldl_relax_edge distinct_sources_of)
  have "filter (\<lambda>d. name \<in> set (sources_of w d) \<and> ?wt d = 1) ks =
        filter (\<lambda>d. name \<in> set (sources_of w d) \<and> wt d = 1) ks"
    using Cons.prems by (intro filter_cong) auto
  with Cons show ?case
    by (auto simp: step fun_eq_iff simp del: fun_upd_apply) auto
qed simp

lemma relax_eq:
  "relax w name (wt, rd) =
     ((\<lambda>d. wt d - (if d \<in> declared w \<and> name \<in> set (sources_of w d) then 1 else 0)),
      rd @ filter (\<lambda>d. name \<in> set (sources_of w d) \<and> wt d = 1) (sorted_keys (wf_Steps w)))"
  by (simp add: relax_def foldl_relax_step)

lemma filter_drop:
  "(\<And>x. x \<in> set xs \<Longrightarrow> P x \<or> Q x \<Longrightarrow> R x) \<Longrightarrow> (\<And>x. \<not> (P x \<and> Q x)) \<Longrightarrow>
   length (filter P xs) + length (filter Q xs) \<le> length (filter R xs)"
proof (induction xs)
  case (Cons x xs)
  have "length (filter P xs) + length (filter Q xs) \<le> length (filter R xs)"
    using Cons.prems by (intro Cons.IH) auto
  moreover have "P x \<or> Q x \<longrightarrow> R x" "\<not> (P x \<and> Q x)" using Cons.prems by auto
  ultimately show ?case by auto
qed simp

function kahn :: "workflow \<Rightarrow> (string \<Rightarrow> int) \<Rightarrow> string list \<Rightarrow> string list \<Rightarrow> string list" where
  "kahn w waiting ready order =
     (case sort ready of
        [] \<Rightarrow> order
      | name # rest \<Rightarrow>
          (let (waiting', ready') = relax w name (waiting, rest) in
           kahn w waiting' ready' (order @ [name])))"
  by pat_completeness auto
termination
proof (relation "measure (\<lambda>(w, waiting, ready, order).
    length ready + length (filter (\<lambda>d. waiting d > 0) (sorted_keys (wf_Steps w))))", goal_cases)
  case (2 w waiting ready order name rest wr waiting' ready')
  then have eq: "waiting' = (\<lambda>d. waiting d - (if d \<in> declared w \<and> name \<in> set (sources_of w d) then 1 else 0))"
      "ready' = rest @ filter (\<lambda>d. name \<in> set (sources_of w d) \<and> waiting d = 1) (sorted_keys (wf_Steps w))"
    by (auto simp: relax_eq)
  have len: "length ready = Suc (length rest)"
    using 2(1) by (metis length_Cons length_sort)
  have "length (filter (\<lambda>d. name \<in> set (sources_of w d) \<and> waiting d = 1) (sorted_keys (wf_Steps w))) +
        length (filter (\<lambda>d. waiting' d > 0 \<and> \<not> (name \<in> set (sources_of w d) \<and> waiting d = 1)) (sorted_keys (wf_Steps w)))
        \<le> length (filter (\<lambda>d. waiting d > 0) (sorted_keys (wf_Steps w)))"
    by (rule filter_drop) (auto simp: eq(1) split: if_splits)
  moreover have "filter (\<lambda>d. waiting' d > 0 \<and> \<not> (name \<in> set (sources_of w d) \<and> waiting d = 1)) (sorted_keys (wf_Steps w)) =
        filter (\<lambda>d. waiting' d > 0) (sorted_keys (wf_Steps w))"
    by (rule filter_cong) (auto simp: eq(1))
  ultimately show ?case by (simp add: eq(2) len)
qed simp

declare kahn.simps [simp del]

definition initially_ready :: "workflow \<Rightarrow> string list" where
  "initially_ready w = filter (\<lambda>name. initial_waiting w name = 0) (sorted_keys (wf_Steps w))"

definition topological :: "workflow \<Rightarrow> (graph_error, string list) result" where
  "topological w =
     (let order = kahn w (initial_waiting w) (initially_ready w) [];
          n = length (sorted_keys (wf_Steps w)) in
      if length order \<noteq> n then Inl (CannotOrder (length order) n) else Inr order)"

section \<open>The graph\<close>

record graph =
  g_wf :: workflow
  g_order :: "string list"
  g_consumers :: "(string, (string, string list) gomap) gomap"
  g_manifests :: "(string, manifest) gomap"

definition get :: "('k, 'v list) gomap \<Rightarrow> 'k \<Rightarrow> 'v list" where
  "get m k = (case map_of m k of None \<Rightarrow> [] | Some v \<Rightarrow> v)"

definition add_consumer ::
  "string \<Rightarrow> (string, (string, string list) gomap) gomap \<Rightarrow> edge \<Rightarrow> (string, (string, string list) gomap) gomap" where
  "add_consumer name consumers e =
     (let ports = get consumers (e_Step e); takers = get ports (e_Port e) in
      AList.update (e_Step e)
        (if name \<in> set takers then ports else AList.update (e_Port e) (takers @ [name]) ports) consumers)"

definition consumers_of :: "workflow \<Rightarrow> string list \<Rightarrow> (string, (string, string list) gomap) gomap" where
  "consumers_of w order =
     foldl (\<lambda>consumers name. foldl (add_consumer name) consumers (edgesOf w name)) [] order"

definition Build ::
  "other_checks \<Rightarrow> schema_validator \<Rightarrow> workflow \<Rightarrow> (string, manifest) gomap \<Rightarrow> (graph_error, graph) result" where
  "Build other schema w manifests =
     rbind (Check other w) (\<lambda>_.
     if \<not> wf_resolved w \<and> wf_Include w \<noteq> [] then Inl IncludesUnresolved
     else rbind (each_step (checkAgainstManifest schema manifests) w) (\<lambda>_.
          rbind (topological w) (\<lambda>order.
          Inr \<lparr>g_wf = w, g_order = order, g_consumers = consumers_of w order, g_manifests = manifests\<rparr>)))"

definition Steps :: "graph \<Rightarrow> string list" where
  "Steps g = sorted_keys (wf_Steps (g_wf g))"

definition Order :: "graph \<Rightarrow> string list" where
  "Order g = g_order g"

definition Step :: "graph \<Rightarrow> string \<Rightarrow> step option" where
  "Step g name = map_of (wf_Steps (g_wf g)) name"

definition Edges :: "graph \<Rightarrow> string \<Rightarrow> edge list" where
  "Edges g name = (case Step g name of None \<Rightarrow> [] | Some st \<Rightarrow> st_Needs st)"

definition Consumers :: "graph \<Rightarrow> string \<Rightarrow> string \<Rightarrow> string list" where
  "Consumers g name port = get (get (g_consumers g) name) port"

definition add_port :: "string list \<Rightarrow> string \<Rightarrow> string list" where
  "add_port ports port = (if port \<in> set ports then ports else ports @ [port])"

definition published :: "graph \<Rightarrow> string \<Rightarrow> string list" where
  "published g name =
     (case Step g name of
        None \<Rightarrow> []
      | Some st \<Rightarrow>
          (let taken = foldl add_port (st_Outputs st) (sorted_keys (get (g_consumers g) name)) in
           foldl (\<lambda>ports out.
               case map_of (wf_Outputs (g_wf g)) out of
                 None \<Rightarrow> ports
               | Some from \<Rightarrow> if o_Step from = name then add_port ports (o_Port from) else ports)
             taken (sorted_keys (wf_Outputs (g_wf g)))))"

definition manifest_of :: "graph \<Rightarrow> string \<Rightarrow> manifest option" where
  "manifest_of g name =
     (case Step g name of
        None \<Rightarrow> None
      | Some st \<Rightarrow>
          if st_Image st = [] \<or> st_Script st \<noteq> [] then None else map_of (g_manifests g) (st_Image st))"

definition Brick :: "graph \<Rightarrow> string \<Rightarrow> (string \<times> string) option" where
  "Brick g name = map_option (\<lambda>m. (mf_Name m, mf_Version m)) (manifest_of g name)"

section \<open>The order Kahn's loop answers\<close>

definition kahn_inv :: "workflow \<Rightarrow> (string \<Rightarrow> int) \<Rightarrow> string list \<Rightarrow> string list \<Rightarrow> bool" where
  "kahn_inv w waiting ready order \<longleftrightarrow>
     distinct (order @ ready) \<and> set (order @ ready) \<subseteq> declared w \<and>
     (\<forall>d \<in> declared w.
        waiting d = int (card (set (sources_of w d) - {d} - set order)) -
                    (if d \<in> set order \<and> d \<in> set (sources_of w d) then 1 else 0) \<and>
        (d \<in> set order \<union> set ready \<longleftrightarrow> set (sources_of w d) - {d} \<subseteq> set order)) \<and>
     (\<forall>i < length order. set (sources_of w (order ! i)) - {order ! i} \<subseteq> set (take i order))"

lemma foldl_counted:
  "foldl (\<lambda>(seen, counted) e. if e_Step e = name \<or> e_Step e \<in> set seen then (seen, counted)
      else (e_Step e # seen, e_Step e # counted)) (acc, acc) es = (seen, counted) \<Longrightarrow>
   distinct acc \<Longrightarrow> distinct counted \<and> set counted = set acc \<union> (e_Step ` set es - {name}) \<and> seen = counted"
proof (induction es arbitrary: acc)
  case (Cons e es)
  show ?case
  proof (cases "e_Step e = name \<or> e_Step e \<in> set acc")
    case True
    with Cons.prems Cons.IH[of acc] show ?thesis by auto
  next
    case False
    with Cons.prems Cons.IH[of "e_Step e # acc"] show ?thesis by auto
  qed
qed auto

lemma initial_waiting_eq:
  assumes "name \<in> declared w"
  shows "initial_waiting w name = int (card (set (sources_of w name) - {name}))"
proof -
  define r where "r = foldl (\<lambda>(seen, counted) e.
      if e_Step e = name \<or> e_Step e \<in> set seen then (seen, counted)
      else (e_Step e # seen, e_Step e # counted)) ([], []) (edgesOf w name)"
  obtain seen counted where sc: "r = (seen, counted)" by (cases r)
  have "distinct counted \<and> set counted = e_Step ` set (edgesOf w name) - {name}"
    using foldl_counted[of name "[]" "edgesOf w name" seen counted] sc by (auto simp: r_def)
  then have "length counted = card (set (sources_of w name) - {name})"
    by (metis distinct_card set_sources_of)
  with assms sc show ?thesis by (simp add: initial_waiting_def r_def)
qed

lemma kahn_inv_initial: "kahn_inv w (initial_waiting w) (initially_ready w) []"
  by (auto simp: kahn_inv_def initially_ready_def initial_waiting_eq)

lemma kahn_inv_step:
  assumes inv: "kahn_inv w waiting ready order" and sorted: "sort ready = name # rest"
    and relax: "relax w name (waiting, rest) = (waiting', ready')"
  shows "kahn_inv w waiting' ready' (order @ [name])"
proof -
  let ?S = "declared w" and ?src = "\<lambda>d. set (sources_of w d)"
  have set_ready: "set ready = insert name (set rest)"
    using sorted by (metis list.set(2) set_sort)
  have "distinct (name # rest)"
    using inv sorted by (metis distinct_append distinct_sort kahn_inv_def)
  then have name: "name \<notin> set rest" "distinct rest" by auto
  have new: "waiting' = (\<lambda>d. waiting d - (if d \<in> ?S \<and> name \<in> ?src d then 1 else 0))"
    "ready' = rest @ filter (\<lambda>d. name \<in> ?src d \<and> waiting d = 1) (sorted_keys (wf_Steps w))"
    using relax by (auto simp: relax_eq)
  have order: "name \<notin> set order" "distinct order" "set order \<inter> set rest = {}" "name \<in> ?S"
    "set order \<subseteq> ?S" "set rest \<subseteq> ?S" "?src name - {name} \<subseteq> set order"
    "\<And>i. i < length order \<Longrightarrow> ?src (order ! i) - {order ! i} \<subseteq> set (take i order)"
    using inv set_ready by (auto simp: kahn_inv_def)
  have old: "waiting d = int (card (?src d - {d} - set order)) - (if d \<in> set order \<and> d \<in> ?src d then 1 else 0)"
      "d \<in> set order \<or> d = name \<or> d \<in> set rest \<longleftrightarrow> ?src d - {d} \<subseteq> set order" if "d \<in> ?S" for d
    using inv set_ready that by (auto simp: kahn_inv_def)
  have fresh: "d \<notin> set order \<and> d \<noteq> name \<and> d \<notin> set rest \<and> ?src d - {d} - set order = {name}"
    if d: "d \<in> ?S" "name \<in> ?src d" "waiting d = 1" for d
  proof -
    have no: "\<not> ?src d - {d} \<subseteq> set order"
    proof
      assume "?src d - {d} \<subseteq> set order"
      moreover define k where "k = card (?src d - {d} - set order)"
      ultimately have "k = 0" by (metis Diff_eq_empty_iff card.empty)
      then have "waiting d \<le> 0" using old(1)[OF d(1)] by (simp add: k_def[symmetric])
      with d(3) show False by simp
    qed
    then have out: "d \<notin> set order" "d \<noteq> name" "d \<notin> set rest"
      using old(2)[OF d(1)] by auto
    then have "card (?src d - {d} - set order) = 1" "name \<in> ?src d - {d} - set order"
      using old(1)[OF d(1)] d order(1) by auto
    then have "?src d - {d} - set order = {name}"
      by (metis card_1_singletonE singletonD)
    with out show ?thesis by blast
  qed
  show ?thesis
    unfolding kahn_inv_def
  proof (intro conjI ballI allI impI)
    have "\<forall>d \<in> set (filter (\<lambda>d. name \<in> ?src d \<and> waiting d = 1) (sorted_keys (wf_Steps w))).
        d \<notin> set order \<and> d \<noteq> name \<and> d \<notin> set rest"
      using fresh by simp
    then show "distinct ((order @ [name]) @ ready')"
      using order(1-3) name unfolding new(2) distinct_append by auto
    show "set ((order @ [name]) @ ready') \<subseteq> ?S"
      using order by (auto simp: new(2))
  next
    fix d assume d: "d \<in> ?S"
    have "?src d - {d} - set (order @ [name]) = (?src d - {d} - set order) - {name}" by auto
    then have "int (card (?src d - {d} - set (order @ [name]))) =
        int (card (?src d - {d} - set order)) - (if name \<in> ?src d \<and> name \<noteq> d then 1 else 0)"
      using order(1) by (auto simp: card_Diff_singleton_if int_ops card_gt_0_iff Suc_le_eq)
    then show "waiting' d = int (card (?src d - {d} - set (order @ [name]))) -
        (if d \<in> set (order @ [name]) \<and> d \<in> ?src d then 1 else 0)"
      using old(1)[OF d] d order(1) by (auto simp: new(1))
    show "d \<in> set (order @ [name]) \<union> set ready' \<longleftrightarrow> ?src d - {d} \<subseteq> set (order @ [name])"
    proof
      assume "d \<in> set (order @ [name]) \<union> set ready'"
      then show "?src d - {d} \<subseteq> set (order @ [name])"
        using old(2)[OF d] fresh by (auto simp: new(2))
    next
      assume sub: "?src d - {d} \<subseteq> set (order @ [name])"
      show "d \<in> set (order @ [name]) \<union> set ready'"
      proof (cases "?src d - {d} \<subseteq> set order")
        case True
        then show ?thesis using old(2)[OF d] by (auto simp: new(2))
      next
        case False
        then have "?src d - {d} - set order = {name}" using sub by auto
        moreover have "d \<notin> set order" using False old(2)[OF d] by blast
        ultimately have "waiting d = 1" "name \<in> ?src d" using old(1)[OF d] by auto
        then show ?thesis using d by (auto simp: new(2))
      qed
    qed
  next
    fix i assume "i < length (order @ [name])"
    then show "?src ((order @ [name]) ! i) - {(order @ [name]) ! i} \<subseteq> set (take i (order @ [name]))"
      using order(7,8) by (cases "i < length order") (auto simp: nth_append less_Suc_eq)
  qed
qed

lemma kahn_inv_final:
  "kahn_inv w waiting ready order \<Longrightarrow> \<exists>waiting'. kahn_inv w waiting' [] (kahn w waiting ready order)"
proof (induction w waiting ready order rule: kahn.induct)
  case (1 w waiting ready order)
  show ?case
  proof (cases "sort ready")
    case Nil
    then have "ready = []" by (metis length_0_conv length_sort)
    with 1 Nil show ?thesis by (auto simp: kahn.simps)
  next
    case (Cons name rest)
    obtain waiting' ready' where r: "relax w name (waiting, rest) = (waiting', ready')"
      by (cases "relax w name (waiting, rest)")
    have "kahn_inv w waiting' ready' (order @ [name])"
      by (rule kahn_inv_step[OF "1.prems" Cons r])
    with "1.IH"[OF Cons r[symmetric]] Cons r show ?thesis
      by (simp add: kahn.simps[of w waiting ready order])
  qed
qed

lemma topological_Inr:
  assumes "topological w = Inr order"
  shows "distinct order" and "set order = declared w"
    and "i < length order \<Longrightarrow> e \<in> set (edgesOf w (order ! i)) \<Longrightarrow> e_Step e \<noteq> order ! i \<Longrightarrow>
         \<exists>j < i. order ! j = e_Step e"
proof -
  have order: "order = kahn w (initial_waiting w) (initially_ready w) []"
    and len: "length order = length (sorted_keys (wf_Steps w))"
    using assms by (auto simp: topological_def Let_def split: if_splits)
  obtain waiting where inv: "kahn_inv w waiting [] order"
    using kahn_inv_final[OF kahn_inv_initial] order by blast
  show dist: "distinct order" using inv by (auto simp: kahn_inv_def)
  have "set order \<subseteq> declared w" using inv by (auto simp: kahn_inv_def)
  moreover have "card (set order) = card (declared w)"
    using len distinct_card[OF dist] distinct_card[OF distinct_sorted_keys[of "wf_Steps w"]] by simp
  ultimately show "set order = declared w"
    by (intro card_subset_eq) auto
  show "\<exists>j < i. order ! j = e_Step e"
    if "i < length order" "e \<in> set (edgesOf w (order ! i))" "e_Step e \<noteq> order ! i"
  proof -
    have "e_Step e \<in> set (sources_of w (order ! i)) - {order ! i}"
      using that by (auto simp: set_sources_of)
    then have "e_Step e \<in> set (take i order)"
      using inv that(1) by (auto simp: kahn_inv_def)
    then show ?thesis using that(1) by (auto simp: in_set_conv_nth)
  qed
qed

section \<open>The cycle check is exact\<close>

text \<open>
  \<open>needed w\<close> relates a declared step to the steps that need it. A workflow is acyclic when that
  relation is.
\<close>

definition needed :: "workflow \<Rightarrow> (string \<times> string) set" where
  "needed w = {(b, a). b \<in> e_Step ` set (edgesOf w a) \<and> step_of w b \<noteq> None}"

definition is_cycle :: "workflow \<Rightarrow> string list \<Rightarrow> bool" where
  "is_cycle w c \<longleftrightarrow> 2 \<le> length c \<and> hd c = last c \<and> successively (\<lambda>a b. (b, a) \<in> needed w) c"

lemma finite_needed: "finite (needed w)"
proof -
  have "needed w \<subseteq> (\<Union>a \<in> declared w. e_Step ` set (edgesOf w a)) \<times> declared w"
    by (auto simp: needed_def dest: edgesOf_declared)
  then show ?thesis by (rule finite_subset) auto
qed

lemma successively_trancl:
  "successively R xs \<Longrightarrow> 2 \<le> length xs \<Longrightarrow> R\<^sup>+\<^sup>+ (hd xs) (last xs)"
proof (induction xs)
  case (Cons x xs)
  show ?case
  proof (cases "2 \<le> length xs")
    case True
    then have "R x (hd xs)" "R\<^sup>+\<^sup>+ (hd xs) (last xs)"
      using Cons by (auto simp: successively_Cons)
    with True show ?thesis by (auto intro: tranclp_into_tranclp2)
  next
    case False
    with Cons.prems(2) obtain y where "xs = [y]" by (cases xs; cases "tl xs") auto
    with Cons.prems show ?thesis by auto
  qed
qed simp

lemma cycle_not_acyclic: "is_cycle w c \<Longrightarrow> \<not> acyclic (needed w)"
proof
  assume c: "is_cycle w c" and a: "acyclic (needed w)"
  have "(\<lambda>a b. (b, a) \<in> needed w)\<^sup>+\<^sup>+ (hd c) (last c)"
    using c by (intro successively_trancl) (auto simp: is_cycle_def)
  then have "(hd c, last c) \<in> ((needed w)\<inverse>)\<^sup>+"
    by (simp add: tranclp_unfold converse_unfold)
  with c have "(hd c, hd c) \<in> (needed w)\<^sup>+"
    by (simp add: is_cycle_def trancl_converse)
  with a show False by (auto simp: acyclic_def)
qed

text \<open>A closed step, and everything it needs, is accessible: no walk from it goes on for ever.\<close>

definition closed_acc :: "workflow \<Rightarrow> marks \<Rightarrow> bool" where
  "closed_acc w st \<longleftrightarrow> (\<forall>x. st x = Some Closed \<longrightarrow> x \<in> Wellfounded.acc (needed w))"

definition walked :: "workflow \<Rightarrow> marks \<Rightarrow> marks \<Rightarrow> bool" where
  "walked w st st' \<longleftrightarrow> closed_acc w st' \<and> (\<forall>x. st x = Some Closed \<longrightarrow> st' x = Some Closed) \<and>
     (\<forall>x. st' x = Some Open \<longrightarrow> st x = Some Open)"

lemma walkedD:
  assumes "walked w st st'"
  shows "closed_acc w st'" and "st x = Some Closed \<Longrightarrow> st' x = Some Closed"
    and "st' x = Some Open \<Longrightarrow> st x = Some Open"
  using assms unfolding walked_def by blast+

lemma walked_refl: "closed_acc w st \<Longrightarrow> walked w st st"
  unfolding walked_def by blast

lemma walked_trans: "walked w a b \<Longrightarrow> walked w b c \<Longrightarrow> walked w a c"
  unfolding walked_def by blast

lemma visits_walked:
  assumes deeper: "\<And>m sp sp'. deeper m sp = Inr sp' \<Longrightarrow> fst sp m = None \<Longrightarrow> closed_acc w (fst sp) \<Longrightarrow>
      walked w (fst sp) (fst sp') \<and> fst sp' m = Some Closed"
  shows "rfold (visit deeper w name) es sp = Inr sp' \<Longrightarrow> closed_acc w (fst sp) \<Longrightarrow>
    walked w (fst sp) (fst sp') \<and>
    (\<forall>e \<in> set es. step_of w (e_Step e) \<noteq> None \<longrightarrow> fst sp' (e_Step e) = Some Closed)"
proof (induction es arbitrary: sp)
  case (Cons e es)
  then obtain sp1 where v: "visit deeper w name e sp = Inr sp1"
    and r: "rfold (visit deeper w name) es sp1 = Inr sp'" by auto
  have 1: "walked w (fst sp) (fst sp1) \<and> (step_of w (e_Step e) \<noteq> None \<longrightarrow> fst sp1 (e_Step e) = Some Closed)"
    using v deeper[of "e_Step e" sp sp1] Cons.prems(2) walked_refl[OF Cons.prems(2)]
    by (cases sp) (auto simp: visit_def split: if_splits option.splits mark.splits)
  then have c: "closed_acc w (fst sp1)" by (blast dest: walkedD(1))
  note 2 = Cons.IH[OF r c]
  have "walked w (fst sp) (fst sp')" using 1 2 by (blast intro: walked_trans)
  moreover have "step_of w (e_Step e) \<noteq> None \<longrightarrow> fst sp' (e_Step e) = Some Closed"
    using 1 2 by (blast dest: walkedD(2))
  ultimately show ?case using 2 by simp
qed (simp add: walked_refl)

lemma walk_walked:
  "walk n w name sp = Inr sp' \<Longrightarrow> fst sp name = None \<Longrightarrow> closed_acc w (fst sp) \<Longrightarrow>
   walked w (fst sp) (fst sp') \<and> fst sp' name = Some Closed"
proof (induction n arbitrary: name sp sp')
  case (Suc n)
  let ?start = "((fst sp)(name \<mapsto> Open), snd sp @ [name])"
  obtain st path where r: "rfold (visit (walk n w) w name) (edgesOf w name) ?start = Inr (st, path)"
    and sp': "sp' = (st(name \<mapsto> Closed), butlast path)"
    using Suc.prems(1) by auto
  have c: "closed_acc w (fst ?start)" using Suc.prems(3) by (auto simp: closed_acc_def)
  have v: "walked w (fst ?start) (fst (st, path))"
    and closed: "\<forall>e \<in> set (edgesOf w name). step_of w (e_Step e) \<noteq> None \<longrightarrow> fst (st, path) (e_Step e) = Some Closed"
    using visits_walked[where deeper = "walk n w" and sp = ?start and sp' = "(st, path)", OF Suc.IH r c]
    by blast+
  have acc: "\<And>x. st x = Some Closed \<Longrightarrow> x \<in> Wellfounded.acc (needed w)"
    using walkedD(1)[OF v] by (simp add: closed_acc_def)
  have "name \<in> Wellfounded.acc (needed w)"
  proof (rule acc.accI)
    fix y assume "(y, name) \<in> needed w"
    then obtain e where "e \<in> set (edgesOf w name)" "step_of w (e_Step e) \<noteq> None" "y = e_Step e"
      unfolding needed_def by blast
    with closed have "st y = Some Closed" by fastforce
    then show "y \<in> Wellfounded.acc (needed w)" by (rule acc)
  qed
  then have "closed_acc w (fst sp')" using acc by (simp add: closed_acc_def sp')
  moreover have "fst sp' x = Some Closed" if "fst sp x = Some Closed" for x
    using walkedD(2)[OF v, of x] that by (simp add: sp')
  moreover have "fst sp x = Some Open" if "fst sp' x = Some Open" for x
    using walkedD(3)[OF v, of x] that by (simp add: sp' split: if_splits)
  ultimately have "walked w (fst sp) (fst sp')" unfolding walked_def by blast
  moreover have "fst sp' name = Some Closed" by (simp add: sp')
  ultimately show ?case ..
qed simp

lemma walks_walked:
  assumes "rfold (\<lambda>name (state, path). if state name \<noteq> None then Inr (state, path) else walk n w name (state, path)) ks sp
     = Inr sp'" "closed_acc w (fst sp)"
  shows "walked w (fst sp) (fst sp') \<and> ((\<forall>x. fst sp x \<noteq> Some Open) \<longrightarrow> (\<forall>k \<in> set ks. fst sp' k = Some Closed))"
  using assms
proof (induction ks arbitrary: sp)
  case (Cons k ks)
  let ?f = "\<lambda>name (state, path). if state name \<noteq> None then Inr (state, path) else walk n w name (state, path)"
  obtain sp1 where v: "?f k sp = Inr sp1" and r: "rfold ?f ks sp1 = Inr sp'"
    using Cons.prems(1) by auto
  have 1: "walked w (fst sp) (fst sp1) \<and> fst sp1 k \<noteq> None"
  proof (cases "fst sp k = None")
    case True
    then have "walk n w k sp = Inr sp1" using v by (cases sp) auto
    from walk_walked[OF this True Cons.prems(2)] show ?thesis by simp
  next
    case False
    then have "sp1 = sp" using v by (cases sp) auto
    with False Cons.prems(2) show ?thesis by (simp add: walked_refl)
  qed
  then have "closed_acc w (fst sp1)" by (blast dest: walkedD(1))
  note 2 = Cons.IH[OF r this]
  have "fst sp' k = Some Closed" if no: "\<forall>x. fst sp x \<noteq> Some Open"
  proof -
    have "fst sp1 k \<noteq> Some Open" using 1 no walkedD(3) by blast
    then have "fst sp1 k = Some Closed" using 1 by (metis mark.exhaust option.exhaust)
    with 2 show ?thesis by (blast dest: walkedD(2))
  qed
  moreover have "(\<forall>x. fst sp x \<noteq> Some Open) \<longrightarrow> (\<forall>x. fst sp1 x \<noteq> Some Open)"
    using 1 walkedD(3) by blast
  moreover have "walked w (fst sp) (fst sp')" using 1 2 by (blast intro: walked_trans)
  ultimately show ?case using 2 by simp
qed (simp add: walked_refl)

lemma checkCycles_acyclic:
  assumes "checkCycles w = Inr ()"
  shows "acyclic (needed w)"
proof -
  obtain st path where "rfold (\<lambda>name (state, path). if state name \<noteq> None then Inr (state, path)
      else walk (length (sorted_keys (wf_Steps w))) w name (state, path)) (sorted_keys (wf_Steps w)) (Map.empty, []) = Inr (st, path)"
    using assms by (auto simp: checkCycles_def)
  from walks_walked[OF this] have v: "walked w Map.empty st" "\<forall>x \<in> declared w. st x = Some Closed"
    by (simp_all add: closed_acc_def)
  have acc: "closed_acc w st" by (rule walkedD(1)[OF v(1)])
  have "x \<in> Wellfounded.acc (needed w)" for x
  proof (cases "x \<in> declared w")
    case True
    with v(2) acc show ?thesis by (simp add: closed_acc_def)
  next
    case False
    then have "edgesOf w x = []" using step_of_None_iff[of w x] by (simp add: edgesOf_def)
    then have "(y, x) \<notin> needed w" for y by (simp add: needed_def)
    then show ?thesis by (metis acc.accI)
  qed
  then have "wf (needed w)" by (intro acc_wfI allI)
  then show ?thesis by (rule wf_acyclic)
qed

text \<open>The other direction: what a refused walk answers.\<close>

definition on_path :: "nat \<Rightarrow> workflow \<Rightarrow> marks \<times> string list \<Rightarrow> bool" where
  "on_path n w sp \<longleftrightarrow> (\<forall>x. fst sp x = Some Open \<longleftrightarrow> x \<in> set (snd sp)) \<and> distinct (snd sp) \<and>
     set (snd sp) \<subseteq> declared w \<and> card (declared w) \<le> n + length (snd sp) \<and>
     successively (\<lambda>a b. (b, a) \<in> needed w) (snd sp)"

definition names_cycle :: "workflow \<Rightarrow> graph_error \<Rightarrow> bool" where
  "names_cycle w err \<longleftrightarrow> (\<exists>name c. err = CycleInGraph name c \<and> is_cycle w c)"

definition walk_ends ::
  "workflow \<Rightarrow> marks \<times> string list \<Rightarrow> (graph_error, marks \<times> string list) result \<Rightarrow> bool" where
  "walk_ends w sp r \<longleftrightarrow>
     (case r of
        Inl err \<Rightarrow> names_cycle w err
      | Inr sp' \<Rightarrow> snd sp' = snd sp \<and> (\<forall>x. fst sp' x = Some Open \<longleftrightarrow> fst sp x = Some Open))"

lemma walk_ends_trans:
  "walk_ends w sp (Inr sp1) \<Longrightarrow> walk_ends w sp1 r \<Longrightarrow> walk_ends w sp r"
  by (cases r) (auto simp: walk_ends_def)

lemma on_path_off: "on_path n w sp \<Longrightarrow> fst sp x = None \<Longrightarrow> x \<notin> set (snd sp)"
  unfolding on_path_def by (metis option.distinct(1))

lemma closing_cycle:
  assumes path: "successively (\<lambda>a b. (b, a) \<in> needed w) path" "path \<noteq> []" "last path = name"
    and e: "(b, name) \<in> needed w" "b \<in> set path"
  shows "is_cycle w (from_first b path @ [b])"
proof -
  obtain p q where pq: "path = p @ b # q" "b \<notin> set p"
    using split_list_first[OF e(2)] by blast
  then have ff: "from_first b path = b # q"
    by (simp add: from_first_def dropWhile_append)
  have "successively (\<lambda>a b. (b, a) \<in> needed w) (b # q)"
    using path(1) pq(1) by (simp add: successively_append_iff)
  moreover have "last (b # q) = name" using path pq(1) by simp
  ultimately have "successively (\<lambda>a b. (b, a) \<in> needed w) ((b # q) @ [b])"
    using e(1) by (simp only: successively_append_iff) simp
  then show ?thesis by (simp add: is_cycle_def ff)
qed

lemma visits_end:
  assumes deeper: "\<And>m sp. on_path n w sp \<Longrightarrow> m \<in> declared w \<Longrightarrow> fst sp m = None \<Longrightarrow>
      snd sp \<noteq> [] \<Longrightarrow> (m, last (snd sp)) \<in> needed w \<Longrightarrow> walk_ends w sp (deeper m sp)"
  shows "on_path n w sp \<Longrightarrow> snd sp \<noteq> [] \<Longrightarrow> last (snd sp) = name \<Longrightarrow> set es \<subseteq> set (edgesOf w name) \<Longrightarrow>
    walk_ends w sp (rfold (visit deeper w name) es sp)"
proof (induction es arbitrary: sp)
  case Nil
  then show ?case by (simp add: walk_ends_def)
next
  case (Cons e es)
  have need: "(e_Step e, name) \<in> needed w" if "step_of w (e_Step e) \<noteq> None"
    using that Cons.prems(4) by (auto simp: needed_def)
  have v: "walk_ends w sp (visit deeper w name e sp)"
  proof (cases "step_of w (e_Step e) = None \<or> fst sp (e_Step e) = Some Closed")
    case True
    then show ?thesis by (cases sp) (auto simp: visit_def walk_ends_def)
  next
    case False
    then have nd: "(e_Step e, last (snd sp)) \<in> needed w" "e_Step e \<in> declared w"
      using need Cons.prems(3) step_of_None_iff[of w "e_Step e"] by auto
    show ?thesis
    proof (cases "fst sp (e_Step e)")
      case None
      have "visit deeper w name e sp = deeper (e_Step e) sp"
        using False None by (cases sp) (auto simp: visit_def)
      with deeper[OF Cons.prems(1) nd(2) None Cons.prems(2) nd(1)] show ?thesis by simp
    next
      case (Some m)
      then have m: "fst sp (e_Step e) = Some Open" using False by (cases m) auto
      then have "e_Step e \<in> set (snd sp)" using Cons.prems(1) by (simp add: on_path_def)
      then have "is_cycle w (from_first (e_Step e) (snd sp) @ [e_Step e])"
        using Cons.prems(1-3) nd(1) by (intro closing_cycle) (auto simp: on_path_def)
      moreover have "visit deeper w name e sp = Inl (CycleInGraph name (from_first (e_Step e) (snd sp) @ [e_Step e]))"
        using False m by (cases sp) (auto simp: visit_def)
      ultimately show ?thesis by (simp add: walk_ends_def names_cycle_def)
    qed
  qed
  show ?case
  proof (cases "visit deeper w name e sp")
    case (Inl err)
    with v show ?thesis by (simp add: walk_ends_def)
  next
    case (Inr sp1)
    with v have s: "snd sp1 = snd sp" "\<forall>x. fst sp1 x = Some Open \<longleftrightarrow> fst sp x = Some Open"
      by (simp_all add: walk_ends_def)
    then have "on_path n w sp1" using Cons.prems(1) by (simp add: on_path_def)
    then have "walk_ends w sp1 (rfold (visit deeper w name) es sp1)"
      using Cons.prems s(1) by (intro Cons.IH) auto
    with v Inr show ?thesis by (simp add: walk_ends_trans)
  qed
qed

lemma walk_ends:
  "on_path n w sp \<Longrightarrow> name \<in> declared w \<Longrightarrow> fst sp name = None \<Longrightarrow>
   (snd sp \<noteq> [] \<Longrightarrow> (name, last (snd sp)) \<in> needed w) \<Longrightarrow> walk_ends w sp (walk n w name sp)"
proof (induction n arbitrary: name sp)
  case 0
  have "name \<notin> set (snd sp)" using on_path_off 0(1,3) by blast
  then have "set (snd sp) \<subset> declared w" using 0 by (auto simp: on_path_def)
  then have "card (set (snd sp)) < card (declared w)" by (intro psubset_card_mono) auto
  with 0(1) show ?case by (simp add: on_path_def distinct_card)
next
  case (Suc n)
  let ?start = "((fst sp)(name \<mapsto> Open), snd sp @ [name])"
  have new: "name \<notin> set (snd sp)" using on_path_off Suc.prems(1,3) by blast
  have start: "on_path n w ?start"
    using Suc.prems new by (auto simp: on_path_def successively_append_iff)
  have v: "walk_ends w ?start (rfold (visit (walk n w) w name) (edgesOf w name) ?start)"
    using start by (intro visits_end[where n = n]) (auto intro: Suc.IH)
  show ?case
  proof (cases "rfold (visit (walk n w) w name) (edgesOf w name) ?start")
    case (Inl err)
    with v show ?thesis by (simp add: walk_ends_def)
  next
    case (Inr sp1)
    obtain st path where sp1: "sp1 = (st, path)" by (cases sp1)
    from v Inr sp1 have "path = snd sp @ [name]"
      and o: "\<And>x. st x = Some Open \<longleftrightarrow> x = name \<or> fst sp x = Some Open"
      by (auto simp: walk_ends_def)
    moreover have "fst sp name \<noteq> Some Open" using Suc.prems(3) by simp
    ultimately show ?thesis using Inr sp1 by (auto simp: walk_ends_def)
  qed
qed

lemma checkCycles_names:
  assumes "checkCycles w = Inl err"
  shows "names_cycle w err"
proof -
  let ?n = "length (sorted_keys (wf_Steps w))"
  let ?f = "\<lambda>name (state, path). if state name \<noteq> None then Inr (state, path) else walk ?n w name (state, path)"
  have n: "?n = card (declared w)"
    by (metis distinct_card distinct_sorted_keys set_sorted_steps)
  have "walk_ends w sp (rfold ?f ks sp)"
    if "set ks \<subseteq> declared w" "snd sp = []" "\<forall>x. fst sp x \<noteq> Some Open" for ks and sp :: "marks \<times> string list"
    using that
  proof (induction ks arbitrary: sp)
    case Nil
    then show ?case by (simp add: walk_ends_def)
  next
    case (Cons k ks)
    have v: "walk_ends w sp (?f k sp)"
    proof (cases "fst sp k = None")
      case True
      have "on_path ?n w sp" using Cons.prems n by (simp add: on_path_def)
      from walk_ends[OF this _ True] Cons.prems have "walk_ends w sp (walk ?n w k sp)" by simp
      with True show ?thesis by (cases sp) simp
    next
      case False
      then show ?thesis by (cases sp) (simp add: walk_ends_def)
    qed
    show ?case
    proof (cases "?f k sp")
      case (Inl e)
      with v show ?thesis by (simp add: walk_ends_def)
    next
      case (Inr sp1)
      with v have s: "snd sp1 = snd sp" "\<forall>x. fst sp1 x = Some Open \<longleftrightarrow> fst sp x = Some Open"
        by (simp_all add: walk_ends_def)
      have "\<forall>x. fst sp1 x \<noteq> Some Open" using s(2) Cons.prems(3) by blast
      then have 2: "walk_ends w sp1 (rfold ?f ks sp1)"
        using Cons.prems(1,2) s(1) by (intro Cons.IH) simp_all
      have 1: "walk_ends w sp (Inr sp1)" using v unfolding Inr .
      have "rfold ?f (k # ks) sp = rfold ?f ks sp1"
        unfolding rfold.simps Inr by simp
      then show ?thesis using walk_ends_trans[OF 1 2] by (rule ssubst)
    qed
  qed
  from this[of "sorted_keys (wf_Steps w)" "(Map.empty, [])"] assms show ?thesis
    by (auto simp: checkCycles_def walk_ends_def rbind_Inl_iff split: sum.splits)
qed

lemma topological_complete:
  assumes "acyclic (needed w)" and known: "\<And>a e. e \<in> set (edgesOf w a) \<Longrightarrow> e_Step e \<in> declared w"
  shows "\<exists>order. topological w = Inr order"
proof -
  define order where "order = kahn w (initial_waiting w) (initially_ready w) []"
  obtain waiting where inv: "kahn_inv w waiting [] order"
    using kahn_inv_final[OF kahn_inv_initial] order_def by blast
  have "wf (needed w)" using assms(1) finite_needed by (rule finite_acyclic_wf[rotated])
  then have "d \<in> declared w \<longrightarrow> d \<in> set order" for d
  proof (induction d)
    case (less d)
    show ?case
    proof
      assume d: "d \<in> declared w"
      have "s \<in> set order" if "s \<in> set (sources_of w d) - {d}" for s
      proof -
        from that obtain e where e: "e \<in> set (edgesOf w d)" "s = e_Step e"
          by (auto simp: set_sources_of)
        then have "s \<in> declared w" using known by blast
        moreover from this e have "(s, d) \<in> needed w"
          using step_of_None_iff[of w s] by (auto simp: needed_def)
        ultimately show ?thesis using less.IH by blast
      qed
      then have "set (sources_of w d) - {d} \<subseteq> set order" by blast
      then show "d \<in> set order" using inv d by (auto simp: kahn_inv_def)
    qed
  qed
  then have "declared w \<subseteq> set order" by blast
  moreover have "set order \<subseteq> declared w" "distinct order" using inv by (auto simp: kahn_inv_def)
  ultimately have "length order = length (sorted_keys (wf_Steps w))"
    by (metis distinct_card distinct_sorted_keys set_sorted_steps subset_antisym)
  then show ?thesis by (simp add: topological_def order_def[symmetric] Let_def)
qed

section \<open>What a built graph holds\<close>

lemma rfold_unit_Inr:
  "rfold (\<lambda>x (_ :: unit). f x) xs () = Inr () \<longleftrightarrow> (\<forall>x \<in> set xs. f x = Inr ())"
  by (induction xs) auto

lemma each_step_Inr:
  "each_step f w = Inr () \<longleftrightarrow> (\<forall>n st. step_of w n = Some st \<longrightarrow> f n st = Inr ())"
proof -
  have "each_step f w = Inr () \<longleftrightarrow>
      (\<forall>n \<in> declared w. (case step_of w n of None \<Rightarrow> Inr () | Some st \<Rightarrow> f n st) = Inr ())"
    by (simp add: each_step_def rfold_unit_Inr)
  also have "\<dots> \<longleftrightarrow> (\<forall>n st. step_of w n = Some st \<longrightarrow> f n st = Inr ())"
    using step_of_None_iff[of w] by (auto split: option.splits) (metis option.distinct(1))
  finally show ?thesis .
qed

lemma Check_Inr:
  assumes "Check other w = Inr ()"
  shows "checkSteps w = Inr ()" "checkEdges w = Inr ()" "checkCycles w = Inr ()"
    "checkWorkflowOutputs w = Inr ()" "checkMCP w = Inr ()"
  using assms by (auto simp: Check_def)

lemma checkEdges_known:
  assumes "checkEdges w = Inr ()" "e \<in> set (edgesOf w a)"
  shows "\<exists>from. step_of w (e_Step e) = Some from \<and> publishes from (e_Port e)"
proof -
  obtain st where st: "step_of w a = Some st" "e \<in> set (st_Needs st)"
    using assms(2) by (cases "step_of w a") (auto simp: edgesOf_def)
  then have "checkEdge w a e = Inr ()"
    using assms(1) by (auto simp: checkEdges_def each_step_Inr rfold_unit_Inr)
  then show ?thesis by (auto simp: checkEdge_def split: option.splits if_splits)
qed

lemma Build_Inr:
  assumes "Build other schema w manifests = Inr g"
  shows "g_wf g = w" "topological w = Inr (g_order g)" "g_consumers g = consumers_of w (g_order g)"
    "g_manifests g = manifests" "Check other w = Inr ()"
    "step_of w n = Some st \<Longrightarrow> checkAgainstManifest schema manifests n st = Inr ()"
  using assms by (auto simp: Build_def each_step_Inr split: if_splits)

lemma Edges_edgesOf: "Edges g n = edgesOf (g_wf g) n"
  by (simp add: Edges_def edgesOf_def Step_def step_of_def)

lemma get_Nil [simp]: "get [] k = []"
  by (simp add: get_def)

lemma get_update [simp]:
  "get (AList.update k v m) k' = (if k' = k then v else get m k')"
  by (simp add: get_def)

lemma add_consumer_takers:
  "c \<in> set (get (get (add_consumer name cs e) s) p) \<longleftrightarrow>
     c \<in> set (get (get cs s) p) \<or> c = name \<and> s = e_Step e \<and> p = e_Port e"
  by (auto simp: add_consumer_def Let_def)

lemma foldl_add_consumer:
  "c \<in> set (get (get (foldl (add_consumer name) cs es) s) p) \<longleftrightarrow>
     c \<in> set (get (get cs s) p) \<or> c = name \<and> (\<exists>e \<in> set es. s = e_Step e \<and> p = e_Port e)"
  by (induction es arbitrary: cs) (auto simp: add_consumer_takers)

lemma foldl_consumers:
  "c \<in> set (get (get (foldl (\<lambda>cs name. foldl (add_consumer name) cs (edgesOf w name)) cs ns) s) p) \<longleftrightarrow>
     c \<in> set (get (get cs s) p) \<or> c \<in> set ns \<and> (\<exists>e \<in> set (edgesOf w c). s = e_Step e \<and> p = e_Port e)"
  by (induction ns arbitrary: cs) (auto simp: foldl_add_consumer)

lemma Consumers_iff:
  assumes "Build other schema w manifests = Inr g"
  shows "c \<in> set (Consumers g s p) \<longleftrightarrow> (\<exists>e \<in> set (edgesOf w c). e_Step e = s \<and> e_Port e = p)"
proof -
  have "set (g_order g) = declared w"
    by (rule topological_Inr(2)[OF Build_Inr(2)[OF assms]])
  moreover have "c \<in> set (Consumers g s p) \<longleftrightarrow>
      c \<in> set (g_order g) \<and> (\<exists>e \<in> set (edgesOf w c). s = e_Step e \<and> p = e_Port e)"
    by (simp add: Consumers_def Build_Inr(3)[OF assms] consumers_of_def foldl_consumers)
  ultimately show ?thesis using edgesOf_declared by blast
qed

lemma foldl_add_port: "set (foldl add_port ports ps) = set ports \<union> set ps"
  by (induction ps arbitrary: ports) (auto simp: add_port_def)

lemma published_superset:
  "set (foldl (\<lambda>ports out.
       case map_of outs out of
         None \<Rightarrow> ports
       | Some from \<Rightarrow> if o_Step from = name then add_port ports (o_Port from) else ports) ports names) =
   set ports \<union> {o_Port from | out from. out \<in> set names \<and> map_of outs out = Some from \<and> o_Step from = name}"
  by (induction names arbitrary: ports) (auto simp: add_port_def split: option.splits)

lemma set_published:
  assumes "Step g name = Some st"
  shows "set (published g name) = set (st_Outputs st) \<union> fst ` set (get (g_consumers g) name) \<union>
     {o_Port from | out from. map_of (wf_Outputs (g_wf g)) out = Some from \<and> o_Step from = name}"
proof -
  have key: "out \<in> fst ` set (wf_Outputs (g_wf g))" if "map_of (wf_Outputs (g_wf g)) out = Some src" for out src
    using map_of_SomeD[OF that] by force
  then have "{o_Port src | out src. out \<in> fst ` set (wf_Outputs (g_wf g)) \<and> map_of (wf_Outputs (g_wf g)) out = Some src \<and>
        o_Step src = name} = {o_Port src | out src. map_of (wf_Outputs (g_wf g)) out = Some src \<and> o_Step src = name}"
    by blast
  then show ?thesis
    using assms by (simp add: published_def published_superset foldl_add_port set_sorted_keys Let_def)
qed

section \<open>What a replay reuses\<close>

text \<open>
  \<open>Upstream\<close>: the walk of \<open>replay.go\<close>, whose nested calls each mark one step more, so it is never
  deeper than there are steps.
\<close>

primrec climb :: "nat \<Rightarrow> graph \<Rightarrow> string \<Rightarrow> string list \<Rightarrow> string list" where
  "climb 0 g step upper = upper"
| "climb (Suc n) g step upper =
     foldl (\<lambda>upper e. if e_Step e \<in> set upper then upper else climb n g (e_Step e) (e_Step e # upper))
       upper (Edges g step)"

definition Upstream :: "graph \<Rightarrow> string \<Rightarrow> string list" where
  "Upstream g name =
     (let upper = climb (Suc (length (Steps g))) g name [] in filter (\<lambda>s. s \<in> set upper) (Order g))"

definition climbed :: "graph \<Rightarrow> string set \<Rightarrow> string set \<Rightarrow> string set \<Rightarrow> bool" where
  "climbed g roots upper upper' \<longleftrightarrow> upper \<subseteq> upper' \<and> roots \<subseteq> upper' \<and>
     (\<forall>x \<in> upper' - upper. e_Step ` set (Edges g x) \<subseteq> upper') \<and>
     upper' - upper \<subseteq> {x. \<exists>r \<in> roots. (x, r) \<in> (needed (g_wf g))\<^sup>*}"

lemma climbed_trans:
  assumes 1: "climbed g A a b" and 2: "climbed g B b c"
  shows "climbed g (A \<union> B) a c"
  unfolding climbed_def
proof (intro conjI ballI)
  show "a \<subseteq> c" "A \<union> B \<subseteq> c" using 1 2 unfolding climbed_def by auto
  show "e_Step ` set (Edges g x) \<subseteq> c" if "x \<in> c - a" for x
  proof (cases "x \<in> b")
    case True
    with 1 that have "e_Step ` set (Edges g x) \<subseteq> b" unfolding climbed_def by simp
    with 2 show ?thesis unfolding climbed_def by (meson subset_trans)
  next
    case False
    with 2 that show ?thesis unfolding climbed_def by simp
  qed
  have "c - a \<subseteq> (c - b) \<union> (b - a)" by blast
  also have "\<dots> \<subseteq> {x. \<exists>r \<in> A \<union> B. (x, r) \<in> (needed (g_wf g))\<^sup>*}"
  proof (rule Un_least)
    have "c - b \<subseteq> {x. \<exists>r \<in> B. (x, r) \<in> (needed (g_wf g))\<^sup>*}" using 2 unfolding climbed_def by simp
    then show "c - b \<subseteq> {x. \<exists>r \<in> A \<union> B. (x, r) \<in> (needed (g_wf g))\<^sup>*}" by blast
    have "b - a \<subseteq> {x. \<exists>r \<in> A. (x, r) \<in> (needed (g_wf g))\<^sup>*}" using 1 unfolding climbed_def by simp
    then show "b - a \<subseteq> {x. \<exists>r \<in> A \<union> B. (x, r) \<in> (needed (g_wf g))\<^sup>*}" by blast
  qed
  finally show "c - a \<subseteq> {x. \<exists>r \<in> A \<union> B. (x, r) \<in> (needed (g_wf g))\<^sup>*}" .
qed

lemma climbed_step:
  assumes known: "\<And>a e. e \<in> set (Edges g a) \<Longrightarrow> e_Step e \<in> declared (g_wf g)"
    and deeper: "\<And>step upper. card (declared (g_wf g) - set upper) < n \<Longrightarrow>
      climbed g (e_Step ` set (Edges g step)) (set upper) (set (climb n g step upper))"
    and n: "card (declared (g_wf g) - set upper) \<le> n"
    and es: "set es \<subseteq> set (Edges g step)"
  shows "climbed g (e_Step ` set es) (set upper)
    (set (foldl (\<lambda>upper e. if e_Step e \<in> set upper then upper else climb n g (e_Step e) (e_Step e # upper)) upper es))"
  using n es
proof (induction es arbitrary: upper)
  case Nil
  then show ?case by (simp add: climbed_def)
next
  case (Cons e es)
  define upper1 where "upper1 = (if e_Step e \<in> set upper then upper else climb n g (e_Step e) (e_Step e # upper))"
  have e: "e_Step e \<in> declared (g_wf g)" using Cons.prems(2) known by auto
  have 1: "climbed g {e_Step e} (set upper) (set upper1)"
  proof (cases "e_Step e \<in> set upper")
    case True
    then show ?thesis by (simp add: climbed_def upper1_def)
  next
    case False
    have "declared (g_wf g) - set (e_Step e # upper) \<subset> declared (g_wf g) - set upper" using e False by auto
    then have "card (declared (g_wf g) - set (e_Step e # upper)) < card (declared (g_wf g) - set upper)"
      by (intro psubset_card_mono) simp
    then have "card (declared (g_wf g) - set (e_Step e # upper)) < n" using Cons.prems(1) by linarith
    from deeper[OF this] have d: "climbed g (e_Step ` set (Edges g (e_Step e))) (set (e_Step e # upper)) (set upper1)"
      using False by (simp add: upper1_def)
    have near: "(y, e_Step e) \<in> needed (g_wf g)" if "y \<in> e_Step ` set (Edges g (e_Step e))" for y
      using that known step_of_None_iff[of "g_wf g"] by (auto simp: needed_def Edges_edgesOf)
    have "(x, e_Step e) \<in> (needed (g_wf g))\<^sup>*" if "x \<in> set upper1 - set (e_Step e # upper)" for x
    proof -
      have "set upper1 - set (e_Step e # upper) \<subseteq>
          {x. \<exists>r \<in> e_Step ` set (Edges g (e_Step e)). (x, r) \<in> (needed (g_wf g))\<^sup>*}"
        using d unfolding climbed_def by blast
      with that obtain r where r: "r \<in> e_Step ` set (Edges g (e_Step e))" "(x, r) \<in> (needed (g_wf g))\<^sup>*"
        by blast
      from near[OF r(1)] show ?thesis by (rule rtrancl_into_rtrancl[OF r(2)])
    qed
    moreover have "set upper1 - set upper \<subseteq> insert (e_Step e) (set upper1 - set (e_Step e # upper))" by auto
    ultimately have reach: "set upper1 - set upper \<subseteq> {x. \<exists>r \<in> {e_Step e}. (x, r) \<in> (needed (g_wf g))\<^sup>*}" by blast
    have "e_Step ` set (Edges g x) \<subseteq> set upper1" if "x \<in> set upper1 - set upper" for x
      using d that unfolding climbed_def by (cases "x = e_Step e") auto
    moreover have "set upper \<subseteq> set upper1" "e_Step e \<in> set upper1"
      using d unfolding climbed_def by auto
    ultimately show ?thesis using reach unfolding climbed_def by simp
  qed
  then have "declared (g_wf g) - set upper1 \<subseteq> declared (g_wf g) - set upper" unfolding climbed_def by blast
  then have "card (declared (g_wf g) - set upper1) \<le> card (declared (g_wf g) - set upper)"
    by (intro card_mono) simp
  then have "card (declared (g_wf g) - set upper1) \<le> n" using Cons.prems(1) by linarith
  then have "climbed g (e_Step ` set es) (set upper1)
    (set (foldl (\<lambda>upper e. if e_Step e \<in> set upper then upper else climb n g (e_Step e) (e_Step e # upper)) upper1 es))"
    using Cons.prems(2) by (intro Cons.IH) auto
  from climbed_trans[OF 1 this] show ?case by (simp add: upper1_def[symmetric])
qed

lemma climb_climbed:
  assumes "\<And>a e. e \<in> set (Edges g a) \<Longrightarrow> e_Step e \<in> declared (g_wf g)"
  shows "card (declared (g_wf g) - set upper) < n \<Longrightarrow>
    climbed g (e_Step ` set (Edges g step)) (set upper) (set (climb n g step upper))"
proof (induction n arbitrary: step upper)
  case (Suc n)
  then show ?case
    using climbed_step[OF assms, where n = n and es = "Edges g step" and step = step and upper = upper] by simp
qed simp

lemma Upstream_eq:
  assumes known: "\<And>a e. e \<in> set (Edges g a) \<Longrightarrow> e_Step e \<in> declared (g_wf g)"
  shows "Upstream g name = filter (\<lambda>s. (s, name) \<in> (needed (g_wf g))\<^sup>+) (Order g)"
proof -
  let ?N = "needed (g_wf g)"
  define upper where "upper = set (climb (Suc (length (Steps g))) g name [])"
  have "length (Steps g) = card (declared (g_wf g))"
    unfolding Steps_def by (metis distinct_card distinct_sorted_keys set_sorted_steps)
  then have c: "climbed g (e_Step ` set (Edges g name)) {} upper"
    using climb_climbed[OF known, where upper = "[]" and n = "Suc (length (Steps g))" and step = name]
    by (simp add: upper_def del: climb.simps)
  have edge: "(b, a) \<in> ?N \<longleftrightarrow> b \<in> e_Step ` set (Edges g a)" for a b
    using known step_of_None_iff[of "g_wf g"] by (auto simp: needed_def Edges_edgesOf)
  have "x \<in> upper" if "(x, name) \<in> ?N\<^sup>+" for x
    using that
  proof (induction rule: converse_trancl_induct)
    case (base x)
    then show ?case using c edge by (auto simp: climbed_def)
  next
    case (step x y)
    then have "e_Step ` set (Edges g y) \<subseteq> upper" using c by (simp add: climbed_def)
    then show ?case using step.hyps(1) edge by blast
  qed
  moreover have "(x, name) \<in> ?N\<^sup>+" if "x \<in> upper" for x
  proof -
    obtain r where "r \<in> e_Step ` set (Edges g name)" "(x, r) \<in> ?N\<^sup>*"
      using c \<open>x \<in> upper\<close> unfolding climbed_def by blast
    then show ?thesis using edge by (metis rtrancl_into_trancl1)
  qed
  ultimately have "upper = {x. (x, name) \<in> ?N\<^sup>+}" by blast
  then show ?thesis by (simp add: Upstream_def upper_def[symmetric] Let_def del: climb.simps)
qed

lemma checked_known:
  assumes "Check other w = Inr ()" "e \<in> set (edgesOf w a)"
  shows "e_Step e \<in> declared w"
  using checkEdges_known[OF Check_Inr(2)[OF assms(1)] assms(2)] step_of_None_iff[of w "e_Step e"] by auto

lemma checked_acyclic: "Check other w = Inr () \<Longrightarrow> acyclic (needed w)"
  by (rule checkCycles_acyclic[OF Check_Inr(3)])

lemma built_known:
  assumes "Build other schema w manifests = Inr g" "e \<in> set (Edges g a)"
  shows "e_Step e \<in> declared (g_wf g)"
  using checked_known[OF Build_Inr(5)[OF assms(1)]] assms(2) Build_Inr(1)[OF assms(1)]
  by (simp add: Edges_edgesOf)

lemma no_self_edge:
  assumes "Check other w = Inr ()" "e \<in> set (edgesOf w a)"
  shows "e_Step e \<noteq> a"
proof
  assume "e_Step e = a"
  with checked_known[OF assms] assms(2) have "(a, a) \<in> needed w"
    using step_of_None_iff[of w a] by (auto simp: needed_def)
  with checked_acyclic[OF assms(1)] show False by (auto simp: acyclic_def)
qed

section \<open>Properties\<close>

definition script_step :: "edge list \<Rightarrow> step" where
  "script_step needs = \<lparr>st_Image = ''alpine'', st_Call = None, st_Needs = needs, st_Inputs = [],
     st_Outputs = [''out''], st_Params = [], st_If = [], st_When = [], st_Merge = MergeWaitAll, st_Join = [],
     st_Strategy = \<lparr>sg_FanOut = FanOutNone, sg_Batch = 0, sg_MaxParallel = 0, sg_Matrix = [], sg_FailFast = False\<rparr>,
     st_Retry = \<lparr>rt_Max = 0, rt_On = [], rt_Backoff = \<lparr>bo_Base = 0, bo_Max = 0\<rparr>\<rparr>, st_Timeout = 0,
     st_ContinueOnError = False, st_Resources = \<lparr>rs_CPU = [], rs_Memory = [], rs_PIDs = 0\<rparr>,
     st_Network = NetworkNone, st_EgressAllow = [], st_RunsOn = [], st_Secrets = [], st_Cache = False,
     st_Idempotent = False, st_Files = [], st_Script = [''true''], st_BeforeScript = [], st_AfterScript = [],
     st_Shell = [], st_Extends = []\<rparr>"

definition from_step :: "string \<Rightarrow> edge" where
  "from_step s = \<lparr>e_Step = s, e_Port = ''out'', e_As = ''in''\<rparr>"

definition workflow_with :: "(string, step) gomap \<Rightarrow> workflow" where
  "workflow_with steps = \<lparr>wf_Name = ''w'', wf_Namespace = ''n'', wf_Inputs = [], wf_Outputs = [], wf_MCP = None,
     wf_Include = [], wf_Secrets = [], wf_Timeout = 0, wf_Steps = steps, wf_resolved = True\<rparr>"

definition chain_workflow :: workflow where
  "chain_workflow = workflow_with [(''c'', script_step [from_step ''a'', from_step ''b'']),
     (''b'', script_step [from_step ''a'']), (''a'', script_step [])]"

definition loop_workflow :: workflow where
  "loop_workflow = workflow_with [(''a'', script_step [from_step ''b'']), (''b'', script_step [from_step ''a''])]"

definition no_other_checks :: other_checks where
  "no_other_checks = \<lparr>checkTriggers = \<lambda>_. Inr (), checkExpressions = \<lambda>_. Inr (), checkFedPorts = \<lambda>_. Inr ()\<rparr>"

definition chain_graph :: graph where
  "chain_graph = \<lparr>g_wf = chain_workflow, g_order = [''a'', ''b'', ''c''],
     g_consumers = [(''a'', [(''out'', [''b'', ''c''])]), (''b'', [(''out'', [''c''])])], g_manifests = []\<rparr>"

lemma chain_builds: "Build no_other_checks (\<lambda>_ _ _. None) chain_workflow [] = Inr chain_graph"
  by code_simp

text \<open>
  C23: the cycle check accepts a workflow exactly when the steps it declares can be followed along their
  edges without coming back: the walk neither refuses a graph that has no cycle nor lets one through,
  and it never runs out of the depth it is given.
\<close>

theorem cycle_check_exact: "checkCycles w = Inr () \<longleftrightarrow> acyclic (needed w)"
proof
  assume "checkCycles w = Inr ()"
  then show "acyclic (needed w)" by (rule checkCycles_acyclic)
next
  assume a: "acyclic (needed w)"
  show "checkCycles w = Inr ()"
  proof (cases "checkCycles w")
    case (Inl err)
    from checkCycles_names[OF this] a show ?thesis
      using cycle_not_acyclic by (auto simp: names_cycle_def)
  qed simp
qed

text \<open>
  A workflow refused for a cycle is refused with the cycle: the refusal lists declared steps, each
  needing the next, and ends where it began.
\<close>

theorem cycle_refusal_names_a_cycle:
  assumes "checkCycles w = Inl err"
  shows "\<exists>name c. err = CycleInGraph name c \<and> is_cycle w c"
  using checkCycles_names[OF assms] by (simp add: names_cycle_def)

lemma loop_refused: "checkCycles loop_workflow = Inl (CycleInGraph ''b'' [''a'', ''b'', ''a''])"
  by code_simp

theorem cycle_refusal_names_a_cycle_witness:
  "checkCycles loop_workflow = Inl (CycleInGraph ''b'' [''a'', ''b'', ''a'']) \<and>
   is_cycle loop_workflow [''a'', ''b'', ''a'']"
  using cycle_refusal_names_a_cycle[OF loop_refused] loop_refused by simp

text \<open>
  A workflow the check accepts always has an order, so the refusal \<open>topological\<close> keeps for a cycle
  the check did not see is never given by \<open>Build\<close>.
\<close>

theorem checked_workflow_orders:
  assumes "Check other w = Inr ()"
  shows "\<exists>order. topological w = Inr order"
  by (rule topological_complete[OF checked_acyclic[OF assms] checked_known[OF assms]])

lemma chain_checked: "Check no_other_checks chain_workflow = Inr ()"
  by (rule Build_Inr(5)[OF chain_builds])

theorem checked_workflow_orders_witness: "\<exists>order. topological chain_workflow = Inr order"
  by (rule checked_workflow_orders[OF chain_checked])

text \<open>
  The order of a built graph names every step once and no edge points backwards through it: every
  step comes after each step it needs.
\<close>

theorem order_respects_edges:
  assumes "Build other schema w manifests = Inr g"
  shows "distinct (Order g) \<and> set (Order g) = set (Steps g) \<and>
     (\<forall>i < length (Order g). \<forall>e \<in> set (Edges g (Order g ! i)). \<exists>j < i. Order g ! j = e_Step e)"
proof -
  note b = Build_Inr[OF assms]
  have "\<exists>j < i. g_order g ! j = e_Step e"
    if "i < length (g_order g)" "e \<in> set (edgesOf w (g_order g ! i))" for i e
    using topological_Inr(3)[OF b(2) that no_self_edge[OF b(5) that(2)]] .
  then show ?thesis
    using topological_Inr(1,2)[OF b(2)] b(1) by (simp add: Order_def Steps_def Edges_edgesOf)
qed

theorem order_respects_edges_witness:
  "Order chain_graph = [''a'', ''b'', ''c''] \<and> set (Order chain_graph) = set (Steps chain_graph)"
  using order_respects_edges[OF chain_builds] by (simp add: Order_def chain_graph_def)

text \<open>
  What a replay from a step reuses is what the step reads, through its edges and theirs, and nothing
  else, in the order of the graph.
\<close>

theorem upstream_is_what_a_step_reads:
  assumes "Build other schema w manifests = Inr g"
  shows "Upstream g name = filter (\<lambda>s. (s, name) \<in> (needed w)\<^sup>+) (Order g)"
  using Upstream_eq[OF built_known[OF assms]] Build_Inr(1)[OF assms] by simp

theorem upstream_is_what_a_step_reads_witness:
  "Upstream chain_graph ''c'' = filter (\<lambda>s. (s, ''c'') \<in> (needed chain_workflow)\<^sup>+) (Order chain_graph)"
  by (rule upstream_is_what_a_step_reads[OF chain_builds])

end
