(* ===== verification/State.thy ===== *)
theory State
  imports Graph
begin

text \<open>
  Package \<open>graph\<close>, the run as a value: the state of \<open>state.go\<close>, and the two values that cross the seam
  of \<open>task.go\<close>, the plan handed out and the result taken back. A field that JSON leaves out when it is
  empty is the empty value here. A reason is a value naming the rule that decided it rather than its
  sentence; the empty string is \<open>NoReason\<close>.
\<close>

definition StateVersion :: int where "StateVersion = 1"

datatype reason =
    NoReason
  | ReasonSaid string
  | ReasonWhen "when_state list" string verdict
  | ReasonIf string
  | ReasonSuperseded string
  | ReasonDeadline
  | ReasonCancelled
  | ReasonLoss string int int
  | ReasonError graph_error

type_synonym ports = "(string, envelope) gomap"

record shard_state =
  sd_Shard :: shard
  sd_Matrix :: "(string, json) gomap"
  sd_Attempt :: int
  sd_Requeue :: int
  sd_Task :: task_state
  sd_ExitCode :: int
  sd_NoExitCode :: bool
  sd_Stopped :: bool
  sd_Ports :: ports
  sd_MemoisedFrom :: string
  sd_Called :: string
  sd_CacheKey :: string
  sd_DispatchedAt :: time
  sd_StartedAt :: time
  sd_FinishedAt :: time
  sd_NextAttemptAt :: time

definition new_shard :: "shard \<Rightarrow> (string, json) gomap \<Rightarrow> int \<Rightarrow> shard_state" where
  "new_shard sh matrix attempt =
     \<lparr>sd_Shard = sh, sd_Matrix = matrix, sd_Attempt = attempt, sd_Requeue = 0, sd_Task = TaskPending,
      sd_ExitCode = 0, sd_NoExitCode = False, sd_Stopped = False, sd_Ports = [], sd_MemoisedFrom = [],
      sd_Called = [], sd_CacheKey = [], sd_DispatchedAt = 0, sd_StartedAt = 0, sd_FinishedAt = 0,
      sd_NextAttemptAt = 0\<rparr>"

record step_state =
  ss_Verdict :: verdict
  ss_Shards :: "shard_state list"
  ss_Ports :: ports
  ss_Since :: time
  ss_Reason :: reason

definition zero_step :: step_state where
  "zero_step = \<lparr>ss_Verdict = VerdictPending, ss_Shards = [], ss_Ports = [], ss_Since = 0, ss_Reason = NoReason\<rparr>"

record run =
  r_ID :: string
  r_Workflow :: string
  r_Namespace :: string
  r_Commit :: string
  r_Trigger :: trigger_kind
  r_TriggeredBy :: string
  r_State :: run_state
  r_StartedAt :: time
  r_FinishedAt :: time

record state =
  s_Version :: int
  s_Run :: run
  s_Inputs :: "(string, json) gomap"
  s_Vars :: "(string, json) gomap"
  s_Trigger :: "(string, json) gomap"
  s_Event :: "(string, json) gomap"
  s_Steps :: "(string, step_state) gomap"
  s_Seq :: int

text \<open>A read of the map of steps: a missing step reads as the zero value.\<close>

definition at_step :: "state \<Rightarrow> string \<Rightarrow> step_state" where
  "at_step s name = (case map_of (s_Steps s) name of None \<Rightarrow> zero_step | Some ss \<Rightarrow> ss)"

definition put_step :: "string \<Rightarrow> step_state \<Rightarrow> state \<Rightarrow> state" where
  "put_step name ss s = s\<lparr>s_Steps := AList.update name ss (s_Steps s)\<rparr>"

section \<open>The seam\<close>

datatype stop_reason = StopSuperseded | StopSiblingFailed | StopDeadline | StopCancelled

definition stopReasons :: "(stop_reason \<times> string) list" where
  "stopReasons = [(StopSuperseded, ''superseded''), (StopSiblingFailed, ''sibling_failed''),
     (StopDeadline, ''deadline''), (StopCancelled, ''cancelled'')]"

interpretation stop_names: spelling stopReasons
proof unfold_locales
  show "map_of stopReasons v \<noteq> None" for v by (cases v) (simp_all add: stopReasons_def)
qed (simp_all add: stopReasons_def)

record stop =
  stop_Task :: string
  stop_Reason :: stop_reason

record task_result =
  res_Task :: string
  res_State :: task_state
  res_ExitCode :: int
  res_Requeue :: int
  res_Reason :: string
  res_NoExitCode :: bool
  res_Outputs :: ports
  res_MemoisedFrom :: string
  res_Called :: string
  res_DispatchedAt :: time
  res_StartedAt :: time
  res_FinishedAt :: time

record secret_mount =
  sm_Name :: string
  sm_Mount :: string

text \<open>
  A task without the fields the evaluator copies unread from the step it is of (resources, network,
  files, script keywords and the like): \<open>t_From\<close> is that step.
\<close>

record task =
  t_ID :: string
  t_Run :: string
  t_Workflow :: string
  t_Namespace :: string
  t_Commit :: string
  t_Step :: string
  t_Attempt :: int
  t_Shard :: shard
  t_From :: step
  t_CallInputs :: "(string, json) gomap"
  t_BeforeScript :: "string list"
  t_AfterScript :: "string list"
  t_Params :: "(string, json) gomap"
  t_Secrets :: "secret_mount list"
  t_Inputs :: ports
  t_Outputs :: "string list"
  t_Deadline :: time
  t_Cache :: bool
  t_CacheKey :: string

record plan =
  pl_Start :: "task list"
  pl_Stop :: "stop list"
  pl_Wake :: time

definition empty_plan :: plan where
  "empty_plan = \<lparr>pl_Start = [], pl_Stop = [], pl_Wake = 0\<rparr>"

section \<open>Reading and writing a step\<close>

lemma at_put_step [simp]: "at_step (put_step name ss s) n = (if n = name then ss else at_step s n)"
  by (simp add: at_step_def put_step_def)

lemma put_step_fields [simp]:
  "s_Version (put_step name ss s) = s_Version s" "s_Run (put_step name ss s) = s_Run s"
  "s_Inputs (put_step name ss s) = s_Inputs s" "s_Vars (put_step name ss s) = s_Vars s"
  "s_Trigger (put_step name ss s) = s_Trigger s" "s_Event (put_step name ss s) = s_Event s"
  "s_Seq (put_step name ss s) = s_Seq s"
  by (simp_all add: put_step_def)

lemma has_put_step [simp]:
  "has_key (s_Steps (put_step name ss s)) n \<longleftrightarrow> n = name \<or> has_key (s_Steps s) n"
  by (auto simp: put_step_def has_key_def)

lemma map_of_put_step [simp]:
  "map_of (s_Steps (put_step name ss s)) = (map_of (s_Steps s))(name \<mapsto> ss)"
  by (simp add: put_step_def)

lemma at_step_fields [simp]:
  "at_step (s\<lparr>s_Seq := q\<rparr>) n = at_step s n" "at_step (s\<lparr>s_Run := r\<rparr>) n = at_step s n"
  by (simp_all add: at_step_def)

lemma new_shard_fields [simp]:
  "sd_Shard (new_shard sh m a) = sh" "sd_Matrix (new_shard sh m a) = m" "sd_Attempt (new_shard sh m a) = a"
  "sd_Requeue (new_shard sh m a) = 0" "sd_Task (new_shard sh m a) = TaskPending"
  "sd_Ports (new_shard sh m a) = []" "sd_NextAttemptAt (new_shard sh m a) = 0"
  "sd_Stopped (new_shard sh m a) = False" "sd_ExitCode (new_shard sh m a) = 0"
  by (simp_all add: new_shard_def)

lemma zero_step_fields [simp]:
  "ss_Verdict zero_step = VerdictPending" "ss_Shards zero_step = []" "ss_Ports zero_step = []"
  "ss_Since zero_step = 0" "ss_Reason zero_step = NoReason"
  by (simp_all add: zero_step_def)

end
