(* ===== verification/Verdicts.thy ===== *)
theory Verdicts
  imports State
begin

text \<open>
  Package \<open>graph\<close>, \<open>verdict.go\<close>: what a finished task, the shards of a step and the steps of a run
  reduce to, what a step publishes when it ends, and what a workflow output reads.
\<close>

definition failureOf :: "task_state \<Rightarrow> int \<Rightarrow> failure option" where
  "failureOf task exit =
     (case task of
        TaskLost \<Rightarrow> Some FailureLost
      | TaskTimedOut \<Rightarrow> Some FailureTimeout
      | TaskSucceeded \<Rightarrow> band_Failure (Band exit)
      | TaskFailed \<Rightarrow> band_Failure (Band exit)
      | _ \<Rightarrow> None)"

definition shardVerdict :: "task_state \<Rightarrow> int \<Rightarrow> verdict" where
  "shardVerdict task exit =
     (case task of
        TaskPending \<Rightarrow> VerdictPending
      | TaskDispatched \<Rightarrow> VerdictRunning
      | TaskRunning \<Rightarrow> VerdictRunning
      | TaskPublishing \<Rightarrow> VerdictRunning
      | TaskSucceeded \<Rightarrow> if Band exit = BandSuccess then VerdictSucceeded else VerdictFailed
      | TaskCancelled \<Rightarrow> VerdictCancelled
      | _ \<Rightarrow> VerdictFailed)"

text \<open>The loop of \<open>stepVerdict\<close>: it returns at the first shard that is not finished.\<close>

fun step_verdict_from :: "verdict \<Rightarrow> shard_state list \<Rightarrow> verdict" where
  "step_verdict_from verdict [] = verdict"
| "step_verdict_from verdict (sh # shards) =
     (if sd_NextAttemptAt sh \<noteq> zero_time then VerdictRunning
      else case shardVerdict (sd_Task sh) (sd_ExitCode sh) of
             VerdictPending \<Rightarrow> VerdictRunning
           | VerdictRunning \<Rightarrow> VerdictRunning
           | VerdictFailed \<Rightarrow> step_verdict_from VerdictFailed shards
           | VerdictCancelled \<Rightarrow>
               step_verdict_from (if verdict \<noteq> VerdictFailed then VerdictCancelled else verdict) shards
           | _ \<Rightarrow> step_verdict_from verdict shards)"

definition stepVerdict :: "shard_state list \<Rightarrow> verdict" where
  "stepVerdict shards = step_verdict_from VerdictSucceeded shards"

definition runVerdict :: "state \<Rightarrow> (string \<Rightarrow> bool) option \<Rightarrow> run_state" where
  "runVerdict s tolerates =
     (let st = r_State (s_Run s); steps = entries (s_Steps s) in
      if run_Terminal st then st
      else if steps = [] then st
      else if \<exists>(name, ss) \<in> set steps. \<not> verdict_Terminal (ss_Verdict ss)
      then (if st = Waiting then Waiting
            else if (\<forall>(name, ss) \<in> set steps. ss_Verdict ss = VerdictPending) \<and> st = Queued then Queued
            else Running)
      else if \<exists>(name, ss) \<in> set steps. ss_Verdict ss = VerdictFailed \<and>
                (case tolerates of None \<Rightarrow> True | Some t \<Rightarrow> \<not> t name)
      then Failed
      else Succeeded)"

definition portsOf :: "step \<Rightarrow> shard_state list \<Rightarrow> string list" where
  "portsOf st shards =
     (if st_Call st = None \<or> st_Outputs st \<noteq> [] then st_Outputs st
      else sort (remdups (concat (map (\<lambda>sh. sorted_keys (sd_Ports sh)) shards))))"

definition by_index :: "shard_state list \<Rightarrow> shard_state list" where
  "by_index shards = sort_key (\<lambda>sh. sh_Index (sd_Shard sh)) shards"

definition highest_attempt :: "shard_state list \<Rightarrow> int" where
  "highest_attempt shards = foldl (\<lambda>a sh. max a (sd_Attempt sh)) 1 shards"

definition pieces_on :: "string \<Rightarrow> shard_state list \<Rightarrow> envelope list" where
  "pieces_on port shards = List.map_filter (\<lambda>sh. map_of (sd_Ports sh) port) shards"

definition publish_port ::
  "string \<Rightarrow> shard_state list \<Rightarrow> string \<Rightarrow> time \<Rightarrow> limits \<Rightarrow> string \<Rightarrow> (graph_error, envelope) result" where
  "publish_port name ordered run at l port =
     (let pieces = pieces_on port ordered in
      if pieces = [] then Inr (Empty run name port (highest_attempt ordered) at)
      else case Concat pieces l of Inl err \<Rightarrow> Inl (AtPort name port err) | Inr e \<Rightarrow> Inr e)"

definition publish ::
  "string \<Rightarrow> step \<Rightarrow> shard_state list \<Rightarrow> string \<Rightarrow> time \<Rightarrow> limits \<Rightarrow> (graph_error, ports) result" where
  "publish name st shards run at l =
     (let ordered = by_index shards in
      rfold (\<lambda>port out. rbind (publish_port name ordered run at l port) (\<lambda>e. Inr (AList.update port e out)))
        (portsOf st ordered) [])"

definition outputOf :: "state \<Rightarrow> string \<Rightarrow> string \<Rightarrow> (graph_error, envelope) result" where
  "outputOf s from port =
     (case map_of (s_Steps s) from of
        None \<Rightarrow> Inl (NoSuchStep from)
      | Some st \<Rightarrow>
          if \<not> verdict_Terminal (ss_Verdict st) then Inl (NotOver from (ss_Verdict st))
          else case map_of (ss_Ports st) port of None \<Rightarrow> Inl (NoSuchPort from port) | Some e \<Rightarrow> Inr e)"

section \<open>What a step reduces to\<close>

definition shard_done :: "shard_state \<Rightarrow> bool" where
  "shard_done sh \<longleftrightarrow> sd_NextAttemptAt sh = zero_time \<and> task_Terminal (sd_Task sh)"

abbreviation verdict_of :: "shard_state \<Rightarrow> verdict" where
  "verdict_of sh \<equiv> shardVerdict (sd_Task sh) (sd_ExitCode sh)"

lemma shardVerdict_terminal: "verdict_Terminal (shardVerdict t x) \<longleftrightarrow> task_Terminal t"
  by (cases t) (auto simp: shardVerdict_def)

lemma shardVerdict_cases:
  "shardVerdict t x \<noteq> VerdictSkipped"
  by (cases t) (auto simp: shardVerdict_def)

lemma step_verdict_from_spec:
  "step_verdict_from v shards =
     (if \<exists>sh \<in> set shards. \<not> shard_done sh then VerdictRunning
      else if v = VerdictFailed \<or> (\<exists>sh \<in> set shards. verdict_of sh = VerdictFailed) then VerdictFailed
      else if v = VerdictCancelled \<or> (\<exists>sh \<in> set shards. verdict_of sh = VerdictCancelled) then VerdictCancelled
      else v)"
proof (induction v shards rule: step_verdict_from.induct)
  case (2 v sh shards)
  show ?case
  proof (cases "shard_done sh")
    case False
    then show ?thesis
      using shardVerdict_terminal[of "sd_Task sh" "sd_ExitCode sh"]
      by (cases "verdict_of sh") (auto simp: shard_done_def)
  next
    case True
    then have t: "sd_NextAttemptAt sh = 0" "verdict_Terminal (verdict_of sh)"
      using shardVerdict_terminal[of "sd_Task sh" "sd_ExitCode sh"] by (auto simp: shard_done_def)
    consider "verdict_of sh = VerdictSucceeded" | "verdict_of sh = VerdictFailed" | "verdict_of sh = VerdictCancelled"
      using t(2) shardVerdict_cases by (cases "verdict_of sh") auto
    then show ?thesis
      using "2.IH" True t(1) by cases auto
  qed
qed simp

lemma stepVerdict_spec:
  "stepVerdict shards =
     (if \<exists>sh \<in> set shards. \<not> shard_done sh then VerdictRunning
      else if \<exists>sh \<in> set shards. verdict_of sh = VerdictFailed then VerdictFailed
      else if \<exists>sh \<in> set shards. verdict_of sh = VerdictCancelled then VerdictCancelled
      else VerdictSucceeded)"
  by (simp add: stepVerdict_def step_verdict_from_spec)

lemma stepVerdict_terminal_iff:
  "verdict_Terminal (stepVerdict shards) \<longleftrightarrow> (\<forall>sh \<in> set shards. shard_done sh)"
  by (auto simp: stepVerdict_spec)

lemma stepVerdict_not_pending [simp]: "stepVerdict shards \<noteq> VerdictPending" "stepVerdict shards \<noteq> VerdictSkipped"
  by (auto simp: stepVerdict_spec)

section \<open>What a run reduces to\<close>

lemma runVerdict_keeps_terminal: "run_Terminal (r_State (s_Run s)) \<Longrightarrow> runVerdict s t = r_State (s_Run s)"
  by (simp add: runVerdict_def)

lemma runVerdict_terminal:
  assumes "\<not> run_Terminal (r_State (s_Run s))" "run_Terminal (runVerdict s t)"
  shows "map_of (s_Steps s) n = Some ss \<Longrightarrow> verdict_Terminal (ss_Verdict ss)"
  using assms by (force simp: runVerdict_def Let_def entries_iff[symmetric] split: if_splits)

lemma runVerdict_never:
  assumes "\<not> run_Terminal (r_State (s_Run s))"
  shows "runVerdict s t \<noteq> Cancelled" "runVerdict s t \<noteq> TimedOut"
  using assms by (auto simp: runVerdict_def Let_def)

section \<open>What a step publishes\<close>

lemma publish_fold:
  "rfold (\<lambda>port out. rbind (f port) (\<lambda>e. Inr (AList.update port e out))) ps acc = Inr out \<longleftrightarrow>
     (\<exists>g. (\<forall>p \<in> set ps. f p = Inr (g p)) \<and>
          out = foldl (\<lambda>out p. AList.update p (g p) out) acc ps)"
proof (induction ps arbitrary: acc)
  case Nil
  then show ?case by auto
next
  case (Cons p ps)
  show ?case
  proof
    assume "rfold (\<lambda>port out. rbind (f port) (\<lambda>e. Inr (AList.update port e out))) (p # ps) acc = Inr out"
    then obtain e where e: "f p = Inr e"
      "rfold (\<lambda>port out. rbind (f port) (\<lambda>e. Inr (AList.update port e out))) ps (AList.update p e acc) = Inr out"
      by auto
    then obtain g where g: "\<forall>p \<in> set ps. f p = Inr (g p)"
      "out = foldl (\<lambda>out p. AList.update p (g p) out) (AList.update p e acc) ps"
      using Cons.IH by blast
    let ?h = "\<lambda>q. case f q of Inr e \<Rightarrow> e | Inl _ \<Rightarrow> g q"
    have "?h q = g q" if "q \<in> set ps" for q using g(1) that by auto
    then have "foldl (\<lambda>out p. AList.update p (?h p) out) acc' ps = foldl (\<lambda>out p. AList.update p (g p) out) acc' ps" for acc'
      by (intro foldl_cong) auto
    then show "\<exists>g. (\<forall>p \<in> set (p # ps). f p = Inr (g p)) \<and> out = foldl (\<lambda>out p. AList.update p (g p) out) acc (p # ps)"
      using e(1) g by (intro exI[of _ ?h]) auto
  next
    assume "\<exists>g. (\<forall>p \<in> set (p # ps). f p = Inr (g p)) \<and> out = foldl (\<lambda>out p. AList.update p (g p) out) acc (p # ps)"
    then show "rfold (\<lambda>port out. rbind (f port) (\<lambda>e. Inr (AList.update port e out))) (p # ps) acc = Inr out"
      using Cons.IH by auto
  qed
qed

lemma foldl_update_map_of:
  "map_of (foldl (\<lambda>out p. AList.update p (g p) out) acc ps) k =
     (if k \<in> set ps then Some (g k) else map_of acc k)"
  by (induction ps arbitrary: acc) auto

lemma publish_Inr:
  assumes "publish name st shards run at l = Inr out"
  shows "map_of out port = (if port \<in> set (portsOf st (by_index shards))
      then (case publish_port name (by_index shards) run at l port of Inr e \<Rightarrow> Some e | Inl _ \<Rightarrow> None) else None)"
    and "port \<in> set (portsOf st (by_index shards)) \<Longrightarrow> \<exists>e. publish_port name (by_index shards) run at l port = Inr e"
  using assms by (auto simp: publish_def publish_fold foldl_update_map_of Let_def)

lemma publish_no_shards:
  "publish name st [] run at l = Inr (foldl (\<lambda>out p. AList.update p (Empty run name p 1 at) out) [] (portsOf st []))"
  unfolding publish_def Let_def by_index_def publish_fold
  by (intro exI[of _ "\<lambda>p. Empty run name p 1 at"])
    (simp add: publish_port_def pieces_on_def highest_attempt_def map_filter_simps)

lemma set_by_index [simp]: "set (by_index shards) = set shards"
  by (simp add: by_index_def)

end
