(* ===== verification/Merging.thy ===== *)
theory Merging
  imports Verdicts
begin

text \<open>
  Package \<open>graph\<close>, \<open>jsonpath.go\<close> and \<open>merge.go\<close>: the path a key join reads, the four strategies that
  make one envelope of several edges, and the rule that says which steps a \<open>merge: first\<close> leaves with
  nobody waiting. A part is one edge arriving on a port with the envelope its step published.
\<close>

section \<open>The path of a key join\<close>

datatype path_step = Named string | Index int

definition quoted_by :: "char \<Rightarrow> string \<Rightarrow> bool" where
  "quoted_by q s = (length s \<ge> 2 \<and> hd s = q \<and> last s = q)"

function parse_steps :: "string \<Rightarrow> (path_error, path_step list) result" where
  "parse_steps s =
     (case s of
        [] \<Rightarrow> Inr []
      | c # rest \<Rightarrow>
          if c = CHR ''.'' then
            (let name = takeWhile (\<lambda>c. c \<noteq> CHR ''.'' \<and> c \<noteq> CHR ''['') rest in
             if name = [] then Inl PathNoMember
             else rbind (parse_steps (drop (length name) rest)) (\<lambda>ps. Inr (Named name # ps)))
          else if c = CHR ''['' then
            (case cut_at CHR '']'' rest of
               None \<Rightarrow> Inl PathOpenBracket
             | Some (within, after) \<Rightarrow>
                 (let inner = trim_space within in
                  if quoted_by CHR 0x22 inner \<or> quoted_by CHR 0x27 inner
                  then rbind (parse_steps after) (\<lambda>ps. Inr (Named (butlast (tl inner)) # ps))
                  else case atoi inner of
                         None \<Rightarrow> Inl (PathBadIndex inner)
                       | Some n \<Rightarrow>
                           if n < 0 then Inl (PathBadIndex inner)
                           else rbind (parse_steps after) (\<lambda>ps. Inr (Index n # ps))))
          else Inl (PathBadStep s))"
  by pat_completeness auto
termination
proof (relation "measure length", goal_cases)
  case (3 s c rest wa within after)
  then show ?case by (auto simp: cut_at_Some)
next
  case (4 s c rest wa within after)
  then show ?case by (auto simp: cut_at_Some)
qed auto

declare parse_steps.simps [simp del]

definition parsePath :: "string \<Rightarrow> (path_error, path_step list) result" where
  "parsePath path =
     (let rest = trim_space path in
      if rest = [] then Inl PathEmpty
      else if hd rest \<noteq> CHR ''$'' then Inl PathNoRoot
      else rbind (parse_steps (tl rest)) (\<lambda>steps.
           case steps of
             [] \<Rightarrow> Inl PathRootOnly
           | Named name # _ \<Rightarrow>
               if name = ''id'' \<or> name = ''data'' \<or> name = ''files'' then Inr steps else Inl PathBadHead
           | Index _ # _ \<Rightarrow> Inl PathBadHead))"

definition filesValue :: "agk_file list \<Rightarrow> json" where
  "filesValue files = JArr (map (\<lambda>f. JObj
     [(''name'', JStr (f_Name f)), (''uri'', JStr (URI_String (f_URI f))), (''media_type'', JStr (f_MediaType f)),
      (''size'', JNum (itoa (f_Size f))), (''sha256'', JStr (f_SHA256 f))]) files)"

fun descend :: "path_step list \<Rightarrow> json \<Rightarrow> json option" where
  "descend [] v = Some v"
| "descend (Named n # ps) v =
     (case v of JObj m \<Rightarrow> (case map_of m n of None \<Rightarrow> None | Some w \<Rightarrow> descend ps w) | _ \<Rightarrow> None)"
| "descend (Index i # ps) v =
     (case v of
        JArr vs \<Rightarrow> if i \<ge> int (length vs) then None else descend ps (vs ! nat i)
      | _ \<Rightarrow> None)"

definition selector_value :: "path_step list \<Rightarrow> item \<Rightarrow> json option" where
  "selector_value sel it =
     (case sel of
        Named n # ps \<Rightarrow>
          descend ps (if n = ''id'' then JStr (it_ID it)
                      else if n = ''data'' then JObj (it_Data it) else filesValue (it_Files it))
      | _ \<Rightarrow> None)"

definition selector_key :: "path_step list \<Rightarrow> item \<Rightarrow> string option" where
  "selector_key sel it =
     (case selector_value sel it of
        None \<Rightarrow> None
      | Some v \<Rightarrow> if v = JNull then None else Some (encode True v))"

section \<open>The four strategies\<close>

record part =
  pt_Edge :: edge
  pt_Envelope :: envelope

abbreviation pt_Items :: "part \<Rightarrow> item list" where
  "pt_Items p \<equiv> en_Items (pt_Envelope p)"

definition restated :: "meta \<Rightarrow> envelope \<Rightarrow> envelope" where
  "restated base e = e\<lparr>en_Meta := (en_Meta e)\<lparr>m_RunID := m_RunID base, m_Step := m_Step base, m_Port := m_Port base\<rparr>\<rparr>"

definition waitAllParts :: "part list \<Rightarrow> limits \<Rightarrow> (envelope_error, envelope) result" where
  "waitAllParts parts l =
     Concat (map (\<lambda>p. restated (en_Meta (pt_Envelope (hd parts))) (pt_Envelope p)) parts) l"

definition fold_files :: "agk_file list \<Rightarrow> agk_file list \<Rightarrow> agk_file list" where
  "fold_files kept new =
     foldl (\<lambda>files f. if \<exists>held \<in> set files. f_Name held = f_Name f \<and> f_SHA256 held = f_SHA256 f
                      then files else files @ [f]) kept new"

definition foldInto :: "item \<Rightarrow> item \<Rightarrow> item" where
  "foldInto into other =
     \<lparr>it_ID = it_ID into,
      it_Data = foldl (\<lambda>d (k, v). AList.update k v d) (foldl (\<lambda>d (k, v). AList.update k v d) [] (entries (it_Data other)))
        (entries (it_Data into)),
      it_Files = fold_files (it_Files into) (it_Files other)\<rparr>"

definition rebuild_step :: "meta \<Rightarrow> part \<Rightarrow> meta" where
  "rebuild_step m p =
     (let q = en_Meta (pt_Envelope p) in
      m\<lparr>m_Attempt := (if m_Attempt q > m_Attempt m then m_Attempt q else m_Attempt m),
        m_ProducedAt := (if m_ProducedAt q > m_ProducedAt m then m_ProducedAt q else m_ProducedAt m)\<rparr>)"

definition rebuild :: "part list \<Rightarrow> item list \<Rightarrow> limits \<Rightarrow> (envelope_error, envelope) result" where
  "rebuild parts items l =
     (let e = \<lparr>en_Meta = (foldl rebuild_step (en_Meta (pt_Envelope (hd parts))) (tl parts))\<lparr>m_Count := int (length items)\<rparr>,
               en_Items = items\<rparr> in
      case Validate e l of Some err \<Rightarrow> Inl err | None \<Rightarrow> Inr e)"

definition zipParts :: "string \<Rightarrow> string \<Rightarrow> part list \<Rightarrow> limits \<Rightarrow> (graph_error, envelope) result" where
  "zipParts step port parts l =
     (let n = length (pt_Items (hd parts)) in
      if \<exists>p \<in> set (tl parts). length (pt_Items p) \<noteq> n then Inl (Refused RuleZipLength step port)
      else case rebuild parts
             (map (\<lambda>i. foldl (\<lambda>it p. foldInto it (pt_Items p ! i)) (pt_Items (hd parts) ! i) (tl parts)) [0..<n]) l of
             Inl err \<Rightarrow> Inl (EnvelopeRefused err) | Inr e \<Rightarrow> Inr e)"

text \<open>
  The right-hand sides of a join: \<open>index_of\<close> is the index of one side under one key, in order, and
  \<open>taken\<close> lists the side and the place of every item a match has used.
\<close>

definition index_of :: "path_step list \<Rightarrow> item list \<Rightarrow> string \<Rightarrow> nat list" where
  "index_of sel items k = filter (\<lambda>j. selector_key sel (items ! j) = Some k) [0..<length items]"

definition free_match :: "path_step list \<Rightarrow> (nat \<times> nat) list \<Rightarrow> string \<Rightarrow> nat \<times> part \<Rightarrow> nat option" where
  "free_match sel taken k = (\<lambda>(i, p). find (\<lambda>j. (i, j) \<notin> set taken) (index_of sel (pt_Items p) k))"

fun found_all :: "('a \<Rightarrow> 'b option) \<Rightarrow> 'a list \<Rightarrow> 'b list option" where
  "found_all f [] = Some []"
| "found_all f (x # xs) =
     (case f x of
        None \<Rightarrow> None
      | Some y \<Rightarrow> (case found_all f xs of None \<Rightarrow> None | Some ys \<Rightarrow> Some (y # ys)))"

record join_acc =
  ja_Items :: "item list"
  ja_Unmatched :: "item list"
  ja_Taken :: "(nat \<times> nat) list"

definition join_item :: "path_step list \<Rightarrow> (nat \<times> part) list \<Rightarrow> join_acc \<Rightarrow> item \<Rightarrow> join_acc" where
  "join_item sel rights acc it =
     (case selector_key sel it of
        None \<Rightarrow> acc\<lparr>ja_Unmatched := ja_Unmatched acc @ [it]\<rparr>
      | Some k \<Rightarrow>
          (case found_all (free_match sel (ja_Taken acc) k) rights of
             None \<Rightarrow> acc\<lparr>ja_Unmatched := ja_Unmatched acc @ [it]\<rparr>
           | Some found \<Rightarrow>
               acc\<lparr>ja_Items := ja_Items acc @
                     [foldl (\<lambda>m (j, p). foldInto m (pt_Items p ! j)) it (zip found (map snd rights))],
                   ja_Taken := zip (map fst rights) found @ ja_Taken acc\<rparr>))"

definition left_over :: "(nat \<times> nat) list \<Rightarrow> nat \<times> part \<Rightarrow> item list" where
  "left_over taken = (\<lambda>(i, p). map (\<lambda>j. pt_Items p ! j) (filter (\<lambda>j. (i, j) \<notin> set taken) [0..<length (pt_Items p)]))"

definition rights_of :: "part list \<Rightarrow> (nat \<times> part) list" where
  "rights_of parts = zip [0..<length (tl parts)] (tl parts)"

definition join_loop :: "path_step list \<Rightarrow> part list \<Rightarrow> join_acc" where
  "join_loop sel parts =
     foldl (join_item sel (rights_of parts)) \<lparr>ja_Items = [], ja_Unmatched = [], ja_Taken = []\<rparr> (pt_Items (hd parts))"

definition joinParts ::
  "string \<Rightarrow> string \<Rightarrow> string \<Rightarrow> part list \<Rightarrow> limits \<Rightarrow> (graph_error, envelope \<times> item list) result" where
  "joinParts step port on parts l =
     (case parsePath on of
        Inl err \<Rightarrow> Inl (JoinPath step port err)
      | Inr sel \<Rightarrow>
          (let acc = join_loop sel parts;
               unmatched = ja_Unmatched acc @ concat (map (left_over (ja_Taken acc)) (rights_of parts)) in
           case rebuild parts (ja_Items acc) l of
             Inl err \<Rightarrow> Inl (EnvelopeRefused err)
           | Inr e \<Rightarrow> Inr (e, unmatched)))"

definition firstPart :: "part list \<Rightarrow> part" where
  "firstPart parts =
     foldl (\<lambda>first p. if m_ProducedAt (en_Meta (pt_Envelope p)) < m_ProducedAt (en_Meta (pt_Envelope first))
                      then p else first) (hd parts) (tl parts)"

definition mergePort ::
  "string \<Rightarrow> string \<Rightarrow> step \<Rightarrow> part list \<Rightarrow> limits \<Rightarrow> (graph_error, envelope \<times> item list) result" where
  "mergePort step port st parts l =
     (case parts of
        [] \<Rightarrow> Inl (NothingToMerge step port)
      | [p] \<Rightarrow> Inr (pt_Envelope p, [])
      | _ \<Rightarrow>
          (case st_Merge st of
             MergeZip \<Rightarrow> rbind (zipParts step port parts l) (\<lambda>e. Inr (e, []))
           | MergeJoin \<Rightarrow> joinParts step port (st_Join st) parts l
           | MergeFirst \<Rightarrow> Inr (pt_Envelope (firstPart parts), [])
           | MergeWaitAll \<Rightarrow>
               (case waitAllParts parts l of Inl err \<Rightarrow> Inl (EnvelopeRefused err) | Inr e \<Rightarrow> Inr (e, []))))"

definition unmatchedEnvelope ::
  "string \<Rightarrow> step \<Rightarrow> item list \<Rightarrow> string \<Rightarrow> time \<Rightarrow> limits \<Rightarrow> (graph_error, envelope option) result" where
  "unmatchedEnvelope name st items run at l =
     (if unmatchedPort \<notin> set (st_Outputs st) then Inr None
      else let e = \<lparr>en_Meta = \<lparr>m_RunID = run, m_Step = name, m_Port = unmatchedPort, m_Attempt = 1,
                      m_Count = int (length items), m_ProducedAt = at\<rparr>, en_Items = items\<rparr> in
           case Validate e l of Some err \<Rightarrow> Inl (AtPort name unmatchedPort err) | None \<Rightarrow> Inr (Some e))"

section \<open>What a merge: first leaves behind\<close>

text \<open>
  The methods of the \<open>topology\<close> interface the rule reads are its first arguments: the ports of a step
  anything takes, the steps that take one, and what the workflow itself takes.
\<close>

definition feedsWorkflowOutput :: "(string, workflow_output) gomap \<Rightarrow> string \<Rightarrow> string \<Rightarrow> bool" where
  "feedsWorkflowOutput outputs step port =
     list_ex (\<lambda>(_, out). o_Step out = step \<and> o_Port out = port) (entries outputs)"

definition ended :: "(string, step_state) gomap \<Rightarrow> string \<Rightarrow> bool" where
  "ended steps name =
     (case map_of steps name of None \<Rightarrow> False | Some ss \<Rightarrow> verdict_Terminal (ss_Verdict ss))"

definition stillNeeded ::
  "(string \<Rightarrow> string list) \<Rightarrow> (string \<Rightarrow> string \<Rightarrow> string list) \<Rightarrow> (string, workflow_output) gomap \<Rightarrow>
   string \<Rightarrow> string \<Rightarrow> string list \<Rightarrow> (string, step_state) gomap \<Rightarrow> bool" where
  "stillNeeded taken_ports consumers outputs name consumer dropped steps =
     list_ex (\<lambda>port.
        feedsWorkflowOutput outputs name port \<or>
        list_ex (\<lambda>c. \<not> (c = consumer \<and> port \<in> set dropped) \<and> \<not> ended steps c) (consumers name port))
       (taken_ports name)"

definition dropped_ports :: "edge list \<Rightarrow> string \<Rightarrow> string list" where
  "dropped_ports abandoned name = map e_Port (filter (\<lambda>e. e_Step e = name) abandoned)"

definition superseded ::
  "(string \<Rightarrow> step option) \<Rightarrow> (string \<Rightarrow> string list) \<Rightarrow> (string \<Rightarrow> string \<Rightarrow> string list) \<Rightarrow>
   (string, workflow_output) gomap \<Rightarrow> string \<Rightarrow> edge list \<Rightarrow> (string, step_state) gomap \<Rightarrow> string list" where
  "superseded stepOf taken_ports consumers outputs consumer abandoned steps =
     filter (\<lambda>name. stepOf name \<noteq> None \<and> \<not> ended steps name \<and>
               \<not> stillNeeded taken_ports consumers outputs name consumer (dropped_ports abandoned name) steps)
       (foldl (\<lambda>order e. if e_Step e \<in> set order then order else order @ [e_Step e]) [] abandoned)"

section \<open>A join partitions what arrives\<close>

lemma found_all_Some: "found_all f xs = Some ys \<longleftrightarrow> list_all2 (\<lambda>x y. f x = Some y) xs ys"
proof (induction xs arbitrary: ys)
  case (Cons x xs)
  have "found_all f (x # xs) = Some ys \<longleftrightarrow> (\<exists>z zs. f x = Some z \<and> found_all f xs = Some zs \<and> ys = z # zs)"
    by (auto split: option.splits)
  also have "\<dots> \<longleftrightarrow> list_all2 (\<lambda>x y. f x = Some y) (x # xs) ys"
    by (auto simp: Cons.IH list_all2_Cons1)
  finally show ?case .
qed auto

lemma mset_filter_remove:
  "distinct xs \<Longrightarrow> j \<in> set xs \<Longrightarrow> P j \<Longrightarrow>
   mset (map f (filter P xs)) = add_mset (f j) (mset (map f (filter (\<lambda>x. P x \<and> x \<noteq> j) xs)))"
proof (induction xs)
  case (Cons x xs)
  show ?case
  proof (cases "x = j")
    case True
    then have "filter (\<lambda>x. P x \<and> x \<noteq> j) xs = filter P xs"
      using Cons.prems by (intro filter_cong) auto
    with True Cons.prems show ?thesis by simp
  next
    case False
    with Cons show ?thesis by simp
  qed
qed simp

lemma left_over_take:
  assumes "j < length (pt_Items p)" "(i, j) \<notin> set taken"
    and "\<And>j'. (i, j') \<in> set taken' \<longleftrightarrow> (i, j') \<in> set taken \<or> j' = j"
  shows "mset (left_over taken (i, p)) = add_mset (pt_Items p ! j) (mset (left_over taken' (i, p)))"
proof -
  have "filter (\<lambda>j'. (i, j') \<notin> set taken') [0..<length (pt_Items p)] =
      filter (\<lambda>j'. (i, j') \<notin> set taken \<and> j' \<noteq> j) [0..<length (pt_Items p)]"
    using assms(3) by (intro filter_cong) auto
  then show ?thesis
    using mset_filter_remove[of "[0..<length (pt_Items p)]" j "\<lambda>j'. (i, j') \<notin> set taken" "(!) (pt_Items p)"] assms(1,2)
    by (simp add: left_over_def)
qed

lemma free_match_Some:
  assumes "free_match sel taken k (i, p) = Some j"
  shows "j < length (pt_Items p)" "(i, j) \<notin> set taken" "selector_key sel (pt_Items p ! j) = Some k"
proof -
  from assms have "find (\<lambda>j. (i, j) \<notin> set taken) (index_of sel (pt_Items p) k) = Some j"
    by (simp add: free_match_def)
  then have "j \<in> set (index_of sel (pt_Items p) k)" "(i, j) \<notin> set taken"
    by (metis find_Some_iff nth_mem)+
  then show "j < length (pt_Items p)" "(i, j) \<notin> set taken" "selector_key sel (pt_Items p ! j) = Some k"
    by (auto simp: index_of_def)
qed

lemma left_overs_take:
  assumes "length rights = length found"
    and "\<And>i p j. ((i, p), j) \<in> set (zip rights found) \<Longrightarrow> j < length (pt_Items p) \<and> (i, j) \<notin> set taken \<and>
      (\<forall>j'. (i, j') \<in> set taken' \<longleftrightarrow> (i, j') \<in> set taken \<or> j' = j)"
  shows "mset (concat (map (left_over taken) rights)) =
    mset (concat (map (left_over taken') rights)) + mset (map2 (\<lambda>(i, p) j. pt_Items p ! j) rights found)"
  using assms
proof (induction rights found rule: list_induct2)
  case (Cons r rs j js)
  obtain i p where r: "r = (i, p)" by (cases r)
  have "mset (left_over taken r) = add_mset (pt_Items p ! j) (mset (left_over taken' r))"
    using Cons.prems[of i p j] r by (simp add: left_over_take)
  moreover have "mset (concat (map (left_over taken) rs)) =
      mset (concat (map (left_over taken') rs)) + mset (map2 (\<lambda>(i, p) j. pt_Items p ! j) rs js)"
    using Cons.prems by (intro Cons.IH) auto
  ultimately show ?case by (simp add: r)
qed simp

lemma zip_fst_unique:
  assumes "distinct (map fst rights)" "length rights = length found" "((i, p), j) \<in> set (zip rights found)"
  shows "(i, j') \<in> set (zip (map fst rights) found) \<longleftrightarrow> j' = j"
proof -
  obtain n where n: "n < length rights" "rights ! n = (i, p)" "found ! n = j"
    using assms(2,3) by (auto simp: set_zip)
  show ?thesis
  proof
    assume "(i, j') \<in> set (zip (map fst rights) found)"
    then obtain m where m: "m < length rights" "fst (rights ! m) = i" "found ! m = j'"
      using assms(2) by (auto simp: set_zip)
    then have "m = n" using n assms(1) by (metis distinct_conv_nth fst_conv length_map nth_map)
    with m n show "j' = j" by simp
  next
    assume "j' = j"
    with n assms(2) show "(i, j') \<in> set (zip (map fst rights) found)"
      by (auto simp: set_zip intro!: exI[of _ n])
  qed
qed

text \<open>
  A group is an item of the first edge and, for each other edge, the item it matched. \<open>join_inv\<close> is what
  the loop of a join keeps about the left items it has read.
\<close>

type_synonym group = "item \<times> item list"

definition merged :: "group \<Rightarrow> item" where
  "merged grp = foldl foldInto (fst grp) (snd grp)"

definition same_key :: "path_step list \<Rightarrow> group \<Rightarrow> bool" where
  "same_key sel grp \<longleftrightarrow> (\<exists>k. \<forall>it \<in> set (fst grp # snd grp). selector_key sel it = Some k)"

definition join_inv :: "path_step list \<Rightarrow> (nat \<times> part) list \<Rightarrow> item list \<Rightarrow> join_acc \<Rightarrow> group list \<Rightarrow> bool" where
  "join_inv sel rights seen acc groups \<longleftrightarrow>
     ja_Items acc = map merged groups \<and>
     (\<forall>grp \<in> set groups. length (snd grp) = length rights \<and> same_key sel grp) \<and>
     mset seen = mset (map fst groups) + mset (ja_Unmatched acc) \<and>
     mset (concat (map (\<lambda>(i, p). pt_Items p) rights)) =
       mset (concat (map (left_over (ja_Taken acc)) rights)) + mset (concat (map snd groups))"

lemma foldl_zip_foldInto:
  "length rights = length found \<Longrightarrow>
   foldl (\<lambda>m (j, p). foldInto m (pt_Items p ! j)) it (zip found (map snd rights)) =
   foldl foldInto it (map2 (\<lambda>(i, p) j. pt_Items p ! j) rights found)"
  by (induction rights found arbitrary: it rule: list_induct2) auto

lemma join_inv_item:
  assumes inv: "join_inv sel rights seen acc groups" and d: "distinct (map fst rights)"
  shows "\<exists>groups'. join_inv sel rights (seen @ [it]) (join_item sel rights acc it) groups'"
proof (cases "selector_key sel it")
  case None
  with inv show ?thesis by (intro exI[of _ groups]) (simp add: join_item_def join_inv_def)
next
  case (Some k)
  show ?thesis
  proof (cases "found_all (free_match sel (ja_Taken acc) k) rights")
    case None
    with Some inv show ?thesis by (intro exI[of _ groups]) (simp add: join_item_def join_inv_def)
  next
    case found: (Some found)
    let ?rs = "map2 (\<lambda>(i, p) j. pt_Items p ! j) rights found"
    have all: "list_all2 (\<lambda>x y. free_match sel (ja_Taken acc) k x = Some y) rights found"
      using found by (simp add: found_all_Some)
    then have len: "length rights = length found" by (rule list_all2_lengthD)
    have match: "free_match sel (ja_Taken acc) k (i, p) = Some j" if "((i, p), j) \<in> set (zip rights found)" for i p j
      using all that by (auto simp: list_all2_iff)
    have keys: "selector_key sel r = Some k" if "r \<in> set ?rs" for r
      using that free_match_Some(3)[OF match] by fastforce
    have left: "mset (concat (map (left_over (ja_Taken acc)) rights)) =
        mset (concat (map (left_over (zip (map fst rights) found @ ja_Taken acc)) rights)) + mset ?rs"
      using len free_match_Some(1,2)[OF match] zip_fst_unique[OF d len]
      by (intro left_overs_take) (auto simp: disj_commute)
    have item: "foldl (\<lambda>m (j, p). foldInto m (pt_Items p ! j)) it (zip found (map snd rights)) = merged (it, ?rs)"
      unfolding merged_def fst_conv snd_conv by (rule foldl_zip_foldInto[OF len])
    have grp: "same_key sel (it, ?rs)" "length ?rs = length rights"
      using Some keys len by (auto simp: same_key_def)
    show ?thesis
      using inv Some found left item grp
      by (intro exI[of _ "groups @ [(it, ?rs)]"]) (auto simp: join_item_def join_inv_def)
  qed
qed

lemma join_inv_fold:
  assumes "join_inv sel rights seen acc groups" "distinct (map fst rights)"
  shows "\<exists>groups'. join_inv sel rights (seen @ its) (foldl (join_item sel rights) acc its) groups'"
  using assms
proof (induction its arbitrary: seen acc groups)
  case (Cons it its)
  obtain groups1 where "join_inv sel rights (seen @ [it]) (join_item sel rights acc it) groups1"
    using join_inv_item[OF Cons.prems] by blast
  from Cons.IH[OF this Cons.prems(2)] show ?case by simp
qed auto

lemma left_over_none: "left_over [] (i, p) = pt_Items p"
  by (simp add: left_over_def map_nth)

lemma join_loop_inv: "\<exists>groups. join_inv sel (rights_of parts) (pt_Items (hd parts)) (join_loop sel parts) groups"
proof -
  have "map (left_over []) (rights_of parts) = map (\<lambda>(i, p). pt_Items p) (rights_of parts)"
    by (rule map_cong) (auto simp: left_over_none)
  then have eq: "concat (map (left_over []) (rights_of parts)) = concat (map (\<lambda>(i, p). pt_Items p) (rights_of parts))"
    by (rule arg_cong)
  have "join_inv sel (rights_of parts) [] \<lparr>ja_Items = [], ja_Unmatched = [], ja_Taken = []\<rparr> []"
    unfolding join_inv_def by (simp add: eq)
  from join_inv_fold[OF this, of "pt_Items (hd parts)"] show ?thesis
    by (simp add: join_loop_def rights_of_def)
qed

lemma rights_items: "map (\<lambda>(i, p). pt_Items p) (rights_of parts) = map pt_Items (tl parts)"
  unfolding rights_of_def by (rule nth_equalityI) simp_all

lemma joinParts_Inr:
  assumes "joinParts step port on parts l = Inr (e, unmatched)" "parts \<noteq> []"
  shows "\<exists>sel groups. parsePath on = Inr sel \<and> en_Items e = map merged groups \<and>
    (\<forall>grp \<in> set groups. Suc (length (snd grp)) = length parts \<and> same_key sel grp) \<and>
    mset (concat (map pt_Items parts)) = mset (concat (map (\<lambda>grp. fst grp # snd grp) groups)) + mset unmatched"
proof -
  obtain sel where sel: "parsePath on = Inr sel"
    and unm: "unmatched = ja_Unmatched (join_loop sel parts) @
        concat (map (left_over (ja_Taken (join_loop sel parts))) (rights_of parts))"
    and e: "rebuild parts (ja_Items (join_loop sel parts)) l = Inr e"
    using assms(1) by (auto simp: joinParts_def Let_def split: sum.splits)
  obtain groups where inv: "join_inv sel (rights_of parts) (pt_Items (hd parts)) (join_loop sel parts) groups"
    using join_loop_inv by blast
  have items: "en_Items e = map merged groups"
    using e inv by (auto simp: rebuild_def join_inv_def Let_def split: option.splits)
  have "length (rights_of parts) = length parts - 1" by (simp add: rights_of_def)
  then have grps: "\<forall>grp \<in> set groups. Suc (length (snd grp)) = length parts \<and> same_key sel grp"
    using inv assms(2) by (cases parts) (auto simp: join_inv_def)
  have "mset (concat (map pt_Items parts)) = mset (pt_Items (hd parts)) + mset (concat (map pt_Items (tl parts)))"
    using assms(2) by (cases parts) auto
  also have "\<dots> = (mset (map fst groups) + mset (concat (map snd groups))) + mset unmatched"
    using inv unm by (simp add: join_inv_def rights_items)
  also have "mset (map fst groups) + mset (concat (map snd groups)) = mset (concat (map (\<lambda>grp. fst grp # snd grp) groups))"
    by (induction groups) auto
  finally show ?thesis using sel items grps by blast
qed

section \<open>What a merge answers\<close>

lemma foldInto_data:
  "map_of (it_Data (foldInto into other)) = map_of (it_Data other) ++ map_of (it_Data into)"
proof -
  have fold: "map_of (foldl (\<lambda>d (k, v). AList.update k v d) acc es) = map_of acc ++ map_of (rev es)"
    for acc es :: "(string \<times> json) list"
    by (induction es arbitrary: acc) (auto simp: map_add_assoc map_of_append)
  have ent: "map_of (rev (entries m)) = map_of m" for m :: "(string, json) gomap"
  proof -
    have "distinct (map fst (entries m))" by (simp add: entries_def comp_def)
    then have "map_of (rev (entries m)) = map_of (entries m)"
      by (intro map_of_eqI) (auto simp: rev_map[symmetric])
    also have "\<dots> = map_of m"
    proof
      fix k
      show "map_of (entries m) k = map_of m k"
        using \<open>distinct (map fst (entries m))\<close> entries_iff[of k _ m]
        by (metis map_of_eq_Some_iff not_None_eq)
    qed
    finally show ?thesis .
  qed
  show ?thesis by (simp add: foldInto_def fold ent)
qed

lemma foldl_foldInto_ID [simp]: "it_ID (foldl foldInto it rs) = it_ID it"
  by (induction rs arbitrary: it) (auto simp: foldInto_def)

lemma merged_ID [simp]: "it_ID (merged grp) = it_ID (fst grp)"
  by (simp add: merged_def)

lemma waitAllParts_items:
  assumes "waitAllParts parts l = Inr e"
  shows "en_Items e = concat (map pt_Items parts)"
  using Concat_Inr(2)[OF assms[unfolded waitAllParts_def]] by (simp add: comp_def restated_def)

lemma rebuild_Inr: "rebuild parts items l = Inr e \<Longrightarrow> en_Items e = items \<and> Validate e l = None"
  by (auto simp: rebuild_def Let_def split: option.splits)

lemma zipParts_Inr:
  assumes "zipParts step port parts l = Inr e" "p \<in> set parts"
  shows "length (pt_Items p) = length (en_Items e)"
    and "i < length (en_Items e) \<Longrightarrow> en_Items e ! i = merged (pt_Items (hd parts) ! i, map (\<lambda>q. pt_Items q ! i) (tl parts))"
proof -
  have same: "\<forall>q \<in> set (tl parts). length (pt_Items q) = length (pt_Items (hd parts))"
    and items: "en_Items e = map (\<lambda>i. foldl (\<lambda>it p. foldInto it (pt_Items p ! i)) (pt_Items (hd parts) ! i) (tl parts))
        [0..<length (pt_Items (hd parts))]"
    using assms(1) by (auto simp: zipParts_def Let_def dest!: rebuild_Inr split: if_splits sum.splits)
  show "length (pt_Items p) = length (en_Items e)"
    using same items assms(2) by (cases parts) auto
  have "foldl (\<lambda>it p. foldInto it (pt_Items p ! i)) x qs = foldl foldInto x (map (\<lambda>q. pt_Items q ! i) qs)" for x qs i
    by (induction qs arbitrary: x) auto
  then show "en_Items e ! i = merged (pt_Items (hd parts) ! i, map (\<lambda>q. pt_Items q ! i) (tl parts))"
    if "i < length (en_Items e)"
    using items that by (simp add: merged_def)
qed

section \<open>The topology interface\<close>

text \<open>
  \<open>topology\<close> is the interface of \<open>merge.go\<close>: what it promises the abandonment rule is that the ports it
  lists for a step are all the ports anything takes from it, a step or the workflow itself.
\<close>

lemma get_mem: "x \<in> set (get m k) \<Longrightarrow> k \<in> fst ` set m"
  using map_of_SomeD[of m k] by (cases "map_of m k") (force simp: get_def)+

locale topology =
  fixes stepOf :: "string \<Rightarrow> step option" and taken_ports :: "string \<Rightarrow> string list"
    and consumers :: "string \<Rightarrow> string \<Rightarrow> string list" and outputs :: "(string, workflow_output) gomap"
  assumes consumed: "stepOf n \<noteq> None \<Longrightarrow> c \<in> set (consumers n p) \<Longrightarrow> p \<in> set (taken_ports n)"
    and put_out: "stepOf n \<noteq> None \<Longrightarrow> map_of outputs name = Some src \<Longrightarrow> o_Step src = n \<Longrightarrow> o_Port src \<in> set (taken_ports n)"
begin

lemma needed_iff:
  assumes "stepOf n \<noteq> None"
  shows "stillNeeded taken_ports consumers outputs n consumer dropped steps \<longleftrightarrow>
     (\<exists>name src. map_of outputs name = Some src \<and> o_Step src = n) \<or>
     (\<exists>p c. c \<in> set (consumers n p) \<and> \<not> (c = consumer \<and> p \<in> set dropped) \<and> \<not> ended steps c)"
proof -
  have feeds: "feedsWorkflowOutput outputs n p \<longleftrightarrow> (\<exists>name src. map_of outputs name = Some src \<and> o_Step src = n \<and> o_Port src = p)" for p
    by (auto simp: feedsWorkflowOutput_def list_ex_iff entries_iff[symmetric])
  show ?thesis
    using consumed[OF assms] put_out[OF assms]
    unfolding stillNeeded_def list_ex_iff feeds by blast
qed

lemma superseded_iff:
  "n \<in> set (superseded stepOf taken_ports consumers outputs consumer abandoned steps) \<longleftrightarrow>
     n \<in> e_Step ` set abandoned \<and> stepOf n \<noteq> None \<and> \<not> ended steps n \<and>
     \<not> (\<exists>name src. map_of outputs name = Some src \<and> o_Step src = n) \<and>
     (\<forall>p c. c \<in> set (consumers n p) \<longrightarrow> c = consumer \<and> (\<exists>e \<in> set abandoned. e_Step e = n \<and> e_Port e = p) \<or> ended steps c)"
proof -
  have dropped: "p \<in> set (dropped_ports abandoned n) \<longleftrightarrow> (\<exists>e \<in> set abandoned. e_Step e = n \<and> e_Port e = p)" for p
    by (auto simp: dropped_ports_def)
  have "n \<in> set (superseded stepOf taken_ports consumers outputs consumer abandoned steps) \<longleftrightarrow>
      n \<in> e_Step ` set abandoned \<and> stepOf n \<noteq> None \<and> \<not> ended steps n \<and>
      \<not> stillNeeded taken_ports consumers outputs n consumer (dropped_ports abandoned n) steps"
    by (auto simp: superseded_def)
  also have "\<dots> \<longleftrightarrow> n \<in> e_Step ` set abandoned \<and> stepOf n \<noteq> None \<and> \<not> ended steps n \<and>
      \<not> (\<exists>name src. map_of outputs name = Some src \<and> o_Step src = n) \<and>
      (\<forall>p c. c \<in> set (consumers n p) \<longrightarrow> c = consumer \<and> (\<exists>e \<in> set abandoned. e_Step e = n \<and> e_Port e = p) \<or> ended steps c)"
    using needed_iff[of n consumer "dropped_ports abandoned n" steps] unfolding dropped by blast
  finally show ?thesis .
qed

end

interpretation graph_topology: topology "Step g" "published g" "Consumers g" "wf_Outputs (g_wf g)" for g
proof
  fix n c p
  assume step: "Step g n \<noteq> None"
  then obtain st where st: "Step g n = Some st" by blast
  show "p \<in> set (published g n)" if "c \<in> set (Consumers g n p)"
  proof -
    have "p \<in> fst ` set (get (g_consumers g) n)"
      using that get_mem by (simp add: Consumers_def)
    then show ?thesis by (simp add: set_published[OF st])
  qed
  show "o_Port src \<in> set (published g n)" if "map_of (wf_Outputs (g_wf g)) name = Some src" "o_Step src = n" for name src
    using that by (auto simp: set_published[OF st])
qed

section \<open>Properties\<close>

definition keyed :: "string \<Rightarrow> string \<Rightarrow> item" where
  "keyed i k = \<lparr>it_ID = i, it_Data = [(''key'', JStr k), (i, JBool True)], it_Files = []\<rparr>"

definition keyed_part :: "string \<Rightarrow> (string \<times> string) list \<Rightarrow> part" where
  "keyed_part s items = \<lparr>pt_Edge = from_step s,
     pt_Envelope = \<lparr>en_Meta = sample_meta\<lparr>m_Step := s, m_Count := int (length items)\<rparr>,
       en_Items = map (\<lambda>(i, k). keyed i k) items\<rparr>\<rparr>"

definition join_sample :: "part list" where
  "join_sample = [keyed_part ''a'' [(''a1'', ''x''), (''a2'', ''y''), (''a3'', ''x'')],
     keyed_part ''b'' [(''b1'', ''z''), (''b2'', ''x'')]]"

lemma join_sample_joins:
  "joinParts ''s'' ''in'' ''$.data.key'' join_sample no_limits =
     Inr (projr (joinParts ''s'' ''in'' ''$.data.key'' join_sample no_limits))"
  "map it_ID (en_Items (fst (projr (joinParts ''s'' ''in'' ''$.data.key'' join_sample no_limits)))) = [''a1'']"
  "map it_ID (snd (projr (joinParts ''s'' ''in'' ''$.data.key'' join_sample no_limits))) = [''a2'', ''a3'', ''b1'']"
  by code_simp+

text \<open>
  A key join loses no item and uses none twice. What arrives on its edges divides into groups, each
  an item of the first edge and one item of every other edge that all carry the same key, and into what
  it leaves unmatched; the envelope it answers carries one item per group, the group folded into its
  first item.
\<close>

theorem join_partitions:
  assumes "joinParts step port on parts l = Inr (e, unmatched)" "parts \<noteq> []"
  shows "\<exists>sel groups. parsePath on = Inr sel \<and> en_Items e = map merged groups \<and>
    (\<forall>grp \<in> set groups. Suc (length (snd grp)) = length parts \<and> same_key sel grp) \<and>
    mset (concat (map pt_Items parts)) = mset (concat (map (\<lambda>grp. fst grp # snd grp) groups)) + mset unmatched"
  using assms by (rule joinParts_Inr)

theorem join_partitions_witness:
  "\<exists>e unmatched groups. joinParts ''s'' ''in'' ''$.data.key'' join_sample no_limits = Inr (e, unmatched) \<and>
     length groups = 1 \<and>
     mset (concat (map pt_Items join_sample)) = mset (concat (map (\<lambda>grp. fst grp # snd grp) groups)) + mset unmatched"
proof -
  obtain e unmatched where j: "joinParts ''s'' ''in'' ''$.data.key'' join_sample no_limits = Inr (e, unmatched)"
    using join_sample_joins(1) by (metis surj_pair)
  have "join_sample \<noteq> []" by (simp add: join_sample_def)
  then obtain sel groups where g: "en_Items e = map merged groups"
    "mset (concat (map pt_Items join_sample)) = mset (concat (map (\<lambda>grp. fst grp # snd grp) groups)) + mset unmatched"
    using join_partitions[OF j] by blast
  have "length (en_Items e) = 1"
    using join_sample_joins(2) arg_cong[of _ _ length] unfolding j by fastforce
  with g have "length groups = 1" by simp
  with j g(2) show ?thesis by blast
qed

text \<open>
  Merging two items keeps the identity of the one from the first edge and loses no key: the result
  carries every key either carries, and a key both carry keeps the value of the first.
\<close>

theorem fold_keeps_first:
  "it_ID (foldInto into other) = it_ID into \<and>
   map_of (it_Data (foldInto into other)) = map_of (it_Data other) ++ map_of (it_Data into)"
  by (simp add: foldInto_data) (simp add: foldInto_def)

text \<open>
  \<open>zip\<close> answers only envelopes of one length, and pairs by rank: item \<open>i\<close> of the result is the
  items of rank \<open>i\<close> of every edge, folded into that of the first; envelopes of differing lengths are
  refused.
\<close>

theorem zip_pairs_by_rank:
  assumes "parts \<noteq> []"
  shows "((\<exists>p \<in> set parts. length (pt_Items p) \<noteq> length (pt_Items (hd parts))) \<longleftrightarrow>
        zipParts step port parts l = Inl (Refused RuleZipLength step port)) \<and>
     (\<forall>e. zipParts step port parts l = Inr e \<longrightarrow>
        en_Items e = map (\<lambda>i. merged (pt_Items (hd parts) ! i, map (\<lambda>q. pt_Items q ! i) (tl parts))) [0..<length (en_Items e)] \<and>
        (\<forall>p \<in> set parts. length (pt_Items p) = length (en_Items e)))"
proof (intro conjI allI impI)
  have "set parts = insert (hd parts) (set (tl parts))" using assms by (cases parts) auto
  then show "(\<exists>p \<in> set parts. length (pt_Items p) \<noteq> length (pt_Items (hd parts))) \<longleftrightarrow>
      zipParts step port parts l = Inl (Refused RuleZipLength step port)"
    by (auto simp: zipParts_def Let_def split: sum.splits)
next
  fix e
  assume z: "zipParts step port parts l = Inr e"
  have hd: "hd parts \<in> set parts" using assms by simp
  show "en_Items e = map (\<lambda>i. merged (pt_Items (hd parts) ! i, map (\<lambda>q. pt_Items q ! i) (tl parts))) [0..<length (en_Items e)]"
    using zipParts_Inr(2)[OF z hd] by (auto intro!: nth_equalityI)
  show "\<forall>p \<in> set parts. length (pt_Items p) = length (en_Items e)"
    using zipParts_Inr(1)[OF z] by blast
qed

definition zip_sample :: "part list" where
  "zip_sample = [keyed_part ''a'' [(''a1'', ''x''), (''a2'', ''y'')], keyed_part ''b'' [(''b1'', ''z''), (''b2'', ''x'')]]"

theorem zip_pairs_by_rank_witness:
  "\<exists>e. zipParts ''s'' ''in'' zip_sample no_limits = Inr e \<and> (\<forall>p \<in> set zip_sample. length (pt_Items p) = length (en_Items e))"
proof -
  have "\<not> isl (zipParts ''s'' ''in'' zip_sample no_limits)" by code_simp
  then obtain e where e: "zipParts ''s'' ''in'' zip_sample no_limits = Inr e" using not_isl_Inr by blast
  have "zip_sample \<noteq> []" by (simp add: zip_sample_def)
  from zip_pairs_by_rank[OF this] e show ?thesis by blast
qed

text \<open>
  What a \<open>merge: first\<close> calls off is exactly what nobody needs. In a built graph a step is
  superseded when the merge abandoned an edge from it, it has not ended, no workflow output takes a port
  of it, and every step that takes one has ended or is the merging step on an edge it abandoned.
\<close>

theorem superseded_exactly_unneeded:
  assumes "Build other schema w manifests = Inr g"
  shows "n \<in> set (superseded (Step g) (published g) (Consumers g) (wf_Outputs (g_wf g)) consumer abandoned steps) \<longleftrightarrow>
     n \<in> e_Step ` set abandoned \<and> step_of w n \<noteq> None \<and> \<not> ended steps n \<and>
     \<not> (\<exists>name src. map_of (wf_Outputs w) name = Some src \<and> o_Step src = n) \<and>
     (\<forall>c. \<forall>e \<in> set (edgesOf w c). e_Step e = n \<longrightarrow>
        c = consumer \<and> (\<exists>a \<in> set abandoned. e_Step a = n \<and> e_Port a = e_Port e) \<or> ended steps c)"
  unfolding graph_topology.superseded_iff unfolding Consumers_iff[OF assms] Build_Inr(1)[OF assms] Step_def step_of_def
  by blast

theorem superseded_exactly_unneeded_witness:
  "''b'' \<in> set (superseded (Step chain_graph) (published chain_graph) (Consumers chain_graph) (wf_Outputs (g_wf chain_graph))
     ''c'' [from_step ''b''] [])"
  unfolding superseded_exactly_unneeded[OF chain_builds]
  by (auto simp: chain_workflow_def workflow_with_def step_of_def edgesOf_def script_step_def from_step_def ended_def
      split: if_splits option.splits)

end
