(* ===== verification/Barrier.thy ===== *)
theory Barrier
  imports Merging
begin

text \<open>
  Package \<open>graph\<close>, \<open>barrier.go\<close>: whether a step may start, read against the run as it stands. The answer
  is to wait, to skip the step, or to start it with what arrived on each port; a merge that is refused
  is an error.
\<close>

record arrival =
  ar_Inputs :: ports
  ar_Unmatched :: "item list"
  ar_Abandoned :: "edge list"

datatype gate = GateWait | GateSkip reason | GateStart arrival

datatype edge_state = EdgeWaiting | EdgeProduced | EdgeSilent

definition zero_envelope :: envelope where
  "zero_envelope = Empty [] [] [] 0 0"

definition inbound_names :: "edge list \<Rightarrow> (string, envelope) gomap \<Rightarrow> string list" where
  "inbound_names edges fed =
     foldl add_port (foldl (\<lambda>names e. add_port names (e_As e)) [] edges) (sorted_keys fed)"

definition by_port :: "edge list \<Rightarrow> string \<Rightarrow> edge list" where
  "by_port edges port = filter (\<lambda>e. e_As e = port) edges"

definition resolveEdge :: "edge \<Rightarrow> (string, step_state) gomap \<Rightarrow> string \<Rightarrow> time \<Rightarrow> edge_state \<times> envelope" where
  "resolveEdge e steps run at =
     (case map_of steps (e_Step e) of
        None \<Rightarrow> (EdgeWaiting, zero_envelope)
      | Some up \<Rightarrow>
          if \<not> verdict_Terminal (ss_Verdict up) then (EdgeWaiting, zero_envelope)
          else case map_of (ss_Ports up) (e_Port e) of
                 Some held \<Rightarrow> (EdgeProduced, held)
               | None \<Rightarrow> (EdgeSilent, Empty run (e_Step e) (e_Port e) 1 (if ss_Since up = zero_time then at else ss_Since up)))"

definition produced_at :: "envelope \<Rightarrow> time" where
  "produced_at e = m_ProducedAt (en_Meta e)"

definition winner_of :: "(edge_state \<times> envelope) list \<Rightarrow> nat option" where
  "winner_of held =
     foldl (\<lambda>winner i.
         if fst (held ! i) \<noteq> EdgeProduced then winner
         else case winner of
                None \<Rightarrow> Some i
              | Some k \<Rightarrow> if produced_at (snd (held ! i)) < produced_at (snd (held ! k)) then Some i else winner)
       None [0..<length held]"

definition with_fed :: "string \<Rightarrow> (string, envelope) gomap \<Rightarrow> part list \<Rightarrow> part list" where
  "with_fed port fed parts =
     (case map_of fed port of
        None \<Rightarrow> parts
      | Some e \<Rightarrow> parts @ [\<lparr>pt_Edge = \<lparr>e_Step = [], e_Port = [], e_As = port\<rparr>, pt_Envelope = e\<rparr>])"

definition satisfyPort ::
  "step \<Rightarrow> string \<Rightarrow> edge list \<Rightarrow> (string, step_state) gomap \<Rightarrow> (string, envelope) gomap \<Rightarrow> string \<Rightarrow> time \<Rightarrow>
   (part list \<times> edge list) option" where
  "satisfyPort st port edges steps fed run at =
     (let held = map (\<lambda>e. resolveEdge e steps run at) edges;
          waiting = list_ex (\<lambda>h. fst h = EdgeWaiting) held;
          chosen = (if edges = [] then Some ([], [])
                    else if st_Merge st = MergeFirst then
                      (case winner_of held of
                         None \<Rightarrow> if waiting then None
                                 else Some ([\<lparr>pt_Edge = edges ! 0, pt_Envelope = snd (held ! 0)\<rparr>], tl edges)
                       | Some k \<Rightarrow> Some ([\<lparr>pt_Edge = edges ! k, pt_Envelope = snd (held ! k)\<rparr>],
                                         map (\<lambda>i. edges ! i) (filter (\<lambda>i. i \<noteq> k) [0..<length edges])))
                    else if waiting then None
                    else Some (map2 (\<lambda>e h. \<lparr>pt_Edge = e, pt_Envelope = snd h\<rparr>) edges held, []))
      in case chosen of
           None \<Rightarrow> None
         | Some (parts, abandoned) \<Rightarrow>
             (let parts' = with_fed port fed parts in if parts' = [] then None else Some (parts', abandoned)))"

definition whenOf :: "step \<Rightarrow> when_state list" where
  "whenOf st = (if st_When st = [] then [WhenSucceeded] else st_When st)"

definition admits :: "when_state list \<Rightarrow> verdict \<Rightarrow> bool" where
  "admits states v =
     list_ex (\<lambda>w. w = WhenAlways \<or> w = WhenSucceeded \<and> v = VerdictSucceeded \<or>
                 w = WhenFailed \<and> v = VerdictFailed \<or> w = WhenSkipped \<and> v = VerdictSkipped)
       (if states = [] then [WhenSucceeded] else states)"

definition refuses_part :: "step \<Rightarrow> (string, step_state) gomap \<Rightarrow> part \<Rightarrow> bool" where
  "refuses_part st steps p =
     (e_Step (pt_Edge p) \<noteq> [] \<and>
      (case map_of steps (e_Step (pt_Edge p)) of None \<Rightarrow> False | Some up \<Rightarrow> \<not> admits (whenOf st) (ss_Verdict up)))"

definition when_reason :: "step \<Rightarrow> (string, step_state) gomap \<Rightarrow> part \<Rightarrow> reason" where
  "when_reason st steps p =
     ReasonWhen (whenOf st) (e_Step (pt_Edge p))
       (case map_of steps (e_Step (pt_Edge p)) of None \<Rightarrow> VerdictPending | Some up \<Rightarrow> ss_Verdict up)"

definition merge_ports ::
  "string \<Rightarrow> step \<Rightarrow> limits \<Rightarrow> (string \<times> part list) list \<Rightarrow> (graph_error, ports \<times> item list) result" where
  "merge_ports name st l arrived =
     rfold (\<lambda>(port, parts) (inputs, unmatched).
        rbind (mergePort name port st parts l) (\<lambda>(e, un). Inr (AList.update port e inputs, unmatched @ un)))
       arrived ([], [])"

definition barrier ::
  "string \<Rightarrow> step \<Rightarrow> edge list \<Rightarrow> (string, step_state) gomap \<Rightarrow> (string, envelope) gomap \<Rightarrow> string \<Rightarrow> limits \<Rightarrow> time \<Rightarrow>
   (graph_error, gate) result" where
  "barrier name st edges steps fed run l at =
     (let names = inbound_names edges fed in
      case found_all (\<lambda>port. satisfyPort st port (by_port edges port) steps fed run at) names of
        None \<Rightarrow> Inr GateWait
      | Some satisfied \<Rightarrow>
          (let arrived = zip names (map fst satisfied) in
           case find (refuses_part st steps) (concat (map snd arrived)) of
             Some p \<Rightarrow> Inr (GateSkip (when_reason st steps p))
           | None \<Rightarrow>
               rbind (merge_ports name st l arrived) (\<lambda>(inputs, unmatched).
               Inr (GateStart \<lparr>ar_Inputs = inputs, ar_Unmatched = unmatched,
                               ar_Abandoned = concat (map snd satisfied)\<rparr>))))"

definition truth :: "string \<Rightarrow> string \<Rightarrow> json \<Rightarrow> (graph_error, bool) result" where
  "truth name source v = (case v of JBool b \<Rightarrow> Inr b | _ \<Rightarrow> Inl (ConditionNotBoolean name source))"

section \<open>What the barrier reads\<close>

lemma resolveEdge_cong:
  "map_of steps (e_Step e) = map_of steps' (e_Step e) \<Longrightarrow> resolveEdge e steps run at = resolveEdge e steps' run at"
  by (simp add: resolveEdge_def)

lemma resolveEdge_waiting: "fst (resolveEdge e steps run at) = EdgeWaiting \<longleftrightarrow> \<not> ended steps (e_Step e)"
  by (auto simp: resolveEdge_def ended_def split: option.splits)

lemma satisfyPort_cong:
  assumes "\<And>e. e \<in> set edges \<Longrightarrow> map_of steps (e_Step e) = map_of steps' (e_Step e)"
  shows "satisfyPort st port edges steps fed run at = satisfyPort st port edges steps' fed run at"
proof -
  have "map (\<lambda>e. resolveEdge e steps run at) edges = map (\<lambda>e. resolveEdge e steps' run at) edges"
    using assms by (intro map_cong refl resolveEdge_cong)
  then show ?thesis by (simp only: satisfyPort_def)
qed

lemma set_by_port: "set (by_port edges port) = {e \<in> set edges. e_As e = port}"
  by (auto simp: by_port_def)

lemma inbound_names_iff:
  "port \<in> set (inbound_names edges fed) \<longleftrightarrow> port \<in> e_As ` set edges \<or> port \<in> fst ` set fed"
proof -
  have "set (foldl (\<lambda>names e. add_port names (e_As e)) acc es) = set acc \<union> e_As ` set es" for acc es
    by (induction es arbitrary: acc) (auto simp: add_port_def)
  then show ?thesis by (auto simp: inbound_names_def foldl_add_port set_sorted_keys)
qed

lemma winner_of_Some:
  assumes "winner_of held = Some k"
  shows "k < length held \<and> fst (held ! k) = EdgeProduced \<and>
    (\<forall>i < length held. fst (held ! i) = EdgeProduced \<longrightarrow> produced_at (snd (held ! k)) \<le> produced_at (snd (held ! i)))"
proof -
  let ?f = "\<lambda>winner i. if fst (held ! i) \<noteq> EdgeProduced then winner
         else case winner of None \<Rightarrow> Some i
              | Some k \<Rightarrow> if produced_at (snd (held ! i)) < produced_at (snd (held ! k)) then Some i else winner"
  have "case foldl ?f None [0..<n] of
      None \<Rightarrow> \<forall>i < n. fst (held ! i) \<noteq> EdgeProduced
    | Some k \<Rightarrow> k < n \<and> fst (held ! k) = EdgeProduced \<and>
        (\<forall>i < n. fst (held ! i) = EdgeProduced \<longrightarrow> produced_at (snd (held ! k)) \<le> produced_at (snd (held ! i)))" for n
  proof (induction n)
    case (Suc n)
    then show ?case by (auto simp: less_Suc_eq split: option.splits)
  qed simp
  from this[of "length held"] assms show ?thesis by (simp add: winner_of_def)
qed

lemma parts_of_edges:
  "map2 (\<lambda>e h. \<lparr>pt_Edge = e, pt_Envelope = snd h\<rparr>) edges (map f edges) = map (\<lambda>e. \<lparr>pt_Edge = e, pt_Envelope = snd (f e)\<rparr>) edges"
  by (induction edges) auto

lemma set_with_fed:
  "p \<in> set (with_fed port fed ps) \<longleftrightarrow> p \<in> set ps \<or>
     (\<exists>e. map_of fed port = Some e \<and> p = \<lparr>pt_Edge = \<lparr>e_Step = [], e_Port = [], e_As = port\<rparr>, pt_Envelope = e\<rparr>)"
  by (auto simp: with_fed_def split: option.splits)

lemma satisfyPort_all:
  assumes "satisfyPort st port edges steps fed run at = Some (parts, abandoned)" "st_Merge st \<noteq> MergeFirst"
  shows "abandoned = []" "e \<in> set edges \<Longrightarrow> ended steps (e_Step e)"
    "parts = with_fed port fed (map (\<lambda>e. \<lparr>pt_Edge = e, pt_Envelope = snd (resolveEdge e steps run at)\<rparr>) edges)"
  using assms
  by (auto simp: satisfyPort_def Let_def parts_of_edges list_ex_iff resolveEdge_waiting split: option.splits if_splits)

lemma satisfyPort_parts:
  assumes "satisfyPort st port edges steps fed run at = Some (parts, abandoned)"
  shows "p \<in> set parts \<Longrightarrow> pt_Edge p \<in> set edges \<and> ended steps (e_Step (pt_Edge p)) \<or>
      pt_Edge p = \<lparr>e_Step = [], e_Port = [], e_As = port\<rparr> \<and> map_of fed port = Some (pt_Envelope p)"
    and "st_Merge st \<noteq> MergeFirst \<Longrightarrow> abandoned = [] \<and> (\<forall>e \<in> set edges. ended steps (e_Step e) \<and> e \<in> pt_Edge ` set parts)"
    and "parts \<noteq> []"
proof -
  let ?held = "map (\<lambda>e. resolveEdge e steps run at) edges"
  have end_iff: "list_ex (\<lambda>h. fst h = EdgeWaiting) ?held \<longleftrightarrow> (\<exists>e \<in> set edges. \<not> ended steps (e_Step e))"
    by (auto simp: list_ex_iff resolveEdge_waiting)
  have win: "k < length edges \<and> ended steps (e_Step (edges ! k))" if "winner_of ?held = Some k" for k
    using winner_of_Some[OF that] resolveEdge_waiting[of "edges ! k" steps run at] by auto
  show "parts \<noteq> []" using assms by (auto simp: satisfyPort_def Let_def split: option.splits if_splits)
  show "pt_Edge p \<in> set edges \<and> ended steps (e_Step (pt_Edge p)) \<or>
      pt_Edge p = \<lparr>e_Step = [], e_Port = [], e_As = port\<rparr> \<and> map_of fed port = Some (pt_Envelope p)" if "p \<in> set parts"
    using assms that win end_iff
    by (auto simp: satisfyPort_def Let_def set_with_fed set_zip split: option.splits if_splits)
  show "abandoned = [] \<and> (\<forall>e \<in> set edges. ended steps (e_Step e) \<and> e \<in> pt_Edge ` set parts)" if "st_Merge st \<noteq> MergeFirst"
    using satisfyPort_all[OF assms that] by (auto simp: set_with_fed image_iff intro!: bexI disjI1)
qed

lemma satisfyPort_abandoned:
  "satisfyPort st port edges steps fed run at = Some (parts, abandoned) \<Longrightarrow> set abandoned \<subseteq> set edges"
  by (auto simp: satisfyPort_def Let_def dest: list.set_sel(2) split: option.splits if_splits)

lemma satisfyPort_None_iff:
  assumes "st_Merge st \<noteq> MergeFirst" "edges \<noteq> [] \<or> has_key fed port"
  shows "satisfyPort st port edges steps fed run at = None \<longleftrightarrow> (\<exists>e \<in> set edges. \<not> ended steps (e_Step e))"
  using assms
  by (auto simp: satisfyPort_def Let_def parts_of_edges list_ex_iff resolveEdge_waiting with_fed_def has_key_def
      split: option.splits if_splits)

lemma found_all_None: "found_all f xs = None \<longleftrightarrow> (\<exists>x \<in> set xs. f x = None)"
  by (induction xs) (auto split: option.splits)

lemma find_cong: "(\<And>x. x \<in> set xs \<Longrightarrow> P x = Q x) \<Longrightarrow> find P xs = find Q xs"
  by (induction xs) auto

lemma find_Some_mem: "find P xs = Some x \<Longrightarrow> x \<in> set xs \<and> P x"
  by (induction xs) (auto split: if_splits)

lemma satisfied_parts:
  assumes "found_all (\<lambda>port. satisfyPort st port (by_port edges port) steps fed run at) names = Some satisfied"
    and "p \<in> set (concat (map snd (zip names (map fst satisfied))))"
  shows "pt_Edge p \<in> set edges \<and> ended steps (e_Step (pt_Edge p)) \<or> e_Step (pt_Edge p) = []"
proof -
  have all: "list_all2 (\<lambda>port s. satisfyPort st port (by_port edges port) steps fed run at = Some s) names satisfied"
    using assms(1) by (simp add: found_all_Some)
  obtain parts where "parts \<in> set (map snd (zip names (map fst satisfied)))" and p: "p \<in> set parts"
    using assms(2) by auto
  then obtain i where i: "i < length names" "i < length satisfied" "parts = fst (satisfied ! i)"
    by (auto simp: set_zip)
  then have "satisfyPort st (names ! i) (by_port edges (names ! i)) steps fed run at = Some (fst (satisfied ! i), snd (satisfied ! i))"
    using all by (simp add: list_all2_conv_all_nth)
  from satisfyPort_parts(1)[OF this] p i(3)
  have "pt_Edge p \<in> set (by_port edges (names ! i)) \<and> ended steps (e_Step (pt_Edge p)) \<or>
      pt_Edge p = \<lparr>e_Step = [], e_Port = [], e_As = names ! i\<rparr>" by blast
  then show ?thesis by (auto simp: set_by_port)
qed

lemma barrier_cong:
  assumes "\<And>e. e \<in> set edges \<Longrightarrow> map_of steps (e_Step e) = map_of steps' (e_Step e)"
  shows "barrier name st edges steps fed run l at = barrier name st edges steps' fed run l at"
proof -
  have sat: "satisfyPort st port (by_port edges port) steps fed run at = satisfyPort st port (by_port edges port) steps' fed run at" for port
    using assms by (intro satisfyPort_cong) (auto simp: set_by_port)
  show ?thesis
  proof (cases "found_all (\<lambda>port. satisfyPort st port (by_port edges port) steps' fed run at) (inbound_names edges fed)")
    case None
    then show ?thesis by (simp add: barrier_def sat Let_def)
  next
    case (Some satisfied)
    let ?parts = "concat (map snd (zip (inbound_names edges fed) (map fst satisfied)))"
    have agree: "map_of steps (e_Step (pt_Edge p)) = map_of steps' (e_Step (pt_Edge p))"
      if "p \<in> set ?parts" "e_Step (pt_Edge p) \<noteq> []" for p
      using satisfied_parts[OF Some that(1)] that(2) assms by auto
    have "refuses_part st steps p = refuses_part st steps' p" if "p \<in> set ?parts" for p
      using agree[OF that] by (cases "e_Step (pt_Edge p) = []") (simp_all add: refuses_part_def)
    then have "find (refuses_part st steps) ?parts = find (refuses_part st steps') ?parts"
      by (rule find_cong)
    moreover have "when_reason st steps p = when_reason st steps' p" if "find (refuses_part st steps') ?parts = Some p" for p
      using find_Some_mem[OF that] agree[of p] by (auto simp: when_reason_def refuses_part_def)
    ultimately show ?thesis
      using Some by (simp add: barrier_def sat Let_def split: option.splits)
  qed
qed

lemma merge_ports_keys:
  assumes "merge_ports name st l arrived = Inr (inputs, unmatched)"
  shows "fst ` set inputs = fst ` set arrived" and "st_Merge st \<noteq> MergeJoin \<Longrightarrow> unmatched = []"
proof -
  have fold: "fst ` set inputs = fst ` set (acc :: ports) \<union> fst ` set arrived \<and> (st_Merge st \<noteq> MergeJoin \<longrightarrow> unmatched = un)"
    if "rfold (\<lambda>(port, parts) (inputs, unmatched).
        rbind (mergePort name port st parts l) (\<lambda>(e, un). Inr (AList.update port e inputs, unmatched @ un)))
       arrived (acc, un) = Inr (inputs, unmatched)" for acc un arrived
    using that
  proof (induction arrived arbitrary: acc un)
    case (Cons a arrived)
    obtain port parts where a: "a = (port, parts)" by (cases a)
    obtain e un' where m: "mergePort name port st parts l = Inr (e, un')"
      and rest: "rfold (\<lambda>(port, parts) (inputs, unmatched).
        rbind (mergePort name port st parts l) (\<lambda>(e, un). Inr (AList.update port e inputs, unmatched @ un)))
       arrived (AList.update port e acc, un @ un') = Inr (inputs, unmatched)"
      using Cons.prems a by auto
    have "st_Merge st \<noteq> MergeJoin \<longrightarrow> un' = []"
      using m by (auto simp: mergePort_def split: list.splits merge.splits sum.splits)
    with Cons.IH[OF rest] show ?case by (auto simp: a)
  qed simp
  from fold[OF assms[unfolded merge_ports_def]] show "fst ` set inputs = fst ` set arrived"
    and "st_Merge st \<noteq> MergeJoin \<Longrightarrow> unmatched = []" by auto
qed

lemma barrier_wait_iff:
  assumes "st_Merge st \<noteq> MergeFirst"
  shows "barrier name st edges steps fed run l at = Inr GateWait \<longleftrightarrow> (\<exists>e \<in> set edges. \<not> ended steps (e_Step e))"
proof -
  let ?sat = "\<lambda>port. satisfyPort st port (by_port edges port) steps fed run at"
  have "barrier name st edges steps fed run l at = Inr GateWait \<longleftrightarrow> found_all ?sat (inbound_names edges fed) = None"
    by (auto simp: barrier_def Let_def split: option.splits prod.splits)
  also have "\<dots> \<longleftrightarrow> (\<exists>port \<in> set (inbound_names edges fed). \<exists>e \<in> set (by_port edges port). \<not> ended steps (e_Step e))"
  proof -
    have "?sat port = None \<longleftrightarrow> (\<exists>e \<in> set (by_port edges port). \<not> ended steps (e_Step e))"
      if "port \<in> set (inbound_names edges fed)" for port
    proof (rule satisfyPort_None_iff[OF assms])
      show "by_port edges port \<noteq> [] \<or> has_key fed port"
        using that by (auto simp: inbound_names_iff has_key_iff by_port_def filter_empty_conv)
    qed
    then show ?thesis by (auto simp: found_all_None)
  qed
  also have "\<dots> \<longleftrightarrow> (\<exists>e \<in> set edges. \<not> ended steps (e_Step e))"
    by (auto simp: set_by_port inbound_names_iff)
  finally show ?thesis .
qed

lemma barrier_start:
  assumes "barrier name st edges steps fed run l at = Inr (GateStart arrived)"
  shows "fst ` set (ar_Inputs arrived) = set (inbound_names edges fed)"
    and "st_Merge st \<noteq> MergeJoin \<Longrightarrow> ar_Unmatched arrived = []"
    and "st_Merge st \<noteq> MergeFirst \<Longrightarrow> ar_Abandoned arrived = [] \<and>
       (\<forall>e \<in> set edges. e_Step e \<noteq> [] \<longrightarrow> (\<exists>up. map_of steps (e_Step e) = Some up \<and>
          verdict_Terminal (ss_Verdict up) \<and> admits (whenOf st) (ss_Verdict up)))"
    and "e \<in> set (ar_Abandoned arrived) \<Longrightarrow> e \<in> set edges"
proof -
  let ?sat = "\<lambda>port. satisfyPort st port (by_port edges port) steps fed run at"
  let ?names = "inbound_names edges fed"
  obtain satisfied where sat: "found_all ?sat ?names = Some satisfied"
    and ok: "find (refuses_part st steps) (concat (map snd (zip ?names (map fst satisfied)))) = None"
    and m: "merge_ports name st l (zip ?names (map fst satisfied)) = Inr (ar_Inputs arrived, ar_Unmatched arrived)"
    and ab: "ar_Abandoned arrived = concat (map snd satisfied)"
    using assms by (auto simp: barrier_def Let_def split: option.splits)
  have all: "list_all2 (\<lambda>port s. ?sat port = Some s) ?names satisfied"
    using sat by (simp add: found_all_Some)
  then have len: "length ?names = length satisfied" by (rule list_all2_lengthD)
  have keys: "fst ` set (zip ?names (map fst satisfied)) = set ?names"
    using len by (metis length_map map_fst_zip set_map)
  show "fst ` set (ar_Inputs arrived) = set ?names"
    using merge_ports_keys(1)[OF m] keys by simp
  show "st_Merge st \<noteq> MergeJoin \<Longrightarrow> ar_Unmatched arrived = []"
    by (rule merge_ports_keys(2)[OF m])
  have nth: "?sat (?names ! i) = Some (fst (satisfied ! i), snd (satisfied ! i))" if "i < length ?names" for i
    using all that by (simp add: list_all2_conv_all_nth)
  show "e \<in> set edges" if left: "e \<in> set (ar_Abandoned arrived)"
  proof -
    obtain i where i: "i < length ?names" "e \<in> set (snd (satisfied ! i))"
    proof -
      obtain sa where "sa \<in> set satisfied" "e \<in> set (snd sa)" using left ab by auto
      then show ?thesis using that len by (metis in_set_conv_nth)
    qed
    have "e \<in> set (by_port edges (?names ! i))"
      using satisfyPort_abandoned[OF nth[OF i(1)]] i(2) by blast
    then show ?thesis by (simp add: set_by_port)
  qed
  assume merge: "st_Merge st \<noteq> MergeFirst"
  have "ar_Abandoned arrived = []"
  proof -
    have "snd sa = []" if "sa \<in> set satisfied" for sa
      using satisfyPort_all(1)[OF nth merge] len that by (metis in_set_conv_nth)
    then show ?thesis by (simp add: ab)
  qed
  moreover have "\<exists>up. map_of steps (e_Step e) = Some up \<and> verdict_Terminal (ss_Verdict up) \<and> admits (whenOf st) (ss_Verdict up)"
    if e: "e \<in> set edges" "e_Step e \<noteq> []" for e
  proof -
    obtain i where i: "i < length ?names" "?names ! i = e_As e"
      using e(1) by (metis inbound_names_iff in_set_conv_nth imageI)
    have "e \<in> set (by_port edges (e_As e))" using e by (simp add: set_by_port)
    with satisfyPort_parts(2)[OF nth[OF i(1)] merge] i(2)
    obtain p where p: "p \<in> set (fst (satisfied ! i))" "pt_Edge p = e" and en: "ended steps (e_Step e)" by auto
    have "p \<in> set (concat (map snd (zip ?names (map fst satisfied))))"
      using p(1) i(1) len by (auto simp: set_zip intro!: exI[of _ i])
    then have "\<not> refuses_part st steps p" using ok by (auto simp: find_None_iff)
    with en p(2) e(2) show ?thesis by (auto simp: refuses_part_def ended_def split: option.splits)
  qed
  ultimately show "ar_Abandoned arrived = [] \<and> (\<forall>e \<in> set edges. e_Step e \<noteq> [] \<longrightarrow> (\<exists>up. map_of steps (e_Step e) = Some up \<and>
          verdict_Terminal (ss_Verdict up) \<and> admits (whenOf st) (ss_Verdict up)))" by blast
qed

lemma resolveEdge_produced:
  "fst (resolveEdge e steps run at) = EdgeProduced \<longleftrightarrow>
     (\<exists>up. map_of steps (e_Step e) = Some up \<and> verdict_Terminal (ss_Verdict up) \<and> has_key (ss_Ports up) (e_Port e))"
  by (auto simp: resolveEdge_def has_key_def split: option.splits)

text \<open>A port that has been satisfied has a part from an edge whose step has ended: one that produced, or all of them ended.\<close>

lemma satisfyPort_some_part:
  assumes "satisfyPort st port edges steps fed run at = Some (parts, abandoned)" "edges \<noteq> []"
  shows "\<exists>p \<in> set parts. pt_Edge p \<in> set edges \<and> ended steps (e_Step (pt_Edge p)) \<and>
    (fst (resolveEdge (pt_Edge p) steps run at) = EdgeProduced \<or> (\<forall>e \<in> set edges. ended steps (e_Step e)))"
proof (cases "st_Merge st = MergeFirst")
  case False
  have m: "hd edges \<in> set edges" using assms(2) by simp
  then obtain p where "p \<in> set parts" "pt_Edge p = hd edges" using satisfyPort_parts(2)[OF assms(1) False] by auto
  then show ?thesis using satisfyPort_parts(2)[OF assms(1) False] m by (intro bexI[of _ p]) auto
next
  case True
  let ?held = "map (\<lambda>e. resolveEdge e steps run at) edges"
  have end_iff: "list_ex (\<lambda>h. fst h = EdgeWaiting) ?held \<longleftrightarrow> (\<exists>e \<in> set edges. \<not> ended steps (e_Step e))"
    by (auto simp: list_ex_iff resolveEdge_waiting)
  show ?thesis
  proof (cases "winner_of ?held")
    case None
    then have "\<forall>e \<in> set edges. ended steps (e_Step e)" "\<lparr>pt_Edge = edges ! 0, pt_Envelope = snd (?held ! 0)\<rparr> \<in> set parts"
      using assms True end_iff by (auto simp: satisfyPort_def Let_def set_with_fed split: option.splits if_splits)
    moreover have "edges ! 0 \<in> set edges" using assms(2) by simp
    ultimately show ?thesis by (intro bexI[of _ "\<lparr>pt_Edge = edges ! 0, pt_Envelope = snd (?held ! 0)\<rparr>"]) auto
  next
    case (Some k)
    then have k: "k < length edges" "fst (resolveEdge (edges ! k) steps run at) = EdgeProduced" using winner_of_Some[OF Some] by auto
    then have "ended steps (e_Step (edges ! k))" using resolveEdge_waiting[of "edges ! k" steps run at] by auto
    moreover have "\<lparr>pt_Edge = edges ! k, pt_Envelope = snd (?held ! k)\<rparr> \<in> set parts"
      using assms True Some by (auto simp: satisfyPort_def Let_def set_with_fed split: option.splits if_splits)
    ultimately show ?thesis using k by (intro bexI[of _ "\<lparr>pt_Edge = edges ! k, pt_Envelope = snd (?held ! k)\<rparr>"]) auto
  qed
qed

text \<open>Whatever the merge, a step starts when each port an edge feeds has something from a step that ended as the step's \<open>when\<close> admits.\<close>

lemma barrier_start_each_port:
  assumes "barrier name st edges steps fed run l at = Inr (GateStart arrived)" "e \<in> set edges"
  shows "\<exists>e' \<in> set edges. e_As e' = e_As e \<and>
    (\<exists>up. map_of steps (e_Step e') = Some up \<and> verdict_Terminal (ss_Verdict up) \<and>
       (e_Step e' \<noteq> [] \<longrightarrow> admits (whenOf st) (ss_Verdict up)) \<and>
       (has_key (ss_Ports up) (e_Port e') \<or> (\<forall>e'' \<in> set edges. e_As e'' = e_As e \<longrightarrow> ended steps (e_Step e''))))"
proof -
  let ?sat = "\<lambda>port. satisfyPort st port (by_port edges port) steps fed run at"
  let ?names = "inbound_names edges fed"
  obtain satisfied where sat: "found_all ?sat ?names = Some satisfied"
    and ok: "find (refuses_part st steps) (concat (map snd (zip ?names (map fst satisfied)))) = None"
    using assms(1) by (auto simp: barrier_def Let_def split: option.splits)
  have all: "list_all2 (\<lambda>port s. ?sat port = Some s) ?names satisfied" using sat by (simp add: found_all_Some)
  then have len: "length ?names = length satisfied" by (rule list_all2_lengthD)
  obtain i where i: "i < length ?names" "?names ! i = e_As e" using assms(2) by (metis inbound_names_iff in_set_conv_nth imageI)
  have "?sat (?names ! i) = Some (satisfied ! i)" using all i(1) by (simp add: list_all2_conv_all_nth)
  then have "?sat (e_As e) = Some (fst (satisfied ! i), snd (satisfied ! i))" by (simp add: i(2))
  moreover have "by_port edges (e_As e) \<noteq> []" using assms(2) set_by_port[of edges "e_As e"] by fastforce
  ultimately obtain p where p: "p \<in> set (fst (satisfied ! i))" "pt_Edge p \<in> set (by_port edges (e_As e))" "ended steps (e_Step (pt_Edge p))"
    "fst (resolveEdge (pt_Edge p) steps run at) = EdgeProduced \<or> (\<forall>e'' \<in> set (by_port edges (e_As e)). ended steps (e_Step e''))"
    using satisfyPort_some_part by blast
  have "p \<in> set (concat (map snd (zip ?names (map fst satisfied))))" using p(1) i(1) len by (auto simp: set_zip intro!: exI[of _ i])
  then have "\<not> refuses_part st steps p" using ok by (auto simp: find_None_iff)
  with p show ?thesis
    by (intro bexI[of _ "pt_Edge p"]) (auto simp: refuses_part_def ended_def resolveEdge_produced set_by_port split: option.splits)
qed

section \<open>Properties\<close>

definition ended_with :: "verdict \<Rightarrow> step_state" where
  "ended_with v = zero_step\<lparr>ss_Verdict := v, ss_Ports := [(''out'', sample_envelope)], ss_Since := 2\<rparr>"

definition fan_in_step :: step where
  "fan_in_step = script_step [from_step ''a'', from_step ''b'']"

definition fan_in_states :: "(string, step_state) gomap" where
  "fan_in_states = [(''a'', ended_with VerdictSucceeded), (''b'', ended_with VerdictSucceeded)]"

text \<open>
  C15: it is a barrier. Outside \<open>merge: first\<close> the answer is to wait exactly while a step an edge comes
  from has not ended; so nothing starts on a partial arrival, and once every upstream step has ended the
  step starts, is skipped or is refused.
\<close>

theorem barrier_is_a_barrier:
  assumes "st_Merge st \<noteq> MergeFirst"
  shows "barrier name st edges steps fed run l at = Inr GateWait \<longleftrightarrow> (\<exists>e \<in> set edges. \<not> ended steps (e_Step e))"
  using assms by (rule barrier_wait_iff)

theorem barrier_is_a_barrier_witness:
  "barrier ''c'' fan_in_step (st_Needs fan_in_step) [(''a'', ended_with VerdictSucceeded)] [] ''r'' no_limits 1 = Inr GateWait"
proof -
  have "st_Merge fan_in_step \<noteq> MergeFirst" by (simp add: fan_in_step_def script_step_def)
  from barrier_is_a_barrier[OF this] show ?thesis
    by (auto simp: fan_in_step_def script_step_def from_step_def ended_def)
qed

text \<open>
  A step that starts was let start. Every input port, and no other, carries one envelope; and outside
  \<open>merge: first\<close> every upstream step has ended with a verdict its \<open>when\<close> admits, and no edge was
  abandoned.
\<close>

theorem barrier_starts_only_when_admitted:
  assumes "barrier name st edges steps fed run l at = Inr (GateStart arrived)"
  shows "fst ` set (ar_Inputs arrived) = e_As ` set edges \<union> fst ` set fed \<and>
     (st_Merge st \<noteq> MergeFirst \<longrightarrow>
        ar_Abandoned arrived = [] \<and>
        (\<forall>e \<in> set edges. e_Step e \<noteq> [] \<longrightarrow>
           (\<exists>up. map_of steps (e_Step e) = Some up \<and> verdict_Terminal (ss_Verdict up) \<and>
              admits (whenOf st) (ss_Verdict up))))"
proof -
  have "set (inbound_names edges fed) = e_As ` set edges \<union> fst ` set fed"
    using inbound_names_iff by blast
  then show ?thesis using barrier_start(1,3)[OF assms] by blast
qed

definition fan_in_arrival :: arrival where
  "fan_in_arrival = \<lparr>ar_Inputs = [(''in'', concat_envelopes [sample_envelope, sample_envelope])],
     ar_Unmatched = [], ar_Abandoned = []\<rparr>"

lemma fan_in_starts:
  "barrier ''c'' fan_in_step (st_Needs fan_in_step) fan_in_states [] ''r'' no_limits 1 = Inr (GateStart fan_in_arrival)"
  by code_simp

theorem barrier_starts_only_when_admitted_witness:
  "barrier ''c'' fan_in_step (st_Needs fan_in_step) fan_in_states [] ''r'' no_limits 1 = Inr (GateStart fan_in_arrival) \<and>
   fst ` set (ar_Inputs fan_in_arrival) = {''in''}"
  using fan_in_starts barrier_starts_only_when_admitted[OF fan_in_starts]
  by (simp add: fan_in_step_def script_step_def from_step_def)

end
