(* ===== verification/Fan_Out.thy ===== *)
theory Fan_Out
  imports Verdicts
begin

text \<open>
  Package \<open>graph\<close>, \<open>fanout.go\<close>: how a step is divided into shards, how many of them may be started,
  and which siblings a failed one stops.
\<close>

record work =
  wk_Shard :: shard
  wk_Inputs :: ports
  wk_Item :: "item option"
  wk_Matrix :: "(string, json) gomap"

definition whole :: "ports \<Rightarrow> work" where
  "whole inputs = \<lparr>wk_Shard = no_shard, wk_Inputs = inputs, wk_Item = None, wk_Matrix = []\<rparr>"

definition fanOutOf :: "step \<Rightarrow> fan_out" where
  "fanOutOf st = (if sg_Matrix (st_Strategy st) \<noteq> [] then FanOutMatrix else sg_FanOut (st_Strategy st))"

definition emptyLike :: "envelope \<Rightarrow> envelope" where
  "emptyLike e = \<lparr>en_Meta = (en_Meta e)\<lparr>m_Count := 0\<rparr>, en_Items = []\<rparr>"

definition port_in :: "ports \<Rightarrow> string \<Rightarrow> envelope" where
  "port_in inputs port = (case map_of inputs port of None \<Rightarrow> Empty [] [] [] 0 0 | Some e \<Rightarrow> e)"

definition shard_input :: "ports \<Rightarrow> (string \<Rightarrow> envelope list) \<Rightarrow> nat \<Rightarrow> string \<Rightarrow> envelope" where
  "shard_input inputs pieces i port =
     (if i < length (pieces port) then pieces port ! i else emptyLike (port_in inputs port))"

definition first_item :: "ports \<Rightarrow> string list \<Rightarrow> item option" where
  "first_item inputs names =
     (case filter (\<lambda>port. en_Items (port_in inputs port) \<noteq> []) names of
        [] \<Rightarrow> None | port # _ \<Rightarrow> Some (hd (en_Items (port_in inputs port))))"

definition split_work :: "step \<Rightarrow> ports \<Rightarrow> string list \<Rightarrow> (string \<Rightarrow> envelope list) \<Rightarrow> nat \<Rightarrow> nat \<Rightarrow> work" where
  "split_work st inputs names pieces of_all i =
     (let ins = map (\<lambda>port. (port, shard_input inputs pieces i port)) names in
      \<lparr>wk_Shard = \<lparr>sh_Index = int i + 1, sh_Of = int of_all\<rparr>, wk_Inputs = ins,
       wk_Item = (if fanOutOf st = FanOutItem then first_item ins names else None), wk_Matrix = []\<rparr>)"

definition cut_port :: "string \<Rightarrow> ports \<Rightarrow> int \<Rightarrow> string \<Rightarrow> (graph_error, string \<times> envelope list) result" where
  "cut_port name inputs n port =
     (case Split (port_in inputs port) n of
        Inl k \<Rightarrow> Inl (SplitSize name port k)
      | Inr parts \<Rightarrow> Inr (port, parts))"

definition splitShards :: "string \<Rightarrow> step \<Rightarrow> ports \<Rightarrow> int \<Rightarrow> (graph_error, work list) result" where
  "splitShards name st inputs n =
     (if inputs = [] then Inr [whole inputs]
      else let names = sorted_keys inputs in
           rbind (rall (cut_port name inputs n) names) (\<lambda>cuts.
           let pieces = get cuts; of_all = foldl (\<lambda>c port. max c (length (pieces port))) 0 names in
           Inr (map (split_work st inputs names pieces of_all) [0..<of_all])))"

primrec combination :: "(string, json list) gomap \<Rightarrow> string list \<Rightarrow> nat \<Rightarrow> (string, json) gomap" where
  "combination matrix [] rest = []"
| "combination matrix (key # keys) rest =
     (let values = get matrix key in
      AList.update key (values ! (rest mod length values)) (combination matrix keys (rest div length values)))"

definition matrixShards :: "string \<Rightarrow> step \<Rightarrow> ports \<Rightarrow> (graph_error, work list) result" where
  "matrixShards name st inputs =
     (let matrix = sg_Matrix (st_Strategy st); names = sorted_keys matrix in
      case find (\<lambda>key. get matrix key = []) names of
        Some key \<Rightarrow> Inl (MatrixVariableEmpty name key)
      | None \<Rightarrow>
          (let of_all = foldl (\<lambda>c key. c * length (get matrix key)) 1 names in
           Inr (map (\<lambda>i. \<lparr>wk_Shard = \<lparr>sh_Index = int i + 1, sh_Of = int of_all\<rparr>, wk_Inputs = inputs,
                          wk_Item = None, wk_Matrix = combination matrix (rev names) i\<rparr>) [0..<of_all])))"

definition fanOut :: "string \<Rightarrow> step \<Rightarrow> ports \<Rightarrow> (graph_error, work list) result" where
  "fanOut name st inputs =
     (case fanOutOf st of
        FanOutMatrix \<Rightarrow> matrixShards name st inputs
      | FanOutItem \<Rightarrow> splitShards name st inputs 1
      | FanOutBatch \<Rightarrow>
          if sg_Batch (st_Strategy st) < 1 then Inl (BatchSize name (sg_Batch (st_Strategy st)))
          else splitShards name st inputs (sg_Batch (st_Strategy st))
      | FanOutNone \<Rightarrow> Inr [whole inputs])"

section \<open>What runs at once\<close>

definition holdsARunner :: "shard_state \<Rightarrow> bool" where
  "holdsARunner sh = (sd_Task sh \<noteq> TaskPending \<and> \<not> task_Terminal (sd_Task sh))"

definition inFlight :: "step_state \<Rightarrow> int" where
  "inFlight ss = int (length (filter holdsARunner (ss_Shards ss)))"

definition slotsFree :: "step \<Rightarrow> step_state \<Rightarrow> int" where
  "slotsFree st ss =
     (let ceiling = sg_MaxParallel (st_Strategy st) in
      if ceiling < 1 then max_int64 else max (ceiling - inFlight ss) 0)"

definition failFast :: "step \<Rightarrow> bool" where
  "failFast st = sg_FailFast (st_Strategy st)"

definition siblingsLeft :: "step_state \<Rightarrow> shard \<Rightarrow> nat list" where
  "siblingsLeft ss failed =
     filter (\<lambda>i. \<not> (sd_Shard (ss_Shards ss ! i) = failed \<or> task_Terminal (sd_Task (ss_Shards ss ! i))))
       [0..<length (ss_Shards ss)]"

section \<open>The shards of a split\<close>

lemma foldl_max_ge:
  "(c::nat) \<le> foldl (\<lambda>c x. max c (f x)) c xs" "x \<in> set xs \<Longrightarrow> f x \<le> foldl (\<lambda>c x. max c (f x)) c xs"
proof (induction xs arbitrary: c)
  case (Cons y xs)
  {
    case 1
    show ?case using Cons(1)[of "max c (f y)"] by simp
  next
    case 2
    then show ?case using Cons(1)[of "max c (f y)"] Cons(2)[of "max c (f y)"] by auto
  }
qed auto

lemma cut_ports_Inr:
  assumes "1 \<le> n"
  shows "rall (cut_port name inputs n) names =
    Inr (map (\<lambda>port. (port, map (piece (en_Meta (port_in inputs port))) (chunks (nat n) (en_Items (port_in inputs port))))) names)"
  using assms by (intro rall_Inr_map) (simp add: cut_port_def Split_def)

lemma get_map_pairs: "get (map (\<lambda>k. (k, f k)) ks) k = (if k \<in> set ks then f k else [])"
  by (induction ks) (auto simp: get_def)

lemma map_of_map_pairs: "map_of (map (\<lambda>k. (k, f k)) ks) k = (if k \<in> set ks then Some (f k) else None)"
  by (induction ks) auto

abbreviation port_pieces :: "ports \<Rightarrow> int \<Rightarrow> string \<Rightarrow> envelope list" where
  "port_pieces inputs n port \<equiv>
     map (piece (en_Meta (port_in inputs port))) (chunks (nat n) (en_Items (port_in inputs port)))"

definition split_count :: "ports \<Rightarrow> int \<Rightarrow> nat" where
  "split_count inputs n = foldl (\<lambda>c port. max c (length (port_pieces inputs n port))) 0 (sorted_keys inputs)"

lemma splitShards_eq:
  assumes "1 \<le> n" "inputs \<noteq> []"
  shows "splitShards name st inputs n =
    Inr (map (split_work st inputs (sorted_keys inputs)
      (\<lambda>port. if port \<in> set (sorted_keys inputs) then port_pieces inputs n port else []) (split_count inputs n))
      [0..<split_count inputs n])"
proof -
  have "foldl (\<lambda>c port. max c (length (if port \<in> set (sorted_keys inputs) then port_pieces inputs n port else []))) 0 (sorted_keys inputs)
      = split_count inputs n"
    unfolding split_count_def by (rule foldl_cong) auto
  then show ?thesis
    using assms by (simp add: splitShards_def cut_ports_Inr get_map_pairs[abs_def] Let_def)
qed

lemma map_nth_pad:
  "length xs \<le> n \<Longrightarrow> map (\<lambda>i. if i < length xs then xs ! i else y) [0..<n] = xs @ replicate (n - length xs) y"
  by (rule nth_equalityI) (auto simp: nth_append)

lemma items_emptyLike [simp]: "en_Items (emptyLike e) = []"
  by (simp add: emptyLike_def)

lemma items_piece [simp]: "en_Items (piece m c) = c"
  by (simp add: piece_def)

lemma map_split_work_inputs:
  assumes "port \<in> set names"
  shows "map_of (wk_Inputs (split_work st inputs names pieces of_all i)) port = Some (shard_input inputs pieces i port)"
  using assms by (simp add: split_work_def map_of_map_pairs Let_def)

lemma split_keeps_items:
  assumes "1 \<le> n" "splitShards name st inputs n = Inr shards" "map_of inputs port = Some e"
  shows "concat (map (\<lambda>w. en_Items (port_in (wk_Inputs w) port)) shards) = en_Items e"
proof -
  have ne: "inputs \<noteq> []" and key: "port \<in> set (sorted_keys inputs)" and e: "port_in inputs port = e"
    using assms(3) map_of_SomeD[OF assms(3)] by (force simp: port_in_def set_sorted_keys)+
  let ?names = "sorted_keys inputs"
  let ?pieces = "\<lambda>port. if port \<in> set ?names then port_pieces inputs n port else []"
  let ?of_all = "split_count inputs n"
  have shards: "shards = map (split_work st inputs ?names ?pieces ?of_all) [0..<?of_all]"
    using assms(2) splitShards_eq[OF assms(1) ne] by simp
  have len: "length (port_pieces inputs n port) \<le> ?of_all"
    unfolding split_count_def by (rule foldl_max_ge(2)[OF key])
  have "map (\<lambda>w. port_in (wk_Inputs w) port) shards =
      map (\<lambda>i. if i < length (port_pieces inputs n port) then port_pieces inputs n port ! i else emptyLike e) [0..<?of_all]"
    using key e by (simp add: shards port_in_def map_split_work_inputs shard_input_def)
  also have "\<dots> = port_pieces inputs n port @ replicate (?of_all - length (port_pieces inputs n port)) (emptyLike e)"
    by (rule map_nth_pad[OF len])
  finally have "map (\<lambda>w. en_Items (port_in (wk_Inputs w) port)) shards =
      map en_Items (port_pieces inputs n port @ replicate (?of_all - length (port_pieces inputs n port)) (emptyLike e))"
    by (metis (no_types, lifting) comp_def map_map map_eq_conv)
  then show ?thesis
    using assms(1) by (simp add: e comp_def concat_chunks concat_replicate_trivial)
qed

lemma split_shard_identities:
  assumes "1 \<le> n" "inputs \<noteq> []" "splitShards name st inputs n = Inr shards"
  shows "map wk_Shard shards = map (\<lambda>i. \<lparr>sh_Index = int i + 1, sh_Of = int (length shards)\<rparr>) [0..<length shards]"
  using assms(3) splitShards_eq[OF assms(1,2)] by (auto simp: split_work_def Let_def comp_def)

lemma split_bounds:
  assumes "1 \<le> n" "splitShards name st inputs n = Inr shards" "map_of inputs port = Some e" "w \<in> set shards"
  shows "int (length (en_Items (port_in (wk_Inputs w) port))) \<le> n"
proof -
  have ne: "inputs \<noteq> []" and key: "port \<in> set (sorted_keys inputs)"
    using assms(3) map_of_SomeD[OF assms(3)] by (force simp: set_sorted_keys)+
  let ?pieces = "\<lambda>port. if port \<in> set (sorted_keys inputs) then port_pieces inputs n port else []"
  obtain i where w: "w = split_work st inputs (sorted_keys inputs) ?pieces (split_count inputs n) i"
    using assms(2,4) splitShards_eq[OF assms(1) ne] by auto
  have "length c \<le> nat n" if "c \<in> set (chunks (nat n) (en_Items (port_in inputs port)))" for c
    using chunks_bounds[OF that] by simp
  then have "length (en_Items (shard_input inputs ?pieces i port)) \<le> nat n"
    using key by (simp add: shard_input_def nth_mem)
  then show ?thesis
    using key assms(1) by (simp add: w port_in_def map_split_work_inputs)
qed

section \<open>The shards of a matrix\<close>

lemma concat_map_concat: "concat (map (\<lambda>x. concat (f x)) xs) = concat (concat (map f xs))"
  by (induction xs) auto

lemma product_lists_snoc:
  "product_lists (xss @ [xs]) = concat (map (\<lambda>ys. map (\<lambda>x. ys @ [x]) xs) (product_lists xss))"
  by (induction xss) (simp_all add: map_concat comp_def concat_map_concat)

lemma map_upt_mult:
  "map f [0..<n * m] = concat (map (\<lambda>a. map (\<lambda>b. f (a * m + b)) [0..<m]) [0..<n])"
proof (induction n)
  case (Suc n)
  have "[0..<Suc n * m] = [0..<n * m] @ [n * m..<n * m + m]"
    using upt_add_eq_append[of 0 "n * m" m] by (simp add: add.commute)
  moreover have "map f [n * m..<n * m + m] = map (\<lambda>b. f (n * m + b)) [0..<m]"
    by (rule nth_equalityI) auto
  ultimately show ?case using Suc by simp
qed simp

definition chosen :: "(string, json list) gomap \<Rightarrow> string list \<Rightarrow> nat \<Rightarrow> json list" where
  "chosen matrix keys i = map (\<lambda>k. the (map_of (combination matrix (rev keys) i) k)) keys"

lemma chosen_snoc:
  "k \<notin> set ks \<Longrightarrow> chosen matrix (ks @ [k]) i =
     chosen matrix ks (i div length (get matrix k)) @ [get matrix k ! (i mod length (get matrix k))]"
  by (simp add: chosen_def Let_def)

lemma foldl_prod_snoc:
  "foldl (\<lambda>c key. c * f key) (1::nat) (ks @ [k]) = foldl (\<lambda>c key. c * f key) 1 ks * f k"
  by simp

lemma chosen_product:
  assumes "distinct ks" "\<And>k. k \<in> set ks \<Longrightarrow> get matrix k \<noteq> []"
  shows "map (chosen matrix ks) [0..<foldl (\<lambda>c key. c * length (get matrix key)) 1 ks] =
    product_lists (map (get matrix) ks)"
  using assms
proof (induction ks rule: rev_induct)
  case Nil
  then show ?case by (simp add: chosen_def)
next
  case (snoc k ks)
  let ?m = "length (get matrix k)" and ?n = "foldl (\<lambda>c key. c * length (get matrix key)) 1 ks"
  have m: "?m > 0" using snoc.prems(2) by simp
  have one: "chosen matrix (ks @ [k]) (a * ?m + b) = chosen matrix ks a @ [get matrix k ! b]" if "b < ?m" for a b
    using snoc.prems(1) that m by (simp add: chosen_snoc)
  have "map (chosen matrix (ks @ [k])) [0..<?n * ?m] =
      concat (map (\<lambda>a. map (\<lambda>b. chosen matrix (ks @ [k]) (a * ?m + b)) [0..<?m]) [0..<?n])"
    by (rule map_upt_mult)
  also have "\<dots> = concat (map (\<lambda>a. map (\<lambda>b. chosen matrix ks a @ [get matrix k ! b]) [0..<?m]) [0..<?n])"
    by (intro arg_cong[where f = concat] map_cong refl) (simp add: one)
  also have "\<dots> = concat (map (\<lambda>ys. map (\<lambda>b. ys @ [get matrix k ! b]) [0..<?m]) (map (chosen matrix ks) [0..<?n]))"
    by (simp add: comp_def)
  also have "map (chosen matrix ks) [0..<?n] = product_lists (map (get matrix) ks)"
    using snoc.prems by (intro snoc.IH) auto
  also have "(\<lambda>ys. map (\<lambda>b. ys @ [get matrix k ! b]) [0..<?m]) = (\<lambda>ys. map (\<lambda>x. ys @ [x]) (get matrix k))"
    by (rule ext, rule nth_equalityI) simp_all
  finally show ?case by (simp add: product_lists_snoc del: product_lists.simps)
qed

section \<open>Properties\<close>

definition sample_ports :: ports where
  "sample_ports = [(''in'', sample_envelope), (''aux'', emptyLike sample_envelope)]"

definition batch_step :: "fan_out \<Rightarrow> int \<Rightarrow> (string, json list) gomap \<Rightarrow> step" where
  "batch_step f n m = (script_step [])\<lparr>st_Strategy :=
     \<lparr>sg_FanOut = f, sg_Batch = n, sg_MaxParallel = 0, sg_Matrix = m, sg_FailFast = False\<rparr>\<rparr>"

text \<open>
  A fan-out by item or by batch neither loses, repeats nor reorders an item. Read in order, the
  shards carry on each port exactly the items that arrived on it, no shard carries more than the batch
  size, and the shards are numbered one to their number.
\<close>

theorem fan_out_conserves_items:
  assumes "fanOut name st inputs = Inr shards"
    and "fanOutOf st = FanOutItem \<and> n = 1 \<or> fanOutOf st = FanOutBatch \<and> n = sg_Batch (st_Strategy st)"
    and "map_of inputs port = Some e"
  shows "concat (map (\<lambda>w. en_Items (port_in (wk_Inputs w) port)) shards) = en_Items e \<and>
     (\<forall>w \<in> set shards. int (length (en_Items (port_in (wk_Inputs w) port))) \<le> n) \<and>
     map wk_Shard shards = map (\<lambda>i. \<lparr>sh_Index = int i + 1, sh_Of = int (length shards)\<rparr>) [0..<length shards]"
proof -
  have n: "1 \<le> n" and s: "splitShards name st inputs n = Inr shards"
    using assms(1,2) by (auto simp: fanOut_def split: if_splits)
  have "inputs \<noteq> []" using assms(3) by auto
  then show ?thesis
    using split_keeps_items[OF n s assms(3)] split_bounds[OF n s assms(3)] split_shard_identities[OF n _ s]
    by blast
qed

lemma sample_fan_out: "\<not> isl (fanOut ''x'' (batch_step FanOutBatch 2 []) sample_ports)"
  by code_simp

theorem fan_out_conserves_items_witness:
  "\<exists>shards. fanOut ''x'' (batch_step FanOutBatch 2 []) sample_ports = Inr shards \<and>
     concat (map (\<lambda>w. en_Items (port_in (wk_Inputs w) ''in'')) shards) = en_Items sample_envelope"
proof -
  obtain shards where s: "fanOut ''x'' (batch_step FanOutBatch 2 []) sample_ports = Inr shards"
    using not_isl_Inr[OF sample_fan_out] by blast
  have "fanOutOf (batch_step FanOutBatch 2 []) = FanOutBatch" "sg_Batch (st_Strategy (batch_step FanOutBatch 2 [])) = 2"
    by (simp_all add: fanOutOf_def batch_step_def)
  then have "concat (map (\<lambda>w. en_Items (port_in (wk_Inputs w) ''in'')) shards) = en_Items sample_envelope"
    using fan_out_conserves_items[OF s, of 2 "''in''" sample_envelope] by (simp add: sample_ports_def)
  with s show ?thesis by blast
qed

text \<open>
  A matrix fan-out is the cartesian product of the variable lists. Reading each shard's combination
  in variable name order lists the product, each combination once and the last variable moving fastest,
  and every shard receives the whole of every input port.
\<close>

theorem matrix_is_cartesian_product:
  assumes "fanOut name st inputs = Inr shards" "sg_Matrix (st_Strategy st) \<noteq> []"
  shows "map (\<lambda>w. map (\<lambda>k. the (map_of (wk_Matrix w) k)) (sorted_keys (sg_Matrix (st_Strategy st)))) shards =
      product_lists (map (get (sg_Matrix (st_Strategy st))) (sorted_keys (sg_Matrix (st_Strategy st)))) \<and>
    (\<forall>w \<in> set shards. wk_Inputs w = inputs) \<and>
    map wk_Shard shards = map (\<lambda>i. \<lparr>sh_Index = int i + 1, sh_Of = int (length shards)\<rparr>) [0..<length shards]"
proof -
  let ?m = "sg_Matrix (st_Strategy st)"
  let ?n = "foldl (\<lambda>c key. c * length (get ?m key)) 1 (sorted_keys ?m)"
  have "matrixShards name st inputs = Inr shards"
    using assms by (simp add: fanOut_def fanOutOf_def)
  then have ne: "\<And>k. k \<in> set (sorted_keys ?m) \<Longrightarrow> get ?m k \<noteq> []"
    and shards: "shards = map (\<lambda>i. \<lparr>wk_Shard = \<lparr>sh_Index = int i + 1, sh_Of = int ?n\<rparr>, wk_Inputs = inputs,
        wk_Item = None, wk_Matrix = combination ?m (rev (sorted_keys ?m)) i\<rparr>) [0..<?n]"
    by (auto simp: matrixShards_def Let_def find_None_iff split: option.splits)
  have "map (\<lambda>w. map (\<lambda>k. the (map_of (wk_Matrix w) k)) (sorted_keys ?m)) shards = map (chosen ?m (sorted_keys ?m)) [0..<?n]"
    by (simp add: shards chosen_def comp_def)
  also have "\<dots> = product_lists (map (get ?m) (sorted_keys ?m))"
    by (rule chosen_product[OF distinct_sorted_keys ne])
  finally show ?thesis by (simp add: shards comp_def)
qed

definition sample_matrix :: "(string, json list) gomap" where
  "sample_matrix = [(''region'', [JStr ''eu'', JStr ''us'']), (''arch'', [JStr ''arm''])]"

theorem matrix_is_cartesian_product_witness:
  "\<exists>shards. fanOut ''x'' (batch_step FanOutNone 0 sample_matrix) [] = Inr shards \<and>
     map (\<lambda>w. map (\<lambda>k. the (map_of (wk_Matrix w) k)) [''arch'', ''region'']) shards =
       [[JStr ''arm'', JStr ''eu''], [JStr ''arm'', JStr ''us'']]"
proof -
  have keys: "sorted_keys sample_matrix = [''arch'', ''region'']" by code_simp
  have m: "sg_Matrix (st_Strategy (batch_step FanOutNone 0 sample_matrix)) = sample_matrix"
    by (simp add: batch_step_def)
  have "\<not> isl (fanOut ''x'' (batch_step FanOutNone 0 sample_matrix) [])" by code_simp
  then obtain shards where s: "fanOut ''x'' (batch_step FanOutNone 0 sample_matrix) [] = Inr shards"
    using not_isl_Inr by blast
  have "product_lists (map (get sample_matrix) [''arch'', ''region'']) = [[JStr ''arm'', JStr ''eu''], [JStr ''arm'', JStr ''us'']]"
    by code_simp
  with matrix_is_cartesian_product[OF s] s show ?thesis
    unfolding m keys by (auto simp: sample_matrix_def)
qed

end
