(* ===== verification/Retries.thy ===== *)
theory Retries
  imports Verdicts
begin

text \<open>
  Package \<open>graph\<close>, \<open>retry.go\<close>: whether a lost task is requeued, whether a failed shard gets another
  attempt, and how long it waits. A duration is a signed 64-bit number of nanoseconds.
\<close>

definition DefaultMaxRequeues :: int where "DefaultMaxRequeues = 3"

definition retryAllows :: "retry \<Rightarrow> failure \<Rightarrow> bool" where
  "retryAllows r f = (if rt_On r = [] then f = FailureTransient else f \<in> set (rt_On r))"

definition retryAttempts :: "retry \<Rightarrow> int" where
  "retryAttempts r = (if rt_Max r < 0 then 1 else wrap64 (1 + rt_Max r))"

text \<open>The loop of \<open>backoffWait\<close>, with the number of doublings that are left.\<close>

primrec grow :: "duration \<Rightarrow> nat \<Rightarrow> duration \<Rightarrow> duration" where
  "grow ceiling 0 wait = (if ceiling > 0 \<and> wait > ceiling then ceiling else wait)"
| "grow ceiling (Suc n) wait =
     (if ceiling > 0 \<and> wait \<ge> ceiling then ceiling
      else if wait > max_int64 div 2 then max_int64
      else grow ceiling n (wrap64 (wait * 2)))"

definition backoffWait :: "backoff \<Rightarrow> int \<Rightarrow> duration" where
  "backoffWait b further =
     (if bo_Base b \<le> 0 \<or> further < 1 then 0 else grow (bo_Max b) (nat (further - 1)) (bo_Base b))"

definition requeueable :: "retry \<Rightarrow> bool \<Rightarrow> shard_state \<Rightarrow> bool" where
  "requeueable r idempotent sh =
     (if sd_Task sh \<noteq> TaskLost \<or> \<not> idempotent then False else retryAllows r FailureLost)"

definition requeued :: "retry \<Rightarrow> bool \<Rightarrow> shard_state \<Rightarrow> int \<Rightarrow> bool" where
  "requeued r idempotent sh most = (requeueable r idempotent sh \<and> sd_Requeue sh < most)"

text \<open>\<open>None\<close> is no further attempt; \<open>Some 0\<close> is an attempt that is due now.\<close>

definition nextAttempt :: "retry \<Rightarrow> shard_state \<Rightarrow> time option" where
  "nextAttempt r sh =
     (case failureOf (sd_Task sh) (sd_ExitCode sh) of
        None \<Rightarrow> None
      | Some f \<Rightarrow>
          if f = FailureLost then None
          else if \<not> retryAllows r f then None
          else if sd_Attempt sh \<ge> retryAttempts r then None
          else let wait = backoffWait (rt_Backoff r) (sd_Attempt sh) in
               if wait \<le> 0 \<or> sd_FinishedAt sh = zero_time then Some zero_time
               else Some (sd_FinishedAt sh + wait))"

section \<open>The wait\<close>

lemma grow_unbounded:
  "0 < w \<Longrightarrow> w \<le> max_int64 \<Longrightarrow> grow 0 n w = min max_int64 (w * 2 ^ n)"
proof (induction n arbitrary: w)
  case (Suc n)
  show ?case
  proof (cases "w > max_int64 div 2")
    case True
    then have "max_int64 < w * 2" by (simp add: max_int64_def)
    also have "w * 2 \<le> w * 2 ^ Suc n" using Suc.prems(1) by simp
    finally show ?thesis using True by simp
  next
    case False
    then have "wrap64 (w * 2) = w * 2" "w * 2 \<le> max_int64"
      using Suc.prems by (auto intro!: wrap64_id simp: max_int64_def)
    with False Suc show ?thesis by (simp add: mult.assoc)
  qed
qed simp

lemma grow_bounded:
  "0 < w \<Longrightarrow> w \<le> max_int64 \<Longrightarrow> 0 < c \<Longrightarrow> c \<le> max_int64 div 2 + 1 \<Longrightarrow> grow c n w = min c (w * 2 ^ n)"
proof (induction n arbitrary: w)
  case (Suc n)
  show ?case
  proof (cases "w \<ge> c")
    case True
    have "(1::int) \<le> 2 ^ Suc n" by (rule one_le_power) simp
    then have "w * 1 \<le> w * 2 ^ Suc n" using Suc.prems(1) by (intro mult_left_mono) linarith+
    then have "c \<le> w * 2 ^ Suc n" using True by linarith
    then show ?thesis using True Suc.prems by (simp only: grow.simps) (simp add: min_def)
  next
    case False
    then have w: "wrap64 (w * 2) = w * 2" "w * 2 \<le> max_int64" "\<not> w > max_int64 div 2"
      using Suc.prems by (auto intro!: wrap64_id simp: max_int64_def)
    with False Suc show ?thesis by (simp add: mult.assoc)
  qed
qed simp

lemma backoffWait_eq:
  assumes "0 < bo_Base b" "bo_Base b \<le> max_int64" "1 \<le> n"
  shows "bo_Max b = 0 \<Longrightarrow> backoffWait b n = min max_int64 (bo_Base b * 2 ^ nat (n - 1))"
    and "0 < bo_Max b \<Longrightarrow> bo_Max b \<le> max_int64 div 2 + 1 \<Longrightarrow>
         backoffWait b n = min (bo_Max b) (bo_Base b * 2 ^ nat (n - 1))"
  using assms by (simp_all add: backoffWait_def grow_unbounded grow_bounded)

lemma grow_pos: "0 < w \<Longrightarrow> w \<le> max_int64 \<Longrightarrow> 0 < grow c n w"
proof (induction n arbitrary: w)
  case (Suc n)
  show ?case
  proof (cases "w > max_int64 div 2")
    case True
    then show ?thesis using Suc.prems by (simp add: max_int64_def)
  next
    case False
    then have "wrap64 (w * 2) = w * 2" "w * 2 \<le> max_int64"
      using Suc.prems by (auto intro!: wrap64_id simp: max_int64_def)
    with False Suc show ?thesis by simp
  qed
qed simp

section \<open>The policy\<close>

lemma retryAttempts_ge_1: "rt_Max r < max_int64 \<Longrightarrow> 1 \<le> retryAttempts r"
  by (simp add: retryAttempts_def wrap64_id max_int64_def)

lemma nextAttempt_Some:
  assumes "nextAttempt r sh = Some when"
  shows "sd_Attempt sh < retryAttempts r"
    and "\<exists>f. failureOf (sd_Task sh) (sd_ExitCode sh) = Some f \<and> f \<noteq> FailureLost \<and> retryAllows r f"
    and "sd_FinishedAt sh \<noteq> 0 \<Longrightarrow> when = 0 \<or> sd_FinishedAt sh < when"
  using assms by (auto simp: nextAttempt_def Let_def split: option.splits if_splits)

lemma requeued_lost: "requeued r i sh most \<Longrightarrow> sd_Task sh = TaskLost \<and> i \<and> sd_Requeue sh < most"
  by (auto simp: requeued_def requeueable_def split: if_splits)

section \<open>Properties\<close>

text \<open>
  The wait before the \<open>n\<close>-th further attempt is the base doubled \<open>n - 1\<close> times, held to the ceiling
  the policy writes, or to the longest duration there is where it writes none, wherever the ceiling is
  at most half of that: no product wraps round, however many attempts there are.
\<close>

theorem backoff_is_exponential:
  assumes "0 < bo_Base b" "bo_Base b \<le> max_int64" "1 \<le> n" "0 \<le> bo_Max b" "bo_Max b \<le> max_int64 div 2 + 1"
  shows "backoffWait b n = min (if bo_Max b = 0 then max_int64 else bo_Max b) (bo_Base b * 2 ^ nat (n - 1))"
  using backoffWait_eq[OF assms(1-3)] assms(4,5) by auto

theorem backoff_is_exponential_witness:
  "backoffWait \<lparr>bo_Base = 2000000000, bo_Max = 30000000000\<rparr> 3 = 8000000000 \<and>
   backoffWait \<lparr>bo_Base = 2000000000, bo_Max = 30000000000\<rparr> 9 = 30000000000 \<and>
   backoffWait \<lparr>bo_Base = 2000000000, bo_Max = 0\<rparr> 100 = max_int64"
  using backoff_is_exponential[of "\<lparr>bo_Base = 2000000000, bo_Max = 30000000000\<rparr>" 3]
    backoff_is_exponential[of "\<lparr>bo_Base = 2000000000, bo_Max = 30000000000\<rparr>" 9]
    backoff_is_exponential[of "\<lparr>bo_Base = 2000000000, bo_Max = 0\<rparr>" 100]
  by (simp add: max_int64_def)

text \<open>
  Past half of the longest duration the ceiling does not hold. A policy whose base and ceiling are
  both that long waits the longest duration there is, which is past the ceiling it writes.
\<close>

theorem backoff_past_its_ceiling:
  "\<exists>b. 0 < bo_Base b \<and> bo_Base b < bo_Max b \<and> bo_Max b < backoffWait b 2"
  by (rule exI[of _ "\<lparr>bo_Base = 5184000000000000000, bo_Max = 8640000000000000000\<rparr>"])
    (simp add: backoffWait_def max_int64_def)

text \<open>
  Another attempt is granted exactly when the three questions agree: the exit code table names the
  failure and it is not a loss, the policy allows it, and there is an attempt left; so a success, a code
  the table calls permanent, a cancellation and a loss never get one.
\<close>

theorem retry_granted_iff:
  "(\<exists>when. nextAttempt r sh = Some when) \<longleftrightarrow>
     (\<exists>f. failureOf (sd_Task sh) (sd_ExitCode sh) = Some f \<and> f \<noteq> FailureLost \<and> retryAllows r f) \<and>
     sd_Attempt sh < retryAttempts r"
  by (auto simp: nextAttempt_def Let_def split: option.splits if_splits)

end
