(* ===== verification/Evaluator.thy ===== *)
theory Evaluator
  imports Barrier Fan_Out Retries
begin

text \<open>
  Package \<open>graph\<close>, \<open>evaluator.go\<close>: a run as a state a plan comes out of and a result goes back into.
  \<open>Next\<close> advances every step, names the tasks to hand out and the tasks to stop; \<open>Record\<close> takes back
  what became of one; \<open>Cancel\<close> ends the run. An operation that can fail after it has changed the state
  answers the state beside the error.

  What the package calls and does not hold is the argument \<open>lib\<close>: evaluating an expression of the
  workflow (CEL), validating a value against a JSON Schema, and SHA-256. An expression that resolves to
  a secret answers the reference to it.
\<close>

section \<open>What an expression reads\<close>

datatype scope = ScopeStep | ScopeParams | ScopeShardParams

record port_meta =
  pm_Count :: int
  pm_Empty :: bool
  pm_Bytes :: int

record step_meta =
  stm_Status :: string
  stm_Outputs :: "(string, port_meta) gomap"

record expr_context =
  cx_Name :: string
  cx_Namespace :: string
  cx_Version :: string
  cx_WorkflowInputs :: "(string, json) gomap"
  cx_RunID :: string
  cx_StartedAt :: time
  cx_TriggerKind :: string
  cx_TriggeredBy :: string
  cx_Trigger :: "(string, json) gomap"
  cx_Event :: "(string, json) gomap"
  cx_Vars :: "(string, json) gomap"
  cx_Inputs :: "(string, port_meta) gomap"
  cx_Steps :: "(string, step_meta) gomap"
  cx_Secrets :: "string list"
  cx_Matrix :: "(string, json) gomap"
  cx_Item :: "json option"

record library =
  lib_evaluate :: "scope \<Rightarrow> expr_context \<Rightarrow> string \<Rightarrow> (string, json) result"
  lib_schema :: schema_validator
  lib_sha256 :: "string \<Rightarrow> string"

record evaluator =
  ev_graph :: graph
  ev_limits :: limits
  ev_maxRequeues :: int
  ev_maxRunDuration :: duration

definition metaOf :: "envelope \<Rightarrow> port_meta" where
  "metaOf e = \<lparr>pm_Count = m_Count (en_Meta e), pm_Empty = (m_Count (en_Meta e) = 0),
     pm_Bytes = (case sizeOf e of None \<Rightarrow> 0 | Some n \<Rightarrow> n)\<rparr>"

definition portsMeta :: "ports \<Rightarrow> (string, port_meta) gomap" where
  "portsMeta inputs = map (\<lambda>(port, e). (port, metaOf e)) (entries inputs)"

definition stepsMeta :: "state \<Rightarrow> (string, step_meta) gomap" where
  "stepsMeta s = map (\<lambda>(name, ss). (name, \<lparr>stm_Status = spell verdicts (ss_Verdict ss),
     stm_Outputs = portsMeta (ss_Ports ss)\<rparr>)) (entries (s_Steps s))"

definition itemValue :: "item \<Rightarrow> json" where
  "itemValue it = JObj [(''id'', JStr (it_ID it)), (''data'', JObj (it_Data it)), (''files'', filesValue (it_Files it))]"

definition context_of :: "evaluator \<Rightarrow> state \<Rightarrow> ports \<Rightarrow> work option \<Rightarrow> expr_context" where
  "context_of e s inputs sh =
     (let w = g_wf (ev_graph e); r = s_Run s in
      \<lparr>cx_Name = wf_Name w, cx_Namespace = wf_Namespace w, cx_Version = r_Commit r, cx_WorkflowInputs = s_Inputs s,
       cx_RunID = r_ID r, cx_StartedAt = r_StartedAt r, cx_TriggerKind = spell triggerKinds (r_Trigger r),
       cx_TriggeredBy = r_TriggeredBy r, cx_Trigger = s_Trigger s, cx_Event = s_Event s, cx_Vars = s_Vars s,
       cx_Inputs = portsMeta inputs, cx_Steps = stepsMeta s, cx_Secrets = wf_Secrets w,
       cx_Matrix = (case sh of None \<Rightarrow> [] | Some d \<Rightarrow> wk_Matrix d),
       cx_Item = (case sh of None \<Rightarrow> None | Some d \<Rightarrow> map_option itemValue (wk_Item d))\<rparr>)"

section \<open>Resolving values\<close>

definition rpairs :: "('k \<times> ('e, 'v) result) list \<Rightarrow> ('e, ('k \<times> 'v) list) result" where
  "rpairs kvs = rall (\<lambda>(k, r). rbind r (\<lambda>v. Inr (k, v))) kvs"

definition evaluate :: "library \<Rightarrow> scope \<Rightarrow> expr_context \<Rightarrow> string \<Rightarrow> (graph_error, json) result" where
  "evaluate lib scope cx source =
     (case lib_evaluate lib scope cx source of Inl msg \<Rightarrow> Inl (ExpressionFailed msg) | Inr v \<Rightarrow> Inr v)"

fun resolve :: "library \<Rightarrow> scope \<Rightarrow> expr_context \<Rightarrow> json \<Rightarrow> (graph_error, json) result" where
  "resolve lib scope cx (JStr s) = (if contains ''${{'' s then evaluate lib scope cx s else Inr (JStr s))"
| "resolve lib scope cx (JObj kvs) =
     rbind (rpairs (sort_key fst (AList.clearjunk (map (\<lambda>(k, v). (k, resolve lib scope cx v)) kvs))))
       (\<lambda>m. Inr (JObj m))"
| "resolve lib scope cx (JArr vs) = rbind (rall id (map (resolve lib scope cx) vs)) (\<lambda>ws. Inr (JArr ws))"
| "resolve lib scope cx v = Inr v"

definition fedItemID :: "string \<Rightarrow> string \<Rightarrow> nat \<Rightarrow> string" where
  "fedItemID step port i = step @ ''.'' @ port @ ''.'' @ itoa (int i)"

definition fed_item :: "string \<Rightarrow> string \<Rightarrow> nat \<times> json \<Rightarrow> (graph_error, item) result" where
  "fed_item step port = (\<lambda>(i, v).
     case v of
       JObj kvs \<Rightarrow> Inr \<lparr>it_ID = fedItemID step port i, it_Data = kvs, it_Files = []\<rparr>
     | _ \<Rightarrow> Inl (FedEntry step port i))"

definition envelopeOf :: "string \<Rightarrow> string \<Rightarrow> string \<Rightarrow> json \<Rightarrow> time \<Rightarrow> limits \<Rightarrow> (graph_error, envelope) result" where
  "envelopeOf run step port v at l =
     rbind (case v of
              JNull \<Rightarrow> Inr []
            | JArr vs \<Rightarrow> rall (fed_item step port) (zip [0..<length vs] vs)
            | JObj kvs \<Rightarrow> Inr [\<lparr>it_ID = fedItemID step port 0, it_Data = kvs, it_Files = []\<rparr>]
            | _ \<Rightarrow> Inl (FedScalar step port)) (\<lambda>items.
     let e = \<lparr>en_Meta = \<lparr>m_RunID = run, m_Step = step, m_Port = port, m_Attempt = 1, m_Count = int (length items),
                m_ProducedAt = at\<rparr>, en_Items = items\<rparr> in
     case Validate e l of Some err \<Rightarrow> Inl (AtPort step port err) | None \<Rightarrow> Inr e)"

definition fed_port :: "library \<Rightarrow> evaluator \<Rightarrow> state \<Rightarrow> string \<Rightarrow> string \<Rightarrow> json \<Rightarrow> (graph_error, envelope) result" where
  "fed_port lib e s name port v =
     (case resolve lib ScopeStep (context_of e s [] None) v of
        Inl err \<Rightarrow> Inl (InputsExpression name port err)
      | Inr w \<Rightarrow> envelopeOf (r_ID (s_Run s)) name port w (r_StartedAt (s_Run s)) (ev_limits e))"

definition fed :: "library \<Rightarrow> evaluator \<Rightarrow> state \<Rightarrow> string \<Rightarrow> step \<Rightarrow> (graph_error, ports) result" where
  "fed lib e s name st =
     (if st_Inputs st = [] \<or> st_Call st \<noteq> None then Inr []
      else rpairs (map (\<lambda>(port, v). (port, fed_port lib e s name port v)) (entries (st_Inputs st))))"

definition condition :: "library \<Rightarrow> evaluator \<Rightarrow> state \<Rightarrow> string \<Rightarrow> step \<Rightarrow> arrival \<Rightarrow> (graph_error, bool) result" where
  "condition lib e s name st arrived =
     (case evaluate lib ScopeStep (context_of e s (ar_Inputs arrived) None) (st_If st) of
        Inl err \<Rightarrow> Inl (IfExpression name err)
      | Inr v \<Rightarrow> truth name (st_If st) v)"

definition read :: "library \<Rightarrow> evaluator \<Rightarrow> state \<Rightarrow> string \<Rightarrow> step \<Rightarrow> (graph_error, gate) result" where
  "read lib e s name st =
     rbind (fed lib e s name st) (\<lambda>fd.
       barrier name st (Edges (ev_graph e) name) (s_Steps s) fd (r_ID (s_Run s)) (ev_limits e) (r_StartedAt (s_Run s)))"

definition shards_of :: "library \<Rightarrow> evaluator \<Rightarrow> state \<Rightarrow> string \<Rightarrow> step \<Rightarrow> (graph_error, work list) result" where
  "shards_of lib e s name st =
     rbind (read lib e s name st) (\<lambda>g.
       case g of GateStart arrived \<Rightarrow> fanOut name st (ar_Inputs arrived) | _ \<Rightarrow> Inl (BarrierNoLonger name))"

section \<open>Building a task\<close>

definition taskID :: "state \<Rightarrow> string \<Rightarrow> shard_state \<Rightarrow> string" where
  "taskID s name sh = NewTaskID (r_ID (s_Run s)) name (sd_Attempt sh) (sd_Shard sh)"

definition collected :: "evaluator \<Rightarrow> string \<Rightarrow> step \<Rightarrow> string list" where
  "collected e name st =
     (if st_Merge st \<noteq> MergeJoin \<or> unmatchedPort \<notin> set (st_Outputs st) then st_Outputs st
      else if (case manifest_of (ev_graph e) name of None \<Rightarrow> False | Some m \<Rightarrow> unmatchedPort \<in> set (OutputPorts m))
      then st_Outputs st
      else filter (\<lambda>port. port \<noteq> unmatchedPort) (st_Outputs st))"

definition mounts :: "evaluator \<Rightarrow> string \<Rightarrow> step \<Rightarrow> secret_mount list" where
  "mounts e name st =
     (let asked = (case manifest_of (ev_graph e) name of
                     None \<Rightarrow> [] | Some m \<Rightarrow> foldl (\<lambda>a (n, mt). AList.update n mt a) [] (mf_Secrets m)) in
      map (\<lambda>secret.
         let mount = (case map_of asked secret of None \<Rightarrow> [] | Some mt \<Rightarrow> mt) in
         \<lparr>sm_Name = secret, sm_Mount = (if mount = [] then ''/agk/secrets/'' @ secret else mount)\<rparr>) (st_Secrets st))"

definition paramsScope :: "workflow \<Rightarrow> step \<Rightarrow> scope" where
  "paramsScope w st =
     (if fanOutOf st \<noteq> FanOutNone \<or> \<not> wf_resolved w \<and> st_Extends st \<noteq> [] then ScopeShardParams else ScopeParams)"

definition resolve_param ::
  "library \<Rightarrow> scope \<Rightarrow> expr_context \<Rightarrow> string \<Rightarrow> string \<times> json \<Rightarrow> string \<times> (graph_error, json) result" where
  "resolve_param lib scope cx name = (\<lambda>(key, v).
     (key, case resolve lib scope cx v of Inl err \<Rightarrow> Inl (ParamExpression name key err) | Inr w \<Rightarrow> Inr w))"

definition params :: "library \<Rightarrow> evaluator \<Rightarrow> state \<Rightarrow> string \<Rightarrow> step \<Rightarrow> work \<Rightarrow> (graph_error, (string, json) gomap) result" where
  "params lib e s name st sh =
     (let scope = paramsScope (g_wf (ev_graph e)) st; cx = context_of e s (wk_Inputs sh) (Some sh) in
      rbind (rpairs (map (resolve_param lib scope cx name) (entries (st_Params st)))) (\<lambda>out.
      rbind (case manifest_of (ev_graph e) name of
               None \<Rightarrow> Inr () | Some m \<Rightarrow> paramRefusal (lib_schema lib) name m out True) (\<lambda>_.
      Inr (foldl (\<lambda>out (key, v). if has_key out key then out else AList.update key v out) out (entries (wk_Matrix sh))))))"

definition callInputs :: "library \<Rightarrow> evaluator \<Rightarrow> state \<Rightarrow> string \<Rightarrow> step \<Rightarrow> work \<Rightarrow> (graph_error, (string, json) gomap) result" where
  "callInputs lib e s name st sh =
     (let fed_in = map (\<lambda>(port, env). (port, JArr (map (\<lambda>it. JObj (it_Data it)) (en_Items env)))) (entries (wk_Inputs sh));
          cx = context_of e s (wk_Inputs sh) (Some sh) in
      rbind (rpairs (map (\<lambda>(port, v). (port, case resolve lib ScopeStep cx v of
                 Inl err \<Rightarrow> Inl (InputsExpression name port err) | Inr w \<Rightarrow> Inr w)) (entries (st_Inputs st)))) (\<lambda>written.
      Inr (foldl (\<lambda>out (port, v). AList.update port v out) fed_in written)))"

text \<open>An empty list is written as \<open>null\<close>, as the nil slice it is.\<close>

definition strings_text :: "string list \<Rightarrow> string" where
  "strings_text ss = (if ss = [] then ''null'' else arr_text (map (quote False) ss))"

definition hashed :: "string list \<Rightarrow> string" where
  "hashed parts = concat (map (\<lambda>p. p @ [CHR 0x00]) parts)"

definition cacheKey :: "library \<Rightarrow> string \<Rightarrow> task \<Rightarrow> string" where
  "cacheKey lib namespace t =
     (let st = t_From t;
          code = obj_text False
            [(''after_script'', strings_text (t_AfterScript t)), (''before_script'', strings_text (t_BeforeScript t)),
             (''outputs'', strings_text (t_Outputs t)), (''script'', strings_text (st_Script st)),
             (''shell'', strings_text (st_Shell st))];
          input_parts = concat (map (\<lambda>(port, env). [port, lib_sha256 lib (arr_text (map item_text (en_Items env)))])
            (entries (t_Inputs t))) in
      namespace @ ''/sha256/'' @
        lib_sha256 lib (hashed ([st_Image st, code, encode False (JObj (t_Params t))] @ input_parts)))"

definition task_of ::
  "library \<Rightarrow> evaluator \<Rightarrow> state \<Rightarrow> string \<Rightarrow> step \<Rightarrow> work \<Rightarrow> shard_state \<Rightarrow> time \<Rightarrow> (graph_error, task) result" where
  "task_of lib e s name st sh sd now =
     rbind (params lib e s name st sh) (\<lambda>ps.
     rbind (if st_Call st \<noteq> None then callInputs lib e s name st sh else Inr []) (\<lambda>ci.
     let scripted = (st_Script st \<noteq> []);
         t = \<lparr>t_ID = taskID s name sd, t_Run = r_ID (s_Run s), t_Workflow = r_Workflow (s_Run s),
              t_Namespace = r_Namespace (s_Run s), t_Commit = r_Commit (s_Run s), t_Step = name,
              t_Attempt = sd_Attempt sd, t_Shard = wk_Shard sh, t_From = st, t_CallInputs = ci,
              t_BeforeScript = (if scripted then st_BeforeScript st else []),
              t_AfterScript = (if scripted then st_AfterScript st else []),
              t_Params = ps, t_Secrets = mounts e name st, t_Inputs = wk_Inputs sh, t_Outputs = collected e name st,
              t_Deadline = (if st_Timeout st > 0
                            then (if sd_DispatchedAt sd = zero_time then now else sd_DispatchedAt sd) + st_Timeout st
                            else zero_time),
              t_Cache = False, t_CacheKey = []\<rparr> in
     Inr (if st_Cache st \<and> st_Idempotent st
          then t\<lparr>t_Cache := True, t_CacheKey := cacheKey lib (r_Namespace (s_Run s)) t\<rparr> else t)))"

section \<open>Moving a step\<close>

type_synonym effect = "state \<times> graph_error option"

definition effect_of :: "state \<Rightarrow> (graph_error, state) result \<Rightarrow> effect" where
  "effect_of s r = (case r of Inl err \<Rightarrow> (s, Some err) | Inr t \<Rightarrow> (t, None))"

definition cancel :: "string \<Rightarrow> reason \<Rightarrow> time \<Rightarrow> state \<Rightarrow> state" where
  "cancel name why now s =
     (let ss = at_step s name in
      if verdict_Terminal (ss_Verdict ss) then s
      else put_step name (ss\<lparr>ss_Verdict := VerdictCancelled, ss_Reason := why, ss_Since := now\<rparr>) s)"

text \<open>\<open>end_step\<close> is \<open>end\<close>.\<close>

definition end_step ::
  "evaluator \<Rightarrow> string \<Rightarrow> step \<Rightarrow> step_state \<Rightarrow> item list \<Rightarrow> time \<Rightarrow> state \<Rightarrow> (graph_error, state) result" where
  "end_step e name st ss unmatched now s =
     rbind (publish name st (ss_Shards ss) (r_ID (s_Run s)) now (ev_limits e)) (\<lambda>ports.
     rbind (if st_Merge st = MergeJoin \<and> unmatched \<noteq> []
            then rbind (unmatchedEnvelope name st unmatched (r_ID (s_Run s)) now (ev_limits e)) (\<lambda>env.
                 Inr (case env of None \<Rightarrow> ports | Some en \<Rightarrow> AList.update unmatchedPort en ports))
            else Inr ports) (\<lambda>ports'.
     Inr (put_step name (ss\<lparr>ss_Ports := ports', ss_Since := now\<rparr>) s)))"

definition skip :: "evaluator \<Rightarrow> string \<Rightarrow> step \<Rightarrow> reason \<Rightarrow> time \<Rightarrow> state \<Rightarrow> effect" where
  "skip e name st why now s =
     effect_of s (end_step e name st (zero_step\<lparr>ss_Verdict := VerdictSkipped, ss_Reason := why\<rparr>) [] now s)"

definition refused :: "evaluator \<Rightarrow> string \<Rightarrow> step \<Rightarrow> graph_error \<Rightarrow> time \<Rightarrow> state \<Rightarrow> effect" where
  "refused e name st cause now s =
     effect_of s (end_step e name st (zero_step\<lparr>ss_Verdict := VerdictFailed, ss_Reason := ReasonError cause\<rparr>) [] now s)"

definition started :: "work list \<Rightarrow> time \<Rightarrow> step_state" where
  "started shards now =
     zero_step\<lparr>ss_Verdict := VerdictRunning, ss_Since := now,
               ss_Shards := map (\<lambda>sh. new_shard (wk_Shard sh) (wk_Matrix sh) 1) shards\<rparr>"

definition divide :: "evaluator \<Rightarrow> string \<Rightarrow> step \<Rightarrow> arrival \<Rightarrow> time \<Rightarrow> state \<Rightarrow> effect" where
  "divide e name st arrived now s =
     (case fanOut name st (ar_Inputs arrived) of
        Inl err \<Rightarrow> refused e name st err now s
      | Inr shards \<Rightarrow>
          if shards = []
          then effect_of s (end_step e name st (zero_step\<lparr>ss_Verdict := VerdictSucceeded\<rparr>) (ar_Unmatched arrived) now s)
          else (put_step name (started shards now) s, None))"

definition abandon :: "evaluator \<Rightarrow> string \<Rightarrow> arrival \<Rightarrow> time \<Rightarrow> state \<Rightarrow> state" where
  "abandon e name arrived now s =
     foldl (\<lambda>s n. cancel n (ReasonSuperseded name) now s) s
       (superseded (Step (ev_graph e)) (published (ev_graph e)) (Consumers (ev_graph e)) (wf_Outputs (g_wf (ev_graph e)))
          name (ar_Abandoned arrived) (s_Steps s))"

definition begin_step :: "library \<Rightarrow> evaluator \<Rightarrow> string \<Rightarrow> time \<Rightarrow> state \<Rightarrow> effect" where
  "begin_step lib e name now s =
     (case Step (ev_graph e) name of
        None \<Rightarrow> (s, Some (NoSuchStep name))
      | Some st \<Rightarrow>
          (case read lib e s name st of
             Inl err \<Rightarrow> refused e name st err now s
           | Inr GateWait \<Rightarrow> (s, None)
           | Inr (GateSkip why) \<Rightarrow> skip e name st why now s
           | Inr (GateStart arrived) \<Rightarrow>
               (let s' = abandon e name arrived now s in
                if st_If st = [] then divide e name st arrived now s'
                else case condition lib e s' name st arrived of
                       Inl err \<Rightarrow> refused e name st err now s'
                     | Inr True \<Rightarrow> divide e name st arrived now s'
                     | Inr False \<Rightarrow> skip e name st (ReasonIf (st_If st)) now s')))"

definition settle :: "library \<Rightarrow> evaluator \<Rightarrow> string \<Rightarrow> time \<Rightarrow> state \<Rightarrow> effect" where
  "settle lib e name now s =
     (let ss = at_step s name; v = stepVerdict (ss_Shards ss) in
      if \<not> verdict_Terminal v then (s, None)
      else case Step (ev_graph e) name of
             None \<Rightarrow> (s, Some (NoSuchStep name))
           | Some st \<Rightarrow>
               if v = VerdictCancelled then (put_step name (ss\<lparr>ss_Verdict := v, ss_Since := now\<rparr>) s, None)
               else case (if st_Merge st = MergeJoin
                          then rbind (read lib e s name st) (\<lambda>g.
                               Inr (case g of GateStart arrived \<Rightarrow> ar_Unmatched arrived | _ \<Rightarrow> []))
                          else Inr []) of
                      Inl err \<Rightarrow> (s, Some err)
                    | Inr unmatched \<Rightarrow> effect_of s (end_step e name st (ss\<lparr>ss_Verdict := v\<rparr>) unmatched now s))"

definition advance :: "library \<Rightarrow> evaluator \<Rightarrow> time \<Rightarrow> string \<Rightarrow> state \<Rightarrow> effect" where
  "advance lib e now name s =
     (case ss_Verdict (at_step s name) of
        VerdictPending \<Rightarrow> begin_step lib e name now s
      | VerdictRunning \<Rightarrow> settle lib e name now s
      | _ \<Rightarrow> (s, None))"

section \<open>Handing tasks out\<close>

record dispatching =
  d_state :: state
  d_start :: "task list"
  d_broke :: bool
  d_slots :: int
  d_divided :: "work list option"

definition due :: "shard_state \<Rightarrow> time \<Rightarrow> bool" where
  "due sh now = (\<not> (sd_Task sh \<noteq> TaskPending \<or> sd_NextAttemptAt sh \<noteq> zero_time \<and> now < sd_NextAttemptAt sh))"

definition set_shard :: "string \<Rightarrow> nat \<Rightarrow> shard_state \<Rightarrow> state \<Rightarrow> state" where
  "set_shard name i sh s =
     (let ss = at_step s name in put_step name (ss\<lparr>ss_Shards := (ss_Shards ss)[i := sh]\<rparr>) s)"

definition unbuilt :: "string \<Rightarrow> nat \<Rightarrow> graph_error \<Rightarrow> time \<Rightarrow> state \<Rightarrow> state" where
  "unbuilt name i err now s =
     (let ss = at_step s name in
      put_step name (ss\<lparr>ss_Shards := (ss_Shards ss)[i := (ss_Shards ss ! i)\<lparr>sd_Task := TaskFailed, sd_ExitCode := 120,
                          sd_FinishedAt := now\<rparr>], ss_Reason := ReasonError err\<rparr>) s)"

definition dispatch_shard ::
  "library \<Rightarrow> evaluator \<Rightarrow> time \<Rightarrow> string \<Rightarrow> step \<Rightarrow> nat \<Rightarrow> dispatching \<Rightarrow> dispatching \<times> graph_error option" where
  "dispatch_shard lib e now name st i d =
     (let s = d_state d; sh = ss_Shards (at_step s name) ! i in
      if d_slots d \<le> 0 \<or> \<not> due sh now then (d, None)
      else case (case d_divided d of Some ws \<Rightarrow> Inr ws | None \<Rightarrow> shards_of lib e s name st) of
             Inl err \<Rightarrow> (d, Some err)
           | Inr ws \<Rightarrow>
               (case find (\<lambda>w. wk_Shard w = sd_Shard sh) ws of
                  None \<Rightarrow> (d, Some (ShardGone name (sd_Shard sh)))
                | Some w \<Rightarrow>
                    (case task_of lib e s name st w sh now of
                       Inl err \<Rightarrow> (d\<lparr>d_state := unbuilt name i err now s, d_broke := True, d_divided := Some ws\<rparr>, None)
                     | Inr t \<Rightarrow> (d\<lparr>d_state := set_shard name i (sh\<lparr>sd_CacheKey := t_CacheKey t\<rparr>) s,
                                   d_start := d_start d @ [t], d_slots := d_slots d - 1, d_divided := Some ws\<rparr>, None))))"

definition dispatch_step ::
  "library \<Rightarrow> evaluator \<Rightarrow> time \<Rightarrow> string \<Rightarrow> dispatching \<Rightarrow> dispatching \<times> graph_error option" where
  "dispatch_step lib e now name d =
     (let ss = at_step (d_state d) name in
      if ss_Verdict ss \<noteq> VerdictRunning then (d, None)
      else case Step (ev_graph e) name of
             None \<Rightarrow> (d, None)
           | Some st \<Rightarrow>
               sfold (dispatch_shard lib e now name st) [0..<length (ss_Shards ss)]
                 (d\<lparr>d_slots := slotsFree st ss, d_divided := None\<rparr>))"

definition dispatch :: "library \<Rightarrow> evaluator \<Rightarrow> time \<Rightarrow> state \<Rightarrow> dispatching \<times> graph_error option" where
  "dispatch lib e now s =
     sfold (dispatch_step lib e now) (Order (ev_graph e))
       \<lparr>d_state = s, d_start = [], d_broke = False, d_slots = 0, d_divided = None\<rparr>"

section \<open>Stopping tasks\<close>

definition end_shard :: "string \<Rightarrow> stop_reason \<Rightarrow> time \<Rightarrow> state \<times> stop list \<Rightarrow> nat \<Rightarrow> state \<times> stop list" where
  "end_shard name why now = (\<lambda>(s, stops) i.
     let sh = ss_Shards (at_step s name) ! i in
     (set_shard name i (sh\<lparr>sd_Task := TaskCancelled, sd_ExitCode := 0, sd_NoExitCode := True, sd_Stopped := True,
        sd_Ports := [], sd_NextAttemptAt := zero_time, sd_FinishedAt := now\<rparr>) s,
      stops @ [\<lparr>stop_Task = taskID s name sh, stop_Reason = why\<rparr>]))"

definition failed_for_good :: "shard_state \<Rightarrow> bool" where
  "failed_for_good sh =
     (sd_NextAttemptAt sh = zero_time \<and> task_Terminal (sd_Task sh) \<and>
      shardVerdict (sd_Task sh) (sd_ExitCode sh) = VerdictFailed)"

definition live_shards :: "step_state \<Rightarrow> nat list" where
  "live_shards ss = filter (\<lambda>i. \<not> task_Terminal (sd_Task (ss_Shards ss ! i))) [0..<length (ss_Shards ss)]"

definition to_stop :: "evaluator \<Rightarrow> string \<Rightarrow> step_state \<Rightarrow> (stop_reason \<times> nat list) option" where
  "to_stop e name ss =
     (if ss_Verdict ss = VerdictCancelled then Some (StopSuperseded, live_shards ss)
      else case Step (ev_graph e) name of
             None \<Rightarrow> None
           | Some st \<Rightarrow>
               if ss_Verdict ss \<noteq> VerdictRunning \<or> \<not> failFast st then None
               else case find failed_for_good (ss_Shards ss) of
                      None \<Rightarrow> None
                    | Some sh \<Rightarrow> Some (StopSiblingFailed, siblingsLeft ss (sd_Shard sh)))"

definition stop_step :: "evaluator \<Rightarrow> time \<Rightarrow> state \<times> stop list \<Rightarrow> string \<Rightarrow> state \<times> stop list" where
  "stop_step e now = (\<lambda>(s, stops) name.
     case to_stop e name (at_step s name) of
       None \<Rightarrow> (s, stops)
     | Some (why, is) \<Rightarrow> foldl (end_shard name why now) (s, stops) is)"

definition stops_of :: "evaluator \<Rightarrow> time \<Rightarrow> state \<Rightarrow> state \<times> stop list" where
  "stops_of e now s = foldl (stop_step e now) (s, []) (Order (ev_graph e))"

definition stopEverything :: "evaluator \<Rightarrow> state \<Rightarrow> stop_reason \<Rightarrow> plan" where
  "stopEverything e s why =
     empty_plan\<lparr>pl_Stop := concat (map (\<lambda>name.
       map (\<lambda>sh. \<lparr>stop_Task = taskID s name sh, stop_Reason = why\<rparr>) (filter holdsARunner (ss_Shards (at_step s name))))
       (Order (ev_graph e)))\<rparr>"

section \<open>The clock\<close>

definition deadline :: "evaluator \<Rightarrow> state \<Rightarrow> time option" where
  "deadline e s =
     (let d = wf_Timeout (g_wf (ev_graph e)); most = ev_maxRunDuration e;
          d' = (if most > 0 \<and> (d \<le> 0 \<or> d > most) then most else d) in
      if d' \<le> 0 then None else Some (r_StartedAt (s_Run s) + d'))"

definition wake :: "evaluator \<Rightarrow> state \<Rightarrow> time \<Rightarrow> time" where
  "wake e s now =
     (let at = foldl (\<lambda>at sh.
                 if sd_Task sh \<noteq> TaskPending \<or> \<not> sd_NextAttemptAt sh > now then at
                 else if at = zero_time \<or> sd_NextAttemptAt sh < at then sd_NextAttemptAt sh else at)
               zero_time (concat (map (\<lambda>name. ss_Shards (at_step s name)) (Order (ev_graph e)))) in
      case deadline e s of
        None \<Rightarrow> at
      | Some dl \<Rightarrow> if dl > now \<and> (at = zero_time \<or> dl < at) then dl else at)"

definition tolerates :: "evaluator \<Rightarrow> string \<Rightarrow> bool" where
  "tolerates e name = (case Step (ev_graph e) name of None \<Rightarrow> False | Some st \<Rightarrow> st_ContinueOnError st)"

definition endSteps :: "evaluator \<Rightarrow> reason \<Rightarrow> time \<Rightarrow> state \<Rightarrow> state" where
  "endSteps e why now s =
     foldl (\<lambda>s name. if ss_Verdict (at_step s name) = VerdictRunning then cancel name why now s else s)
       s (Order (ev_graph e))"

end
