(* ===== verification/Decisions.thy ===== *)
theory Decisions
  imports Evaluator
begin

text \<open>
  Package \<open>graph\<close>, \<open>evaluator.go\<close>, continued: the pass \<open>Next\<close> takes over the graph, with the proof that
  it ends, and the other operations of the evaluator, \<open>Start\<close>, \<open>New\<close>, \<open>Record\<close>, \<open>Cancel\<close> and
  \<open>Outputs\<close>.
\<close>

section \<open>What is left to do\<close>

text \<open>
  A round of \<open>Next\<close> is taken again when it ended a task. Two numbers show that rounds run out: the steps
  that are still pending, and the shards whose task is not over.
\<close>

abbreviation verdict_at :: "state \<Rightarrow> string \<Rightarrow> verdict" where
  "verdict_at s n \<equiv> ss_Verdict (at_step s n)"

abbreviation shards_at :: "state \<Rightarrow> string \<Rightarrow> shard_state list" where
  "shards_at s n \<equiv> ss_Shards (at_step s n)"

definition live :: "shard_state list \<Rightarrow> nat" where
  "live shards = length (filter (\<lambda>sh. \<not> task_Terminal (sd_Task sh)) shards)"

definition pending_steps :: "string list \<Rightarrow> state \<Rightarrow> nat" where
  "pending_steps order s = length (filter (\<lambda>n. verdict_at s n = VerdictPending) order)"

definition live_total :: "string list \<Rightarrow> state \<Rightarrow> nat" where
  "live_total order s = sum_list (map (\<lambda>n. live (shards_at s n)) order)"

lemma live_update:
  assumes "i < length xs"
  shows "live (xs[i := y]) + (if task_Terminal (sd_Task (xs ! i)) then 0 else 1) =
    live xs + (if task_Terminal (sd_Task y) then 0 else 1)"
proof -
  have "xs = take i xs @ xs ! i # drop (Suc i) xs" using assms by (rule id_take_nth_drop)
  then have "live xs = live (take i xs) + live [xs ! i] + live (drop (Suc i) xs)"
    by (metis (no_types, lifting) append_Cons append_Nil filter_append length_append live_def add.assoc)
  moreover have "live (xs[i := y]) = live (take i xs) + live [y] + live (drop (Suc i) xs)"
    using assms by (simp add: upd_conv_take_nth_drop live_def)
  ultimately show ?thesis by (simp add: live_def)
qed

lemma sum_list_strict:
  "(\<And>x. x \<in> set xs \<Longrightarrow> (f x :: nat) \<le> g x) \<Longrightarrow> \<exists>x \<in> set xs. f x < g x \<Longrightarrow> sum_list (map f xs) < sum_list (map g xs)"
proof (induction xs)
  case (Cons x xs)
  have le: "sum_list (map f xs) \<le> sum_list (map g xs)" using Cons.prems(1) by (intro sum_list_mono) auto
  show ?case
  proof (cases "f x < g x")
    case True
    with le show ?thesis by simp
  next
    case False
    then have "\<exists>y \<in> set xs. f y < g y" using Cons.prems(2) by auto
    then have "sum_list (map f xs) < sum_list (map g xs)" using Cons.prems(1) by (intro Cons.IH) auto
    moreover have "f x \<le> g x" using Cons.prems(1) by simp
    ultimately show ?thesis by simp
  qed
qed simp

lemma length_filter_mono: "(\<And>x. x \<in> set xs \<Longrightarrow> P x \<Longrightarrow> Q x) \<Longrightarrow> length (filter P xs) \<le> length (filter Q xs)"
proof (induction xs)
  case (Cons x xs)
  have "length (filter P xs) \<le> length (filter Q xs)" using Cons.prems by (intro Cons.IH) auto
  moreover have "P x \<longrightarrow> Q x" using Cons.prems by simp
  ultimately show ?case by auto
qed simp

lemma length_filter_strict:
  "(\<And>x. x \<in> set xs \<Longrightarrow> P x \<Longrightarrow> Q x) \<Longrightarrow> \<exists>x \<in> set xs. Q x \<and> \<not> P x \<Longrightarrow> length (filter P xs) < length (filter Q xs)"
proof (induction xs)
  case (Cons x xs)
  have le: "length (filter P xs) \<le> length (filter Q xs)"
    using Cons.prems(1) by (intro length_filter_mono) auto
  show ?case
  proof (cases "Q x \<and> \<not> P x")
    case True
    with le show ?thesis by simp
  next
    case False
    then have "length (filter P xs) < length (filter Q xs)" using Cons.prems by (intro Cons.IH) auto
    moreover have "P x \<longrightarrow> Q x" using Cons.prems(1) by simp
    ultimately show ?thesis by auto
  qed
qed simp

section \<open>What each operation touches\<close>

lemma at_cancel:
  "at_step (cancel name why now s) n =
     (if n = name \<and> \<not> verdict_Terminal (verdict_at s name)
      then (at_step s name)\<lparr>ss_Verdict := VerdictCancelled, ss_Reason := why, ss_Since := now\<rparr> else at_step s n)"
  by (auto simp: cancel_def Let_def)

lemma cancel_run [simp]: "s_Run (cancel name why now s) = s_Run s" "s_Seq (cancel name why now s) = s_Seq s"
  by (simp_all add: cancel_def Let_def)

lemma cancels_run [simp]: "s_Run (foldl (\<lambda>s n. cancel n why now s) s ns) = s_Run s"
  by (induction ns arbitrary: s) simp_all

lemma cancels_shards [simp]: "shards_at (foldl (\<lambda>s n. cancel n why now s) s ns) m = shards_at s m"
proof (induction ns arbitrary: s)
  case (Cons n ns)
  have "shards_at (cancel n why now s) m = shards_at s m" by (simp add: at_cancel)
  with Cons[of "cancel n why now s"] show ?case by simp
qed simp

lemma cancels_pending:
  "verdict_at (foldl (\<lambda>s n. cancel n why now s) s ns) m = VerdictPending \<Longrightarrow> verdict_at s m = VerdictPending"
proof (induction ns arbitrary: s)
  case (Cons n ns)
  then have "verdict_at (cancel n why now s) m = VerdictPending" by simp
  then show ?case by (simp add: at_cancel split: if_splits)
qed simp

lemma cancels_terminal:
  "verdict_Terminal (verdict_at s m) \<Longrightarrow> at_step (foldl (\<lambda>s n. cancel n why now s) s ns) m = at_step s m"
proof (induction ns arbitrary: s)
  case (Cons n ns)
  have same: "at_step (cancel n why now s) m = at_step s m" using Cons.prems by (auto simp: at_cancel)
  then have "at_step (foldl (\<lambda>s n. cancel n why now s) (cancel n why now s) ns) m = at_step (cancel n why now s) m"
    using Cons.prems by (intro Cons.IH) simp
  with same show ?case by simp
qed simp

lemma end_step_Inr:
  assumes "end_step e name st ss unmatched now s = Inr t"
  shows "\<exists>ports. t = put_step name (ss\<lparr>ss_Ports := ports, ss_Since := now\<rparr>) s"
  using assms by (auto simp: end_step_def)

lemma effect_of_None: "effect_of s r = (t, None) \<longleftrightarrow> r = Inr t"
  by (auto simp: effect_of_def split: sum.splits)

text \<open>\<open>moved s t name\<close>: from \<open>s\<close> to \<open>t\<close> no step became pending again, and either no shard changed or \<open>name\<close> stopped pending.\<close>

definition moved :: "string set \<Rightarrow> state \<Rightarrow> state \<Rightarrow> bool" where
  "moved names s t \<longleftrightarrow> (\<forall>m. verdict_at t m = VerdictPending \<longrightarrow> verdict_at s m = VerdictPending) \<and>
     ((\<forall>m. shards_at t m = shards_at s m) \<or>
      (\<exists>m \<in> names. verdict_at s m = VerdictPending \<and> verdict_at t m \<noteq> VerdictPending))"

lemma moved_refl: "moved names s s"
  by (simp add: moved_def)

lemma moved_trans: "moved A s t \<Longrightarrow> moved B t u \<Longrightarrow> moved (A \<union> B) s u"
  unfolding moved_def by (metis Un_iff)

lemma moved_ended:
  assumes "verdict_at s name = VerdictPending" "ss_Verdict ss \<noteq> VerdictPending"
    and "\<And>m. verdict_at s' m = VerdictPending \<Longrightarrow> verdict_at s m = VerdictPending"
  shows "moved {name} s (put_step name ss s')"
  using assms by (auto simp: moved_def)

lemma skip_moved:
  assumes "skip e name st why now s' = (t, None)" "verdict_at s name = VerdictPending"
    "\<And>m. verdict_at s' m = VerdictPending \<Longrightarrow> verdict_at s m = VerdictPending"
  shows "moved {name} s t"
  using assms by (auto simp: skip_def effect_of_None intro!: moved_ended dest!: end_step_Inr)

lemma refused_moved:
  assumes "refused e name st err now s' = (t, None)" "verdict_at s name = VerdictPending"
    "\<And>m. verdict_at s' m = VerdictPending \<Longrightarrow> verdict_at s m = VerdictPending"
  shows "moved {name} s t"
  using assms by (auto simp: refused_def effect_of_None intro!: moved_ended dest!: end_step_Inr)

lemma divide_moved:
  assumes "divide e name st arrived now s' = (t, None)" "verdict_at s name = VerdictPending"
    "\<And>m. verdict_at s' m = VerdictPending \<Longrightarrow> verdict_at s m = VerdictPending"
  shows "moved {name} s t"
  using assms
  by (auto simp: divide_def effect_of_None started_def intro!: moved_ended dest!: end_step_Inr
      intro: refused_moved split: sum.splits if_splits)

lemma begin_moved:
  assumes "begin_step lib e name now s = (t, None)" "verdict_at s name = VerdictPending"
  shows "moved {name} s t"
proof -
  obtain st where st: "Step (ev_graph e) name = Some st"
    using assms(1) by (auto simp: begin_step_def split: option.splits)
  have ab: "verdict_at (abandon e name arrived now s) m = VerdictPending \<Longrightarrow> verdict_at s m = VerdictPending" for arrived m
    unfolding abandon_def by (rule cancels_pending)
  show ?thesis
  proof (cases "read lib e s name st")
    case (Inl err)
    then show ?thesis using assms st by (auto simp: begin_step_def intro: refused_moved)
  next
    case (Inr g)
    show ?thesis
    proof (cases g)
      case GateWait
      then show ?thesis using assms st Inr by (simp add: begin_step_def moved_refl)
    next
      case (GateSkip why)
      then show ?thesis using assms st Inr by (auto simp: begin_step_def intro: skip_moved)
    next
      case (GateStart arrived)
      then show ?thesis
        using assms st Inr ab
        by (auto simp: begin_step_def Let_def intro: skip_moved refused_moved divide_moved
            split: if_splits sum.splits bool.splits)
    qed
  qed
qed

lemma settle_moved:
  assumes "settle lib e name now s = (t, None)" "verdict_at s name = VerdictRunning"
  shows "moved {name} s t"
  using assms
  by (auto simp: settle_def Let_def effect_of_None moved_def dest!: end_step_Inr split: if_splits option.splits sum.splits)

lemma advance_moved: "advance lib e now name s = (t, None) \<Longrightarrow> moved {name} s t"
  by (auto simp: advance_def moved_refl intro: begin_moved settle_moved split: verdict.splits)

lemma advances_moved: "sfold (advance lib e now) names s = (t, None) \<Longrightarrow> moved (set names) s t"
proof (induction names arbitrary: s)
  case (Cons name names)
  then obtain s1 where "advance lib e now name s = (s1, None)" "sfold (advance lib e now) names s1 = (t, None)"
    by (auto split: prod.splits option.splits)
  then show ?case using moved_trans[OF advance_moved Cons.IH] by force
qed (simp add: moved_refl)

text \<open>\<open>fewer order s t b\<close>: from \<open>s\<close> to \<open>t\<close> the verdicts and the numbers of shards stand, no more tasks are live, and fewer are where \<open>b\<close> says so.\<close>

definition fewer :: "string list \<Rightarrow> state \<Rightarrow> state \<Rightarrow> bool \<Rightarrow> bool" where
  "fewer order s t b \<longleftrightarrow>
     (\<forall>m. verdict_at t m = verdict_at s m \<and> length (shards_at t m) = length (shards_at s m) \<and>
          live (shards_at t m) \<le> live (shards_at s m)) \<and>
     (b \<longrightarrow> (\<exists>m \<in> set order. live (shards_at t m) < live (shards_at s m)))"

lemma at_set_shard:
  "at_step (set_shard name i sh s) n =
     (if n = name then (at_step s name)\<lparr>ss_Shards := (shards_at s name)[i := sh]\<rparr> else at_step s n)"
  by (simp add: set_shard_def Let_def)

lemma at_unbuilt:
  "at_step (unbuilt name i err now s) n =
     (if n = name then (at_step s name)\<lparr>ss_Shards := (shards_at s name)[i := (shards_at s name ! i)\<lparr>sd_Task := TaskFailed,
        sd_ExitCode := 120, sd_FinishedAt := now\<rparr>], ss_Reason := ReasonError err\<rparr> else at_step s n)"
  by (simp add: unbuilt_def Let_def)

lemma due_pending: "due sh now \<Longrightarrow> sd_Task sh = TaskPending"
  by (auto simp: due_def)

lemma dispatch_shard_fewer:
  assumes "fewer order s0 (d_state d) (d_broke d)" "name \<in> set order" "i < length (shards_at (d_state d) name)"
  shows "fewer order s0 (d_state (fst (dispatch_shard lib e now name st i d))) (d_broke (fst (dispatch_shard lib e now name st i d)))"
proof -
  let ?s = "d_state d" and ?sh = "shards_at (d_state d) name ! i"
  have same: "live ((shards_at ?s name)[i := ?sh\<lparr>sd_CacheKey := k\<rparr>]) = live (shards_at ?s name)" for k
    using live_update[OF assms(3), of "?sh\<lparr>sd_CacheKey := k\<rparr>"] by simp
  have less: "live ((shards_at ?s name)[i := ?sh\<lparr>sd_Task := TaskFailed, sd_ExitCode := 120, sd_FinishedAt := now\<rparr>])
      < live (shards_at ?s name)" if "due ?sh now"
    using live_update[OF assms(3), of "?sh\<lparr>sd_Task := TaskFailed, sd_ExitCode := 120, sd_FinishedAt := now\<rparr>"]
      due_pending[OF that] by simp
  have broke: "fewer order s0 (unbuilt name i err now ?s) True" if "due ?sh now" for err
    unfolding fewer_def
  proof (intro conjI allI impI)
    fix m
    show "verdict_at (unbuilt name i err now ?s) m = verdict_at s0 m"
      "length (shards_at (unbuilt name i err now ?s) m) = length (shards_at s0 m)"
      "live (shards_at (unbuilt name i err now ?s) m) \<le> live (shards_at s0 m)"
      using assms(1) less[OF that] by (auto simp: at_unbuilt fewer_def intro: less_imp_le order_trans)
    show "\<exists>m \<in> set order. live (shards_at (unbuilt name i err now ?s) m) < live (shards_at s0 m)"
      using assms(1,2) less[OF that] by (intro bexI[of _ name]) (auto simp: at_unbuilt fewer_def intro: less_le_trans)
  qed
  have kept: "fewer order s0 (set_shard name i (?sh\<lparr>sd_CacheKey := k\<rparr>) ?s) (d_broke d)" for k
  proof -
    have "live (shards_at (set_shard name i (?sh\<lparr>sd_CacheKey := k\<rparr>) ?s) m) = live (shards_at ?s m)"
      "length (shards_at (set_shard name i (?sh\<lparr>sd_CacheKey := k\<rparr>) ?s) m) = length (shards_at ?s m)"
      "verdict_at (set_shard name i (?sh\<lparr>sd_CacheKey := k\<rparr>) ?s) m = verdict_at ?s m" for m
      using same by (simp_all add: at_set_shard)
    with assms(1) show ?thesis unfolding fewer_def by simp
  qed
  show ?thesis
    using assms(1) broke kept by (auto simp: dispatch_shard_def Let_def split: option.splits sum.splits)
qed

lemma dispatch_step_fewer:
  assumes "fewer order s0 (d_state d) (d_broke d)" "name \<in> set order"
  shows "fewer order s0 (d_state (fst (dispatch_step lib e now name d))) (d_broke (fst (dispatch_step lib e now name d)))"
proof -
  let ?n = "length (shards_at (d_state d) name)"
  have "fewer order s0 (d_state (fst (sfold (dispatch_shard lib e now name st) [0..<?n] d')))
      (d_broke (fst (sfold (dispatch_shard lib e now name st) [0..<?n] d')))"
    if "fewer order s0 (d_state d') (d_broke d')" for st and d' :: dispatching
  proof (rule sfold_invariant[where P = "\<lambda>d::dispatching. fewer order s0 (d_state d) (d_broke d)", OF that])
    fix i and d'' :: dispatching
    assume i: "i \<in> set [0..<?n]" and inv: "fewer order s0 (d_state d'') (d_broke d'')"
    have "length (shards_at (d_state d'') name) = ?n" using inv assms(1) by (simp add: fewer_def)
    then show "fewer order s0 (d_state (fst (dispatch_shard lib e now name st i d'')))
        (d_broke (fst (dispatch_shard lib e now name st i d'')))"
      using i by (intro dispatch_shard_fewer[OF inv assms(2)]) simp
  qed
  with assms(1) show ?thesis by (auto simp: dispatch_step_def Let_def split: option.splits)
qed

lemma dispatch_fewer:
  "fewer (Order (ev_graph e)) s (d_state (fst (dispatch lib e now s))) (d_broke (fst (dispatch lib e now s)))"
  unfolding dispatch_def
  by (rule sfold_invariant[where P = "\<lambda>d::dispatching. fewer (Order (ev_graph e)) s (d_state d) (d_broke d)"])
    (auto simp: fewer_def[of _ s s] dispatch_step_fewer)


lemma end_shard_fewer:
  assumes "fewer order s0 s b" "name \<in> set order" "i < length (shards_at s name)"
    and "\<not> task_Terminal (sd_Task (shards_at s name ! i))"
  shows "fewer order s0 (fst (end_shard name why now (s, stops) i)) True"
proof -
  let ?ended = "(shards_at s name ! i)\<lparr>sd_Task := TaskCancelled, sd_ExitCode := 0, sd_NoExitCode := True, sd_Stopped := True,
        sd_Ports := [], sd_NextAttemptAt := zero_time, sd_FinishedAt := now\<rparr>"
  have less: "live ((shards_at s name)[i := ?ended]) < live (shards_at s name)"
    using live_update[OF assms(3), of ?ended] assms(4) by simp
  have t: "fst (end_shard name why now (s, stops) i) = set_shard name i ?ended s"
    by (simp add: end_shard_def Let_def)
  show ?thesis
    unfolding fewer_def t
  proof (intro conjI allI impI)
    fix m
    show "verdict_at (set_shard name i ?ended s) m = verdict_at s0 m"
      "length (shards_at (set_shard name i ?ended s) m) = length (shards_at s0 m)"
      "live (shards_at (set_shard name i ?ended s) m) \<le> live (shards_at s0 m)"
      using assms(1) less by (auto simp: at_set_shard fewer_def intro: less_imp_le order_trans)
    show "\<exists>m \<in> set order. live (shards_at (set_shard name i ?ended s) m) < live (shards_at s0 m)"
      using assms(1,2) less by (intro bexI[of _ name]) (auto simp: at_set_shard fewer_def intro: less_le_trans)
  qed
qed

lemma end_shards_fewer:
  assumes "fewer order s0 s (stops \<noteq> [])" "name \<in> set order" "distinct is"
    and "\<And>i. i \<in> set is \<Longrightarrow> i < length (shards_at s name) \<and> \<not> task_Terminal (sd_Task (shards_at s name ! i))"
  shows "fewer order s0 (fst (foldl (end_shard name why now) (s, stops) is))
      (snd (foldl (end_shard name why now) (s, stops) is) \<noteq> [])"
  using assms
proof (induction "is" arbitrary: s stops)
  case (Cons i "is")
  obtain t extra where t: "end_shard name why now (s, stops) i = (t, extra)" by fastforce
  have extra: "extra \<noteq> []" using t by (auto simp: end_shard_def Let_def)
  have "fewer order s0 t (extra \<noteq> [])"
    using end_shard_fewer[OF Cons.prems(1,2), of i why now stops] Cons.prems(4)[of i] t extra by simp
  moreover have "j < length (shards_at t name) \<and> \<not> task_Terminal (sd_Task (shards_at t name ! j))" if "j \<in> set is" for j
  proof -
    have "i \<noteq> j" using Cons.prems(3) that by auto
    then show ?thesis using Cons.prems(4)[of j] t that by (auto simp: end_shard_def Let_def at_set_shard)
  qed
  ultimately show ?case using Cons.IH[of t extra] Cons.prems(2,3) t by simp
qed simp

lemma to_stop_live:
  assumes "to_stop e name ss = Some (why, is)"
  shows "distinct is" "i \<in> set is \<Longrightarrow> i < length (ss_Shards ss) \<and> \<not> task_Terminal (sd_Task (ss_Shards ss ! i))"
  using assms by (auto simp: to_stop_def live_shards_def siblingsLeft_def split: if_splits option.splits)

lemma stop_step_fewer:
  assumes "fewer order s0 (fst p) (snd p \<noteq> [])" "name \<in> set order"
  shows "fewer order s0 (fst (stop_step e now p name)) (snd (stop_step e now p name) \<noteq> [])"
proof -
  obtain s stops where p: "p = (s, stops)" by fastforce
  show ?thesis
  proof (cases "to_stop e name (at_step s name)")
    case None
    with assms p show ?thesis by (simp add: stop_step_def)
  next
    case (Some q)
    obtain why "is" where q: "q = (why, is)" by fastforce
    have "fewer order s0 s (stops \<noteq> [])" using assms(1) p by simp
    from end_shards_fewer[OF this assms(2) to_stop_live[OF Some[unfolded q]]]
    show ?thesis using Some p q by (simp add: stop_step_def)
  qed
qed

lemma stops_fewer: "fewer (Order (ev_graph e)) s (fst (stops_of e now s)) (snd (stops_of e now s) \<noteq> [])"
proof -
  have "fewer order s (fst (foldl (stop_step e now) p ns)) (snd (foldl (stop_step e now) p ns) \<noteq> [])"
    if "fewer order s (fst p) (snd p \<noteq> [])" "set ns \<subseteq> set order" for p ns order
    using that
  proof (induction ns arbitrary: p)
    case (Cons n ns)
    then have "fewer order s (fst (stop_step e now p n)) (snd (stop_step e now p n) \<noteq> [])" by (intro stop_step_fewer) auto
    with Cons.prems(2) show ?case using Cons.IH[of "stop_step e now p n"] by simp
  qed simp
  from this[of "Order (ev_graph e)" "(s, [])" "Order (ev_graph e)"]
  show ?thesis by (simp add: stops_of_def fewer_def)
qed

section \<open>Next\<close>

text \<open>
  One turn of the loop of \<open>Next\<close>: every step is advanced, then tasks are handed out, then tasks are
  stopped. It is taken again where a task could not be built or was stopped.
\<close>

datatype turn = TurnFailed graph_error | TurnAgain "stop list" | TurnOver "task list"

definition take_turn :: "library \<Rightarrow> evaluator \<Rightarrow> time \<Rightarrow> state \<Rightarrow> state \<times> turn" where
  "take_turn lib e now s =
     (case sfold (advance lib e now) (Order (ev_graph e)) s of
        (s1, Some err) \<Rightarrow> (s1, TurnFailed err)
      | (s1, None) \<Rightarrow>
          (case dispatch lib e now s1 of
             (d, Some err) \<Rightarrow> (d_state d, TurnFailed err)
           | (d, None) \<Rightarrow>
               if d_broke d then (d_state d, TurnAgain [])
               else case stops_of e now (d_state d) of
                      (s2, stops) \<Rightarrow> (s2, if stops = [] then TurnOver (d_start d) else TurnAgain stops)))"

definition work_left :: "evaluator \<Rightarrow> state \<Rightarrow> nat \<times> nat" where
  "work_left e s = (pending_steps (Order (ev_graph e)) s, live_total (Order (ev_graph e)) s)"

lemma moved_work:
  assumes "moved (set order) s t"
  shows "pending_steps order t < pending_steps order s \<or>
    pending_steps order t \<le> pending_steps order s \<and> live_total order t = live_total order s"
proof (cases "\<forall>m. shards_at t m = shards_at s m")
  case True
  then show ?thesis using assms by (auto simp: moved_def pending_steps_def live_total_def intro: length_filter_mono)
next
  case False
  with assms show ?thesis unfolding moved_def pending_steps_def by (intro disjI1 length_filter_strict) auto
qed

lemma fewer_work:
  assumes "fewer order s t b"
  shows "pending_steps order t = pending_steps order s" "live_total order t \<le> live_total order s"
    "b \<Longrightarrow> live_total order t < live_total order s"
  using assms unfolding fewer_def live_total_def
  by (simp_all add: pending_steps_def sum_list_mono sum_list_strict)

lemma take_turn_less:
  assumes "take_turn lib e now s = (t, TurnAgain extra)"
  shows "(work_left e t, work_left e s) \<in> less_than <*lex*> less_than"
proof -
  let ?order = "Order (ev_graph e)"
  obtain s1 where s1: "sfold (advance lib e now) ?order s = (s1, None)"
    using assms by (auto simp: take_turn_def split: prod.splits option.splits)
  obtain d where d: "dispatch lib e now s1 = (d, None)"
    using assms s1 by (auto simp: take_turn_def split: prod.splits option.splits)
  have adv: "pending_steps ?order s1 < pending_steps ?order s \<or>
      pending_steps ?order s1 \<le> pending_steps ?order s \<and> live_total ?order s1 = live_total ?order s"
    by (rule moved_work[OF advances_moved[OF s1]])
  have dis: "fewer ?order s1 (d_state d) (d_broke d)" using dispatch_fewer[of e s1 lib now] d by simp
  have "pending_steps ?order t = pending_steps ?order s1 \<and> live_total ?order t < live_total ?order s1"
  proof (cases "d_broke d")
    case True
    then have "t = d_state d" using assms s1 d by (simp add: take_turn_def)
    with fewer_work[OF dis] True show ?thesis by simp
  next
    case False
    then have "stops_of e now (d_state d) = (t, extra)" "extra \<noteq> []"
      using assms s1 d by (auto simp: take_turn_def split: prod.splits if_splits)
    with stops_fewer[of e "d_state d" now] have "fewer ?order (d_state d) t True" by simp
    with fewer_work[OF this] fewer_work[OF dis] show ?thesis by simp
  qed
  with adv show ?thesis by (auto simp: work_left_def)
qed

function passes ::
  "library \<Rightarrow> evaluator \<Rightarrow> time \<Rightarrow> stop list \<Rightarrow> state \<Rightarrow> state \<times> (graph_error, task list \<times> stop list) result" where
  "passes lib e now stops s =
     (case take_turn lib e now s of
        (t, TurnFailed err) \<Rightarrow> (t, Inl err)
      | (t, TurnAgain extra) \<Rightarrow> passes lib e now (stops @ extra) t
      | (t, TurnOver start) \<Rightarrow> (t, Inr (start, stops)))"
  by pat_completeness auto
termination
  by (relation "inv_image (less_than <*lex*> less_than) (\<lambda>(lib, e, now, stops, s). work_left e s)")
    (auto dest: take_turn_less[OF sym])

declare passes.simps [simp del]

text \<open>The loop by what the turn answered, which is how it is evaluated.\<close>

definition after_turn ::
  "library \<Rightarrow> evaluator \<Rightarrow> time \<Rightarrow> stop list \<Rightarrow> state \<times> turn \<Rightarrow> state \<times> (graph_error, task list \<times> stop list) result" where
  "after_turn lib e now stops p =
     (case p of
        (t, TurnFailed err) \<Rightarrow> (t, Inl err)
      | (t, TurnAgain extra) \<Rightarrow> passes lib e now (stops @ extra) t
      | (t, TurnOver start) \<Rightarrow> (t, Inr (start, stops)))"

lemma after_turn_code [code]:
  "after_turn lib e now stops (t, TurnFailed err) = (t, Inl err)"
  "after_turn lib e now stops (t, TurnAgain extra) = passes lib e now (stops @ extra) t"
  "after_turn lib e now stops (t, TurnOver start) = (t, Inr (start, stops))"
  by (simp_all add: after_turn_def)

lemma passes_code [code]: "passes lib e now stops s = after_turn lib e now stops (take_turn lib e now s)"
  by (simp add: after_turn_def passes.simps[of lib e now stops s])

text \<open>
  The state is compared as it is persisted. Writing it as JSON fails only on a moment RFC 3339 has no
  spelling for. A pass that changes a reason changes a verdict or a shard beside it, so comparing the
  reasons as values answers what comparing their sentences does.
\<close>

definition ports_moments :: "ports \<Rightarrow> time list" where
  "ports_moments ports = map (\<lambda>(port, env). m_ProducedAt (en_Meta env)) ports"

definition shard_moments :: "shard_state \<Rightarrow> time list" where
  "shard_moments sh =
     [sd_DispatchedAt sh, sd_StartedAt sh, sd_FinishedAt sh, sd_NextAttemptAt sh] @ ports_moments (sd_Ports sh)"

definition moments :: "state \<Rightarrow> time list" where
  "moments s =
     [r_StartedAt (s_Run s), r_FinishedAt (s_Run s)] @
     concat (map (\<lambda>(name, ss). ss_Since ss # ports_moments (ss_Ports ss) @ concat (map shard_moments (ss_Shards ss)))
       (s_Steps s))"

definition marshals :: "state \<Rightarrow> bool" where
  "marshals s = list_all (\<lambda>t. time_text t \<noteq> None) (moments s)"

definition run_ended :: "run_state \<Rightarrow> time \<Rightarrow> run \<Rightarrow> run" where
  "run_ended st now r = r\<lparr>r_State := st, r_FinishedAt := now\<rparr>"

definition judged :: "evaluator \<Rightarrow> time \<Rightarrow> state \<Rightarrow> run" where
  "judged e now s =
     (let v = runVerdict s (Some (tolerates e)); r = (s_Run s)\<lparr>r_State := v\<rparr> in
      if run_Terminal v \<and> r_FinishedAt r = zero_time then r\<lparr>r_FinishedAt := now\<rparr> else r)"

definition tick :: "state \<Rightarrow> state" where
  "tick s = s\<lparr>s_Seq := s_Seq s + 1\<rparr>"

definition decide :: "library \<Rightarrow> evaluator \<Rightarrow> time \<Rightarrow> state \<Rightarrow> state \<times> (graph_error, plan) result" where
  "decide lib e now s =
     (if \<not> marshals s then (s, Inl StateUnwritable)
      else case passes lib e now [] s of
             (t, Inl err) \<Rightarrow> (t, Inl err)
           | (t, Inr (start, stops)) \<Rightarrow>
               (let plan = \<lparr>pl_Start = start, pl_Stop = stops, pl_Wake = wake e t now\<rparr>;
                    after = t\<lparr>s_Run := judged e now t\<rparr> in
                if \<not> marshals after then (after, Inl StateUnwritable)
                else (if after = s then after else tick after, Inr plan)))"

definition end_run :: "evaluator \<Rightarrow> run_state \<Rightarrow> reason \<Rightarrow> time \<Rightarrow> state \<Rightarrow> state" where
  "end_run e st why now s = tick (endSteps e why now (s\<lparr>s_Run := run_ended st now (s_Run s)\<rparr>))"

definition Next :: "library \<Rightarrow> evaluator \<Rightarrow> time \<Rightarrow> state \<Rightarrow> state \<times> (graph_error, plan) result" where
  "Next lib e now s =
     (let st = r_State (s_Run s) in
      if st = Cancelled then (s, Inr (stopEverything e s StopCancelled))
      else if st = TimedOut then (s, Inr (stopEverything e s StopDeadline))
      else if run_Terminal st then (s, Inr empty_plan)
      else if (case deadline e s of None \<Rightarrow> False | Some dl \<Rightarrow> \<not> now < dl)
      then let t = end_run e TimedOut ReasonDeadline now s in (t, Inr (stopEverything e t StopDeadline))
      else decide lib e now s)"

section \<open>Record\<close>

definition stoppedExit :: "string \<Rightarrow> nat \<Rightarrow> task_result \<Rightarrow> state \<Rightarrow> state" where
  "stoppedExit name i r s =
     (let sh = shards_at s name ! i in
      if \<not> sd_Stopped sh \<or> \<not> sd_NoExitCode sh then s
      else if \<not> task_Terminal (res_State r) \<or> res_State r = TaskLost \<or> res_Requeue r \<noteq> sd_Requeue sh then s
      else if res_NoExitCode r \<or> res_StartedAt r = zero_time then s
      else tick (set_shard name i (sh\<lparr>sd_ExitCode := res_ExitCode r, sd_NoExitCode := False,
             sd_StartedAt := (if sd_StartedAt sh = zero_time then res_StartedAt r else sd_StartedAt sh)\<rparr>) s))"

text \<open>What the shard takes from the report, before the retry policy is asked.\<close>

definition reported :: "task_result \<Rightarrow> shard_state \<Rightarrow> shard_state" where
  "reported r sh =
     (let sh' = sh\<lparr>sd_NextAttemptAt := zero_time, sd_Task := res_State r, sd_ExitCode := res_ExitCode r,
            sd_NoExitCode := res_NoExitCode r,
            sd_DispatchedAt := (if res_DispatchedAt r \<noteq> zero_time then res_DispatchedAt r else sd_DispatchedAt sh),
            sd_Called := (if res_Called r \<noteq> [] then res_Called r else sd_Called sh),
            sd_StartedAt := (if res_StartedAt r \<noteq> zero_time then res_StartedAt r else sd_StartedAt sh),
            sd_FinishedAt := (if res_FinishedAt r \<noteq> zero_time then res_FinishedAt r else sd_FinishedAt sh)\<rparr> in
      if shardVerdict (res_State r) (res_ExitCode r) = VerdictSucceeded
      then sh'\<lparr>sd_Ports := res_Outputs r, sd_MemoisedFrom := res_MemoisedFrom r\<rparr> else sh')"

definition back_to_pending :: "time \<Rightarrow> shard_state \<Rightarrow> shard_state" where
  "back_to_pending when sh =
     sh\<lparr>sd_Task := TaskPending, sd_ExitCode := 0, sd_NoExitCode := False, sd_Ports := [], sd_Called := [],
        sd_NextAttemptAt := when, sd_DispatchedAt := zero_time, sd_StartedAt := zero_time, sd_FinishedAt := zero_time\<rparr>"

text \<open>The failure of an attempt: a requeue, the bound on requeues, a further attempt, or a failure that stands.\<close>

definition failed_attempt ::
  "evaluator \<Rightarrow> state \<Rightarrow> string \<Rightarrow> step \<Rightarrow> task_result \<Rightarrow> shard_state \<times> step_state \<Rightarrow> shard_state \<times> step_state" where
  "failed_attempt e s name st r = (\<lambda>(sh, ss).
     let said = (\<lambda>ss. if res_Reason r \<noteq> [] \<and> ss_Reason ss = NoReason \<and> ss_Verdict ss = VerdictRunning
                       then ss\<lparr>ss_Reason := ReasonSaid (res_Reason r)\<rparr> else ss) in
     if requeued (st_Retry st) (st_Idempotent st) sh (ev_maxRequeues e)
     then (back_to_pending zero_time (sh\<lparr>sd_Requeue := sd_Requeue sh + 1\<rparr>), ss)
     else if requeueable (st_Retry st) (st_Idempotent st) sh
     then (sh, said (if ss_Verdict ss = VerdictRunning
                     then ss\<lparr>ss_Reason := ReasonLoss (taskID s name sh) (sd_Requeue sh + 1) (ev_maxRequeues e)\<rparr>
                     else ss))
     else case nextAttempt (st_Retry st) sh of
            Some when \<Rightarrow> (back_to_pending when (sh\<lparr>sd_Attempt := sd_Attempt sh + 1, sd_Requeue := 0\<rparr>), ss)
          | None \<Rightarrow> (sh, said ss))"

definition take_report :: "evaluator \<Rightarrow> string \<Rightarrow> nat \<Rightarrow> task_result \<Rightarrow> state \<Rightarrow> state" where
  "take_report e name i r s =
     (let ss = at_step s name; sh = reported r (ss_Shards ss ! i);
          (sh', ss') = (if task_Terminal (res_State r) \<and> shardVerdict (res_State r) (res_ExitCode r) = VerdictFailed
                        then case Step (ev_graph e) name of
                               None \<Rightarrow> (sh, ss)
                             | Some st \<Rightarrow> failed_attempt e s name st r (sh, ss)
                        else (sh, ss)) in
      tick (put_step name (ss'\<lparr>ss_Shards := (ss_Shards ss')[i := sh']\<rparr>) s))"

definition Record :: "evaluator \<Rightarrow> task_result \<Rightarrow> time \<Rightarrow> state \<Rightarrow> effect" where
  "Record e r now s =
     (case ParseTaskID (res_Task r) of
        Inl err \<Rightarrow> (s, Some (BadTask err))
      | Inr (run, name, attempt, sd) \<Rightarrow>
          if run \<noteq> r_ID (s_Run s) then (s, Some (OtherRun run (r_ID (s_Run s))))
          else if \<not> has_key (s_Steps s) name then (s, Some (NoSuchStep name))
          else case find (\<lambda>i. sd_Shard (shards_at s name ! i) = sd) [0..<length (shards_at s name)] of
                 None \<Rightarrow> (s, Some (NoSuchShard name sd))
               | Some i \<Rightarrow>
                   (let sh = shards_at s name ! i in
                    if sd_Attempt sh \<noteq> attempt then (s, None)
                    else if task_Terminal (sd_Task sh) then (stoppedExit name i r s, None)
                    else if task_Terminal (res_State r) \<and> res_Requeue r \<noteq> sd_Requeue sh then (s, None)
                    else (take_report e name i r s, None)))"

section \<open>Cancel, Outputs, New and Start\<close>

definition Cancel :: "evaluator \<Rightarrow> time \<Rightarrow> state \<Rightarrow> state" where
  "Cancel e now s = (if run_Terminal (r_State (s_Run s)) then s else end_run e Cancelled ReasonCancelled now s)"

definition Outputs :: "evaluator \<Rightarrow> state \<Rightarrow> (graph_error, (string, envelope) gomap) result" where
  "Outputs e s =
     rpairs (map (\<lambda>(name, out). (name, case outputOf s (o_Step out) (o_Port out) of
       Inl err \<Rightarrow> Inl (OutputMissing name err) | Inr env \<Rightarrow> Inr env)) (entries (wf_Outputs (g_wf (ev_graph e)))))"

record options =
  op_Inputs :: "(string, json) gomap"
  op_Vars :: "(string, json) gomap"
  op_Trigger :: "(string, json) gomap"
  op_Event :: "(string, json) gomap"
  op_Limits :: limits
  op_MaxRequeues :: "int option"
  op_MaxRunDuration :: duration
  op_Reuse :: "(string, step_state) gomap"

definition New :: "graph \<Rightarrow> state \<Rightarrow> limits \<Rightarrow> int \<Rightarrow> duration \<Rightarrow> (graph_error, evaluator) result" where
  "New g s l maxRequeues maxRunDuration =
     (if maxRequeues < 0 then Inl (NegativeRequeues maxRequeues)
      else if maxRunDuration < 0 then Inl (NegativeDuration maxRunDuration)
      else if s_Version s \<noteq> StateVersion then Inl (StateVersionOther (s_Version s))
      else Inr \<lparr>ev_graph = g, ev_limits = (if l = no_limits then DefaultLimits else l), ev_maxRequeues = maxRequeues,
                ev_maxRunDuration = maxRunDuration\<rparr>)"

definition Reusable :: "verdict \<Rightarrow> run_state \<Rightarrow> bool" where
  "Reusable v run = (if \<not> verdict_Terminal v then False else v \<noteq> VerdictCancelled \<or> (run \<noteq> Cancelled \<and> run \<noteq> TimedOut))"

definition Reused :: "step_state \<Rightarrow> string \<Rightarrow> step_state" where
  "Reused from_state run =
     zero_step\<lparr>ss_Verdict := ss_Verdict from_state, ss_Since := ss_Since from_state, ss_Reason := ss_Reason from_state,
       ss_Ports := map (\<lambda>(port, env). (port, env\<lparr>en_Meta := (en_Meta env)\<lparr>m_RunID := run\<rparr>\<rparr>)) (ss_Ports from_state)\<rparr>"

definition reuse_step :: "graph \<Rightarrow> string \<times> step_state \<Rightarrow> state \<Rightarrow> (graph_error, state) result" where
  "reuse_step g = (\<lambda>(name, ss) s.
     if Step g name = None then Inl (ReuseUnknown name)
     else if \<not> verdict_Terminal (ss_Verdict ss) then Inl (ReuseNotOver name (ss_Verdict ss))
     else Inr (put_step name ss s))"

definition reuse :: "graph \<Rightarrow> (string, step_state) gomap \<Rightarrow> state \<Rightarrow> (graph_error, state) result" where
  "reuse g steps s = rfold (reuse_step g) (entries steps) s"

definition fresh :: "graph \<Rightarrow> run \<Rightarrow> options \<Rightarrow> time \<Rightarrow> state" where
  "fresh g run opts at =
     \<lparr>s_Version = StateVersion,
      s_Run = (if r_StartedAt run = zero_time then run\<lparr>r_StartedAt := at\<rparr> else run),
      s_Inputs = op_Inputs opts, s_Vars = op_Vars opts, s_Trigger = op_Trigger opts, s_Event = op_Event opts,
      s_Steps = map (\<lambda>name. (name, zero_step)) (Steps g), s_Seq = 0\<rparr>"

definition Start :: "graph \<Rightarrow> run \<Rightarrow> options \<Rightarrow> time \<Rightarrow> (graph_error, evaluator \<times> state) result" where
  "Start g run opts at =
     (case RunID_Validate (r_ID run) of
        Some err \<Rightarrow> Inl (BadRun err)
      | None \<Rightarrow>
          rbind (reuse g (op_Reuse opts) (fresh g run opts at)) (\<lambda>s.
          rbind (New g s (op_Limits opts) (case op_MaxRequeues opts of None \<Rightarrow> DefaultMaxRequeues | Some n \<Rightarrow> n)
                   (op_MaxRunDuration opts)) (\<lambda>e. Inr (e, s))))"

end
