(* ===== verification/Runs.thy ===== *)
theory Runs
  imports Decisions
begin

text \<open>
  What holds of a run however it goes. The operations of the evaluator are broken into the changes they
  make to the state, a step relation \<open>change\<close>; what every change keeps, a pass keeps. A run is a
  machine that starts in a state of \<open>Start\<close> and moves by \<open>Next\<close>, \<open>Record\<close> and \<open>Cancel\<close>, in any order,
  at any moment and with any report.
\<close>

section \<open>The changes a pass makes\<close>

abbreviation step_in :: "evaluator \<Rightarrow> string \<Rightarrow> step option" where
  "step_in e name \<equiv> Step (ev_graph e) name"

definition keyed :: "string \<Rightarrow> nat \<Rightarrow> string \<Rightarrow> state \<Rightarrow> state" where
  "keyed name i key s = set_shard name i ((shards_at s name ! i)\<lparr>sd_CacheKey := key\<rparr>) s"

definition stopped :: "time \<Rightarrow> shard_state \<Rightarrow> shard_state" where
  "stopped now sh = sh\<lparr>sd_Task := TaskCancelled, sd_ExitCode := 0, sd_NoExitCode := True, sd_Stopped := True,
     sd_Ports := [], sd_NextAttemptAt := zero_time, sd_FinishedAt := now\<rparr>"

inductive change :: "evaluator \<Rightarrow> time \<Rightarrow> state \<Rightarrow> state \<Rightarrow> bool" for e now where
  CallsOff: "step_in e n \<noteq> None \<Longrightarrow> \<not> verdict_Terminal (verdict_at s n) \<Longrightarrow> change e now s (cancel n why now s)"
| Ends: "step_in e n = Some st \<Longrightarrow> verdict_at s n = VerdictPending \<Longrightarrow> v \<in> {VerdictSucceeded, VerdictFailed, VerdictSkipped} \<Longrightarrow>
    end_step e n st (zero_step\<lparr>ss_Verdict := v, ss_Reason := why\<rparr>) un now s = Inr t \<Longrightarrow> change e now s t"
| Starts: "step_in e n = Some st \<Longrightarrow> verdict_at s n = VerdictPending \<Longrightarrow> fanOut n st inputs = Inr ws \<Longrightarrow> ws \<noteq> [] \<Longrightarrow>
    change e now s (put_step n (started ws now) s)"
| SettlesCancelled: "verdict_at s n = VerdictRunning \<Longrightarrow> stepVerdict (shards_at s n) = VerdictCancelled \<Longrightarrow>
    change e now s (put_step n ((at_step s n)\<lparr>ss_Verdict := VerdictCancelled, ss_Since := now\<rparr>) s)"
| Settles: "step_in e n = Some st \<Longrightarrow> verdict_at s n = VerdictRunning \<Longrightarrow> stepVerdict (shards_at s n) = v \<Longrightarrow>
    verdict_Terminal v \<Longrightarrow> v \<noteq> VerdictCancelled \<Longrightarrow>
    end_step e n st ((at_step s n)\<lparr>ss_Verdict := v\<rparr>) un now s = Inr t \<Longrightarrow> change e now s t"
| Unbuilds: "verdict_at s n = VerdictRunning \<Longrightarrow> i < length (shards_at s n) \<Longrightarrow> due (shards_at s n ! i) now \<Longrightarrow>
    change e now s (unbuilt n i err now s)"
| Keys: "verdict_at s n = VerdictRunning \<Longrightarrow> i < length (shards_at s n) \<Longrightarrow> change e now s (keyed n i key s)"
| Stops: "i < length (shards_at s n) \<Longrightarrow> \<not> task_Terminal (sd_Task (shards_at s n ! i)) \<Longrightarrow>
    verdict_at s n = VerdictCancelled \<or> verdict_at s n = VerdictRunning \<Longrightarrow>
    change e now s (set_shard n i (stopped now (shards_at s n ! i)) s)"

abbreviation changes :: "evaluator \<Rightarrow> time \<Rightarrow> state \<Rightarrow> state \<Rightarrow> bool" where
  "changes e now \<equiv> (change e now)\<^sup>*\<^sup>*"

lemma cancel_changes:
  assumes "step_in e n \<noteq> None"
  shows "changes e now s (cancel n why now s)"
proof (cases "verdict_Terminal (verdict_at s n)")
  case True
  then show ?thesis by (simp add: cancel_def)
next
  case False
  with assms show ?thesis by (blast intro: change.CallsOff)
qed

lemma foldl_changes:
  assumes "\<And>s x. x \<in> set xs \<Longrightarrow> changes e now s (f s x)"
  shows "changes e now s (foldl f s xs)"
  using assms
proof (induction xs arbitrary: s)
  case (Cons x xs)
  then show ?case using rtranclp_trans[of "change e now" s "f s x"] by simp
qed simp

lemma ends_changes:
  assumes "step_in e n = Some st" "verdict_at s n = VerdictPending" "v \<in> {VerdictSucceeded, VerdictFailed, VerdictSkipped}"
  shows "changes e now s (fst (effect_of s (end_step e n st (zero_step\<lparr>ss_Verdict := v, ss_Reason := why\<rparr>) un now s)))"
  using change.Ends[OF assms, of why un now] by (auto simp: effect_of_def split: sum.splits)

lemma skip_changes:
  "step_in e n = Some st \<Longrightarrow> verdict_at s n = VerdictPending \<Longrightarrow> changes e now s (fst (skip e n st why now s))"
  unfolding skip_def by (intro ends_changes) auto

lemma refused_changes:
  "step_in e n = Some st \<Longrightarrow> verdict_at s n = VerdictPending \<Longrightarrow> changes e now s (fst (refused e n st err now s))"
  unfolding refused_def by (intro ends_changes) auto

lemma divide_changes:
  assumes "step_in e n = Some st" "verdict_at s n = VerdictPending"
  shows "changes e now s (fst (divide e n st arrived now s))"
proof -
  have "changes e now s (fst (effect_of s (end_step e n st (zero_step\<lparr>ss_Verdict := VerdictSucceeded\<rparr>) un now s)))" for un
    using ends_changes[OF assms, of VerdictSucceeded now NoReason un] by (simp add: zero_step_def)
  then show ?thesis
    using assms change.Starts[OF assms] by (auto simp: divide_def intro: refused_changes split: sum.splits)
qed

text \<open>A graph whose order names every step once, after every step it needs; \<open>Build\<close> makes no other.\<close>

definition layered :: "graph \<Rightarrow> bool" where
  "layered g \<longleftrightarrow> distinct (Order g) \<and> set (Order g) = set (Steps g) \<and>
     (\<forall>i < length (Order g). \<forall>e \<in> set (Edges g (Order g ! i)). \<exists>j < i. Order g ! j = e_Step e)"

lemma Build_layered:
  assumes "Build other schema w manifests = Inr g"
  shows "layered g"
proof -
  note b = Build_Inr[OF assms]
  have "\<exists>j < i. g_order g ! j = e_Step e"
    if "i < length (g_order g)" "e \<in> set (edgesOf w (g_order g ! i))" for i e
    using topological_Inr(3)[OF b(2) that no_self_edge[OF b(5) that(2)]] .
  then show ?thesis
    using topological_Inr(1,2)[OF b(2)] b(1) by (simp add: layered_def Order_def Steps_def Edges_edgesOf)
qed

lemma Step_in_Steps: "Step g n \<noteq> None \<longleftrightarrow> n \<in> set (Steps g)"
  by (simp add: Step_def Steps_def map_of_eq_None_iff set_sorted_keys)

lemma layered_no_loop:
  assumes "layered g" "e \<in> set (Edges g n)"
  shows "e_Step e \<noteq> n" "e_Step e \<in> set (Order g)" "n \<in> set (Order g)"
proof -
  have "n \<in> set (Steps g)" using assms(2) Step_in_Steps[of g n] by (auto simp: Edges_def split: option.splits)
  then show n: "n \<in> set (Order g)" using assms(1) by (simp add: layered_def)
  then obtain i where i: "i < length (Order g)" "Order g ! i = n" by (auto simp: in_set_conv_nth)
  then obtain j where j: "j < i" "Order g ! j = e_Step e" using assms unfolding layered_def by blast
  show "e_Step e \<noteq> n" using i j assms(1) by (auto simp: layered_def nth_eq_iff_index_eq)
  show "e_Step e \<in> set (Order g)" using i j by (metis nth_mem order_less_trans)
qed

lemma endSteps_changes:
  assumes "layered (ev_graph e)"
  shows "changes e now s (endSteps e why now s)"
proof -
  have "step_in e n \<noteq> None" if "n \<in> set (Order (ev_graph e))" for n
    using assms that Step_in_Steps by (auto simp: layered_def)
  then show ?thesis
    unfolding endSteps_def by (intro foldl_changes) (auto intro: cancel_changes)
qed

lemma abandon_changes: "changes e now s (abandon e name arrived now s)"
  unfolding abandon_def by (intro foldl_changes cancel_changes) (auto simp: superseded_def)

lemma cancels_elsewhere: "m \<notin> set ns \<Longrightarrow> at_step (foldl (\<lambda>s n. cancel n why now s) s ns) m = at_step s m"
proof (induction ns arbitrary: s)
  case (Cons n ns)
  then have "at_step (foldl (\<lambda>s n. cancel n why now s) (cancel n why now s) ns) m = at_step (cancel n why now s) m"
    by (intro Cons.IH) simp
  also have "\<dots> = at_step s m" using Cons.prems by (simp add: at_cancel)
  finally show ?case by simp
qed simp

lemma read_start:
  assumes "read lib e s name st = Inr (GateStart arrived)"
  obtains fd where "fed lib e s name st = Inr fd"
    "barrier name st (Edges (ev_graph e) name) (s_Steps s) fd (r_ID (s_Run s)) (ev_limits e) (r_StartedAt (s_Run s)) = Inr (GateStart arrived)"
  using assms by (auto simp: read_def)

lemma superseded_abandoned:
  "n \<in> set (superseded stepOf taken consumers outputs consumer abandoned steps) \<Longrightarrow> n \<in> e_Step ` set abandoned"
proof -
  have "set (foldl (\<lambda>order e. if e_Step e \<in> set order then order else order @ [e_Step e]) acc es) = set acc \<union> e_Step ` set es"
    for acc es by (induction es arbitrary: acc) auto
  then show "n \<in> set (superseded stepOf taken consumers outputs consumer abandoned steps) \<Longrightarrow> n \<in> e_Step ` set abandoned"
    by (auto simp: superseded_def)
qed

lemma abandon_elsewhere:
  assumes "layered (ev_graph e)" "read lib e s name st = Inr (GateStart arrived)"
  shows "at_step (abandon e name arrived now s) name = at_step s name"
proof -
  obtain fd where "barrier name st (Edges (ev_graph e) name) (s_Steps s) fd (r_ID (s_Run s)) (ev_limits e)
      (r_StartedAt (s_Run s)) = Inr (GateStart arrived)"
    using assms(2) by (rule read_start)
  note edges = barrier_start(4)[OF this]
  have "name \<notin> e_Step ` set (ar_Abandoned arrived)" using edges layered_no_loop(1)[OF assms(1)] by blast
  then have "name \<notin> set (superseded (Step (ev_graph e)) (published (ev_graph e)) (Consumers (ev_graph e))
      (wf_Outputs (g_wf (ev_graph e))) name (ar_Abandoned arrived) (s_Steps s))"
    using superseded_abandoned by blast
  then show ?thesis unfolding abandon_def by (rule cancels_elsewhere)
qed

lemma begin_changes:
  assumes "layered (ev_graph e)" "verdict_at s name = VerdictPending"
  shows "changes e now s (fst (begin_step lib e name now s))"
proof (cases "step_in e name")
  case None
  then show ?thesis by (simp add: begin_step_def)
next
  case (Some st)
  note pending = skip_changes[OF Some] refused_changes[OF Some] divide_changes[OF Some]
  show ?thesis
  proof (cases "read lib e s name st")
    case (Inl err)
    then show ?thesis using Some pending(2)[OF assms(2)] by (simp add: begin_step_def)
  next
    case (Inr g)
    show ?thesis
    proof (cases g)
      case GateWait
      then show ?thesis using Some Inr by (simp add: begin_step_def)
    next
      case (GateSkip why)
      then show ?thesis using Some Inr pending(1)[OF assms(2)] by (simp add: begin_step_def)
    next
      case (GateStart arrived)
      let ?s = "abandon e name arrived now s"
      have "verdict_at ?s name = VerdictPending"
        using abandon_elsewhere[OF assms(1)] Inr GateStart assms(2) by simp
      note p = pending[OF this]
      have "changes e now s ?s" by (rule abandon_changes)
      moreover have "changes e now ?s (fst (begin_step lib e name now s))"
        using Some Inr GateStart p by (auto simp: begin_step_def Let_def split: sum.splits bool.splits)
      ultimately show ?thesis by (rule rtranclp_trans)
    qed
  qed
qed

lemma settle_changes:
  assumes "verdict_at s name = VerdictRunning"
  shows "changes e now s (fst (settle lib e name now s))"
proof -
  have "changes e now s (fst (effect_of s (end_step e name st ((at_step s name)\<lparr>ss_Verdict := stepVerdict (shards_at s name)\<rparr>) un now s)))"
    if "step_in e name = Some st" "verdict_Terminal (stepVerdict (shards_at s name))"
      "stepVerdict (shards_at s name) \<noteq> VerdictCancelled" for st un
    using change.Settles[OF that(1) assms refl that(2,3), of un] by (auto simp: effect_of_def split: sum.splits)
  then show ?thesis
    using change.SettlesCancelled[OF assms]
    by (auto simp: settle_def Let_def split: option.splits sum.splits)
qed

lemma advance_changes: "layered (ev_graph e) \<Longrightarrow> changes e now s (fst (advance lib e now name s))"
  by (auto simp: advance_def begin_changes settle_changes split: verdict.splits)

lemma sfold_changes:
  assumes "\<And>x s. x \<in> set xs \<Longrightarrow> changes e now s (fst (f x s))"
  shows "changes e now s (fst (sfold f xs s))"
  by (rule sfold_invariant[where P = "changes e now s"]) (auto intro: rtranclp_trans assms)

text \<open>Handing out keeps the verdicts and the number of shards of every step.\<close>

lemma dispatch_shard_changes:
  assumes "verdict_at (d_state d) name = VerdictRunning" "i < length (shards_at (d_state d) name)"
  shows "changes e now (d_state d) (d_state (fst (dispatch_shard lib e now name st i d)))"
  using change.Unbuilds[OF assms] change.Keys[OF assms]
  by (auto simp: dispatch_shard_def Let_def keyed_def split: option.splits sum.splits)

lemma dispatch_shard_keeps:
  "verdict_at (d_state (fst (dispatch_shard lib e now name st i d))) m = verdict_at (d_state d) m"
  "length (shards_at (d_state (fst (dispatch_shard lib e now name st i d))) m) = length (shards_at (d_state d) m)"
  by (auto simp: dispatch_shard_def Let_def at_unbuilt at_set_shard split: option.splits sum.splits)

lemma dispatch_step_changes: "changes e now (d_state d) (d_state (fst (dispatch_step lib e now name d)))"
proof (cases "verdict_at (d_state d) name = VerdictRunning")
  case True
  let ?n = "length (shards_at (d_state d) name)"
  let ?P = "\<lambda>d'::dispatching. changes e now (d_state d) (d_state d') \<and> verdict_at (d_state d') name = VerdictRunning \<and>
      length (shards_at (d_state d') name) = ?n"
  have "?P (fst (sfold (dispatch_shard lib e now name st) [0..<?n] d'))" if "d_state d' = d_state d" for st and d' :: dispatching
  proof (rule sfold_invariant[where P = ?P])
    show "?P d'" using that True by simp
    fix i and d'' :: dispatching
    assume i: "i \<in> set [0..<?n]" and P: "?P d''"
    have "changes e now (d_state d'') (d_state (fst (dispatch_shard lib e now name st i d'')))"
      using i P by (intro dispatch_shard_changes) auto
    then show "?P (fst (dispatch_shard lib e now name st i d''))"
      using P by (auto simp: dispatch_shard_keeps intro: rtranclp_trans)
  qed
  then show ?thesis by (auto simp: dispatch_step_def Let_def split: option.splits)
qed (simp add: dispatch_step_def Let_def)

lemma dispatch_changes: "changes e now s (d_state (fst (dispatch lib e now s)))"
  unfolding dispatch_def
  by (rule sfold_invariant[where P = "\<lambda>d::dispatching. changes e now s (d_state d)"])
    (auto intro: rtranclp_trans dispatch_step_changes)

lemma end_shard_stopped:
  "fst (end_shard name why now (s, stops) i) = set_shard name i (stopped now (shards_at s name ! i)) s"
  by (simp add: end_shard_def stopped_def Let_def)

lemma end_shards_changes:
  assumes "verdict_at s name = VerdictCancelled \<or> verdict_at s name = VerdictRunning" "distinct is"
    and "\<And>i. i \<in> set is \<Longrightarrow> i < length (shards_at s name) \<and> \<not> task_Terminal (sd_Task (shards_at s name ! i))"
  shows "changes e now s (fst (foldl (end_shard name why now) (s, stops) is))"
  using assms
proof (induction "is" arbitrary: s stops)
  case (Cons i "is")
  obtain t extra where t: "end_shard name why now (s, stops) i = (t, extra)" by fastforce
  then have ts: "t = set_shard name i (stopped now (shards_at s name ! i)) s"
    using end_shard_stopped[of name why now s stops i] by simp
  have "change e now s t" unfolding ts using Cons.prems(1) Cons.prems(3)[of i] by (intro change.Stops) auto
  moreover have "changes e now t (fst (foldl (end_shard name why now) (t, extra) is))"
  proof (rule Cons.IH)
    show "verdict_at t name = VerdictCancelled \<or> verdict_at t name = VerdictRunning"
      using Cons.prems(1) by (simp add: ts at_set_shard)
    show "distinct is" using Cons.prems(2) by simp
    fix j assume j: "j \<in> set is"
    then have "i \<noteq> j" using Cons.prems(2) by auto
    then show "j < length (shards_at t name) \<and> \<not> task_Terminal (sd_Task (shards_at t name ! j))"
      using Cons.prems(3)[of j] j by (simp add: ts at_set_shard)
  qed
  ultimately show ?case using t by simp
qed simp

lemma to_stop_verdict:
  "to_stop e name ss = Some p \<Longrightarrow> ss_Verdict ss = VerdictCancelled \<or> ss_Verdict ss = VerdictRunning"
  by (auto simp: to_stop_def split: if_splits option.splits)

lemma stop_step_changes: "changes e now (fst p) (fst (stop_step e now p name))"
proof -
  obtain s stops where p: "p = (s, stops)" by fastforce
  show ?thesis
  proof (cases "to_stop e name (at_step s name)")
    case None
    then show ?thesis by (simp add: p stop_step_def)
  next
    case (Some q)
    obtain why "is" where q: "q = (why, is)" by fastforce
    from end_shards_changes[OF to_stop_verdict[OF Some] to_stop_live[OF Some[unfolded q]]]
    show ?thesis using Some by (simp add: p q stop_step_def)
  qed
qed

lemma stops_changes: "changes e now s (fst (stops_of e now s))"
proof -
  have "changes e now (fst p) (fst (foldl (stop_step e now) p ns))" for p ns
  proof (induction ns arbitrary: p)
    case (Cons n ns)
    show ?case using rtranclp_trans[OF stop_step_changes[of e now p n] Cons.IH[of "stop_step e now p n"]] by simp
  qed simp
  from this[of "(s, [])"] show ?thesis by (simp add: stops_of_def)
qed

lemma take_turn_changes:
  assumes "layered (ev_graph e)"
  shows "changes e now s (fst (take_turn lib e now s))"
proof -
  obtain s1 r where s1: "sfold (advance lib e now) (Order (ev_graph e)) s = (s1, r)" by fastforce
  have adv: "changes e now s s1"
    using sfold_changes[of "Order (ev_graph e)" e now "advance lib e now" s] advance_changes[OF assms] s1 by force
  obtain d r' where d: "dispatch lib e now s1 = (d, r')" by fastforce
  have dis: "changes e now s1 (d_state d)" using dispatch_changes[of e now s1 lib] d by simp
  have "changes e now (d_state d) (fst (stops_of e now (d_state d)))" by (rule stops_changes)
  then show ?thesis
    using adv dis s1 d rtranclp_trans[OF adv dis]
    by (auto simp: take_turn_def intro: rtranclp_trans split: option.splits prod.splits)
qed

lemma passes_changes: "layered (ev_graph e) \<Longrightarrow> changes e now s (fst (passes lib e now stops s))"
proof (induction lib e now stops s rule: passes.induct)
  case (1 lib e now stops s)
  obtain t turn where t: "take_turn lib e now s = (t, turn)" by fastforce
  then have st: "changes e now s t" using take_turn_changes[OF "1.prems", of now s lib] by simp
  show ?case
  proof (cases turn)
    case (TurnAgain extra)
    with 1 t have "changes e now t (fst (passes lib e now (stops @ extra) t))" by simp
    then show ?thesis using st t TurnAgain by (simp add: passes.simps[of lib e now stops s])
  qed (use st t in \<open>simp_all add: passes.simps[of lib e now stops s]\<close>)
qed

section \<open>What every state of a run keeps\<close>

definition shard_ok :: "evaluator \<Rightarrow> string \<Rightarrow> shard_state \<Rightarrow> bool" where
  "shard_ok e n sh \<longleftrightarrow>
     (\<exists>st. step_in e n = Some st \<and> 1 \<le> sd_Attempt sh \<and> sd_Attempt sh \<le> max 1 (retryAttempts (st_Retry st))) \<and>
     0 \<le> sd_Requeue sh \<and> sd_Requeue sh \<le> ev_maxRequeues e \<and>
     (sd_NextAttemptAt sh \<noteq> zero_time \<longrightarrow> sd_Task sh = TaskPending \<or> sd_Task sh = TaskFailed \<and> sd_ExitCode sh = 120) \<and>
     (sd_Stopped sh \<longrightarrow> sd_Task sh = TaskCancelled) \<and>
     (sd_Ports sh \<noteq> [] \<longrightarrow> verdict_of sh = VerdictSucceeded)"

definition publishes_all :: "step \<Rightarrow> shard_state list \<Rightarrow> ports \<Rightarrow> bool" where
  "publishes_all st shards ports \<longleftrightarrow>
     (if st_Call st = None \<or> st_Outputs st \<noteq> [] then dom (map_of ports) = set (st_Outputs st)
      else shards \<noteq> [] \<longrightarrow> dom (map_of ports) = (\<Union>sh \<in> set shards. dom (map_of (sd_Ports sh))))"

definition step_ok :: "evaluator \<Rightarrow> string \<Rightarrow> step_state \<Rightarrow> bool" where
  "step_ok e n ss \<longleftrightarrow>
     (\<forall>sh \<in> set (ss_Shards ss). shard_ok e n sh) \<and> distinct (map sd_Shard (ss_Shards ss)) \<and>
     (case ss_Verdict ss of
        VerdictPending \<Rightarrow> ss_Shards ss = [] \<and> ss_Ports ss = []
      | VerdictRunning \<Rightarrow> ss_Shards ss \<noteq> [] \<and> ss_Ports ss = []
      | VerdictCancelled \<Rightarrow> ss_Ports ss = []
      | _ \<Rightarrow> (\<forall>sh \<in> set (ss_Shards ss). task_Terminal (sd_Task sh)) \<and>
            (\<exists>st. step_in e n = Some st \<and> publishes_all st (ss_Shards ss) (ss_Ports ss)))"

definition sound :: "evaluator \<Rightarrow> state \<Rightarrow> bool" where
  "sound e s \<longleftrightarrow> 0 \<le> ev_maxRequeues e \<and> (\<forall>n. has_key (s_Steps s) n \<longleftrightarrow> step_in e n \<noteq> None) \<and>
     (\<forall>n. step_ok e n (at_step s n))"

lemma sound_at: "sound e s \<Longrightarrow> step_ok e n (at_step s n)"
  by (simp add: sound_def)

lemma sound_put:
  assumes "sound e s" "step_in e n \<noteq> None" "step_ok e n ss"
  shows "sound e (put_step n ss s)"
  using assms by (auto simp: sound_def)

lemma sound_known: "sound e s \<Longrightarrow> verdict_at s n \<noteq> VerdictPending \<Longrightarrow> step_in e n \<noteq> None"
  by (force simp: sound_def at_step_def has_key_def split: option.splits)

lemma step_ok_zero: "step_ok e n zero_step"
  by (simp add: step_ok_def)

lemma step_ok_reason [simp]: "step_ok e n (ss\<lparr>ss_Reason := why\<rparr>) = step_ok e n ss"
  by (simp add: step_ok_def cong: verdict.case_cong)

lemma distinct_shards_update:
  assumes "distinct (map sd_Shard xs)" "i < length xs" "sd_Shard y = sd_Shard (xs ! i)"
  shows "distinct (map sd_Shard (xs[i := y]))"
proof -
  have "map sd_Shard (xs[i := y]) = map sd_Shard xs"
    using assms(2,3) by (simp add: map_update list_update_same_conv)
  with assms(1) show ?thesis by simp
qed

lemma fanOut_distinct: "fanOut n st inputs = Inr ws \<Longrightarrow> distinct (map wk_Shard ws)"
  by (auto simp: fanOut_def splitShards_def matrixShards_def split_work_def Let_def whole_def distinct_map inj_on_def
      split: fan_out.splits if_splits option.splits)

lemma end_step_ports:
  assumes "end_step e n st ss un now s = Inr t"
  obtains ports where "t = put_step n (ss\<lparr>ss_Ports := ports, ss_Since := now\<rparr>) s" "publishes_all st (ss_Shards ss) ports"
proof -
  obtain ports where p: "publish n st (ss_Shards ss) (r_ID (s_Run s)) now (ev_limits e) = Inr ports"
    using assms by (auto simp: end_step_def)
  have dom: "dom (map_of ports) = set (portsOf st (by_index (ss_Shards ss)))"
    using publish_Inr[OF p] by (fastforce simp: dom_def split: if_splits)
  have "publishes_all st (ss_Shards ss) ports"
    unfolding publishes_all_def dom by (auto simp: portsOf_def set_sorted_keys dom_map_of_conv_image_fst)
  moreover from this have "publishes_all st (ss_Shards ss) (AList.update unmatchedPort en ports)" if "unmatchedPort \<in> set (st_Outputs st)" for en
    using that by (auto simp: publishes_all_def)
  ultimately show thesis
    using assms p that
    by (auto simp: end_step_def unmatchedEnvelope_def Let_def split: if_splits option.splits)
qed

lemma step_ok_cancelled:
  "step_ok e n ss \<Longrightarrow> \<not> verdict_Terminal (ss_Verdict ss) \<Longrightarrow>
   step_ok e n (ss\<lparr>ss_Verdict := VerdictCancelled, ss_Reason := why, ss_Since := now\<rparr>)"
  by (auto simp: step_ok_def split: verdict.splits)

lemma step_ok_shard:
  assumes "step_ok e n ss" "i < length (ss_Shards ss)" "shard_ok e n sh" "sd_Shard sh = sd_Shard (ss_Shards ss ! i)"
    and "task_Terminal (sd_Task (ss_Shards ss ! i)) \<Longrightarrow> task_Terminal (sd_Task sh) \<and> sd_Ports sh = sd_Ports (ss_Shards ss ! i)"
  shows "step_ok e n (ss\<lparr>ss_Shards := (ss_Shards ss)[i := sh]\<rparr>)"
proof -
  have d: "distinct (map sd_Shard ((ss_Shards ss)[i := sh]))"
    using assms(1,2,4) by (intro distinct_shards_update) (auto simp: step_ok_def)
  have ok: "\<forall>x \<in> set ((ss_Shards ss)[i := sh]). shard_ok e n x"
    using assms(1,3) set_update_subset_insert[of "ss_Shards ss" i sh] by (auto simp: step_ok_def)
  have t: "\<forall>x \<in> set ((ss_Shards ss)[i := sh]). task_Terminal (sd_Task x)" if "\<forall>x \<in> set (ss_Shards ss). task_Terminal (sd_Task x)"
    using that assms(2,5) set_update_subset_insert[of "ss_Shards ss" i sh] by auto
  have p: "publishes_all st ((ss_Shards ss)[i := sh]) ports = publishes_all st (ss_Shards ss) ports"
    if "\<forall>x \<in> set (ss_Shards ss). task_Terminal (sd_Task x)" for st ports
  proof -
    have "map sd_Ports ((ss_Shards ss)[i := sh]) = map sd_Ports (ss_Shards ss)"
      using that assms(2,5) by (simp add: map_update list_update_same_conv)
    then have "sd_Ports ` set ((ss_Shards ss)[i := sh]) = sd_Ports ` set (ss_Shards ss)" by (metis set_map)
    then have "(\<Union>q \<in> sd_Ports ` set ((ss_Shards ss)[i := sh]). dom (map_of q)) = (\<Union>q \<in> sd_Ports ` set (ss_Shards ss). dom (map_of q))" by simp
    then show ?thesis by (simp add: publishes_all_def)
  qed
  show ?thesis using assms(1) d ok t p by (auto simp: step_ok_def split: verdict.splits)
qed

lemma shard_ok_at: "step_ok e n ss \<Longrightarrow> i < length (ss_Shards ss) \<Longrightarrow> shard_ok e n (ss_Shards ss ! i)"
  by (simp add: step_ok_def)

lemma sound_change:
  assumes "change e now s t" "sound e s"
  shows "sound e t"
  using assms
proof cases
  case (CallsOff n why)
  then show ?thesis
    using assms(2) by (auto simp: cancel_def intro!: sound_put step_ok_cancelled sound_at)
next
  case (Ends n st v why un)
  obtain ports where p: "t = put_step n ((zero_step\<lparr>ss_Verdict := v, ss_Reason := why\<rparr>)\<lparr>ss_Ports := ports, ss_Since := now\<rparr>) s"
    "publishes_all st [] ports"
    using end_step_ports[OF Ends(4)] by auto
  have "step_ok e n ((zero_step\<lparr>ss_Verdict := v, ss_Reason := why\<rparr>)\<lparr>ss_Ports := ports, ss_Since := now\<rparr>)"
    using Ends(1,3) p(2) by (auto simp: step_ok_def)
  then show ?thesis unfolding p(1) using Ends(1) by (intro sound_put[OF assms(2)]) auto
next
  case (Starts n st inputs ws)
  have "step_ok e n (started ws now)"
    using Starts(2,5) fanOut_distinct[OF Starts(4)] assms(2) by (auto simp: step_ok_def started_def shard_ok_def comp_def sound_def)
  then show ?thesis using Starts(1,2) by (auto intro: sound_put[OF assms(2)])
next
  case (SettlesCancelled n)
  have "step_ok e n ((at_step s n)\<lparr>ss_Verdict := VerdictCancelled, ss_Since := now\<rparr>)"
    using sound_at[OF assms(2), of n] SettlesCancelled(2) by (simp add: step_ok_def)
  then show ?thesis
    using sound_known[OF assms(2), of n] SettlesCancelled(1,2) by (auto intro: sound_put[OF assms(2)])
next
  case (Settles n st v un)
  obtain ports where p: "t = put_step n (((at_step s n)\<lparr>ss_Verdict := v\<rparr>)\<lparr>ss_Ports := ports, ss_Since := now\<rparr>) s"
    "publishes_all st (shards_at s n) ports"
    using end_step_ports[OF Settles(6)] by auto
  have "\<forall>sh \<in> set (shards_at s n). task_Terminal (sd_Task sh)"
    using Settles(3,4) stepVerdict_terminal_iff[of "shards_at s n"] by (auto simp: shard_done_def)
  then have "step_ok e n (((at_step s n)\<lparr>ss_Verdict := v\<rparr>)\<lparr>ss_Ports := ports, ss_Since := now\<rparr>)"
    using Settles(1,4,5) p(2) sound_at[OF assms(2), of n] by (cases v) (auto simp: step_ok_def)
  then show ?thesis unfolding p(1) using Settles(1) by (intro sound_put[OF assms(2)]) auto
next
  case (Unbuilds n i err)
  have ok: "step_ok e n (at_step s n)" using assms(2) by (rule sound_at)
  have "step_ok e n ((at_step s n)\<lparr>ss_Shards := (shards_at s n)[i := (shards_at s n ! i)\<lparr>sd_Task := TaskFailed,
        sd_ExitCode := 120, sd_FinishedAt := now\<rparr>]\<rparr>)"
    using shard_ok_at[OF ok Unbuilds(3)] Unbuilds(4)
    by (intro step_ok_shard[OF ok Unbuilds(3)]) (auto simp: shard_ok_def due_def shardVerdict_def)
  then show ?thesis
    using sound_put[OF assms(2) sound_known[OF assms(2)]] Unbuilds(1,2) by (simp add: unbuilt_def Let_def)
next
  case (Keys n i key)
  have ok: "step_ok e n (at_step s n)" using assms(2) by (rule sound_at)
  have "step_ok e n ((at_step s n)\<lparr>ss_Shards := (shards_at s n)[i := (shards_at s n ! i)\<lparr>sd_CacheKey := key\<rparr>]\<rparr>)"
    using shard_ok_at[OF ok Keys(3)] by (intro step_ok_shard[OF ok Keys(3)]) (auto simp: shard_ok_def)
  then show ?thesis
    using sound_put[OF assms(2) sound_known[OF assms(2)]] Keys(1,2) by (simp add: keyed_def set_shard_def Let_def)
next
  case (Stops i n)
  have ok: "step_ok e n (at_step s n)" using assms(2) by (rule sound_at)
  have "step_ok e n ((at_step s n)\<lparr>ss_Shards := (shards_at s n)[i := stopped now (shards_at s n ! i)]\<rparr>)"
    using shard_ok_at[OF ok Stops(2)] Stops(3) by (intro step_ok_shard[OF ok Stops(2)]) (auto simp: shard_ok_def stopped_def)
  moreover have "step_in e n \<noteq> None" using sound_known[OF assms(2), of n] Stops(4) by auto
  ultimately show ?thesis
    using sound_put[OF assms(2)] Stops(1) by (simp add: set_shard_def Let_def)
qed

lemma sound_changes: "changes e now s t \<Longrightarrow> sound e s \<Longrightarrow> sound e t"
  by (induction rule: rtranclp_induct) (auto intro: sound_change)

section \<open>What a report does\<close>

text \<open>What becomes of the shard a report is taken for: it takes the report as it is, or it is handed out again.\<close>

inductive outcome :: "evaluator \<Rightarrow> string \<Rightarrow> task_result \<Rightarrow> shard_state \<Rightarrow> shard_state \<Rightarrow> bool" for e n r sh where
  Stands: "outcome e n r sh (reported r sh)"
| Requeues: "step_in e n = Some st \<Longrightarrow> task_Terminal (res_State r) \<Longrightarrow>
    requeued (st_Retry st) (st_Idempotent st) (reported r sh) (ev_maxRequeues e) \<Longrightarrow>
    outcome e n r sh (back_to_pending zero_time ((reported r sh)\<lparr>sd_Requeue := sd_Requeue sh + 1\<rparr>))"
| Retries: "step_in e n = Some st \<Longrightarrow> task_Terminal (res_State r) \<Longrightarrow> nextAttempt (st_Retry st) (reported r sh) = Some when \<Longrightarrow>
    outcome e n r sh (back_to_pending when ((reported r sh)\<lparr>sd_Attempt := sd_Attempt sh + 1, sd_Requeue := 0\<rparr>))"

lemma reported_fields [simp]:
  "sd_Shard (reported r sh) = sd_Shard sh" "sd_Attempt (reported r sh) = sd_Attempt sh"
  "sd_Requeue (reported r sh) = sd_Requeue sh" "sd_Stopped (reported r sh) = sd_Stopped sh"
  "sd_Task (reported r sh) = res_State r" "sd_ExitCode (reported r sh) = res_ExitCode r"
  "sd_NextAttemptAt (reported r sh) = zero_time"
  by (simp_all add: reported_def Let_def)

lemma failed_attempt_outcome:
  assumes "step_in e n = Some st" "task_Terminal (res_State r)"
    and "failed_attempt e s n st r (reported r sh, ss) = (sh', ss')"
  shows "outcome e n r sh sh'" "\<exists>why. ss' = ss\<lparr>ss_Reason := why\<rparr> \<and> (ss_Verdict ss \<noteq> VerdictRunning \<longrightarrow> why = ss_Reason ss)"
proof -
  have *: "outcome e n r sh sh' \<and> (ss' = ss \<or> (ss_Verdict ss = VerdictRunning \<and> (\<exists>why. ss' = ss\<lparr>ss_Reason := why\<rparr>)))"
    using assms(3) outcome.intros(2,3)[OF assms(1,2), of sh] outcome.intros(1)[of e n r sh]
    by (auto simp: failed_attempt_def Let_def split: if_splits option.splits)
  then show "outcome e n r sh sh'" by blast
  have "ss = ss\<lparr>ss_Reason := ss_Reason ss\<rparr>" by simp
  with * show "\<exists>why. ss' = ss\<lparr>ss_Reason := why\<rparr> \<and> (ss_Verdict ss \<noteq> VerdictRunning \<longrightarrow> why = ss_Reason ss)" by metis
qed

lemma take_report_outcome:
  obtains sh why where
    "take_report e n i r s = tick (put_step n ((at_step s n)\<lparr>ss_Shards := (shards_at s n)[i := sh], ss_Reason := why\<rparr>) s)"
    "outcome e n r (shards_at s n ! i) sh" "verdict_at s n \<noteq> VerdictRunning \<Longrightarrow> why = ss_Reason (at_step s n)"
proof -
  let ?ss = "at_step s n" and ?sh = "reported r (shards_at s n ! i)"
  show thesis
  proof (cases "task_Terminal (res_State r) \<and> shardVerdict (res_State r) (res_ExitCode r) = VerdictFailed \<and> step_in e n \<noteq> None")
    case False
    then have "take_report e n i r s = tick (put_step n (?ss\<lparr>ss_Shards := (shards_at s n)[i := ?sh], ss_Reason := ss_Reason ?ss\<rparr>) s)"
      by (auto simp: take_report_def Let_def split: option.splits)
    then show thesis by (rule that) (auto intro: outcome.Stands)
  next
    case True
    then obtain st where st: "step_in e n = Some st" by blast
    obtain sh ss where f: "failed_attempt e s n st r (?sh, ?ss) = (sh, ss)" by fastforce
    note out = failed_attempt_outcome[OF st _ f]
    obtain why where why: "ss = ?ss\<lparr>ss_Reason := why\<rparr>" "verdict_at s n \<noteq> VerdictRunning \<longrightarrow> why = ss_Reason ?ss"
      using out(2) True by blast
    have "take_report e n i r s = tick (put_step n (?ss\<lparr>ss_Shards := (shards_at s n)[i := sh], ss_Reason := why\<rparr>) s)"
      using True st f why(1) by (cases ?ss) (simp add: take_report_def Let_def)
    then show thesis by (rule that) (use out(1) why(2) True in auto)
  qed
qed

lemma shard_ok_reported:
  assumes "shard_ok e n sh" "\<not> task_Terminal (sd_Task sh)"
  shows "shard_ok e n (reported r sh)"
proof -
  have v: "shardVerdict (sd_Task sh) (sd_ExitCode sh) \<noteq> VerdictSucceeded"
    using assms(2) by (cases "sd_Task sh") (auto simp: shardVerdict_def)
  then have "sd_Ports sh = []" "\<not> sd_Stopped sh" using assms by (auto simp: shard_ok_def)
  then have "sd_Ports (reported r sh) \<noteq> [] \<longrightarrow> shardVerdict (res_State r) (res_ExitCode r) = VerdictSucceeded"
    by (auto simp: reported_def Let_def split: if_splits)
  with assms(1) \<open>\<not> sd_Stopped sh\<close> show ?thesis by (simp add: shard_ok_def)
qed

lemma shard_ok_outcome:
  assumes "outcome e n r sh sh'" "shard_ok e n sh" "\<not> task_Terminal (sd_Task sh)" "0 \<le> ev_maxRequeues e"
  shows "shard_ok e n sh' \<and> sd_Shard sh' = sd_Shard sh"
proof -
  have "\<not> sd_Stopped sh" using assms(2,3) by (auto simp: shard_ok_def)
  from assms(1) show ?thesis
  proof cases
    case Stands
    then show ?thesis using shard_ok_reported[OF assms(2,3)] by simp
  next
    case (Requeues st)
    then show ?thesis
      using assms(2) requeued_lost[OF Requeues(4)] \<open>\<not> sd_Stopped sh\<close> by (auto simp: shard_ok_def back_to_pending_def)
  next
    case (Retries st "when")
    then show ?thesis
      using assms(2,4) nextAttempt_Some(1)[OF Retries(4)] \<open>\<not> sd_Stopped sh\<close> by (auto simp: shard_ok_def back_to_pending_def)
  qed
qed

lemma tick_fields [simp]:
  "at_step (tick s) n = at_step s n" "s_Run (tick s) = s_Run s" "s_Steps (tick s) = s_Steps s" "s_Seq (tick s) = s_Seq s + 1"
  by (simp_all add: tick_def)

lemma sound_fields [simp]:
  "sound e (tick s) = sound e s" "sound e (s\<lparr>s_Run := run\<rparr>) = sound e s"
  by (simp_all add: sound_def)

lemma stoppedExit_shard:
  obtains "stoppedExit n i r s = s"
  | sh where "stoppedExit n i r s = tick (set_shard n i sh s)" "sd_Shard sh = sd_Shard (shards_at s n ! i)"
    "sd_Task sh = sd_Task (shards_at s n ! i)" "sd_Attempt sh = sd_Attempt (shards_at s n ! i)"
    "sd_Requeue sh = sd_Requeue (shards_at s n ! i)" "sd_Ports sh = sd_Ports (shards_at s n ! i)"
    "sd_NextAttemptAt sh = sd_NextAttemptAt (shards_at s n ! i)" "sd_Stopped sh" "sd_Stopped (shards_at s n ! i)"
proof (cases "stoppedExit n i r s = s")
  case False
  then show thesis using that(2) by (auto simp: stoppedExit_def Let_def split: if_splits)
qed (rule that(1))

text \<open>A report is refused, or names a shard of the run and is ignored, read for an exit code or taken.\<close>

lemma Record_cases:
  obtains err where "Record e r now s = (s, Some err)"
  | "Record e r now s = (s, None)"
  | run n attempt sd i where "ParseTaskID (res_Task r) = Inr (run, n, attempt, sd)" "run = r_ID (s_Run s)"
      "i < length (shards_at s n)" "sd_Shard (shards_at s n ! i) = sd" "sd_Attempt (shards_at s n ! i) = attempt"
      "task_Terminal (sd_Task (shards_at s n ! i))" "Record e r now s = (stoppedExit n i r s, None)"
  | run n attempt sd i where "ParseTaskID (res_Task r) = Inr (run, n, attempt, sd)" "run = r_ID (s_Run s)"
      "i < length (shards_at s n)" "sd_Shard (shards_at s n ! i) = sd" "sd_Attempt (shards_at s n ! i) = attempt"
      "\<not> task_Terminal (sd_Task (shards_at s n ! i))"
      "task_Terminal (res_State r) \<Longrightarrow> res_Requeue r = sd_Requeue (shards_at s n ! i)"
      "Record e r now s = (take_report e n i r s, None)"
proof -
  consider (bad) err where "Record e r now s = (s, Some err)"
    | (names) run n attempt sd i where "ParseTaskID (res_Task r) = Inr (run, n, attempt, sd)" "run = r_ID (s_Run s)"
      "has_key (s_Steps s) n"
      "find (\<lambda>i. sd_Shard (shards_at s n ! i) = sd) [0..<length (shards_at s n)] = Some i"
  proof (cases "ParseTaskID (res_Task r)")
    case (Inl err)
    then show ?thesis by (intro bad[of "BadTask err"]) (simp add: Record_def)
  next
    case (Inr p)
    obtain run n attempt sd where p: "p = (run, n, attempt, sd)" by (cases p)
    let ?find = "find (\<lambda>i. sd_Shard (shards_at s n ! i) = sd) [0..<length (shards_at s n)]"
    show ?thesis
    proof (cases "run = r_ID (s_Run s) \<and> has_key (s_Steps s) n \<and> ?find \<noteq> None")
      case True
      then show ?thesis using names Inr p by blast
    next
      case False
      then have "\<exists>err. Record e r now s = (s, Some err)" using Inr p by (auto simp: Record_def)
      with bad show ?thesis by blast
    qed
  qed
  then show thesis
  proof cases
    case bad
    then show thesis by (rule that(1))
  next
    case (names run n attempt sd i)
    have i: "i < length (shards_at s n)" "sd_Shard (shards_at s n ! i) = sd"
      using names(4) by (auto simp: find_Some_iff)
    let ?sh = "shards_at s n ! i"
    consider (ignored) "sd_Attempt ?sh \<noteq> attempt \<or> \<not> task_Terminal (sd_Task ?sh) \<and> task_Terminal (res_State r) \<and> res_Requeue r \<noteq> sd_Requeue ?sh"
      | (over) "sd_Attempt ?sh = attempt" "task_Terminal (sd_Task ?sh)"
      | (taken) "sd_Attempt ?sh = attempt" "\<not> task_Terminal (sd_Task ?sh)" "task_Terminal (res_State r) \<longrightarrow> res_Requeue r = sd_Requeue ?sh"
      by blast
    then show thesis
    proof cases
      case ignored
      then show thesis using names by (intro that(2)) (auto simp: Record_def Let_def)
    next
      case over
      then show thesis using names by (intro that(3)[OF names(1,2) i over]) (simp add: Record_def)
    next
      case taken
      then show thesis using names by (intro that(4)[OF names(1,2) i taken(1,2)]) (auto simp: Record_def)
    qed
  qed
qed

section \<open>What comes after a state\<close>

text \<open>A shard goes on from another: a task that is over stays as it ended, and its key and dispatch never go back.\<close>

definition continues :: "shard_state \<Rightarrow> shard_state \<Rightarrow> bool" where
  "continues sh sh' \<longleftrightarrow> sd_Shard sh' = sd_Shard sh \<and>
     (task_Terminal (sd_Task sh) \<longrightarrow> sd_Task sh' = sd_Task sh \<and> sd_Ports sh' = sd_Ports sh \<and>
        sd_Attempt sh' = sd_Attempt sh \<and> sd_Requeue sh' = sd_Requeue sh \<and> sd_NextAttemptAt sh' = sd_NextAttemptAt sh) \<and>
     (sd_Attempt sh < sd_Attempt sh' \<or> sd_Attempt sh = sd_Attempt sh' \<and> sd_Requeue sh \<le> sd_Requeue sh')"

definition follows :: "step_state \<Rightarrow> step_state \<Rightarrow> bool" where
  "follows ss ss' \<longleftrightarrow>
     (verdict_Terminal (ss_Verdict ss) \<longrightarrow> ss_Verdict ss' = ss_Verdict ss \<and> ss_Ports ss' = ss_Ports ss \<and>
        ss_Since ss' = ss_Since ss \<and> ss_Reason ss' = ss_Reason ss) \<and>
     (ss_Shards ss \<noteq> [] \<longrightarrow> list_all2 continues (ss_Shards ss) (ss_Shards ss'))"

definition later :: "state \<Rightarrow> state \<Rightarrow> bool" where
  "later s t \<longleftrightarrow> (\<forall>n. follows (at_step s n) (at_step t n)) \<and>
     (run_Terminal (r_State (s_Run s)) \<longrightarrow> s_Run t = s_Run s) \<and> r_ID (s_Run t) = r_ID (s_Run s) \<and> s_Seq s \<le> s_Seq t"

lemma continues_refl [simp]: "continues sh sh"
  by (simp add: continues_def)

lemma continues_trans: "continues a b \<Longrightarrow> continues b c \<Longrightarrow> continues a c"
  unfolding continues_def by (smt (verit))

lemma follows_refl [simp]: "follows ss ss"
  by (simp add: follows_def list_all2_same)

lemma follows_trans: "follows a b \<Longrightarrow> follows b c \<Longrightarrow> follows a c"
proof -
  assume ab: "follows a b" and bc: "follows b c"
  have "list_all2 continues (ss_Shards a) (ss_Shards c)" if "ss_Shards a \<noteq> []"
  proof -
    have "list_all2 continues (ss_Shards a) (ss_Shards b)" using ab that by (simp add: follows_def)
    moreover from this have "ss_Shards b \<noteq> []" using that by auto
    then have "list_all2 continues (ss_Shards b) (ss_Shards c)" using bc by (simp add: follows_def)
    ultimately show ?thesis using list_all2_trans[of continues continues continues] continues_trans by blast
  qed
  then show "follows a c" using ab bc by (simp add: follows_def)
qed

lemma later_refl [simp]: "later s s"
  by (simp add: later_def)

lemma later_trans: "later s t \<Longrightarrow> later t u \<Longrightarrow> later s u"
  unfolding later_def by (metis follows_trans order_trans)

lemma follows_shard:
  assumes "i < length (ss_Shards ss)" "continues (ss_Shards ss ! i) sh"
    and "verdict_Terminal (ss_Verdict ss) \<Longrightarrow> why = ss_Reason ss"
  shows "follows ss (ss\<lparr>ss_Shards := (ss_Shards ss)[i := sh], ss_Reason := why\<rparr>)"
proof -
  have "list_all2 continues (ss_Shards ss) ((ss_Shards ss)[i := sh])"
    using assms(1,2) by (auto simp: list_all2_conv_all_nth nth_list_update)
  then show ?thesis using assms(3) by (simp add: follows_def)
qed

lemma put_follows:
  assumes "follows (at_step s n) ss"
  shows "follows (at_step s m) (at_step (put_step n ss s) m)"
  using assms by simp

lemma set_shard_follows:
  assumes "i < length (shards_at s n)" "continues (shards_at s n ! i) sh"
  shows "follows (at_step s m) (at_step (set_shard n i sh s) m)"
  using follows_shard[OF assms, of "ss_Reason (at_step s n)"] by (simp add: at_set_shard)

lemma change_follows:
  assumes "change e now s t" "sound e s"
  shows "follows (at_step s m) (at_step t m)"
  using assms
proof cases
  case (CallsOff n why)
  then show ?thesis by (auto simp: at_cancel follows_def list_all2_same)
next
  case (Ends n st v why un)
  then show ?thesis
    using sound_at[OF assms(2), of n] by (auto simp: follows_def step_ok_def list_all2_same dest!: end_step_Inr)
next
  case (Starts n st inputs ws)
  then show ?thesis using sound_at[OF assms(2), of n] by (auto simp: follows_def step_ok_def list_all2_same)
next
  case (SettlesCancelled n)
  then show ?thesis by (auto simp: follows_def list_all2_same)
next
  case (Settles n st v un)
  then show ?thesis by (auto simp: follows_def list_all2_same dest!: end_step_Inr)
next
  case (Unbuilds n i err)
  have "continues (shards_at s n ! i) ((shards_at s n ! i)\<lparr>sd_Task := TaskFailed, sd_ExitCode := 120, sd_FinishedAt := now\<rparr>)"
    using due_pending[OF Unbuilds(4)] by (simp add: continues_def)
  from follows_shard[OF Unbuilds(3) this, of "ReasonError err"] show ?thesis
    using Unbuilds(1,2) by (simp add: at_unbuilt)
next
  case (Keys n i key)
  have "continues (shards_at s n ! i) ((shards_at s n ! i)\<lparr>sd_CacheKey := key\<rparr>)" by (simp add: continues_def)
  from set_shard_follows[OF Keys(3) this] show ?thesis by (simp add: Keys(1) keyed_def)
next
  case (Stops i n)
  have "continues (shards_at s n ! i) (stopped now (shards_at s n ! i))" using Stops(3) by (simp add: continues_def stopped_def)
  from set_shard_follows[OF Stops(2) this] show ?thesis by (simp add: Stops(1))
qed

lemma change_run: "change e now s t \<Longrightarrow> s_Run t = s_Run s \<and> s_Seq t = s_Seq s"
  by (induction rule: change.induct)
    (auto simp: keyed_def set_shard_def unbuilt_def Let_def dest!: end_step_Inr)

lemma changes_run: "changes e now s t \<Longrightarrow> s_Run t = s_Run s \<and> s_Seq t = s_Seq s"
  by (induction rule: rtranclp_induct) (auto dest: change_run)

lemma changes_follows:
  assumes "changes e now s t" "sound e s"
  shows "follows (at_step s m) (at_step t m)"
  using assms
proof (induction rule: rtranclp_induct)
  case (step t u)
  have "sound e t" using step.hyps(1) step.prems by (rule sound_changes)
  from change_follows[OF step.hyps(2) this] step.IH[OF step.prems] show ?case by (rule follows_trans[rotated])
qed simp

lemma changes_later: "changes e now s t \<Longrightarrow> sound e s \<Longrightarrow> later s t"
  using changes_run[of e now s t] changes_follows[of e now s t] by (simp add: later_def)

section \<open>The operations keep the run sound\<close>

lemma outcome_continues:
  assumes "outcome e n r sh sh'" "\<not> task_Terminal (sd_Task sh)"
  shows "continues sh sh'"
  using assms by cases (auto simp: continues_def back_to_pending_def)

lemma sound_later_shard:
  assumes "sound e s" "i < length (shards_at s n)" "shard_ok e n sh" "continues (shards_at s n ! i) sh"
    and "verdict_at s n \<noteq> VerdictRunning \<Longrightarrow> why = ss_Reason (at_step s n)"
  shows "sound e (put_step n ((at_step s n)\<lparr>ss_Shards := (shards_at s n)[i := sh], ss_Reason := why\<rparr>) s) \<and>
    later s (put_step n ((at_step s n)\<lparr>ss_Shards := (shards_at s n)[i := sh], ss_Reason := why\<rparr>) s)"
proof
  let ?ss = "(at_step s n)\<lparr>ss_Shards := (shards_at s n)[i := sh], ss_Reason := why\<rparr>"
  have ok: "step_ok e n (at_step s n)" using assms(1) by (rule sound_at)
  have "step_ok e n ((at_step s n)\<lparr>ss_Shards := (shards_at s n)[i := sh]\<rparr>)"
    using assms(4) by (intro step_ok_shard[OF ok assms(2,3)]) (auto simp: continues_def)
  moreover have "step_in e n \<noteq> None" using assms(3) by (auto simp: shard_ok_def)
  ultimately show "sound e (put_step n ?ss s)" by (intro sound_put[OF assms(1)]) auto
  have "verdict_Terminal (verdict_at s n) \<Longrightarrow> why = ss_Reason (at_step s n)"
    by (rule assms(5)) (cases "verdict_at s n"; simp)
  then have "follows (at_step s n) ?ss" by (rule follows_shard[OF assms(2,4)])
  then show "later s (put_step n ?ss s)" by (simp add: later_def)
qed

lemma later_tick: "later s t \<Longrightarrow> later s (tick t)"
  by (auto simp: later_def)

lemma Record_sound:
  assumes "sound e s"
  shows "sound e (fst (Record e r now s)) \<and> later s (fst (Record e r now s))"
proof (cases rule: Record_cases[of e r now s])
  case (3 run n attempt sd i)
  let ?sh = "shards_at s n ! i"
  show ?thesis
  proof (cases rule: stoppedExit_shard[of n i r s])
    case (2 sh)
    have "shard_ok e n ?sh" using sound_at[OF assms, of n] \<open>i < _\<close> by (rule shard_ok_at)
    then have "shard_ok e n sh" using 2 by (auto simp: shard_ok_def shardVerdict_def)
    moreover have "continues ?sh sh" using 2 by (simp add: continues_def)
    ultimately show ?thesis
      using sound_later_shard[OF assms \<open>i < _\<close>, of sh "ss_Reason (at_step s n)"] 2(1) 3(7)
      by (auto simp: set_shard_def Let_def intro: later_tick)
  qed (use assms 3 in simp)
next
  case (4 run n attempt sd i)
  obtain sh why where t: "take_report e n i r s = tick (put_step n ((at_step s n)\<lparr>ss_Shards := (shards_at s n)[i := sh], ss_Reason := why\<rparr>) s)"
    "outcome e n r (shards_at s n ! i) sh" "verdict_at s n \<noteq> VerdictRunning \<Longrightarrow> why = ss_Reason (at_step s n)"
    using take_report_outcome by blast
  have "shard_ok e n sh"
    using shard_ok_outcome[OF t(2) shard_ok_at[OF sound_at[OF assms] 4(3)] 4(6)] assms by (simp add: sound_def)
  from sound_later_shard[OF assms 4(3) this outcome_continues[OF t(2) 4(6)] t(3)]
  show ?thesis using t(1) 4(8) by (auto intro: later_tick)
qed (use assms in simp_all)

lemma later_run:
  assumes "later s t" "run_Terminal (r_State (s_Run s)) \<Longrightarrow> run = s_Run s" "r_ID run = r_ID (s_Run s)"
  shows "later s (t\<lparr>s_Run := run\<rparr>)"
  using assms by (simp add: later_def)

lemma end_run_sound:
  assumes "layered (ev_graph e)" "sound e s" "\<not> run_Terminal (r_State (s_Run s))"
  shows "sound e (end_run e st why now s) \<and> later s (end_run e st why now s)"
proof -
  let ?s = "s\<lparr>s_Run := run_ended st now (s_Run s)\<rparr>"
  have s: "sound e ?s" "later s ?s" using assms(2,3) by (auto simp: later_def run_ended_def)
  have c: "changes e now ?s (endSteps e why now ?s)" by (rule endSteps_changes[OF assms(1)])
  show ?thesis
    using sound_changes[OF c s(1)] later_trans[OF s(2) changes_later[OF c s(1)]] by (auto simp: end_run_def intro: later_tick)
qed

lemma Cancel_sound:
  "layered (ev_graph e) \<Longrightarrow> sound e s \<Longrightarrow> sound e (Cancel e now s) \<and> later s (Cancel e now s)"
  by (simp add: Cancel_def end_run_sound)

lemma decide_sound:
  assumes "layered (ev_graph e)" "sound e s" "\<not> run_Terminal (r_State (s_Run s))"
  shows "sound e (fst (decide lib e now s)) \<and> later s (fst (decide lib e now s))"
proof -
  obtain t r where t: "passes lib e now [] s = (t, r)" by fastforce
  then have c: "changes e now s t" using passes_changes[OF assms(1), of now s lib "[]"] by simp
  have "sound e t" "later s t" using sound_changes[OF c assms(2)] changes_later[OF c assms(2)] by auto
  moreover from this have "later s (t\<lparr>s_Run := judged e now t\<rparr>)"
    using assms(3) changes_run[OF c] by (intro later_run) (auto simp: judged_def Let_def)
  ultimately show ?thesis
    using assms(2) t by (auto simp: decide_def Let_def intro: later_tick split: sum.splits)
qed

lemma Next_sound:
  assumes "layered (ev_graph e)" "sound e s"
  shows "sound e (fst (Next lib e now s)) \<and> later s (fst (Next lib e now s))"
proof (cases "run_Terminal (r_State (s_Run s))")
  case True
  then show ?thesis using assms(2) by (auto simp: Next_def Let_def)
next
  case False
  then have "r_State (s_Run s) \<noteq> Cancelled" "r_State (s_Run s) \<noteq> TimedOut" by auto
  then show ?thesis
    using False end_run_sound[OF assms False] decide_sound[OF assms False] by (simp add: Next_def Let_def)
qed

section \<open>A run as a machine\<close>

lemma Reused_ok:
  assumes "step_ok e n ss" "verdict_Terminal (ss_Verdict ss)"
  shows "step_ok e n (Reused ss run)" "verdict_Terminal (ss_Verdict (Reused ss run))"
proof -
  have "dom (map_of (ss_Ports (Reused ss run))) = dom (map_of (ss_Ports ss))"
    by (simp add: Reused_def dom_map_of_conv_image_fst image_image case_prod_unfold)
  then have "publishes_all st (ss_Shards ss) (ss_Ports ss) \<Longrightarrow> publishes_all st (ss_Shards (Reused ss run)) (ss_Ports (Reused ss run))" for st
    by (auto simp: publishes_all_def Reused_def)
  then show "step_ok e n (Reused ss run)"
    using assms by (auto simp: step_ok_def Reused_def split: verdict.splits)
qed (use assms in \<open>simp add: Reused_def\<close>)

lemma fresh_sound: "ev_graph e = g \<Longrightarrow> 0 \<le> ev_maxRequeues e \<Longrightarrow> sound e (fresh g run opts at)"
proof -
  have m: "map_of (s_Steps (fresh g run opts at)) n = (if n \<in> set (Steps g) then Some zero_step else None)" for n
    by (simp add: fresh_def map_of_eq_None_iff map_of_map_restrict)
  assume "ev_graph e = g" "0 \<le> ev_maxRequeues e"
  then show ?thesis
    using m Step_in_Steps[of g] by (auto simp: sound_def has_key_def at_step_def step_ok_zero)
qed

lemma New_bound: "New g s l m d = Inr e \<Longrightarrow> 0 \<le> ev_maxRequeues e"
  by (auto simp: New_def split: if_splits)

lemma Start_sound:
  assumes "Start (ev_graph e) run opts at = Inr (e, s)" "\<And>n ss. map_of (op_Reuse opts) n = Some ss \<Longrightarrow> step_ok e n ss"
  shows "sound e s"
proof -
  let ?g = "ev_graph e"
  obtain l m d where New: "New ?g s l m d = Inr e" and reuse: "reuse ?g (op_Reuse opts) (fresh ?g run opts at) = Inr s"
    using assms(1) by (auto simp: Start_def split: option.splits)
  have "0 \<le> ev_maxRequeues e" using New by (rule New_bound)
  then have "sound e (fresh ?g run opts at)" by (intro fresh_sound) simp
  then show ?thesis
  proof (rule rfold_invariant[OF reuse[unfolded reuse_def]])
    fix p t t'
    assume "p \<in> set (entries (op_Reuse opts))" "sound e t" "reuse_step ?g p t = Inr t'"
    then show "sound e t'"
      using assms(2) by (auto simp: reuse_step_def entries_iff intro!: sound_put split: if_splits prod.splits)
  qed
qed

definition started_run :: "evaluator \<Rightarrow> state \<Rightarrow> bool" where
  "started_run e s \<longleftrightarrow>
     (\<exists>other schema w manifests. Build other schema w manifests = Inr (ev_graph e)) \<and>
     (\<exists>run opts at. Start (ev_graph e) run opts at = Inr (e, s) \<and>
        (\<forall>n ss. map_of (op_Reuse opts) n = Some ss \<longrightarrow> step_ok e n ss))"

inductive moves :: "library \<Rightarrow> evaluator \<Rightarrow> state \<Rightarrow> state \<Rightarrow> bool" for lib e where
  ByNext: "moves lib e s (fst (Next lib e now s))"
| ByRecord: "moves lib e s (fst (Record e r now s))"
| ByCancel: "moves lib e s (Cancel e now s)"

interpretation run_machine: machine "started_run e" "moves lib e" "\<lambda>s. layered (ev_graph e) \<and> sound e s" for lib e
proof
  show "layered (ev_graph e) \<and> sound e s" if "started_run e s" for s
    using that Build_layered Start_sound unfolding started_run_def by metis
  show "layered (ev_graph e) \<and> sound e t" if "layered (ev_graph e) \<and> sound e s" "moves lib e s t" for s t
    using that(2,1) by cases (simp_all add: Next_sound Record_sound Cancel_sound)
qed

lemma moves_later:
  assumes "layered (ev_graph e) \<and> sound e s" "moves lib e s t"
  shows "later s t"
  using assms(2,1) by cases (simp_all add: Next_sound Record_sound Cancel_sound)

lemma run_later:
  assumes "layered (ev_graph e) \<and> sound e s" "(moves lib e)\<^sup>*\<^sup>* s t"
  shows "later s t"
  using assms(2,1)
proof (induction rule: rtranclp_induct)
  case (step t u)
  have "layered (ev_graph e) \<and> sound e t" using run_machine.inv_steps step.hyps(1) step.prems by blast
  then show ?case using moves_later step.hyps(2) step.IH[OF step.prems] later_trans by blast
qed simp

end
