(* ===== verification/Safety.thy ===== *)
theory Safety
  imports Runs
begin

text \<open>
  The properties of a run that hold in every state it reaches: what has ended stays ended, attempts and
  requeues are bounded, a step publishes all its ports or none, a repeated report changes nothing, the
  sequence counts the decisions, and the deadline ends the run. The samples are a run of the three steps
  of \<^const>\<open>chain_workflow\<close>.
\<close>

section \<open>A sample run\<close>

definition plain_library :: library where
  "plain_library = \<lparr>lib_evaluate = \<lambda>_ _ _. Inr JNull, lib_schema = \<lambda>_ _ _. Some True, lib_sha256 = id\<rparr>"

definition sample_run :: run where
  "sample_run = \<lparr>r_ID = ''r'', r_Workflow = ''w'', r_Namespace = ''n'', r_Commit = ''c'', r_Trigger = TriggerManual,
     r_TriggeredBy = ''u'', r_State = Queued, r_StartedAt = 1, r_FinishedAt = 0\<rparr>"

definition plain_options :: options where
  "plain_options = \<lparr>op_Inputs = [], op_Vars = [], op_Trigger = [], op_Event = [], op_Limits = no_limits,
     op_MaxRequeues = None, op_MaxRunDuration = 100, op_Reuse = []\<rparr>"

definition chain_evaluator :: evaluator where
  "chain_evaluator = \<lparr>ev_graph = chain_graph, ev_limits = DefaultLimits, ev_maxRequeues = 3, ev_maxRunDuration = 100\<rparr>"

definition chain_start :: state where
  "chain_start = fresh chain_graph sample_run plain_options 1"

lemma chain_started: "Start chain_graph sample_run plain_options 1 = Inr (chain_evaluator, chain_start)"
  by code_simp

lemma chain_started_run: "started_run chain_evaluator chain_start"
  using chain_builds chain_started unfolding started_run_def
  by (metis chain_evaluator_def evaluator.select_convs(1) plain_options_def options.select_convs(8) map_of.simps(1) option.distinct(1))

definition report :: "string \<Rightarrow> task_state \<Rightarrow> int \<Rightarrow> task_result" where
  "report task st exit_code = \<lparr>res_Task = task, res_State = st, res_ExitCode = exit_code, res_Requeue = 0, res_Reason = [],
     res_NoExitCode = False, res_Outputs = [], res_MemoisedFrom = [], res_Called = [], res_DispatchedAt = 2,
     res_StartedAt = 3, res_FinishedAt = 4\<rparr>"

definition chain_running :: state where
  "chain_running = chain_start\<lparr>
     s_Run := sample_run\<lparr>r_State := Running\<rparr>,
     s_Steps := [(''a'', started [whole []] 2), (''b'', zero_step), (''c'', zero_step)], s_Seq := 1\<rparr>"

lemma chain_next: "fst (Next plain_library chain_evaluator 2 chain_start) = chain_running"
  by code_simp

definition a_failed :: task_result where
  "a_failed = report (NewTaskID ''r'' ''a'' 1 no_shard) TaskFailed 1"

definition chain_failed :: state where
  "chain_failed = fst (Next plain_library chain_evaluator 6 (fst (Record chain_evaluator a_failed 5 chain_running)))"

lemma chain_failed_states:
  "map (verdict_at chain_failed) [''a'', ''b'', ''c''] = [VerdictFailed, VerdictSkipped, VerdictSkipped]"
  by code_simp

lemma chain_failed_run: "r_State (s_Run chain_failed) = Failed"
  by code_simp

lemma chain_reaches: "(moves plain_library chain_evaluator)\<^sup>*\<^sup>* chain_start chain_running"
  using moves.ByNext[of plain_library chain_evaluator chain_start 2] by (simp add: chain_next r_into_rtranclp)

lemma chain_reaches_failed: "(moves plain_library chain_evaluator)\<^sup>*\<^sup>* chain_start chain_failed"
proof -
  have "(moves plain_library chain_evaluator)\<^sup>*\<^sup>* chain_running (fst (Record chain_evaluator a_failed 5 chain_running))"
    by (rule r_into_rtranclp) (rule moves.ByRecord)
  moreover have "moves plain_library chain_evaluator (fst (Record chain_evaluator a_failed 5 chain_running)) chain_failed"
    unfolding chain_failed_def by (rule moves.ByNext)
  ultimately show ?thesis using chain_reaches by (meson rtranclp.rtrancl_into_rtrancl rtranclp_trans)
qed

section \<open>Reports that come twice\<close>

lemma Record_named:
  assumes "ParseTaskID (res_Task r) = Inr (r_ID (s_Run s), n, attempt, sd)" "has_key (s_Steps s) n"
    and "distinct (map sd_Shard (shards_at s n))" "i < length (shards_at s n)" "sd_Shard (shards_at s n ! i) = sd"
  shows "Record e r now s =
    (let sh = shards_at s n ! i in
     if sd_Attempt sh \<noteq> attempt then (s, None)
     else if task_Terminal (sd_Task sh) then (stoppedExit n i r s, None)
     else if task_Terminal (res_State r) \<and> res_Requeue r \<noteq> sd_Requeue sh then (s, None)
     else (take_report e n i r s, None))"
proof -
  have "find (\<lambda>i. sd_Shard (shards_at s n ! i) = sd) [0..<length (shards_at s n)] = Some i"
    using assms(3,4,5) by (auto simp: find_Some_iff distinct_conv_nth intro!: exI[of _ i])
  with assms(1,2) show ?thesis by (simp add: Record_def)
qed

lemma stoppedExit_twice:
  assumes "i < length (shards_at s n)"
  shows "stoppedExit n i r (stoppedExit n i r s) = stoppedExit n i r s"
  using assms by (auto simp: stoppedExit_def Let_def at_set_shard)

lemma has_key_shards: "i < length (shards_at s n) \<Longrightarrow> has_key (s_Steps s) n"
  by (auto simp: at_step_def has_key_def split: option.splits)

lemma Record_any_moment: "Record e r now' s = Record e r now s"
  by (simp add: Record_def)

lemma Record_ended_twice:
  assumes "sound e s" "task_Terminal (res_State r)"
  shows "fst (Record e r now' (fst (Record e r now s))) = fst (Record e r now s)"
proof (cases rule: Record_cases[of e r now s])
  case (3 run n attempt sd i)
  let ?t = "stoppedExit n i r s"
  have sh: "length (shards_at ?t n) = length (shards_at s n) \<and> map sd_Shard (shards_at ?t n) = map sd_Shard (shards_at s n) \<and>
      sd_Attempt (shards_at ?t n ! i) = attempt \<and> task_Terminal (sd_Task (shards_at ?t n ! i)) \<and> s_Run ?t = s_Run s"
    using 3(3-6) by (cases rule: stoppedExit_shard[of n i r s])
      (simp_all add: at_set_shard map_update list_update_same_conv set_shard_def Let_def)
  have "Record e r now' ?t = (stoppedExit n i r ?t, None)"
  proof (subst Record_named[where n = n and attempt = attempt and sd = sd and i = i])
    show "ParseTaskID (res_Task r) = Inr (r_ID (s_Run ?t), n, attempt, sd)" using 3(1,2) sh by simp
    show "i < length (shards_at ?t n)" using 3(3) sh by simp
    then show "has_key (s_Steps ?t) n" by (rule has_key_shards)
    show "distinct (map sd_Shard (shards_at ?t n))" using sound_at[OF assms(1), of n] sh by (simp add: step_ok_def)
    show "sd_Shard (shards_at ?t n ! i) = sd" using 3(3,4) sh by (metis nth_map)
  qed (use sh in simp)
  then show ?thesis using 3(3,7) stoppedExit_twice by simp
next
  case (4 run n attempt sd i)
  let ?sh = "shards_at s n ! i"
  obtain sh why where t: "take_report e n i r s = tick (put_step n ((at_step s n)\<lparr>ss_Shards := (shards_at s n)[i := sh], ss_Reason := why\<rparr>) s)"
    "outcome e n r ?sh sh"
    using take_report_outcome by blast
  let ?t = "take_report e n i r s"
  have ok: "shard_ok e n ?sh" by (rule shard_ok_at[OF sound_at[OF assms(1)] 4(3)])
  have stopped: "\<not> sd_Stopped ?sh" using ok 4(6) by (auto simp: shard_ok_def)
  have key: "sd_Shard sh = sd" "sd_Attempt sh \<noteq> attempt \<or> task_Terminal (sd_Task sh) \<and> \<not> sd_Stopped sh \<or>
      \<not> task_Terminal (sd_Task sh) \<and> res_Requeue r \<noteq> sd_Requeue sh"
    using t(2) 4(4,5,7) assms(2) stopped by (cases; auto simp: back_to_pending_def)+
  have at: "shards_at ?t n = (shards_at s n)[i := sh]" "s_Run ?t = s_Run s" using t(1) by simp_all
  have "Record e r now' ?t = (?t, None)"
  proof (subst Record_named[where n = n and attempt = attempt and sd = sd and i = i])
    show "ParseTaskID (res_Task r) = Inr (r_ID (s_Run ?t), n, attempt, sd)" using 4(1,2) at by simp
    show "i < length (shards_at ?t n)" using 4(3) at by simp
    then show "has_key (s_Steps ?t) n" by (rule has_key_shards)
    show "distinct (map sd_Shard (shards_at ?t n))"
      unfolding at(1) using sound_at[OF assms(1), of n] 4(3,4) key(1)
      by (intro distinct_shards_update) (auto simp: step_ok_def)
    show "sd_Shard (shards_at ?t n ! i) = sd" using key(1) 4(3) at by simp
    have "shards_at ?t n ! i = sh" using 4(3) at by simp
    then show "(let sh = shards_at ?t n ! i in if sd_Attempt sh \<noteq> attempt then (?t, None)
        else if task_Terminal (sd_Task sh) then (stoppedExit n i r ?t, None)
        else if task_Terminal (res_State r) \<and> res_Requeue r \<noteq> sd_Requeue sh then (?t, None)
        else (take_report e n i r ?t, None)) = (?t, None)"
      using key(2) assms(2) by (auto simp: stoppedExit_def)
  qed
  then show ?thesis using 4(8) by simp
next
  case (1 err)
  then show ?thesis using Record_any_moment[of e r now' s now] by simp
next
  case 2
  then show ?thesis using Record_any_moment[of e r now' s now] by simp
qed

section \<open>The end of a run\<close>

lemma foldl_cancel_running:
  "at_step (foldl (\<lambda>s n. if verdict_at s n = VerdictRunning then cancel n why now s else s) s ns) m =
     (if m \<in> set ns \<and> verdict_at s m = VerdictRunning
      then (at_step s m)\<lparr>ss_Verdict := VerdictCancelled, ss_Reason := why, ss_Since := now\<rparr> else at_step s m)"
proof (induction ns arbitrary: s)
  case (Cons n ns)
  show ?case
  proof (cases "verdict_at s n = VerdictRunning")
    case True
    then show ?thesis by (auto simp: Cons.IH at_cancel)
  next
    case False
    then show ?thesis by (auto simp: Cons.IH)
  qed
qed simp

lemma at_end_run:
  "at_step (end_run e st why now s) m =
     (if m \<in> set (Order (ev_graph e)) \<and> verdict_at s m = VerdictRunning
      then (at_step s m)\<lparr>ss_Verdict := VerdictCancelled, ss_Reason := why, ss_Since := now\<rparr> else at_step s m)"
  by (simp add: end_run_def endSteps_def foldl_cancel_running)

lemma end_run_run: "s_Run (end_run e st why now s) = run_ended st now (s_Run s)" "s_Seq (end_run e st why now s) = s_Seq s + 1"
proof -
  have "s_Run (foldl (\<lambda>s n. if verdict_at s n = VerdictRunning then cancel n why now s else s) s ns) = s_Run s \<and>
      s_Seq (foldl (\<lambda>s n. if verdict_at s n = VerdictRunning then cancel n why now s else s) s ns) = s_Seq s" for s ns
    by (induction ns arbitrary: s) auto
  then show "s_Run (end_run e st why now s) = run_ended st now (s_Run s)" "s_Seq (end_run e st why now s) = s_Seq s + 1"
    by (simp_all add: end_run_def endSteps_def)
qed

lemma stopEverything_tasks:
  "set (pl_Stop (stopEverything e s why)) =
     {\<lparr>stop_Task = taskID s n sh, stop_Reason = why\<rparr> | n sh.
        n \<in> set (Order (ev_graph e)) \<and> sh \<in> set (shards_at s n) \<and> holdsARunner sh}"
  by (auto simp: stopEverything_def)

lemma decide_counts:
  assumes "layered (ev_graph e)" "decide lib e now s = (t, Inr plan)"
  shows "s_Seq t = (if t = s then s_Seq s else s_Seq s + 1)"
proof -
  obtain u start stops where u: "passes lib e now [] s = (u, Inr (start, stops))"
    using assms(2) by (auto simp: decide_def Let_def split: if_splits sum.splits prod.splits)
  then have "s_Seq u = s_Seq s"
    using changes_run[OF passes_changes[OF assms(1), of now s lib "[]"]] by simp
  moreover have "t = u\<lparr>s_Run := judged e now u\<rparr> \<and> t = s \<or> t = tick (u\<lparr>s_Run := judged e now u\<rparr>)"
    using assms(2) u by (auto simp: decide_def Let_def split: if_splits)
  ultimately show ?thesis by auto
qed

section \<open>Properties\<close>

text \<open>
  C1: what has ended stays ended. Whatever passes, reports and cancellations follow, a step that has
  reached a terminal verdict keeps the verdict, the ports it published, the moment and the reason; and a
  run that has ended keeps its state and the moment it ended.
\<close>

theorem ended_stays_ended:
  assumes "started_run e s" "(moves lib e)\<^sup>*\<^sup>* s t" "(moves lib e)\<^sup>*\<^sup>* t u"
  shows "(verdict_Terminal (verdict_at t n) \<longrightarrow>
      verdict_at u n = verdict_at t n \<and> ss_Ports (at_step u n) = ss_Ports (at_step t n) \<and>
      ss_Since (at_step u n) = ss_Since (at_step t n) \<and> ss_Reason (at_step u n) = ss_Reason (at_step t n)) \<and>
    (run_Terminal (r_State (s_Run t)) \<longrightarrow> s_Run u = s_Run t)"
  using run_later[OF run_machine.inv_reachable[OF assms(1,2)] assms(3)] by (simp add: later_def follows_def)

theorem ended_stays_ended_witness:
  "verdict_at (fst (Next plain_library chain_evaluator 90 chain_failed)) ''a'' = VerdictFailed \<and>
   r_State (s_Run (fst (Next plain_library chain_evaluator 90 chain_failed))) = Failed"
proof -
  have "(moves plain_library chain_evaluator)\<^sup>*\<^sup>* chain_failed (fst (Next plain_library chain_evaluator 90 chain_failed))"
    by (rule r_into_rtranclp) (rule moves.ByNext)
  from ended_stays_ended[OF chain_started_run chain_reaches_failed this, of "''a''"]
  show ?thesis using chain_failed_states chain_failed_run by simp
qed

text \<open>
  C8: attempts and requeues are bounded. In every state a run reaches, each shard of a step is on an
  attempt between 1 and the most its retry policy allows, and on a dispatch of that attempt that
  \<open>max_requeues\<close> allows, whatever was reported and however often.
\<close>

theorem attempts_are_bounded:
  assumes "started_run e s" "(moves lib e)\<^sup>*\<^sup>* s t" "sh \<in> set (shards_at t n)"
  shows "\<exists>st. Step (ev_graph e) n = Some st \<and> 1 \<le> sd_Attempt sh \<and> sd_Attempt sh \<le> max 1 (retryAttempts (st_Retry st)) \<and>
    0 \<le> sd_Requeue sh \<and> sd_Requeue sh \<le> ev_maxRequeues e"
  using run_machine.inv_reachable[OF assms(1,2)] sound_at[of e t n] assms(3) by (auto simp: step_ok_def shard_ok_def)

lemma chain_running_shards: "shards_at chain_running ''a'' = [new_shard no_shard [] 1]"
  by code_simp

theorem attempts_are_bounded_witness:
  "\<exists>st. Step (ev_graph chain_evaluator) ''a'' = Some st \<and> 1 \<le> max 1 (retryAttempts (st_Retry st)) \<and> 0 \<le> ev_maxRequeues chain_evaluator"
  using attempts_are_bounded[OF chain_started_run chain_reaches, of "new_shard no_shard [] 1" "''a''"] chain_running_shards by auto

text \<open>
  C7: a step publishes all its ports, once it has ended, or none. In every state a run reaches, a step that is pending, running or
  was cancelled holds no envelope; one that succeeded, failed or was skipped has no task left and holds one for exactly the
  ports it declares, none where it declares none. Only a step that calls another workflow and declares no output has no such list: where
  it ran, the ports it holds are those its shards brought.
\<close>

theorem publishes_all_or_nothing:
  assumes "started_run e s" "(moves lib e)\<^sup>*\<^sup>* s t" "Step (ev_graph e) n = Some st"
  shows "(verdict_at t n \<notin> {VerdictSucceeded, VerdictFailed, VerdictSkipped} \<longrightarrow> ss_Ports (at_step t n) = []) \<and>
    (verdict_at t n \<in> {VerdictSucceeded, VerdictFailed, VerdictSkipped} \<longrightarrow>
      (\<forall>sh \<in> set (shards_at t n). task_Terminal (sd_Task sh)) \<and>
      (if st_Call st = None \<or> st_Outputs st \<noteq> [] then dom (map_of (ss_Ports (at_step t n))) = set (st_Outputs st)
       else shards_at t n \<noteq> [] \<longrightarrow> dom (map_of (ss_Ports (at_step t n))) = (\<Union>sh \<in> set (shards_at t n). dom (map_of (sd_Ports sh)))))"
  using run_machine.inv_reachable[OF assms(1,2)] sound_at[of e t n] assms(3)
  by (cases "verdict_at t n") (auto simp: step_ok_def publishes_all_def split: if_splits)

theorem publishes_all_or_nothing_witness:
  "dom (map_of (ss_Ports (at_step chain_failed ''b''))) = {''out''}"
proof -
  have "Step (ev_graph chain_evaluator) ''b'' = Some (script_step [from_step ''a''])" by code_simp
  moreover have "st_Outputs (script_step [from_step ''a'']) = [''out'']" by (simp add: script_step_def)
  ultimately show ?thesis
    using publishes_all_or_nothing[OF chain_started_run chain_reaches_failed] chain_failed_states by simp
qed

text \<open>
  An idempotency key never comes back. A shard keeps its place; the attempt and, within it, the
  dispatch only go up; and a task that is over stays over, with what it published, on the key it ended on.
\<close>

theorem keys_never_come_back:
  assumes "started_run e s" "(moves lib e)\<^sup>*\<^sup>* s t" "(moves lib e)\<^sup>*\<^sup>* t u" "i < length (shards_at t n)"
  shows "i < length (shards_at u n) \<and> sd_Shard (shards_at u n ! i) = sd_Shard (shards_at t n ! i) \<and>
    (sd_Attempt (shards_at t n ! i) < sd_Attempt (shards_at u n ! i) \<or>
     sd_Attempt (shards_at t n ! i) = sd_Attempt (shards_at u n ! i) \<and>
     sd_Requeue (shards_at t n ! i) \<le> sd_Requeue (shards_at u n ! i)) \<and>
    (task_Terminal (sd_Task (shards_at t n ! i)) \<longrightarrow>
      sd_Task (shards_at u n ! i) = sd_Task (shards_at t n ! i) \<and> sd_Ports (shards_at u n ! i) = sd_Ports (shards_at t n ! i) \<and>
      sd_Attempt (shards_at u n ! i) = sd_Attempt (shards_at t n ! i))"
proof -
  have "later t u" by (rule run_later[OF run_machine.inv_reachable[OF assms(1,2)] assms(3)])
  moreover have "shards_at t n \<noteq> []" using assms(4) by auto
  ultimately have "list_all2 continues (shards_at t n) (shards_at u n)" by (simp add: later_def follows_def)
  then show ?thesis using assms(4) by (auto simp: list_all2_conv_all_nth continues_def)
qed

theorem keys_never_come_back_witness: "sd_Attempt (shards_at chain_running ''a'' ! 0) \<le> sd_Attempt (shards_at chain_failed ''a'' ! 0)"
proof -
  have "(moves plain_library chain_evaluator)\<^sup>*\<^sup>* chain_running (fst (Record chain_evaluator a_failed 5 chain_running))"
    by (rule r_into_rtranclp) (rule moves.ByRecord)
  moreover have "moves plain_library chain_evaluator (fst (Record chain_evaluator a_failed 5 chain_running)) chain_failed"
    unfolding chain_failed_def by (rule moves.ByNext)
  ultimately have "(moves plain_library chain_evaluator)\<^sup>*\<^sup>* chain_running chain_failed" by (rule rtranclp.rtrancl_into_rtrancl)
  from keys_never_come_back[OF chain_started_run chain_reaches this, of 0 "''a''"]
  show ?thesis using chain_running_shards by auto
qed

text \<open>
  C9: a report of an ending that is delivered twice changes nothing the second time, in any state a run
  reaches and whatever the first one did: the attempt ended, was handed out again, or was over already.
\<close>

theorem record_is_idempotent:
  assumes "started_run e s" "(moves lib e)\<^sup>*\<^sup>* s t" "task_Terminal (res_State r)"
  shows "fst (Record e r now' (fst (Record e r now t))) = fst (Record e r now t)"
  using run_machine.inv_reachable[OF assms(1,2)] assms(3) by (intro Record_ended_twice) auto

theorem record_is_idempotent_witness:
  "fst (Record chain_evaluator a_failed 9 (fst (Record chain_evaluator a_failed 5 chain_running))) =
     fst (Record chain_evaluator a_failed 5 chain_running) \<and>
   fst (Record chain_evaluator a_failed 5 chain_running) \<noteq> chain_running"
proof
  have "task_Terminal (res_State a_failed)" by (simp add: a_failed_def report_def)
  from record_is_idempotent[OF chain_started_run chain_reaches this]
  show "fst (Record chain_evaluator a_failed 9 (fst (Record chain_evaluator a_failed 5 chain_running))) =
     fst (Record chain_evaluator a_failed 5 chain_running)" .
  show "fst (Record chain_evaluator a_failed 5 chain_running) \<noteq> chain_running" by code_simp
qed

text \<open>
  The sequence counts the decisions. A pass that answers a plan moves the sequence by one where it
  changed the state, and leaves it where it left the state as it was.
\<close>

theorem next_counts_decisions:
  assumes "Build other schema w manifests = Inr (ev_graph e)" "Next lib e now s = (t, Inr plan)"
  shows "s_Seq t = (if t = s then s_Seq s else s_Seq s + 1)"
proof (cases "run_Terminal (r_State (s_Run s)) \<or> \<not> (case deadline e s of None \<Rightarrow> True | Some dl \<Rightarrow> now < dl)")
  case True
  then show ?thesis
    using assms(2) end_run_run(2)[of e TimedOut ReasonDeadline now s]
    by (auto simp: Next_def Let_def split: if_splits option.splits)
next
  case False
  then have "decide lib e now s = (t, Inr plan)"
    using assms(2) by (auto simp: Next_def Let_def split: if_splits option.splits)
  then show ?thesis by (rule decide_counts[OF Build_layered[OF assms(1)]])
qed

theorem next_counts_decisions_witness: "s_Seq (fst (Next plain_library chain_evaluator 2 chain_start)) = s_Seq chain_start + 1"
proof -
  have b: "Build no_other_checks (\<lambda>_ _ _. None) chain_workflow [] = Inr (ev_graph chain_evaluator)"
    by (simp add: chain_evaluator_def chain_builds)
  have "\<not> isl (snd (Next plain_library chain_evaluator 2 chain_start))" by code_simp
  then obtain plan where "Next plain_library chain_evaluator 2 chain_start = (chain_running, Inr plan)"
    using chain_next by (metis not_isl_Inr prod.collapse)
  moreover have "chain_running \<noteq> chain_start" by code_simp
  ultimately show ?thesis using next_counts_decisions[OF b] by simp
qed

text \<open>
  C10: the deadline ends the run. A pass at or past the deadline of a run that has not ended always
  answers: the run is timed out at that moment, no step of the graph is left running, nothing is
  started, and what is stopped is exactly the tasks that hold a runner.
\<close>

theorem deadline_ends_the_run:
  assumes "\<not> run_Terminal (r_State (s_Run s))" "deadline e s = Some dl" "dl \<le> now"
  shows "\<exists>t plan. Next lib e now s = (t, Inr plan) \<and> r_State (s_Run t) = TimedOut \<and> r_FinishedAt (s_Run t) = now \<and>
    (\<forall>n \<in> set (Order (ev_graph e)). verdict_at t n \<noteq> VerdictRunning) \<and> pl_Start plan = [] \<and>
    set (pl_Stop plan) = {\<lparr>stop_Task = taskID s n sh, stop_Reason = StopDeadline\<rparr> | n sh.
       n \<in> set (Order (ev_graph e)) \<and> sh \<in> set (shards_at s n) \<and> holdsARunner sh}"
proof (intro exI conjI)
  let ?t = "end_run e TimedOut ReasonDeadline now s"
  have "r_State (s_Run s) \<noteq> Cancelled" "r_State (s_Run s) \<noteq> TimedOut" using assms(1) by auto
  then show "Next lib e now s = (?t, Inr (stopEverything e ?t StopDeadline))"
    using assms by (simp add: Next_def Let_def)
  show "r_State (s_Run ?t) = TimedOut" "r_FinishedAt (s_Run ?t) = now" by (simp_all add: end_run_run run_ended_def)
  show "\<forall>n \<in> set (Order (ev_graph e)). verdict_at ?t n \<noteq> VerdictRunning" by (simp add: at_end_run)
  show "pl_Start (stopEverything e ?t StopDeadline) = []" by (simp add: stopEverything_def empty_plan_def)
  have "shards_at ?t n = shards_at s n" for n by (simp add: at_end_run)
  moreover have "taskID ?t n sh = taskID s n sh" for n sh by (simp add: taskID_def end_run_run run_ended_def)
  ultimately show "set (pl_Stop (stopEverything e ?t StopDeadline)) = {\<lparr>stop_Task = taskID s n sh, stop_Reason = StopDeadline\<rparr> | n sh.
       n \<in> set (Order (ev_graph e)) \<and> sh \<in> set (shards_at s n) \<and> holdsARunner sh}"
    by (simp add: stopEverything_tasks)
qed

theorem deadline_ends_the_run_witness:
  "\<exists>t plan. Next plain_library chain_evaluator 101 chain_running = (t, Inr plan) \<and> r_State (s_Run t) = TimedOut"
proof -
  have "\<not> run_Terminal (r_State (s_Run chain_running))" "deadline chain_evaluator chain_running = Some 101" by code_simp+
  from deadline_ends_the_run[OF this, of 101 plain_library] show ?thesis by auto
qed

end
