(* ===== verification/Progress.thy ===== *)
theory Progress
  imports Safety
begin

text \<open>
  What a pass leaves behind. A pass that answers a plan has started every task it may and stopped every
  task it must: \<open>max_parallel\<close> holds, nothing a \<open>fail_fast\<close> or a \<open>merge: first\<close> calls off is left, no
  step is left that could end or begin, and a run that goes on always has something to come back for.
\<close>

section \<open>States that differ in cache keys\<close>

text \<open>Handing a task out writes nothing but its memoisation key into the state.\<close>

definition bare :: "step_state \<Rightarrow> step_state" where
  "bare ss = ss\<lparr>ss_Shards := map (\<lambda>sh. sh\<lparr>sd_CacheKey := []\<rparr>) (ss_Shards ss)\<rparr>"

definition alike :: "state \<Rightarrow> state \<Rightarrow> bool" where
  "alike s t \<longleftrightarrow> s_Run t = s_Run s \<and> (\<forall>n. bare (at_step t n) = bare (at_step s n)) \<and>
     (\<forall>n. has_key (s_Steps t) n = has_key (s_Steps s) n)"

lemma alike_refl [simp]: "alike s s"
  by (simp add: alike_def)

lemma alike_trans: "alike s t \<Longrightarrow> alike t u \<Longrightarrow> alike s u"
  by (simp add: alike_def)

lemma bare_fields:
  assumes "bare ss = bare ss'"
  shows "ss_Verdict ss = ss_Verdict ss'" "ss_Ports ss = ss_Ports ss'" "ss_Since ss = ss_Since ss'"
    "length (ss_Shards ss) = length (ss_Shards ss')"
    "i < length (ss_Shards ss) \<Longrightarrow> (ss_Shards ss ! i)\<lparr>sd_CacheKey := []\<rparr> = (ss_Shards ss' ! i)\<lparr>sd_CacheKey := []\<rparr>"
proof -
  have m: "map (\<lambda>sh. sh\<lparr>sd_CacheKey := []\<rparr>) (ss_Shards ss) = map (\<lambda>sh. sh\<lparr>sd_CacheKey := []\<rparr>) (ss_Shards ss')"
    using arg_cong[OF assms, of ss_Shards] by (simp add: bare_def)
  show "ss_Verdict ss = ss_Verdict ss'" using arg_cong[OF assms, of ss_Verdict] by (simp add: bare_def)
  show "ss_Ports ss = ss_Ports ss'" using arg_cong[OF assms, of ss_Ports] by (simp add: bare_def)
  show "ss_Since ss = ss_Since ss'" using arg_cong[OF assms, of ss_Since] by (simp add: bare_def)
  show len: "length (ss_Shards ss) = length (ss_Shards ss')" using arg_cong[OF m, of length] by simp
  show "(ss_Shards ss ! i)\<lparr>sd_CacheKey := []\<rparr> = (ss_Shards ss' ! i)\<lparr>sd_CacheKey := []\<rparr>" if "i < length (ss_Shards ss)"
    using arg_cong[OF m, of "\<lambda>xs. xs ! i"] that len by simp
qed

lemma unkeyed_fields:
  assumes "sh\<lparr>sd_CacheKey := []\<rparr> = sh'\<lparr>sd_CacheKey := []\<rparr>"
  shows "sd_Shard sh = sd_Shard sh'" "sd_Attempt sh = sd_Attempt sh'" "sd_Requeue sh = sd_Requeue sh'" "sd_Task sh = sd_Task sh'"
    "sd_ExitCode sh = sd_ExitCode sh'" "sd_NextAttemptAt sh = sd_NextAttemptAt sh'"
  using arg_cong[OF assms, of sd_Shard] arg_cong[OF assms, of sd_Attempt] arg_cong[OF assms, of sd_Requeue]
    arg_cong[OF assms, of sd_Task] arg_cong[OF assms, of sd_ExitCode] arg_cong[OF assms, of sd_NextAttemptAt] by simp_all

lemma alike_at:
  assumes "alike s t"
  shows "verdict_at t n = verdict_at s n" "ss_Ports (at_step t n) = ss_Ports (at_step s n)"
    "ss_Since (at_step t n) = ss_Since (at_step s n)" "length (shards_at t n) = length (shards_at s n)"
  using assms bare_fields[of "at_step t n" "at_step s n"] by (simp_all add: alike_def)

lemma alike_shard:
  assumes "alike s t" "i < length (shards_at s n)"
  shows "sd_Shard (shards_at t n ! i) = sd_Shard (shards_at s n ! i)" "sd_Attempt (shards_at t n ! i) = sd_Attempt (shards_at s n ! i)"
    "sd_Task (shards_at t n ! i) = sd_Task (shards_at s n ! i)" "sd_ExitCode (shards_at t n ! i) = sd_ExitCode (shards_at s n ! i)"
    "sd_NextAttemptAt (shards_at t n ! i) = sd_NextAttemptAt (shards_at s n ! i)"
proof -
  have "bare (at_step s n) = bare (at_step t n)" using assms(1) by (simp add: alike_def)
  from unkeyed_fields[OF bare_fields(5)[OF this assms(2)]]
  show "sd_Shard (shards_at t n ! i) = sd_Shard (shards_at s n ! i)" "sd_Attempt (shards_at t n ! i) = sd_Attempt (shards_at s n ! i)"
    "sd_Task (shards_at t n ! i) = sd_Task (shards_at s n ! i)" "sd_ExitCode (shards_at t n ! i) = sd_ExitCode (shards_at s n ! i)"
    "sd_NextAttemptAt (shards_at t n ! i) = sd_NextAttemptAt (shards_at s n ! i)" by simp_all
qed

lemma alike_keyed:
  assumes "i < length (shards_at s n)"
  shows "alike s (set_shard n i ((shards_at s n ! i)\<lparr>sd_CacheKey := k\<rparr>) s)"
proof -
  have "map (\<lambda>sh. sh\<lparr>sd_CacheKey := []\<rparr>) ((shards_at s n)[i := (shards_at s n ! i)\<lparr>sd_CacheKey := k\<rparr>]) =
      map (\<lambda>sh. sh\<lparr>sd_CacheKey := []\<rparr>) (shards_at s n)"
    using assms by (simp add: map_update list_update_same_conv)
  moreover have "has_key (s_Steps s) n" using assms by (rule has_key_shards)
  ultimately show ?thesis by (auto simp: alike_def at_set_shard bare_def set_shard_def Let_def)
qed

section \<open>What is handed out\<close>

definition task_for :: "state \<Rightarrow> time \<Rightarrow> string \<Rightarrow> nat \<Rightarrow> task \<Rightarrow> bool" where
  "task_for s now n i t \<longleftrightarrow> i < length (shards_at s n) \<and> due (shards_at s n ! i) now \<and> t_Step t = n \<and>
     t_Shard t = sd_Shard (shards_at s n ! i) \<and> t_Attempt t = sd_Attempt (shards_at s n ! i) \<and>
     t_ID t = taskID s n (shards_at s n ! i)"

lemma task_for_alike: "alike s s' \<Longrightarrow> task_for s' now n i t = task_for s now n i t"
  using alike_shard[of s s' i n] alike_at(4)[of s s' n]
  by (auto simp: task_for_def due_def taskID_def alike_def)

lemma task_of_fields:
  assumes "task_of lib e s n st w sh now = Inr t"
  shows "t_Step t = n" "t_Shard t = wk_Shard w" "t_Attempt t = sd_Attempt sh" "t_ID t = taskID s n sh"
  using assms by (auto simp: task_of_def Let_def split: if_splits)

definition lifted :: "library \<Rightarrow> evaluator \<Rightarrow> state \<Rightarrow> string \<Rightarrow> step \<Rightarrow> bool" where
  "lifted lib e s n st \<longleftrightarrow> (\<exists>s' arrived. alike s s' \<and> read lib e s' n st = Inr (GateStart arrived))"

lemma shards_of_lifted: "shards_of lib e s' n st = Inr ws \<Longrightarrow> alike s s' \<Longrightarrow> lifted lib e s n st"
proof -
  assume w: "shards_of lib e s' n st = Inr ws" and a: "alike s s'"
  then obtain g where g: "read lib e s' n st = Inr g" by (auto simp: shards_of_def)
  with w obtain arrived where "g = GateStart arrived" by (cases g) (auto simp: shards_of_def)
  with g a show "lifted lib e s n st" by (auto simp: lifted_def)
qed

lemma dispatch_shard_spec:
  assumes "dispatch_shard lib e now n st i d = (d', None)" "\<not> d_broke d'" "i < length (shards_at (d_state d) n)"
  shows "d' = d \<and> (d_slots d \<le> 0 \<or> \<not> due (shards_at (d_state d) n ! i) now) \<or>
    (\<exists>t ws. 0 < d_slots d \<and> task_for (d_state d) now n i t \<and> d_start d' = d_start d @ [t] \<and> d_slots d' = d_slots d - 1 \<and>
       alike (d_state d) (d_state d') \<and> \<not> d_broke d \<and> d_divided d' = Some ws \<and>
       (d_divided d = None \<longrightarrow> shards_of lib e (d_state d) n st = Inr ws))"
proof (cases "d_slots d \<le> 0 \<or> \<not> due (shards_at (d_state d) n ! i) now")
  case True
  then show ?thesis using assms(1) by (simp add: dispatch_shard_def Let_def)
next
  case False
  let ?s = "d_state d" and ?sh = "shards_at (d_state d) n ! i"
  obtain ws where ws: "(case d_divided d of Some ws \<Rightarrow> Inr ws | None \<Rightarrow> shards_of lib e ?s n st) = Inr ws"
    using assms(1) False by (auto simp: dispatch_shard_def Let_def split: sum.splits)
  obtain w where w: "find (\<lambda>w. wk_Shard w = sd_Shard ?sh) ws = Some w"
    using assms(1) False ws by (auto simp: dispatch_shard_def Let_def split: option.splits)
  obtain t where t: "task_of lib e ?s n st w ?sh now = Inr t"
    using assms(1,2) False ws w by (auto simp: dispatch_shard_def Let_def split: sum.splits)
  have d': "d' = d\<lparr>d_state := set_shard n i (?sh\<lparr>sd_CacheKey := t_CacheKey t\<rparr>) ?s, d_start := d_start d @ [t],
      d_slots := d_slots d - 1, d_divided := Some ws\<rparr>"
    using assms(1) False ws w t by (simp add: dispatch_shard_def Let_def)
  have "wk_Shard w = sd_Shard ?sh" using w by (auto simp: find_Some_iff)
  then have "task_for ?s now n i t" using False assms(3) task_of_fields[OF t] by (simp add: task_for_def)
  then show ?thesis
    using False d' assms(2) alike_keyed[OF assms(3)] ws by (auto split: option.splits)
qed

lemma dispatch_shard_broke: "d_broke d \<Longrightarrow> d_broke (fst (dispatch_shard lib e now n st i d))"
  by (auto simp: dispatch_shard_def Let_def split: option.splits sum.splits)

lemma sfold_shards_broke: "d_broke d \<Longrightarrow> d_broke (fst (sfold (dispatch_shard lib e now n st) is d))"
  by (rule sfold_invariant[where P = d_broke]) (auto intro: dispatch_shard_broke)

lemma sfold_Cons_None:
  assumes "sfold f (x # xs) s = (u, None)"
  obtains t where "f x s = (t, None)" "sfold f xs t = (u, None)"
  using assms by (auto split: prod.splits option.splits)

text \<open>\<open>handing \<dots> is d d' js ts\<close>: over the shards \<open>is\<close> of a step, from \<open>d\<close> to \<open>d'\<close>, the tasks \<open>ts\<close> of the shards \<open>js\<close> were handed out.\<close>

definition handing ::
  "library \<Rightarrow> evaluator \<Rightarrow> time \<Rightarrow> string \<Rightarrow> step \<Rightarrow> nat list \<Rightarrow> dispatching \<Rightarrow> dispatching \<Rightarrow> nat list \<Rightarrow> task list \<Rightarrow> bool" where
  "handing lib e now n st is d d' js ts \<longleftrightarrow>
     d_start d' = d_start d @ ts \<and> list_all2 (task_for (d_state d) now n) js ts \<and>
     set js \<subseteq> set is \<and> (distinct is \<longrightarrow> distinct js) \<and>
     int (length ts) \<le> max 0 (d_slots d) \<and> d_slots d' = d_slots d - int (length ts) \<and> alike (d_state d) (d_state d') \<and>
     (0 < d_slots d' \<longrightarrow> (\<forall>i \<in> set is. due (shards_at (d_state d) n ! i) now \<longrightarrow> i \<in> set js)) \<and>
     (ts \<noteq> [] \<longrightarrow> lifted lib e (d_state d) n st)"

lemma dispatch_shards_spec:
  assumes "sfold (dispatch_shard lib e now n st) is d = (d', None)" "\<not> d_broke d'"
    and "\<And>i. i \<in> set is \<Longrightarrow> i < length (shards_at (d_state d) n)"
    and "d_divided d \<noteq> None \<Longrightarrow> lifted lib e (d_state d) n st"
  shows "\<exists>js ts. handing lib e now n st is d d' js ts"
  using assms
proof (induction "is" arbitrary: d)
  case Nil
  then show ?case by (intro exI[of _ "[]"]) (simp add: handing_def)
next
  case (Cons i "is")
  obtain d1 where d1: "dispatch_shard lib e now n st i d = (d1, None)" "sfold (dispatch_shard lib e now n st) is d1 = (d', None)"
    using sfold_Cons_None[OF Cons.prems(1)] by blast
  have nb: "\<not> d_broke d1" using sfold_shards_broke[of d1 lib e now n st "is"] d1(2) Cons.prems(2) by auto
  have i: "i < length (shards_at (d_state d) n)" using Cons.prems(3) by simp
  show ?case
  proof (cases "d1 = d \<and> (d_slots d \<le> 0 \<or> \<not> due (shards_at (d_state d) n ! i) now)")
    case True
    have "\<exists>js ts. handing lib e now n st is d1 d' js ts"
      using True Cons.prems(3,4) by (intro Cons.IH[OF d1(2) Cons.prems(2)]) auto
    then obtain js ts where IH: "handing lib e now n st is d d' js ts" using True by blast
    have "0 < d_slots d' \<Longrightarrow> \<not> due (shards_at (d_state d) n ! i) now" using True IH by (auto simp: handing_def)
    with IH have "handing lib e now n st (i # is) d d' js ts" unfolding handing_def by (simp add: subset_insertI2)
    then show ?thesis by blast
  next
    case False
    then obtain t ws where t: "0 < d_slots d" "task_for (d_state d) now n i t" "d_start d1 = d_start d @ [t]"
      "d_slots d1 = d_slots d - 1" "alike (d_state d) (d_state d1)"
      "d_divided d = None \<longrightarrow> shards_of lib e (d_state d) n st = Inr ws"
      using dispatch_shard_spec[OF d1(1) nb i] by (elim disjE) auto
    have lift: "lifted lib e (d_state d) n st"
      using t(6) Cons.prems(4) shards_of_lifted[of lib e "d_state d" n st ws "d_state d"] by auto
    have lift1: "lifted lib e (d_state d1) n st"
      using lift t(5) unfolding lifted_def alike_def by metis
    have "\<exists>js ts. handing lib e now n st is d1 d' js ts"
      using Cons.prems(3) alike_at(4)[OF t(5)] lift1 by (intro Cons.IH[OF d1(2) Cons.prems(2)]) simp_all
    then obtain js ts where IH: "handing lib e now n st is d1 d' js ts" by blast
    have same: "task_for (d_state d1) now n = task_for (d_state d) now n" using task_for_alike[OF t(5)] by blast
    have due: "due (shards_at (d_state d1) n ! j) now = due (shards_at (d_state d) n ! j) now" if "j \<in> set is" for j
      using alike_shard[OF t(5)] Cons.prems(3) that by (simp add: due_def)
    have "handing lib e now n st (i # is) d d' (i # js) (t # ts)"
      using IH t(1-4) lift due alike_trans[OF t(5)] unfolding handing_def same by auto
    then show ?thesis by blast
  qed
qed

definition handed :: "library \<Rightarrow> evaluator \<Rightarrow> time \<Rightarrow> state \<Rightarrow> string \<Rightarrow> task list \<Rightarrow> bool" where
  "handed lib e now s n ts \<longleftrightarrow>
     (if verdict_at s n = VerdictRunning \<and> step_in e n \<noteq> None
      then \<exists>st js. step_in e n = Some st \<and> list_all2 (task_for s now n) js ts \<and> distinct js \<and>
             int (length ts) \<le> slotsFree st (at_step s n) \<and>
             (int (length ts) < slotsFree st (at_step s n) \<longrightarrow>
                (\<forall>i < length (shards_at s n). due (shards_at s n ! i) now \<longrightarrow> i \<in> set js)) \<and>
             (ts \<noteq> [] \<longrightarrow> lifted lib e s n st)
      else ts = [])"

lemma slotsFree_bare: "slotsFree st (bare ss) = slotsFree st ss"
proof -
  have "inFlight (bare ss) = inFlight ss"
    by (simp add: inFlight_def bare_def filter_map comp_def holdsARunner_def[abs_def])
  then show ?thesis by (simp add: slotsFree_def Let_def)
qed

lemma slotsFree_nonneg: "0 \<le> slotsFree st ss"
  by (simp add: slotsFree_def Let_def max_int64_def)

lemma lifted_alike: "alike s s' \<Longrightarrow> lifted lib e s' n st = lifted lib e s n st"
  unfolding lifted_def alike_def by metis

lemma handed_alike:
  assumes "alike s s'"
  shows "handed lib e now s' n ts = handed lib e now s n ts"
proof -
  have slots: "slotsFree st (at_step s' n) = slotsFree st (at_step s n)" for st
    using assms slotsFree_bare[of st "at_step s' n"] slotsFree_bare[of st "at_step s n"] by (simp add: alike_def)
  have due: "(\<forall>i < length (shards_at s' n). due (shards_at s' n ! i) now \<longrightarrow> i \<in> A) =
      (\<forall>i < length (shards_at s n). due (shards_at s n ! i) now \<longrightarrow> i \<in> A)" for A
    using alike_shard[OF assms] alike_at(4)[OF assms] by (simp add: due_def)
  have tf: "task_for s' now n = task_for s now n" using task_for_alike[OF assms] by blast
  show ?thesis unfolding handed_def slots due tf lifted_alike[OF assms] alike_at(1)[OF assms] by (rule refl)
qed

lemma dispatch_step_spec:
  assumes "dispatch_step lib e now n d = (d', None)" "\<not> d_broke d'"
  shows "\<exists>ts. d_start d' = d_start d @ ts \<and> handed lib e now (d_state d) n ts \<and> alike (d_state d) (d_state d')"
proof (cases "verdict_at (d_state d) n = VerdictRunning \<and> step_in e n \<noteq> None")
  case False
  then have "d' = d" using assms(1) by (auto simp: dispatch_step_def Let_def split: if_splits option.splits)
  with False show ?thesis by (intro exI[of _ "[]"]) (simp add: handed_def)
next
  case True
  then obtain st where st: "step_in e n = Some st" by blast
  let ?d = "d\<lparr>d_slots := slotsFree st (at_step (d_state d) n), d_divided := None\<rparr>"
  have "sfold (dispatch_shard lib e now n st) [0..<length (shards_at (d_state d) n)] ?d = (d', None)"
    using assms(1) True st by (simp add: dispatch_step_def Let_def)
  from dispatch_shards_spec[OF this assms(2)] obtain js ts
    where h: "handing lib e now n st [0..<length (shards_at (d_state d) n)] ?d d' js ts" by auto
  then have "handed lib e now (d_state d) n ts"
    using True st slotsFree_nonneg[of st "at_step (d_state d) n"] by (auto simp: handing_def handed_def)
  with h show ?thesis by (auto simp: handing_def)
qed

lemma dispatch_step_broke: "d_broke d \<Longrightarrow> d_broke (fst (dispatch_step lib e now n d))"
  by (auto simp: dispatch_step_def Let_def sfold_shards_broke split: option.splits)

lemma sfold_steps_broke: "d_broke d \<Longrightarrow> d_broke (fst (sfold (dispatch_step lib e now) ns d))"
  by (rule sfold_invariant[where P = d_broke]) (auto intro: dispatch_step_broke)

lemma dispatch_steps_spec:
  assumes "sfold (dispatch_step lib e now) ns d = (d', None)" "\<not> d_broke d'"
  shows "\<exists>tss. d_start d' = d_start d @ concat tss \<and> list_all2 (handed lib e now (d_state d)) ns tss \<and> alike (d_state d) (d_state d')"
  using assms
proof (induction ns arbitrary: d)
  case Nil
  then show ?case by (intro exI[of _ "[]"]) simp
next
  case (Cons n ns)
  obtain d1 where d1: "dispatch_step lib e now n d = (d1, None)" "sfold (dispatch_step lib e now) ns d1 = (d', None)"
    using sfold_Cons_None[OF Cons.prems(1)] by blast
  have nb: "\<not> d_broke d1" using sfold_steps_broke[of d1 lib e now ns] d1(2) Cons.prems(2) by auto
  obtain ts where ts: "d_start d1 = d_start d @ ts" "handed lib e now (d_state d) n ts" "alike (d_state d) (d_state d1)"
    using dispatch_step_spec[OF d1(1) nb] by blast
  obtain tss where tss: "d_start d' = d_start d1 @ concat tss" "list_all2 (handed lib e now (d_state d1)) ns tss"
    "alike (d_state d1) (d_state d')"
    using Cons.IH[OF d1(2) Cons.prems(2)] by blast
  have "handed lib e now (d_state d1) = handed lib e now (d_state d)" using handed_alike[OF ts(3)] by blast
  then show ?case
    using ts tss alike_trans[OF ts(3) tss(3)] by (intro exI[of _ "ts # tss"]) simp
qed

section \<open>The turn that ends a pass\<close>

lemma end_shards_grow: "length (snd (foldl (end_shard n why now) p is)) = length (snd p) + length is"
  by (induction "is" arbitrary: p) (auto simp: end_shard_def Let_def split: prod.splits)

definition nothing_to_stop :: "evaluator \<Rightarrow> step_state \<Rightarrow> string \<Rightarrow> bool" where
  "nothing_to_stop e ss n \<longleftrightarrow> (case to_stop e n ss of None \<Rightarrow> True | Some (why, is) \<Rightarrow> is = [])"

lemma stop_step_none:
  assumes "snd (stop_step e now p n) = []"
  shows "p = (fst p, []) \<and> stop_step e now p n = p \<and> nothing_to_stop e (at_step (fst p) n) n"
proof -
  obtain s stops where p: "p = (s, stops)" by fastforce
  show ?thesis
  proof (cases "to_stop e n (at_step s n)")
    case None
    then show ?thesis using assms p by (simp add: stop_step_def nothing_to_stop_def)
  next
    case (Some q)
    obtain why "is" where q: "q = (why, is)" by fastforce
    have "stops = [] \<and> is = []"
      using assms end_shards_grow[of n why now "(s, stops)" "is"] Some p q by (simp add: stop_step_def)
    then show ?thesis using Some p q by (simp add: stop_step_def nothing_to_stop_def)
  qed
qed

lemma stop_steps_none:
  assumes "snd (foldl (stop_step e now) p ns) = []"
  shows "fst (foldl (stop_step e now) p ns) = fst p \<and> (\<forall>n \<in> set ns. nothing_to_stop e (at_step (fst p) n) n)"
  using assms
proof (induction ns rule: rev_induct)
  case (snoc n ns)
  let ?q = "foldl (stop_step e now) p ns"
  have "snd (stop_step e now ?q n) = []" using snoc.prems by simp
  from stop_step_none[OF this] have q: "snd ?q = []" "stop_step e now ?q n = ?q" "nothing_to_stop e (at_step (fst ?q) n) n"
    by (metis snd_conv)+
  with snoc.IH show ?case by auto
qed simp

lemma last_turn:
  assumes "take_turn lib e now s = (t, TurnOver start)"
  obtains s1 tss where "sfold (advance lib e now) (Order (ev_graph e)) s = (s1, None)" "alike s1 t" "start = concat tss"
    "list_all2 (handed lib e now t) (Order (ev_graph e)) tss"
    "\<forall>n \<in> set (Order (ev_graph e)). nothing_to_stop e (at_step t n) n"
proof -
  obtain s1 where s1: "sfold (advance lib e now) (Order (ev_graph e)) s = (s1, None)"
    using assms by (auto simp: take_turn_def split: prod.splits option.splits)
  obtain d where d: "dispatch lib e now s1 = (d, None)" "\<not> d_broke d"
    using assms s1 by (auto simp: take_turn_def split: prod.splits option.splits if_splits)
  have stops: "stops_of e now (d_state d) = (t, [])" "start = d_start d"
    using assms s1 d by (auto simp: take_turn_def split: prod.splits if_splits)
  then have t: "t = d_state d" "\<forall>n \<in> set (Order (ev_graph e)). nothing_to_stop e (at_step t n) n"
    using stop_steps_none[of e now "(d_state d, [])" "Order (ev_graph e)"] by (auto simp: stops_of_def)
  obtain tss where tss: "d_start d = concat tss" "list_all2 (handed lib e now s1) (Order (ev_graph e)) tss" "alike s1 (d_state d)"
    using dispatch_steps_spec[OF d(1)[unfolded dispatch_def] d(2)] by auto
  have "handed lib e now s1 = handed lib e now t" using handed_alike[of s1 t] tss(3) t(1) by blast
  then show thesis using that s1 stops(2) t tss by simp
qed

lemma passes_last:
  assumes "passes lib e now stops s = (t, Inr (start, stops'))" "layered (ev_graph e)"
  shows "\<exists>s'. take_turn lib e now s' = (t, TurnOver start) \<and> changes e now s s'"
  using assms
proof (induction lib e now stops s rule: passes.induct)
  case (1 lib e now stops s)
  obtain u turn where u: "take_turn lib e now s = (u, turn)" by fastforce
  show ?case
  proof (cases turn)
    case (TurnFailed err)
    then show ?thesis using 1(2) u by (simp add: passes.simps[of lib e now stops s])
  next
    case (TurnOver start')
    then show ?thesis using 1(2) u by (auto simp: passes.simps[of lib e now stops s])
  next
    case (TurnAgain extra)
    then have "passes lib e now (stops @ extra) u = (t, Inr (start, stops'))"
      using 1(2) u by (simp add: passes.simps[of lib e now stops s])
    from 1(1)[OF u[symmetric] TurnAgain this 1(3)] obtain s' where s': "take_turn lib e now s' = (t, TurnOver start)"
      "changes e now u s'" by blast
    moreover have "changes e now s u" using take_turn_changes[OF 1(3), of now s lib] u by simp
    ultimately show ?thesis by (meson rtranclp_trans)
  qed
qed

section \<open>What advancing every step leaves\<close>

lemma ended_at: "ended (s_Steps s) n \<longleftrightarrow> verdict_Terminal (verdict_at s n)"
  by (auto simp: ended_def at_step_def split: option.splits)

text \<open>A step that is running has a shard that is not over; a step that is pending waits for a step that is not.\<close>

definition unsettled :: "state \<Rightarrow> string \<Rightarrow> bool" where
  "unsettled s n \<longleftrightarrow> (verdict_at s n = VerdictRunning \<longrightarrow> (\<exists>sh \<in> set (shards_at s n). \<not> shard_done sh))"

definition waits :: "evaluator \<Rightarrow> state \<Rightarrow> string \<Rightarrow> bool" where
  "waits e s n \<longleftrightarrow> (verdict_at s n = VerdictPending \<longrightarrow>
     (\<exists>ed \<in> set (Edges (ev_graph e) n). \<not> verdict_Terminal (verdict_at s (e_Step ed))))"

lemma satisfyPort_waits:
  assumes "satisfyPort st port edges steps fd run at = None" "edges \<noteq> [] \<or> has_key fd port"
  shows "\<exists>ed \<in> set edges. \<not> ended steps (e_Step ed)"
proof (rule ccontr)
  let ?held = "map (\<lambda>ed. resolveEdge ed steps run at) edges"
  assume "\<not> (\<exists>ed \<in> set edges. \<not> ended steps (e_Step ed))"
  then have w: "\<not> list_ex (\<lambda>h. fst h = EdgeWaiting) ?held"
    using resolveEdge_waiting by (fastforce simp: list_ex_iff)
  have fd: "\<exists>en. map_of fd port = Some en" if "edges = []" using assms(2) that by (auto simp: has_key_def)
  show False
    using assms(1) w fd by (auto simp: satisfyPort_def Let_def with_fed_def split: option.splits if_splits)
qed

lemma barrier_waits:
  assumes "barrier name st edges steps fd run l at = Inr GateWait"
  shows "\<exists>ed \<in> set edges. \<not> ended steps (e_Step ed)"
proof -
  have "found_all (\<lambda>port. satisfyPort st port (by_port edges port) steps fd run at) (inbound_names edges fd) = None"
    using assms by (auto simp: barrier_def Let_def split: option.splits prod.splits)
  then obtain port where p: "port \<in> set (inbound_names edges fd)"
    "satisfyPort st port (by_port edges port) steps fd run at = None"
    by (auto simp: found_all_None)
  have "by_port edges port \<noteq> [] \<or> has_key fd port"
    using p(1) by (auto simp: inbound_names_iff has_key_iff by_port_def filter_empty_conv)
  from satisfyPort_waits[OF p(2) this] show ?thesis by (auto simp: set_by_port)
qed

lemma ends_terminal:
  assumes "effect_of s (end_step e n st ss un now s) = (t, None)" "verdict_Terminal (ss_Verdict ss)"
  shows "verdict_Terminal (verdict_at t n)" "m \<noteq> n \<Longrightarrow> at_step t m = at_step s m"
  using assms by (auto simp: effect_of_None dest!: end_step_Inr)

lemma divide_at:
  assumes "divide e n st arrived now s = (t, None)"
  shows "verdict_Terminal (verdict_at t n) \<or> (verdict_at t n = VerdictRunning \<and> (\<exists>sh \<in> set (shards_at t n). \<not> shard_done sh))"
    "m \<noteq> n \<Longrightarrow> at_step t m = at_step s m"
proof -
  have c: "(\<exists>ss un. effect_of s (end_step e n st ss un now s) = (t, None) \<and> verdict_Terminal (ss_Verdict ss)) \<or>
      (\<exists>w ws. t = put_step n (started (w # ws) now) s)"
    using assms by (auto simp: divide_def refused_def neq_Nil_conv split: sum.splits if_splits)
  then show "verdict_Terminal (verdict_at t n) \<or> (verdict_at t n = VerdictRunning \<and> (\<exists>sh \<in> set (shards_at t n). \<not> shard_done sh))"
    using ends_terminal(1) by (fastforce simp: started_def shard_done_def)
  show "at_step t m = at_step s m" if "m \<noteq> n"
    using c ends_terminal(2) that by (elim disjE exE) (blast, simp)
qed

lemma cancels_cancel:
  assumes "n \<in> set ns" "\<not> verdict_Terminal (verdict_at s n)"
  shows "verdict_at (foldl (\<lambda>s n. cancel n why now s) s ns) n = VerdictCancelled"
  using assms
proof (induction ns arbitrary: s)
  case (Cons m ns)
  show ?case
  proof (cases "m = n")
    case True
    then have "verdict_at (cancel m why now s) n = VerdictCancelled" using Cons.prems by (simp add: at_cancel)
    then show ?thesis using cancels_terminal[of "cancel m why now s" n why now ns] by simp
  next
    case False
    then have "at_step (cancel m why now s) n = at_step s n" by (simp add: at_cancel)
    then show ?thesis using Cons.IH[of "cancel m why now s"] Cons.prems False by simp
  qed
qed simp

lemma begin_at:
  assumes "layered (ev_graph e)" "begin_step lib e n now s = (t, None)" "verdict_at s n = VerdictPending"
  shows "unsettled t n \<and> waits e t n"
    "m \<noteq> n \<Longrightarrow> at_step t m = at_step s m \<or>
       verdict_at t m = VerdictCancelled \<and> (\<forall>p c. c \<in> set (Consumers (ev_graph e) m p) \<longrightarrow> c = n \<or> verdict_Terminal (verdict_at s c))"
proof -
  obtain st where st: "step_in e n = Some st" using assms(2) by (auto simp: begin_step_def split: option.splits)
  have over: "unsettled u n \<and> waits e u n"
    if "verdict_Terminal (verdict_at u n) \<or> (verdict_at u n = VerdictRunning \<and> (\<exists>sh \<in> set (shards_at u n). \<not> shard_done sh))" for u
    using that by (auto simp: unsettled_def waits_def)
  have ab: "at_step (abandon e n arrived now s) m = at_step s m \<or> verdict_at (abandon e n arrived now s) m = VerdictCancelled \<and>
      (\<forall>p c. c \<in> set (Consumers (ev_graph e) m p) \<longrightarrow> c = n \<or> verdict_Terminal (verdict_at s c))" for m arrived
  proof (cases "m \<in> set (superseded (Step (ev_graph e)) (published (ev_graph e)) (Consumers (ev_graph e))
      (wf_Outputs (g_wf (ev_graph e))) n (ar_Abandoned arrived) (s_Steps s))")
    case True
    then have t: "\<not> verdict_Terminal (verdict_at s m)" "\<forall>p c. c \<in> set (Consumers (ev_graph e) m p) \<longrightarrow> c = n \<or> verdict_Terminal (verdict_at s c)"
      by (auto simp: graph_topology.superseded_iff ended_at)
    have "verdict_at (abandon e n arrived now s) m = VerdictCancelled"
      unfolding abandon_def using True t(1) by (rule cancels_cancel)
    with t(2) show ?thesis by blast
  next
    case False
    then show ?thesis unfolding abandon_def using cancels_elsewhere by blast
  qed
  have *: "(unsettled t n \<and> waits e t n) \<and> (m \<noteq> n \<longrightarrow> at_step t m = at_step s m \<or>
       verdict_at t m = VerdictCancelled \<and> (\<forall>p c. c \<in> set (Consumers (ev_graph e) m p) \<longrightarrow> c = n \<or> verdict_Terminal (verdict_at s c)))" for m
  proof (cases "read lib e s n st")
    case (Inl err)
    then have "refused e n st err now s = (t, None)" using assms(2) st by (simp add: begin_step_def)
    then show ?thesis using over[of t] ends_terminal[of s e n st _ "[]" now t] by (simp add: refused_def)
  next
    case (Inr g)
    show ?thesis
    proof (cases g)
      case GateWait
      then have t: "t = s" using assms(2) st Inr by (simp add: begin_step_def)
      have "\<exists>ed \<in> set (Edges (ev_graph e) n). \<not> ended (s_Steps s) (e_Step ed)"
        using Inr GateWait barrier_waits by (auto simp: read_def)
      with t assms(3) show ?thesis by (auto simp: unsettled_def waits_def ended_at)
    next
      case (GateSkip why)
      then have "skip e n st why now s = (t, None)" using assms(2) st Inr by (simp add: begin_step_def)
      then show ?thesis using over[of t] ends_terminal[of s e n st _ "[]" now t] by (simp add: skip_def)
    next
      case (GateStart arrived)
      let ?s = "abandon e n arrived now s"
      consider (ends) ss un where "effect_of ?s (end_step e n st ss un now ?s) = (t, None)" "verdict_Terminal (ss_Verdict ss)"
        | (divides) "divide e n st arrived now ?s = (t, None)"
        using assms(2) st Inr GateStart
        by (auto simp: begin_step_def Let_def skip_def refused_def split: if_splits sum.splits bool.splits)
      then have "(verdict_Terminal (verdict_at t n) \<or> (verdict_at t n = VerdictRunning \<and> (\<exists>sh \<in> set (shards_at t n). \<not> shard_done sh))) \<and>
          (m \<noteq> n \<longrightarrow> at_step t m = at_step ?s m)"
      proof cases
        case (ends ss un)
        then show ?thesis using ends_terminal[OF ends] by blast
      next
        case divides
        then show ?thesis using divide_at[OF divides] by blast
      qed
      with over[of t] ab[of arrived m] show ?thesis by auto
    qed
  qed
  show "unsettled t n \<and> waits e t n" using * by blast
  show "m \<noteq> n \<Longrightarrow> at_step t m = at_step s m \<or>
       verdict_at t m = VerdictCancelled \<and> (\<forall>p c. c \<in> set (Consumers (ev_graph e) m p) \<longrightarrow> c = n \<or> verdict_Terminal (verdict_at s c))"
    using * by blast
qed

lemma settle_at:
  assumes "settle lib e n now s = (t, None)" "verdict_at s n = VerdictRunning"
  shows "unsettled t n \<and> waits e t n" "m \<noteq> n \<Longrightarrow> at_step t m = at_step s m"
proof -
  consider (runs) "\<not> verdict_Terminal (stepVerdict (shards_at s n))" "t = s"
    | (cancelled) "t = put_step n ((at_step s n)\<lparr>ss_Verdict := VerdictCancelled, ss_Since := now\<rparr>) s"
    | (ends) st ss un where "effect_of s (end_step e n st ss un now s) = (t, None)" "verdict_Terminal (ss_Verdict ss)"
  proof (cases "verdict_Terminal (stepVerdict (shards_at s n))")
    case False
    then have "t = s" using assms(1) by (simp add: settle_def Let_def)
    with False show ?thesis by (rule runs)
  next
    case True
    have "step_in e n \<noteq> None"
    proof
      assume "step_in e n = None"
      with True assms(1) show False by (simp add: settle_def Let_def)
    qed
    then obtain st where st: "step_in e n = Some st" by blast
    show ?thesis
    proof (cases "stepVerdict (shards_at s n) = VerdictCancelled")
      case True
      then have "t = put_step n ((at_step s n)\<lparr>ss_Verdict := VerdictCancelled, ss_Since := now\<rparr>) s"
        using assms(1) st by (simp add: settle_def Let_def)
      then show ?thesis by (rule cancelled)
    next
      case False
      then obtain un where "effect_of s (end_step e n st ((at_step s n)\<lparr>ss_Verdict := stepVerdict (shards_at s n)\<rparr>) un now s) = (t, None)"
        using assms(1) st True by (simp add: settle_def Let_def split: sum.splits)
      then show ?thesis by (rule ends) (simp add: True)
    qed
  qed
  then have "(unsettled t n \<and> waits e t n) \<and> (m \<noteq> n \<longrightarrow> at_step t m = at_step s m)" for m
  proof cases
    case runs
    then show ?thesis using assms(2) stepVerdict_terminal_iff[of "shards_at s n"] by (auto simp: unsettled_def waits_def)
  next
    case cancelled
    then show ?thesis by (simp add: unsettled_def waits_def)
  next
    case (ends st ss un)
    then show ?thesis using ends_terminal[OF ends] by (auto simp: unsettled_def waits_def)
  qed
  then show "unsettled t n \<and> waits e t n" "m \<noteq> n \<Longrightarrow> at_step t m = at_step s m" by blast+
qed

lemma advance_at:
  assumes "layered (ev_graph e)" "advance lib e now n s = (t, None)"
  shows "unsettled t n \<and> waits e t n"
    "m \<noteq> n \<Longrightarrow> at_step t m = at_step s m \<or>
       verdict_at t m = VerdictCancelled \<and> (\<forall>p c. c \<in> set (Consumers (ev_graph e) m p) \<longrightarrow> c = n \<or> verdict_Terminal (verdict_at s c))"
  using assms(2) begin_at(1)[OF assms(1), of lib n now s t] begin_at(2)[OF assms(1), of lib n now s t m]
    settle_at(1)[of lib e n now s t] settle_at(2)[of lib e n now s t m]
  by (auto simp: advance_def unsettled_def waits_def split: verdict.splits)

lemma sfold_snoc_None:
  assumes "sfold f (xs @ [x]) s = (u, None)"
  obtains t where "sfold f xs s = (t, None)" "f x t = (u, None)"
proof -
  have "\<exists>t. sfold f xs s = (t, None) \<and> f x t = (u, None)"
    using assms by (induction xs arbitrary: s) (auto split: prod.splits option.splits)
  then show thesis using that by blast
qed

lemma advances_leave:
  assumes "Build other schema w manifests = Inr (ev_graph e)" "Order (ev_graph e) = xs @ ys"
    and "sfold (advance lib e now) xs s = (t, None)" "n \<in> set xs"
  shows "unsettled t n \<and> waits e t n"
  using assms(2-)
proof (induction xs arbitrary: ys t n rule: rev_induct)
  case (snoc x xs)
  let ?g = "ev_graph e"
  have l: "layered ?g" by (rule Build_layered[OF assms(1)])
  obtain u where u: "sfold (advance lib e now) xs s = (u, None)" "advance lib e now x u = (t, None)"
    using sfold_snoc_None[OF snoc.prems(2)] by blast
  show ?case
  proof (cases "n = x")
    case True
    then show ?thesis using advance_at(1)[OF l u(2)] by simp
  next
    case False
    then have n: "n \<in> set xs" using snoc.prems(3) by simp
    have IH: "unsettled u n" "waits e u n" using snoc.IH[OF _ u(1) n, of "x # ys"] snoc.prems(1) by auto
    have x: "x \<notin> set xs" using l snoc.prems(1) by (simp add: layered_def)
    have elsewhere: "at_step t m = at_step u m \<or> verdict_at t m = VerdictCancelled \<and>
        (\<forall>p c. c \<in> set (Consumers ?g m p) \<longrightarrow> c = x \<or> verdict_Terminal (verdict_at u c))" if "m \<noteq> x" for m
      by (rule advance_at(2)[OF l u(2) that])
    have "unsettled t n" using IH(1) elsewhere[OF False] by (auto simp: unsettled_def)
    moreover have "waits e t n"
      unfolding waits_def
    proof
      assume "verdict_at t n = VerdictPending"
      then have pending: "verdict_at u n = VerdictPending" using elsewhere[OF False] by auto
      then obtain ed where ed: "ed \<in> set (Edges ?g n)" "\<not> verdict_Terminal (verdict_at u (e_Step ed))"
        using IH(2) by (auto simp: waits_def)
      obtain i where i: "i < length xs" "xs ! i = n" using n by (auto simp: in_set_conv_nth)
      then have "i < length (Order ?g)" "Order ?g ! i = n" using snoc.prems(1) by (simp_all add: nth_append)
      then obtain j where j: "j < i" "Order ?g ! j = e_Step ed" using l ed(1) unfolding layered_def by blast
      then have "e_Step ed \<in> set xs" using i(1) snoc.prems(1) by (auto simp: nth_append in_set_conv_nth intro!: exI[of _ j])
      then have ne: "e_Step ed \<noteq> x" using x by auto
      have "n \<in> set (Consumers ?g (e_Step ed) (e_Port ed))"
        using ed(1) Build_Inr(1)[OF assms(1)] by (auto simp: Consumers_iff[OF assms(1)] Edges_edgesOf)
      then have "at_step t (e_Step ed) = at_step u (e_Step ed)"
        using elsewhere[OF ne] False pending by (metis verdict_Terminal.simps(5))
      with ed show "\<exists>ed \<in> set (Edges ?g n). \<not> verdict_Terminal (verdict_at t (e_Step ed))"
        by (intro bexI[of _ ed]) simp_all
    qed
    ultimately show ?thesis by blast
  qed
qed simp

lemma alike_done: "alike s t \<Longrightarrow> i < length (shards_at s n) \<Longrightarrow> shard_done (shards_at t n ! i) = shard_done (shards_at s n ! i)"
  using alike_shard[of s t i n] by (simp add: shard_done_def)

lemma turn_leaves:
  assumes "Build other schema w manifests = Inr (ev_graph e)" "take_turn lib e now s = (t, TurnOver start)"
    and "n \<in> set (Order (ev_graph e))"
  shows "unsettled t n \<and> waits e t n"
proof -
  obtain s1 where s1: "sfold (advance lib e now) (Order (ev_graph e)) s = (s1, None)" "alike s1 t"
    using last_turn[OF assms(2)] by blast
  have "unsettled s1 n \<and> waits e s1 n" using advances_leave[OF assms(1) _ s1(1) assms(3), of "[]"] by simp
  moreover have "(\<exists>sh \<in> set (shards_at t n). \<not> shard_done sh) = (\<exists>sh \<in> set (shards_at s1 n). \<not> shard_done sh)"
    using alike_done[OF s1(2)] alike_at(4)[OF s1(2)] by (simp add: set_conv_nth) metis
  ultimately show ?thesis by (simp add: unsettled_def waits_def alike_at(1)[OF s1(2)])
qed

lemma some_step_runs:
  assumes "layered (ev_graph e)" "\<And>n. n \<in> set (Order (ev_graph e)) \<Longrightarrow> waits e s n"
    and "n \<in> set (Order (ev_graph e))" "\<not> verdict_Terminal (verdict_at s n)"
  shows "\<exists>m \<in> set (Order (ev_graph e)). verdict_at s m = VerdictRunning"
proof -
  let ?order = "Order (ev_graph e)"
  let ?P = "\<lambda>i. i < length ?order \<and> \<not> verdict_Terminal (verdict_at s (?order ! i))"
  have "\<exists>i. ?P i" using assms(3,4) by (auto simp: in_set_conv_nth)
  then obtain i where i: "?P i" "\<forall>j < i. \<not> ?P j" using exists_least_iff[of ?P] by blast
  have "verdict_at s (?order ! i) \<noteq> VerdictPending"
  proof
    assume "verdict_at s (?order ! i) = VerdictPending"
    then obtain ed where ed: "ed \<in> set (Edges (ev_graph e) (?order ! i))" "\<not> verdict_Terminal (verdict_at s (e_Step ed))"
      using assms(2)[of "?order ! i"] i(1) by (auto simp: waits_def)
    then obtain j where "j < i" "?order ! j = e_Step ed" using assms(1) i(1) unfolding layered_def by blast
    with i ed(2) show False by auto
  qed
  then have "verdict_at s (?order ! i) = VerdictRunning" using i(1) by (cases "verdict_at s (?order ! i)") auto
  then show ?thesis using i(1) nth_mem by blast
qed

section \<open>The moment to ask again\<close>

definition sooner :: "time \<Rightarrow> time \<Rightarrow> shard_state \<Rightarrow> time" where
  "sooner now = (\<lambda>at sh. if sd_Task sh \<noteq> TaskPending \<or> \<not> sd_NextAttemptAt sh > now then at
     else if at = zero_time \<or> sd_NextAttemptAt sh < at then sd_NextAttemptAt sh else at)"

lemma foldl_sooner:
  assumes "0 \<le> now" "acc = 0 \<or> now < acc"
  shows "(foldl (sooner now) acc shs = 0 \<or> now < foldl (sooner now) acc shs) \<and>
    (acc \<noteq> 0 \<longrightarrow> foldl (sooner now) acc shs \<noteq> 0 \<and> foldl (sooner now) acc shs \<le> acc) \<and>
    (\<forall>sh \<in> set shs. sd_Task sh = TaskPending \<and> now < sd_NextAttemptAt sh \<longrightarrow>
       foldl (sooner now) acc shs \<noteq> 0 \<and> foldl (sooner now) acc shs \<le> sd_NextAttemptAt sh)"
  using assms(2)
proof (induction shs arbitrary: acc)
  case (Cons sh shs)
  have "sooner now acc sh = 0 \<or> now < sooner now acc sh" using Cons.prems by (auto simp: sooner_def)
  from Cons.IH[OF this] assms(1) Cons.prems show ?case by (force simp: sooner_def split: if_splits)
qed simp

lemma wake_comes:
  assumes "0 \<le> now" "n \<in> set (Order (ev_graph e))" "sh \<in> set (shards_at s n)" "sd_Task sh = TaskPending" "now < sd_NextAttemptAt sh"
  shows "now < wake e s now \<and> wake e s now \<le> sd_NextAttemptAt sh"
proof -
  let ?shs = "concat (map (\<lambda>name. shards_at s name) (Order (ev_graph e)))"
  have "sh \<in> set ?shs" using assms(2,3) by auto
  then have f: "now < foldl (sooner now) 0 ?shs" "foldl (sooner now) 0 ?shs \<le> sd_NextAttemptAt sh"
    using foldl_sooner[OF assms(1), of 0 ?shs] assms(4,5) by auto
  have "wake e s now = (let at = foldl (sooner now) 0 ?shs in case deadline e s of None \<Rightarrow> at
      | Some dl \<Rightarrow> if dl > now \<and> (at = zero_time \<or> dl < at) then dl else at)"
    by (simp only: wake_def sooner_def)
  then show ?thesis using f assms(1) by (auto simp: Let_def split: option.splits)
qed

section \<open>A pass that answers a plan\<close>

lemma Next_pass:
  assumes "layered (ev_graph e)" "Next lib e now s = (t, Inr plan)" "\<not> run_Terminal (r_State (s_Run s))" "r_State (s_Run t) \<noteq> TimedOut"
  obtains s' u where "changes e now s s'" "take_turn lib e now s' = (u, TurnOver (pl_Start plan))" "\<And>n. at_step t n = at_step u n"
    "s_Steps t = s_Steps u" "s_Run t = judged e now u" "s_Run u = s_Run s" "pl_Wake plan = wake e u now" "changes e now s u"
proof -
  have "decide lib e now s = (t, Inr plan)"
    using assms(2-) by (auto simp: Next_def Let_def end_run_run run_ended_def split: if_splits option.splits)
  then obtain u start stops where u: "passes lib e now [] s = (u, Inr (start, stops))"
    and p: "plan = \<lparr>pl_Start = start, pl_Stop = stops, pl_Wake = wake e u now\<rparr>"
    and t: "t = u\<lparr>s_Run := judged e now u\<rparr> \<or> t = tick (u\<lparr>s_Run := judged e now u\<rparr>)"
    by (auto simp: decide_def Let_def split: if_splits sum.splits prod.splits)
  obtain s' where s': "take_turn lib e now s' = (u, TurnOver start)" "changes e now s s'"
    using passes_last[OF u assms(1)] by blast
  have "changes e now s u" using passes_changes[OF assms(1), of now s lib "[]"] u by simp
  moreover from this have "s_Run u = s_Run s" using changes_run by blast
  moreover have "at_step t n = at_step u n" for n using t by auto
  ultimately show thesis using that[OF s'(2)] s'(1) p t by auto
qed

lemma sound_order:
  assumes "layered (ev_graph e)" "sound e s"
  shows "has_key (s_Steps s) n \<longleftrightarrow> n \<in> set (Order (ev_graph e))"
  using assms Step_in_Steps[of "ev_graph e" n] by (auto simp: sound_def layered_def)

lemma runVerdict_open:
  assumes "layered (ev_graph e)" "sound e s" "Order (ev_graph e) \<noteq> []" "\<not> run_Terminal (runVerdict s tol)"
  shows "\<exists>n \<in> set (Order (ev_graph e)). \<not> verdict_Terminal (verdict_at s n)"
proof -
  have "s_Steps s \<noteq> []"
    using sound_order[OF assms(1,2), of "hd (Order (ev_graph e))"] assms(3) by (auto simp: has_key_def)
  then have "\<exists>(n, ss) \<in> set (entries (s_Steps s)). \<not> verdict_Terminal (ss_Verdict ss)"
    using assms(4) by (auto simp: runVerdict_def Let_def split: if_splits)
  then obtain n ss where n: "map_of (s_Steps s) n = Some ss" "\<not> verdict_Terminal (ss_Verdict ss)"
    by (auto simp: entries_iff)
  then have "n \<in> set (Order (ev_graph e))" "at_step s n = ss"
    using sound_order[OF assms(1,2), of n] by (auto simp: has_key_def at_step_def)
  with n(2) show ?thesis by auto
qed

lemma judged_state: "r_State (judged e now s) = runVerdict s (Some (tolerates e))"
  by (simp add: judged_def Let_def)

definition no_broken_retry :: "state \<Rightarrow> bool" where
  "no_broken_retry s \<longleftrightarrow> (\<forall>n. \<forall>sh \<in> set (shards_at s n). task_Terminal (sd_Task sh) \<longrightarrow> sd_NextAttemptAt sh = zero_time)"

lemma running_goes_on:
  assumes "take_turn lib e now s' = (u, TurnOver start)" "n \<in> set (Order (ev_graph e))" "verdict_at u n = VerdictRunning"
    and "unsettled u n" "no_broken_retry u" "0 \<le> now" "step_in e n \<noteq> None"
  shows "start \<noteq> [] \<or> (\<exists>sh \<in> set (shards_at u n). holdsARunner sh) \<or> now < wake e u now"
proof -
  obtain sh where sh: "sh \<in> set (shards_at u n)" "\<not> shard_done sh" using assms(3,4) by (auto simp: unsettled_def)
  then have live: "\<not> task_Terminal (sd_Task sh)" using assms(5) by (auto simp: no_broken_retry_def shard_done_def)
  show ?thesis
  proof (cases "sd_Task sh = TaskPending")
    case False
    then show ?thesis using sh(1) live by (auto simp: holdsARunner_def)
  next
    case pending: True
    show ?thesis
    proof (cases "due sh now")
      case False
      then have "now < sd_NextAttemptAt sh" using pending by (simp add: due_def)
      then show ?thesis using wake_comes[OF assms(6,2) sh(1) pending] by blast
    next
      case True
      obtain tss where tss: "start = concat tss" "list_all2 (handed lib e now u) (Order (ev_graph e)) tss"
        using last_turn[OF assms(1)] by blast
      then obtain ts where ts: "ts \<in> set tss" "handed lib e now u n ts"
        using assms(2) by (metis in_set_conv_nth list_all2_conv_all_nth)
      then obtain st js where st: "step_in e n = Some st" "list_all2 (task_for u now n) js ts"
        "int (length ts) < slotsFree st (at_step u n) \<longrightarrow> (\<forall>i < length (shards_at u n). due (shards_at u n ! i) now \<longrightarrow> i \<in> set js)"
        using assms(3,7) by (auto simp: handed_def)
      show ?thesis
      proof (cases "ts = []")
        case False
        then show ?thesis using tss(1) ts(1) by auto
      next
        case empty: True
        then have "js = []" using st(2) by simp
        obtain i where "i < length (shards_at u n)" "shards_at u n ! i = sh" using sh(1) by (auto simp: in_set_conv_nth)
        then have "slotsFree st (at_step u n) \<le> 0" using st(3) empty \<open>js = []\<close> True by auto
        then have "filter holdsARunner (shards_at u n) \<noteq> []"
          by (auto simp: slotsFree_def Let_def inFlight_def max_int64_def split: if_splits)
        then show ?thesis by (auto simp: filter_empty_conv)
      qed
    qed
  qed
qed

lemma handed_task:
  assumes "handed lib e now u n ts" "tk \<in> set ts"
  shows "\<exists>i st. verdict_at u n = VerdictRunning \<and> step_in e n = Some st \<and> task_for u now n i tk \<and> lifted lib e u n st"
proof -
  have r: "verdict_at u n = VerdictRunning \<and> step_in e n \<noteq> None"
    using assms by (cases "verdict_at u n = VerdictRunning \<and> step_in e n \<noteq> None") (auto simp: handed_def)
  then obtain st js where st: "step_in e n = Some st" "list_all2 (task_for u now n) js ts" "ts \<noteq> [] \<longrightarrow> lifted lib e u n st"
    using assms(1) by (auto simp: handed_def)
  then obtain i where "task_for u now n i tk" using assms(2) by (metis in_set_conv_nth list_all2_conv_all_nth)
  with r st assms(2) show ?thesis by auto
qed

lemma handed_all_step: "handed lib e now u n ts \<Longrightarrow> tk \<in> set ts \<Longrightarrow> t_Step tk = n"
  using handed_task[of lib e now u n ts tk] by (auto simp: task_for_def)

lemma handed_filter:
  assumes "list_all2 (handed lib e now u) ns tss" "distinct ns"
  shows "n \<in> set ns \<Longrightarrow> handed lib e now u n (filter (\<lambda>tk. t_Step tk = n) (concat tss))"
    "n \<notin> set ns \<Longrightarrow> filter (\<lambda>tk. t_Step tk = n) (concat tss) = []"
  using assms
proof (induction rule: list_all2_induct)
  case (Cons m ns ts tss)
  have m: "filter (\<lambda>tk. t_Step tk = n) ts = (if n = m then ts else [])"
    using handed_all_step[OF Cons.hyps(1)] by (auto simp: filter_empty_conv intro!: filter_True)
  { case 1 then show ?case using Cons m by (cases "n = m") auto }
  { case 2 then show ?case using Cons m by auto }
qed simp_all

lemma handed_distinct:
  assumes "list_all2 (handed lib e now u) ns tss" "distinct ns" "\<And>n. distinct (map sd_Shard (shards_at u n))"
  shows "distinct (map (\<lambda>tk. (t_Step tk, t_Shard tk)) (concat tss))"
  using assms(1,2)
proof (induction rule: list_all2_induct)
  case (Cons n ns ts tss)
  have own: "distinct (map (\<lambda>tk. (t_Step tk, t_Shard tk)) ts)"
  proof (cases "ts = []")
    case False
    then obtain js where js: "list_all2 (task_for u now n) js ts" "distinct js"
      using Cons.hyps(1) by (auto simp: handed_def split: if_splits)
    have "map t_Shard ts = map (\<lambda>i. sd_Shard (shards_at u n ! i)) js"
      using js(1) by (auto simp: list_all2_conv_all_nth task_for_def intro: nth_equalityI)
    moreover have "inj_on (\<lambda>i. sd_Shard (shards_at u n ! i)) (set js)"
    proof -
      have "j < length (shards_at u n)" if "j \<in> set js" for j
        using js(1) that by (auto simp: list_all2_conv_all_nth task_for_def in_set_conv_nth)
      then show ?thesis using nth_eq_iff_index_eq[OF assms(3)[of n]] by (auto simp: inj_on_def)
    qed
    ultimately have "distinct (map t_Shard ts)" using js(2) by (simp add: distinct_map)
    then show ?thesis by (auto simp: distinct_map inj_on_def)
  qed simp
  have "t_Step tk \<noteq> n" if "tk \<in> set (concat tss)" for tk
    using handed_filter(2)[OF Cons.hyps(2), of n] Cons.prems that by (auto simp: filter_empty_conv)
  moreover have "t_Step tk = n" if "tk \<in> set ts" for tk using handed_all_step[OF Cons.hyps(1) that] .
  ultimately show ?case using own Cons.IH Cons.prems by fastforce
qed simp

lemma lifted_each_port:
  assumes "lifted lib e u n st" "ed \<in> set (Edges (ev_graph e) n)"
  shows "\<exists>ed' \<in> set (Edges (ev_graph e) n). e_As ed' = e_As ed \<and> verdict_Terminal (verdict_at u (e_Step ed')) \<and>
    (e_Step ed' \<noteq> [] \<longrightarrow> admits (whenOf st) (verdict_at u (e_Step ed'))) \<and>
    (has_key (ss_Ports (at_step u (e_Step ed'))) (e_Port ed') \<or>
     (\<forall>ed'' \<in> set (Edges (ev_graph e) n). e_As ed'' = e_As ed \<longrightarrow> verdict_Terminal (verdict_at u (e_Step ed''))))"
proof -
  obtain s' arrived where s': "alike u s'" "read lib e s' n st = Inr (GateStart arrived)" using assms(1) by (auto simp: lifted_def)
  obtain fd where b: "barrier n st (Edges (ev_graph e) n) (s_Steps s') fd (r_ID (s_Run s')) (ev_limits e) (r_StartedAt (s_Run s')) = Inr (GateStart arrived)"
    using s'(2) by (rule read_start)
  have v: "verdict_Terminal (verdict_at u m)" if "ended (s_Steps s') m" for m
    using that alike_at(1)[OF s'(1), of m] by (auto simp: ended_def at_step_def split: option.splits)
  obtain ed' up where ed: "ed' \<in> set (Edges (ev_graph e) n)" "e_As ed' = e_As ed" "map_of (s_Steps s') (e_Step ed') = Some up"
    "verdict_Terminal (ss_Verdict up)" "e_Step ed' \<noteq> [] \<longrightarrow> admits (whenOf st) (ss_Verdict up)"
    "has_key (ss_Ports up) (e_Port ed') \<or> (\<forall>ed'' \<in> set (Edges (ev_graph e) n). e_As ed'' = e_As ed \<longrightarrow> ended (s_Steps s') (e_Step ed''))"
    using barrier_start_each_port[OF b assms(2)] by blast
  have "ss_Verdict up = verdict_at u (e_Step ed')" "ss_Ports up = ss_Ports (at_step u (e_Step ed'))"
    using alike_at(1,2)[OF s'(1), of "e_Step ed'"] ed(3) by (simp_all add: at_step_def)
  with ed v show ?thesis by (intro bexI[OF _ ed(1)]) auto
qed

lemma lifted_upstream:
  assumes "lifted lib e u n st" "st_Merge st \<noteq> MergeFirst" "ed \<in> set (Edges (ev_graph e) n)" "e_Step ed \<noteq> []"
  shows "verdict_Terminal (verdict_at u (e_Step ed)) \<and> admits (whenOf st) (verdict_at u (e_Step ed))"
proof -
  obtain s' arrived where s': "alike u s'" "read lib e s' n st = Inr (GateStart arrived)" using assms(1) by (auto simp: lifted_def)
  obtain fd where "barrier n st (Edges (ev_graph e) n) (s_Steps s') fd (r_ID (s_Run s')) (ev_limits e) (r_StartedAt (s_Run s')) = Inr (GateStart arrived)"
    using s'(2) by (rule read_start)
  from barrier_start(3)[OF this assms(2)] assms(3,4) obtain up where
    "map_of (s_Steps s') (e_Step ed) = Some up" "verdict_Terminal (ss_Verdict up)" "admits (whenOf st) (ss_Verdict up)" by blast
  then show ?thesis using alike_at(1)[OF s'(1), of "e_Step ed"] by (simp add: at_step_def)
qed

lemma stops_all:
  assumes "sound e u" "nothing_to_stop e (at_step u n) n"
  shows "verdict_at u n = VerdictCancelled \<Longrightarrow> sh \<in> set (shards_at u n) \<Longrightarrow> task_Terminal (sd_Task sh)"
    and "verdict_at u n = VerdictRunning \<Longrightarrow> step_in e n = Some st \<Longrightarrow> failFast st \<Longrightarrow> failed_for_good f \<Longrightarrow> f \<in> set (shards_at u n) \<Longrightarrow>
      sh \<in> set (shards_at u n) \<Longrightarrow> task_Terminal (sd_Task sh)"
proof -
  show "task_Terminal (sd_Task sh)" if "verdict_at u n = VerdictCancelled" "sh \<in> set (shards_at u n)"
    using assms(2) that by (auto simp: nothing_to_stop_def to_stop_def live_shards_def filter_empty_conv in_set_conv_nth)
  show "task_Terminal (sd_Task sh)" if r: "verdict_at u n = VerdictRunning" "step_in e n = Some st" "failFast st"
    and f: "failed_for_good f" "f \<in> set (shards_at u n)" and sh: "sh \<in> set (shards_at u n)"
  proof -
    obtain g where g: "find failed_for_good (shards_at u n) = Some g" using f by (metis find_None_iff not_None_eq)
    then have g': "failed_for_good g" "g \<in> set (shards_at u n)" using find_Some_mem by fast+
    have "siblingsLeft (at_step u n) (sd_Shard g) = []" using assms(2) r g by (simp add: nothing_to_stop_def to_stop_def)
    then have "sd_Shard sh = sd_Shard g \<or> task_Terminal (sd_Task sh)"
      using sh by (auto simp: siblingsLeft_def filter_empty_conv in_set_conv_nth)
    moreover have "sh = g" if "sd_Shard sh = sd_Shard g"
      using sound_at[OF assms(1), of n] sh g'(2) that by (auto simp: step_ok_def distinct_map inj_on_def)
    ultimately show ?thesis using g'(1) by (auto simp: failed_for_good_def)
  qed
qed

text \<open>A run ends timed out in a pass past its deadline, and in no other.\<close>

lemma Next_timed_out:
  assumes "Next lib e now s = (t, Inr plan)" "r_State (s_Run t) = TimedOut" "layered (ev_graph e) \<and> sound e s"
  shows "pl_Start plan = []"
    and "\<not> run_Terminal (r_State (s_Run s)) \<Longrightarrow> (\<exists>dl. deadline e s = Some dl \<and> dl \<le> now) \<and> t = end_run e TimedOut ReasonDeadline now s"
proof -
  have "run_Terminal (r_State (s_Run s)) \<or> \<not> (case deadline e s of None \<Rightarrow> True | Some dl \<Rightarrow> now < dl)"
  proof (rule ccontr)
    assume False: "\<not> ?thesis"
    then have "decide lib e now s = (t, Inr plan)"
      using assms(1) by (auto simp: Next_def Let_def split: if_splits option.splits)
    then obtain u start stops where u: "passes lib e now [] s = (u, Inr (start, stops))"
      and t: "s_Run t = judged e now u"
      by (auto simp: decide_def Let_def split: if_splits sum.splits prod.splits)
    have "s_Run u = s_Run s" using changes_run[OF passes_changes[of e now s lib "[]"]] u assms(3) by simp
    then have "runVerdict u (Some (tolerates e)) \<noteq> TimedOut" using runVerdict_never(2)[of u] False by simp
    then show False using assms(2) t judged_state by simp
  qed
  then show "pl_Start plan = []"
    and "\<not> run_Terminal (r_State (s_Run s)) \<Longrightarrow> (\<exists>dl. deadline e s = Some dl \<and> dl \<le> now) \<and> t = end_run e TimedOut ReasonDeadline now s"
    using assms(1) by (auto simp: Next_def Let_def stopEverything_def empty_plan_def split: if_splits option.splits)
qed

lemma runVerdict_over:
  assumes "layered (ev_graph e)" "sound e s" "\<not> run_Terminal (r_State (s_Run s))" "run_Terminal (runVerdict s (Some (tolerates e)))"
  shows "runVerdict s (Some (tolerates e)) =
    (if \<exists>n st. step_in e n = Some st \<and> verdict_at s n = VerdictFailed \<and> \<not> st_ContinueOnError st then Failed else Succeeded)"
proof -
  let ?fails = "\<exists>(name, ss) \<in> set (entries (s_Steps s)). ss_Verdict ss = VerdictFailed \<and> \<not> tolerates e name"
  have "s_Steps s \<noteq> []"
    using assms(3,4) by (auto simp: runVerdict_def Let_def)
  moreover have "\<not> (\<exists>(name, ss) \<in> set (entries (s_Steps s)). \<not> verdict_Terminal (ss_Verdict ss))"
    using runVerdict_terminal[OF assms(3,4)] by (auto simp: entries_iff)
  ultimately have v: "runVerdict s (Some (tolerates e)) = (if ?fails then Failed else Succeeded)"
    using assms(3) by (simp add: runVerdict_def Let_def)
  have "?fails \<longleftrightarrow> (\<exists>n st. step_in e n = Some st \<and> verdict_at s n = VerdictFailed \<and> \<not> st_ContinueOnError st)"
  proof
    assume ?fails
    then obtain n ss where n: "map_of (s_Steps s) n = Some ss" "ss_Verdict ss = VerdictFailed" "\<not> tolerates e n"
      by (auto simp: entries_iff)
    then obtain st where "step_in e n = Some st" using assms(2) by (force simp: sound_def has_key_def)
    with n show "\<exists>n st. step_in e n = Some st \<and> verdict_at s n = VerdictFailed \<and> \<not> st_ContinueOnError st"
      by (intro exI[of _ n] exI[of _ st]) (simp add: at_step_def tolerates_def)
  next
    assume "\<exists>n st. step_in e n = Some st \<and> verdict_at s n = VerdictFailed \<and> \<not> st_ContinueOnError st"
    then obtain n st where n: "step_in e n = Some st" "verdict_at s n = VerdictFailed" "\<not> st_ContinueOnError st" by blast
    then obtain ss where "map_of (s_Steps s) n = Some ss" "ss_Verdict ss = VerdictFailed"
      by (auto simp: at_step_def split: option.splits)
    with n show ?fails by (auto simp: entries_iff tolerates_def intro!: bexI[of _ "(n, ss)"])
  qed
  with v show ?thesis by simp
qed

section \<open>Properties\<close>

text \<open>
  C11: a run is never left with nothing to come back for. In a graph with a step, a pass that answers a
  plan and leaves the run going either hands a task out, or leaves a task in flight that will be
  reported, or names a later moment to ask again; this holds of every state a run reaches, as long as no
  retry whose task could not be built is among its shards.
\<close>

theorem never_stuck:
  assumes "started_run e s0" "(moves lib e)\<^sup>*\<^sup>* s0 s" "Order (ev_graph e) \<noteq> []" "0 \<le> now"
    and "Next lib e now s = (t, Inr plan)" "\<not> run_Terminal (r_State (s_Run t))" "no_broken_retry t"
  shows "pl_Start plan \<noteq> [] \<or> (\<exists>n \<in> set (Order (ev_graph e)). \<exists>sh \<in> set (shards_at t n). holdsARunner sh) \<or> now < pl_Wake plan"
proof -
  have inv: "layered (ev_graph e)" "sound e s" using run_machine.inv_reachable[OF assms(1,2)] by auto
  obtain other schema w manifests where b: "Build other schema w manifests = Inr (ev_graph e)"
    using assms(1) by (auto simp: started_run_def)
  have "\<not> run_Terminal (r_State (s_Run s))" using assms(5,6) by (auto simp: Next_def Let_def split: if_splits)
  moreover have "r_State (s_Run t) \<noteq> TimedOut" using assms(6) by auto
  ultimately obtain s' u where u: "take_turn lib e now s' = (u, TurnOver (pl_Start plan))" "\<And>n. at_step t n = at_step u n"
    "s_Run t = judged e now u" "pl_Wake plan = wake e u now" "changes e now s u"
    using Next_pass[OF inv(1) assms(5)] by metis
  have su: "sound e u" using sound_changes[OF u(5) inv(2)] .
  have leaves: "unsettled u n \<and> waits e u n" if "n \<in> set (Order (ev_graph e))" for n
    by (rule turn_leaves[OF b u(1) that])
  have "\<not> run_Terminal (runVerdict u (Some (tolerates e)))" using assms(6) by (simp add: u(3) judged_state)
  then obtain n where n: "n \<in> set (Order (ev_graph e))" "verdict_at u n = VerdictRunning"
    using runVerdict_open[OF inv(1) su assms(3)] some_step_runs[OF inv(1)] leaves by blast
  moreover have "step_in e n \<noteq> None" using sound_known[OF su] n(2) by auto
  moreover have "no_broken_retry u" using assms(7) u(2) by (simp add: no_broken_retry_def)
  ultimately show ?thesis
    using running_goes_on[OF u(1) n] leaves[OF n(1)] assms(4) u(2,4) by auto
qed

theorem never_stuck_witness:
  "\<exists>t plan. Next plain_library chain_evaluator 2 chain_start = (t, Inr plan) \<and>
     (pl_Start plan \<noteq> [] \<or> (\<exists>n \<in> set (Order chain_graph). \<exists>sh \<in> set (shards_at t n). holdsARunner sh) \<or> 2 < pl_Wake plan)"
proof -
  have "\<not> isl (snd (Next plain_library chain_evaluator 2 chain_start))" by code_simp
  then obtain plan where p: "Next plain_library chain_evaluator 2 chain_start = (chain_running, Inr plan)"
    using chain_next by (metis not_isl_Inr prod.collapse)
  have e: "ev_graph chain_evaluator = chain_graph" by (simp add: chain_evaluator_def)
  have "Order (ev_graph chain_evaluator) \<noteq> []" by (simp add: e Order_def chain_graph_def)
  moreover have "\<not> run_Terminal (r_State (s_Run chain_running))" by code_simp
  moreover have "no_broken_retry chain_running"
    by (auto simp: no_broken_retry_def chain_running_def at_step_def started_def split: option.splits if_splits)
  ultimately show ?thesis
    using never_stuck[OF chain_started_run rtranclp.rtrancl_refl _ _ p] p e by auto
qed

text \<open>
  A step may start: each port an edge feeds has an edge from a step that ended as its \<open>when\<close> admits, which has published the port where
  not every edge of the port has ended; and outside \<open>merge: first\<close> every step it reads from has ended with a verdict it admits.
\<close>

definition may_start :: "evaluator \<Rightarrow> state \<Rightarrow> string \<Rightarrow> step \<Rightarrow> bool" where
  "may_start e t n st \<longleftrightarrow>
     (\<forall>ed \<in> set (Edges (ev_graph e) n). \<exists>ed' \<in> set (Edges (ev_graph e) n). e_As ed' = e_As ed \<and> verdict_Terminal (verdict_at t (e_Step ed')) \<and>
          (e_Step ed' \<noteq> [] \<longrightarrow> admits (whenOf st) (verdict_at t (e_Step ed'))) \<and>
          (has_key (ss_Ports (at_step t (e_Step ed'))) (e_Port ed') \<or>
           (\<forall>ed'' \<in> set (Edges (ev_graph e) n). e_As ed'' = e_As ed \<longrightarrow> verdict_Terminal (verdict_at t (e_Step ed''))))) \<and>
       (st_Merge st \<noteq> MergeFirst \<longrightarrow> (\<forall>ed \<in> set (Edges (ev_graph e) n). e_Step ed \<noteq> [] \<longrightarrow>
          verdict_Terminal (verdict_at t (e_Step ed)) \<and> admits (whenOf st) (verdict_at t (e_Step ed))))"

lemma lifted_may_start: "lifted lib e u n st \<Longrightarrow> (\<And>n. at_step t n = at_step u n) \<Longrightarrow> may_start e t n st"
  using lifted_each_port[of lib e u n st] lifted_upstream[of lib e u n st] by (simp add: may_start_def)

text \<open>
  C12: a pass hands out each task once, for a shard that is due, of a step that is running and whose
  barrier has lifted: each port an edge feeds has something from a step that ended as the step's \<open>when\<close> admits,
  which has published the port where not every edge of the port has ended, and outside \<open>merge: first\<close> every step it reads from has
  ended with a verdict it admits. Beside what is in flight, no more tasks of a step are handed out than \<open>max_parallel\<close> leaves
  room for.
\<close>

theorem hands_out_what_may_run:
  assumes "started_run e s0" "(moves lib e)\<^sup>*\<^sup>* s0 s" "Next lib e now s = (t, Inr plan)"
  shows "distinct (map (\<lambda>tk. (t_Step tk, t_Shard tk)) (pl_Start plan)) \<and>
    (\<forall>tk \<in> set (pl_Start plan). \<exists>n i st. Step (ev_graph e) n = Some st \<and> verdict_at t n = VerdictRunning \<and> task_for t now n i tk \<and> may_start e t n st) \<and>
    (\<forall>n st. Step (ev_graph e) n = Some st \<longrightarrow>
       int (length (filter (\<lambda>tk. t_Step tk = n) (pl_Start plan))) \<le> slotsFree st (at_step t n))"
proof (cases "run_Terminal (r_State (s_Run s)) \<or> r_State (s_Run t) = TimedOut")
  case True
  then have "pl_Start plan = []"
  proof
    assume "run_Terminal (r_State (s_Run s))"
    then show ?thesis using assms(3) by (auto simp: Next_def Let_def stopEverything_def empty_plan_def split: if_splits)
  next
    assume "r_State (s_Run t) = TimedOut"
    then show ?thesis
      using assms(3) run_machine.inv_reachable[OF assms(1,2)] Next_timed_out(1) by blast
  qed
  then show ?thesis using slotsFree_nonneg by simp
next
  case False
  have inv: "layered (ev_graph e)" "sound e s" using run_machine.inv_reachable[OF assms(1,2)] by auto
  obtain s' u where u: "take_turn lib e now s' = (u, TurnOver (pl_Start plan))" "\<And>n. at_step t n = at_step u n"
    "s_Run t = judged e now u" "changes e now s u"
    using Next_pass[OF inv(1) assms(3)] False by metis
  have su: "sound e u" using sound_changes[OF u(4) inv(2)] .
  obtain tss where tss: "pl_Start plan = concat tss" "list_all2 (handed lib e now u) (Order (ev_graph e)) tss"
    using last_turn[OF u(1)] by blast
  have d: "distinct (Order (ev_graph e))" using inv(1) by (simp add: layered_def)
  have id: "taskID t n sh = taskID u n sh" for n sh by (simp add: taskID_def u(3) judged_def Let_def)
  show ?thesis
  proof (intro conjI ballI allI impI)
    show "distinct (map (\<lambda>tk. (t_Step tk, t_Shard tk)) (pl_Start plan))"
      unfolding tss(1) using sound_at[OF su] by (intro handed_distinct[OF tss(2) d]) (simp add: step_ok_def)
  next
    fix tk assume "tk \<in> set (pl_Start plan)"
    then obtain ts where "ts \<in> set tss" "tk \<in> set ts" using tss(1) by auto
    then obtain n where "n \<in> set (Order (ev_graph e))" "handed lib e now u n ts"
      using tss(2) by (metis in_set_conv_nth list_all2_conv_all_nth)
    then obtain i st where "verdict_at u n = VerdictRunning" "step_in e n = Some st" "task_for u now n i tk" "lifted lib e u n st"
      using handed_task \<open>tk \<in> set ts\<close> by blast
    then show "\<exists>n i st. Step (ev_graph e) n = Some st \<and> verdict_at t n = VerdictRunning \<and> task_for t now n i tk \<and> may_start e t n st"
      using lifted_may_start u(2) id by (intro exI[of _ n] exI[of _ i] exI[of _ st]) (simp add: task_for_def)
  next
    fix n st assume st: "step_in e n = Some st"
    then have "n \<in> set (Order (ev_graph e))" using Step_in_Steps[of "ev_graph e" n] inv(1) by (auto simp: layered_def)
    from handed_filter(1)[OF tss(2) d this] show "int (length (filter (\<lambda>tk. t_Step tk = n) (pl_Start plan))) \<le> slotsFree st (at_step t n)"
      using st slotsFree_nonneg[of st "at_step u n"] unfolding tss(1) u(2) by (auto simp: handed_def split: if_splits)
  qed
qed

definition wide_workflow :: workflow where
  "wide_workflow = workflow_with [(''m'', (script_step [])\<lparr>st_Strategy := \<lparr>sg_FanOut = FanOutNone, sg_Batch = 0,
     sg_MaxParallel = 2, sg_Matrix = [(''x'', [JBool True, JBool False, JNull])], sg_FailFast = True\<rparr>\<rparr>)]"

definition wide_graph :: graph where
  "wide_graph = \<lparr>g_wf = wide_workflow, g_order = [''m''], g_consumers = [], g_manifests = []\<rparr>"

definition wide_evaluator :: evaluator where
  "wide_evaluator = chain_evaluator\<lparr>ev_graph := wide_graph\<rparr>"

definition wide_start :: state where
  "wide_start = fresh wide_graph sample_run plain_options 1"

lemma wide_builds: "Build no_other_checks (\<lambda>_ _ _. None) wide_workflow [] = Inr wide_graph"
  by code_simp

lemma wide_started: "Start wide_graph sample_run plain_options 1 = Inr (wide_evaluator, wide_start)"
  by code_simp

lemma wide_started_run: "started_run wide_evaluator wide_start"
  using wide_builds wide_started unfolding started_run_def
  by (metis wide_evaluator_def evaluator.select_convs(1) evaluator.update_convs(1) chain_evaluator_def plain_options_def
      options.select_convs(8) map_of.simps(1) option.distinct(1))

lemma wide_next: "case Next plain_library wide_evaluator 2 wide_start of
    (t, Inr plan) \<Rightarrow> length (filter (\<lambda>tk. t_Step tk = ''m'') (pl_Start plan)) = 2 \<and> r_State (s_Run t) = Running \<and>
      verdict_at t ''m'' = VerdictRunning \<and> length (shards_at t ''m'') = 3
  | (t, Inl _) \<Rightarrow> False"
  by code_simp

lemma wide_plan:
  obtains t plan where "Next plain_library wide_evaluator 2 wide_start = (t, Inr plan)"
    "length (filter (\<lambda>tk. t_Step tk = ''m'') (pl_Start plan)) = 2" "r_State (s_Run t) = Running"
    "verdict_at t ''m'' = VerdictRunning" "length (shards_at t ''m'') = 3"
  using wide_next by (auto split: prod.splits sum.splits)

theorem hands_out_what_may_run_witness:
  "\<exists>t plan st. Next plain_library wide_evaluator 2 wide_start = (t, Inr plan) \<and> Step wide_graph ''m'' = Some st \<and>
     length (shards_at t ''m'') = 3 \<and> length (filter (\<lambda>tk. t_Step tk = ''m'') (pl_Start plan)) = 2 \<and> 2 \<le> slotsFree st (at_step t ''m'')"
proof -
  obtain t plan where n: "Next plain_library wide_evaluator 2 wide_start = (t, Inr plan)"
    "length (filter (\<lambda>tk. t_Step tk = ''m'') (pl_Start plan)) = 2" "length (shards_at t ''m'') = 3"
    using wide_plan by metis
  obtain st where st: "Step wide_graph ''m'' = Some st"
    by (auto simp: Step_def wide_graph_def wide_workflow_def workflow_with_def)
  have e: "ev_graph wide_evaluator = wide_graph" by (simp add: wide_evaluator_def)
  have "int (length (filter (\<lambda>tk. t_Step tk = ''m'') (pl_Start plan))) \<le> slotsFree st (at_step t ''m'')"
    using hands_out_what_may_run[OF wide_started_run rtranclp.rtrancl_refl n(1)] st by (simp add: e)
  with n st show ?thesis by auto
qed

text \<open>
  C14: a pass stops what it must. A pass that takes a run that is not over, and does not end it timed out, leaves a state in which a step
  a \<open>merge: first\<close> called off has no live task, and a running step with \<open>fail_fast\<close> one of whose shards has failed for good has
  none either; and a running step always has a shard that is not over.
\<close>

theorem pass_stops_what_it_must:
  assumes "started_run e s0" "(moves lib e)\<^sup>*\<^sup>* s0 s" "Next lib e now s = (t, Inr plan)"
    and "\<not> run_Terminal (r_State (s_Run s))" "r_State (s_Run t) \<noteq> TimedOut" "Step (ev_graph e) n = Some st"
  shows "(verdict_at t n = VerdictCancelled \<longrightarrow> (\<forall>sh \<in> set (shards_at t n). task_Terminal (sd_Task sh))) \<and>
    (verdict_at t n = VerdictRunning \<longrightarrow>
      (\<exists>sh \<in> set (shards_at t n). \<not> shard_done sh) \<and>
      (failFast st \<and> (\<exists>f \<in> set (shards_at t n). failed_for_good f) \<longrightarrow> (\<forall>sh \<in> set (shards_at t n). task_Terminal (sd_Task sh))))"
proof -
  have inv: "layered (ev_graph e)" "sound e s" using run_machine.inv_reachable[OF assms(1,2)] by auto
  obtain other schema w manifests where b: "Build other schema w manifests = Inr (ev_graph e)"
    using assms(1) by (auto simp: started_run_def)
  obtain s' u where u: "take_turn lib e now s' = (u, TurnOver (pl_Start plan))" "\<And>n. at_step t n = at_step u n" "changes e now s u"
    using Next_pass[OF inv(1) assms(3-5)] by metis
  have su: "sound e u" using sound_changes[OF u(3) inv(2)] .
  have n: "n \<in> set (Order (ev_graph e))" using Step_in_Steps[of "ev_graph e" n] inv(1) assms(6) by (auto simp: layered_def)
  then have stop: "nothing_to_stop e (at_step u n) n" using last_turn[OF u(1)] by blast
  show ?thesis
    using stops_all[OF su stop] turn_leaves[OF b u(1) n] assms(6) u(2) by (auto simp: unsettled_def)
qed

theorem pass_stops_what_it_must_witness:
  "\<exists>t plan. Next plain_library wide_evaluator 2 wide_start = (t, Inr plan) \<and> (\<exists>sh \<in> set (shards_at t ''m''). \<not> shard_done sh)"
proof -
  obtain t plan where n: "Next plain_library wide_evaluator 2 wide_start = (t, Inr plan)" "r_State (s_Run t) = Running"
    "verdict_at t ''m'' = VerdictRunning" using wide_plan by metis
  obtain st where st: "Step wide_graph ''m'' = Some st"
    by (auto simp: Step_def wide_graph_def wide_workflow_def workflow_with_def)
  have e: "ev_graph wide_evaluator = wide_graph" by (simp add: wide_evaluator_def)
  have "\<not> run_Terminal (r_State (s_Run wide_start))" by code_simp
  then show ?thesis
    using pass_stops_what_it_must[OF wide_started_run rtranclp.rtrancl_refl n(1), of "''m''" st] n st e by auto
qed

lemma ends_clean:
  assumes "started_run e s0" "(moves lib e)\<^sup>*\<^sup>* s0 s" "Next lib e now s = (t, Inr plan)"
    and "\<not> run_Terminal (r_State (s_Run s))" "run_Terminal (r_State (s_Run t))" "r_State (s_Run t) \<noteq> TimedOut"
  shows "(\<forall>n st. Step (ev_graph e) n = Some st \<longrightarrow> verdict_Terminal (verdict_at t n) \<and> (\<forall>sh \<in> set (shards_at t n). task_Terminal (sd_Task sh))) \<and>
    pl_Start plan = [] \<and>
    r_State (s_Run t) = (if \<exists>n st. Step (ev_graph e) n = Some st \<and> verdict_at t n = VerdictFailed \<and> \<not> st_ContinueOnError st
                         then Failed else Succeeded)"
proof -
  have inv: "layered (ev_graph e)" "sound e s" using run_machine.inv_reachable[OF assms(1,2)] by auto
  obtain s' u where u: "take_turn lib e now s' = (u, TurnOver (pl_Start plan))" "\<And>n. at_step t n = at_step u n"
    "s_Run t = judged e now u" "s_Run u = s_Run s" "changes e now s u"
    using Next_pass[OF inv(1) assms(3,4,6)] by metis
  have su: "sound e u" using sound_changes[OF u(5) inv(2)] .
  have open_run: "\<not> run_Terminal (r_State (s_Run u))" using assms(4) u(4) by simp
  have over: "run_Terminal (runVerdict u (Some (tolerates e)))" using assms(5) u(3) judged_state by simp
  have v: "verdict_Terminal (verdict_at u n)" if st: "step_in e n = Some st" for n st
  proof -
    have "has_key (s_Steps u) n" using su st by (simp add: sound_def)
    then obtain ss where "map_of (s_Steps u) n = Some ss" by (auto simp: has_key_def)
    then show ?thesis using runVerdict_terminal[OF open_run over] by (simp add: at_step_def)
  qed
  have shards: "task_Terminal (sd_Task sh)" if st: "step_in e n = Some st" and sh: "sh \<in> set (shards_at u n)" for n st sh
  proof -
    have n: "n \<in> set (Order (ev_graph e))" using Step_in_Steps[of "ev_graph e" n] inv(1) st by (auto simp: layered_def)
    then have "nothing_to_stop e (at_step u n) n" using last_turn[OF u(1)] by blast
    then show ?thesis
      using v[OF st] stops_all(1)[OF su _ _ sh] sound_at[OF su, of n] sh by (cases "verdict_at u n") (auto simp: step_ok_def)
  qed
  obtain tss where tss: "pl_Start plan = concat tss" "list_all2 (handed lib e now u) (Order (ev_graph e)) tss"
    using last_turn[OF u(1)] by blast
  have "ts = []" if "ts \<in> set tss" for ts
  proof -
    obtain n where "handed lib e now u n ts" using tss(2) \<open>ts \<in> set tss\<close> by (metis in_set_conv_nth list_all2_conv_all_nth)
    then have "tk \<notin> set ts" for tk using v handed_task by (metis verdict_Terminal.simps(6))
    then show ?thesis by (meson last_in_set)
  qed
  then have "pl_Start plan = []" using tss(1) by simp
  then show ?thesis
    using v shards runVerdict_over[OF inv(1) su open_run over] u(2,3) judged_state by simp
qed

text \<open>
  C13: a run ends clean. When a pass ends a run, it starts nothing and leaves no step running. A pass past the deadline ends it timed
  out, and no other pass does. Any other pass that ends it leaves every step with a terminal verdict and no task live; the
  run failed where a step failed that its \<open>continue_on_error\<close> does not tolerate, and succeeded otherwise.
\<close>

theorem runs_end_clean:
  assumes "started_run e s0" "(moves lib e)\<^sup>*\<^sup>* s0 s" "Next lib e now s = (t, Inr plan)"
    and "\<not> run_Terminal (r_State (s_Run s))" "run_Terminal (r_State (s_Run t))"
  shows "pl_Start plan = [] \<and> (\<forall>n st. Step (ev_graph e) n = Some st \<longrightarrow> verdict_at t n \<noteq> VerdictRunning) \<and>
    (r_State (s_Run t) = TimedOut \<longleftrightarrow> (\<exists>dl. deadline e s = Some dl \<and> dl \<le> now)) \<and>
    (r_State (s_Run t) \<noteq> TimedOut \<longrightarrow>
      (\<forall>n st. Step (ev_graph e) n = Some st \<longrightarrow> verdict_Terminal (verdict_at t n) \<and> (\<forall>sh \<in> set (shards_at t n). task_Terminal (sd_Task sh))) \<and>
      r_State (s_Run t) = (if \<exists>n st. Step (ev_graph e) n = Some st \<and> verdict_at t n = VerdictFailed \<and> \<not> st_ContinueOnError st
                           then Failed else Succeeded))"
proof -
  have inv: "layered (ev_graph e) \<and> sound e s" by (rule run_machine.inv_reachable[OF assms(1,2)])
  have past: "r_State (s_Run t) = TimedOut" if "deadline e s = Some dl" "dl \<le> now" for dl
  proof -
    have "r_State (s_Run s) \<noteq> Cancelled" "r_State (s_Run s) \<noteq> TimedOut" using assms(4) by auto
    then have "t = end_run e TimedOut ReasonDeadline now s" using assms(3,4) that by (simp add: Next_def Let_def)
    then show ?thesis by (simp add: end_run_run run_ended_def)
  qed
  show ?thesis
  proof (cases "r_State (s_Run t) = TimedOut")
    case True
    note out = Next_timed_out[OF assms(3) True inv]
    have "verdict_at t n \<noteq> VerdictRunning" if "Step (ev_graph e) n = Some st" for n st
    proof -
      have "n \<in> set (Order (ev_graph e))" using Step_in_Steps[of "ev_graph e" n] inv that by (auto simp: layered_def)
      then show ?thesis using out(2)[OF assms(4)] by (simp add: at_end_run)
    qed
    then show ?thesis using out(1) out(2)[OF assms(4)] True by simp
  next
    case False
    note clean = ends_clean[OF assms False]
    have "verdict_at t n \<noteq> VerdictRunning" if "Step (ev_graph e) n = Some st" for n st using clean that by fastforce
    then show ?thesis using clean False past by blast
  qed
qed

lemma chain_reaches_report:
  "(moves plain_library chain_evaluator)\<^sup>*\<^sup>* chain_start (fst (Record chain_evaluator a_failed 5 chain_running))"
  using chain_reaches moves.ByRecord[of plain_library chain_evaluator chain_running a_failed 5]
  by (rule rtranclp.rtrancl_into_rtrancl)

theorem runs_end_clean_witness:
  "\<exists>plan. Next plain_library chain_evaluator 6 (fst (Record chain_evaluator a_failed 5 chain_running)) = (chain_failed, Inr plan) \<and>
     pl_Start plan = [] \<and> r_State (s_Run chain_failed) = Failed"
proof -
  have "\<not> isl (snd (Next plain_library chain_evaluator 6 (fst (Record chain_evaluator a_failed 5 chain_running))))" by code_simp
  then obtain plan where p: "Next plain_library chain_evaluator 6 (fst (Record chain_evaluator a_failed 5 chain_running)) = (chain_failed, Inr plan)"
    unfolding chain_failed_def by (metis not_isl_Inr prod.collapse)
  have "\<not> run_Terminal (r_State (s_Run (fst (Record chain_evaluator a_failed 5 chain_running))))" by code_simp
  then show ?thesis
    using runs_end_clean[OF chain_started_run chain_reaches_report p] p chain_failed_run by auto
qed

end
