(* ===== verification/Broken_Retry.thy ===== *)
theory Broken_Retry
  imports Progress
begin

text \<open>
  A shard that comes back for another attempt keeps the moment it waited for until its task is reported.
  Where the task of that attempt cannot be built, the shard ends failed and keeps the moment, and a
  shard that has one reads as a shard with another attempt to come.
\<close>

definition broken :: "string \<Rightarrow> nat \<Rightarrow> state \<Rightarrow> bool" where
  "broken n i s \<longleftrightarrow> (verdict_at s n = VerdictRunning \<or> verdict_at s n = VerdictCancelled) \<and> i < length (shards_at s n) \<and>
     task_Terminal (sd_Task (shards_at s n ! i)) \<and> sd_NextAttemptAt (shards_at s n ! i) \<noteq> zero_time"

lemma broken_follows:
  assumes "broken n i s" "follows (at_step s n) (at_step t n)" "verdict_at t n = VerdictRunning \<or> verdict_at t n = VerdictCancelled"
  shows "broken n i t"
proof -
  have "shards_at s n \<noteq> []" using assms(1) by (auto simp: broken_def)
  then have "list_all2 continues (shards_at s n) (shards_at t n)" using assms(2) by (simp add: follows_def)
  then show ?thesis using assms(1,3) by (auto simp: broken_def list_all2_conv_all_nth continues_def)
qed

lemma broken_change:
  assumes "change e now s t" "sound e s" "broken n i s"
  shows "broken n i t"
proof (rule broken_follows[OF assms(3) change_follows[OF assms(1,2)]])
  have v: "verdict_at s n = VerdictRunning \<or> verdict_at s n = VerdictCancelled" using assms(3) by (simp add: broken_def)
  have "\<not> shard_done (shards_at s n ! i)" "shards_at s n ! i \<in> set (shards_at s n)"
    using assms(3) by (auto simp: broken_def shard_done_def)
  then have open_step: "\<not> verdict_Terminal (stepVerdict (shards_at s n))" using stepVerdict_terminal_iff by blast
  from assms(1) show "verdict_at t n = VerdictRunning \<or> verdict_at t n = VerdictCancelled"
  proof cases
    case (Ends m st v why un)
    then have "m \<noteq> n" using \<open>verdict_at s n = _ \<or> _\<close> by auto
    moreover obtain ss where "t = put_step m ss s" using end_step_Inr[OF Ends(4)] by blast
    ultimately show ?thesis using \<open>verdict_at s n = _ \<or> _\<close> by simp
  next
    case (Settles m st v un)
    then have "m \<noteq> n" using open_step by auto
    moreover obtain ss where "t = put_step m ss s" using end_step_Inr[OF Settles(6)] by blast
    ultimately show ?thesis using \<open>verdict_at s n = _ \<or> _\<close> by simp
  qed (use v open_step in \<open>auto simp: at_cancel at_unbuilt keyed_def at_set_shard dest!: end_step_Inr\<close>)
qed

lemma broken_changes: "changes e now s t \<Longrightarrow> sound e s \<Longrightarrow> broken n i s \<Longrightarrow> broken n i t"
proof (induction rule: rtranclp_induct)
  case (step t u)
  then show ?case using broken_change[OF step.hyps(2) sound_changes[OF step.hyps(1)]] by blast
qed

lemma broken_fields [simp]: "broken n i (tick s) = broken n i s" "broken n i (s\<lparr>s_Run := run\<rparr>) = broken n i s"
  by (simp_all add: broken_def)

lemma Record_verdict: "verdict_at (fst (Record e r now s)) n = verdict_at s n"
proof (cases rule: Record_cases[of e r now s])
  case (3 run m attempt sd i)
  then show ?thesis by (cases rule: stoppedExit_shard[of m i r s]) (simp_all add: at_set_shard)
next
  case (4 run m attempt sd i)
  obtain sh why where "take_report e m i r s = tick (put_step m ((at_step s m)\<lparr>ss_Shards := (shards_at s m)[i := sh], ss_Reason := why\<rparr>) s)"
    using take_report_outcome by blast
  with 4(8) show ?thesis by simp
qed simp_all

lemma broken_moves:
  assumes "layered (ev_graph e) \<and> sound e s" "moves lib e s t" "broken n i s"
  shows "broken n i t"
proof -
  have ended: "broken n i (end_run e st why now s)" for st why now
  proof -
    have "changes e now (s\<lparr>s_Run := run_ended st now (s_Run s)\<rparr>) (endSteps e why now (s\<lparr>s_Run := run_ended st now (s_Run s)\<rparr>))"
      using assms(1) by (intro endSteps_changes) blast
    from broken_changes[OF this] assms(1,3) show ?thesis by (simp add: end_run_def)
  qed
  from assms(2) show ?thesis
  proof cases
    case (ByNext now)
    obtain u r where u: "passes lib e now [] s = (u, r)" by fastforce
    then have "broken n i u" using broken_changes[OF passes_changes[of e now s lib "[]"]] assms(1,3) by simp
    then have "broken n i (fst (decide lib e now s))"
      using assms(3) u by (auto simp: decide_def Let_def split: sum.splits)
    then show ?thesis using ByNext ended assms(3) by (auto simp: Next_def Let_def)
  next
    case (ByRecord r now)
    have "follows (at_step s n) (at_step t n)" using Record_sound[of e s r now] assms(1) ByRecord by (auto simp: later_def)
    from broken_follows[OF assms(3) this] show ?thesis using assms(3) Record_verdict[of e r now s n] ByRecord by (auto simp: broken_def)
  next
    case (ByCancel now)
    then show ?thesis using ended assms(3) by (simp add: Cancel_def)
  qed
qed

section \<open>A run that hangs\<close>

definition retry_workflow :: workflow where
  "retry_workflow = workflow_with
     [(''a'', (script_step [])\<lparr>st_Params := [(''n'', JStr ''${{ steps.b.status }}'')],
         st_Retry := \<lparr>rt_Max = 1, rt_On = [], rt_Backoff = \<lparr>bo_Base = 5, bo_Max = 0\<rparr>\<rparr>\<rparr>),
      (''b'', script_step [])]"

definition retry_graph :: graph where
  "retry_graph = \<lparr>g_wf = retry_workflow, g_order = [''a'', ''b''], g_consumers = [], g_manifests = []\<rparr>"

definition retry_evaluator :: evaluator where
  "retry_evaluator = \<lparr>ev_graph = retry_graph, ev_limits = DefaultLimits, ev_maxRequeues = 3, ev_maxRunDuration = 0\<rparr>"

definition retry_options :: options where
  "retry_options = plain_options\<lparr>op_MaxRunDuration := 0\<rparr>"

text \<open>An expression that has a value while step \<open>b\<close> has not succeeded and none afterwards.\<close>

definition status_library :: library where
  "status_library = plain_library\<lparr>lib_evaluate := \<lambda>_ cx _.
     case map_of (cx_Steps cx) ''b'' of
       None \<Rightarrow> Inl ''no such step''
     | Some m \<Rightarrow> if stm_Status m = ''succeeded'' then Inl ''no such overload'' else Inr (JStr (stm_Status m))\<rparr>"

definition retry_start :: state where
  "retry_start = fresh retry_graph sample_run retry_options 1"

definition retry_running :: state where
  "retry_running = retry_start\<lparr>s_Run := sample_run\<lparr>r_State := Running\<rparr>,
     s_Steps := [(''a'', started [whole []] 2), (''b'', started [whole []] 2)], s_Seq := 1\<rparr>"

definition retry_waiting :: state where
  "retry_waiting = retry_running\<lparr>
     s_Steps := [(''a'', (started [whole []] 2)\<lparr>ss_Shards := [(new_shard no_shard [] 2)\<lparr>sd_NextAttemptAt := 9\<rparr>]\<rparr>),
                 (''b'', started [whole []] 2)], s_Seq := 2\<rparr>"

definition retry_due :: state where
  "retry_due = retry_running\<lparr>
     s_Steps := [(''a'', (started [whole []] 2)\<lparr>ss_Shards := [(new_shard no_shard [] 2)\<lparr>sd_NextAttemptAt := 9\<rparr>]\<rparr>),
                 (''b'', (started [whole []] 2)\<lparr>ss_Shards := [(new_shard no_shard [] 1)\<lparr>sd_Task := TaskSucceeded,
                    sd_DispatchedAt := 2, sd_StartedAt := 3, sd_FinishedAt := 4\<rparr>]\<rparr>)], s_Seq := 3\<rparr>"

definition retry_hung :: state where
  "retry_hung = retry_running\<lparr>
     s_Steps := [(''a'', (started [whole []] 2)\<lparr>ss_Shards := [(new_shard no_shard [] 2)\<lparr>sd_Task := TaskFailed,
                    sd_ExitCode := 120, sd_FinishedAt := 20, sd_NextAttemptAt := 9\<rparr>],
                    ss_Reason := ReasonError (ParamExpression ''a'' ''n'' (ExpressionFailed ''no such overload''))\<rparr>),
                 (''b'', zero_step\<lparr>ss_Verdict := VerdictSucceeded, ss_Since := 20, ss_Ports := [(''out'', Empty ''r'' ''b'' ''out'' 1 20)],
                    ss_Shards := [(new_shard no_shard [] 1)\<lparr>sd_Task := TaskSucceeded,
                      sd_DispatchedAt := 2, sd_StartedAt := 3, sd_FinishedAt := 4\<rparr>]\<rparr>)], s_Seq := 4\<rparr>"

lemma retry_builds: "Build no_other_checks (\<lambda>_ _ _. None) retry_workflow [] = Inr retry_graph"
  by code_simp

lemma retry_started: "Start retry_graph sample_run retry_options 1 = Inr (retry_evaluator, retry_start)"
  by code_simp

lemma retry_started_run: "started_run retry_evaluator retry_start"
proof -
  have "ev_graph retry_evaluator = retry_graph" "op_Reuse retry_options = []"
    by (simp_all add: retry_evaluator_def retry_options_def plain_options_def)
  then show ?thesis using retry_builds retry_started unfolding started_run_def by (metis map_of.simps(1) option.distinct(1))
qed

definition a_transient :: task_result where
  "a_transient = report (NewTaskID ''r'' ''a'' 1 no_shard) TaskFailed 100"

definition b_succeeded :: task_result where
  "b_succeeded = report (NewTaskID ''r'' ''b'' 1 no_shard) TaskSucceeded 0"

lemma retry_first: "fst (Next status_library retry_evaluator 2 retry_start) = retry_running"
  by code_simp

lemma retry_reports:
  "fst (Record retry_evaluator a_transient 5 retry_running) = retry_waiting"
  "fst (Record retry_evaluator b_succeeded 5 retry_waiting) = retry_due"
  by code_simp+

lemma retry_hangs: "Next status_library retry_evaluator 20 retry_due = (retry_hung, Inr empty_plan)"
  by code_simp

lemma retry_reaches: "(moves status_library retry_evaluator)\<^sup>*\<^sup>* retry_start retry_hung"
proof -
  note m = moves.intros[of status_library retry_evaluator]
  have "moves status_library retry_evaluator retry_start retry_running" using m(1)[of retry_start 2] retry_first by simp
  moreover have "moves status_library retry_evaluator retry_running retry_waiting" using m(2)[of retry_running a_transient 5] retry_reports(1) by simp
  moreover have "moves status_library retry_evaluator retry_waiting retry_due" using m(2)[of retry_waiting b_succeeded 5] retry_reports(2) by simp
  moreover have "moves status_library retry_evaluator retry_due retry_hung" using m(1)[of retry_due 20] retry_hangs by simp
  ultimately show ?thesis by (meson converse_rtranclp_into_rtranclp rtranclp.rtrancl_refl)
qed

section \<open>Property\<close>

text \<open>
  C27: a step with a broken retry never ends of itself. Once the task of a further attempt could not be
  built, nothing that is reported and no pass that is taken, however late, gives its step the verdict
  failed or any other but cancelled; the step never publishes a port, and its shard stays on the task state and the moment it has.
\<close>

theorem broken_retry_never_settles:
  assumes "started_run e s" "(moves lib e)\<^sup>*\<^sup>* s t" "(moves lib e)\<^sup>*\<^sup>* t u" "verdict_at t n = VerdictRunning" "i < length (shards_at t n)"
    and "task_Terminal (sd_Task (shards_at t n ! i))" "sd_NextAttemptAt (shards_at t n ! i) \<noteq> zero_time"
  shows "(verdict_at u n = VerdictRunning \<or> verdict_at u n = VerdictCancelled) \<and> ss_Ports (at_step u n) = [] \<and> i < length (shards_at u n) \<and>
    sd_Task (shards_at u n ! i) = sd_Task (shards_at t n ! i) \<and> sd_NextAttemptAt (shards_at u n ! i) = sd_NextAttemptAt (shards_at t n ! i)"
proof -
  have inv: "layered (ev_graph e) \<and> sound e t" by (rule run_machine.inv_reachable[OF assms(1,2)])
  have "broken n i t" using assms(4-7) by (simp add: broken_def)
  with assms(3) have "broken n i u \<and> layered (ev_graph e) \<and> sound e u"
  proof (induction rule: rtranclp_induct)
    case base
    then show ?case using inv by simp
  next
    case (step u v)
    then show ?case using broken_moves run_machine.inv_step by blast
  qed
  then have "(verdict_at u n = VerdictRunning \<or> verdict_at u n = VerdictCancelled) \<and> ss_Ports (at_step u n) = []"
    using sound_at[of e u n] by (auto simp: broken_def step_ok_def)
  moreover have "list_all2 continues (shards_at t n) (shards_at u n)"
  proof -
    have "later t u" by (rule run_later[OF inv assms(3)])
    moreover have "shards_at t n \<noteq> []" using assms(5) by auto
    ultimately show ?thesis by (simp add: later_def follows_def)
  qed
  ultimately show ?thesis using assms(5,6) by (auto simp: list_all2_conv_all_nth continues_def)
qed

text \<open>
  The hypotheses hold in the sample: the pass at 20 answers the empty plan with no moment to come back at
  and leaves the run running with no task in flight.
\<close>

theorem broken_retry_never_settles_witness:
  "Next status_library retry_evaluator 20 retry_due = (retry_hung, Inr empty_plan) \<and> r_State (s_Run retry_hung) = Running \<and>
   ss_Ports (at_step (fst (Next status_library retry_evaluator 90 retry_hung)) ''a'') = []"
proof -
  have h: "verdict_at retry_hung ''a'' = VerdictRunning" "0 < length (shards_at retry_hung ''a'')"
    "task_Terminal (sd_Task (shards_at retry_hung ''a'' ! 0))" "sd_NextAttemptAt (shards_at retry_hung ''a'' ! 0) \<noteq> zero_time"
    "r_State (s_Run retry_hung) = Running"
    by code_simp+
  have "(moves status_library retry_evaluator)\<^sup>*\<^sup>* retry_hung (fst (Next status_library retry_evaluator 90 retry_hung))"
    by (rule r_into_rtranclp) (rule moves.ByNext)
  from broken_retry_never_settles[OF retry_started_run retry_reaches this h(1-4)]
  show ?thesis using retry_hangs h(5) by simp
qed

end
