(* ===== verification/Access.thy ===== *)
theory Access
  imports Vocabulary "HOL-Library.Word"
begin

text \<open>
  Package \<open>access\<close>: the nine permissions and the sets of them (\<open>permission.go\<close>), the four roles
  (\<open>role.go\<close>), scopes and grants (\<open>grant.go\<close>), what a principal holds at a scope (\<open>resolve.go\<close>) and what
  a token keeps of it (\<open>token.go\<close>). A permission and a role are the strings the sources hold, so that a
  row naming one that does not exist is a value; a set is the sixteen bits it is. A moment is an integer, and
  0 is the zero time.
\<close>

unbundle bit_operations_syntax

section \<open>Permissions and sets of them\<close>

type_synonym permission = string

definition nine :: "permission list" where
  "nine = [''workflow:read'', ''workflow:run'', ''workflow:write'', ''workflow:delete'', ''run:read'', ''run:read_data'',
     ''secret:use'', ''secret:write'', ''grant:manage'']"

definition perm_bit :: "permission \<Rightarrow> 16 word" where
  "perm_bit p = (case find (\<lambda>i. p = nine ! i) [0..<length nine] of None \<Rightarrow> 0 | Some i \<Rightarrow> push_bit i 1)"

definition permission_Valid :: "permission \<Rightarrow> bool" where
  "permission_Valid p = (perm_bit p \<noteq> 0)"

record perm_set =
  bits :: "16 word"

definition no_perms :: perm_set where "no_perms = \<lparr>bits = 0\<rparr>"

definition SetOf :: "permission list \<Rightarrow> perm_set" where
  "SetOf ps = foldl (\<lambda>s p. s\<lparr>bits := bits s OR perm_bit p\<rparr>) no_perms ps"

definition set_Has :: "perm_set \<Rightarrow> permission \<Rightarrow> bool" where
  "set_Has s p = (perm_bit p \<noteq> 0 \<and> bits s AND perm_bit p \<noteq> 0)"

definition set_Permissions :: "perm_set \<Rightarrow> permission list" where
  "set_Permissions s = map (\<lambda>i. nine ! i) (filter (\<lambda>i. bits s AND push_bit i 1 \<noteq> 0) [0..<length nine])"

definition set_String :: "perm_set \<Rightarrow> string" where
  "set_String s = join_with '', '' (set_Permissions s)"

definition set_union :: "perm_set \<Rightarrow> perm_set \<Rightarrow> perm_set" where
  "set_union s t = \<lparr>bits = bits s OR bits t\<rparr>"

definition set_without :: "perm_set \<Rightarrow> perm_set \<Rightarrow> perm_set" where
  "set_without s t = \<lparr>bits = bits s AND NOT (bits t)\<rparr>"

definition namespaceOnly :: perm_set where
  "namespaceOnly = SetOf [''secret:use'', ''secret:write'']"

section \<open>Roles\<close>

definition readColumn :: perm_set where "readColumn = SetOf [''workflow:read'', ''run:read'']"
definition runColumn :: perm_set where "runColumn = SetOf [''workflow:run'', ''run:read'']"
definition writeColumn :: perm_set where "writeColumn = SetOf [''workflow:write'', ''secret:use'']"
definition dataColumn :: perm_set where "dataColumn = SetOf [''run:read_data'']"
definition secretColumn :: perm_set where "secretColumn = SetOf [''secret:write'']"
definition deleteColumn :: perm_set where "deleteColumn = SetOf [''workflow:delete'']"
definition grantColumn :: perm_set where "grantColumn = SetOf [''grant:manage'']"

definition role_Valid :: "string \<Rightarrow> bool" where
  "role_Valid r = (r \<in> {''viewer'', ''operator'', ''editor'', ''owner''})"

definition editor_Permissions :: perm_set where
  "editor_Permissions = set_union (set_union (set_union (set_union readColumn runColumn) writeColumn) dataColumn) secretColumn"

definition role_Permissions :: "string \<Rightarrow> perm_set" where
  "role_Permissions r =
     (if r = ''viewer'' then readColumn
      else if r = ''operator'' then runColumn
      else if r = ''editor'' then editor_Permissions
      else if r = ''owner'' then set_union (set_union editor_Permissions deleteColumn) grantColumn
      else no_perms)"

section \<open>Scopes\<close>

datatype access_error =
    NoNamespaceNamed
  | NotANamespace string
  | RoutedWord string
  | NotAWorkflow string
  | NoWorkflowAfterSlash string
  | NoGroup string
  | NoServiceAccount string
  | NoPrincipal string
  | BindsNothing
  | BindsBoth string string
  | NotARole string
  | DeniesARole string
  | NotAPermission string
  | GrantUnread string access_error
  | NoMoment
  | GroupHoldsNoToken string
  | ReachUnread string access_error

definition is_lower_alnum :: "char \<Rightarrow> bool" where
  "is_lower_alnum c = (let n = (of_char c :: nat) in (97 \<le> n \<and> n \<le> 122) \<or> (48 \<le> n \<and> n \<le> 57))"

text \<open>The two regular expressions: lowercase words joined by hyphens, and an identifier.\<close>

definition namespaceForm :: "string \<Rightarrow> bool" where
  "namespaceForm s = (\<forall>part \<in> set (split_on (CHR ''-'') s). part \<noteq> [] \<and> list_all is_lower_alnum part)"

definition workflowForm :: "string \<Rightarrow> bool" where
  "workflowForm s = (s \<noteq> [] \<and> is_alnum (hd s) \<and> list_all (\<lambda>c. is_alnum c \<or> c = CHR ''_'' \<or> c = CHR ''-'') (tl s))"

record access_scope =
  sc_Namespace :: string
  sc_Workflow :: string

definition scope_validate :: "access_scope \<Rightarrow> (access_error, unit) result" where
  "scope_validate s =
     (if sc_Namespace s = [] then Inl NoNamespaceNamed
      else if length (sc_Namespace s) > IdentifierMaxBytes \<or> \<not> namespaceForm (sc_Namespace s) then Inl (NotANamespace (sc_Namespace s))
      else if NamesNoNamespace (sc_Namespace s) then Inl (RoutedWord (sc_Namespace s))
      else if sc_Workflow s = [] then Inr ()
      else if length (sc_Workflow s) > IdentifierMaxBytes \<or> \<not> workflowForm (sc_Workflow s) then Inl (NotAWorkflow (sc_Workflow s))
      else Inr ())"

definition ParseScope :: "string \<Rightarrow> (access_error, access_scope) result" where
  "ParseScope s =
     (let (ns, wf, onWorkflow) = (case cut_at (CHR ''/'') s of None \<Rightarrow> (s, [], False) | Some (a, b) \<Rightarrow> (a, b, True));
          scope = \<lparr>sc_Namespace = ns, sc_Workflow = wf\<rparr> in
      if onWorkflow \<and> wf = [] then Inl (NoWorkflowAfterSlash s)
      else rbind (scope_validate scope) (\<lambda>_. Inr scope))"

definition scope_String :: "access_scope \<Rightarrow> string" where
  "scope_String s = (if sc_Workflow s = [] then sc_Namespace s else sc_Namespace s @ ''/'' @ sc_Workflow s)"

definition covers :: "access_scope \<Rightarrow> access_scope \<Rightarrow> bool" where
  "covers s q = (sc_Namespace s = sc_Namespace q \<and> (sc_Workflow s = [] \<or> sc_Workflow s = sc_Workflow q))"

section \<open>Grants\<close>

record grant =
  gr_ID :: string
  gr_Principal :: string
  gr_Scope :: access_scope
  gr_Role :: string
  gr_Deny :: permission
  gr_ExpiresAt :: "int option"
  gr_GrantedBy :: string
  gr_GrantedAt :: int

definition binds :: "grant \<Rightarrow> (access_error, unit) result" where
  "binds g =
     (if gr_Role g = [] \<and> gr_Deny g = [] then Inl BindsNothing
      else if gr_Role g \<noteq> [] \<and> gr_Deny g \<noteq> [] then Inl (BindsBoth (gr_Role g) (gr_Deny g))
      else if gr_Role g \<noteq> [] \<and> \<not> role_Valid (gr_Role g) then Inl (NotARole (gr_Role g))
      else if gr_Deny g \<noteq> [] \<and> role_Valid (gr_Deny g) then Inl (DeniesARole (gr_Deny g))
      else if gr_Deny g \<noteq> [] \<and> \<not> permission_Valid (gr_Deny g) then Inl (NotAPermission (gr_Deny g))
      else Inr ())"

definition Expired :: "grant \<Rightarrow> int \<Rightarrow> bool" where
  "Expired g now = (case gr_ExpiresAt g of None \<Rightarrow> False | Some at \<Rightarrow> \<not> now < at)"

definition given_name :: "string \<Rightarrow> bool" where
  "given_name name = (length name \<le> IdentifierMaxBytes \<and> namespaceForm name)"

definition principalRef :: "string \<Rightarrow> (access_error, unit) result" where
  "principalRef ref =
     (case cut_prefix ref ''group:'' of
        Some grp \<Rightarrow> if given_name grp then Inr () else Inl (NoGroup ref)
      | None \<Rightarrow>
          (case cut_at (CHR ''/'') ref of
             Some (ns, name) \<Rightarrow>
               if \<not> given_name ns \<or> \<not> given_name name then Inl (NoServiceAccount ref)
               else if NamesNoNamespace ns then Inl (RoutedWord ns)
               else Inr ()
           | None \<Rightarrow>
               if ref = [] then Inl (NoPrincipal ref)
               else if ref = ''operator'' then Inl (NoPrincipal ref)
               else if ref = ''installation'' then Inl (NoPrincipal ref)
               else if \<not> given_name ref then Inl (NoPrincipal ref)
               else if NamesNoNamespace ref then Inl (RoutedWord ref)
               else Inr ()))"

definition grant_Validate :: "grant \<Rightarrow> (access_error, unit) result" where
  "grant_Validate g = rbind (principalRef (gr_Principal g)) (\<lambda>_. rbind (scope_validate (gr_Scope g)) (\<lambda>_. binds g))"

section \<open>Resolving grants\<close>

record principal =
  p_Ref :: string
  p_Groups :: "string list"

definition named_by :: "principal \<Rightarrow> string \<Rightarrow> bool" where
  "named_by p ref =
     (if ref = [] then False
      else if ref = p_Ref p then True
      else case cut_prefix ref ''group:'' of None \<Rightarrow> False | Some grp \<Rightarrow> grp \<noteq> [] \<and> grp \<in> set (p_Groups p))"

definition applies :: "principal \<Rightarrow> access_scope \<Rightarrow> int \<Rightarrow> grant \<Rightarrow> bool" where
  "applies p at now g = (\<not> (\<not> named_by p (gr_Principal g) \<or> \<not> covers (gr_Scope g) at \<or> Expired g now))"

definition allows :: "grant \<Rightarrow> perm_set" where
  "allows g = (let gives = role_Permissions (gr_Role g) in
     if sc_Workflow (gr_Scope g) \<noteq> [] then set_without gives namespaceOnly else gives)"

definition resolve_grant ::
  "principal \<Rightarrow> access_scope \<Rightarrow> int \<Rightarrow> grant \<Rightarrow> perm_set \<times> perm_set \<Rightarrow> (access_error, perm_set \<times> perm_set) result" where
  "resolve_grant p at now g = (\<lambda>(allowed, denied).
     if \<not> applies p at now g then Inr (allowed, denied)
     else case binds g of
            Inl err \<Rightarrow> Inl (GrantUnread (gr_ID g) err)
          | Inr _ \<Rightarrow>
              if gr_Deny g \<noteq> [] then Inr (allowed, set_union denied (SetOf [gr_Deny g]))
              else Inr (set_union allowed (allows g), denied))"

definition Resolve :: "principal \<Rightarrow> grant list \<Rightarrow> access_scope \<Rightarrow> int \<Rightarrow> (access_error, perm_set) result" where
  "Resolve p grants at now =
     (if now = 0 then Inl NoMoment
      else if sc_Namespace at = [] then Inr no_perms
      else rbind (rfold (resolve_grant p at now) grants (no_perms, no_perms)) (\<lambda>(allowed, denied).
           Inr (set_without allowed denied)))"

definition Holds :: "principal \<Rightarrow> grant list \<Rightarrow> permission \<Rightarrow> access_scope \<Rightarrow> int \<Rightarrow> (access_error, bool) result" where
  "Holds p grants what at now = rbind (Resolve p grants at now) (\<lambda>held. Inr (set_Has held what))"

definition Gives :: "grant \<Rightarrow> principal \<Rightarrow> permission \<Rightarrow> access_scope \<Rightarrow> bool" where
  "Gives g p what at =
     (if gr_Role g = [] \<or> gr_Deny g \<noteq> [] \<or> sc_Namespace at = [] \<or> \<not> named_by p (gr_Principal g) \<or> \<not> covers (gr_Scope g) at then False
      else set_Has (allows g) what)"

definition Takes :: "grant \<Rightarrow> principal \<Rightarrow> permission \<Rightarrow> access_scope \<Rightarrow> bool" where
  "Takes g p what at =
     (gr_Role g = [] \<and> gr_Deny g \<noteq> [] \<and> gr_Deny g = what \<and> sc_Namespace at \<noteq> [] \<and> named_by p (gr_Principal g) \<and> covers (gr_Scope g) at)"

definition Owns :: "principal \<Rightarrow> grant list \<Rightarrow> string \<Rightarrow> int \<Rightarrow> bool" where
  "Owns p grants namespace now =
     (if namespace = [] then False
      else list_ex (\<lambda>g. gr_Role g = ''owner'' \<and> gr_Scope g = \<lparr>sc_Namespace = namespace, sc_Workflow = []\<rparr> \<and>
                        named_by p (gr_Principal g) \<and> \<not> Expired g now) grants)"

section \<open>Tokens\<close>

record token_scope =
  ts_Permissions :: "permission list option"
  ts_Within :: "access_scope list option"

definition Narrows :: "token_scope \<Rightarrow> bool" where
  "Narrows s = (ts_Permissions s \<noteq> None \<or> ts_Within s \<noteq> None)"

definition TokenHolder :: "string \<Rightarrow> (access_error, unit) result" where
  "TokenHolder ref =
     (if cut_prefix ref ''group:'' \<noteq> None then Inl (GroupHoldsNoToken ref)
      else case cut_at (CHR ''/'') ref of
             Some (ns, name) \<Rightarrow> if \<not> given_name ns \<or> \<not> given_name name then Inl (NoServiceAccount ref) else Inr ()
           | None \<Rightarrow> if ref = ''installation'' then Inl (NoPrincipal ref) else principalRef ref)"

definition ParseTokenScope :: "string list option \<Rightarrow> string list option \<Rightarrow> (access_error, token_scope) result" where
  "ParseTokenScope permissions within =
     rbind (case permissions of
              None \<Rightarrow> Inr None
            | Some ps \<Rightarrow> rbind (rall (\<lambda>p. if permission_Valid p then Inr p else Inl (NotAPermission p)) ps) (\<lambda>qs. Inr (Some qs))) (\<lambda>ps.
     rbind (case within of
              None \<Rightarrow> Inr None
            | Some ws \<Rightarrow> rbind (rall (\<lambda>w. case ParseScope w of Inl err \<Rightarrow> Inl (ReachUnread w err) | Inr at \<Rightarrow> Inr at) ws) (\<lambda>ats. Inr (Some ats))) (\<lambda>ws.
     Inr \<lparr>ts_Permissions = ps, ts_Within = ws\<rparr>))"

definition Keeps :: "token_scope \<Rightarrow> permission \<Rightarrow> access_scope \<Rightarrow> bool" where
  "Keeps s what at =
     (if sc_Namespace at = [] then ts_Permissions s = None \<and> ts_Within s = None
      else if (case ts_Permissions s of None \<Rightarrow> False | Some ps \<Rightarrow> what \<notin> set ps) then False
      else case ts_Within s of None \<Rightarrow> True | Some ws \<Rightarrow> list_ex (\<lambda>w. covers w at) ws)"

definition Reaches :: "token_scope \<Rightarrow> string \<Rightarrow> bool" where
  "Reaches s namespace =
     (if namespace = [] then False
      else case ts_Within s of None \<Rightarrow> True | Some ws \<Rightarrow> list_ex (\<lambda>w. sc_Namespace w = namespace) ws)"

section \<open>Sixteen bits as a set\<close>

text \<open>What a client of a set of permissions relies on: an abstraction to a set under which the operations are those of sets.\<close>

locale set_operations =
  fixes elems :: "'s \<Rightarrow> 'a set" and none :: 's and union :: "'s \<Rightarrow> 's \<Rightarrow> 's" and without :: "'s \<Rightarrow> 's \<Rightarrow> 's"
  assumes elems_none: "elems none = {}"
    and elems_union: "elems (union s t) = elems s \<union> elems t"
    and elems_without: "elems (without s t) = elems s - elems t"
begin

lemma elems_foldl: "elems (foldl (\<lambda>acc x. union acc (f x)) s xs) = elems s \<union> (\<Union>x \<in> set xs. elems (f x))"
  by (induction xs arbitrary: s) (auto simp: elems_union)

lemma elems_minus_all: "elems (without s (foldl (\<lambda>acc x. union acc (f x)) none xs)) = elems s - (\<Union>x \<in> set xs. elems (f x))"
  by (simp add: elems_without elems_foldl elems_none)

end

definition perms :: "perm_set \<Rightarrow> permission set" where
  "perms s = {p. set_Has s p}"

lemma nine_distinct: "distinct nine"
  by code_simp

lemma length_nine [simp]: "length nine = 9"
  by (simp add: nine_def)

lemma perm_bit_nth: "i < 9 \<Longrightarrow> perm_bit (nine ! i) = 2 ^ i"
proof -
  assume i: "i < 9"
  have "find (\<lambda>j. nine ! i = nine ! j) [0..<9] = Some i"
    using i nth_eq_iff_index_eq[OF nine_distinct] by (auto simp: find_Some_iff intro!: exI[of _ i])
  then show ?thesis by (simp add: perm_bit_def)
qed

lemma perm_bit_unknown: "p \<notin> set nine \<Longrightarrow> perm_bit p = 0"
proof -
  assume p: "p \<notin> set nine"
  have "find (\<lambda>j. p = nine ! j) [0..<9] = None"
    using p by (auto simp: find_None_iff in_set_conv_nth)
  then show ?thesis by (simp add: perm_bit_def)
qed

lemma bit_exp_word: "i < 9 \<Longrightarrow> bit (2 ^ i :: 16 word) j \<longleftrightarrow> j = i"
  by (auto simp: bit_exp_iff)

lemma exp_nonzero: "i < 9 \<Longrightarrow> (2 ^ i :: 16 word) \<noteq> 0"
  using bit_exp_word[of i i] by fastforce

lemma and_exp_nonzero: "w AND 2 ^ i \<noteq> 0 \<longleftrightarrow> bit w i" for w :: "16 word"
  by (simp add: and_exp_eq_0_iff_not_bit)

lemma has_nth: "i < 9 \<Longrightarrow> set_Has s (nine ! i) \<longleftrightarrow> bit (bits s) i"
  using exp_nonzero and_exp_nonzero by (simp add: set_Has_def perm_bit_nth)

lemma perms_iff: "p \<in> perms s \<longleftrightarrow> (\<exists>i < 9. p = nine ! i \<and> bit (bits s) i)"
proof (cases "p \<in> set nine")
  case True
  then obtain i where "i < 9" "p = nine ! i" by (auto simp: in_set_conv_nth)
  then show ?thesis using has_nth nth_eq_iff_index_eq[OF nine_distinct] by (auto simp: perms_def)
next
  case False
  then show ?thesis using perm_bit_unknown nth_mem[of _ nine] by (auto simp: perms_def set_Has_def)
qed

lemma nth_in_perms: "i < 9 \<Longrightarrow> nine ! i \<in> perms s \<longleftrightarrow> bit (bits s) i"
  using has_nth by (simp add: perms_def)

lemma perms_subset: "perms s \<subseteq> set nine"
  by (auto simp: perms_iff)

lemma perms_cong:
  assumes "\<And>i. i < 9 \<Longrightarrow> nine ! i \<in> A \<longleftrightarrow> nine ! i \<in> B" "A \<subseteq> set nine" "B \<subseteq> set nine"
  shows "A = B"
proof -
  have "p \<in> A \<longleftrightarrow> p \<in> B" if p: "p \<in> set nine" for p
  proof -
    obtain i where "i < 9" "p = nine ! i" using p by (auto simp: in_set_conv_nth)
    then show ?thesis using assms(1) by simp
  qed
  then show ?thesis using assms(2,3) by blast
qed

lemma permission_Valid_iff: "permission_Valid p \<longleftrightarrow> p \<in> set nine"
  using perm_bit_unknown perm_bit_nth exp_nonzero by (auto simp: permission_Valid_def in_set_conv_nth)

interpretation perm_sets: set_operations perms no_perms set_union set_without
proof
  show "perms no_perms = {}" by (auto simp: perms_def set_Has_def no_perms_def)
  show "perms (set_union s t) = perms s \<union> perms t" for s t
    by (rule perms_cong) (use perms_subset in \<open>auto simp: nth_in_perms set_union_def bit_or_iff\<close>)
  show "perms (set_without s t) = perms s - perms t" for s t
    by (rule perms_cong) (use perms_subset in \<open>auto simp: nth_in_perms set_without_def bit_and_iff bit_not_iff\<close>)
qed

lemma perms_insert: "perms (s\<lparr>bits := bits s OR perm_bit p\<rparr>) = perms s \<union> ({p} \<inter> set nine)"
proof (cases "p \<in> set nine")
  case True
  then obtain i where i: "i < 9" "p = nine ! i" by (auto simp: in_set_conv_nth)
  show ?thesis
    by (rule perms_cong)
       (use i True perms_subset nth_eq_iff_index_eq[OF nine_distinct] in
         \<open>auto simp: nth_in_perms perm_bit_nth bit_or_iff bit_exp_word\<close>)
next
  case False
  then show ?thesis by (simp add: perm_bit_unknown)
qed

lemma perms_SetOf: "perms (SetOf ps) = set ps \<inter> set nine"
proof -
  have "perms (foldl (\<lambda>s p. s\<lparr>bits := bits s OR perm_bit p\<rparr>) acc ps) = perms acc \<union> (set ps \<inter> set nine)" for acc
    by (induction ps arbitrary: acc) (auto simp: perms_insert)
  then show ?thesis by (simp add: SetOf_def perm_sets.elems_none)
qed

lemma set_Permissions_perms: "set (set_Permissions s) = perms s" "distinct (set_Permissions s)"
proof -
  have eq: "set_Permissions s = map ((!) nine) (filter (bit (bits s)) [0..<9])"
    by (simp add: set_Permissions_def and_exp_nonzero cong: filter_cong)
  show "set (set_Permissions s) = perms s"
    unfolding eq by (rule perms_cong) (use perms_subset nth_eq_iff_index_eq[OF nine_distinct] in \<open>auto simp: nth_in_perms\<close>)
  have "inj_on ((!) nine) (set (filter (bit (bits s)) [0..<9]))"
    using nth_eq_iff_index_eq[OF nine_distinct] by (auto simp: inj_on_def)
  then show "distinct (set_Permissions s)" unfolding eq by (simp add: distinct_map)
qed

section \<open>What resolving answers\<close>

definition applying :: "principal \<Rightarrow> access_scope \<Rightarrow> int \<Rightarrow> grant list \<Rightarrow> grant list" where
  "applying p at now grants = filter (applies p at now) grants"

lemma rfold_resolve:
  assumes "\<forall>g \<in> set (applying p at now grants). binds g = Inr ()"
  shows "\<exists>allowed denied. rfold (resolve_grant p at now) grants (a, d) = Inr (allowed, denied) \<and>
    perms allowed = perms a \<union> (\<Union>g \<in> {g \<in> set (applying p at now grants). gr_Deny g = []}. perms (allows g)) \<and>
    perms denied = perms d \<union> ({gr_Deny g | g. g \<in> set (applying p at now grants) \<and> gr_Deny g \<noteq> []} \<inter> set nine)"
  using assms
proof (induction grants arbitrary: a d)
  case (Cons g grants)
  have rest: "\<forall>g \<in> set (applying p at now grants). binds g = Inr ()" using Cons.prems by (simp add: applying_def)
  show ?case
  proof (cases "applies p at now g")
    case False
    then have "resolve_grant p at now g (a, d) = Inr (a, d)" by (simp add: resolve_grant_def)
    then show ?thesis using Cons.IH[OF rest, of a d] False by (simp add: applying_def)
  next
    case True
    then have b: "binds g = Inr ()" using Cons.prems by (simp add: applying_def)
    show ?thesis
    proof (cases "gr_Deny g = []")
      case allow: True
      then have "resolve_grant p at now g (a, d) = Inr (set_union a (allows g), d)" using True b by (simp add: resolve_grant_def)
      with Cons.IH[OF rest, of "set_union a (allows g)" d] show ?thesis
        using True allow by (auto simp: applying_def perm_sets.elems_union)
    next
      case deny: False
      then have "resolve_grant p at now g (a, d) = Inr (a, set_union d (SetOf [gr_Deny g]))" using True b by (simp add: resolve_grant_def)
      with Cons.IH[OF rest, of a "set_union d (SetOf [gr_Deny g])"] show ?thesis
        using True deny by (auto simp: applying_def perm_sets.elems_union perms_SetOf)
    qed
  qed
qed (simp add: applying_def)

lemma rfold_unread:
  assumes "g \<in> set (applying p at now grants)" "binds g \<noteq> Inr ()"
  shows "\<exists>id err. rfold (resolve_grant p at now) grants acc = Inl (GrantUnread id err)"
  using assms
proof (induction grants arbitrary: acc)
  case (Cons h grants)
  obtain a d where acc: "acc = (a, d)" by fastforce
  show ?case
  proof (cases "resolve_grant p at now h acc")
    case (Inl err)
    then show ?thesis by (auto simp: resolve_grant_def acc split: if_splits sum.splits)
  next
    case (Inr acc')
    then have "\<not> (applies p at now h \<and> binds h \<noteq> Inr ())" by (auto simp: resolve_grant_def acc split: if_splits sum.splits)
    then have "g \<in> set (applying p at now grants)" using Cons.prems by (auto simp: applying_def split: if_splits)
    with Cons.IH[OF _ Cons.prems(2), of acc'] Inr show ?thesis by simp
  qed
qed (simp add: applying_def)

lemma binds_allow: "binds g = Inr () \<Longrightarrow> gr_Deny g = [] \<longleftrightarrow> gr_Role g \<noteq> []"
  by (auto simp: binds_def split: if_splits)

lemma binds_deny: "binds g = Inr () \<Longrightarrow> gr_Deny g \<noteq> [] \<Longrightarrow> gr_Deny g \<in> set nine"
  by (auto simp: binds_def permission_Valid_iff split: if_splits)

lemma Resolve_perms:
  assumes "now \<noteq> 0" "sc_Namespace at \<noteq> []" "\<forall>g \<in> set grants. applies p at now g \<longrightarrow> binds g = Inr ()"
  shows "\<exists>held. Resolve p grants at now = Inr held \<and>
    perms held = {what. (\<exists>g \<in> set grants. \<not> Expired g now \<and> Gives g p what at) \<and> \<not> (\<exists>g \<in> set grants. \<not> Expired g now \<and> Takes g p what at)}"
proof -
  let ?A = "applying p at now grants"
  have b: "\<forall>g \<in> set ?A. binds g = Inr ()" using assms(3) by (simp add: applying_def)
  obtain allowed denied where r: "rfold (resolve_grant p at now) grants (no_perms, no_perms) = Inr (allowed, denied)"
    "perms allowed = (\<Union>g \<in> {g \<in> set ?A. gr_Deny g = []}. perms (allows g))"
    "perms denied = {gr_Deny g | g. g \<in> set ?A \<and> gr_Deny g \<noteq> []} \<inter> set nine"
    using rfold_resolve[OF b, of no_perms no_perms] by (auto simp: perm_sets.elems_none)
  have g: "what \<in> perms allowed \<longleftrightarrow> (\<exists>g \<in> set grants. \<not> Expired g now \<and> Gives g p what at)" for what
  proof
    assume "what \<in> perms allowed"
    then obtain g where "g \<in> set ?A" "gr_Deny g = []" "set_Has (allows g) what" using r(2) by (auto simp: perms_def)
    moreover from this have "gr_Role g \<noteq> []" using b binds_allow by blast
    ultimately show "\<exists>g \<in> set grants. \<not> Expired g now \<and> Gives g p what at"
      using assms(2) by (auto simp: applying_def applies_def Gives_def)
  next
    assume "\<exists>g \<in> set grants. \<not> Expired g now \<and> Gives g p what at"
    then show "what \<in> perms allowed" using r(2) by (auto simp: applying_def applies_def Gives_def perms_def split: if_splits)
  qed
  have d: "what \<in> perms denied \<longleftrightarrow> (\<exists>g \<in> set grants. \<not> Expired g now \<and> Takes g p what at)" for what
  proof
    assume "what \<in> perms denied"
    then obtain g where "g \<in> set ?A" "gr_Deny g = what" "gr_Deny g \<noteq> []" using r(3) by auto
    moreover from this have "gr_Role g = []" using b binds_allow by blast
    ultimately show "\<exists>g \<in> set grants. \<not> Expired g now \<and> Takes g p what at"
      using assms(2) by (auto simp: applying_def applies_def Takes_def)
  next
    assume "\<exists>g \<in> set grants. \<not> Expired g now \<and> Takes g p what at"
    then obtain g where g: "g \<in> set ?A" "gr_Deny g = what" "gr_Deny g \<noteq> []" by (auto simp: applying_def applies_def Takes_def)
    then show "what \<in> perms denied" using r(3) binds_deny b by auto
  qed
  have "perms (set_without allowed denied) = perms allowed - perms denied" by (rule perm_sets.elems_without)
  then show ?thesis using r(1) assms(1,2) g d by (auto simp: Resolve_def)
qed

lemma Holds_answers:
  assumes "now \<noteq> 0" "sc_Namespace at \<noteq> []" "\<forall>g \<in> set grants. applies p at now g \<longrightarrow> binds g = Inr ()"
  shows "Holds p grants what at now =
    Inr ((\<exists>g \<in> set grants. \<not> Expired g now \<and> Gives g p what at) \<and> \<not> (\<exists>g \<in> set grants. \<not> Expired g now \<and> Takes g p what at))"
proof -
  obtain held where r: "Resolve p grants at now = Inr held" and
    "perms held = {what. (\<exists>g \<in> set grants. \<not> Expired g now \<and> Gives g p what at) \<and> \<not> (\<exists>g \<in> set grants. \<not> Expired g now \<and> Takes g p what at)}"
    using Resolve_perms[OF assms] by blast
  then have "set_Has held what = ((\<exists>g \<in> set grants. \<not> Expired g now \<and> Gives g p what at) \<and> \<not> (\<exists>g \<in> set grants. \<not> Expired g now \<and> Takes g p what at))"
    unfolding perms_def by blast
  with r show ?thesis by (simp add: Holds_def)
qed

lemma Holds_unread:
  assumes "now \<noteq> 0" "sc_Namespace at \<noteq> []" "g \<in> set grants" "applies p at now g" "binds g \<noteq> Inr ()"
  shows "\<exists>id err. Holds p grants what at now = Inl (GrantUnread id err)"
  using assms rfold_unread[of g p at now grants "(no_perms, no_perms)"] by (auto simp: Holds_def Resolve_def applying_def)

section \<open>Scopes are a canonical codec\<close>

abbreviation scope_ok :: "access_scope \<Rightarrow> bool" where
  "scope_ok s \<equiv> scope_validate s = Inr ()"

lemma set_split_on: "set s \<subseteq> insert c (\<Union>p \<in> set (split_on c s). set p)"
proof (induction s)
  case (Cons x xs)
  obtain p ps where ps: "split_on c xs = p # ps" using split_on_nonempty[of c xs] by (meson neq_Nil_conv)
  show ?case
  proof (cases "x = c")
    case False
    have "set (x # xs) \<subseteq> insert c (insert x (\<Union>p \<in> set (p # ps). set p))" using Cons ps by auto
    then show ?thesis using False ps by simp
  qed (use Cons in auto)
qed simp

lemma namespaceForm_no_slash: "namespaceForm s \<Longrightarrow> CHR ''/'' \<notin> set s"
proof
  assume form: "namespaceForm s" and "CHR ''/'' \<in> set s"
  moreover have "set s \<subseteq> insert (CHR ''-'') (\<Union>p \<in> set (split_on (CHR ''-'') s). set p)"
    by (rule set_split_on)
  ultimately obtain p where "p \<in> set (split_on (CHR ''-'') s)" "CHR ''/'' \<in> set p" by auto
  moreover from this have "list_all is_lower_alnum p" using form by (simp add: namespaceForm_def)
  ultimately have "is_lower_alnum (CHR ''/'')" by (simp add: list_all_iff)
  then show False by (simp add: is_lower_alnum_def)
qed

lemma scope_ok_no_slash: "scope_ok s \<Longrightarrow> CHR ''/'' \<notin> set (sc_Namespace s)"
  by (rule namespaceForm_no_slash) (simp add: scope_validate_def split: if_splits)

interpretation scopes: canonical_codec scope_String ParseScope scope_ok
proof unfold_locales
  show "ParseScope (scope_String x) = Inr x" if ok: "scope_ok x" for x
  proof (cases "sc_Workflow x = []")
    case True
    then obtain ns where x: "x = \<lparr>sc_Namespace = ns, sc_Workflow = []\<rparr>" by (cases x) simp
    then show ?thesis using ok scope_ok_no_slash[OF ok] cut_at_None_iff[of "CHR ''/''" ns]
      by (simp add: ParseScope_def scope_String_def Let_def)
  next
    case False
    obtain ns wf where x: "x = \<lparr>sc_Namespace = ns, sc_Workflow = wf\<rparr>" by (cases x) simp
    then show ?thesis using False ok cut_at_append[OF scope_ok_no_slash[OF ok], of "sc_Workflow x"]
      by (simp add: ParseScope_def scope_String_def Let_def)
  qed
  show "scope_ok x" if "ParseScope s = Inr x" for s x
    using that by (auto simp: ParseScope_def Let_def rbind_def split: option.splits if_splits prod.splits sum.splits)
  show "scope_String x = s" if "ParseScope s = Inr x" for s x
    using that by (auto simp: ParseScope_def Let_def rbind_def scope_String_def cut_at_Some split: option.splits if_splits prod.splits sum.splits)
qed

section \<open>Owners\<close>

lemma owner_perms: "perms (role_Permissions ''owner'') = set nine"
proof -
  have "set (set_Permissions (role_Permissions ''owner'')) = set nine" by code_simp
  then show ?thesis by (simp add: set_Permissions_perms)
qed

lemma Owns_Gives:
  assumes "Owns p grants ns now" "sc_Namespace at = ns" "what \<in> set nine" "\<forall>g \<in> set grants. binds g = Inr ()"
  shows "\<exists>g \<in> set grants. \<not> Expired g now \<and> Gives g p what at"
proof -
  obtain g where g: "g \<in> set grants" "gr_Role g = ''owner''" "gr_Scope g = \<lparr>sc_Namespace = ns, sc_Workflow = []\<rparr>"
      "named_by p (gr_Principal g)" "\<not> Expired g now" and ns: "ns \<noteq> []"
    using assms(1) by (auto simp: Owns_def list_ex_iff split: if_splits)
  have "gr_Deny g = []" using binds_allow[of g] assms(4) g(1,2) by simp
  moreover have "set_Has (role_Permissions ''owner'') what" using owner_perms assms(3) by (auto simp: perms_def)
  ultimately have "Gives g p what at" using g ns assms(2) by (simp add: Gives_def covers_def allows_def)
  with g show ?thesis by blast
qed

section \<open>Sample grants\<close>

definition sample_grants :: "grant list" where
  "sample_grants =
     [\<lparr>gr_ID = ''g1'', gr_Principal = ''ana'', gr_Scope = \<lparr>sc_Namespace = ''ops'', sc_Workflow = []\<rparr>, gr_Role = ''owner'', gr_Deny = [], gr_ExpiresAt = None,
        gr_GrantedBy = ''root'', gr_GrantedAt = 1\<rparr>,
      \<lparr>gr_ID = ''g2'', gr_Principal = ''group:crew'', gr_Scope = \<lparr>sc_Namespace = ''ops'', sc_Workflow = ''nightly''\<rparr>, gr_Role = [], gr_Deny = ''run:read_data'', gr_ExpiresAt = Some 100,
        gr_GrantedBy = ''root'', gr_GrantedAt = 1\<rparr>]"

definition sample_unread :: "grant list" where
  "sample_unread = sample_grants @
     [\<lparr>gr_ID = ''g3'', gr_Principal = ''ana'', gr_Scope = \<lparr>sc_Namespace = ''ops'', sc_Workflow = []\<rparr>, gr_Role = [], gr_Deny = ''run:raed'', gr_ExpiresAt = None,
        gr_GrantedBy = ''root'', gr_GrantedAt = 1\<rparr>]"

definition ana :: principal where
  "ana = \<lparr>p_Ref = ''ana'', p_Groups = [''crew'']\<rparr>"

definition nightly :: access_scope where
  "nightly = \<lparr>sc_Namespace = ''ops'', sc_Workflow = ''nightly''\<rparr>"

section \<open>Properties\<close>

text \<open>
  C17: whoever asks at a real moment about a namespace or a workflow, with grants that can be read wherever they
  apply, \<open>Holds\<close> answers, and answers yes exactly when some grant that has not expired gives the permission there
  and none takes it away: allows add up over every scope and group, and one deny wins over all of them. The two
  one-grant questions \<open>Gives\<close> and \<open>Takes\<close>, which the store asks, therefore agree with \<open>Resolve\<close>.
\<close>

theorem holds_iff:
  assumes "now \<noteq> 0" "sc_Namespace at \<noteq> []" "\<forall>g \<in> set grants. applies p at now g \<longrightarrow> binds g = Inr ()"
  shows "Holds p grants what at now =
    Inr ((\<exists>g \<in> set grants. \<not> Expired g now \<and> Gives g p what at) \<and> \<not> (\<exists>g \<in> set grants. \<not> Expired g now \<and> Takes g p what at))"
  using assms by (rule Holds_answers)

theorem holds_iff_witness:
  "Holds ana sample_grants ''run:read_data'' nightly 99 = Inr False \<and> Holds ana sample_grants ''run:read_data'' nightly 100 = Inr True"
proof -
  have "\<forall>g \<in> set sample_grants. binds g = Inr ()" by code_simp
  then have "Holds ana sample_grants ''run:read_data'' nightly now =
    Inr (list_ex (\<lambda>g. \<not> Expired g now \<and> Gives g ana ''run:read_data'' nightly) sample_grants \<and>
         \<not> list_ex (\<lambda>g. \<not> Expired g now \<and> Takes g ana ''run:read_data'' nightly) sample_grants)" if "now \<noteq> 0" for now
    using holds_iff[of now nightly sample_grants ana "''run:read_data''"] that by (simp add: list_ex_iff nightly_def)
  from this[of 99] this[of 100] show ?thesis by simp code_simp
qed

text \<open>
  A grant that applies and cannot be read is never passed over: the question is refused, naming a grant, whatever
  the other grants say and whatever their order. So no unreadable deny ever leaves a permission standing.
\<close>

theorem unreadable_grant_refused:
  assumes "now \<noteq> 0" "sc_Namespace at \<noteq> []" "g \<in> set grants" "applies p at now g" "binds g \<noteq> Inr ()"
  shows "\<exists>id err. Holds p grants what at now = Inl (GrantUnread id err)"
  using assms by (rule Holds_unread)

theorem unreadable_grant_refused_witness:
  "\<exists>id err. Holds ana sample_unread ''run:read'' nightly 99 = Inl (GrantUnread id err)"
proof -
  have "sc_Namespace nightly \<noteq> []" "last sample_unread \<in> set sample_unread" "applies ana nightly 99 (last sample_unread)"
    "binds (last sample_unread) \<noteq> Inr ()" by code_simp+
  then show ?thesis using unreadable_grant_refused[of 99 nightly "last sample_unread" sample_unread ana] by simp
qed

text \<open>
  A scope has one spelling. \<open>ParseScope\<close> reads a text as a scope exactly when the scope is a valid one and the
  text is what \<open>String\<close> writes for it; so reading and writing are inverse both ways, and no two texts name one scope.
\<close>

theorem scope_canonical: "ParseScope s = Inr x \<longleftrightarrow> scope_validate x = Inr () \<and> s = scope_String x"
  by (rule scopes.dec_Inr_iff)

text \<open>
  The sixteen bits of a set of permissions are a set of the nine: the bit operations of \<open>union\<close> and \<open>without\<close>,
  the construction \<open>SetOf\<close> and the listing \<open>Permissions\<close> are those of sets, and a name that is no permission is
  never in one.
\<close>

theorem permission_sets_are_sets:
  "perms (set_union s t) = perms s \<union> perms t \<and> perms (set_without s t) = perms s - perms t \<and>
   perms (SetOf ps) = set ps \<inter> set nine \<and> set (set_Permissions s) = perms s \<and> distinct (set_Permissions s) \<and>
   set_Has s p = (p \<in> perms s) \<and> perms s \<subseteq> {p. permission_Valid p}"
  using set_Permissions_perms perms_subset
  by (auto simp: perm_sets.elems_union perm_sets.elems_without perms_SetOf permission_Valid_iff) (auto simp: perms_def)

text \<open>
  A namespace's owner holds every permission there is, in the namespace and in each of its workflows, unless a
  deny that has not expired takes that very permission away.
\<close>

theorem owners_hold_everything:
  assumes "Owns p grants (sc_Namespace at) now" "now \<noteq> 0" "\<forall>g \<in> set grants. binds g = Inr ()"
    "permission_Valid what" "\<forall>g \<in> set grants. Takes g p what at \<longrightarrow> Expired g now"
  shows "Holds p grants what at now = Inr True"
proof -
  have "sc_Namespace at \<noteq> []" using assms(1) by (auto simp: Owns_def)
  then show ?thesis
    using Holds_answers[of now at grants p what] Owns_Gives[OF assms(1) refl _ assms(3), of what] assms
    by (auto simp: permission_Valid_iff)
qed

theorem owners_hold_everything_witness:
  "Holds ana sample_grants ''secret:write'' nightly 99 = Inr True"
proof (rule owners_hold_everything)
  show "Owns ana sample_grants (sc_Namespace nightly) 99" "\<forall>g \<in> set sample_grants. binds g = Inr ()"
    "permission_Valid ''secret:write''" by code_simp+
  show "\<forall>g \<in> set sample_grants. Takes g ana ''secret:write'' nightly \<longrightarrow> Expired g 99" by code_simp
qed simp

end
