(* ===== verification/Calendar.thy ===== *)
theory Calendar
  imports Golib
begin

text \<open>
  Dates and zones, as package \<open>time\<close> of Go has them. A date is a year, a month and a day of the proleptic Gregorian
  calendar, and a number, the days since 1 January of year 1; \<open>date_of\<close> and \<open>date_num\<close> are inverse. A location is the
  offset it starts with and its changes: from which second on which offset holds. \<open>lookup\<close> finds the zone in force,
  \<open>Date\<close> gives a wall clock reading its instant the way \<open>time.Date\<close> does, by trying the offset in force at the reading
  taken as UTC and, if that leaves its zone, the one in force where it lands.
\<close>

section \<open>Dates\<close>

definition year_start :: "int \<Rightarrow> int" where
  "year_start y = 365 * (y - 1) + (y - 1) div 4 - (y - 1) div 100 + (y - 1) div 400"

definition month_start :: "int \<Rightarrow> nat \<Rightarrow> int" where
  "month_start y m = sum_list (take (m - 1) (months y))"

record date =
  d_Year :: int
  d_Month :: nat
  d_Day :: nat

definition date_num :: "date \<Rightarrow> int" where
  "date_num d = year_start (d_Year d) + month_start (d_Year d) (d_Month d) + int (d_Day d) - 1"

definition date_of :: "int \<Rightarrow> date" where
  "date_of n = (let (y, yd) = year_day n; (m, d) = month_day (months y) 1 yd in \<lparr>d_Year = y, d_Month = nat m, d_Day = nat d\<rparr>)"

definition Weekday :: "int \<Rightarrow> nat" where
  "Weekday n = nat ((n + 1) mod 7)"

definition date_valid :: "date \<Rightarrow> bool" where
  "date_valid d = (1 \<le> d_Month d \<and> d_Month d \<le> 12 \<and> 1 \<le> d_Day d \<and> int (d_Day d) \<le> months (d_Year d) ! (d_Month d - 1))"

lemma year_start_cycles:
  assumes "0 \<le> b" "b \<le> 3" "0 \<le> c" "c \<le> 24" "0 \<le> e" "e \<le> 3"
  shows "year_start (400 * a + 100 * b + 4 * c + e + 1) = 146097 * a + 36524 * b + 1461 * c + 365 * e"
proof -
  have "(400 * a + 100 * b + 4 * c + e) div 4 = 100 * a + 25 * b + c"
    by (rule int_div_pos_eq[of _ _ _ e]) (use assms in \<open>simp_all add: algebra_simps\<close>)
  moreover have "(400 * a + 100 * b + 4 * c + e) div 100 = 4 * a + b"
    by (rule int_div_pos_eq[of _ _ _ "4 * c + e"]) (use assms in \<open>simp_all add: algebra_simps\<close>)
  moreover have "(400 * a + 100 * b + 4 * c + e) div 400 = a"
    by (rule int_div_pos_eq[of _ _ _ "100 * b + 4 * c + e"]) (use assms in \<open>simp_all add: algebra_simps\<close>)
  ultimately show ?thesis by (simp add: year_start_def)
qed

lemma div_pred: "0 < k \<Longrightarrow> y div k = (y - 1) div k + (if y mod k = 0 then 1 else 0)" for y k :: int
proof -
  assume k: "0 < k"
  show ?thesis
  proof (cases "y mod k = 0")
    case True
    then obtain q where "y = k * q" by blast
    moreover have "(k * q - 1) div k = q - 1"
      using k by (intro int_div_pos_eq[of _ _ _ "k - 1"]) (auto simp: algebra_simps)
    ultimately show ?thesis using k by simp
  next
    case False
    have "0 \<le> y mod k" "y mod k < k" "y = k * (y div k) + y mod k" using k by simp_all
    then have "(y - 1) div k = y div k" using False by (intro int_div_pos_eq[of _ _ _ "y mod k - 1"]) linarith+
    then show ?thesis using False by simp
  qed
qed

lemma year_start_Suc: "year_start (y + 1) = year_start y + (if leap y then 366 else 365)"
proof -
  have d: "y div 4 = (y - 1) div 4 + (if y mod 4 = 0 then 1 else 0)"
    "y div 100 = (y - 1) div 100 + (if y mod 100 = 0 then 1 else 0)"
    "y div 400 = (y - 1) div 400 + (if y mod 400 = 0 then 1 else 0)" by (rule div_pred; simp)+
  have m: "y mod 400 = 0 \<Longrightarrow> y mod 100 = 0" "y mod 100 = 0 \<Longrightarrow> y mod 4 = 0"
    using dvd_trans[of 100 400 y] dvd_trans[of 4 100 y] by (auto simp: dvd_eq_mod_eq_0)
  have "year_start (y + 1) = 365 * y + y div 4 - y div 100 + y div 400" by (simp add: year_start_def)
  also have "\<dots> = year_start y + (365 + (if y mod 4 = 0 then 1 else 0) - (if y mod 100 = 0 then 1 else 0) + (if y mod 400 = 0 then 1 else 0))"
    unfolding d year_start_def by simp
  also have "365 + (if y mod 4 = 0 then 1 else 0) - (if y mod 100 = 0 then 1 else 0) + (if y mod 400 = 0 then 1 else 0) =
      (if leap y then 366 else (365 :: int))"
    using m unfolding leap_def by (cases "y mod 4 = 0"; cases "y mod 100 = 0"; cases "y mod 400 = 0") simp_all
  finally show ?thesis .
qed

lemma year_start_mono: "y \<le> z \<Longrightarrow> year_start y \<le> year_start z"
proof -
  have "year_start y + 365 * int k \<le> year_start (y + int k)" for k
  proof (induction k)
    case (Suc k)
    have "y + int (Suc k) = y + int k + 1" by simp
    then have "year_start (y + int (Suc k)) = year_start (y + int k) + (if leap (y + int k) then 366 else 365)"
      using year_start_Suc[of "y + int k"] by (simp only:)
    with Suc show ?case by simp
  qed simp
  from this[of "nat (z - y)"] show "y \<le> z \<Longrightarrow> year_start y \<le> year_start z" by simp
qed

lemma year_start_unique:
  assumes "year_start y \<le> n" "n < year_start (y + 1)" "year_start z \<le> n" "n < year_start (z + 1)"
  shows "y = z"
proof (rule ccontr)
  assume "y \<noteq> z"
  then have "y + 1 \<le> z \<or> z + 1 \<le> y" by linarith
  then show False using year_start_mono[of "y + 1" z] year_start_mono[of "z + 1" y] assms by auto
qed

text \<open>Taking at most \<open>k\<close> whole parts of a stretch that is at most one longer than \<open>k + 1\<close> of them.\<close>

lemma capped_div:
  fixes r p k :: int
  assumes "0 \<le> r" "r < (k + 1) * p + 1" "0 < p" "0 \<le> k"
  shows "0 \<le> min k (r div p)" "0 \<le> r - min k (r div p) * p" "r - min k (r div p) * p \<le> p"
    "min k (r div p) < k \<Longrightarrow> r - min k (r div p) * p < p"
proof -
  have q: "r = p * (r div p) + r mod p" "0 \<le> r mod p" "r mod p < p" "0 \<le> r div p"
    using assms by (simp_all add: pos_imp_zdiv_nonneg_iff)
  then show "0 \<le> min k (r div p)" using assms(4) by simp
  have part: "0 \<le> r - min k (r div p) * p \<and> r - min k (r div p) * p \<le> p \<and> (min k (r div p) < k \<longrightarrow> r - min k (r div p) * p < p)"
  proof (cases "r div p \<le> k")
    case True
    then have "min k (r div p) = r div p" by simp
    moreover have "r - r div p * p = r mod p" by (simp add: minus_div_mult_eq_mod)
    ultimately show ?thesis using q(2,3) by simp
  next
    case False
    then have "p * (k + 1) \<le> p * (r div p)" using assms(3) by (intro mult_left_mono) auto
    then have "p * (k + 1) \<le> r" using q(1,2) by linarith
    moreover have "min k (r div p) = k" using False by simp
    ultimately show ?thesis using assms by (simp add: algebra_simps)
  qed
  then show "0 \<le> r - min k (r div p) * p" "r - min k (r div p) * p \<le> p"
    "min k (r div p) < k \<Longrightarrow> r - min k (r div p) * p < p" by simp_all
qed

lemma year_day_spec:
  assumes "year_day n = (y, yd)"
  shows "n = year_start y + yd" "0 \<le> yd" "yd < (if leap y then 366 else 365)"
proof -
  define a where "a = n div 146097"
  define r where "r = n mod 146097"
  define b where "b = min 3 (r div 36524)"
  define r1 where "r1 = r - b * 36524"
  define c where "c = r1 div 1461"
  define r2 where "r2 = r1 mod 1461"
  define e where "e = min 3 (r2 div 365)"
  have y: "y = 400 * a + 100 * b + 4 * c + e + 1" and yd: "yd = r2 - e * 365"
    using assms unfolding year_day_def Let_def
    unfolding a_def[symmetric] r_def[symmetric] unfolding b_def[symmetric] unfolding r1_def[symmetric]
    unfolding c_def[symmetric] r2_def[symmetric] unfolding e_def[symmetric] by (simp_all only: prod.inject)
  have r: "0 \<le> r" "r < 146097" "n = 146097 * a + r" by (simp_all add: r_def a_def)
  have b: "0 \<le> b" "b \<le> 3" and r1: "0 \<le> r1" "r1 \<le> 36524" "b < 3 \<Longrightarrow> r1 < 36524"
    using capped_div[of r 3 36524] r(1,2) by (simp_all add: b_def r1_def)
  have r2: "0 \<le> r2" "r2 < 1461" "r1 = 1461 * c + r2" by (simp_all add: r2_def c_def)
  have c: "0 \<le> c" "c \<le> 24" using r1(1,2) r2 by linarith+
  have e: "0 \<le> e" "e \<le> 3" and d: "0 \<le> yd" "yd \<le> 365" "e < 3 \<Longrightarrow> yd < 365"
    using capped_div[of r2 3 365] r2(1,2) by (simp_all add: e_def yd)
  have ys: "year_start y = 146097 * a + 36524 * b + 1461 * c + 365 * e"
    unfolding y by (rule year_start_cycles[OF b c e])
  show "n = year_start y + yd" using r(3) r2(3) ys by (simp add: yd r1_def)
  show "0 \<le> yd" by (rule d(1))
  have "leap y" if "yd = 365"
  proof -
    have "\<not> e < 3" using d(3) that by auto
    then have e3: "e = 3" using e(2) by simp
    then have e3': "r2 = 1460" using yd that by simp
    have bc: "c = 24 \<longrightarrow> b = 3" using r1(3) r2(3) e3' b(2) by (cases "b < 3") auto
    have y4: "y = 400 * a + 100 * b + 4 * c + 4" using y e3 by simp
    show ?thesis
    proof (cases "c = 24")
      case True
      then have "y = 400 * (a + 1)" using y4 bc by simp
      moreover have "400 * (a + 1) mod 4 = 0" by (rule int_mod_pos_eq[of _ _ "100 * (a + 1)"]) simp_all
      ultimately show ?thesis by (simp add: leap_def)
    next
      case False
      have "y mod 4 = 0" by (rule int_mod_pos_eq[of _ _ "100 * a + 25 * b + c + 1"]) (use y4 in simp_all)
      moreover have "y mod 100 = 4 * c + 4" by (rule int_mod_pos_eq[of _ _ "4 * a + b"]) (use y4 c False in simp_all)
      ultimately show ?thesis using c(1) by (simp add: leap_def)
    qed
  qed
  then show "yd < (if leap y then 366 else 365)" using d(2) by fastforce
qed

lemma year_day_eq: "year_start y \<le> n \<Longrightarrow> n < year_start (y + 1) \<Longrightarrow> year_day n = (y, n - year_start y)"
proof -
  assume n: "year_start y \<le> n" "n < year_start (y + 1)"
  obtain z zd where z: "year_day n = (z, zd)" by fastforce
  have "y = z" using year_day_spec[OF z] n year_start_Suc[of z] by (intro year_start_unique[of y n z]) auto
  with year_day_spec[OF z] show ?thesis using z by simp
qed

lemma month_day_spec:
  assumes "0 \<le> yd" "yd < sum_list ms" "\<forall>n \<in> set ms. 0 \<le> n" "month_day ms m yd = (m', d)"
  shows "m \<le> m' \<and> nat (m' - m) < length ms \<and> 1 \<le> d \<and> d \<le> ms ! nat (m' - m) \<and> yd = sum_list (take (nat (m' - m)) ms) + d - 1"
  using assms
proof (induction ms m yd rule: month_day.induct)
  case (2 n ns m yd)
  show ?case
  proof (cases "yd < n")
    case False
    then have *: "m + 1 \<le> m' \<and> nat (m' - (m + 1)) < length ns \<and> 1 \<le> d \<and> d \<le> ns ! nat (m' - (m + 1)) \<and>
        yd - n = sum_list (take (nat (m' - (m + 1))) ns) + d - 1"
      using "2.IH" "2.prems" by auto
    then have "nat (m' - m) = Suc (nat (m' - (m + 1)))" by linarith
    with * show ?thesis by auto
  qed (use "2.prems" in auto)
qed auto

lemma sum_months: "sum_list (months y) = (if leap y then 366 else 365)"
  by (simp add: months_def)

lemma months_pos: "\<forall>n \<in> set (months y). 0 \<le> n"
  by (auto simp: months_def)

lemma length_months [simp]: "length (months y) = 12"
  by (simp add: months_def)

lemma date_of_spec: "date_num (date_of n) = n" "date_valid (date_of n)" "year_start (d_Year (date_of n)) \<le> n"
  "n < year_start (d_Year (date_of n) + 1)"
proof -
  obtain y yd where y: "year_day n = (y, yd)" by fastforce
  obtain m d where m: "month_day (months y) 1 yd = (m, d)" by fastforce
  note ys = year_day_spec[OF y]
  have ms: "1 \<le> m" "nat (m - 1) < 12" "1 \<le> d" "d \<le> months y ! nat (m - 1)" "yd = sum_list (take (nat (m - 1)) (months y)) + d - 1"
    using month_day_spec[OF ys(2) _ months_pos m] ys(3) by (auto simp: sum_months)
  have date: "date_of n = \<lparr>d_Year = y, d_Month = nat m, d_Day = nat d\<rparr>" by (simp add: date_of_def y m)
  have "nat (m - 1) = nat m - 1" by (simp add: nat_diff_distrib)
  then show "date_num (date_of n) = n" "date_valid (date_of n)"
    unfolding date date_num_def month_start_def date_valid_def using ms ys by (simp_all, linarith)
  show "year_start (d_Year (date_of n)) \<le> n" "n < year_start (d_Year (date_of n) + 1)"
    unfolding date using ys year_start_Suc[of y] by simp_all
qed

lemma year_in_range:
  assumes "year_start a \<le> n" "n < year_start b"
  shows "a \<le> d_Year (date_of n)" "d_Year (date_of n) < b"
proof -
  show "a \<le> d_Year (date_of n)"
  proof (rule ccontr)
    assume "\<not> a \<le> d_Year (date_of n)"
    then have "year_start (d_Year (date_of n) + 1) \<le> year_start a" by (intro year_start_mono) simp
    then show False using assms(1) date_of_spec(4)[of n] by simp
  qed
  show "d_Year (date_of n) < b"
  proof (rule ccontr)
    assume "\<not> d_Year (date_of n) < b"
    then have "year_start b \<le> year_start (d_Year (date_of n))" by (intro year_start_mono) simp
    then show False using assms(2) date_of_spec(3)[of n] by simp
  qed
qed

lemma month_day_at:
  assumes "k < length ms" "1 \<le> d" "d \<le> ms ! k" "\<forall>n \<in> set ms. 0 \<le> n"
  shows "month_day ms m (sum_list (take k ms) + d - 1) = (m + int k, d)"
  using assms
proof (induction ms arbitrary: k m)
  case (Cons n ns)
  show ?case
  proof (cases k)
    case (Suc j)
    have "0 \<le> sum_list (take j ns)" using Cons.prems(4) by (intro sum_list_nonneg) (auto dest: in_set_takeD)
    moreover have "sum_list (take k (n # ns)) + d - 1 - n = sum_list (take j ns) + d - 1" by (simp add: Suc)
    ultimately show ?thesis using Cons.IH[of j "m + 1"] Cons.prems Suc by (simp add: algebra_simps)
  qed (use Cons.prems in auto)
qed simp

lemma month_start_bounds:
  assumes "date_valid d"
  shows "0 \<le> month_start (d_Year d) (d_Month d)"
    "month_start (d_Year d) (d_Month d) + int (d_Day d) \<le> sum_list (months (d_Year d))"
proof -
  let ?ms = "months (d_Year d)" and ?k = "d_Month d - 1"
  show "0 \<le> month_start (d_Year d) (d_Month d)"
    unfolding month_start_def using months_pos by (intro sum_list_nonneg) (auto dest: in_set_takeD)
  have k: "?k < length ?ms" using assms by (auto simp: date_valid_def)
  have "sum_list ?ms = sum_list (take ?k ?ms) + sum_list (drop ?k ?ms)" by (metis append_take_drop_id sum_list.append)
  moreover have "drop ?k ?ms = ?ms ! ?k # drop (Suc ?k) ?ms" using k by (simp add: Cons_nth_drop_Suc)
  moreover have "0 \<le> sum_list (drop (Suc ?k) ?ms)" using months_pos by (intro sum_list_nonneg) (auto dest: in_set_dropD)
  ultimately show "month_start (d_Year d) (d_Month d) + int (d_Day d) \<le> sum_list ?ms"
    using assms by (simp add: month_start_def date_valid_def)
qed

lemma date_of_num:
  assumes "date_valid d"
  shows "date_of (date_num d) = d"
proof -
  let ?y = "d_Year d" and ?yd = "month_start (d_Year d) (d_Month d) + int (d_Day d) - 1"
  note b = month_start_bounds[OF assms]
  have "year_day (date_num d) = (?y, ?yd)"
    using year_day_eq[of ?y "date_num d"] b assms year_start_Suc[of ?y] by (auto simp: date_num_def sum_months date_valid_def)
  moreover have "month_day (months ?y) 1 ?yd = (1 + int (d_Month d - 1), int (d_Day d))"
    unfolding month_start_def by (rule month_day_at) (use assms months_pos in \<open>auto simp: date_valid_def\<close>)
  ultimately show ?thesis using assms by (simp add: date_of_def date_valid_def)
qed

section \<open>Locations\<close>

record location =
  l_first :: int
  l_changes :: "(int \<times> int) list"

definition UTC :: location where "UTC = \<lparr>l_first = 0, l_changes = []\<rparr>"

text \<open>The offset in force at a second, where its zone starts and where it ends; \<open>None\<close> is the beginning and the end of time.\<close>

fun zone_from :: "int option \<Rightarrow> int \<Rightarrow> (int \<times> int) list \<Rightarrow> int \<Rightarrow> int \<times> int option \<times> int option" where
  "zone_from start off [] s = (off, start, None)"
| "zone_from start off ((at, new) # rest) s = (if s < at then (off, start, Some at) else zone_from (Some at) new rest s)"

definition zone_at :: "location \<Rightarrow> int \<Rightarrow> int \<times> int option \<times> int option" where
  "zone_at loc s = zone_from None (l_first loc) (l_changes loc) s"

definition offset_at :: "location \<Rightarrow> int \<Rightarrow> int" where
  "offset_at loc s = fst (zone_at loc s)"

definition in_bounds :: "int option \<Rightarrow> int option \<Rightarrow> int \<Rightarrow> bool" where
  "in_bounds a b s = ((case a of None \<Rightarrow> True | Some x \<Rightarrow> x \<le> s) \<and> (case b of None \<Rightarrow> True | Some y \<Rightarrow> s < y))"

definition in_zone :: "location \<Rightarrow> int \<Rightarrow> int" where
  "in_zone loc u =
     (let (off, start, end) = zone_at loc u in
      if off = 0 then u
      else let utc = u - off in
           if \<not> in_bounds start end utc then u - offset_at loc utc else utc)"

definition nanos :: int where "nanos = 1000000000"

definition reading :: "int \<Rightarrow> nat \<Rightarrow> nat \<Rightarrow> nat \<Rightarrow> nat \<Rightarrow> int" where
  "reading year month day hour minute =
     86400 * date_num \<lparr>d_Year = year, d_Month = month, d_Day = day\<rparr> + 3600 * int hour + 60 * int minute"

definition Date :: "int \<Rightarrow> nat \<Rightarrow> nat \<Rightarrow> nat \<Rightarrow> nat \<Rightarrow> location \<Rightarrow> time" where
  "Date year month day hour minute loc = in_zone loc (reading year month day hour minute) * nanos"

definition Zone_offset :: "location \<Rightarrow> time \<Rightarrow> int" where
  "Zone_offset loc t = offset_at loc (t div nanos)"

definition ZoneBounds :: "location \<Rightarrow> time \<Rightarrow> time \<times> time" where
  "ZoneBounds loc t =
     (let (off, start, end) = zone_at loc (t div nanos) in
      (case start of None \<Rightarrow> zero_time | Some s \<Rightarrow> s * nanos, case end of None \<Rightarrow> zero_time | Some e \<Rightarrow> e * nanos))"

text \<open>
  A location is \<open>regular\<close> when its offsets are at most a day, as every offset there has been is, its changes
  come more than two days apart, and the first of them comes after the zero time.
\<close>

fun spaced :: "int \<Rightarrow> (int \<times> int) list \<Rightarrow> bool" where
  "spaced prev [] = True"
| "spaced prev ((at, new) # rest) = (prev + 172800 < at \<and> \<bar>new\<bar> \<le> 86400 \<and> spaced at rest)"

definition regular :: "location \<Rightarrow> bool" where
  "regular loc = (\<bar>l_first loc\<bar> \<le> 86400 \<and> spaced 0 (l_changes loc))"

section \<open>Zones of a regular location\<close>

lemma zone_from_bounds: "zone_from start off cs s = (o', a, b) \<Longrightarrow> in_bounds start None s \<Longrightarrow> in_bounds a b s"
  by (induction start off cs s rule: zone_from.induct) (auto simp: in_bounds_def split: if_splits)

lemma zone_from_start:
  "zone_from (Some w) off cs s = (o', a, b) \<Longrightarrow> spaced w cs \<Longrightarrow> w \<le> s \<Longrightarrow> \<exists>x. a = Some x \<and> w \<le> x"
  by (induction cs arbitrary: w off) (fastforce split: if_splits)+

lemma zone_from_offset:
  "zone_from start off cs s = (o', a, b) \<Longrightarrow> spaced w cs \<Longrightarrow> \<bar>off\<bar> \<le> 86400 \<Longrightarrow> \<bar>o'\<bar> \<le> 86400"
  by (induction start off cs s arbitrary: w rule: zone_from.induct) (auto split: if_splits)

lemma zone_from_same:
  "zone_from start off cs s = (o', a, b) \<Longrightarrow> spaced w cs \<Longrightarrow> in_bounds a b s' \<Longrightarrow> zone_from start off cs s' = (o', a, b)"
proof (induction cs arbitrary: start off w)
  case (Cons c cs)
  obtain at new where c: "c = (at, new)" by fastforce
  show ?case
  proof (cases "s < at")
    case False
    then have rest: "zone_from (Some at) new cs s = (o', a, b)" "spaced at cs" using Cons.prems c by auto
    then obtain x where "a = Some x" "at \<le> x" using zone_from_start False by fastforce
    then have "at \<le> s'" using Cons.prems(3) by (simp add: in_bounds_def)
    then show ?thesis using Cons.IH[OF rest Cons.prems(3)] c by simp
  qed (use Cons.prems c in \<open>auto simp: in_bounds_def\<close>)
qed simp

lemma zone_from_before:
  assumes "zone_from start off cs s = (o', Some x, b)" "spaced w cs" "start \<noteq> Some x" "start = None \<or> start = Some w"
  shows "w + 172800 < x \<and> (\<exists>p a. zone_from start off cs (x - 1) = (p, a, Some x) \<and> (\<forall>y. a = Some y \<longrightarrow> y + 172800 < x))"
  using assms
proof (induction cs arbitrary: start off w)
  case (Cons c cs)
  obtain at new where c: "c = (at, new)" by fastforce
  have at: "w + 172800 < at" "spaced at cs" using Cons.prems c by auto
  have nlt: "\<not> s < at" and rest: "zone_from (Some at) new cs s = (o', Some x, b)" using Cons.prems c by (auto split: if_splits)
  show ?case
  proof (cases "x = at")
    case True
    then show ?thesis using at Cons.prems c by auto
  next
    case False
    then have "at + 172800 < x \<and> (\<exists>p a. zone_from (Some at) new cs (x - 1) = (p, a, Some x) \<and> (\<forall>y. a = Some y \<longrightarrow> y + 172800 < x))"
      using Cons.IH[OF rest at(2)] by simp
    then show ?thesis using c at(1) by auto
  qed
qed simp

lemma zone_from_after:
  assumes "zone_from start off cs s = (o', a, Some y)" "spaced w cs"
  shows "\<exists>p b. zone_from start off cs y = (p, Some y, b) \<and> (\<forall>z. b = Some z \<longrightarrow> y + 172800 < z)"
  using assms
proof (induction cs arbitrary: start off w)
  case (Cons c cs)
  obtain at new where c: "c = (at, new)" by fastforce
  show ?case
  proof (cases "s < at")
    case True
    then have "y = at" using Cons.prems c by simp
    then show ?thesis using Cons.prems c by (cases cs) auto
  next
    case False
    then have rest: "zone_from (Some at) new cs s = (o', a, Some y)" "spaced at cs" using Cons.prems c by auto
    have "at \<le> y" using zone_from_bounds[OF rest(1)] False by (simp add: in_bounds_def)
    then show ?thesis using Cons.IH[OF rest] c by auto
  qed
qed simp

lemma offset_bound: "regular loc \<Longrightarrow> \<bar>offset_at loc s\<bar> \<le> 86400"
  using zone_from_offset[of None "l_first loc" "l_changes loc" s _ _ _ 0]
  by (cases "zone_at loc s") (auto simp: offset_at_def zone_at_def regular_def)

lemma zone_bounds: "zone_at loc s = (off, a, b) \<Longrightarrow> in_bounds a b s"
  using zone_from_bounds[of None] by (simp add: zone_at_def in_bounds_def)

lemma zone_same: "regular loc \<Longrightarrow> zone_at loc s = (off, a, b) \<Longrightarrow> in_bounds a b s' \<Longrightarrow> zone_at loc s' = (off, a, b)"
  using zone_from_same[of None "l_first loc" "l_changes loc" s off a b 0 s'] by (simp add: zone_at_def regular_def)

lemma zone_before:
  assumes reg: "regular loc" and zone: "zone_at loc s = (off, Some x, b)"
  obtains p a where "0 < x" "\<And>s'. x - 172800 \<le> s' \<Longrightarrow> s' < x \<Longrightarrow> zone_at loc s' = (p, a, Some x)"
proof -
  obtain p a where *: "172800 < x" "zone_at loc (x - 1) = (p, a, Some x)" "\<forall>y. a = Some y \<longrightarrow> y + 172800 < x"
    using zone_from_before[of None "l_first loc" "l_changes loc" s off x b 0] zone reg by (auto simp: zone_at_def regular_def)
  have "zone_at loc s' = (p, a, Some x)" if "x - 172800 \<le> s'" "s' < x" for s'
    by (rule zone_same[OF reg *(2)]) (use that *(3) in \<open>auto simp: in_bounds_def split: option.splits\<close>)
  with that *(1) show thesis by auto
qed

lemma zone_after:
  assumes reg: "regular loc" and zone: "zone_at loc s = (off, a, Some y)"
  obtains p b where "\<And>s'. y \<le> s' \<Longrightarrow> s' \<le> y + 172800 \<Longrightarrow> zone_at loc s' = (p, Some y, b)"
proof -
  obtain p b where *: "zone_at loc y = (p, Some y, b)" "\<forall>z. b = Some z \<longrightarrow> y + 172800 < z"
    using zone_from_after[of None "l_first loc" "l_changes loc" s off a y 0] zone reg by (auto simp: zone_at_def regular_def)
  have "zone_at loc s' = (p, Some y, b)" if "y \<le> s'" "s' \<le> y + 172800" for s'
    by (rule zone_same[OF reg *(1)]) (use that *(2) in \<open>auto simp: in_bounds_def split: option.splits\<close>)
  with that show thesis by auto
qed

end
