(* ===== verification/Cron.thy ===== *)
theory Cron
  imports Calendar "HOL-Library.Word"
begin

text \<open>
  Package \<open>internal/cron\<close>: the five-field expression of a schedule, read into one set of values per field, and the next
  instant it names in a zone. The set of a field is the sixty-four bits the code keeps. The time zone database is the
  argument \<open>load\<close> of \<open>Zone\<close>; a location itself is what the theory \<open>Calendar\<close> says one is.
\<close>

unbundle bit_operations_syntax

section \<open>The fields\<close>

record field =
  f_name :: string
  f_min :: nat
  f_max :: nat
  f_names :: "string list option"

definition cron_fields :: "field list" where
  "cron_fields =
     [\<lparr>f_name = ''minute'', f_min = 0, f_max = 59, f_names = None\<rparr>,
      \<lparr>f_name = ''hour'', f_min = 0, f_max = 23, f_names = None\<rparr>,
      \<lparr>f_name = ''day of the month'', f_min = 1, f_max = 31, f_names = None\<rparr>,
      \<lparr>f_name = ''month'', f_min = 1, f_max = 12,
        f_names = Some [[], ''JAN'', ''FEB'', ''MAR'', ''APR'', ''MAY'', ''JUN'', ''JUL'', ''AUG'', ''SEP'', ''OCT'', ''NOV'', ''DEC'']\<rparr>,
      \<lparr>f_name = ''day of the week'', f_min = 0, f_max = 7,
        f_names = Some [''SUN'', ''MON'', ''TUE'', ''WED'', ''THU'', ''FRI'', ''SAT'']\<rparr>]"

datatype cron_error =
    NotFiveFields string nat
  | EmptyValue string
  | NotANumber string string
  | NeitherNumberNorName string string "string list"
  | OutsideField string int nat nat
  | RunsBackwards string string
  | SteppedValue string string string nat
  | NotAStep string string nat
  | NoDayComes string
  | LocalZone
  | UnknownZone string

definition nonEmpty :: "string list \<Rightarrow> string list" where
  "nonEmpty names = filter (\<lambda>n. n \<noteq> []) names"

definition field_named :: "field \<Rightarrow> string \<Rightarrow> nat option" where
  "field_named f txt =
     (case f_names f of
        None \<Rightarrow> None
      | Some names \<Rightarrow> find (\<lambda>i. names ! i \<noteq> [] \<and> equal_fold txt (names ! i)) [0..<length names])"

definition field_value :: "field \<Rightarrow> string \<Rightarrow> (cron_error, nat) result" where
  "field_value f txt =
     (if txt = [] then Inl (EmptyValue (f_name f))
      else case field_named f txt of
             Some i \<Rightarrow> Inr i
           | None \<Rightarrow>
               (case atoi txt of
                  None \<Rightarrow>
                    (case f_names f of
                       Some names \<Rightarrow> Inl (NeitherNumberNorName (f_name f) txt (nonEmpty names))
                     | None \<Rightarrow> Inl (NotANumber (f_name f) txt))
                | Some v \<Rightarrow>
                    if v < int (f_min f) \<or> v > int (f_max f) then Inl (OutsideField (f_name f) v (f_min f) (f_max f))
                    else Inr (nat v)))"

definition field_range :: "field \<Rightarrow> string \<Rightarrow> string \<Rightarrow> string option \<Rightarrow> (cron_error, nat \<times> nat) result" where
  "field_range f item body stepText =
     (if body = ''*'' then Inr (f_min f, f_max f)
      else case cut_at (CHR ''-'') body of
             Some (a, b) \<Rightarrow>
               rbind (field_value f a) (\<lambda>lo.
               rbind (field_value f b) (\<lambda>hi.
               if lo > hi then Inl (RunsBackwards (f_name f) body) else Inr (lo, hi)))
           | None \<Rightarrow>
               (case stepText of
                  Some step \<Rightarrow> Inl (SteppedValue (f_name f) item step (f_max f))
                | None \<Rightarrow> rbind (field_value f body) (\<lambda>v. Inr (v, v))))"

definition field_step :: "field \<Rightarrow> string option \<Rightarrow> (cron_error, nat) result" where
  "field_step f stepText =
     (case stepText of
        None \<Rightarrow> Inr 1
      | Some step \<Rightarrow>
          (let width = f_max f - f_min f + 1 in
           case atoi step of
             None \<Rightarrow> Inl (NotAStep (f_name f) step width)
           | Some n \<Rightarrow> if n < 1 \<or> n > int width then Inl (NotAStep (f_name f) step width) else Inr (nat n)))"

function stepped :: "nat \<Rightarrow> nat \<Rightarrow> nat \<Rightarrow> nat list" where
  "stepped v hi step = (if v \<le> hi \<and> 0 < step then v # stepped (v + step) hi step else [])"
  by pat_completeness auto
termination
  by (relation "measure (\<lambda>(v, hi, step). Suc hi - v)") auto

declare stepped.simps [simp del]

definition set_of :: "nat list \<Rightarrow> 64 word" where
  "set_of vs = foldl (\<lambda>set v. set OR push_bit v 1) 0 vs"

definition field_item :: "field \<Rightarrow> string \<Rightarrow> (cron_error, 64 word) result" where
  "field_item f item =
     (let (body, stepText) = (case cut_at (CHR ''/'') item of None \<Rightarrow> (item, None) | Some (a, b) \<Rightarrow> (a, Some b)) in
      rbind (field_range f item body stepText) (\<lambda>(lo, hi).
      rbind (field_step f stepText) (\<lambda>step.
      Inr (set_of (stepped lo hi step)))))"

definition field_parse :: "field \<Rightarrow> string \<Rightarrow> (cron_error, 64 word) result" where
  "field_parse f txt = rfold (\<lambda>item set. rbind (field_item f item) (\<lambda>bits. Inr (set OR bits))) (split_on (CHR '','') txt) 0"

section \<open>Schedules\<close>

record schedule =
  s_minute :: "64 word"
  s_hour :: "64 word"
  s_dom :: "64 word"
  s_month :: "64 word"
  s_dow :: "64 word"
  domStar :: bool
  dowStar :: bool
  s_text :: string

definition longestMonth :: "nat list" where
  "longestMonth = [0, 31, 29, 31, 30, 31, 30, 31, 31, 30, 31, 30, 31]"

definition somedayExists :: "schedule \<Rightarrow> (cron_error, unit) result" where
  "somedayExists s =
     (if \<not> (domStar s \<or> dowStar s) then Inr ()
      else if \<not> dowStar s then Inr ()
      else if list_ex (\<lambda>m. s_month s AND push_bit m 1 \<noteq> 0 \<and> s_dom s AND (push_bit (longestMonth ! m + 1) 1 - 2) \<noteq> 0) [1..<13] then Inr ()
      else Inl (NoDayComes (s_text s)))"

definition one_sunday :: "64 word \<Rightarrow> 64 word" where
  "one_sunday dow = (if dow AND push_bit 7 1 \<noteq> 0 then dow AND NOT (push_bit 7 1) OR 1 else dow)"

definition Parse :: "string \<Rightarrow> (cron_error, schedule) result" where
  "Parse expr =
     (let parts = Fields expr in
      if length parts \<noteq> 5 then Inl (NotFiveFields expr (length parts))
      else rbind (rall (\<lambda>(f, part). field_parse f part) (zip cron_fields parts)) (\<lambda>sets.
           let s = \<lparr>s_minute = sets ! 0, s_hour = sets ! 1, s_dom = sets ! 2, s_month = sets ! 3, s_dow = one_sunday (sets ! 4),
                    domStar = (cut_prefix (parts ! 2) ''*'' \<noteq> None), dowStar = (cut_prefix (parts ! 4) ''*'' \<noteq> None), s_text = expr\<rparr> in
           rbind (somedayExists s) (\<lambda>_. Inr s)))"

section \<open>The next occurrence\<close>

definition dayMatches :: "schedule \<Rightarrow> int \<Rightarrow> bool" where
  "dayMatches s n =
     (let dom = (s_dom s AND push_bit (d_Day (date_of n)) 1 \<noteq> 0);
          dow = (s_dow s AND push_bit (Weekday n) 1 \<noteq> 0) in
      if domStar s \<or> dowStar s then dom \<and> dow else dom \<or> dow)"

definition wall :: "location \<Rightarrow> time \<Rightarrow> time" where
  "wall loc t = t + Zone_offset loc t * nanos"

definition Resolve :: "int \<Rightarrow> nat \<Rightarrow> nat \<Rightarrow> nat \<Rightarrow> nat \<Rightarrow> location \<Rightarrow> time" where
  "Resolve year month day hour minute loc =
     (let t = Date year month day hour minute loc;
          want = Date year month day hour minute UTC;
          got = wall loc t in
      if got = want then
        (let start = fst (ZoneBounds loc t) in
         if start = zero_time then t
         else let prior = Zone_offset loc (start - 1); now = Zone_offset loc t in
              if prior > now then
                (let earlier = t - (prior - now) * nanos in
                 if earlier < start \<and> wall loc earlier = want then earlier else t)
              else t)
      else if got > want then fst (ZoneBounds loc t)
      else snd (ZoneBounds loc t))"

definition trailing_zeros :: "64 word \<Rightarrow> nat" where
  "trailing_zeros w = length (takeWhile (\<lambda>i. w AND push_bit i 1 = 0) [0..<64])"

definition hours_of :: "schedule \<Rightarrow> nat list" where
  "hours_of s = filter (\<lambda>h. s_hour s AND push_bit h 1 \<noteq> 0) [trailing_zeros (s_hour s)..<24]"

definition minutes_of :: "schedule \<Rightarrow> nat list" where
  "minutes_of s = filter (\<lambda>m. s_minute s AND push_bit m 1 \<noteq> 0) [trailing_zeros (s_minute s)..<60]"

definition next_on :: "schedule \<Rightarrow> time \<Rightarrow> location \<Rightarrow> date \<Rightarrow> time option" where
  "next_on s after loc d =
     find (\<lambda>at. after < at)
       (concat (map (\<lambda>h. map (\<lambda>m. Resolve (d_Year d) (d_Month d) (d_Day d) h m loc) (minutes_of s)) (hours_of s)))"

definition horizon :: int where "horizon = 29 * 366"

function next_from :: "schedule \<Rightarrow> time \<Rightarrow> location \<Rightarrow> int \<Rightarrow> int \<Rightarrow> time option" where
  "next_from s after loc day i =
     (if \<not> i < horizon then None
      else let d = date_of (day + i) in
           if s_month s AND push_bit (d_Month d) 1 = 0 \<or> \<not> dayMatches s (day + i) then next_from s after loc day (i + 1)
           else case next_on s after loc d of
                  Some at \<Rightarrow> Some at
                | None \<Rightarrow> next_from s after loc day (i + 1))"
  by pat_completeness auto
termination
  by (relation "measure (\<lambda>(s, after, loc, day, i). nat (horizon - i))") auto

declare next_from.simps [simp del]

definition Next :: "schedule \<Rightarrow> time \<Rightarrow> location \<Rightarrow> time" where
  "Next s after loc =
     (let day = wall loc after div (86400 * nanos) in
      case next_from s after loc day 0 of None \<Rightarrow> zero_time | Some at \<Rightarrow> at)"

definition Zone :: "(string \<Rightarrow> location option) \<Rightarrow> string \<Rightarrow> (cron_error, location) result" where
  "Zone load name =
     (if name = [] then Inr UTC
      else if name = ''Local'' then Inl LocalZone
      else case load name of None \<Rightarrow> Inl (UnknownZone name) | Some loc \<Rightarrow> Inr loc)"

end
