(* ===== verification/Schedules.thy ===== *)
theory Schedules
  imports Cron
begin

text \<open>
  What \<open>internal/cron\<close> promises. A field is read into the values its text names and no others, so an accepted schedule
  names at least one minute, hour, day, month and weekday, each in range. \<open>Resolve\<close> is the first instant at which a
  clock in the zone shows the wanted time or a later one, and is therefore monotone; \<open>Next\<close> then finds the least
  instant after the given one at which the schedule occurs. The last part is about the horizon \<open>Next\<close> gives up at:
  far enough for every schedule in which not both day fields pick days, and not far enough for all of them.
\<close>

unbundle bit_operations_syntax

section \<open>Fields\<close>

lemma has_bit: "w AND push_bit n 1 \<noteq> 0 \<longleftrightarrow> bit w n" for w :: "64 word"
  by (simp add: and_exp_eq_0_iff_not_bit)

lemma bit_set_of: "bit (set_of vs) n \<longleftrightarrow> n < 64 \<and> n \<in> set vs"
proof -
  have "bit (foldl (\<lambda>set v. set OR push_bit v 1) w vs) n \<longleftrightarrow> bit w n \<or> (n < 64 \<and> n \<in> set vs)" for w :: "64 word"
    by (induction vs arbitrary: w) (auto simp: bit_or_iff bit_exp_iff)
  then show ?thesis by (simp add: set_of_def)
qed

lemma set_stepped: "0 < step \<Longrightarrow> set (stepped lo hi step) = {v. lo \<le> v \<and> v \<le> hi \<and> step dvd (v - lo)}"
proof (induction lo hi step rule: stepped.induct)
  case (1 lo hi step)
  show ?case
  proof (cases "lo \<le> hi")
    case True
    have "v = lo \<or> (lo + step \<le> v \<and> step dvd (v - (lo + step)))" if v: "lo \<le> v" "step dvd (v - lo)" for v
    proof -
      obtain k where k: "v - lo = step * k" using v(2) by blast
      then show ?thesis
      proof (cases k)
        case (Suc j)
        then have "v = lo + step + step * j" using k v(1) by simp
        then show ?thesis by simp
      qed (use k v in simp)
    qed
    moreover have "step dvd (v - lo)" if v: "lo + step \<le> v" "step dvd (v - (lo + step))" for v
      using dvd_add[OF v(2) dvd_refl] v(1) by simp
    ultimately show ?thesis using True 1 by (subst stepped.simps) auto
  next
    case False
    then show ?thesis by (subst stepped.simps) auto
  qed
qed

definition field_ok :: "field \<Rightarrow> bool" where
  "field_ok f = (f_min f \<le> f_max f \<and> f_max f < 64 \<and>
     (case f_names f of None \<Rightarrow> True | Some names \<Rightarrow> list_all (\<lambda>i. names ! i \<noteq> [] \<longrightarrow> f_min f \<le> i \<and> i \<le> f_max f) [0..<length names]))"

lemma cron_fields_ok: "list_all field_ok cron_fields"
  by code_simp

lemma field_value_range:
  assumes "field_ok f" "field_value f txt = Inr v"
  shows "f_min f \<le> v" "v \<le> f_max f"
proof -
  have "f_min f \<le> v \<and> v \<le> f_max f"
  proof (cases "field_named f txt")
    case None
    then show ?thesis using assms(2) by (auto simp: field_value_def split: if_splits option.splits)
  next
    case (Some i)
    then obtain names where names: "f_names f = Some names" "i < length names" "names ! i \<noteq> []"
      by (auto simp: field_named_def find_Some_iff split: option.splits)
    then have "f_min f \<le> i \<and> i \<le> f_max f" using assms(1) by (auto simp: field_ok_def list_all_iff)
    then show ?thesis using assms(2) Some by (auto simp: field_value_def split: if_splits)
  qed
  then show "f_min f \<le> v" "v \<le> f_max f" by simp_all
qed

lemma field_range_Inr:
  assumes "field_ok f" "field_range f it body st = Inr (lo, hi)"
  shows "f_min f \<le> lo \<and> lo \<le> hi \<and> hi \<le> f_max f"
  using assms field_value_range[OF assms(1)]
  by (auto simp: field_range_def field_ok_def rbind_Inr_iff split: if_splits option.splits)

lemma field_step_Inr: "field_step f st = Inr step \<Longrightarrow> 0 < step"
  by (auto simp: field_step_def Let_def split: option.splits if_splits)

lemma field_item_Inr:
  assumes "field_ok f" "field_item f it = Inr b"
  shows "\<exists>lo hi step. f_min f \<le> lo \<and> lo \<le> hi \<and> hi \<le> f_max f \<and> 0 < step \<and>
    (\<forall>n. bit b n \<longleftrightarrow> lo \<le> n \<and> n \<le> hi \<and> step dvd (n - lo))"
proof -
  obtain body st where cut: "(case cut_at (CHR ''/'') it of None \<Rightarrow> (it, None) | Some (a, b) \<Rightarrow> (a, Some b)) = (body, st)" by fastforce
  then obtain lo hi step where r: "field_range f it body st = Inr (lo, hi)" "field_step f st = Inr step" "b = set_of (stepped lo hi step)"
    using assms(2) by (auto simp: field_item_def rbind_Inr_iff)
  have lohi: "f_min f \<le> lo \<and> lo \<le> hi \<and> hi \<le> f_max f" by (rule field_range_Inr[OF assms(1) r(1)])
  have step: "0 < step" by (rule field_step_Inr[OF r(2)])
  have "hi < 64" using lohi assms(1) by (simp add: field_ok_def)
  then have "bit b n \<longleftrightarrow> lo \<le> n \<and> n \<le> hi \<and> step dvd (n - lo)" for n
    by (auto simp: r(3) bit_set_of set_stepped[OF step])
  with lohi step show ?thesis by blast
qed

definition in_range :: "64 word \<Rightarrow> nat \<Rightarrow> nat \<Rightarrow> bool" where
  "in_range w lo hi = ((\<exists>n. bit w n) \<and> (\<forall>n. bit w n \<longrightarrow> lo \<le> n \<and> n \<le> hi))"

lemma rfold_items:
  assumes "rfold (\<lambda>it set. rbind (field_item f it) (\<lambda>b. Inr (set OR b))) its w = Inr r"
  shows "bit r n \<longleftrightarrow> bit w n \<or> (\<exists>it \<in> set its. \<exists>b. field_item f it = Inr b \<and> bit b n)"
  using assms
proof (induction its arbitrary: w)
  case (Cons it its)
  then obtain b where b: "field_item f it = Inr b"
    "rfold (\<lambda>it set. rbind (field_item f it) (\<lambda>b. Inr (set OR b))) its (w OR b) = Inr r"
    by (auto simp: rbind_Inr_iff)
  then show ?case using Cons.IH[OF b(2)] by (auto simp: bit_or_iff)
qed simp

lemma rfold_items_read:
  assumes "rfold (\<lambda>it set. rbind (field_item f it) (\<lambda>b. Inr (set OR b))) its w = Inr r" "it \<in> set its"
  shows "\<exists>b. field_item f it = Inr b"
  using assms by (induction its arbitrary: w) (auto simp: rbind_Inr_iff)

lemma field_parse_Inr:
  assumes "field_ok f" "field_parse f txt = Inr w"
  shows "in_range w (f_min f) (f_max f)"
proof -
  note items = rfold_items[OF assms(2)[unfolded field_parse_def]]
  note each = rfold_items_read[OF assms(2)[unfolded field_parse_def]]
  obtain it where it: "it \<in> set (split_on (CHR '','') txt)" using hd_in_set[OF split_on_nonempty] by blast
  obtain b where b: "field_item f it = Inr b" using each[OF it] by blast
  then obtain lo hi step where "lo \<le> hi" "\<forall>n. bit b n \<longleftrightarrow> lo \<le> n \<and> n \<le> hi \<and> step dvd (n - lo)"
    using field_item_Inr[OF assms(1) b] by blast
  then have "bit b lo" by simp
  then have "bit w lo" using items it b by blast
  moreover have "f_min f \<le> n \<and> n \<le> f_max f" if n: "bit w n" for n
  proof -
    obtain it' b' where "field_item f it' = Inr b'" "bit b' n" using items[of n] n by auto
    then show ?thesis using field_item_Inr[OF assms(1)] by force
  qed
  ultimately show ?thesis by (auto simp: in_range_def)
qed

lemma in_range_sunday: "in_range w 0 7 \<Longrightarrow> in_range (one_sunday w) 0 6"
proof -
  assume r: "in_range w 0 7"
  have b: "bit (w AND NOT (push_bit 7 1) OR 1) n \<longleftrightarrow> (bit w n \<and> n \<noteq> 7) \<or> n = 0" for n
    unfolding bit_or_iff bit_and_iff bit_not_iff bit_push_bit_iff using r
    by (auto simp: in_range_def bit_1_iff dest: bit_imp_le_length)
  show ?thesis
  proof (cases "bit w 7")
    case True
    then have "one_sunday w = (w AND NOT (push_bit 7 1) OR 1)" using has_bit[of w 7] by (simp only: one_sunday_def if_True)
    then show ?thesis using r b unfolding in_range_def by (metis le_neq_implies_less less_Suc_eq_le numeral_eq_Suc pred_numeral_simps(3) zero_le)
  next
    case False
    then have "one_sunday w = w" using has_bit[of w 7] by (simp only: one_sunday_def if_False)
    moreover have "n \<le> 6" if "bit w n" for n
      using r that False by (cases "n = 7") (auto simp: in_range_def)
    ultimately show ?thesis using r by (auto simp: in_range_def)
  qed
qed

definition schedule_ok :: "schedule \<Rightarrow> bool" where
  "schedule_ok s = (in_range (s_minute s) 0 59 \<and> in_range (s_hour s) 0 23 \<and> in_range (s_dom s) 1 31 \<and>
     in_range (s_month s) 1 12 \<and> in_range (s_dow s) 0 6 \<and>
     (dowStar s \<longrightarrow> (\<exists>m d. bit (s_month s) m \<and> bit (s_dom s) d \<and> d \<le> longestMonth ! m)))"

lemma reachable_days: "k < 63 \<Longrightarrow> bit (push_bit (k + 1) 1 - 2 :: 64 word) n \<longleftrightarrow> 1 \<le> n \<and> n \<le> k"
proof -
  assume k: "k < 63"
  have "(push_bit (k + 1) 1 - 2 :: 64 word) = push_bit 1 (mask k)"
    by (simp add: mask_eq_exp_minus_1 push_bit_eq_mult algebra_simps)
  then have "bit (push_bit (k + 1) 1 - 2 :: 64 word) n \<longleftrightarrow> bit (push_bit 1 (mask k) :: 64 word) n" by (simp only:)
  also have "\<dots> \<longleftrightarrow> 1 \<le> n \<and> n \<le> k"
    using k by (auto simp only: bit_push_bit_iff bit_mask_iff possible_bit_word len_num1 len_bit0 len_bit1; auto)
  finally show ?thesis .
qed

lemma longestMonth_bound: "m \<le> 12 \<Longrightarrow> longestMonth ! m < 63"
proof -
  have "list_all (\<lambda>m. longestMonth ! m < 63) [0..<13]" by code_simp
  then show "m \<le> 12 \<Longrightarrow> longestMonth ! m < 63" by (simp add: list_all_iff)
qed

lemma somedayExists_Inr:
  assumes "somedayExists s = Inr ()" "dowStar s"
  shows "\<exists>m d. bit (s_month s) m \<and> bit (s_dom s) d \<and> d \<le> longestMonth ! m"
proof -
  obtain m where m: "m \<in> set [1..<13]" "s_month s AND push_bit m 1 \<noteq> 0"
      "s_dom s AND (push_bit (longestMonth ! m + 1) 1 - 2) \<noteq> 0"
    using assms unfolding somedayExists_def list_ex_iff by (auto split: if_splits)
  have k: "longestMonth ! m < 63" using m(1) by (intro longestMonth_bound) auto
  obtain d where "bit (s_dom s AND (push_bit (longestMonth ! m + 1) 1 - 2)) d"
    using m(3) bit_eqI[of "s_dom s AND (push_bit (longestMonth ! m + 1) 1 - 2)" 0] by fastforce
  then have "bit (s_dom s) d" "d \<le> longestMonth ! m" using reachable_days[OF k] by (auto simp only: bit_and_iff)
  then show ?thesis using m(2) unfolding has_bit by blast
qed

lemma rall_nth: "rall f xs = Inr ys \<Longrightarrow> i < length xs \<Longrightarrow> f (xs ! i) = Inr (ys ! i)"
  by (induction xs arbitrary: ys i) (auto simp: rbind_Inr_iff less_Suc_eq_0_disj)

lemma Parse_ok:
  assumes "Parse expr = Inr s"
  shows "schedule_ok s"
proof -
  obtain sets where five: "length (Fields expr) = 5" and sets: "rall (\<lambda>(f, part). field_parse f part) (zip cron_fields (Fields expr)) = Inr sets"
    and s: "s_minute s = sets ! 0" "s_hour s = sets ! 1" "s_dom s = sets ! 2" "s_month s = sets ! 3" "s_dow s = one_sunday (sets ! 4)"
    and day: "somedayExists s = Inr ()"
    using assms by (auto simp: Parse_def Let_def rbind_Inr_iff split: if_splits)
  have "in_range (sets ! i) (f_min (cron_fields ! i)) (f_max (cron_fields ! i))" if "i < 5" for i
  proof (rule field_parse_Inr)
    have l: "length cron_fields = 5" by (simp add: cron_fields_def)
    show "field_ok (cron_fields ! i)" using cron_fields_ok that l by (simp add: list_all_length)
    show "field_parse (cron_fields ! i) (Fields expr ! i) = Inr (sets ! i)"
      using rall_nth[OF sets, of i] that five l by simp
  qed
  from this[of 0] this[of 1] this[of 2] this[of 3] this[of 4] show ?thesis
    using somedayExists_Inr[OF day] in_range_sunday by (auto simp: schedule_ok_def s cron_fields_def)
qed

section \<open>The instant of a wall clock time\<close>

lemma nanos_pos: "0 < nanos"
  by (simp add: nanos_def)

lemma nanos_div [simp]: "s * nanos div nanos = s" "(s * nanos - 1) div nanos = s - 1"
  by (simp_all add: nanos_def)

lemma wall_seconds: "wall loc (s * nanos) = (s + offset_at loc s) * nanos"
  by (simp add: wall_def Zone_offset_def algebra_simps)

lemma wall_split: "wall loc t = (t div nanos + offset_at loc (t div nanos)) * nanos + t mod nanos"
  by (simp add: wall_def Zone_offset_def algebra_simps)

lemma Date_UTC: "Date year month day hour minute UTC = reading year month day hour minute * nanos"
  by (simp add: Date_def in_zone_def zone_at_def UTC_def)

text \<open>The second a clock in the zone first shows the reading \<open>u\<close> or a later one.\<close>

definition shows_first :: "location \<Rightarrow> int \<Rightarrow> int \<Rightarrow> bool" where
  "shows_first loc u r = (u \<le> r + offset_at loc r \<and> (\<forall>s < r. s + offset_at loc s < u))"

lemma shows_first_unique: "shows_first loc u r \<Longrightarrow> shows_first loc u r' \<Longrightarrow> r = r'"
  unfolding shows_first_def by (meson linorder_not_less linorder_neq_iff)

lemma shows_first_mono: "shows_first loc u r \<Longrightarrow> shows_first loc v q \<Longrightarrow> u \<le> v \<Longrightarrow> r \<le> q"
  unfolding shows_first_def by (meson dual_order.trans linorder_not_less)

text \<open>\<open>Resolve\<close> in whole seconds: every boundary of a zone is one.\<close>

definition resolve_second :: "location \<Rightarrow> int \<Rightarrow> int" where
  "resolve_second loc u =
     (let t = in_zone loc u; (now, start, end) = zone_at loc t in
      if t + now = u then
        (case start of
           None \<Rightarrow> t
         | Some x \<Rightarrow>
             if x \<noteq> 0 \<and> offset_at loc (x - 1) > now \<and> u - offset_at loc (x - 1) < x \<and>
                offset_at loc (u - offset_at loc (x - 1)) = offset_at loc (x - 1)
             then u - offset_at loc (x - 1) else t)
      else if t + now > u then (case start of None \<Rightarrow> 0 | Some x \<Rightarrow> x)
      else (case end of None \<Rightarrow> 0 | Some y \<Rightarrow> y))"

lemma nanos_cancel [simp]: "a * nanos = b * nanos \<longleftrightarrow> a = b" "a * nanos < b * nanos \<longleftrightarrow> a < b" "a * nanos = 0 \<longleftrightarrow> a = 0"
  by (simp_all add: nanos_def)

lemma Resolve_second: "Resolve y m d h mi loc = resolve_second loc (reading y m d h mi) * nanos"
proof -
  define u where "u = reading y m d h mi"
  define t where "t = in_zone loc u"
  obtain now start "end" where z: "zone_at loc t = (now, start, end)" by (metis prod.exhaust)
  have now: "offset_at loc t = now" by (simp add: offset_at_def z)
  have D: "Date y m d h mi loc = t * nanos" by (simp add: Date_def t_def u_def)
  have W: "wall loc (t * nanos) = (t + now) * nanos" by (simp add: wall_seconds now)
  have B: "ZoneBounds loc (t * nanos) = (case start of None \<Rightarrow> 0 | Some s \<Rightarrow> s * nanos, case end of None \<Rightarrow> 0 | Some e \<Rightarrow> e * nanos)"
    by (simp add: ZoneBounds_def z)
  have O: "Zone_offset loc (s * nanos) = offset_at loc s" "Zone_offset loc (s * nanos - 1) = offset_at loc (s - 1)" for s
    by (simp_all add: Zone_offset_def)
  have R: "resolve_second loc u = (if t + now = u then
        (case start of None \<Rightarrow> t | Some x \<Rightarrow>
             if x \<noteq> 0 \<and> offset_at loc (x - 1) > now \<and> u - offset_at loc (x - 1) < x \<and>
                offset_at loc (u - offset_at loc (x - 1)) = offset_at loc (x - 1)
             then u - offset_at loc (x - 1) else t)
      else if t + now > u then (case start of None \<Rightarrow> 0 | Some x \<Rightarrow> x)
      else (case end of None \<Rightarrow> 0 | Some y \<Rightarrow> y))"
    unfolding resolve_second_def Let_def t_def[symmetric] z by simp
  note unf = Resolve_def Date_UTC u_def[symmetric] D Let_def W B O now nanos_cancel fst_conv snd_conv
  show ?thesis
  proof (cases "t + now = u")
    case True
    show ?thesis
    proof (cases start)
      case None
      then show ?thesis unfolding unf R using True by simp
    next
      case (Some x)
      define p where "p = offset_at loc (x - 1)"
      have e: "t * nanos - (p - now) * nanos = (u - p) * nanos" using True by (auto simp: algebra_simps)
      have w: "wall loc ((u - p) * nanos) = u * nanos \<longleftrightarrow> offset_at loc (u - p) = p"
        unfolding wall_seconds nanos_cancel by auto
      show ?thesis unfolding unf R Some option.case p_def[symmetric] e w nanos_cancel using True by auto
    qed
  next
    case False
    then show ?thesis unfolding unf R by (simp split: option.split)
  qed
qed

lemma far_below: "regular loc \<Longrightarrow> s + 86400 < u \<Longrightarrow> s + offset_at loc s < u"
  using offset_bound[of loc s] by linarith

lemma offset_zone: "zone_at loc s = (off, a, b) \<Longrightarrow> offset_at loc s = off"
  by (simp add: offset_at_def)

lemma first_at_gap:
  assumes "regular loc" "zone_at loc x = (now, Some x, b)" "x + offset_at loc (x - 1) \<le> u" "u < x + now"
  shows "shows_first loc u x"
proof -
  obtain p a where p: "\<And>s. x - 172800 \<le> s \<Longrightarrow> s < x \<Longrightarrow> zone_at loc s = (p, a, Some x)"
    using zone_before[OF assms(1,2)] by metis
  have off: "offset_at loc (x - 1) = p" by (rule offset_zone[OF p]) auto
  have "s + offset_at loc s < u" if "s < x" for s
  proof (cases "x - 172800 \<le> s")
    case True
    then show ?thesis using offset_zone[OF p[OF True that]] that assms(3) off by simp
  next
    case False
    then show ?thesis using far_below[OF assms(1), of s u] offset_bound[OF assms(1), of "x - 1"] assms(3) by linarith
  qed
  then show ?thesis using assms(4) offset_zone[OF assms(2)] by (simp add: shows_first_def)
qed

lemma first_at_start:
  assumes "regular loc" "zone_at loc t = (now, None, b)" "t + now = u"
  shows "shows_first loc u t"
proof -
  have "s + offset_at loc s < u" if "s < t" for s
  proof -
    have "in_bounds None b s" using zone_bounds[OF assms(2)] that by (auto simp: in_bounds_def split: option.splits)
    then show ?thesis using offset_zone[OF zone_same[OF assms(1,2)]] that assms(3) by simp
  qed
  then show ?thesis using offset_zone[OF assms(2)] assms(3) by (simp add: shows_first_def)
qed

lemma first_at_repeat:
  assumes reg: "regular loc" and zone: "zone_at loc t = (now, Some x, b)" and u: "t + now = u"
  defines "p \<equiv> offset_at loc (x - 1)"
  shows "shows_first loc u (if x \<noteq> 0 \<and> p > now \<and> u - p < x \<and> offset_at loc (u - p) = p then u - p else t)"
proof -
  obtain q a where x: "0 < x" and q: "\<And>s. x - 172800 \<le> s \<Longrightarrow> s < x \<Longrightarrow> zone_at loc s = (q, a, Some x)"
    using zone_before[OF reg zone] by metis
  have p: "offset_at loc s = p" if "x - 172800 \<le> s" "s < x" for s
    unfolding p_def using offset_zone[OF q[OF that]] offset_zone[OF q[of "x - 1"]] by simp
  have now: "\<bar>now\<bar> \<le> 86400" "\<bar>p\<bar> \<le> 86400" using offset_bound[OF reg] offset_zone[OF zone] p_def by auto
  have xt: "x \<le> t" using zone_bounds[OF zone] by (simp add: in_bounds_def)
  have same: "offset_at loc s = now" if "x \<le> s" "s < t" for s
    using zone_bounds[OF zone] that by (intro offset_zone[OF zone_same[OF reg zone]]) (auto simp: in_bounds_def split: option.splits)
  have far: "s + offset_at loc s < u" if "s < x - 172800" for s
    using far_below[OF reg, of s u] that xt now u by linarith
  show ?thesis
  proof (cases "x \<noteq> 0 \<and> p > now \<and> u - p < x \<and> offset_at loc (u - p) = p")
    case True
    have "s + offset_at loc s < u" if "s < u - p" for s
      using far[of s] p[of s] that True by (cases "x - 172800 \<le> s") auto
    then show ?thesis using True by (simp add: shows_first_def)
  next
    case False
    have "s + p < u" if "x - 172800 \<le> s" "s < x" for s
    proof (rule ccontr)
      assume "\<not> s + p < u"
      then have "p > now" "u - p < x" "x - 172800 \<le> u - p" using that xt u now by linarith+
      then show False using False p[of "u - p"] x by auto
    qed
    then have "s + offset_at loc s < u" if "s < t" for s
      using far[of s] p[of s] same[of s] that u by (cases "x - 172800 \<le> s"; cases "s < x") auto
    then show ?thesis unfolding if_not_P[OF False] using offset_zone[OF zone] u by (simp add: shows_first_def)
  qed
qed

lemma resolve_on_time:
  assumes "regular loc" "in_zone loc u = t" "zone_at loc t = (now, a, b)" "t + now = u"
  shows "shows_first loc u (resolve_second loc u)"
proof (cases a)
  case None
  then show ?thesis using first_at_start[OF assms(1) _ assms(4)] assms by (simp add: resolve_second_def)
next
  case (Some x)
  then show ?thesis using first_at_repeat[OF assms(1) _ assms(4)] assms by (simp add: resolve_second_def)
qed

text \<open>The reading taken as UTC lies in a zone whose offset leads before that zone: the change at \<open>x\<close> is behind it.\<close>

lemma resolve_after_change:
  assumes reg: "regular loc" and zone: "zone_at loc u = (off, Some x, b)" and out: "u - off < x"
  shows "shows_first loc u (resolve_second loc u)"
proof -
  obtain p a where p: "\<And>s. x - 172800 \<le> s \<Longrightarrow> s < x \<Longrightarrow> zone_at loc s = (p, a, Some x)"
    using zone_before[OF reg zone] by metis
  have z1: "zone_at loc (x - 1) = (p, a, Some x)" by (rule p) auto
  have off: "\<bar>off\<bar> \<le> 86400" "\<bar>p\<bar> \<le> 86400"
    using offset_bound[OF reg, of u] offset_bound[OF reg, of "x - 1"] offset_zone[OF zone] offset_zone[OF z1] by auto
  have xu: "x \<le> u" using zone_bounds[OF zone] by (simp add: in_bounds_def)
  have "offset_at loc (u - off) = p" using p[of "u - off"] out off xu by (intro offset_zone) auto
  then have t: "in_zone loc u = u - p" using zone out xu by (auto simp: in_zone_def in_bounds_def)
  show ?thesis
  proof (cases "u - p < x")
    case True
    then show ?thesis using resolve_on_time[OF reg t p] off xu by simp
  next
    case False
    have zx: "zone_at loc x = (off, Some x, b)"
      using zone_bounds[OF zone] xu by (intro zone_same[OF reg zone]) (auto simp: in_bounds_def split: option.splits)
    obtain q c where q: "\<And>s. x \<le> s \<Longrightarrow> s \<le> x + 172800 \<Longrightarrow> zone_at loc s = (q, Some x, c)"
      using zone_after[OF reg z1] by metis
    have "zone_at loc (u - p) = (off, Some x, b)" using q[of x] q[of "u - p"] zx False out off by auto
    then have "resolve_second loc u = x" using t False out by (simp add: resolve_second_def)
    moreover have "shows_first loc u x"
      using first_at_gap[OF reg zx] offset_zone[OF z1] False out by simp
    ultimately show ?thesis by simp
  qed
qed

lemma resolve_before_change:
  assumes reg: "regular loc" and zone: "zone_at loc u = (off, a, Some y)" and out: "y \<le> u - off"
  shows "shows_first loc u (resolve_second loc u)"
proof -
  obtain p b where p: "\<And>s. y \<le> s \<Longrightarrow> s \<le> y + 172800 \<Longrightarrow> zone_at loc s = (p, Some y, b)"
    using zone_after[OF reg zone] by metis
  have zy: "zone_at loc y = (p, Some y, b)" by (rule p) auto
  have off: "\<bar>off\<bar> \<le> 86400" "\<bar>p\<bar> \<le> 86400"
    using offset_bound[OF reg, of u] offset_bound[OF reg, of y] offset_zone[OF zone] offset_zone[OF zy] by auto
  have uy: "u < y" using zone_bounds[OF zone] by (simp add: in_bounds_def)
  have "offset_at loc (u - off) = p" using p[of "u - off"] out off uy by (intro offset_zone) auto
  then have t: "in_zone loc u = u - p" using zone out uy by (auto simp: in_zone_def in_bounds_def)
  show ?thesis
  proof (cases "y \<le> u - p")
    case True
    then show ?thesis using resolve_on_time[OF reg t p] off uy by simp
  next
    case False
    obtain q c where q: "\<And>s. y - 172800 \<le> s \<Longrightarrow> s < y \<Longrightarrow> zone_at loc s = (q, c, Some y)"
      using zone_before[OF reg zy] by metis
    have zt: "zone_at loc (u - p) = (off, a, Some y)" "zone_at loc (y - 1) = (off, a, Some y)"
      using q[of u] q[of "u - p"] q[of "y - 1"] zone uy False out off by auto
    have "resolve_second loc u = y" using t zt False out by (simp add: resolve_second_def)
    moreover have "shows_first loc u y"
      using first_at_gap[OF reg zy] offset_zone[OF zt(2)] False out by simp
    ultimately show ?thesis by simp
  qed
qed

lemma resolve_first:
  assumes reg: "regular loc"
  shows "shows_first loc u (resolve_second loc u)"
proof -
  obtain off a b where zone: "zone_at loc u = (off, a, b)" by (metis prod.exhaust)
  show ?thesis
  proof (cases "in_bounds a b (u - off)")
    case True
    then have "in_zone loc u = u - off" using zone by (auto simp: in_zone_def)
    then show ?thesis using resolve_on_time[OF reg _ zone_same[OF reg zone True]] by simp
  next
    case False
    then consider x where "a = Some x" "u - off < x" | y where "b = Some y" "y \<le> u - off"
      by (auto simp: in_bounds_def split: option.splits)
    then show ?thesis
    proof cases
      case 1
      then show ?thesis using resolve_after_change[OF reg] zone by blast
    next
      case 2
      then show ?thesis using resolve_before_change[OF reg] zone by blast
    qed
  qed
qed

lemma resolve_second_mono: "regular loc \<Longrightarrow> u \<le> v \<Longrightarrow> resolve_second loc u \<le> resolve_second loc v"
  using resolve_first shows_first_mono by blast

section \<open>The next occurrence\<close>

definition day_occurs :: "schedule \<Rightarrow> int \<Rightarrow> bool" where
  "day_occurs s n = (bit (s_month s) (d_Month (date_of n)) \<and> dayMatches s n)"

definition instant :: "location \<Rightarrow> int \<Rightarrow> nat \<Rightarrow> nat \<Rightarrow> time" where
  "instant loc n h m = (let d = date_of n in Resolve (d_Year d) (d_Month d) (d_Day d) h m loc)"

definition occurs :: "schedule \<Rightarrow> location \<Rightarrow> time \<Rightarrow> bool" where
  "occurs s loc at = (\<exists>n h m. day_occurs s n \<and> h < 24 \<and> bit (s_hour s) h \<and> m < 60 \<and> bit (s_minute s) m \<and> at = instant loc n h m)"

lemma reading_date: "d = date_of n \<Longrightarrow> reading (d_Year d) (d_Month d) (d_Day d) h m = 86400 * n + 3600 * int h + 60 * int m"
proof -
  assume d: "d = date_of n"
  have "\<lparr>d_Year = d_Year d, d_Month = d_Month d, d_Day = d_Day d\<rparr> = date_of n" unfolding d by (cases "date_of n") simp
  then show ?thesis using date_of_spec(1)[of n] by (simp add: reading_def)
qed

lemma instant_second: "instant loc n h m = resolve_second loc (86400 * n + 3600 * int h + 60 * int m) * nanos"
  using reading_date[OF refl, of n] by (simp add: instant_def Resolve_second)

lemma instant_mono:
  assumes "regular loc" "86400 * n + 3600 * int h + 60 * int m \<le> 86400 * n' + 3600 * int h' + 60 * int m'"
  shows "instant loc n h m \<le> instant loc n' h' m'"
  using resolve_second_mono[OF assms] nanos_pos by (simp add: instant_second)

lemma takeWhile_upt: "i < length (takeWhile P [0..<k]) \<Longrightarrow> P i"
proof -
  assume i: "i < length (takeWhile P [0..<k])"
  then have "i < k" using length_takeWhile_le[of P "[0..<k]"] by simp
  then have "takeWhile P [0..<k] ! i = i" using takeWhile_nth[OF i] by simp
  then show "P i" using set_takeWhileD[OF nth_mem[OF i]] by simp
qed

lemma before_trailing: "i < trailing_zeros w \<Longrightarrow> \<not> bit w i"
  unfolding trailing_zeros_def has_bit[symmetric] by (drule takeWhile_upt) simp

lemma set_hours: "set (hours_of s) = {h. h < 24 \<and> bit (s_hour s) h}"
  unfolding hours_of_def has_bit using before_trailing[of _ "s_hour s"] by (auto simp: not_le[symmetric])

lemma set_minutes: "set (minutes_of s) = {m. m < 60 \<and> bit (s_minute s) m}"
  unfolding minutes_of_def has_bit using before_trailing[of _ "s_minute s"] by (auto simp: not_le[symmetric])

lemma sorted_hours: "sorted_wrt (<) (hours_of s)" "sorted_wrt (<) (minutes_of s)"
  by (simp_all add: hours_of_def minutes_of_def sorted_wrt_filter)

lemma sorted_concat:
  fixes g :: "nat \<Rightarrow> nat \<Rightarrow> int"
  assumes "sorted_wrt (<) hs" "sorted_wrt (<) ms"
    "\<And>h m h' m'. m \<in> set ms \<Longrightarrow> m' \<in> set ms \<Longrightarrow> h < h' \<or> (h = h' \<and> m < m') \<Longrightarrow> g h m \<le> g h' m'"
  shows "sorted (concat (map (\<lambda>h. map (g h) ms) hs))"
  using assms(1)
proof (induction hs)
  case (Cons h hs)
  have "sorted (map (g h) ms)" unfolding sorted_map
    by (rule sorted_wrt_mono_rel[OF _ assms(2)]) (use assms(3) in auto)
  then show ?case using Cons assms(3) by (auto simp: sorted_append)
qed simp

lemma find_sorted: "sorted xs \<Longrightarrow> find P xs = Some x \<Longrightarrow> y \<in> set xs \<Longrightarrow> P y \<Longrightarrow> x \<le> y"
  by (induction xs) (auto split: if_splits)

lemma next_on_instants:
  "next_on s after loc (date_of n) = find (\<lambda>at. after < at) (concat (map (\<lambda>h. map (instant loc n h) (minutes_of s)) (hours_of s)))"
  unfolding next_on_def instant_def Let_def ..

lemma sorted_instants:
  assumes "regular loc"
  shows "sorted (concat (map (\<lambda>h. map (instant loc n h) (minutes_of s)) (hours_of s)))"
proof (rule sorted_concat[OF sorted_hours])
  fix h m h' m' :: nat assume "m \<in> set (minutes_of s)" "m' \<in> set (minutes_of s)" "h < h' \<or> (h = h' \<and> m < m')"
  then show "instant loc n h m \<le> instant loc n h' m'"
    by (intro instant_mono[OF assms]) (auto simp: set_minutes)
qed

lemma next_on_Some:
  assumes "regular loc" "next_on s after loc (date_of n) = Some at"
  shows "\<exists>h m. h < 24 \<and> bit (s_hour s) h \<and> m < 60 \<and> bit (s_minute s) m \<and> at = instant loc n h m"
    "after < at"
    "h < 24 \<Longrightarrow> bit (s_hour s) h \<Longrightarrow> m < 60 \<Longrightarrow> bit (s_minute s) m \<Longrightarrow> after < instant loc n h m \<Longrightarrow> at \<le> instant loc n h m"
proof -
  note f = assms(2)[unfolded next_on_instants]
  have "at \<in> set (concat (map (\<lambda>h. map (instant loc n h) (minutes_of s)) (hours_of s)))" "after < at"
    using f by (auto simp: find_Some_iff in_set_conv_nth simp del: set_concat)
  then show "\<exists>h m. h < 24 \<and> bit (s_hour s) h \<and> m < 60 \<and> bit (s_minute s) m \<and> at = instant loc n h m" "after < at"
    by (auto simp: set_hours set_minutes)
  show "h < 24 \<Longrightarrow> bit (s_hour s) h \<Longrightarrow> m < 60 \<Longrightarrow> bit (s_minute s) m \<Longrightarrow> after < instant loc n h m \<Longrightarrow> at \<le> instant loc n h m"
    by (rule find_sorted[OF sorted_instants[OF assms(1)] f]) (auto simp: set_hours set_minutes)
qed

lemma next_on_None:
  "next_on s after loc (date_of n) = None \<longleftrightarrow>
     (\<forall>h m. h < 24 \<longrightarrow> bit (s_hour s) h \<longrightarrow> m < 60 \<longrightarrow> bit (s_minute s) m \<longrightarrow> instant loc n h m \<le> after)"
proof -
  have "next_on s after loc (date_of n) = None \<longleftrightarrow> (\<forall>h \<in> set (hours_of s). \<forall>m \<in> set (minutes_of s). instant loc n h m \<le> after)"
    unfolding next_on_instants find_None_iff by (auto simp: not_less)
  then show ?thesis by (auto simp: set_hours set_minutes)
qed

lemma next_from_step:
  "next_from s after loc day i =
     (if \<not> i < horizon then None
      else if \<not> day_occurs s (day + i) then next_from s after loc day (i + 1)
      else case next_on s after loc (date_of (day + i)) of Some at \<Rightarrow> Some at | None \<Rightarrow> next_from s after loc day (i + 1))"
  using has_bit[of "s_month s" "d_Month (date_of (day + i))"]
  by (subst next_from.simps) (auto simp: Let_def day_occurs_def)

lemma next_from_Some:
  assumes "next_from s after loc day i = Some at"
  shows "\<exists>n. day + i \<le> n \<and> n < day + horizon \<and> day_occurs s n \<and> next_on s after loc (date_of n) = Some at \<and>
    (\<forall>k. day + i \<le> k \<longrightarrow> k < n \<longrightarrow> day_occurs s k \<longrightarrow> next_on s after loc (date_of k) = None)"
  using assms
proof (induction s after loc day i rule: next_from.induct)
  case (1 s after loc day i)
  note step = 1(3)[unfolded next_from_step[of s after loc day i]]
  show ?case
  proof (cases "day_occurs s (day + i) \<and> next_on s after loc (date_of (day + i)) \<noteq> None")
    case True
    then show ?thesis using step by (intro exI[of _ "day + i"]) (auto split: if_splits)
  next
    case False
    then have "i < horizon" "next_from s after loc day (i + 1) = Some at" using step by (auto split: if_splits)
    moreover have "s_month s AND push_bit (d_Month (date_of (day + i))) 1 = 0 \<or> \<not> dayMatches s (day + i) \<or> next_on s after loc (date_of (day + i)) = None"
      using False has_bit by (auto simp: day_occurs_def)
    ultimately obtain n where n: "day + (i + 1) \<le> n \<and> n < day + horizon" "day_occurs s n" "next_on s after loc (date_of n) = Some at"
      "\<forall>k. day + (i + 1) \<le> k \<longrightarrow> k < n \<longrightarrow> day_occurs s k \<longrightarrow> next_on s after loc (date_of k) = None"
      using 1(1,2) by (metis not_not)
    have "next_on s after loc (date_of k) = None" if "day + i \<le> k" "k < n" "day_occurs s k" for k
      using n(4) False that by (cases "k = day + i") auto
    with n show ?thesis by (intro exI[of _ n]) auto
  qed
qed

lemma next_from_None:
  assumes "next_from s after loc day i = None" "day + i \<le> k" "k < day + horizon" "day_occurs s k"
  shows "next_on s after loc (date_of k) = None"
  using assms
proof (induction s after loc day i rule: next_from.induct)
  case (1 s after loc day i)
  note step = 1(3)[unfolded next_from_step[of s after loc day i]]
  have i: "i < horizon" using 1(4,5) by simp
  show ?case
  proof (cases "k = day + i")
    case True
    then show ?thesis using step i 1(6) by (auto split: option.splits)
  next
    case False
    then have "next_from s after loc day (i + 1) = None" using step i by (auto split: if_splits option.splits)
    moreover have "s_month s AND push_bit (d_Month (date_of (day + i))) 1 = 0 \<or> \<not> dayMatches s (day + i) \<or> next_on s after loc (date_of (day + i)) = None"
      using step i has_bit by (auto simp: day_occurs_def split: if_splits option.splits)
    ultimately show ?thesis using 1(1,2) 1(4-6) i False by (metis add.assoc add_le_cancel_left linorder_not_less not_not order_le_less zless_add1_eq)
  qed
qed

definition local_day :: "location \<Rightarrow> time \<Rightarrow> int" where
  "local_day loc after = wall loc after div (86400 * nanos)"

lemma local_day_seconds: "local_day loc after = (after div nanos + offset_at loc (after div nanos)) div 86400"
proof -
  have "wall loc after div nanos = after div nanos + offset_at loc (after div nanos)"
    unfolding wall_split using nanos_pos by simp
  then show ?thesis unfolding local_day_def using nanos_pos by (simp add: zdiv_zmult2_eq mult.commute)
qed

lemma Next_eq: "Next s after loc = (case next_from s after loc (local_day loc after) 0 of None \<Rightarrow> 0 | Some at \<Rightarrow> at)"
  by (simp add: Next_def local_day_def)

lemma instant_past:
  assumes "regular loc" "n < local_day loc after" "h < 24" "m < 60"
  shows "instant loc n h m \<le> after"
proof -
  define a where "a = after div nanos"
  define u where "u = 86400 * n + 3600 * int h + 60 * int m"
  have "n + 1 \<le> (a + offset_at loc a) div 86400" using assms(2) by (simp add: local_day_seconds a_def)
  then have "86400 * (n + 1) \<le> 86400 * ((a + offset_at loc a) div 86400)" by simp
  also have "\<dots> \<le> a + offset_at loc a" by simp
  finally have "86400 * (n + 1) \<le> a + offset_at loc a" .
  then have u: "u \<le> a + offset_at loc a" using assms(3,4) by (simp add: u_def)
  have "\<not> a < resolve_second loc u"
    using resolve_first[OF assms(1), of u] u by (auto simp: shows_first_def not_less)
  then have "resolve_second loc u * nanos \<le> a * nanos" using nanos_pos by simp
  also have "\<dots> \<le> after" using nanos_pos unfolding a_def by (simp add: minus_mod_eq_div_mult[symmetric])
  finally show ?thesis by (simp add: instant_second u_def)
qed

lemma instant_future:
  assumes "regular loc" "local_day loc after + 3 \<le> n"
  shows "after < instant loc n h m"
proof -
  define a where "a = after div nanos"
  define u where "u = 86400 * n + 3600 * int h + 60 * int m"
  have "a + offset_at loc a < 86400 * ((a + offset_at loc a) div 86400) + 86400"
    using pos_mod_bound[of 86400 "a + offset_at loc a"] by (simp add: minus_mult_div_eq_mod[symmetric])
  then have "a + offset_at loc a + 2 * 86400 < u" using assms(2) by (simp add: local_day_seconds a_def[symmetric] u_def)
  moreover have "u \<le> resolve_second loc u + offset_at loc (resolve_second loc u)"
    using resolve_first[OF assms(1), of u] by (simp add: shows_first_def)
  ultimately have "a + 1 \<le> resolve_second loc u"
    using offset_bound[OF assms(1), of a] offset_bound[OF assms(1), of "resolve_second loc u"] by linarith
  then have "(a + 1) * nanos \<le> resolve_second loc u * nanos" using nanos_pos by (intro mult_right_mono) auto
  moreover have "after < (a + 1) * nanos"
    using pos_mod_bound[OF nanos_pos, of after] unfolding a_def by (simp add: algebra_simps minus_mult_div_eq_mod[symmetric])
  ultimately show ?thesis by (simp add: instant_second u_def)
qed

lemma next_least:
  assumes reg: "regular loc" and found: "next_from s after loc (local_day loc after) 0 = Some at"
  shows "occurs s loc at" "after < at" "occurs s loc at' \<Longrightarrow> after < at' \<Longrightarrow> at \<le> at'"
proof -
  let ?day = "local_day loc after"
  obtain n where n: "day_occurs s n" "next_on s after loc (date_of n) = Some at"
    "\<forall>k. ?day \<le> k \<longrightarrow> k < n \<longrightarrow> day_occurs s k \<longrightarrow> next_on s after loc (date_of k) = None"
    using next_from_Some[OF found] by auto
  note on = next_on_Some[OF reg n(2)]
  obtain h m where hm: "h < 24" "bit (s_hour s) h" "m < 60" "bit (s_minute s) m" "at = instant loc n h m" using on(1) by blast
  show "occurs s loc at" using n(1) hm by (auto simp: occurs_def)
  show "after < at" by (rule on(2))
  assume "occurs s loc at'" and later: "after < at'"
  then obtain n' h' m' where o: "day_occurs s n'" "h' < 24" "bit (s_hour s) h'" "m' < 60" "bit (s_minute s) m'" "at' = instant loc n' h' m'"
    by (auto simp: occurs_def)
  consider "n' < ?day" | "?day \<le> n'" "n' < n" | "n' = n" | "n < n'" by linarith
  then show "at \<le> at'"
  proof cases
    case 1
    then show ?thesis using instant_past[OF reg 1 o(2,4)] later o(6) by simp
  next
    case 2
    then have "next_on s after loc (date_of n') = None" using n(3) o(1) by blast
    then have "at' \<le> after" unfolding next_on_None using o by blast
    then show ?thesis using later by simp
  next
    case 3
    then show ?thesis using on(3)[of h' m'] o later by simp
  next
    case 4
    then show ?thesis unfolding hm(5) o(6) by (intro instant_mono[OF reg]) (use hm(1,3) in linarith)
  qed
qed

section \<open>How long a schedule waits\<close>

lemma next_comes:
  assumes reg: "regular loc" and ok: "schedule_ok s" and n: "day_occurs s n" "local_day loc after + 3 \<le> n" "n < local_day loc after + horizon"
  shows "\<exists>at. next_from s after loc (local_day loc after) 0 = Some at"
proof (cases "next_from s after loc (local_day loc after) 0")
  case None
  obtain h m where hm: "bit (s_hour s) h" "h < 24" "bit (s_minute s) m" "m < 60"
    using ok unfolding schedule_ok_def in_range_def by fastforce
  have "next_on s after loc (date_of n) = None" using next_from_None[OF None _ n(3) n(1)] n(2) by simp
  then have "instant loc n h m \<le> after" using hm unfolding next_on_None by blast
  then show ?thesis using instant_future[OF reg n(2), of h m] by simp
qed simp

lemma leap_within: "\<exists>y. a < y \<and> y \<le> a + 8 \<and> leap y"
proof -
  define y where "y = 4 * (a div 4) + 4"
  have y: "a < y" "y \<le> a + 4"
    using pos_mod_bound[of 4 a] pos_mod_sign[of 4 a] mult_div_mod_eq[of 4 a] unfolding y_def by linarith+
  show ?thesis
  proof (cases "y mod 100 = 0")
    case True
    then obtain k where k: "y = 100 * k" by blast
    have "(y + 4) mod 100 = 4" unfolding k by simp
    moreover have "(y + 4) mod 4 = 0" unfolding y_def by simp
    ultimately have "leap (y + 4)" by (simp add: leap_def)
    then show ?thesis using y by (intro exI[of _ "y + 4"]) auto
  next
    case False
    moreover have "y mod 4 = 0" unfolding y_def by simp
    ultimately have "leap y" by (simp add: leap_def)
    then show ?thesis using y by (intro exI[of _ y]) auto
  qed
qed

lemma year_start_span: "year_start (y + int k) \<le> year_start y + 366 * int k"
proof (induction k)
  case (Suc k)
  have "year_start (y + int k + 1) \<le> year_start (y + int k) + 366" using year_start_Suc[of "y + int k"] by simp
  then show ?case using Suc by (simp add: algebra_simps)
qed simp

lemma date_num_year: "date_valid d \<Longrightarrow> year_start (d_Year d) \<le> date_num d \<and> date_num d < year_start (d_Year d + 1)"
  using date_of_spec(3,4)[of "date_num d"] date_of_num[of d] by simp

lemma soon_enough:
  assumes "date_valid d" "d_Year (date_of day) + 2 \<le> d_Year d" "d_Year d \<le> d_Year (date_of day) + 10"
  shows "day + 3 \<le> date_num d" "date_num d < day + horizon"
proof -
  let ?y = "d_Year (date_of day)"
  have "day < year_start (?y + 1)" by (rule date_of_spec)
  also have "year_start (?y + 1) + 365 \<le> year_start (?y + 2)" using year_start_Suc[of "?y + 1"] by (simp add: add.commute)
  also have "year_start (?y + 2) \<le> year_start (d_Year d)" using assms(2) by (rule year_start_mono)
  finally show "day + 3 \<le> date_num d" using date_num_year[OF assms(1)] by simp
  have "year_start (d_Year d + 1) \<le> year_start (?y + int 11)" using assms(3) by (intro year_start_mono) simp
  also have "\<dots> \<le> year_start ?y + 366 * int 11" by (rule year_start_span)
  finally show "date_num d < day + horizon" using date_num_year[OF assms(1)] date_of_spec(3)[of day] by (simp add: horizon_def)
qed

lemma months_leap: "leap y \<Longrightarrow> 1 \<le> m \<Longrightarrow> m \<le> 12 \<Longrightarrow> months y ! (m - 1) = int (longestMonth ! m)"
proof -
  assume l: "leap y" and m: "1 \<le> m" "m \<le> 12"
  have "list_all (\<lambda>m. [31, 29, 31, 30, 31, 30, 31, 31, 30, 31, 30, 31] ! (m - 1) = int (longestMonth ! m)) [1..<13]" by code_simp
  then show ?thesis using l m by (auto simp: months_def list_all_iff)
qed

lemma months_28: "1 \<le> m \<Longrightarrow> m \<le> 12 \<Longrightarrow> 28 \<le> months y ! (m - 1)"
proof -
  assume m: "1 \<le> m" "m \<le> 12"
  have "\<forall>n \<in> set (months y). 28 \<le> n" by (auto simp: months_def)
  then show ?thesis using m nth_mem[of "m - 1" "months y"] by simp
qed

lemma Weekday_less: "Weekday n < 7"
  by (simp add: Weekday_def nat_less_iff)

lemma weekday_within: "w < 7 \<Longrightarrow> \<exists>j < 7. Weekday (n + int j) = w"
proof (rule exI[of _ "nat ((int w - (n + 1)) mod 7)"], rule conjI)
  assume w: "w < 7"
  show "nat ((int w - (n + 1)) mod 7) < 7" by (simp add: nat_less_iff)
  have "(n + (int w - (n + 1)) mod 7 + 1) mod 7 = (n + 1 + (int w - (n + 1))) mod 7"
    by (metis add.commute add.left_commute mod_add_right_eq)
  then show "Weekday (n + int (nat ((int w - (n + 1)) mod 7))) = w" using w by (simp add: Weekday_def)
qed

definition one_day_field :: "schedule \<Rightarrow> bool" where
  "one_day_field s = ((\<not> domStar s \<and> \<not> dowStar s) \<or> (dowStar s \<and> list_all (bit (s_dow s)) [0..<7]) \<or> list_all (bit (s_dom s)) [1..<32])"

lemma day_comes:
  assumes ok: "schedule_ok s" and one: "one_day_field s"
  shows "\<exists>n. day_occurs s n \<and> day + 3 \<le> n \<and> n < day + horizon"
proof (cases "dowStar s \<and> list_all (bit (s_dow s)) [0..<7]")
  case True
  then obtain m d where md: "bit (s_month s) m" "bit (s_dom s) d" "d \<le> longestMonth ! m" using ok by (auto simp: schedule_ok_def)
  then have m: "1 \<le> m" "m \<le> 12" "1 \<le> d" using ok by (auto simp: schedule_ok_def in_range_def)
  obtain y where y: "d_Year (date_of day) + 1 < y" "y \<le> d_Year (date_of day) + 1 + 8" "leap y" using leap_within by blast
  define at where "at = \<lparr>d_Year = y, d_Month = m, d_Day = d\<rparr>"
  have valid: "date_valid at" using m md(3) months_leap[OF y(3) m(1,2)] by (simp add: date_valid_def at_def)
  have "day_occurs s (date_num at)"
    unfolding day_occurs_def dayMatches_def has_bit date_of_num[OF valid] using True md Weekday_less by (auto simp: at_def list_all_iff)
  then show ?thesis using soon_enough[OF valid, of day] y by (auto simp: at_def)
next
  case False
  obtain m w where mw: "bit (s_month s) m" "bit (s_dow s) w" using ok by (auto simp: schedule_ok_def in_range_def)
  have m: "1 \<le> m" "m \<le> 12" "w < 7" using ok mw by (auto simp: schedule_ok_def in_range_def less_Suc_eq_le numeral_eq_Suc)
  define y where "y = d_Year (date_of day) + 2"
  obtain j where j: "j < 7" "Weekday (date_num \<lparr>d_Year = y, d_Month = m, d_Day = 1\<rparr> + int j) = w" using weekday_within[OF m(3)] by blast
  define at where "at = \<lparr>d_Year = y, d_Month = m, d_Day = 1 + j\<rparr>"
  have valid: "date_valid at" using m j(1) months_28[OF m(1,2), of y] by (simp add: date_valid_def at_def)
  have w: "Weekday (date_num at) = w" using j(2) by (simp add: at_def date_num_def add.assoc)
  have "bit (s_dom s) (1 + j) \<or> (\<not> domStar s \<and> \<not> dowStar s)"
    using one False j(1) by (auto simp: one_day_field_def list_all_iff)
  then have "day_occurs s (date_num at)"
    unfolding day_occurs_def dayMatches_def has_bit date_of_num[OF valid] w using mw by (auto simp: at_def)
  then show ?thesis using soon_enough[OF valid, of day] by (auto simp: at_def y_def)
qed

section \<open>Sample schedules\<close>

definition leap_sundays :: schedule where
  "leap_sundays = \<lparr>s_minute = 1, s_hour = 1, s_dom = 536870912, s_month = 4, s_dow = 1, domStar = False, dowStar = True,
     s_text = ''0 0 29 2 */7''\<rparr>"

lemma leap_sundays_parsed: "Parse ''0 0 29 2 */7'' = Inr leap_sundays"
  by code_simp

lemma leap_sundays_days:
  assumes "day_occurs leap_sundays n"
  shows "d_Month (date_of n) = 2" "d_Day (date_of n) = 29" "Weekday n = 0"
proof -
  have month: "bit (4 :: 64 word) m \<longleftrightarrow> m = 2" and dom: "bit (536870912 :: 64 word) d \<longleftrightarrow> d = 29" and dow: "bit (1 :: 64 word) w \<longleftrightarrow> w = 0" for m d w
    using bit_exp_iff[of 2 m, where 'a = "64 word"] bit_exp_iff[of 29 d, where 'a = "64 word"] by (auto simp: bit_1_iff)
  show "d_Month (date_of n) = 2" "d_Day (date_of n) = 29" "Weekday n = 0"
    using assms unfolding day_occurs_def dayMatches_def has_bit Let_def leap_sundays_def schedule.select_convs month dom dow by auto
qed

lemma no_leap_sunday:
  assumes "day_occurs leap_sundays n" "date_num \<lparr>d_Year = 2088, d_Month = 2, d_Day = 29\<rparr> \<le> n"
    "n < date_num \<lparr>d_Year = 2088, d_Month = 2, d_Day = 29\<rparr> + horizon"
  shows "n = date_num \<lparr>d_Year = 2088, d_Month = 2, d_Day = 29\<rparr>"
proof -
  note d = leap_sundays_days[OF assms(1)]
  define y where "y = d_Year (date_of n)"
  have n: "n = date_num \<lparr>d_Year = y, d_Month = 2, d_Day = 29\<rparr>"
    using date_of_spec(1)[of n] d by (cases "date_of n") (simp add: y_def)
  have "date_num \<lparr>d_Year = 2088, d_Month = 2, d_Day = 29\<rparr> = 762320" "year_start 2088 = 762261" "year_start 2118 = 773218" by code_simp+
  then have "2088 \<le> y" "y < 2118" using year_in_range[of 2088 n 2118] assms(2,3) by (auto simp: y_def horizon_def)
  then have "y \<in> set [2088..2117]" unfolding set_upto by simp
  moreover have "list_all (\<lambda>y. leap y \<longrightarrow> Weekday (date_num \<lparr>d_Year = y, d_Month = 2, d_Day = 29\<rparr>) = 0 \<longrightarrow> y = 2088) [2088..2117]" by code_simp
  moreover have "leap y" using date_of_spec(2)[of n] d by (auto simp: date_valid_def y_def months_def split: if_splits)
  ultimately have "y = 2088" unfolding list_all_iff using n d(3) by blast
  then show ?thesis using n by simp
qed

definition paris :: location where
  "paris = \<lparr>l_first = 3600, l_changes = [(63910342800, 7200), (63928486800, 3600)]\<rparr>"

lemma paris_regular: "regular paris"
  by code_simp

definition half_past_two :: schedule where
  "half_past_two = \<lparr>s_minute = 1073741824, s_hour = 4, s_dom = 4294967294, s_month = 8190, s_dow = 127, domStar = True, dowStar = True,
     s_text = ''30 2 * * *''\<rparr>"

lemma half_past_two_parsed: "Parse ''30 2 * * *'' = Inr half_past_two"
  by code_simp

lemma half_past_two_next: "Next half_past_two (Date 2026 3 28 12 0 UTC) paris = 63910342800 * nanos"
proof -
  let ?after = "Date 2026 3 28 12 0 UTC" and ?on = "next_on half_past_two (Date 2026 3 28 12 0 UTC) paris"
  have day: "local_day paris ?after = 739702" by code_simp
  have days: "day_occurs half_past_two 739702" "day_occurs half_past_two 739703" by code_simp+
  have "hours_of half_past_two = [2]" "minutes_of half_past_two = [30]" by code_simp+
  moreover have "\<not> ?after < instant paris 739702 2 30" "?after < instant paris 739703 2 30" "instant paris 739703 2 30 = 63910342800 * nanos"
    by code_simp+
  ultimately have "?on (date_of 739702) = None" "?on (date_of 739703) = Some (63910342800 * nanos)"
    unfolding next_on_instants by simp_all
  then show ?thesis
    unfolding Next_eq day by (subst next_from_step, subst next_from_step) (simp add: days horizon_def)
qed

section \<open>Properties\<close>

text \<open>
  C16: in every zone whose changes are more than two days apart, what \<open>Next\<close> gives, where it is not the zero time, is the first
  occurrence of the schedule after the moment it is asked about: an instant the schedule names, later than the moment, with no
  instant the schedule names between the two, whatever days, gaps and repeated hours do. Where a moment from the zero time on is answered
  with the zero time, every later instant the schedule names is on a day past the horizon.
\<close>

theorem next_is_first_occurrence:
  assumes "regular loc"
  shows "(Next s after loc \<noteq> zero_time \<longrightarrow> occurs s loc (Next s after loc) \<and> after < Next s after loc \<and>
      (\<forall>at. occurs s loc at \<and> after < at \<longrightarrow> Next s after loc \<le> at)) \<and>
    (Next s after loc = zero_time \<and> zero_time \<le> after \<longrightarrow>
      (\<forall>n h m. day_occurs s n \<and> h < 24 \<and> bit (s_hour s) h \<and> m < 60 \<and> bit (s_minute s) m \<and> after < instant loc n h m \<longrightarrow>
         local_day loc after + horizon \<le> n))"
proof (cases "next_from s after loc (local_day loc after) 0")
  case (Some at)
  then show ?thesis using next_least[OF assms Some] by (auto simp: Next_eq)
next
  case None
  have "local_day loc after + horizon \<le> n"
    if o: "day_occurs s n" "h < 24" "bit (s_hour s) h" "m < 60" "bit (s_minute s) m" "after < instant loc n h m" for n h m
  proof (rule ccontr)
    assume "\<not> local_day loc after + horizon \<le> n"
    moreover have "local_day loc after \<le> n" using instant_past[OF assms, of n after h m] o by linarith
    ultimately have "next_on s after loc (date_of n) = None" using next_from_None[OF None _ _ o(1)] by simp
    then have "instant loc n h m \<le> after" using o unfolding next_on_None by blast
    then show False using o(6) by simp
  qed
  then show ?thesis using None by (auto simp: Next_eq)
qed

theorem next_is_first_occurrence_witness:
  "occurs half_past_two paris (63910342800 * nanos) \<and> 63910342800 * nanos \<le> instant paris 739704 2 30"
proof -
  let ?after = "Date 2026 3 28 12 0 UTC"
  have "day_occurs half_past_two 739704" "bit (s_hour half_past_two) 2" "bit (s_minute half_past_two) 30" by code_simp+
  then have "occurs half_past_two paris (instant paris 739704 2 30)"
    unfolding occurs_def by (intro exI[of _ 739704] exI[of _ 2] exI[of _ 30]) simp
  moreover have "?after < instant paris 739704 2 30" by code_simp
  ultimately show ?thesis
    using next_is_first_occurrence[OF paris_regular, of half_past_two ?after] by (simp add: half_past_two_next nanos_def)
qed

text \<open>
  C28: \<open>Resolve\<close> gives a wall clock time its instant: the first at which a clock in the zone shows that time or a later
  one. So it is the time itself where it comes once, its first instance where it comes twice, and the end of the gap
  where it does not come.
\<close>

theorem resolve_is_first_showing:
  assumes "regular loc"
  shows "Date year month day hour minute UTC \<le> wall loc (Resolve year month day hour minute loc) \<and>
    (\<forall>t < Resolve year month day hour minute loc. wall loc t < Date year month day hour minute UTC)"
proof -
  define u where "u = reading year month day hour minute"
  define r where "r = resolve_second loc u"
  have f: "u \<le> r + offset_at loc r" "\<And>s. s < r \<Longrightarrow> s + offset_at loc s < u"
    using resolve_first[OF assms(1), of u] by (auto simp: shows_first_def r_def)
  have R: "Resolve year month day hour minute loc = r * nanos" by (simp add: Resolve_second r_def u_def)
  have want: "Date year month day hour minute UTC = u * nanos" by (simp add: Date_UTC u_def)
  have "wall loc t < u * nanos" if "t < r * nanos" for t
  proof -
    have "t div nanos * nanos \<le> t" using nanos_pos by (simp add: minus_mod_eq_div_mult[symmetric])
    then have "t div nanos < r" using that by (metis nanos_cancel(2) order_le_less_trans)
    define w where "w = t div nanos + offset_at loc (t div nanos)"
    have "w + 1 \<le> u" using f(2)[OF \<open>t div nanos < r\<close>] by (simp add: w_def)
    then have "(w + 1) * nanos \<le> u * nanos" using nanos_pos by (intro mult_right_mono) auto
    then have "w * nanos + nanos \<le> u * nanos" by (simp only: distrib_right mult_1)
    moreover have "wall loc t = w * nanos + t mod nanos" by (simp only: wall_split w_def)
    ultimately show ?thesis using pos_mod_bound[OF nanos_pos, of t] by linarith
  qed
  then show ?thesis unfolding R want wall_seconds using f(1) nanos_pos by (auto intro: mult_right_mono)
qed

theorem resolve_is_first_showing_witness:
  "Resolve 2026 10 25 2 30 paris = Date 2026 10 25 0 30 UTC \<and> wall paris (Date 2026 10 25 0 29 UTC) < Date 2026 10 25 2 30 UTC"
proof -
  have "Resolve 2026 10 25 2 30 paris = Date 2026 10 25 0 30 UTC" "Date 2026 10 25 0 29 UTC < Date 2026 10 25 0 30 UTC" by code_simp+
  then show ?thesis using resolve_is_first_showing[OF paris_regular, of 2026 10 25 2 30] by simp
qed

text \<open>
  C29: a schedule \<open>Parse\<close> accepts comes round, whenever it is asked about: unless both day fields pick days and both have
  to match, \<open>Next\<close> finds an occurrence inside its horizon, and so gives an instant after the moment and never the zero time.
\<close>

theorem schedule_comes_round:
  assumes "Parse expr = Inr s" "one_day_field s" "regular loc" "zero_time \<le> after"
  shows "after < Next s after loc"
proof -
  obtain n where "day_occurs s n" "local_day loc after + 3 \<le> n" "n < local_day loc after + horizon"
    using day_comes[OF Parse_ok[OF assms(1)] assms(2)] by blast
  then obtain at where "next_from s after loc (local_day loc after) 0 = Some at"
    using next_comes[OF assms(3) Parse_ok[OF assms(1)]] by blast
  then show ?thesis using next_least(2)[OF assms(3)] by (simp add: Next_eq)
qed

theorem schedule_comes_round_witness:
  "Date 2026 3 28 12 0 UTC < Next half_past_two (Date 2026 3 28 12 0 UTC) paris"
proof (rule schedule_comes_round[OF half_past_two_parsed _ paris_regular])
  show "one_day_field half_past_two" "zero_time \<le> Date 2026 3 28 12 0 UTC" by code_simp+
qed

text \<open>
  C36: The horizon is too short for a schedule in which both day fields pick days: the leap days that are Sundays, which
  \<open>Parse\<close> accepts, come in 2088 and then in 2128, forty years on, and asked in between \<open>Next\<close> gives up after
  twenty-nine and answers with the zero time.
\<close>

theorem horizon_is_too_short:
  "Parse ''0 0 29 2 */7'' = Inr leap_sundays \<and> occurs leap_sundays UTC (Date 2128 2 29 0 0 UTC) \<and>
   Next leap_sundays (Date 2088 2 29 0 0 UTC) UTC = zero_time"
proof (intro conjI leap_sundays_parsed)
  define n where "n = date_num \<lparr>d_Year = 2128, d_Month = 2, d_Day = 29\<rparr>"
  have "day_occurs leap_sundays n" "bit (s_hour leap_sundays) 0" "bit (s_minute leap_sundays) 0" "Date 2128 2 29 0 0 UTC = instant UTC n 0 0"
    unfolding n_def by code_simp+
  then show "occurs leap_sundays UTC (Date 2128 2 29 0 0 UTC)"
    unfolding occurs_def by (intro exI[of _ n] exI[of _ "0 :: nat"]) auto
  let ?after = "Date 2088 2 29 0 0 UTC" and ?day = "date_num \<lparr>d_Year = 2088, d_Month = 2, d_Day = 29\<rparr>"
  have day: "local_day UTC ?after = ?day" "next_on leap_sundays ?after UTC (date_of ?day) = None" by code_simp+
  have "next_from leap_sundays ?after UTC ?day 0 = None"
  proof (rule ccontr)
    assume "next_from leap_sundays ?after UTC ?day 0 \<noteq> None"
    then obtain at where "next_from leap_sundays ?after UTC ?day 0 = Some at" by auto
    from next_from_Some[OF this] no_leap_sunday day(2) show False by force
  qed
  then show "Next leap_sundays ?after UTC = zero_time" by (simp add: Next_eq day)
qed

text \<open>
  A schedule \<open>Parse\<close> accepts is well formed: each of its five sets names at least one value and only values its field
  counts, Sunday being 0 alone, and, where the days of the month alone decide, some day it names is in some month it names.
\<close>

theorem parsed_schedules_are_well_formed:
  assumes "Parse expr = Inr s"
  shows "schedule_ok s"
  using assms by (rule Parse_ok)

theorem parsed_schedules_are_well_formed_witness: "schedule_ok leap_sundays"
  by (rule parsed_schedules_are_well_formed[OF leap_sundays_parsed])

end
