(* ===== verification/Durations.thy ===== *)
theory Durations
  imports Golib
begin

text \<open>
  Package \<open>graph\<close>, \<open>duration.go\<close>: a duration as the workflow language writes one, a number and one of five units, as a signed
  64-bit count of nanoseconds. \<open>time_Duration_String\<close> is the \<open>String\<close> of \<open>time.Duration\<close>, which writes what the language cannot.
\<close>

section \<open>Reading and writing a duration\<close>

definition durationUnits :: "(string \<times> duration) list" where
  "durationUnits =
     [(''ms'', 1000000), (''s'', 1000000000), (''m'', 60000000000), (''h'', 3600000000000), (''d'', 86400000000000)]"

datatype duration_error = NotADuration string

fun duration_from :: "(string \<times> duration) list \<Rightarrow> string \<Rightarrow> (duration_error, duration) result" where
  "duration_from [] s = Inl (NotADuration s)"
| "duration_from ((suffix, unit) # us) s =
     (case cut_suffix s suffix of
        None \<Rightarrow> duration_from us s
      | Some digits \<Rightarrow>
          if digits = [] then duration_from us s
          else if trim_digits digits \<noteq> [] then Inl (NotADuration s)
          else (case atoi digits of
                  None \<Rightarrow> Inl (NotADuration s)
                | Some n \<Rightarrow> Inr (wrap64 (n * unit))))"

definition ParseDuration :: "string \<Rightarrow> (duration_error, duration) result" where
  "ParseDuration s = duration_from durationUnits s"

text \<open>\<open>fmtFrac\<close>: the last \<open>k\<close> decimal digits as a fraction, without the zeros it ends in, and what is before them.\<close>

definition fmt_frac :: "nat \<Rightarrow> int \<Rightarrow> int \<times> string" where
  "fmt_frac k v =
     (v div 10 ^ k,
      let ds = rev (dropWhile (\<lambda>c. c = CHR ''0'') (rev (pad k (v mod 10 ^ k))))
      in if ds = [] then [] else CHR ''.'' # ds)"

definition time_Duration_String :: "duration \<Rightarrow> string" where
  "time_Duration_String d =
     (let u = \<bar>d\<bar>;
          small = (\<lambda>k suffix. let (n, frac) = fmt_frac k u in itoa n @ frac @ suffix);
          body =
            (if u = 0 then ''0s''
             else if u < 1000 then itoa u @ ''ns''
             else if u < 1000000 then small 3 [CHR 0xC2, CHR 0xB5, CHR ''s'']
             else if u < 1000000000 then small 6 ''ms''
             else let (secs, frac) = fmt_frac 9 u;
                      tail = itoa (secs mod 60) @ frac @ ''s'';
                      mins = secs div 60
                  in if mins = 0 then tail
                     else let tail = itoa (mins mod 60) @ ''m'' @ tail; hours = mins div 60
                          in if hours = 0 then tail else itoa hours @ ''h'' @ tail)
      in if d < 0 then CHR ''-'' # body else body)"

fun duration_text :: "(string \<times> duration) list \<Rightarrow> duration \<Rightarrow> string" where
  "duration_text [] v = time_Duration_String v"
| "duration_text ((suffix, unit) # us) v =
     (if unit dvd v then itoa (v div unit) @ suffix else duration_text us v)"

definition duration_String :: "duration \<Rightarrow> string" where
  "duration_String v = (if v = 0 then ''0s'' else duration_text (rev durationUnits) v)"

section \<open>What a duration is\<close>

lemma atoi_digits:
  assumes "ds \<noteq> []" "list_all is_digit ds"
  shows "atoi ds = (if int (digits_val ds) > max_int64 then None else Some (int (digits_val ds)))"
proof -
  have "hd ds \<noteq> CHR ''-'' \<and> hd ds \<noteq> CHR ''+''" using assms by (cases ds) (auto simp: is_digit_def)
  then show ?thesis using assms by (simp add: atoi_def Let_def max_int64_def)
qed

lemma digits_before_unit:
  assumes "list_all is_digit ds" "ds \<noteq> []" "(suffix, unit) \<in> set durationUnits"
  shows "ParseDuration (ds @ suffix) =
     (if int (digits_val ds) > max_int64 then Inl (NotADuration (ds @ suffix))
      else Inr (wrap64 (int (digits_val ds) * unit)))"
proof -
  have "is_digit (last ds)" using assms(1,2) by (simp add: list_all_iff)
  then have "last ds \<noteq> CHR ''m''" by (auto simp: is_digit_def)
  then have m: "\<not> (\<exists>p. ds = p @ ''m'')" by auto
  have t: "trim_digits ds = []" using assms(1) by (simp add: trim_digits_Nil)
  have c: "cut_suffix (ds @ x) x = Some ds" for x by (simp add: cut_suffix_Some_iff)
  have n: "cut_suffix (ds @ [x]) ''ms'' = None" for x
    using m by (cases "cut_suffix (ds @ [x]) ''ms''") (auto simp: cut_suffix_Some_iff)
  have o: "cut_suffix (ds @ [x]) [y] = None" if "x \<noteq> y" for x y
    using that by (cases "cut_suffix (ds @ [x]) [y]") (auto simp: cut_suffix_Some_iff)
  show ?thesis
    using assms c[of suffix] t atoi_digits[OF assms(2,1)]
    by (auto simp: ParseDuration_def durationUnits_def n o c)
qed

lemma duration_from_Inr:
  "duration_from us s = Inr d \<Longrightarrow>
   \<exists>ds suffix unit. (suffix, unit) \<in> set us \<and> s = ds @ suffix \<and> ds \<noteq> [] \<and> list_all is_digit ds"
proof (induction us s rule: duration_from.induct)
  case (2 suffix unit us s)
  show ?case
  proof (cases "\<exists>ds. cut_suffix s suffix = Some ds \<and> ds \<noteq> []")
    case True
    then obtain ds where ds: "cut_suffix s suffix = Some ds" "ds \<noteq> []" by blast
    then have "list_all is_digit ds" using 2(3) by (simp add: trim_digits_Nil split: if_splits)
    then show ?thesis using ds by (intro exI[of _ ds] exI[of _ suffix] exI[of _ unit]) (simp add: cut_suffix_Some_iff)
  next
    case False
    then have "duration_from us s = Inr d" using 2(3) by (simp split: option.splits)
    then obtain ds x u where "(x, u) \<in> set us" "s = ds @ x" "ds \<noteq> []" "list_all is_digit ds"
      using False 2(1,2) by (cases "cut_suffix s suffix") auto
    then show ?thesis by (intro exI[of _ ds] exI[of _ x] exI[of _ u]) simp
  qed
qed simp

text \<open>
  C34: the durations are exactly the texts of one number in digits, of at most 64 bits, and one of the five units; what they
  stand for is the product, in 64 bits.
\<close>

theorem durations_accepted:
  "ParseDuration s = Inr d \<longleftrightarrow>
   (\<exists>ds suffix unit. (suffix, unit) \<in> set durationUnits \<and> s = ds @ suffix \<and> ds \<noteq> [] \<and> list_all is_digit ds \<and>
      int (digits_val ds) \<le> max_int64 \<and> d = wrap64 (int (digits_val ds) * unit))"
  (is "_ \<longleftrightarrow> ?rhs")
proof
  assume p: "ParseDuration s = Inr d"
  then obtain ds suffix unit where *: "(suffix, unit) \<in> set durationUnits" "s = ds @ suffix" "ds \<noteq> []" "list_all is_digit ds"
    using duration_from_Inr[of durationUnits s d] by (auto simp: ParseDuration_def)
  then have "int (digits_val ds) \<le> max_int64 \<and> d = wrap64 (int (digits_val ds) * unit)"
    using p digits_before_unit[OF *(4,3,1)] by (simp split: if_splits)
  with * show ?rhs by (intro exI[of _ ds] exI[of _ suffix] exI[of _ unit]) simp
next
  assume ?rhs
  then show "ParseDuration s = Inr d" using digits_before_unit by fastforce
qed

lemma duration_text_unit:
  "\<exists>(suffix, unit) \<in> set us. unit dvd v \<Longrightarrow>
   \<exists>(suffix, unit) \<in> set us. unit dvd v \<and> duration_text us v = itoa (v div unit) @ suffix"
  by (induction us v rule: duration_text.induct) auto

text \<open>A duration of whole milliseconds that is written is read back as it was.\<close>

theorem durations_read_back:
  assumes "0 \<le> d" "d \<le> max_int64" "1000000 dvd d"
  shows "ParseDuration (duration_String d) = Inr d"
proof (cases "d = 0")
  case True
  then show ?thesis by (simp add: duration_String_def) code_simp
next
  case False
  obtain suffix unit where u: "(suffix, unit) \<in> set durationUnits" "unit dvd d" "duration_String d = itoa (d div unit) @ suffix"
    using duration_text_unit[of "rev durationUnits" d] assms(3) False by (auto simp: duration_String_def durationUnits_def)
  have "0 < unit" using u(1) by (auto simp: durationUnits_def)
  then have n: "0 \<le> d div unit" "d div unit \<le> d" using assms(1) int_div_le_self[of d unit] False
    by (auto simp: pos_imp_zdiv_nonneg_iff)
  then have "itoa (d div unit) = digits_of (nat (d div unit))" by (simp add: itoa_def)
  moreover have "int (digits_val (digits_of (nat (d div unit)))) * unit = d" using u(2) n(1) by simp
  moreover have "list_all is_digit (digits_of k)" for k by (simp add: list_all_iff digits_of_digits)
  ultimately show ?thesis
    using digits_before_unit[OF _ _ u(1), of "digits_of (nat (d div unit))"] u(3) n assms
    by (simp add: wrap64_id max_int64_def)
qed

theorem durations_read_back_witness: "ParseDuration (duration_String 5400000000000) = Inr 5400000000000"
  by (rule durations_read_back) (simp_all add: max_int64_def)

text \<open>
  A number of days within 64 bits whose nanoseconds are not: the duration accepted is another one, before zero. And a
  duration that is not written in the largest unit it is a multiple of is not written back as it was read.
\<close>

theorem durations_wrap: "ParseDuration ''106752d'' = Inr (- 9223371273709551616)"
  using digits_before_unit[of "''106752''" "''d''" 86400000000000]
  by (simp add: durationUnits_def is_digit_def digits_val_def digit_val_def max_int64_def wrap64_def)

theorem durations_are_rewritten:
  "ParseDuration ''60s'' = Inr 60000000000 \<and> duration_String 60000000000 = ''1m''"
proof
  show "ParseDuration ''60s'' = Inr 60000000000"
    using digits_before_unit[of "''60''" "''s''" 1000000000]
    by (simp add: durationUnits_def is_digit_def digits_val_def digit_val_def max_int64_def wrap64_def)
  show "duration_String 60000000000 = ''1m''"
    by (simp add: duration_String_def durationUnits_def itoa_def digits_of.simps digit_char_def) code_simp
qed

end
