(* ===== verification/Git_Objects.thy ===== *)
theory Git_Objects
  imports Golib
begin

text \<open>
  Package \<open>repo\<close>, the objects of git: their names and types (\<open>object.go\<close>), the names a tree may hold (\<open>names.go\<close>) and
  trees themselves (\<open>tree.go\<close>). Bytes are characters and an identifier is its twenty bytes. A refusal is the type of
  the object and the name git gives the check that failed; the sentence it is explained in is left out. A mode is
  a natural number: the code refuses one above 16 bits before it could overflow.
\<close>

section \<open>Identifiers and types\<close>

definition hex_byte :: "char \<Rightarrow> string" where
  "hex_byte c = [hex_char (byte c div 16), hex_char (byte c mod 16)]"

definition id_String :: "string \<Rightarrow> string" where
  "id_String i = concat (map hex_byte i)"

definition id_zero :: string where "id_zero = replicate 20 (CHR 0x00)"

definition id_IsZero :: "string \<Rightarrow> bool" where
  "id_IsZero i = (i = id_zero)"

definition lower_hex_char :: "char \<Rightarrow> bool" where
  "lower_hex_char c = (let b = byte c in (48 \<le> b \<and> b \<le> 57) \<or> (97 \<le> b \<and> b \<le> 102))"

definition lowerHex :: "string \<Rightarrow> bool" where
  "lowerHex s = list_all lower_hex_char s"

definition hex_val :: "char \<Rightarrow> nat" where
  "hex_val c = (if byte c \<le> 57 then byte c - 48 else byte c - 87)"

fun hex_Decode :: "string \<Rightarrow> string" where
  "hex_Decode (a # b # s) = char_of (16 * hex_val a + hex_val b) # hex_Decode s"
| "hex_Decode s = []"

definition ParseID :: "string \<Rightarrow> (string, string) result" where
  "ParseID s = (if length s \<noteq> 2 * 20 \<or> \<not> lowerHex s then Inl s else Inr (hex_Decode s))"

definition TypeCommit :: nat where "TypeCommit = 1"
definition TypeTree :: nat where "TypeTree = 2"
definition TypeBlob :: nat where "TypeBlob = 3"
definition TypeTag :: nat where "TypeTag = 4"

definition type_String :: "nat \<Rightarrow> string" where
  "type_String t =
     (if t = TypeCommit then ''commit'' else if t = TypeTree then ''tree'' else if t = TypeBlob then ''blob''
      else if t = TypeTag then ''tag'' else ''type '' @ itoa (int t))"

definition type_valid :: "nat \<Rightarrow> bool" where
  "type_valid t = (TypeCommit \<le> t \<and> t \<le> TypeTag)"

definition parseType :: "string \<Rightarrow> nat option" where
  "parseType s = find (\<lambda>t. s = type_String t) [TypeCommit, TypeTree, TypeBlob, TypeTag]"

section \<open>Names\<close>

text \<open>
  \<open>strings.Map\<close> by a function of one rune, given and answered as its bytes; a byte that begins no rune is replaced by the
  replacement character, as \<open>strings.Map\<close> does.
\<close>

function map_runes :: "(string \<Rightarrow> string) \<Rightarrow> string \<Rightarrow> string" where
  "map_runes f [] = []"
| "map_runes f (c # cs) =
     (if byte c < 128 then f [c] @ map_runes f cs
      else let k = utf8_len (map byte (take 4 (c # cs))) in
           if k = 0 then map char_of [239, 191, 189 :: nat] @ map_runes f cs
           else f (take k (c # cs)) @ map_runes f (drop (k - 1) cs))"
  by pat_completeness auto
termination
  by (relation "measure (\<lambda>(f, s). length s)") auto

definition hfsIgnores :: "nat \<Rightarrow> bool" where
  "hfsIgnores r = ((8204 \<le> r \<and> r \<le> 8207) \<or> (8234 \<le> r \<and> r \<le> 8238) \<or> (8298 \<le> r \<and> r \<le> 8303) \<or> r = 65279)"

definition rune3 :: "string \<Rightarrow> nat" where
  "rune3 bs = (byte (bs ! 0) mod 16) * 4096 + (byte (bs ! 1) mod 64) * 64 + byte (bs ! 2) mod 64"

definition hfsName :: "string \<Rightarrow> string" where
  "hfsName name = map_runes (\<lambda>r. if length r = 3 \<and> hfsIgnores (rune3 r) then [] else r) name"

definition asciiLower :: "string \<Rightarrow> string" where
  "asciiLower s = map_runes (\<lambda>r. case r of [c] \<Rightarrow> if 65 \<le> byte c \<and> byte c \<le> 90 then [char_of (byte c + 32)] else r | _ \<Rightarrow> r) s"

definition trim_right :: "char set \<Rightarrow> string \<Rightarrow> string" where
  "trim_right cs s = rev (dropWhile (\<lambda>c. c \<in> cs) (rev s))"

definition ntfsName :: "string \<Rightarrow> string" where
  "ntfsName name = trim_right {CHR ''.'', CHR '' ''} (case cut_at (CHR '':'') name of None \<Rightarrow> name | Some (a, b) \<Rightarrow> a)"

definition anyPart :: "string \<Rightarrow> (string \<Rightarrow> bool) \<Rightarrow> bool" where
  "anyPart name f = list_ex f (split_on (CHR 0x5C) name)"

definition dotGitPart :: "string \<Rightarrow> bool" where
  "dotGitPart name =
     (let s = asciiLower (ntfsName (hfsName name)) in
      if s = ''.git'' then True
      else case cut_prefix s ''git~'' of None \<Rightarrow> False | Some digits \<Rightarrow> digits \<noteq> [] \<and> list_all is_digit digits)"

definition DotGit :: "string \<Rightarrow> bool" where
  "DotGit name = anyPart name dotGitPart"

definition ntfsDotGitmodules :: "string \<Rightarrow> bool" where
  "ntfsDotGitmodules name =
     (let lower = asciiLower (ntfsName name) in
      if lower = ''.gitmodules'' then True
      else if length lower = 8 \<and> take 7 lower = ''gitmod~'' \<and> CHR ''1'' \<le> lower ! 7 \<and> lower ! 7 \<le> CHR ''4'' then True
      else if length lower \<noteq> 8 then False
      else case cut_at (CHR ''~'') lower of
             None \<Rightarrow> False
           | Some (before_tilde, digits) \<Rightarrow>
               if length before_tilde > 6 \<or> before_tilde \<noteq> take (length before_tilde) ''gi7eba'' then False
               else digits \<noteq> [] \<and> CHR ''1'' \<le> hd digits \<and> hd digits \<le> CHR ''9'' \<and> list_all is_digit digits)"

definition dotGitmodules :: "string \<Rightarrow> bool" where
  "dotGitmodules name = anyPart name (\<lambda>part. asciiLower (hfsName part) = ''.gitmodules'' \<or> ntfsDotGitmodules part)"

section \<open>Trees\<close>

definition ModeTree :: nat where "ModeTree = 16384"
definition ModeFile :: nat where "ModeFile = 33188"
definition ModeExecutable :: nat where "ModeExecutable = 33261"
definition ModeSymlink :: nat where "ModeSymlink = 40960"
definition ModeSubmodule :: nat where "ModeSubmodule = 57344"

fun octal_of :: "nat \<Rightarrow> string" where
  "octal_of n = (if n < 8 then [digit_char n] else octal_of (n div 8) @ [digit_char (n mod 8)])"

declare octal_of.simps [simp del]

definition mode_String :: "nat \<Rightarrow> string" where
  "mode_String m = octal_of m"

definition mode_IsRegular :: "nat \<Rightarrow> bool" where
  "mode_IsRegular m = (m = ModeFile \<or> m = ModeExecutable)"

definition mode_valid :: "nat \<Rightarrow> bool" where
  "mode_valid m = (m \<in> {ModeTree, ModeFile, ModeExecutable, ModeSymlink, ModeSubmodule})"

record tree_entry =
  te_Name :: string
  te_Mode :: nat
  te_ID :: string

datatype object_error = ObjectError nat string

definition MaxNameBytes :: nat where "MaxNameBytes = 4096"

definition octal_digit :: "char \<Rightarrow> nat \<Rightarrow> (object_error, nat) result" where
  "octal_digit c m =
     (if c < CHR ''0'' \<or> c > CHR ''7'' then Inl (ObjectError TypeTree ''badTree'')
      else let m' = 8 * m + digit_val c in
           if m' > 65535 then Inl (ObjectError TypeTree ''badFilemode'') else Inr m')"

definition parseMode :: "string \<Rightarrow> (object_error, nat) result" where
  "parseMode b =
     (if b = [] then Inl (ObjectError TypeTree ''badTree'')
      else rbind (rfold octal_digit b 0) (\<lambda>m.
           if hd b = CHR ''0'' then Inl (ObjectError TypeTree ''zeroPaddedFilemode'')
           else if \<not> mode_valid m then Inl (ObjectError TypeTree ''badFilemode'')
           else Inr m))"

definition checkEntry :: "tree_entry \<Rightarrow> (object_error, unit) result" where
  "checkEntry e =
     (if te_Name e = [] then Inl (ObjectError TypeTree ''badTree'')
      else if length (te_Name e) > MaxNameBytes then Inl (ObjectError TypeTree ''largePathname'')
      else if CHR ''/'' \<in> set (te_Name e) then Inl (ObjectError TypeTree ''fullPathname'')
      else if te_Name e = ''.'' then Inl (ObjectError TypeTree ''hasDot'')
      else if te_Name e = ''..'' then Inl (ObjectError TypeTree ''hasDotdot'')
      else if DotGit (te_Name e) then Inl (ObjectError TypeTree ''hasDotgit'')
      else if id_IsZero (te_ID e) then Inl (ObjectError TypeTree ''nullSha1'')
      else if dotGitmodules (te_Name e) \<and> te_Mode e = ModeSymlink then Inl (ObjectError TypeTree ''gitmodulesSymlink'')
      else if dotGitmodules (te_Name e) \<and> \<not> mode_IsRegular (te_Mode e) then Inl (ObjectError TypeTree ''gitmodulesBlob'')
      else Inr ())"

definition next_entry :: "string \<Rightarrow> (object_error, tree_entry \<times> string) result" where
  "next_entry data =
     (case cut_at (CHR '' '') data of
        None \<Rightarrow> Inl (ObjectError TypeTree ''badTree'')
      | Some (b, data) \<Rightarrow>
          rbind (parseMode b) (\<lambda>mode.
          case cut_at (CHR 0x00) data of
            None \<Rightarrow> Inl (ObjectError TypeTree ''badTree'')
          | Some (name, data) \<Rightarrow>
              if length data < 20 then Inl (ObjectError TypeTree ''badTree'')
              else let e = \<lparr>te_Name = name, te_Mode = mode, te_ID = take 20 data\<rparr> in
                   rbind (checkEntry e) (\<lambda>_. Inr (e, drop 20 data))))"

definition directoryMayFollow :: "string \<Rightarrow> string \<Rightarrow> bool" where
  "directoryMayFollow file name =
     (cut_prefix name file \<noteq> None \<and> (length name = length file \<or> name ! length file < CHR ''/''))"

definition entry_next :: "nat \<Rightarrow> tree_entry \<Rightarrow> int" where
  "entry_next n e =
     (if length (te_Name e) > n then int (byte (te_Name e ! n))
      else if te_Mode e = ModeTree then int (byte (CHR ''/'')) else 0)"

definition compareEntries :: "tree_entry \<Rightarrow> tree_entry \<Rightarrow> int" where
  "compareEntries a b =
     (let n = min (length (te_Name a)) (length (te_Name b)) in
      if take n (te_Name a) < take n (te_Name b) then -1
      else if take n (te_Name b) < take n (te_Name a) then 1
      else entry_next n a - entry_next n b)"

definition place :: "tree_entry option \<Rightarrow> string list \<Rightarrow> tree_entry \<Rightarrow> (object_error, string list) result" where
  "place prev files e =
     (let c = (case prev of None \<Rightarrow> -1 | Some p \<Rightarrow> compareEntries p e) in
      if c = 0 then Inl (ObjectError TypeTree ''duplicateEntries'')
      else if c > 0 then Inl (ObjectError TypeTree ''treeNotSorted'')
      else let files = dropWhile (\<lambda>f. \<not> directoryMayFollow f (te_Name e)) files in
           if te_Mode e = ModeTree \<and> files \<noteq> [] \<and> hd files = te_Name e then Inl (ObjectError TypeTree ''duplicateEntries'')
           else if te_Mode e \<noteq> ModeTree then Inr (te_Name e # files)
           else Inr files)"

lemma next_entry_Inr:
  assumes "next_entry data = Inr (e, rest)"
  obtains b tail body where "cut_at (CHR '' '') data = Some (b, tail)" "parseMode b = Inr (te_Mode e)"
    "cut_at (CHR 0x00) tail = Some (te_Name e, body)" "20 \<le> length body" "te_ID e = take 20 body" "rest = drop 20 body"
    "checkEntry e = Inr ()"
proof -
  obtain b tail where cut: "cut_at (CHR '' '') data = Some (b, tail)"
    using assms by (auto simp: next_entry_def split: option.splits)
  then obtain mode where mode: "parseMode b = Inr mode"
    using assms by (auto simp: next_entry_def rbind_Inr_iff)
  then obtain name body where name: "cut_at (CHR 0x00) tail = Some (name, body)"
    using assms cut by (auto simp: next_entry_def split: option.splits)
  show thesis
    using assms that[OF cut] mode name by (auto simp: next_entry_def cut rbind_Inr_iff Let_def split: if_splits)
qed

lemma next_entry_shorter: "next_entry data = Inr (e, rest) \<Longrightarrow> length rest < length data"
  by (erule next_entry_Inr) (auto simp: cut_at_Some)

function eachEntry :: "tree_entry option \<Rightarrow> string list \<Rightarrow> string \<Rightarrow> (object_error, tree_entry list) result" where
  "eachEntry prev files data =
     (if data = [] then Inr []
      else case next_entry data of
             Inl err \<Rightarrow> Inl err
           | Inr (e, rest) \<Rightarrow>
               (case place prev files e of
                  Inl err \<Rightarrow> Inl err
                | Inr files' \<Rightarrow> rbind (eachEntry (Some e) files' rest) (\<lambda>es. Inr (e # es))))"
  by pat_completeness auto
termination
  by (relation "measure (\<lambda>(prev, files, data). length data)") (auto dest: next_entry_shorter)

declare eachEntry.simps [simp del]

definition ParseTree :: "string \<Rightarrow> (object_error, tree_entry list) result" where
  "ParseTree data = eachEntry None [] data"

definition checkTree :: "string \<Rightarrow> (object_error, unit) result" where
  "checkTree data = rbind (eachEntry None [] data) (\<lambda>_. Inr ())"

fun insert_entry :: "tree_entry \<Rightarrow> tree_entry list \<Rightarrow> tree_entry list" where
  "insert_entry e [] = [e]"
| "insert_entry e (x # xs) = (if compareEntries e x < 0 then e # x # xs else x # insert_entry e xs)"

text \<open>\<open>slices.SortStableFunc\<close> by \<open>compareEntries\<close>, as an insertion of each entry after those it does not precede.\<close>

definition sort_entries :: "tree_entry list \<Rightarrow> tree_entry list" where
  "sort_entries es = foldl (\<lambda>acc e. insert_entry e acc) [] es"

definition entry_text :: "tree_entry \<Rightarrow> string" where
  "entry_text e = mode_String (te_Mode e) @ '' '' @ te_Name e @ [CHR 0x00] @ te_ID e"

definition write_entry :: "tree_entry \<Rightarrow> string \<Rightarrow> (object_error, string) result" where
  "write_entry e b =
     (if \<not> mode_valid (te_Mode e) then Inl (ObjectError TypeTree ''badFilemode'')
      else if CHR 0x00 \<in> set (te_Name e) then Inl (ObjectError TypeTree ''badTree'')
      else Inr (b @ entry_text e))"

definition EncodeTree :: "tree_entry list \<Rightarrow> (object_error, string) result" where
  "EncodeTree es =
     rbind (rfold write_entry (sort_entries es) []) (\<lambda>b.
     rbind (ParseTree b) (\<lambda>_. Inr b))"

end
