(* ===== verification/Commits.thy ===== *)
theory Commits
  imports Git_Objects
begin

text \<open>
  Package \<open>repo\<close>, \<open>commit.go\<close>, \<open>tag.go\<close> and \<open>verifyHeaders\<close> of \<open>fsck.go\<close>: commits and annotated tags, read from the text git
  writes them as and written back. A pointer to a signature that may be nil is an option.
\<close>

section \<open>Signatures\<close>

abbreviation nl :: char where "nl \<equiv> CHR 0x0A"
abbreviation space :: char where "space \<equiv> CHR '' ''"
abbreviation nul :: char where "nul \<equiv> CHR 0x00"

record Signature =
  sg_Name :: string
  sg_Email :: string
  sg_When :: int
  sg_Zone :: string

definition signature_String :: "Signature \<Rightarrow> string" where
  "signature_String s = sg_Name s @ '' <'' @ sg_Email s @ ''> '' @ itoa (sg_When s) @ '' '' @ sg_Zone s"

definition validZone :: "string \<Rightarrow> bool" where
  "validZone z \<longleftrightarrow> length z = 5 \<and> (z ! 0 = CHR ''+'' \<or> z ! 0 = CHR ''-'') \<and> trim_digits (tl z) = []"

definition angle :: "char \<Rightarrow> bool" where "angle c \<longleftrightarrow> c = CHR ''<'' \<or> c = CHR ''>''"

text \<open>What follows the email: the date and the zone.\<close>

definition parseDate :: "nat \<Rightarrow> string \<Rightarrow> string \<Rightarrow> string \<Rightarrow> (object_error, Signature) result" where
  "parseDate t name email rest0 =
     (case cut_prefix rest0 '' '' of
        None \<Rightarrow> Inl (ObjectError t ''missingSpaceBeforeDate'')
      | Some rest \<Rightarrow>
          if cut_prefix rest ''0'' \<noteq> None \<and> cut_prefix rest ''0 '' = None then Inl (ObjectError t ''zeroPaddedDate'')
          else let digits = takeWhile is_digit rest in
               if digits = [] then Inl (ObjectError t ''badDate'')
               else if int (digits_val digits) > max_int64 then Inl (ObjectError t ''badDateOverflow'')
               else (case cut_prefix (dropWhile is_digit rest) '' '' of
                       None \<Rightarrow> Inl (ObjectError t ''badTimezone'')
                     | Some zone \<Rightarrow>
                         if \<not> validZone zone then Inl (ObjectError t ''badTimezone'')
                         else Inr \<lparr>sg_Name = name, sg_Email = email, sg_When = int (digits_val digits), sg_Zone = zone\<rparr>))"

definition parseSignature :: "nat \<Rightarrow> string \<Rightarrow> (object_error, Signature) result" where
  "parseSignature t line =
     (let name = takeWhile (\<lambda>c. \<not> angle c) line; rest = dropWhile (\<lambda>c. \<not> angle c) line in
      if cut_prefix line ''<'' \<noteq> None then Inl (ObjectError t ''missingNameBeforeEmail'')
      else if rest = [] then Inl (ObjectError t ''missingEmail'')
      else if hd rest = CHR ''>'' then Inl (ObjectError t ''badName'')
      else if last name \<noteq> space then Inl (ObjectError t ''missingSpaceBeforeEmail'')
      else let email = takeWhile (\<lambda>c. \<not> angle c) (tl rest); rest2 = dropWhile (\<lambda>c. \<not> angle c) (tl rest) in
           if rest2 = [] \<or> hd rest2 = CHR ''<'' then Inl (ObjectError t ''badEmail'')
           else parseDate t (butlast name) email (tl rest2))"

section \<open>Headers\<close>

record Header =
  h_Key :: string
  h_Value :: string

fun verify_loop :: "nat \<Rightarrow> string \<Rightarrow> (object_error, unit) result option" where
  "verify_loop t [] = None"
| "verify_loop t (c # cs) =
     (if c = nul then Some (Inl (ObjectError t ''nulInHeader''))
      else if c = nl \<and> cs \<noteq> [] \<and> hd cs = nl then Some (Inr ())
      else verify_loop t cs)"

definition verifyHeaders :: "nat \<Rightarrow> string \<Rightarrow> (object_error, unit) result" where
  "verifyHeaders t data =
     (case verify_loop t data of
        Some r \<Rightarrow> r
      | None \<Rightarrow> if data \<noteq> [] \<and> last data = nl then Inr () else Inl (ObjectError t ''unterminatedHeader''))"

fun cut_blank :: "string \<Rightarrow> (string \<times> string) option" where
  "cut_blank (c # d # cs) =
     (if c = nl \<and> d = nl then Some ([nl], cs)
      else map_option (\<lambda>(h, m). (c # h, m)) (cut_blank (d # cs)))"
| "cut_blank s = None"

definition splitHeaders :: "string \<Rightarrow> string list \<times> string" where
  "splitHeaders data =
     (let (head, message) = (case cut_blank data of Some (h, m) \<Rightarrow> (h, m) | None \<Rightarrow> (data, []))
      in (split_on nl (case cut_suffix head [nl] of Some h \<Rightarrow> h | None \<Rightarrow> head), message))"

definition end_header :: "Header list \<Rightarrow> string list \<Rightarrow> Header list" where
  "end_header hs val = (if hs = [] then [] else butlast hs @ [(last hs)\<lparr>h_Value := join_with [nl] val\<rparr>])"

fun headers_from :: "Header list \<Rightarrow> string list \<Rightarrow> string list \<Rightarrow> Header list" where
  "headers_from hs val [] = end_header hs val"
| "headers_from hs val (line # lines) =
     (case cut_prefix line '' '' of
        Some rest \<Rightarrow>
          if hs \<noteq> [] then headers_from hs (val @ [rest]) lines
          else headers_from (end_header hs val @ [\<lparr>h_Key = [], h_Value = []\<rparr>]) [rest] lines
      | None \<Rightarrow>
          let (key, first) = (case cut_at space line of Some (k, f) \<Rightarrow> (k, f) | None \<Rightarrow> (line, [])) in
          headers_from (end_header hs val @ [\<lparr>h_Key = key, h_Value = []\<rparr>]) [first] lines)"

definition parseHeaders :: "string list \<Rightarrow> Header list" where
  "parseHeaders lines = headers_from [] [] lines"

datatype encode_error =
    Refused object_error
  | HeaderUnwritable nat string
  | TagNameUnwritable string
  | ReadsBackOther

definition contains_any :: "string \<Rightarrow> string \<Rightarrow> bool" where
  "contains_any s chars \<longleftrightarrow> list_ex (\<lambda>c. c \<in> set chars) s"

definition encodeSignature :: "nat \<Rightarrow> string \<Rightarrow> Signature \<Rightarrow> (encode_error, string) result" where
  "encodeSignature t key s =
     (if contains_any (sg_Name s) [CHR ''<'', CHR ''>'', nl, nul] then Inl (Refused (ObjectError t ''badName''))
      else if contains_any (sg_Email s) [CHR ''<'', CHR ''>'', nl, nul] then Inl (Refused (ObjectError t ''badEmail''))
      else if sg_When s < 0 then Inl (Refused (ObjectError t ''badDate''))
      else if \<not> validZone (sg_Zone s) then Inl (Refused (ObjectError t ''badTimezone''))
      else Inr (key @ '' '' @ signature_String s @ [nl]))"

definition header_text :: "Header \<Rightarrow> string" where
  "header_text h =
     (let (first, more) = (case cut_at nl (h_Value h) of Some (f, r) \<Rightarrow> (f, Some r) | None \<Rightarrow> (h_Value h, None)) in
      h_Key h @ (if h_Key h = [] \<or> first \<noteq> [] then '' '' @ first else []) @
      (case more of Some rest \<Rightarrow> [nl, space] @ concat (map (\<lambda>c. if c = nl then [nl, space] else [c]) rest) | None \<Rightarrow> []) @
      [nl])"

fun encode_headers_from :: "nat \<Rightarrow> nat \<Rightarrow> Header list \<Rightarrow> (encode_error, string) result" where
  "encode_headers_from t i [] = Inr []"
| "encode_headers_from t i (h # hs) =
     (if contains_any (h_Key h) [space, nl, nul] \<or> (h_Key h = [] \<and> i > 0) \<or> nul \<in> set (h_Value h)
      then Inl (HeaderUnwritable t (h_Key h))
      else rbind (encode_headers_from t (i + 1) hs) (\<lambda>b. Inr (header_text h @ b)))"

definition encodeHeaders :: "nat \<Rightarrow> Header list \<Rightarrow> (encode_error, string) result" where
  "encodeHeaders t hs = encode_headers_from t 0 hs"

section \<open>Commits\<close>

record Commit =
  co_Tree :: string
  co_Parents :: "string list"
  co_Author :: Signature
  co_Committer :: Signature
  co_Headers :: "Header list"
  co_Message :: string

text \<open>The closure \<open>next\<close> of both readers: the value of the next line, where it has the key.\<close>

definition next_value :: "string \<Rightarrow> string list \<Rightarrow> (string \<times> string list) option" where
  "next_value key lines =
     (case lines of
        [] \<Rightarrow> None
      | l # ls \<Rightarrow> map_option (\<lambda>v. (v, ls)) (cut_prefix l (key @ '' '')))"

function parse_parents :: "string list \<Rightarrow> (object_error, string list \<times> string list) result" where
  "parse_parents lines =
     (case next_value ''parent'' lines of
        None \<Rightarrow> Inr ([], lines)
      | Some (val, rest) \<Rightarrow>
          (case ParseID val of
             Inl _ \<Rightarrow> Inl (ObjectError TypeCommit ''badParentSha1'')
           | Inr parent \<Rightarrow> rbind (parse_parents rest) (\<lambda>(ps, rest'). Inr (parent # ps, rest'))))"
  by pat_completeness auto
termination
  by (relation "measure length") (auto simp: next_value_def split: list.splits)

declare parse_parents.simps [simp del]

function parse_authors :: "Signature option \<Rightarrow> string list \<Rightarrow> (object_error, Signature option \<times> string list) result" where
  "parse_authors a lines =
     (case next_value ''author'' lines of
        None \<Rightarrow> Inr (a, lines)
      | Some (val, rest) \<Rightarrow>
          if a \<noteq> None then Inl (ObjectError TypeCommit ''multipleAuthors'')
          else rbind (parseSignature TypeCommit val) (\<lambda>s. parse_authors (Some s) rest))"
  by pat_completeness auto
termination
  by (relation "measure (length \<circ> snd)") (auto simp: next_value_def split: list.splits)

declare parse_authors.simps [simp del]

definition ParseCommit :: "string \<Rightarrow> (object_error, Commit) result" where
  "ParseCommit data =
     rbind (verifyHeaders TypeCommit data) (\<lambda>_.
     if nul \<in> set data then Inl (ObjectError TypeCommit ''nulInCommit'')
     else let (lines, message) = splitHeaders data in
     case next_value ''tree'' lines of
       None \<Rightarrow> Inl (ObjectError TypeCommit ''missingTree'')
     | Some (val, lines1) \<Rightarrow>
     (case ParseID val of
        Inl _ \<Rightarrow> Inl (ObjectError TypeCommit ''badTreeSha1'')
      | Inr tree \<Rightarrow>
     rbind (parse_parents lines1) (\<lambda>(parents, lines2).
     rbind (parse_authors None lines2) (\<lambda>(author, lines3).
     case author of
       None \<Rightarrow> Inl (ObjectError TypeCommit ''missingAuthor'')
     | Some a \<Rightarrow>
     (case next_value ''committer'' lines3 of
        None \<Rightarrow> Inl (ObjectError TypeCommit ''missingCommitter'')
      | Some (val, lines4) \<Rightarrow>
     rbind (parseSignature TypeCommit val) (\<lambda>c.
     Inr \<lparr>co_Tree = tree, co_Parents = parents, co_Author = a, co_Committer = c,
          co_Headers = parseHeaders lines4, co_Message = message\<rparr>))))))"

definition commit_text :: "Commit \<Rightarrow> (encode_error, string) result" where
  "commit_text c =
     rbind (encodeSignature TypeCommit ''author'' (co_Author c)) (\<lambda>a.
     rbind (encodeSignature TypeCommit ''committer'' (co_Committer c)) (\<lambda>m.
     rbind (encodeHeaders TypeCommit (co_Headers c)) (\<lambda>h.
     Inr (''tree '' @ id_String (co_Tree c) @ [nl] @
          concat (map (\<lambda>p. ''parent '' @ id_String p @ [nl]) (co_Parents c)) @ a @ m @ h @ [nl] @ co_Message c))))"

definition Commit_Encode :: "Commit \<Rightarrow> (encode_error, string) result" where
  "Commit_Encode c =
     rbind (commit_text c) (\<lambda>data.
     case ParseCommit data of
       Inl err \<Rightarrow> Inl (Refused err)
     | Inr back \<Rightarrow> if back \<noteq> c then Inl ReadsBackOther else Inr data)"

section \<open>Tags\<close>

record Tag =
  tg_Object :: string
  tg_Type :: nat
  tg_Name :: string
  tg_Tagger :: "Signature option"
  tg_Headers :: "Header list"
  tg_Message :: string

definition parse_tagger :: "string list \<Rightarrow> (object_error, Signature option \<times> string list) result" where
  "parse_tagger lines =
     (case next_value ''tagger'' lines of
        None \<Rightarrow> Inr (None, lines)
      | Some (val, rest) \<Rightarrow> rbind (parseSignature TypeTag val) (\<lambda>s. Inr (Some s, rest)))"

definition ParseTag :: "string \<Rightarrow> (object_error, Tag) result" where
  "ParseTag data =
     rbind (verifyHeaders TypeTag data) (\<lambda>_.
     let (lines, message) = splitHeaders data in
     case next_value ''object'' lines of
       None \<Rightarrow> Inl (ObjectError TypeTag ''missingObject'')
     | Some (val, lines1) \<Rightarrow>
     (case ParseID val of
        Inl _ \<Rightarrow> Inl (ObjectError TypeTag ''badObjectSha1'')
      | Inr obj \<Rightarrow>
     (case next_value ''type'' lines1 of
        None \<Rightarrow> Inl (ObjectError TypeTag ''missingTypeEntry'')
      | Some (val, lines2) \<Rightarrow>
     (case parseType val of
        None \<Rightarrow> Inl (ObjectError TypeTag ''badType'')
      | Some t \<Rightarrow>
     (case next_value ''tag'' lines2 of
        None \<Rightarrow> Inl (ObjectError TypeTag ''missingTagEntry'')
      | Some (name, lines3) \<Rightarrow>
     rbind (parse_tagger lines3) (\<lambda>(tagger, lines4).
     Inr \<lparr>tg_Object = obj, tg_Type = t, tg_Name = name, tg_Tagger = tagger,
          tg_Headers = parseHeaders lines4, tg_Message = message\<rparr>))))))"

definition tag_text :: "Tag \<Rightarrow> (encode_error, string) result" where
  "tag_text t =
     rbind (case tg_Tagger t of None \<Rightarrow> Inr [] | Some s \<Rightarrow> encodeSignature TypeTag ''tagger'' s) (\<lambda>g.
     rbind (encodeHeaders TypeTag (tg_Headers t)) (\<lambda>h.
     Inr (''object '' @ id_String (tg_Object t) @ [nl] @ ''type '' @ type_String (tg_Type t) @ [nl] @
          ''tag '' @ tg_Name t @ [nl] @ g @ h @ [nl] @ tg_Message t)))"

definition Tag_Encode :: "Tag \<Rightarrow> (encode_error, string) result" where
  "Tag_Encode t =
     (if \<not> type_valid (tg_Type t) then Inl (Refused (ObjectError TypeTag ''badType''))
      else if contains_any (tg_Name t) [nl, nul] then Inl (TagNameUnwritable (tg_Name t))
      else rbind (tag_text t) (\<lambda>data.
           case ParseTag data of
             Inl err \<Rightarrow> Inl (Refused err)
           | Inr back \<Rightarrow> if back \<noteq> t then Inl ReadsBackOther else Inr data))"

end
