(* ===== verification/Bytes.thy ===== *)
theory Bytes
  imports Golib "HOL-Library.Word"
begin

text \<open>
  What the theories of package \<open>repo\<close> share about bytes: a character and its number, its two hexadecimal digits, and a
  number of 64 bits put together from the bytes it is sent as.
\<close>

unbundle bit_operations_syntax

lemma byte_less [simp]: "byte c < 256"
  by (simp add: byte_def)

lemma byte_char_of [simp]: "n < 256 \<Longrightarrow> byte (char_of n) = n"
  by (simp add: byte_def of_char_of)

lemma char_of_byte [simp]: "char_of (byte c) = c"
  by (simp add: byte_def)

lemma byte_eq_iff: "byte c = byte d \<longleftrightarrow> c = d"
  by (metis char_of_byte)

lemma byte_less_iff: "byte c < byte d \<longleftrightarrow> c < d"
  by (simp add: byte_def less_char_def)

lemma byte_halves: "byte c div 16 < 16" "byte c mod 16 < 16"
  using less_mult_imp_div_less[of "byte c" 16 16] by auto

text \<open>A number below a power of two has its bits below the exponent.\<close>

lemma bit_below: "(n :: nat) < 2 ^ m \<Longrightarrow> bit n i \<Longrightarrow> i < m"
  by (metis bit_take_bit_iff take_bit_nat_eq_self_iff)

lemma bit_byte: "bit (byte c) j \<Longrightarrow> j < 8"
  using bit_below[of "byte c" 8 j] by simp

text \<open>A byte put into a word at \<open>k\<close> leaves everything from \<open>k + 8\<close> on alone.\<close>

lemma take_bit_byte [simp]:
  "8 \<le> m \<Longrightarrow> take_bit m (word_of_nat (byte c)) = (word_of_nat (byte c) :: 64 word)"
proof -
  assume "8 \<le> m"
  then have "byte c < 2 ^ m" using power_increasing[of 8 m "2::nat"] byte_less[of c] by (auto intro: order_less_le_trans[of _ 256])
  then show ?thesis by (metis of_nat_take_bit take_bit_nat_eq_self take_bit_of_nat)
qed

lemma take_bit_put_byte:
  "k + 8 \<le> m \<Longrightarrow> take_bit m v = v \<Longrightarrow>
   take_bit m (v OR push_bit k (word_of_nat (byte c))) = v OR push_bit k (word_of_nat (byte c) :: 64 word)"
  by (simp add: take_bit_push_bit)

lemma unat_take_bit: "take_bit m (w :: 64 word) = w \<Longrightarrow> m < 64 \<Longrightarrow> unat w < 2 ^ m"
  by (metis take_bit_nat_eq_self_iff unsigned_take_bit_eq)

lemma word64_eqI:
  assumes "\<And>i. i < 64 \<Longrightarrow> bit a i = bit b i"
  shows "(a :: 64 word) = b"
  using assms by (intro bit_word_eqI) simp

section \<open>Numbers in bytes\<close>

text \<open>\<open>binary.BigEndian\<close>: a number in \<open>k\<close> bytes, and the number bytes stand for.\<close>

fun big_endian :: "nat \<Rightarrow> nat \<Rightarrow> string" where
  "big_endian 0 n = []"
| "big_endian (Suc k) n = big_endian k (n div 256) @ [char_of (n mod 256)]"

definition big_endian_val :: "string \<Rightarrow> nat" where
  "big_endian_val s = foldl (\<lambda>n c. n * 256 + byte c) 0 s"

lemma length_big_endian [simp]: "length (big_endian k n) = k"
  by (induction k arbitrary: n) auto

lemma big_endian_val_snoc [simp]: "big_endian_val (s @ [c]) = big_endian_val s * 256 + byte c"
  by (simp add: big_endian_val_def)

lemma big_endian_val_Nil [simp]: "big_endian_val [] = 0"
  by (simp add: big_endian_val_def)

lemma big_endian_val_bound: "big_endian_val s < 256 ^ length s"
proof (induction s rule: rev_induct)
  case (snoc c s)
  then have "big_endian_val s * 256 + byte c < Suc (big_endian_val s) * 256" using byte_less[of c] by simp
  also have "\<dots> \<le> 256 ^ length s * 256" using snoc by (intro mult_right_mono) auto
  finally show ?case by (simp add: mult.commute)
qed simp

lemma big_endian_val_big_endian: "n < 256 ^ k \<Longrightarrow> big_endian_val (big_endian k n) = n"
proof (induction k arbitrary: n)
  case (Suc k)
  then have "n div 256 < 256 ^ k" by (simp add: less_mult_imp_div_less mult.commute)
  then show ?case using Suc.IH by (simp add: byte_def div_mult_mod_eq)
qed simp

lemma big_endian_big_endian_val: "big_endian (length s) (big_endian_val s) = s"
proof (induction s rule: rev_induct)
  case (snoc c s)
  have "(big_endian_val s * 256 + byte c) div 256 = big_endian_val s" "(big_endian_val s * 256 + byte c) mod 256 = byte c"
    using byte_less[of c] by auto
  then show ?case using snoc by (simp add: byte_def)
qed simp

lemma big_endian_inj: "big_endian k n = big_endian k m \<Longrightarrow> n < 256 ^ k \<Longrightarrow> m < 256 ^ k \<Longrightarrow> n = m"
  by (metis big_endian_val_big_endian)

end
