(* ===== verification/Trees.thy ===== *)
theory Trees
  imports Git_Objects Bytes "HOL-Library.Sublist"
begin

text \<open>
  What reading and writing git's trees promise. Git's order is the order of the entries' names, a directory's with a slash
  at its end. The reader keeps of the entries it has passed only the previous one and a stack of names of files; it is
  shown here that this is enough: the trees it accepts are exactly those in git's order in which every entry is
  well formed and no name comes twice, and each such tree has one text.
\<close>

section \<open>Identifiers are a canonical codec\<close>

lemma hex_char_spec: "n < 16 \<Longrightarrow> hex_val (hex_char n) = n \<and> lower_hex_char (hex_char n)"
  by (auto simp: hex_char_def hex_val_def lower_hex_char_def Let_def)

lemma hex_val_spec: "lower_hex_char c \<Longrightarrow> hex_val c < 16 \<and> hex_char (hex_val c) = c"
  by (auto simp: hex_char_def hex_val_def lower_hex_char_def Let_def)

lemma hex_Decode_String: "hex_Decode (id_String i) = i"
proof (induction i)
  case (Cons c i)
  have "char_of (16 * hex_val (hex_char (byte c div 16)) + hex_val (hex_char (byte c mod 16))) = c"
    using hex_char_spec byte_halves by simp
  then show ?case using Cons by (simp add: id_String_def hex_byte_def)
qed (simp add: id_String_def)

lemma length_id_String: "length (id_String i) = 2 * length i"
  by (induction i) (auto simp: id_String_def hex_byte_def)

lemma lowerHex_String: "lowerHex (id_String i)"
  using hex_char_spec byte_halves by (induction i) (auto simp: id_String_def hex_byte_def lowerHex_def)

lemma String_hex_Decode:
  assumes "even (length s)" "lowerHex s"
  shows "id_String (hex_Decode s) = s \<and> length s = 2 * length (hex_Decode s)"
  using assms
proof (induction s rule: hex_Decode.induct)
  case (1 a b s)
  have ab: "hex_val a < 16 \<and> hex_char (hex_val a) = a" "hex_val b < 16 \<and> hex_char (hex_val b) = b"
    using 1(3) hex_val_spec by (auto simp: lowerHex_def)
  then have "hex_byte (char_of (16 * hex_val a + hex_val b)) = [a, b]" by (simp add: hex_byte_def)
  with 1 show ?case by (auto simp: id_String_def lowerHex_def)
qed (auto simp: id_String_def)

interpretation ids: canonical_codec id_String ParseID "\<lambda>i. length i = 20"
proof unfold_locales
  show "ParseID (id_String i) = Inr i" if "length i = 20" for i
    using that by (simp add: ParseID_def length_id_String lowerHex_String hex_Decode_String)
  show "length i = 20" "id_String i = s" if "ParseID s = Inr i" for s i
    using that String_hex_Decode[of s] by (auto simp: ParseID_def split: if_splits)
qed

section \<open>Modes\<close>

lemma digit_chars:
  "digit_char 0 = CHR ''0''" "digit_char (Suc 0) = CHR ''1''" "digit_char 2 = CHR ''2''" "digit_char 4 = CHR ''4''"
  "digit_char 5 = CHR ''5''" "digit_char 6 = CHR ''6''" "digit_char 7 = CHR ''7''"
  by code_simp+

lemma octal_digit_Inr:
  "octal_digit c m = Inr m' \<Longrightarrow> digit_val c < 8 \<and> digit_char (digit_val c) = c \<and> m' = 8 * m + digit_val c"
  by (auto simp: octal_digit_def Let_def digit_val_def digit_char_def less_char_def not_less less_eq_char_def split: if_splits)

lemma rfold_snoc: "rfold f (xs @ [x]) s = rbind (rfold f xs s) (f x)"
  by (induction xs arbitrary: s) (auto simp: rbind_def split: sum.splits)

lemma octal_of_val: "rfold octal_digit b 0 = Inr m \<Longrightarrow> b \<noteq> [] \<Longrightarrow> hd b \<noteq> CHR ''0'' \<Longrightarrow> 0 < m \<and> octal_of m = b"
proof (induction b arbitrary: m rule: rev_induct)
  case (snoc c b)
  obtain k where k: "rfold octal_digit b 0 = Inr k" "octal_digit c k = Inr m"
    using snoc.prems(1) by (auto simp: rfold_snoc rbind_Inr_iff)
  note c = octal_digit_Inr[OF k(2)]
  show ?case
  proof (cases "b = []")
    case True
    have "digit_val c \<noteq> 0"
    proof
      assume "digit_val c = 0"
      then have "c = digit_char 0" using c by simp
      then show False using snoc.prems(3) True by (simp add: digit_chars)
    qed
    then show ?thesis using c k(1) True by (subst octal_of.simps) auto
  next
    case False
    then have "0 < k \<and> octal_of k = b" using snoc.IH[OF k(1)] snoc.prems(3) by simp
    then show ?thesis using c by (subst octal_of.simps) auto
  qed
qed simp

lemma parseMode_Inr: "parseMode b = Inr m \<Longrightarrow> mode_valid m \<and> mode_String m = b"
  using octal_of_val[of b m] by (auto simp: parseMode_def mode_String_def rbind_Inr_iff split: if_splits)

lemma mode_Strings:
  "mode_String ModeTree = ''40000''" "mode_String ModeFile = ''100644''" "mode_String ModeExecutable = ''100755''"
  "mode_String ModeSymlink = ''120000''" "mode_String ModeSubmodule = ''160000''"
  by (simp_all add: mode_String_def ModeTree_def ModeFile_def ModeExecutable_def ModeSymlink_def ModeSubmodule_def
      octal_of.simps digit_chars)

lemma octal_digit_eq:
  "c \<in> set ''01234567'' \<Longrightarrow> 8 * m + digit_val c \<le> 65535 \<Longrightarrow> octal_digit c m = Inr (8 * m + digit_val c)"
  by (auto simp: octal_digit_def less_char_def Let_def)

lemma digit_vals:
  "digit_val (CHR ''0'') = 0" "digit_val (CHR ''1'') = 1" "digit_val (CHR ''2'') = 2" "digit_val (CHR ''4'') = 4"
  "digit_val (CHR ''5'') = 5" "digit_val (CHR ''6'') = 6" "digit_val (CHR ''7'') = 7"
  by (simp_all add: digit_val_def)

lemma octal_modes:
  "rfold octal_digit ''40000'' 0 = Inr ModeTree" "rfold octal_digit ''100644'' 0 = Inr ModeFile"
  "rfold octal_digit ''100755'' 0 = Inr ModeExecutable" "rfold octal_digit ''120000'' 0 = Inr ModeSymlink"
  "rfold octal_digit ''160000'' 0 = Inr ModeSubmodule"
  unfolding ModeTree_def ModeFile_def ModeExecutable_def ModeSymlink_def ModeSubmodule_def
  by (simp_all add: octal_digit_eq digit_vals)

lemma parseMode_String: "mode_valid m \<Longrightarrow> parseMode (mode_String m) = Inr m"
  unfolding mode_valid_def by (elim insertE emptyE) (simp_all add: mode_Strings parseMode_def octal_modes mode_valid_def del: rfold.simps)

lemma mode_no_space: "mode_valid m \<Longrightarrow> CHR '' '' \<notin> set (mode_String m)"
  by (auto simp: mode_valid_def mode_Strings)

section \<open>Entries\<close>

lemma entry_eta [simp]: "\<lparr>te_Name = te_Name e, te_Mode = te_Mode e, te_ID = te_ID e\<rparr> = e"
  by (cases e) simp

definition written :: "tree_entry \<Rightarrow> bool" where
  "written e = (mode_valid (te_Mode e) \<and> CHR 0x00 \<notin> set (te_Name e) \<and> length (te_ID e) = 20)"

definition entry_ok :: "tree_entry \<Rightarrow> bool" where
  "entry_ok e = (written e \<and> checkEntry e = Inr ())"

lemma next_entry_text:
  "written e \<Longrightarrow> next_entry (entry_text e @ rest) = rbind (checkEntry e) (\<lambda>_. Inr (e, rest))"
  using cut_at_append[OF mode_no_space, of "te_Mode e"] cut_at_append[of "CHR 0x00" "te_Name e"]
  by (simp add: next_entry_def entry_text_def written_def parseMode_String Let_def)

lemma next_entry_Inr_iff: "next_entry data = Inr (e, rest) \<longleftrightarrow> entry_ok e \<and> data = entry_text e @ rest"
proof
  assume "next_entry data = Inr (e, rest)"
  then show "entry_ok e \<and> data = entry_text e @ rest"
    by (rule next_entry_Inr) (auto simp: entry_ok_def written_def entry_text_def cut_at_Some dest: parseMode_Inr)
qed (auto simp: entry_ok_def next_entry_text)

lemma entry_text_nonempty [simp]: "entry_text e \<noteq> []"
  by (simp add: entry_text_def)

fun places :: "tree_entry option \<Rightarrow> string list \<Rightarrow> tree_entry list \<Rightarrow> bool" where
  "places prev files [] = True"
| "places prev files (e # es) = (case place prev files e of Inl err \<Rightarrow> False | Inr files' \<Rightarrow> places (Some e) files' es)"

lemma eachEntry_iff:
  "eachEntry prev files data = Inr es \<longleftrightarrow> data = concat (map entry_text es) \<and> list_all entry_ok es \<and> places prev files es"
proof (induction prev files data arbitrary: es rule: eachEntry.induct)
  case (1 prev files data)
  show ?case
  proof (cases "data = []")
    case True
    then show ?thesis by (cases es) (auto simp: eachEntry.simps[of prev files "[]"])
  next
    case False
    show ?thesis
    proof (cases "next_entry data")
      case (Inl err)
      then have "\<not> (data = concat (map entry_text es) \<and> list_all entry_ok es)"
        using False next_entry_Inr_iff[of data] by (cases es) auto
      then show ?thesis using False Inl by (auto simp: eachEntry.simps[of prev files data])
    next
      case (Inr er)
      then obtain e rest where er: "next_entry data = Inr (e, rest)" by (cases er) auto
      then have d: "entry_ok e" "data = entry_text e @ rest" using next_entry_Inr_iff by auto
      have hd_eq: "x = e \<and> concat (map entry_text xs) = rest" if "data = concat (map entry_text (x # xs))" "entry_ok x" for x xs
        using that next_entry_Inr_iff[of data x "concat (map entry_text xs)"] er by simp
      show ?thesis
      proof (cases "place prev files e")
        case (Inl err)
        then show ?thesis using False er hd_eq by (cases es) (auto simp: eachEntry.simps[of prev files data])
      next
        case (Inr files')
        have "eachEntry prev files data = Inr es \<longleftrightarrow> (\<exists>xs. es = e # xs \<and> eachEntry (Some e) files' rest = Inr xs)"
          using False er Inr by (subst eachEntry.simps) (auto simp: rbind_Inr_iff)
        also have "\<dots> \<longleftrightarrow> (\<exists>xs. es = e # xs \<and> rest = concat (map entry_text xs) \<and> list_all entry_ok xs \<and> places (Some e) files' xs)"
          using 1[OF False er refl Inr] by auto
        also have "\<dots> \<longleftrightarrow> data = concat (map entry_text es) \<and> list_all entry_ok es \<and> places prev files es"
        proof (cases es)
          case Nil
          then show ?thesis using False by simp
        next
          case (Cons x xs)
          have "x = e \<and> rest = concat (map entry_text xs)" if "data = concat (map entry_text (x # xs))" "entry_ok x"
            using hd_eq[OF that] by simp
          then show ?thesis unfolding Cons using d Inr by (auto simp del: append_eq_append_conv)
        qed
        finally show ?thesis .
      qed
    qed
  qed
qed

section \<open>Git's order\<close>

definition key :: "tree_entry \<Rightarrow> string" where
  "key e = te_Name e @ (if te_Mode e = ModeTree then ''/'' else [])"

definition plain :: "string \<Rightarrow> bool" where
  "plain name = (CHR 0x00 \<notin> set name \<and> CHR ''/'' \<notin> set name)"

lemma append_less: "length x = length y \<Longrightarrow> x < y \<Longrightarrow> x @ u < y @ v" for x y u v :: string
  by (induction x y rule: list_induct2) auto

lemma append_less_same: "x @ u < x @ v \<longleftrightarrow> u < v" for x u v :: string
  by (induction x) auto

lemma zero_char: "byte c = 0 \<longleftrightarrow> c = CHR 0x00"
  using byte_eq_iff[of c "CHR 0x00"] by (simp add: byte_def)

definition tail_next :: "string \<Rightarrow> bool \<Rightarrow> int" where
  "tail_next d t = (case d of c # cs \<Rightarrow> int (byte c) | [] \<Rightarrow> if t then 47 else 0)"

definition tail_key :: "string \<Rightarrow> bool \<Rightarrow> string" where
  "tail_key d t = d @ (if t then ''/'' else [])"

lemma slash_order: "c < CHR ''/'' \<longleftrightarrow> byte c < 47" "CHR ''/'' < c \<longleftrightarrow> 47 < byte c" "byte c = 47 \<longleftrightarrow> c = CHR ''/''"
proof -
  have slash: "byte (CHR ''/'') = 47" by (simp add: byte_def)
  show "c < CHR ''/'' \<longleftrightarrow> byte c < 47" "CHR ''/'' < c \<longleftrightarrow> 47 < byte c" "byte c = 47 \<longleftrightarrow> c = CHR ''/''"
    using byte_less_iff[of c "CHR ''/''"] byte_less_iff[of "CHR ''/''" c] byte_eq_iff[of c "CHR ''/''"] slash by auto
qed

lemma tail_Cons:
  assumes "c \<noteq> CHR 0x00" "c \<noteq> CHR ''/''"
  shows "(tail_next [] t < int (byte c) \<longleftrightarrow> tail_key [] t < c # cs) \<and> (int (byte c) < tail_next [] t \<longleftrightarrow> c # cs < tail_key [] t) \<and>
    tail_next [] t \<noteq> int (byte c) \<and> tail_key [] t \<noteq> c # cs"
proof -
  have "0 < byte c" using zero_char[of c] assms(1) by simp
  moreover have "byte c \<noteq> 47" using slash_order(3) assms(2) by simp
  ultimately show ?thesis using assms(2) by (cases t) (simp_all add: tail_next_def tail_key_def slash_order)
qed

lemma compare_tails:
  assumes "plain d" "plain e" "d = [] \<or> e = []"
  shows "(tail_next d t - tail_next e u < 0 \<longleftrightarrow> tail_key d t < tail_key e u) \<and> (tail_next d t - tail_next e u = 0 \<longleftrightarrow> tail_key d t = tail_key e u)"
proof (cases d)
  case Nil
  show ?thesis
  proof (cases e)
    case Nil
    then show ?thesis using \<open>d = []\<close> by (cases t; cases u) (simp_all add: tail_next_def tail_key_def)
  next
    case (Cons c cs)
    have "tail_next e u = int (byte c)" "tail_key e u = c # (cs @ (if u then ''/'' else []))"
      by (simp_all add: Cons tail_next_def tail_key_def)
    moreover have "c \<noteq> CHR 0x00" "c \<noteq> CHR ''/''" using assms(2) by (auto simp: Cons plain_def)
    ultimately show ?thesis using tail_Cons[of c t "cs @ (if u then ''/'' else [])"] \<open>d = []\<close> by simp
  qed
next
  case (Cons c cs)
  have "tail_next d t = int (byte c)" "tail_key d t = c # (cs @ (if t then ''/'' else []))"
    by (simp_all add: Cons tail_next_def tail_key_def)
  moreover have "c \<noteq> CHR 0x00" "c \<noteq> CHR ''/''" using assms(1) by (auto simp: Cons plain_def)
  moreover have "e = []" using assms(3) Cons by simp
  ultimately show ?thesis using tail_Cons[of c u "cs @ (if t then ''/'' else [])"] by auto
qed

lemma entry_next_tail: "entry_next n e = tail_next (drop n (te_Name e)) (te_Mode e = ModeTree)"
proof (cases "drop n (te_Name e)")
  case Nil
  then show ?thesis by (simp add: entry_next_def tail_next_def byte_def)
next
  case (Cons c cs)
  then have "n < length (te_Name e)" "te_Name e ! n = c" by (metis drop_all linorder_not_less list.distinct(1), metis hd_drop_conv_nth drop_all linorder_not_less list.distinct(1) list.sel(1))
  then show ?thesis by (simp add: entry_next_def tail_next_def Cons)
qed

lemma compareEntries_key:
  assumes "plain (te_Name a)" "plain (te_Name b)"
  shows "compareEntries a b < 0 \<longleftrightarrow> key a < key b" "compareEntries a b = 0 \<longleftrightarrow> key a = key b"
proof -
  define n where "n = min (length (te_Name a)) (length (te_Name b))"
  define ra where "ra = tail_key (drop n (te_Name a)) (te_Mode a = ModeTree)"
  define rb where "rb = tail_key (drop n (te_Name b)) (te_Mode b = ModeTree)"
  have k: "key a = take n (te_Name a) @ ra" "key b = take n (te_Name b) @ rb"
    unfolding key_def ra_def rb_def tail_key_def by (metis append.assoc append_take_drop_id)+
  have len: "length (take n (te_Name a)) = length (take n (te_Name b))" by (simp add: n_def)
  have "plain (drop n (te_Name a))" "plain (drop n (te_Name b))" using assms by (auto simp: plain_def dest: in_set_dropD)
  moreover have "drop n (te_Name a) = [] \<or> drop n (te_Name b) = []" by (auto simp: n_def)
  ultimately have tails: "(entry_next n a - entry_next n b < 0 \<longleftrightarrow> ra < rb) \<and> (entry_next n a - entry_next n b = 0 \<longleftrightarrow> ra = rb)"
    unfolding entry_next_tail ra_def rb_def by (rule compare_tails)
  have c: "compareEntries a b = (if take n (te_Name a) < take n (te_Name b) then -1
      else if take n (te_Name b) < take n (te_Name a) then 1 else entry_next n a - entry_next n b)"
    by (simp only: compareEntries_def n_def Let_def)
  consider "take n (te_Name a) < take n (te_Name b)" | "take n (te_Name b) < take n (te_Name a)" | "take n (te_Name a) = take n (te_Name b)"
    by (metis linorder_less_linear)
  then have "(compareEntries a b < 0 \<longleftrightarrow> key a < key b) \<and> (compareEntries a b = 0 \<longleftrightarrow> key a = key b)"
  proof cases
    case 1
    then have "key a < key b" unfolding k by (rule append_less[OF len])
    then show ?thesis using 1 by (simp add: c)
  next
    case 2
    then have "key b < key a" unfolding k by (rule append_less[OF len[symmetric]])
    moreover have "compareEntries a b = 1" using 2 by (simp add: c less_not_sym)
    ultimately show ?thesis by (auto simp: less_not_sym)
  next
    case 3
    then have "compareEntries a b = entry_next n a - entry_next n b" by (simp add: c)
    then show ?thesis using tails 3 by (simp add: k append_less_same)
  qed
  then show "compareEntries a b < 0 \<longleftrightarrow> key a < key b" "compareEntries a b = 0 \<longleftrightarrow> key a = key b" by auto
qed

lemma between:
  "f < k \<Longrightarrow> k < f @ [c] \<Longrightarrow> \<exists>x xs. k = f @ x # xs \<and> x < c" for f k :: string
proof (induction f arbitrary: k)
  case Nil
  then show ?case by (cases k) auto
next
  case (Cons a f)
  then obtain k' where k: "k = a # k'" "f < k'" "k' < f @ [c]" by (cases k) auto
  then show ?case using Cons.IH by auto
qed

lemma may_follow:
  assumes "file < key q" "key q < file @ ''/''" "plain (te_Name q)"
  shows "directoryMayFollow file (te_Name q)"
proof -
  obtain x xs where k: "key q = file @ x # xs" "x < CHR ''/''" using between[OF assms(1,2)] by blast
  show ?thesis
  proof (cases "te_Mode q = ModeTree")
    case False
    then show ?thesis using k by (simp add: key_def directoryMayFollow_def)
  next
    case True
    then have e: "te_Name q @ ''/'' = file @ x # xs" using k by (simp add: key_def)
    then obtain ys where xs: "xs = ys @ ''/''" using k(2) by (cases xs rule: rev_cases) auto
    then have "te_Name q = file @ x # ys" using e by simp
    then show ?thesis using k(2) by (simp add: directoryMayFollow_def)
  qed
qed

section \<open>The stack of files\<close>

definition file_names :: "tree_entry list \<Rightarrow> string set" where
  "file_names es = te_Name ` {e \<in> set es. te_Mode e \<noteq> ModeTree}"

definition in_order :: "tree_entry list \<Rightarrow> bool" where
  "in_order es = (sorted_wrt (\<lambda>a b. key a < key b) es \<and> distinct (map te_Name es))"

text \<open>
  What the reader knows after \<open>es\<close>: the stack holds names of files read, each a proper prefix of the one above it, and a
  name of a file that is not on it is one that a later entry has shown no directory of can follow.
\<close>

definition stack_ok :: "tree_entry list \<Rightarrow> tree_entry option \<Rightarrow> string list \<Rightarrow> bool" where
  "stack_ok es prev files \<longleftrightarrow>
     prev = (if es = [] then None else Some (last es)) \<and> in_order es \<and> (\<forall>e \<in> set es. plain (te_Name e)) \<and>
     set files \<subseteq> file_names es \<and> sorted_wrt (\<lambda>g f. strict_prefix f g) files \<and>
     (\<forall>f \<in> file_names es - set files. \<exists>q \<in> set es. f < key q \<and> \<not> directoryMayFollow f (te_Name q))"

lemma may_follow_prefix: "directoryMayFollow f n \<Longrightarrow> prefix f n"
  by (auto simp: directoryMayFollow_def cut_prefix_Some_iff)

lemma may_follow_self: "directoryMayFollow n n"
  by (simp add: directoryMayFollow_def cut_prefix_def)

lemma dropWhile_to:
  assumes "sorted_wrt (\<lambda>g f. strict_prefix f g) files" "n \<in> set files"
  shows "\<exists>rest. dropWhile (\<lambda>f. \<not> directoryMayFollow f n) files = n # rest"
  using assms
proof (induction files)
  case (Cons g files)
  show ?case
  proof (cases "g = n")
    case True
    then show ?thesis by (simp add: may_follow_self)
  next
    case False
    then have "strict_prefix n g" using Cons.prems by auto
    then have "\<not> directoryMayFollow g n" using may_follow_prefix[of g n] by (auto simp: strict_prefix_def dest: prefix_order.antisym)
    then show ?thesis using Cons False by auto
  qed
qed simp

lemma key_file: "te_Mode e \<noteq> ModeTree \<Longrightarrow> key e = te_Name e"
  by (simp add: key_def)

lemma key_tree: "te_Mode e = ModeTree \<Longrightarrow> key e = te_Name e @ ''/''"
  by (simp add: key_def)

lemma less_slash: "n < n @ ''/''" for n :: string
  by (induction n) auto

lemma sorted_last: "sorted_wrt (\<lambda>a b. key a < key b) es \<Longrightarrow> d \<in> set es \<Longrightarrow> key d \<le> key (last es)"
  by (induction es) (auto split: if_splits intro: less_imp_le)

text \<open>After entries in order and with a later key, a name has come before only as a file's, and is then on top of the stack.\<close>

lemma repeated_name:
  assumes ok: "stack_ok es prev files" and e: "plain (te_Name e)" and later: "\<And>d. d \<in> set es \<Longrightarrow> key d < key e"
  shows "te_Name e \<in> te_Name ` set es \<longleftrightarrow>
    te_Mode e = ModeTree \<and> (\<exists>rest. dropWhile (\<lambda>f. \<not> directoryMayFollow f (te_Name e)) files = te_Name e # rest)"
proof
  assume "te_Name e \<in> te_Name ` set es"
  then obtain d where d: "d \<in> set es" "te_Name d = te_Name e" by auto
  have "key d < key e" by (rule later[OF d(1)])
  then have m: "te_Mode d \<noteq> ModeTree" "te_Mode e = ModeTree"
    using d(2) less_slash[of "te_Name e"] by (auto simp: key_def split: if_splits)
  then have f: "te_Name e \<in> file_names es" using d unfolding file_names_def by (metis (mono_tags, lifting) imageI mem_Collect_eq)
  have "te_Name e \<in> set files"
  proof (rule ccontr)
    assume "te_Name e \<notin> set files"
    then obtain q where q: "q \<in> set es" "te_Name e < key q" "\<not> directoryMayFollow (te_Name e) (te_Name q)"
      using ok f unfolding stack_ok_def by blast
    have "key q < te_Name e @ ''/''" using later[OF q(1)] key_tree[OF m(2)] by simp
    then show False using may_follow[OF q(2)] q(1,3) ok by (auto simp: stack_ok_def)
  qed
  then show "te_Mode e = ModeTree \<and> (\<exists>rest. dropWhile (\<lambda>f. \<not> directoryMayFollow f (te_Name e)) files = te_Name e # rest)"
    using dropWhile_to[of files "te_Name e"] ok m(2) by (auto simp: stack_ok_def)
next
  assume "te_Mode e = ModeTree \<and> (\<exists>rest. dropWhile (\<lambda>f. \<not> directoryMayFollow f (te_Name e)) files = te_Name e # rest)"
  then obtain rest where "dropWhile (\<lambda>f. \<not> directoryMayFollow f (te_Name e)) files = te_Name e # rest" by blast
  then have "te_Name e \<in> set files" by (metis list.set_intros(1) set_dropWhileD)
  then show "te_Name e \<in> te_Name ` set es" using ok by (auto simp: stack_ok_def file_names_def)
qed

lemma stack_ok_push:
  assumes ok: "stack_ok es prev files" and e: "plain (te_Name e)" and later: "\<And>d. d \<in> set es \<Longrightarrow> key d < key e"
    and new: "te_Name e \<notin> te_Name ` set es"
  defines "kept \<equiv> dropWhile (\<lambda>f. \<not> directoryMayFollow f (te_Name e)) files"
  shows "stack_ok (es @ [e]) (Some e) (if te_Mode e \<noteq> ModeTree then te_Name e # kept else kept)"
proof -
  have sub: "set kept \<subseteq> set files" unfolding kept_def by (meson set_dropWhileD subsetI)
  have files: "set files \<subseteq> file_names es" "sorted_wrt (\<lambda>g f. strict_prefix f g) files" using ok by (auto simp: stack_ok_def)
  have chain: "sorted_wrt (\<lambda>g f. strict_prefix f g) kept"
    using files(2) unfolding kept_def by (metis sorted_wrt_append takeWhile_dropWhile_id)
  have below: "strict_prefix f (te_Name e)" if f: "f \<in> set kept" for f
  proof -
    obtain t ts where t: "kept = t # ts" using f by (cases kept) auto
    then have "directoryMayFollow t (te_Name e)" unfolding kept_def by (metis dropWhile_eq_Cons_conv)
    moreover have "t \<noteq> te_Name e" using t sub files(1) new by (auto simp: file_names_def)
    ultimately have "strict_prefix t (te_Name e)" using may_follow_prefix by (auto simp: strict_prefix_def)
    then show ?thesis using f t chain by (auto intro: prefix_order.less_trans)
  qed
  have gone: "\<exists>q \<in> set (es @ [e]). f < key q \<and> \<not> directoryMayFollow f (te_Name q)" if f: "f \<in> file_names es" "f \<notin> set kept" for f
  proof (cases "f \<in> set files")
    case True
    then have "f \<in> set (takeWhile (\<lambda>f. \<not> directoryMayFollow f (te_Name e)) files)"
      using f(2) unfolding kept_def by (metis Un_iff set_append takeWhile_dropWhile_id)
    then have "\<not> directoryMayFollow f (te_Name e)" by (auto dest: set_takeWhileD)
    moreover obtain d where "d \<in> set es" "te_Mode d \<noteq> ModeTree" "te_Name d = f" using f(1) by (auto simp: file_names_def)
    then have "f < key e" using later[of d] key_file[of d] by simp
    ultimately show ?thesis by auto
  next
    case False
    then show ?thesis using ok f(1) by (auto simp: stack_ok_def)
  qed
  have "in_order (es @ [e])" using ok later new by (auto simp: stack_ok_def in_order_def sorted_wrt_append)
  moreover have "file_names (es @ [e]) = file_names es \<union> (if te_Mode e \<noteq> ModeTree then {te_Name e} else {})"
    by (auto simp: file_names_def)
  ultimately show ?thesis
    using ok e sub files(1) chain below gone by (auto simp: stack_ok_def)
qed

lemma place_Inr_iff:
  assumes ok: "stack_ok es prev files" and e: "plain (te_Name e)"
  shows "(case place prev files e of Inl err \<Rightarrow> \<not> in_order (es @ [e]) | Inr files' \<Rightarrow> in_order (es @ [e]) \<and> stack_ok (es @ [e]) (Some e) files')"
proof -
  let ?kept = "dropWhile (\<lambda>f. \<not> directoryMayFollow f (te_Name e)) files"
  have order: "in_order es" "\<forall>d \<in> set es. plain (te_Name d)" "prev = (if es = [] then None else Some (last es))"
    using ok by (auto simp: stack_ok_def)
  define c where "c = (case prev of None \<Rightarrow> -1 | Some p \<Rightarrow> compareEntries p e)"
  have c_neg: "c < 0 \<longleftrightarrow> (\<forall>d \<in> set es. key d < key e)"
  proof (cases "es = []")
    case True
    then show ?thesis using order(3) by (simp add: c_def)
  next
    case False
    then have l: "last es \<in> set es" by simp
    then have "c < 0 \<longleftrightarrow> key (last es) < key e" using order False compareEntries_key(1)[OF _ e, of "last es"] by (simp add: c_def)
    also have "\<dots> \<longleftrightarrow> (\<forall>d \<in> set es. key d < key e)"
    proof
      assume "key (last es) < key e"
      then show "\<forall>d \<in> set es. key d < key e" using sorted_last[of es] order(1) unfolding in_order_def by (meson order_le_less_trans)
    qed (use l in blast)
    finally show ?thesis .
  qed
  have whole: "in_order (es @ [e]) \<longleftrightarrow> (\<forall>d \<in> set es. key d < key e) \<and> te_Name e \<notin> te_Name ` set es"
    using order(1) by (auto simp: in_order_def sorted_wrt_append)
  show ?thesis
  proof (cases "c < 0")
    case False
    then have "\<exists>err. place prev files e = Inl err" by (auto simp: place_def c_def[symmetric])
    then show ?thesis using whole c_neg False by auto
  next
    case True
    then have later: "key d < key e" if "d \<in> set es" for d using c_neg that by blast
    have p: "place prev files e = (if te_Mode e = ModeTree \<and> ?kept \<noteq> [] \<and> hd ?kept = te_Name e
        then Inl (ObjectError TypeTree ''duplicateEntries'')
        else Inr (if te_Mode e \<noteq> ModeTree then te_Name e # ?kept else ?kept))"
      using True by (simp add: place_def c_def[symmetric] Let_def)
    have rep: "te_Name e \<in> te_Name ` set es \<longleftrightarrow> te_Mode e = ModeTree \<and> ?kept \<noteq> [] \<and> hd ?kept = te_Name e"
      using repeated_name[OF ok e later] by (cases ?kept) auto
    show ?thesis
    proof (cases "te_Name e \<in> te_Name ` set es")
      case True
      then show ?thesis using p rep whole by simp
    next
      case False
      then show ?thesis using p rep whole later stack_ok_push[OF ok e later False] by simp
    qed
  qed
qed

lemma in_order_prefix: "in_order (xs @ ys) \<Longrightarrow> in_order xs"
  by (simp add: in_order_def sorted_wrt_append)

lemma places_iff:
  assumes "stack_ok es prev files" "\<forall>e \<in> set fs. plain (te_Name e)"
  shows "places prev files fs \<longleftrightarrow> in_order (es @ fs)"
  using assms
proof (induction fs arbitrary: es prev files)
  case Nil
  then show ?case by (simp add: stack_ok_def)
next
  case (Cons e fs)
  note step = place_Inr_iff[OF Cons.prems(1), of e]
  show ?case
  proof (cases "place prev files e")
    case (Inl err)
    then show ?thesis using step Cons.prems(2) in_order_prefix[of "es @ [e]" fs] by auto
  next
    case (Inr files')
    then have "stack_ok (es @ [e]) (Some e) files'" using step Cons.prems(2) by simp
    then show ?thesis using Cons.IH[of "es @ [e]"] Cons.prems(2) Inr by simp
  qed
qed

section \<open>Trees are a canonical codec\<close>

definition tree_ok :: "tree_entry list \<Rightarrow> bool" where
  "tree_ok es = (list_all entry_ok es \<and> in_order es)"

definition tree_text :: "tree_entry list \<Rightarrow> string" where
  "tree_text es = concat (map entry_text es)"

lemma entry_ok_plain: "entry_ok e \<Longrightarrow> plain (te_Name e)"
  by (auto simp: entry_ok_def written_def checkEntry_def plain_def split: if_splits)

lemma stack_ok_start: "stack_ok [] None []"
  by (simp add: stack_ok_def in_order_def file_names_def)

lemma ParseTree_Inr_iff: "ParseTree data = Inr es \<longleftrightarrow> tree_ok es \<and> data = tree_text es"
proof -
  have "list_all entry_ok es \<Longrightarrow> places None [] es \<longleftrightarrow> in_order es"
    using places_iff[OF stack_ok_start, of es] entry_ok_plain by (simp add: list_all_iff)
  then show ?thesis unfolding ParseTree_def eachEntry_iff tree_ok_def tree_text_def by blast
qed

interpretation trees: canonical_codec tree_text ParseTree tree_ok
  by unfold_locales (auto simp: ParseTree_Inr_iff)

section \<open>Writing a tree\<close>

lemma mset_insert_entry: "mset (insert_entry e es) = add_mset e (mset es)"
  by (induction es) auto

lemma mset_sort_entries: "mset (sort_entries es) = mset es"
proof -
  have "mset (foldl (\<lambda>acc e. insert_entry e acc) acc es) = mset acc + mset es" for acc
    by (induction es arbitrary: acc) (auto simp: mset_insert_entry)
  then show ?thesis by (simp add: sort_entries_def)
qed

lemma set_sort_entries: "set (sort_entries es) = set es"
  using mset_sort_entries by (metis set_mset_mset)

lemma insert_entry_sorted:
  assumes "sorted_wrt (\<lambda>a b. key a < key b) es" "\<forall>x \<in> set es. plain (te_Name x) \<and> key x \<noteq> key e" "plain (te_Name e)"
  shows "sorted_wrt (\<lambda>a b. key a < key b) (insert_entry e es)"
  using assms
proof (induction es)
  case (Cons x es)
  have set: "set (insert_entry e es) = insert e (set es)" using mset_insert_entry[of e es] by (metis set_mset_add_mset_insert set_mset_mset)
  show ?case
  proof (cases "compareEntries e x < 0")
    case True
    then have "key e < key x" using compareEntries_key(1)[of e x] Cons.prems by simp
    then show ?thesis using True Cons.prems by auto
  next
    case False
    then have "key x < key e" using compareEntries_key(1)[of e x] Cons.prems by auto
    then show ?thesis using False Cons set by auto
  qed
qed simp

lemma sort_entries_sorted:
  assumes "\<forall>x \<in> set es. plain (te_Name x)" "distinct (map key es)"
  shows "sorted_wrt (\<lambda>a b. key a < key b) (sort_entries es)"
proof -
  have "sorted_wrt (\<lambda>a b. key a < key b) (foldl (\<lambda>acc e. insert_entry e acc) acc es)"
    if "sorted_wrt (\<lambda>a b. key a < key b) acc" "\<forall>x \<in> set acc. plain (te_Name x) \<and> key x \<notin> key ` set es" for acc
    using that assms
  proof (induction es arbitrary: acc)
    case (Cons e es)
    have set: "set (insert_entry e acc) = insert e (set acc)" using mset_insert_entry[of e acc] by (metis set_mset_add_mset_insert set_mset_mset)
    have "sorted_wrt (\<lambda>a b. key a < key b) (insert_entry e acc)"
      using Cons.prems by (intro insert_entry_sorted) auto
    moreover have "\<forall>x \<in> set (insert_entry e acc). plain (te_Name x) \<and> key x \<notin> key ` set es"
      unfolding set using Cons.prems by auto
    ultimately show ?case using Cons.IH Cons.prems by simp
  qed simp
  then show ?thesis by (simp add: sort_entries_def)
qed

lemma distinct_keys:
  assumes "\<forall>x \<in> set es. plain (te_Name x)" "distinct (map te_Name es)"
  shows "distinct (map key es)"
proof -
  have "key a \<noteq> key b" if "a \<in> set es" "b \<in> set es" "te_Name a \<noteq> te_Name b" for a b
  proof
    assume k: "key a = key b"
    have "CHR ''/'' \<notin> set (te_Name a)" "CHR ''/'' \<notin> set (te_Name b)" using assms(1) that by (auto simp: plain_def)
    then have "te_Name a @ ''/'' \<noteq> te_Name b" "te_Name a \<noteq> te_Name b @ ''/''" by (metis in_set_conv_decomp)+
    then show False using k that(3) by (auto simp: key_def split: if_splits)
  qed
  then show ?thesis using assms(2) by (simp add: distinct_map inj_on_def) metis
qed

lemma rfold_write: "rfold write_entry es b = Inr b' \<longleftrightarrow> (\<forall>e \<in> set es. mode_valid (te_Mode e) \<and> CHR 0x00 \<notin> set (te_Name e)) \<and> b' = b @ tree_text es"
  by (induction es arbitrary: b) (auto simp: write_entry_def tree_text_def)

lemma eachEntry_text:
  assumes "\<forall>e \<in> set xs. written e" "eachEntry prev files (tree_text xs) = Inr es"
  shows "es = xs"
  using assms
proof (induction xs arbitrary: prev files es)
  case Nil
  then show ?case by (simp add: tree_text_def eachEntry.simps)
next
  case (Cons x xs)
  have t: "tree_text (x # xs) = entry_text x @ tree_text xs" by (simp add: tree_text_def)
  have n: "next_entry (tree_text (x # xs)) = rbind (checkEntry x) (\<lambda>_. Inr (x, tree_text xs))"
    unfolding t using Cons.prems(1) by (intro next_entry_text) simp
  from Cons.prems(2) obtain fs es' where "eachEntry (Some x) fs (tree_text xs) = Inr es'" "es = x # es'"
    by (subst (asm) eachEntry.simps) (cases "checkEntry x"; auto simp: n rbind_Inr_iff split: if_splits sum.splits, simp add: t)
  then show ?case using Cons by auto
qed

lemma EncodeTree_Inr:
  assumes "\<forall>e \<in> set es. length (te_ID e) = 20" "EncodeTree es = Inr b"
  shows "b = tree_text (sort_entries es)" "ParseTree b = Inr (sort_entries es)"
proof -
  obtain es' where b: "rfold write_entry (sort_entries es) [] = Inr b" "ParseTree b = Inr es'"
    using assms(2) by (auto simp: EncodeTree_def rbind_Inr_iff)
  then show whole: "b = tree_text (sort_entries es)" by (simp add: rfold_write)
  have "\<forall>e \<in> set (sort_entries es). written e" using b(1) assms(1) by (auto simp: rfold_write written_def set_sort_entries)
  then show "ParseTree b = Inr (sort_entries es)" using b(2) eachEntry_text whole by (metis ParseTree_def)
qed

lemma EncodeTree_accepts:
  assumes "list_all entry_ok es" "distinct (map te_Name es)"
  shows "EncodeTree es = Inr (tree_text (sort_entries es))"
proof -
  have plain: "\<forall>x \<in> set es. plain (te_Name x)" using assms(1) entry_ok_plain by (simp add: list_all_iff)
  have "distinct (map te_Name (sort_entries es))"
    using assms(2) mset_sort_entries[of es] by (metis distinct_map mset_eq_imp_distinct_iff mset_map)
  then have "tree_ok (sort_entries es)"
    using sort_entries_sorted[OF plain distinct_keys[OF plain assms(2)]] assms(1) set_sort_entries
    by (simp add: tree_ok_def in_order_def list_all_iff)
  moreover have "rfold write_entry (sort_entries es) [] = Inr (tree_text (sort_entries es))"
    using assms(1) by (auto simp: rfold_write set_sort_entries list_all_iff entry_ok_def written_def)
  ultimately show ?thesis using trees.dec_enc by (simp add: EncodeTree_def)
qed

lemma EncodeTree_iff:
  assumes "\<forall>e \<in> set es. length (te_ID e) = 20"
  shows "EncodeTree es = Inr b \<longleftrightarrow> list_all entry_ok es \<and> distinct (map te_Name es) \<and> b = tree_text (sort_entries es)"
proof
  assume enc: "EncodeTree es = Inr b"
  note rt = EncodeTree_Inr[OF assms enc]
  then have ok: "tree_ok (sort_entries es)" by (simp add: ParseTree_Inr_iff)
  then have "list_all entry_ok es" using set_sort_entries by (simp add: tree_ok_def list_all_iff)
  moreover have "distinct (map te_Name es)"
    using ok mset_sort_entries[of es] by (metis in_order_def mset_eq_imp_distinct_iff mset_map tree_ok_def)
  ultimately show "list_all entry_ok es \<and> distinct (map te_Name es) \<and> b = tree_text (sort_entries es)" using rt(1) by simp
qed (auto intro: EncodeTree_accepts)

section \<open>A sample tree\<close>

definition sample_id :: string where "sample_id = replicate 20 (CHR ''x'')"

definition sample_tree :: "tree_entry list" where
  "sample_tree =
     [\<lparr>te_Name = ''a'', te_Mode = ModeTree, te_ID = sample_id\<rparr>, \<lparr>te_Name = ''a-b'', te_Mode = ModeExecutable, te_ID = sample_id\<rparr>]"

lemma sample_names: "\<not> DotGit ''a'' \<and> \<not> DotGit ''a-b'' \<and> \<not> dotGitmodules ''a'' \<and> \<not> dotGitmodules ''a-b'' \<and> \<not> id_IsZero sample_id"
  by code_simp

lemma sample_ok: "list_all entry_ok sample_tree"
  using sample_names
  by (simp add: sample_tree_def entry_ok_def written_def checkEntry_def mode_valid_def MaxNameBytes_def) (simp add: sample_id_def)

section \<open>Properties\<close>

text \<open>
  C30: reading a tree accepts exactly the trees that are right, each from one text. A text is read as a list of entries
  exactly when every entry is well formed, the entries are in git's order, no name comes twice, as a file and a
  directory included, and the text is the one those entries are written as. So the previous entry and the stack of
  names the reader keeps are enough to find every repeated name.
\<close>

theorem trees_have_one_text:
  "ParseTree data = Inr es \<longleftrightarrow>
     list_all entry_ok es \<and> sorted_wrt (\<lambda>a b. key a < key b) es \<and> distinct (map te_Name es) \<and> data = concat (map entry_text es)"
  unfolding ParseTree_Inr_iff tree_ok_def in_order_def tree_text_def by blast

text \<open>
  Writing a tree succeeds exactly when its entries are well formed and no name comes twice, whatever order they are
  given in, and what is written is read back as the same entries in git's order.
\<close>

theorem written_trees_read_back:
  assumes "\<forall>e \<in> set es. length (te_ID e) = 20"
  shows "(EncodeTree es = Inr b \<longleftrightarrow> list_all entry_ok es \<and> distinct (map te_Name es) \<and> b = concat (map entry_text (sort_entries es))) \<and>
    (EncodeTree es = Inr b \<longrightarrow> ParseTree b = Inr (sort_entries es)) \<and> mset (sort_entries es) = mset es"
  using EncodeTree_iff[OF assms] EncodeTree_Inr(2)[OF assms] mset_sort_entries by (auto simp: tree_text_def)

theorem written_trees_read_back_witness:
  "EncodeTree sample_tree = Inr (concat (map entry_text (sort_entries sample_tree))) \<and>
   ParseTree (concat (map entry_text (sort_entries sample_tree))) = Inr (sort_entries sample_tree)"
proof -
  have "\<forall>e \<in> set sample_tree. length (te_ID e) = 20" "distinct (map te_Name sample_tree)" by (auto simp: sample_tree_def sample_id_def)
  then show ?thesis using written_trees_read_back[of sample_tree] sample_ok by blast
qed

end
