(* ===== verification/Histories.thy ===== *)
theory Histories
  imports Commits Trees
begin

text \<open>
  What reading and writing commits and tags promise: the objects that can be read are exactly those that can be written, and
  what is written reads back as it was. The text of an object is its header lines, each ended by a line feed, a blank line and
  the message; the three parts of the proof are that text, the signatures and the headers kept as they are.
\<close>

section \<open>The lines of an object\<close>

definition ended_lines :: "string list \<Rightarrow> string" where
  "ended_lines ls = concat (map (\<lambda>l. l @ [nl]) ls)"

lemma ended_lines_simps [simp]:
  "ended_lines [] = []"
  "ended_lines (l # ls) = l @ nl # ended_lines ls"
  "ended_lines (ls @ ks) = ended_lines ls @ ended_lines ks"
  by (simp_all add: ended_lines_def)

definition good_lines :: "string list \<Rightarrow> bool" where
  "good_lines ls \<longleftrightarrow> list_all (\<lambda>l. l \<noteq> [] \<and> nl \<notin> set l \<and> nul \<notin> set l) ls"

lemma good_lines_simps [simp]:
  "good_lines []"
  "good_lines (l # ls) \<longleftrightarrow> l \<noteq> [] \<and> nl \<notin> set l \<and> nul \<notin> set l \<and> good_lines ls"
  "good_lines (ls @ ks) \<longleftrightarrow> good_lines ls \<and> good_lines ks"
  by (auto simp: good_lines_def)

lemma cut_blank_lines:
  assumes "good_lines ls" "ls \<noteq> []"
  shows "cut_blank (ended_lines ls @ nl # m) = Some (ended_lines ls, m)"
proof -
  have free: "cut_blank (l @ nl # r) = map_option (\<lambda>(h, m). (l @ h, m)) (cut_blank (nl # r))" if "nl \<notin> set l" for l r
    using that
  proof (induction l)
    case (Cons c l)
    then show ?case by (cases "l @ nl # r") (auto simp: option.map_comp comp_def split_def)
  qed (simp add: option.map_ident split_def)
  show ?thesis using assms
  proof (induction ls)
    case (Cons l ls)
    then have l: "nl \<notin> set l" by simp
    show ?case
    proof (cases ls)
      case Nil
      then show ?thesis using free[OF l] by simp
    next
      case (Cons k ks)
      then obtain c k' where k: "k = c # k'" "c \<noteq> nl" using \<open>good_lines (l # ls)\<close> by (cases k) auto
      have "cut_blank (nl # ended_lines ls @ nl # m) = map_option (\<lambda>(h, m). (nl # h, m)) (cut_blank (ended_lines ls @ nl # m))"
        using Cons k by simp
      then show ?thesis using free[OF l] Cons.IH Cons.prems Cons by simp
    qed
  qed simp
qed

lemma split_on_ended: "good_lines ls \<Longrightarrow> ls \<noteq> [] \<Longrightarrow> \<exists>h. ended_lines ls = h @ [nl] \<and> split_on nl h = ls"
proof (induction ls)
  case (Cons l ls)
  then show ?case
  proof (cases ls)
    case Nil
    then show ?thesis using Cons by (simp add: split_on_free)
  next
    case (Cons k ks)
    then obtain h where "ended_lines ls = h @ [nl]" "split_on nl h = ls" using Cons.IH Cons.prems by auto
    then show ?thesis using Cons.prems by (intro exI[of _ "l @ nl # h"]) (simp add: split_on_append)
  qed
qed simp

lemma splitHeaders_text:
  assumes "good_lines ls" "ls \<noteq> []"
  shows "splitHeaders (ended_lines ls @ nl # m) = (ls, m)"
proof -
  obtain h where "ended_lines ls = h @ [nl]" "split_on nl h = ls" using split_on_ended[OF assms] by blast
  moreover from this have "cut_suffix (ended_lines ls) [nl] = Some h" by (simp add: cut_suffix_Some_iff)
  ultimately show ?thesis using cut_blank_lines[OF assms, of m] by (simp add: splitHeaders_def)
qed

lemma verify_text:
  assumes "good_lines ls" "ls \<noteq> []"
  shows "verifyHeaders t (ended_lines ls @ nl # m) = Inr ()"
proof -
  have free: "verify_loop t (l @ r) = verify_loop t r" if "nl \<notin> set l" "nul \<notin> set l" for l r
    using that by (induction l) auto
  have "verify_loop t (ended_lines ls @ nl # m) = Some (Inr ())" using assms
  proof (induction ls)
    case (Cons l ls)
    then show ?case
    proof (cases ls)
      case Nil
      then show ?thesis using Cons free by simp
    next
      case (Cons k ks)
      then obtain c k' where "k = c # k'" "c \<noteq> nl" using \<open>good_lines (l # ls)\<close> by (cases k) auto
      then show ?thesis using Cons.IH Cons.prems Cons free[of l] by simp
    qed
  qed simp
  then show ?thesis by (simp add: verifyHeaders_def)
qed

text \<open>Conversely, what is split off a text whose headers end is such lines.\<close>

lemma cut_blank_Some:
  "cut_blank s = Some (h, m) \<Longrightarrow> (\<exists>h'. h = h' @ [nl]) \<and> cut_blank h = None \<and> prefix h s"
proof (induction s arbitrary: h m rule: cut_blank.induct)
  case (1 c d cs)
  show ?case
  proof (cases "c = nl \<and> d = nl")
    case True
    then show ?thesis using 1(2) by auto
  next
    case False
    then obtain h0 where h: "cut_blank (d # cs) = Some (h0, m)" "h = c # h0" using 1(2) by auto
    from 1(1)[OF False this(1)] obtain h' where "h0 = h' @ [nl]" "cut_blank h0 = None" "prefix h0 (d # cs)" by blast
    moreover have "cut_blank (c # h0) = None" if "cut_blank h0 = None" "prefix h0 (d # cs)" "h0 \<noteq> []"
      using that False by (cases h0) auto
    ultimately show ?thesis using h(2) \<open>prefix h0 (d # cs)\<close> by auto
  qed
qed auto

lemma cut_blank_rest: "cut_blank s = Some (h, m) \<Longrightarrow> set m \<subseteq> set s"
proof (induction s arbitrary: h rule: cut_blank.induct)
  case (1 c d cs)
  then show ?case by (cases "c = nl \<and> d = nl") auto
qed auto

definition head_of :: "string \<Rightarrow> string" where
  "head_of s = (case cut_blank s of None \<Rightarrow> s | Some (h, m) \<Rightarrow> h)"

lemma verify_loop_spec:
  "nul \<notin> set (head_of s) \<and> (cut_blank s = None \<longrightarrow> verify_loop t s = None) \<or>
   verify_loop t s = Some (Inl (ObjectError t ''nulInHeader''))"
proof (induction s rule: cut_blank.induct)
  case (1 c d cs)
  then show ?case by (cases "c = nl \<and> d = nl") (auto simp: head_of_def split: option.splits)
qed (auto simp: head_of_def)

lemma verified_head:
  assumes "verifyHeaders t s = Inr ()"
  shows "nul \<notin> set (head_of s) \<and> (\<exists>h'. head_of s = h' @ [nl]) \<and> cut_blank (head_of s) = None"
proof (cases "cut_blank s")
  case None
  then have "verify_loop t s = None" "nul \<notin> set (head_of s)"
    using assms verify_loop_spec[of s t] by (auto simp: verifyHeaders_def)
  then show ?thesis
    using assms None by (cases s rule: rev_cases) (auto simp: verifyHeaders_def head_of_def split: if_splits)
next
  case (Some hm)
  then obtain h m where hm: "cut_blank s = Some (h, m)" by (cases hm) auto
  moreover have "nul \<notin> set (head_of s)" using assms verify_loop_spec[of s t] by (auto simp: verifyHeaders_def)
  ultimately show ?thesis using cut_blank_Some[OF hm] by (simp add: head_of_def)
qed

lemma split_on_blank: "cut_blank (s @ [nl]) = None \<Longrightarrow> [] \<notin> set (tl (split_on nl s))"
proof (induction s)
  case (Cons c s)
  then show ?case
  proof (cases s)
    case Nil
    then show ?thesis using Cons.prems by (auto split: if_splits)
  next
    case (Cons d s')
    then have "\<not> (c = nl \<and> d = nl)" "cut_blank (s @ [nl]) = None" using Cons.prems by (auto split: if_splits)
    then have "[] \<notin> set (tl (split_on nl s))" "c = nl \<Longrightarrow> hd (split_on nl s) \<noteq> []"
      using Cons.IH Cons by (auto split: list.splits)
    then show ?thesis using split_on_nonempty[of nl s] by (cases "split_on nl s") auto
  qed
qed simp

lemma split_on_subset: "p \<in> set (split_on c s) \<Longrightarrow> set p \<subseteq> set s"
  by (induction s arbitrary: p) (fastforce split: list.splits if_splits)+

lemma splitHeaders_good:
  assumes "verifyHeaders t s = Inr ()" "splitHeaders s = (l # ls, m)" "l \<noteq> []"
  shows "good_lines (l # ls)"
proof -
  obtain h where h: "head_of s = h @ [nl]" "cut_blank (h @ [nl]) = None" "nul \<notin> set h"
    using verified_head[OF assms(1)] by auto
  have "split_on nl h = l # ls"
    using assms(2) h(1) by (auto simp: splitHeaders_def head_of_def cut_suffix_Some_iff[THEN iffD2] Let_def split: option.splits)
  then show ?thesis
    using assms(3) split_on_blank[OF h(2)] split_on_sep_free[of _ nl h] split_on_subset[of _ nl h] h(3)
    by (fastforce simp: good_lines_def list_all_iff)
qed

section \<open>Signatures have one text\<close>

definition plain :: "string \<Rightarrow> bool" where
  "plain s \<longleftrightarrow> list_all (\<lambda>c. \<not> angle c \<and> c \<noteq> nl \<and> c \<noteq> nul) s"

definition good_signature :: "Signature \<Rightarrow> bool" where
  "good_signature s \<longleftrightarrow> plain (sg_Name s) \<and> plain (sg_Email s) \<and> 0 \<le> sg_When s \<and> sg_When s \<le> max_int64 \<and> validZone (sg_Zone s)"

lemma takeWhile_before: "list_all P x \<Longrightarrow> \<not> P d \<Longrightarrow> takeWhile P (x @ d # r) = x"
  by (induction x) auto

lemma dropWhile_before: "list_all P x \<Longrightarrow> \<not> P d \<Longrightarrow> dropWhile P (x @ d # r) = d # r"
  by (induction x) auto

lemma not_digits [simp]: "\<not> is_digit space" "\<not> is_digit nl" "\<not> is_digit nul"
  by (simp_all add: is_digit_def)

lemma digits_of_all: "list_all is_digit (digits_of n)"
  by (simp add: list_all_iff digits_of_digits)

lemma digits_of_zero: "digits_of n = CHR ''0'' # r \<Longrightarrow> n = 0 \<and> r = []"
  using digits_of_hd[of n] by (cases "n = 0") (auto simp: digits_of.simps[of 0])

lemma parseDate_text:
  assumes "0 \<le> w" "w \<le> max_int64" "validZone z"
  shows "parseDate t name email ('' '' @ itoa w @ '' '' @ z) =
         Inr \<lparr>sg_Name = name, sg_Email = email, sg_When = w, sg_Zone = z\<rparr>"
proof -
  let ?ds = "digits_of (nat w)"
  have e: "itoa w = ?ds" using assms(1) by (simp add: itoa_def)
  have tw: "takeWhile is_digit (?ds @ space # z) = ?ds" "dropWhile is_digit (?ds @ space # z) = space # z"
    using digits_of_all by (auto intro: takeWhile_before dropWhile_before)
  have "cut_prefix (?ds @ space # z) ''0'' = None \<or> cut_prefix (?ds @ space # z) ''0 '' \<noteq> None"
  proof (rule disjCI)
    assume "\<not> cut_prefix (?ds @ space # z) ''0 '' \<noteq> None"
    show "cut_prefix (?ds @ space # z) ''0'' = None"
    proof (rule ccontr)
    assume "cut_prefix (?ds @ space # z) ''0'' \<noteq> None"
    then obtain r where "?ds @ space # z = CHR ''0'' # r" by (auto simp: cut_prefix_Some_iff)
    then obtain r' where "?ds = CHR ''0'' # r'" by (cases ?ds) auto
    then have "?ds @ space # z = ''0 '' @ z" using digits_of_zero[of "nat w" r'] by (simp add: digits_of.simps[of 0])
    then have "cut_prefix (?ds @ space # z) ''0 '' = Some z" by (simp only: cut_prefix_append)
    then show False using \<open>\<not> cut_prefix (?ds @ space # z) ''0 '' \<noteq> None\<close> by simp
    qed
  qed
  then show ?thesis
    using assms tw by (simp add: parseDate_def e cut_prefix_def[of "space # _" "'' ''"] Let_def cut_prefix_Some_iff[THEN iffD2])
qed

lemma parseSignature_text:
  assumes "good_signature s"
  shows "parseSignature t (signature_String s) = Inr s"
proof -
  let ?r = "sg_Email s @ CHR ''>'' # space # itoa (sg_When s) @ space # sg_Zone s"
  have g: "list_all (\<lambda>c. \<not> angle c) (sg_Name s @ '' '')" "list_all (\<lambda>c. \<not> angle c) (sg_Email s)"
    using assms by (auto simp: good_signature_def plain_def list_all_iff angle_def)
  have line: "signature_String s = (sg_Name s @ '' '') @ CHR ''<'' # ?r" by (simp add: signature_String_def)
  have n: "takeWhile (\<lambda>c. \<not> angle c) (signature_String s) = sg_Name s @ '' ''"
    "dropWhile (\<lambda>c. \<not> angle c) (signature_String s) = CHR ''<'' # ?r"
    unfolding line by (rule takeWhile_before[OF g(1)], simp add: angle_def, rule dropWhile_before[OF g(1)], simp add: angle_def)
  have e: "takeWhile (\<lambda>c. \<not> angle c) ?r = sg_Email s" "dropWhile (\<lambda>c. \<not> angle c) ?r = CHR ''>'' # space # itoa (sg_When s) @ space # sg_Zone s"
    by (rule takeWhile_before[OF g(2)], simp add: angle_def, rule dropWhile_before[OF g(2)], simp add: angle_def)
  have "cut_prefix (signature_String s) ''<'' = None"
    using g(1) by (cases "sg_Name s") (auto simp: signature_String_def cut_prefix_def angle_def)
  then have "parseSignature t (signature_String s) =
      parseDate t (sg_Name s) (sg_Email s) (space # itoa (sg_When s) @ space # sg_Zone s)"
    unfolding parseSignature_def n Let_def by (simp del: dropWhile_eq_Nil_conv add: e)
  also have "\<dots> = Inr \<lparr>sg_Name = sg_Name s, sg_Email = sg_Email s, sg_When = sg_When s, sg_Zone = sg_Zone s\<rparr>"
    using parseDate_text[of "sg_When s" "sg_Zone s" t "sg_Name s" "sg_Email s"] assms by (simp add: good_signature_def)
  finally show ?thesis by simp
qed

lemma parseDate_Inr:
  assumes "parseDate t name email rest = Inr s"
  shows "sg_Name s = name \<and> sg_Email s = email \<and> 0 \<le> sg_When s \<and> sg_When s \<le> max_int64 \<and> validZone (sg_Zone s) \<and>
         rest = '' '' @ itoa (sg_When s) @ '' '' @ sg_Zone s"
proof -
  obtain r where c: "cut_prefix rest '' '' = Some r" using assms by (auto simp: parseDate_def split: option.splits)
  let ?ds = "takeWhile is_digit r"
  have d: "\<not> (cut_prefix r ''0'' \<noteq> None \<and> cut_prefix r ''0 '' = None)" "?ds \<noteq> []" "int (digits_val ?ds) \<le> max_int64"
    using assms c by (auto simp: parseDate_def Let_def split: if_splits)
  obtain z where z: "cut_prefix (dropWhile is_digit r) '' '' = Some z" "validZone z"
    "s = \<lparr>sg_Name = name, sg_Email = email, sg_When = int (digits_val ?ds), sg_Zone = z\<rparr>"
    using assms c d by (simp add: parseDate_def Let_def split: option.splits if_splits)
  have split: "r = ?ds @ space # z"
    using z(1) takeWhile_dropWhile_id[of is_digit r] by (simp add: cut_prefix_Some_iff)
  have "digits_of (digits_val ?ds) = ?ds"
  proof (rule digits_of_val)
    show "is_digit c" if "c \<in> set ?ds" for c using that set_takeWhileD by metis
    show "hd ?ds \<noteq> CHR ''0''" if "length ?ds > 1"
    proof
      assume "hd ?ds = CHR ''0''"
      moreover obtain e d x where "?ds = e # d # x"
      proof (cases ?ds)
        case (Cons e y)
        then show ?thesis using that \<open>length ?ds > 1\<close> by (cases y) auto
      qed (use \<open>length ?ds > 1\<close> in simp)
      ultimately have x: "?ds = CHR ''0'' # d # x" by simp
      then have "cut_prefix r ''0'' \<noteq> None" using split by (simp add: cut_prefix_def)
      then obtain y where "r = ''0 '' @ y" using d(1) by (auto simp: cut_prefix_Some_iff)
      then have "d = space" using x split by simp
      then show False using x set_takeWhileD[of space is_digit r] by simp
    qed
  qed (rule d(2))
  moreover have "rest = '' '' @ r" using c by (simp only: cut_prefix_Some_iff)
  ultimately show ?thesis using z(2,3) d(3) split by (simp add: itoa_def)
qed

lemma parseSignature_Inr:
  assumes "parseSignature t line = Inr s" "nl \<notin> set line" "nul \<notin> set line"
  shows "good_signature s \<and> signature_String s = line"
proof -
  let ?name = "takeWhile (\<lambda>c. \<not> angle c) line" and ?rest = "dropWhile (\<lambda>c. \<not> angle c) line"
  let ?email = "takeWhile (\<lambda>c. \<not> angle c) (tl ?rest)" and ?rest2 = "dropWhile (\<lambda>c. \<not> angle c) (tl ?rest)"
  have p: "cut_prefix line ''<'' = None" "?rest \<noteq> []" "hd ?rest \<noteq> CHR ''>''" "last ?name = space"
    "?rest2 \<noteq> []" "hd ?rest2 \<noteq> CHR ''<''" "parseDate t (butlast ?name) ?email (tl ?rest2) = Inr s"
    using assms(1) by (auto simp: parseSignature_def Let_def split: if_splits)
  have "angle (hd ?rest)" "angle (hd ?rest2)" using hd_dropWhile[OF p(2)] hd_dropWhile[OF p(5)] by simp_all
  then have h: "hd ?rest = CHR ''<''" "hd ?rest2 = CHR ''>''" using p(3,6) unfolding angle_def by blast+
  have r: "?rest = CHR ''<'' # tl ?rest" "?rest2 = CHR ''>'' # tl ?rest2"
    by (simp_all only: h[symmetric] list.collapse[OF p(2)] list.collapse[OF p(5)])
  have l1: "line = ?name @ CHR ''<'' # tl ?rest" using takeWhile_dropWhile_id[of "\<lambda>c. \<not> angle c" line] r(1) by simp
  have l2: "tl ?rest = ?email @ CHR ''>'' # tl ?rest2" using takeWhile_dropWhile_id[of "\<lambda>c. \<not> angle c" "tl ?rest"] r(2) by simp
  have "?name \<noteq> []"
  proof
    assume "?name = []"
    then have "line = ''<'' @ tl ?rest" using l1 by simp
    then have "cut_prefix line ''<'' = Some (tl ?rest)" by (subst cut_prefix_Some_iff)
    then show False using p(1) by simp
  qed
  then have n: "?name = butlast ?name @ '' ''" using p(4) append_butlast_last_id[of ?name] by simp
  have line: "line = butlast ?name @ '' '' @ CHR ''<'' # ?email @ CHR ''>'' # tl ?rest2"
    using l1 l2 n by (metis append.assoc)
  have "set ?name \<subseteq> set line" by (rule subsetI) (rule set_takeWhileD[THEN conjunct1])
  moreover have "set ?email \<subseteq> set (tl ?rest)" by (rule subsetI) (rule set_takeWhileD[THEN conjunct1])
  moreover have "set (tl ?rest) \<subseteq> set line" by (subst l1) auto
  ultimately have sub: "set ?name \<subseteq> set line" "set ?email \<subseteq> set line" by blast+
  have "plain (butlast ?name)"
    using assms(2,3) sub(1) set_takeWhileD[of _ "\<lambda>c. \<not> angle c" line]
    unfolding plain_def list_all_iff by (blast dest: in_set_butlastD)
  moreover have "plain ?email"
    using assms(2,3) sub(2) set_takeWhileD[of _ "\<lambda>c. \<not> angle c" "tl ?rest"]
    unfolding plain_def list_all_iff by blast
  ultimately show ?thesis
    using parseDate_Inr[OF p(7)] line by (simp add: good_signature_def signature_String_def)
qed

section \<open>Headers kept as they are\<close>

definition header_lines :: "Header \<Rightarrow> string list" where
  "header_lines h =
     (let ps = split_on nl (h_Value h)
      in (h_Key h @ (if h_Key h = [] \<or> hd ps \<noteq> [] then space # hd ps else [])) # map ((#) space) (tl ps))"

definition good_key :: "string \<Rightarrow> bool" where
  "good_key k \<longleftrightarrow> space \<notin> set k \<and> nl \<notin> set k \<and> nul \<notin> set k"

definition good_headers :: "Header list \<Rightarrow> bool" where
  "good_headers hs \<longleftrightarrow> list_all (\<lambda>h. good_key (h_Key h) \<and> nul \<notin> set (h_Value h)) hs \<and> list_all (\<lambda>h. h_Key h \<noteq> []) (tl hs)"

lemma continued_lines:
  "space # concat (map (\<lambda>c. if c = nl then [nl, space] else [c]) r) @ [nl] = ended_lines (map ((#) space) (split_on nl r))"
proof (induction r)
  case (Cons c r)
  obtain p ps where "split_on nl r = p # ps" using split_on_nonempty[of nl r] by (cases "split_on nl r") auto
  then show ?case using Cons by auto
qed simp

lemma header_text_lines: "header_text h = ended_lines (header_lines h)"
proof (cases "cut_at nl (h_Value h)")
  case None
  then have "nl \<notin> set (h_Value h)" by (simp add: cut_at_None_iff)
  then show ?thesis unfolding header_text_def header_lines_def None by (simp add: split_on_free)
next
  case (Some fr)
  then obtain f r where v: "h_Value h = f @ nl # r" "nl \<notin> set f" "cut_at nl (h_Value h) = Some (f, r)"
    by (cases fr) (auto simp: cut_at_Some)
  then show ?thesis
    using continued_lines[of r] by (simp add: header_text_def header_lines_def split_on_append Let_def)
qed

lemma encode_headers_from_lines:
  "encode_headers_from t i hs = Inr b \<longleftrightarrow>
   list_all (\<lambda>h. good_key (h_Key h) \<and> nul \<notin> set (h_Value h)) hs \<and>
   list_all (\<lambda>h. h_Key h \<noteq> []) (if i = 0 then tl hs else hs) \<and> b = ended_lines (concat (map header_lines hs))"
proof (induction hs arbitrary: i b)
  case (Cons h hs)
  have "encode_headers_from t i (h # hs) = Inr b \<longleftrightarrow>
      good_key (h_Key h) \<and> \<not> (h_Key h = [] \<and> i > 0) \<and> nul \<notin> set (h_Value h) \<and>
      (\<exists>b'. encode_headers_from t (i + 1) hs = Inr b' \<and> b = header_text h @ b')"
    by (auto simp: good_key_def contains_any_def list_ex_iff)
  then show ?case unfolding Cons by (auto simp: header_text_lines)
qed auto

lemma encodeHeaders_lines:
  "encodeHeaders t hs = Inr b \<longleftrightarrow> good_headers hs \<and> b = ended_lines (concat (map header_lines hs))"
  by (simp add: encodeHeaders_def encode_headers_from_lines good_headers_def)

lemma header_lines_good:
  assumes "good_key (h_Key h)" "nul \<notin> set (h_Value h)"
  shows "good_lines (header_lines h)"
proof -
  obtain p ps where ps: "split_on nl (h_Value h) = p # ps"
    using split_on_nonempty[of nl "h_Value h"] by (cases "split_on nl (h_Value h)") auto
  have "nl \<notin> set q \<and> nul \<notin> set q" if "q \<in> set (p # ps)" for q
    using that split_on_sep_free[of q nl "h_Value h"] split_on_subset[of q nl "h_Value h"] assms(2) ps by auto
  then show ?thesis
    using assms(1) ps by (auto simp: header_lines_def good_lines_def list_all_iff good_key_def)
qed

lemma headers_lines_good: "good_headers hs \<Longrightarrow> good_lines (concat (map header_lines hs))"
proof -
  assume "good_headers hs"
  then have "list_all (\<lambda>h. good_key (h_Key h) \<and> nul \<notin> set (h_Value h)) hs" by (simp add: good_headers_def)
  then show ?thesis by (induction hs) (auto simp: header_lines_good)
qed

lemma headers_from_continued:
  "hs \<noteq> [] \<Longrightarrow> headers_from hs val (map ((#) space) rs @ ls) = headers_from hs (val @ rs) ls"
  by (induction rs arbitrary: val) (auto simp: cut_prefix_def)

lemma headers_from_header:
  assumes "good_key (h_Key h)" "h_Key h \<noteq> [] \<or> hs = []"
  shows "headers_from hs val (header_lines h @ ls) =
         headers_from (end_header hs val @ [\<lparr>h_Key = h_Key h, h_Value = []\<rparr>]) (split_on nl (h_Value h)) ls"
proof -
  obtain p ps where ps: "split_on nl (h_Value h) = p # ps"
    using split_on_nonempty[of nl "h_Value h"] by (cases "split_on nl (h_Value h)") auto
  show ?thesis
  proof (cases "h_Key h = []")
    case True
    then show ?thesis
      using assms(2) ps by (simp add: header_lines_def cut_prefix_def headers_from_continued)
  next
    case False
    then have "cut_prefix (h_Key h @ x) '' '' = None" for x
      using assms(1) by (cases "h_Key h") (auto simp: cut_prefix_def good_key_def)
    from this[of "[]"] this[of "space # p"] have "cut_prefix (h_Key h) '' '' = None" "cut_prefix (h_Key h @ space # p) '' '' = None"
      by simp_all
    moreover have "cut_at space (h_Key h @ space # p) = Some (h_Key h, p)" "cut_at space (h_Key h) = None"
      using assms(1) by (auto simp: cut_at_append cut_at_None_iff good_key_def)
    ultimately show ?thesis
      using False ps by (cases "p = []") (simp_all add: header_lines_def headers_from_continued)
  qed
qed

lemma headers_from_lines:
  assumes "list_all (\<lambda>h. good_key (h_Key h)) gs" "list_all (\<lambda>h. h_Key h \<noteq> []) (if hs = [] then tl gs else gs)"
  shows "headers_from hs val (concat (map header_lines gs)) = end_header hs val @ gs"
  using assms
proof (induction gs arbitrary: hs val)
  case (Cons g gs)
  have "headers_from hs val (header_lines g @ concat (map header_lines gs)) =
      end_header (end_header hs val @ [\<lparr>h_Key = h_Key g, h_Value = []\<rparr>]) (split_on nl (h_Value g)) @ gs"
    using headers_from_header[of g hs val] Cons by (auto split: if_splits)
  also have "\<dots> = end_header hs val @ \<lparr>h_Key = h_Key g, h_Value = h_Value g\<rparr> # gs"
    by (simp add: end_header_def[of "_ @ _"] join_split)
  finally show ?case by simp
qed simp

lemma parseHeaders_lines: "good_headers hs \<Longrightarrow> parseHeaders (concat (map header_lines hs)) = hs"
  using headers_from_lines[of hs "[]" "[]"]
  by (auto simp: good_headers_def parseHeaders_def end_header_def list_all_iff)

text \<open>Conversely, the headers read from good lines can be written.\<close>

definition kept_headers :: "Header list \<Rightarrow> bool" where
  "kept_headers hs \<longleftrightarrow> good_headers (map (\<lambda>h. h\<lparr>h_Value := []\<rparr>) hs) \<and> list_all (\<lambda>h. nul \<notin> set (h_Value h)) (butlast hs)"

lemma nul_join: "list_all (\<lambda>v. nul \<notin> set v) vs \<Longrightarrow> nul \<notin> set (join_with [nl] vs)"
  by (induction "[nl]" vs rule: join_with.induct) auto

lemma end_header_good:
  assumes "kept_headers hs" "list_all (\<lambda>v. nul \<notin> set v) val"
  shows "good_headers (end_header hs val)"
proof (cases hs rule: rev_cases)
  case (snoc gs g)
  then have "list_all (\<lambda>h. h_Key h \<noteq> []) (tl (gs @ [g\<lparr>h_Value := join_with [nl] val\<rparr>]))"
    using assms(1) by (cases gs) (auto simp: kept_headers_def good_headers_def list_all_iff)
  then show ?thesis
    using assms(1) snoc nul_join[OF assms(2)]
    by (auto simp: end_header_def kept_headers_def good_headers_def list_all_iff)
qed (simp add: end_header_def good_headers_def)

lemma kept_snoc:
  assumes "good_headers hs" "good_key k" "k \<noteq> [] \<or> hs = []"
  shows "kept_headers (hs @ [\<lparr>h_Key = k, h_Value = []\<rparr>])"
  using assms by (cases hs) (auto simp: kept_headers_def good_headers_def list_all_iff)

lemma headers_from_good:
  assumes "kept_headers hs" "list_all (\<lambda>v. nul \<notin> set v) val" "good_lines ls"
  shows "good_headers (headers_from hs val ls)"
  using assms
proof (induction hs val ls rule: headers_from.induct)
  case (1 hs val)
  then show ?case by (simp add: end_header_good)
next
  case (2 hs val l ls)
  have e: "good_headers (end_header hs val)" using end_header_good 2 by blast
  show ?case
  proof (cases "cut_prefix l '' ''")
    case (Some r)
    then have "nul \<notin> set r" using 2(6) by (auto simp: cut_prefix_Some_iff)
    moreover have "kept_headers [\<lparr>h_Key = [], h_Value = []\<rparr>]" using kept_snoc[of "[]" "[]"] by (simp add: good_headers_def good_key_def)
    ultimately show ?thesis using 2(2,3)[OF Some] 2(4-6) Some by (auto simp: end_header_def)
  next
    case None
    then obtain c l' where l: "l = c # l'" "c \<noteq> space" using 2(6) by (cases l) (auto simp: cut_prefix_def split: if_splits)
    obtain k f where kf: "(case cut_at space l of Some (k, f) \<Rightarrow> (k, f) | None \<Rightarrow> (l, [])) = (k, f)" by fastforce
    then have k: "k \<noteq> []" "good_key k" "nul \<notin> set f"
      using 2(6) l by (auto simp: good_key_def cut_at_Some cut_at_None_iff Cons_eq_append_conv split: option.splits)
    then show ?thesis
      using 2(1)[OF None refl kf[symmetric]] 2(6) kept_snoc[OF e] kf None by simp
  qed
qed

lemma parseHeaders_good: "good_lines ls \<Longrightarrow> good_headers (parseHeaders ls)"
  unfolding parseHeaders_def by (rule headers_from_good) (simp_all add: kept_headers_def good_headers_def)

section \<open>Commits\<close>

definition good_commit :: "Commit \<Rightarrow> bool" where
  "good_commit c \<longleftrightarrow> length (co_Tree c) = 20 \<and> list_all (\<lambda>p. length p = 20) (co_Parents c) \<and>
     good_signature (co_Author c) \<and> good_signature (co_Committer c) \<and> good_headers (co_Headers c) \<and> nul \<notin> set (co_Message c)"

definition commit_lines :: "Commit \<Rightarrow> string list" where
  "commit_lines c =
     (''tree '' @ id_String (co_Tree c)) # map (\<lambda>p. ''parent '' @ id_String p) (co_Parents c) @
     [''author '' @ signature_String (co_Author c), ''committer '' @ signature_String (co_Committer c)] @
     concat (map header_lines (co_Headers c))"

lemma encodeSignature_good:
  "good_signature s \<Longrightarrow> encodeSignature t k s = Inr (k @ '' '' @ signature_String s @ [nl])"
  by (auto simp: encodeSignature_def good_signature_def plain_def contains_any_def list_ex_iff list_all_iff angle_def)

lemma commit_text_lines: "good_commit c \<Longrightarrow> commit_text c = Inr (ended_lines (commit_lines c) @ nl # co_Message c)"
proof -
  assume c: "good_commit c"
  have "concat (map (\<lambda>p. ''parent '' @ id_String p @ [nl]) ps) = ended_lines (map (\<lambda>p. ''parent '' @ id_String p) ps)" for ps
    by (induction ps) auto
  then show ?thesis
    using c encodeHeaders_lines[of TypeCommit "co_Headers c" "ended_lines (concat (map header_lines (co_Headers c)))"]
    by (simp add: commit_text_def encodeSignature_good good_commit_def commit_lines_def)
qed

lemma id_String_plain: "nl \<notin> set (id_String i) \<and> nul \<notin> set (id_String i)"
proof -
  have "list_all lower_hex_char (id_String i)" using lowerHex_String by (simp add: lowerHex_def)
  then show ?thesis by (auto simp: list_all_iff lower_hex_char_def byte_def Let_def)
qed

lemma signature_plain:
  assumes "good_signature s"
  shows "nl \<notin> set (signature_String s) \<and> nul \<notin> set (signature_String s)"
proof -
  obtain d ds where z: "sg_Zone s = d # ds" "d = CHR ''+'' \<or> d = CHR ''-''" "list_all is_digit ds"
    using assms by (cases "sg_Zone s") (auto simp: good_signature_def validZone_def trim_digits_Nil)
  then have "nl \<notin> set (sg_Zone s) \<and> nul \<notin> set (sg_Zone s)" by (auto simp: list_all_iff)
  moreover have "\<not> is_digit nl" "\<not> is_digit nul" by simp_all
  then have "nl \<notin> set (digits_of w) \<and> nul \<notin> set (digits_of w)" for w
    using digits_of_digits by blast
  then have "nl \<notin> set (itoa w) \<and> nul \<notin> set (itoa w)" for w
    by (simp add: itoa_def)
  moreover have "nl \<notin> set (sg_Name s) \<and> nul \<notin> set (sg_Name s) \<and> nl \<notin> set (sg_Email s) \<and> nul \<notin> set (sg_Email s)"
    using assms unfolding good_signature_def plain_def list_all_iff by blast
  ultimately show ?thesis by (simp add: signature_String_def)
qed

lemma commit_lines_good: "good_commit c \<Longrightarrow> good_lines (commit_lines c)"
  using id_String_plain signature_plain headers_lines_good
  by (auto simp: good_commit_def commit_lines_def) (auto simp: good_lines_def list_all_iff)

lemma next_value_key: "next_value k ((k @ '' '' @ v) # ls) = Some (v, ls)"
  by (simp add: next_value_def cut_prefix_Some_iff)

lemma parse_parents_lines:
  "list_all (\<lambda>p. length p = 20) ps \<Longrightarrow> next_value ''parent'' ls = None \<Longrightarrow>
   parse_parents (map (\<lambda>p. ''parent '' @ id_String p) ps @ ls) = Inr (ps, ls)"
proof (induction ps)
  case Nil
  then show ?case by (simp add: parse_parents.simps)
next
  case (Cons p ps)
  then show ?case
    using next_value_key[of "''parent''" "id_String p"] ids.dec_enc[of p] by (subst parse_parents.simps) simp
qed

lemma parse_authors_line:
  assumes "good_signature s" "next_value ''author'' ls = None"
  shows "parse_authors None ((''author '' @ signature_String s) # ls) = Inr (Some s, ls)"
  using next_value_key[of "''author''" "signature_String s" ls] parseSignature_text[OF assms(1)] assms(2)
  by (subst parse_authors.simps) (simp add: parse_authors.simps[of "Some s"])

lemma ParseCommit_lines:
  assumes "good_commit c"
  shows "ParseCommit (ended_lines (commit_lines c) @ nl # co_Message c) = Inr c"
proof -
  let ?m = "co_Message c" and ?l = "commit_lines c"
  have g: "good_lines ?l" "?l \<noteq> []" using commit_lines_good[OF assms] by (auto simp: commit_lines_def)
  have "nul \<notin> set (ended_lines ls)" if "good_lines ls" for ls
    using that by (induction ls) auto
  then have n: "nul \<notin> set (ended_lines ?l @ nl # ?m)" using g(1) assms by (simp add: good_commit_def)
  let ?h = "concat (map header_lines (co_Headers c))"
  let ?c = "(''committer '' @ signature_String (co_Committer c)) # ?h"
  let ?a = "(''author '' @ signature_String (co_Author c)) # ?c"
  have l: "?l = (''tree '' @ id_String (co_Tree c)) # map (\<lambda>p. ''parent '' @ id_String p) (co_Parents c) @ ?a"
    by (simp add: commit_lines_def)
  have no: "next_value ''parent'' ?a = None" "next_value ''author'' ?c = None"
    by (simp_all add: next_value_def cut_prefix_def)
  have a: "parse_authors None ?a = Inr (Some (co_Author c), ?c)"
    using assms no(2) by (intro parse_authors_line) (auto simp: good_commit_def)
  have p: "parse_parents (map (\<lambda>p. ''parent '' @ id_String p) (co_Parents c) @ ?a) = Inr (co_Parents c, ?a)"
    using assms no(1) by (intro parse_parents_lines) (auto simp: good_commit_def)
  have t: "next_value ''tree'' ?l = Some (id_String (co_Tree c), map (\<lambda>p. ''parent '' @ id_String p) (co_Parents c) @ ?a)"
    using next_value_key[of "''tree''"] unfolding l by simp
  have m: "next_value ''committer'' ?c = Some (signature_String (co_Committer c), ?h)"
    using next_value_key[of "''committer''"] by simp
  have i: "ParseID (id_String (co_Tree c)) = Inr (co_Tree c)" using assms by (intro ids.dec_enc) (simp add: good_commit_def)
  have s: "parseSignature TypeCommit (signature_String (co_Committer c)) = Inr (co_Committer c)" "parseHeaders ?h = co_Headers c"
    using assms by (auto simp: good_commit_def parseSignature_text parseHeaders_lines)
  show ?thesis
    unfolding ParseCommit_def verify_text[OF g] rbind.simps splitHeaders_text[OF g]
    by (simp only: n if_False Let_def prod.case t option.case i sum.case p rbind.simps a m s) simp
qed

lemma next_value_Some: "next_value k ls = Some (v, ls') \<longleftrightarrow> ls = (k @ '' '' @ v) # ls'"
  by (cases ls) (auto simp: next_value_def cut_prefix_Some_iff)

lemma parse_parents_Inr:
  "parse_parents ls = Inr (ps, ls') \<Longrightarrow>
   list_all (\<lambda>p. length p = 20) ps \<and> (good_lines ls \<longrightarrow> good_lines ls')"
proof (induction ls arbitrary: ps rule: parse_parents.induct)
  case (1 ls)
  show ?case
  proof (cases "next_value ''parent'' ls")
    case None
    then show ?thesis using 1(2) by (simp add: parse_parents.simps[of ls])
  next
    case (Some vr)
    then obtain v r where vr: "next_value ''parent'' ls = Some (v, r)" by (cases vr) auto
    then obtain p ps' where p: "ParseID v = Inr p" "parse_parents r = Inr (ps', ls')" "ps = p # ps'"
      using 1(2) by (subst (asm) parse_parents.simps) (auto split: sum.splits)
    then show ?thesis
      using 1(1)[OF vr refl p(1) p(2)] ids.dec_ok[OF p(1)] vr by (auto simp: next_value_Some)
  qed
qed

lemma parse_authors_Inr:
  assumes "parse_authors None ls = Inr (Some s, ls')" "good_lines ls"
  shows "good_signature s \<and> good_lines ls'"
proof -
  have stay: "parse_authors (Some a) r = Inr (b, r') \<Longrightarrow> b = Some a \<and> r' = r" for a b r r'
    by (subst (asm) parse_authors.simps) (auto split: option.splits)
  show ?thesis
  proof (cases "next_value ''author'' ls")
    case None
    then show ?thesis using assms(1) by (simp add: parse_authors.simps[of None])
  next
    case (Some vr)
    then obtain v r where vr: "ls = (''author '' @ v) # r" "next_value ''author'' ls = Some (v, r)"
      by (cases vr) (auto simp: next_value_Some)
    then obtain a where "parseSignature TypeCommit v = Inr a" "parse_authors (Some a) r = Inr (Some s, ls')"
      using assms(1) by (subst (asm) parse_authors.simps) auto
    then show ?thesis using stay[of a r "Some s" ls'] parseSignature_Inr[of TypeCommit v s] assms(2) vr(1) by auto
  qed
qed

lemma ParseCommit_good:
  assumes "ParseCommit data = Inr c"
  shows "good_commit c"
proof -
  obtain lines m where sp: "splitHeaders data = (lines, m)" by fastforce
  have v: "verifyHeaders TypeCommit data = Inr ()" "nul \<notin> set data"
    using assms by (auto simp: ParseCommit_def split: if_splits)
  obtain val lines1 where t: "next_value ''tree'' lines = Some (val, lines1)"
    using assms v sp by (auto simp: ParseCommit_def split: option.splits)
  then obtain tree where tree: "ParseID val = Inr tree"
    using assms v sp by (auto simp: ParseCommit_def split: sum.splits)
  obtain ps lines2 au lines3 where ra: "parse_parents lines1 = Inr (ps, lines2)" "parse_authors None lines2 = Inr (au, lines3)"
    using assms v sp t tree by (auto simp: ParseCommit_def)
  then obtain a where a: "au = Some a" using assms v sp t tree by (cases au) (auto simp: ParseCommit_def)
  then obtain val4 lines4 where rc: "next_value ''committer'' lines3 = Some (val4, lines4)"
    using assms v sp t tree ra by (auto simp: ParseCommit_def split: option.splits)
  then obtain cm where rs: "parseSignature TypeCommit val4 = Inr cm"
    "c = \<lparr>co_Tree = tree, co_Parents = ps, co_Author = a, co_Committer = cm, co_Headers = parseHeaders lines4, co_Message = m\<rparr>"
    using assms v sp t tree ra a by (auto simp: ParseCommit_def)
  note r = ra(1) ra(2)[unfolded a] rc rs
  have l: "lines = (''tree '' @ val) # lines1" using t by (simp add: next_value_Some)
  have "good_lines lines" using splitHeaders_good[OF v(1), of "''tree '' @ val" lines1 m] sp l by simp
  then have g1: "good_lines lines1" using l by simp
  then have g2: "good_lines lines2" "list_all (\<lambda>p. length p = 20) ps" using parse_parents_Inr[OF r(1)] by auto
  have g3: "good_signature a" "good_lines lines3" using parse_authors_Inr[OF r(2) g2(1)] by auto
  then have g4: "good_lines lines4" "nl \<notin> set val4" "nul \<notin> set val4" using r(3) by (auto simp: next_value_Some)
  have "set m \<subseteq> set data" using sp cut_blank_rest by (auto simp: splitHeaders_def Let_def split: option.splits)
  then have "nul \<notin> set m" using v(2) by blast
  then show ?thesis
    using ids.dec_ok[OF tree] g2(2) g3(1) parseSignature_Inr[OF r(4) g4(2,3)] parseHeaders_good[OF g4(1)] r(5)
    by (simp add: good_commit_def)
qed

text \<open>
  The commits that can be read are exactly the ones that can be written, and what is written is read back as the same
  commit, its headers, its parents and its message included.
\<close>

theorem commits_are_written_as_read:
  "(\<exists>data. ParseCommit data = Inr c) \<longleftrightarrow> (\<exists>data. Commit_Encode c = Inr data \<and> ParseCommit data = Inr c)"
proof
  assume "\<exists>data. ParseCommit data = Inr c"
  then have "good_commit c" using ParseCommit_good by blast
  then show "\<exists>data. Commit_Encode c = Inr data \<and> ParseCommit data = Inr c"
    using commit_text_lines ParseCommit_lines by (simp add: Commit_Encode_def)
qed blast

section \<open>Tags\<close>

text \<open>
  A tag without a tagger is told from one whose first header is named \<open>tagger\<close>: such a header is written without a space where
  its first line is empty, and one with more on that line cannot be written.
\<close>

definition good_tag :: "Tag \<Rightarrow> bool" where
  "good_tag t \<longleftrightarrow> length (tg_Object t) = 20 \<and> type_valid (tg_Type t) \<and> nl \<notin> set (tg_Name t) \<and> nul \<notin> set (tg_Name t) \<and>
     good_headers (tg_Headers t) \<and>
     (case tg_Tagger t of
        Some s \<Rightarrow> good_signature s
      | None \<Rightarrow> next_value ''tagger'' (concat (map header_lines (tg_Headers t))) = None)"

definition tag_lines :: "Tag \<Rightarrow> string list" where
  "tag_lines t =
     [''object '' @ id_String (tg_Object t), ''type '' @ type_String (tg_Type t), ''tag '' @ tg_Name t] @
     (case tg_Tagger t of None \<Rightarrow> [] | Some s \<Rightarrow> [''tagger '' @ signature_String s]) @
     concat (map header_lines (tg_Headers t))"

lemma tag_text_lines: "good_tag t \<Longrightarrow> tag_text t = Inr (ended_lines (tag_lines t) @ nl # tg_Message t)"
  using encodeHeaders_lines[of TypeTag "tg_Headers t" "ended_lines (concat (map header_lines (tg_Headers t)))"]
  by (auto simp: tag_text_def encodeSignature_good good_tag_def tag_lines_def split: option.splits)

lemma valid_types: "type_valid t \<longleftrightarrow> t \<in> {TypeCommit, TypeTree, TypeBlob, TypeTag}"
  by (auto simp: type_valid_def TypeCommit_def TypeTree_def TypeBlob_def TypeTag_def)

lemma parseType_String: "type_valid t \<Longrightarrow> parseType (type_String t) = Some t"
  by (auto simp: valid_types parseType_def type_String_def TypeCommit_def TypeTree_def TypeBlob_def TypeTag_def)

lemma parseType_valid: "parseType s = Some t \<Longrightarrow> type_valid t"
  by (auto simp: valid_types parseType_def split: if_splits)

lemma type_String_plain: "type_valid t \<Longrightarrow> nl \<notin> set (type_String t) \<and> nul \<notin> set (type_String t)"
  by (auto simp: valid_types type_String_def TypeCommit_def TypeTree_def TypeBlob_def TypeTag_def)

lemma tag_lines_good: "good_tag t \<Longrightarrow> good_lines (tag_lines t)"
  using id_String_plain signature_plain headers_lines_good type_String_plain
  by (auto simp: good_tag_def tag_lines_def split: option.splits)

lemma ParseTag_lines:
  assumes "good_tag t"
  shows "ParseTag (ended_lines (tag_lines t) @ nl # tg_Message t) = Inr t"
proof -
  let ?l = "tag_lines t" and ?h = "concat (map header_lines (tg_Headers t))"
  let ?g = "(case tg_Tagger t of None \<Rightarrow> [] | Some s \<Rightarrow> [''tagger '' @ signature_String s]) @ ?h"
  have g: "good_lines ?l" "?l \<noteq> []" using tag_lines_good[OF assms] by (auto simp: tag_lines_def)
  have o: "next_value ''object'' ?l =
      Some (id_String (tg_Object t), [''type '' @ type_String (tg_Type t), ''tag '' @ tg_Name t] @ ?g)"
    using next_value_key[of "''object''"] by (simp add: tag_lines_def)
  have y: "next_value ''type'' ([''type '' @ type_String (tg_Type t), ''tag '' @ tg_Name t] @ ?g) =
      Some (type_String (tg_Type t), [''tag '' @ tg_Name t] @ ?g)"
    using next_value_key[of "''type''"] by simp
  have n: "next_value ''tag'' ([''tag '' @ tg_Name t] @ ?g) = Some (tg_Name t, ?g)"
    using next_value_key[of "''tag''"] by simp
  have k: "parse_tagger ?g = Inr (tg_Tagger t, ?h)"
    using assms next_value_key[of "''tagger''"]
    by (auto simp: parse_tagger_def good_tag_def parseSignature_text split: option.splits)
  have i: "ParseID (id_String (tg_Object t)) = Inr (tg_Object t)" "parseType (type_String (tg_Type t)) = Some (tg_Type t)"
    "parseHeaders ?h = tg_Headers t"
    using assms ids.dec_enc[of "tg_Object t"] by (auto simp: good_tag_def parseType_String parseHeaders_lines)
  show ?thesis
    unfolding ParseTag_def verify_text[OF g] rbind.simps splitHeaders_text[OF g]
    by (simp only: Let_def prod.case o option.case i sum.case y n k rbind.simps) simp
qed

lemma end_header_snoc: "end_header (hs @ [h]) val = hs @ [h\<lparr>h_Value := join_with [nl] val\<rparr>]"
  by (simp add: end_header_def)

lemma headers_from_first:
  "hs \<noteq> [] \<Longrightarrow> \<exists>vs rest. headers_from hs val ls = end_header hs (val @ vs) @ rest"
proof (induction ls arbitrary: hs val)
  case Nil
  then show ?case by (intro exI[of _ "[]"]) simp
next
  case (Cons l ls)
  show ?case
  proof (cases "cut_prefix l '' ''")
    case (Some r)
    then have "headers_from hs val (l # ls) = headers_from hs (val @ [r]) ls" using Cons.prems by simp
    moreover obtain vs rest where "headers_from hs (val @ [r]) ls = end_header hs ((val @ [r]) @ vs) @ rest"
      using Cons.IH[OF Cons.prems] by blast
    ultimately show ?thesis by (intro exI[of _ "r # vs"] exI[of _ rest]) simp
  next
    case None
    obtain k f where kf: "(case cut_at space l of Some (k, f) \<Rightarrow> (k, f) | None \<Rightarrow> (l, [])) = (k, f)" by fastforce
    obtain vs rest where "headers_from (end_header hs val @ [\<lparr>h_Key = k, h_Value = []\<rparr>]) [f] ls =
        end_header (end_header hs val @ [\<lparr>h_Key = k, h_Value = []\<rparr>]) ([f] @ vs) @ rest"
      using Cons.IH[of "end_header hs val @ [\<lparr>h_Key = k, h_Value = []\<rparr>]" "[f]"] by blast
    then show ?thesis
      using None kf
      by (intro exI[of _ "[]"] exI[of _ "\<lparr>h_Key = k, h_Value = join_with [nl] ([f] @ vs)\<rparr> # rest"]) (simp add: end_header_snoc)
  qed
qed

lemma first_line: "nl \<notin> set f \<Longrightarrow> hd (split_on nl (join_with [nl] (f # vs))) = f"
  by (cases vs) (simp_all add: split_on_free split_on_append)

lemma no_tagger_header:
  assumes "good_lines ls" "next_value ''tagger'' ls = None"
  shows "next_value ''tagger'' (concat (map header_lines (parseHeaders ls))) = None"
proof (cases ls)
  case Nil
  then show ?thesis by (simp add: parseHeaders_def end_header_def next_value_def)
next
  case (Cons l ls')
  show ?thesis
  proof (cases "cut_prefix l '' ''")
    case (Some r)
    then obtain vs rest where "parseHeaders ls = end_header [\<lparr>h_Key = [], h_Value = []\<rparr>] ([r] @ vs) @ rest"
      using headers_from_first[of "[\<lparr>h_Key = [], h_Value = []\<rparr>]" "[r]" ls'] Cons
      by (auto simp: parseHeaders_def end_header_def)
    then show ?thesis by (simp add: end_header_def header_lines_def next_value_def cut_prefix_def Let_def)
  next
    case None
    obtain k f where kf: "(case cut_at space l of Some (k, f) \<Rightarrow> (k, f) | None \<Rightarrow> (l, [])) = (k, f)" by fastforce
    then obtain vs rest where h: "parseHeaders ls = \<lparr>h_Key = k, h_Value = join_with [nl] (f # vs)\<rparr> # rest"
      using headers_from_first[of "[\<lparr>h_Key = k, h_Value = []\<rparr>]" "[f]" ls'] Cons None
      by (auto simp: parseHeaders_def end_header_def)
    have k: "space \<notin> set k" "nl \<notin> set f" "l = k @ (if l = k then [] else space # f)" "l = k \<Longrightarrow> f = []" "k \<noteq> []"
      using kf assms(1) Cons None by (auto simp: cut_at_Some cut_at_None_iff cut_prefix_def split: option.splits)
    have "next_value ''tagger'' [k @ (if f \<noteq> [] then space # f else [])] = None"
    proof (rule ccontr)
      assume "next_value ''tagger'' [k @ (if f \<noteq> [] then space # f else [])] \<noteq> None"
      then obtain v where v: "k @ (if f \<noteq> [] then space # f else []) = ''tagger'' @ space # v"
        by (auto simp: next_value_def cut_prefix_Some_iff)
      then have "f \<noteq> []" using k(1) by auto
      then have "cut_at space (k @ space # f) = cut_at space (''tagger'' @ space # v)" using v by simp
      then have "k = ''tagger''" using k(1) by (subst (asm) (1 2) cut_at_append) auto
      moreover have "l = k @ space # f" using k(3,4) \<open>f \<noteq> []\<close> by (metis append_Nil2)
      ultimately have "l = ''tagger '' @ f" by simp
      then show False using assms(2) Cons by (simp add: next_value_def cut_prefix_Some_iff[THEN iffD2])
    qed
    then show ?thesis
      using h first_line[OF k(2)] k(5) by (cases "f = []") (simp_all add: header_lines_def next_value_def Let_def)
  qed
qed

lemma ParseTag_good:
  assumes "ParseTag data = Inr t"
  shows "good_tag t"
proof -
  obtain lines m where sp: "splitHeaders data = (lines, m)" by fastforce
  have v: "verifyHeaders TypeTag data = Inr ()" using assms by (auto simp: ParseTag_def)
  obtain val lines1 where o: "next_value ''object'' lines = Some (val, lines1)"
    using assms v sp by (auto simp: ParseTag_def split: option.splits)
  then obtain i where i: "ParseID val = Inr i" using assms v sp by (auto simp: ParseTag_def split: sum.splits)
  obtain val2 lines2 where y: "next_value ''type'' lines1 = Some (val2, lines2)"
    using assms v sp o i by (auto simp: ParseTag_def split: option.splits)
  then obtain ty where ty: "parseType val2 = Some ty" using assms v sp o i by (auto simp: ParseTag_def split: option.splits)
  obtain name lines3 where n: "next_value ''tag'' lines2 = Some (name, lines3)"
    using assms v sp o i y ty by (auto simp: ParseTag_def split: option.splits)
  then obtain g lines4 where g: "parse_tagger lines3 = Inr (g, lines4)"
    "t = \<lparr>tg_Object = i, tg_Type = ty, tg_Name = name, tg_Tagger = g, tg_Headers = parseHeaders lines4, tg_Message = m\<rparr>"
    using assms v sp o i y ty by (auto simp: ParseTag_def)
  have l: "lines = (''object '' @ val) # (''type '' @ val2) # (''tag '' @ name) # lines3"
    using o y n by (simp add: next_value_Some)
  have "good_lines lines" using splitHeaders_good[OF v, of "''object '' @ val" _ m] sp l by simp
  then have p: "good_lines lines3" "nl \<notin> set name" "nul \<notin> set name" using l by auto
  have "good_lines lines4 \<and> (case g of Some s \<Rightarrow> good_signature s | None \<Rightarrow> next_value ''tagger'' lines4 = None)"
    using g(1) p(1) parseSignature_Inr[of TypeTag]
    by (fastforce simp: parse_tagger_def next_value_Some split: option.splits)
  then show ?thesis
    using ids.dec_ok[OF i] parseType_valid[OF ty] p(2,3) parseHeaders_good[of lines4] no_tagger_header[of lines4] g(2)
    by (auto simp: good_tag_def split: option.splits)
qed

text \<open>
  The annotated tags that can be read are exactly the ones that can be written, and what is written is read back as the
  same tag, one without a tagger as one without a tagger.
\<close>

theorem tags_are_written_as_read:
  "(\<exists>data. ParseTag data = Inr t) \<longleftrightarrow> (\<exists>data. Tag_Encode t = Inr data \<and> ParseTag data = Inr t)"
proof
  assume "\<exists>data. ParseTag data = Inr t"
  then have g: "good_tag t" using ParseTag_good by blast
  then have "type_valid (tg_Type t)" "\<not> contains_any (tg_Name t) [nl, nul]"
    by (auto simp: good_tag_def contains_any_def list_ex_iff)
  then show "\<exists>data. Tag_Encode t = Inr data \<and> ParseTag data = Inr t"
    using tag_text_lines[OF g] ParseTag_lines[OF g] by (simp add: Tag_Encode_def)
qed blast

end
