(* ===== verification/Deltas.thy ===== *)
theory Deltas
  imports Bytes
begin

text \<open>
  Package \<open>repo\<close>, \<open>delta.go\<close>: a delta as a pack carries one against its base, two sizes and the instructions that write the
  result. Sizes, offsets and lengths are the 64-bit words of the code, a byte of a delta is a character, and the
  masks with \<open>0x7f\<close> and \<open>0x80\<close> are the remainder by 128 and the comparison with it.
\<close>

unbundle bit_operations_syntax

section \<open>Reading a delta\<close>

datatype delta_error =
    SizePastSixtyFourBits
  | EndsInsideSizes
  | OtherBase "64 word" nat
  | ResultTooLarge "64 word" int
  | EndsInsideCopy
  | CopiesOutside "64 word" "64 word" nat
  | EndsInsideInsert
  | InstructionZero
  | WritesPast "64 word"
  | OtherResult "64 word" "64 word"

fun varint_from :: "nat \<Rightarrow> 64 word \<Rightarrow> string \<Rightarrow> (delta_error, 64 word \<times> nat) result" where
  "varint_from i v [] = Inl EndsInsideSizes"
| "varint_from i v (c # cs) =
     (if i = 10 \<or> (i = 9 \<and> byte c > 1) then Inl SizePastSixtyFourBits
      else let v' = v OR push_bit (7 * i) (word_of_nat (byte c mod 128)) in
           if byte c < 128 then Inr (v', i + 1) else varint_from (i + 1) v' cs)"

definition deltaVarint :: "string \<Rightarrow> (delta_error, 64 word \<times> nat) result" where
  "deltaVarint b = varint_from 0 0 b"

definition deltaSizes :: "string \<Rightarrow> (delta_error, 64 word \<times> 64 word \<times> nat) result" where
  "deltaSizes delta =
     rbind (deltaVarint delta) (\<lambda>(base, n).
     rbind (deltaVarint (drop n delta)) (\<lambda>(res, m).
     Inr (base, res, n + m)))"

text \<open>The bytes of a copy instruction: each bit of \<open>op\<close> that is set has one, the first four of the offset.\<close>

fun copy_bytes :: "nat \<Rightarrow> nat list \<Rightarrow> 64 word \<times> 64 word \<Rightarrow> string \<Rightarrow> (delta_error, (64 word \<times> 64 word) \<times> string) result" where
  "copy_bytes op [] acc ins = Inr (acc, ins)"
| "copy_bytes op (k # ks) (off, len) ins =
     (if \<not> bit op k then copy_bytes op ks (off, len) ins
      else case ins of
             [] \<Rightarrow> Inl EndsInsideCopy
           | c # rest \<Rightarrow>
               if k < 4 then copy_bytes op ks (off OR push_bit (8 * k) (word_of_nat (byte c)), len) rest
               else copy_bytes op ks (off, len OR push_bit (8 * (k - 4)) (word_of_nat (byte c))) rest)"

definition one_instruction :: "string \<Rightarrow> char \<Rightarrow> string \<Rightarrow> (delta_error, string \<times> string) result" where
  "one_instruction base c ins =
     (let op = byte c in
      if op \<ge> 128 then
        rbind (copy_bytes op [0..<7] (0, 0) ins) (\<lambda>((off, len0), rest).
        let len = (if len0 = 0 then 65536 else len0) in
        if off + len > word_of_nat (length base) then Inl (CopiesOutside off (off + len) (length base))
        else Inr (take (unat len) (drop (unat off) base), rest))
      else if op \<noteq> 0 then
        (if op > length ins then Inl EndsInsideInsert else Inr (take op ins, drop op ins))
      else Inl InstructionZero)"

lemma copy_bytes_shorter: "copy_bytes op ks acc ins = Inr (r, rest) \<Longrightarrow> length rest \<le> length ins"
proof (induction op ks acc ins rule: copy_bytes.induct)
  case (2 op k ks off len ins)
  then show ?case by (cases ins) (fastforce split: if_splits)+
qed simp

lemma one_instruction_shorter: "one_instruction base c ins = Inr (b, rest) \<Longrightarrow> length rest \<le> length ins"
  by (auto simp: one_instruction_def Let_def rbind_Inr_iff dest: copy_bytes_shorter split: if_splits)

text \<open>
  \<open>replay\<close>: what the instructions hand to \<open>emit\<close>, in order, and the error they end with, if any. What was written before an
  error has been handed over by then.
\<close>

function replay :: "string \<Rightarrow> string \<Rightarrow> 64 word \<Rightarrow> 64 word \<Rightarrow> string \<times> delta_error option" where
  "replay base [] whole written =
     ([], if written \<noteq> whole then Some (OtherResult written whole) else None)"
| "replay base (c # ins) whole written =
     (case one_instruction base c ins of
        Inl err \<Rightarrow> ([], Some err)
      | Inr (b, rest) \<Rightarrow>
          (let written' = written + word_of_nat (length b) in
           if written' > whole then ([], Some (WritesPast whole))
           else let (out, err) = replay base rest whole written' in (b @ out, err)))"
  by pat_completeness auto
termination
  by (relation "measure (\<lambda>(base, ins, whole, written). length ins)") (auto dest: one_instruction_shorter)

definition applyDelta :: "string \<Rightarrow> string \<Rightarrow> int \<Rightarrow> (delta_error, string) result" where
  "applyDelta base delta most =
     rbind (deltaSizes delta) (\<lambda>(baseSize, resultSize, n).
     if baseSize \<noteq> word_of_nat (length base) then Inl (OtherBase baseSize (length base))
     else if resultSize > word_of_int most then Inl (ResultTooLarge resultSize most)
     else case snd (replay base (drop n delta) resultSize 0) of
            Some err \<Rightarrow> Inl err
          | None \<Rightarrow> Inr (fst (replay base (drop n delta) resultSize 0)))"


section \<open>A delta is applied within its bounds\<close>


lemma copy_bytes_bounds:
  assumes "copy_bytes op ks (off, len) ins = Inr ((off', len'), rest)" "\<forall>k\<in>set ks. k < 7"
    "take_bit 32 off = off" "take_bit 24 len = len"
  shows "take_bit 32 off' = off' \<and> take_bit 24 len' = len'"
  using assms
proof (induction op ks "(off, len)" ins arbitrary: off len rule: copy_bytes.induct)
  case (2 op k ks off len ins)
  have put: "k < 4 \<Longrightarrow> take_bit 32 (off OR push_bit (8 * k) (word_of_nat (byte c))) = off OR push_bit (8 * k) (word_of_nat (byte c))"
    "\<not> k < 4 \<Longrightarrow> take_bit 24 (len OR push_bit (8 * (k - 4)) (word_of_nat (byte c))) = len OR push_bit (8 * (k - 4)) (word_of_nat (byte c))" for c
    using 2(5-7) by (intro take_bit_put_byte; simp; linarith)+
  show ?case
    using 2 put by (cases ins) (auto split: if_splits)
qed simp

lemma one_copy_in_bounds:
  fixes off len0 len :: "64 word"
  assumes "length base < 2 ^ 63" "take_bit 32 off = off" "take_bit 24 len0 = len0"
    "len = (if len0 = 0 then 65536 else len0)" "\<not> off + len > word_of_nat (length base)"
  shows "unat off + unat len \<le> length base \<and> 0 < unat len \<and> unat len < 2 ^ 24"
proof -
  have b: "unat off < 2 ^ 32" "unat len0 < 2 ^ 24" using unat_take_bit[OF assms(2)] unat_take_bit[OF assms(3)] by simp_all
  then have l: "0 < unat len \<and> unat len < 2 ^ 24" using assms(4) by (auto simp: unat_gt_0)
  then have "unat (off + len) = unat off + unat len" using b by (subst unat_plus_simple[THEN iffD1]) (auto simp: no_olen_add_nat)
  moreover have "unat (word_of_nat (length base) :: 64 word) = length base" using assms(1) by (simp add: unat_of_nat)
  ultimately show ?thesis using assms(5) l by (simp add: word_less_nat_alt)
qed

lemma one_instruction_length:
  assumes "one_instruction base c ins = Inr (b, rest)" "length base < 2 ^ 63"
  shows "0 < length b \<and> length b < 2 ^ 24"
proof (cases "byte c \<ge> 128")
  case True
  then obtain off len0 len where *: "copy_bytes (byte c) [0..<7] (0, 0) ins = Inr ((off, len0), rest)"
    "len = (if len0 = 0 then 65536 else len0)" "\<not> off + len > word_of_nat (length base)"
    "b = take (unat len) (drop (unat off) base)"
    using assms(1) by (auto simp: one_instruction_def Let_def rbind_Inr_iff split: if_splits)
  have "take_bit 32 off = off \<and> take_bit 24 len0 = len0"
    using copy_bytes_bounds[OF *(1)] by simp
  then have "unat off + unat len \<le> length base \<and> 0 < unat len \<and> unat len < 2 ^ 24"
    using one_copy_in_bounds[OF assms(2)] *(2,3) by blast
  then show ?thesis using *(4) by (auto simp: min_def)
next
  case False
  then show ?thesis using assms(1) by (auto simp: one_instruction_def Let_def split: if_splits)
qed

lemma replay_length:
  assumes "replay base ins whole written = (out, None)" "length base < 2 ^ 63" "unat whole < 2 ^ 63"
    "written \<le> whole"
  shows "unat written + length out = unat whole"
  using assms
proof (induction base ins whole written arbitrary: out rule: replay.induct)
  case (2 base c ins whole written)
  obtain b rest out' where *: "one_instruction base c ins = Inr (b, rest)"
    "written + word_of_nat (length b) \<le> whole"
    "replay base rest whole (written + word_of_nat (length b)) = (out', None)" "out = b @ out'"
    using 2(2) by (auto simp: Let_def split: sum.splits if_splits prod.splits)
  have "unat written < 2 ^ 63" using 2(4,5) by (simp add: word_le_nat_alt)
  moreover have "length b < 2 ^ 24" using one_instruction_length[OF *(1) 2(3)] by simp
  ultimately have "unat (written + word_of_nat (length b)) = unat written + length b"
    by (simp add: unat_word_ariths unat_of_nat)
  then show ?case using 2(1)[OF *(1) refl refl _ *(3)] 2(3,4) * by (simp add: not_less)
qed (auto split: if_splits)

section \<open>A delta of good instructions is applied\<close>

text \<open>
  What a delta says, apart from how it is written: ranges of the base and bytes of its own. A copy is written with the
  bytes of its offset and its length that are not zero, and the operation says which those are.
\<close>

datatype instruction = Copy nat nat | Insert string

fun good_instruction :: "string \<Rightarrow> instruction \<Rightarrow> bool" where
  "good_instruction base (Copy off len) \<longleftrightarrow> 0 < len \<and> len < 2 ^ 24 \<and> off < 2 ^ 32 \<and> off + len \<le> length base"
| "good_instruction base (Insert s) \<longleftrightarrow> 0 < length s \<and> length s < 128"

fun instruction_result :: "string \<Rightarrow> instruction \<Rightarrow> string" where
  "instruction_result base (Copy off len) = take len (drop off base)"
| "instruction_result base (Insert s) = s"

definition copy_byte :: "nat \<Rightarrow> nat \<Rightarrow> nat \<Rightarrow> nat" where
  "copy_byte off len k = (if k < 4 then take_bit 8 (drop_bit (8 * k) off) else take_bit 8 (drop_bit (8 * (k - 4)) len))"

definition copy_op :: "nat \<Rightarrow> nat \<Rightarrow> nat" where
  "copy_op off len = horner_sum of_bool 2 (map (\<lambda>k. copy_byte off len k \<noteq> 0) [0..<7] @ [True])"

fun instruction_text :: "instruction \<Rightarrow> string" where
  "instruction_text (Copy off len) =
     char_of (copy_op off len) # concat (map (\<lambda>k. if bit (copy_op off len) k then [char_of (copy_byte off len k)] else []) [0..<7])"
| "instruction_text (Insert s) = char_of (length s) # s"

fun varint_text :: "nat \<Rightarrow> string" where
  "varint_text n = (if n < 128 then [char_of n] else char_of (128 + n mod 128) # varint_text (n div 128))"

declare varint_text.simps [simp del]

definition delta_text :: "string \<Rightarrow> instruction list \<Rightarrow> string" where
  "delta_text base is =
     varint_text (length base) @ varint_text (length (concat (map (instruction_result base) is))) @
     concat (map instruction_text is)"

lemma or_push_bit_split:
  "v OR push_bit k (word_of_nat (n mod 2 ^ m)) OR push_bit (k + m) (word_of_nat (n div 2 ^ m)) =
   (v OR push_bit k (word_of_nat n) :: 64 word)"
proof (rule word64_eqI)
  fix i :: nat
  show "bit (v OR push_bit k (word_of_nat (n mod 2 ^ m)) OR push_bit (k + m) (word_of_nat (n div 2 ^ m))) i =
        bit (v OR push_bit k (word_of_nat n) :: 64 word) i"
  proof (cases "k + m \<le> i")
    case True
    then have "m + (i - (k + m)) = i - k" "\<not> i - k < m" by auto
    then show ?thesis using True by (auto simp: bit_simps simp flip: take_bit_eq_mod drop_bit_eq_div)
  qed (auto simp: bit_simps simp flip: take_bit_eq_mod drop_bit_eq_div)
qed

lemma varint_from_text:
  "n < 2 ^ (64 - 7 * i) \<Longrightarrow> i \<le> 9 \<Longrightarrow>
   varint_from i v (varint_text n @ rest) = Inr (v OR push_bit (7 * i) (word_of_nat n), i + length (varint_text n))"
proof (induction n arbitrary: i v rule: varint_text.induct)
  case (1 n)
  show ?case
  proof (cases "n < 128")
    case True
    then show ?thesis using 1(2,3) by (subst (1 2) varint_text.simps) auto
  next
    case False
    have "i < 9" using False 1(2,3) by (cases "i = 9") auto
    have "2 ^ (64 - 7 * i) = 128 * (2 ^ (64 - 7 * (i + 1)) :: nat)"
      using \<open>i < 9\<close> power_add[of "2::nat" 7 "57 - 7 * i"] by (simp add: Suc_diff_le)
    then have "n div 128 < 2 ^ (64 - 7 * (i + 1))" using 1(2) by (simp add: less_mult_imp_div_less mult.commute)
    then show ?thesis
      using False \<open>i < 9\<close> 1(1)[of "i + 1"] or_push_bit_split[of v "7 * i" n 7]
      by (subst (1 2) varint_text.simps) (simp add: Let_def ac_simps)
  qed
qed

lemma deltaVarint_text:
  "n < 2 ^ 64 \<Longrightarrow> deltaVarint (varint_text n @ rest) = Inr (word_of_nat n, length (varint_text n))"
  by (simp add: deltaVarint_def varint_from_text)

lemma copy_op_bits: "bit (copy_op off len) k \<longleftrightarrow> k < 7 \<and> copy_byte off len k \<noteq> 0 \<or> k = 7"
  by (auto simp: copy_op_def bit_horner_sum_bit_iff nth_append)

lemma copy_op_range: "128 \<le> copy_op off len \<and> copy_op off len < 256"
  by (simp add: copy_op_def upt_rec)

fun put_byte :: "(nat \<Rightarrow> nat) \<Rightarrow> nat \<Rightarrow> 64 word \<times> 64 word \<Rightarrow> 64 word \<times> 64 word" where
  "put_byte B k (off, len) =
     (if k < 4 then (off OR push_bit (8 * k) (word_of_nat (B k)), len)
      else (off, len OR push_bit (8 * (k - 4)) (word_of_nat (B k))))"

lemma copy_bytes_text:
  assumes "\<And>k. B k < 256" "\<And>k. k \<in> set ks \<Longrightarrow> bit op k \<longleftrightarrow> B k \<noteq> 0"
  shows "copy_bytes op ks acc (concat (map (\<lambda>k. if bit op k then [char_of (B k)] else []) ks) @ rest) =
         Inr (fold (put_byte B) ks acc, rest)"
  using assms(2)
proof (induction ks arbitrary: acc)
  case (Cons k ks)
  then show ?case using assms(1) by (cases acc) simp
qed simp

lemma four_bytes:
  assumes "n < 2 ^ 32"
  shows "word_of_nat (take_bit 8 n) OR push_bit 8 (word_of_nat (take_bit 8 (drop_bit 8 n))) OR
         push_bit 16 (word_of_nat (take_bit 8 (drop_bit 16 n))) OR
         push_bit 24 (word_of_nat (take_bit 8 (drop_bit 24 n))) = (word_of_nat n :: 64 word)"
proof -
  have "n div 2 ^ 24 < 2 ^ 8" using assms by (simp add: less_mult_imp_div_less)
  then show ?thesis
    using or_push_bit_split[of 0 0 n 8] or_push_bit_split[of "word_of_nat (n mod 2 ^ 8)" 8 "n div 2 ^ 8" 8]
      or_push_bit_split[of "word_of_nat (n mod 2 ^ 8) OR push_bit 8 (word_of_nat (n div 2 ^ 8 mod 2 ^ 8))" 16 "n div 2 ^ 16" 8]
    by (simp add: take_bit_eq_mod drop_bit_eq_div div_mult2_eq[symmetric] or.assoc)
qed

lemma copied_fields:
  assumes "off < 2 ^ 32" "len < 2 ^ 24"
  shows "fold (put_byte (copy_byte off len)) [0..<7] (0, 0) = (word_of_nat off, word_of_nat len)"
proof -
  have "drop_bit 24 len = 0" using assms(2) by (simp add: drop_bit_eq_div)
  then show ?thesis
    using four_bytes[of off] four_bytes[of len] assms
    by (simp add: upt_rec copy_byte_def or.assoc)
qed

lemma one_instruction_text:
  assumes "good_instruction base i" "length base < 2 ^ 63" "instruction_text i = c # cs"
  shows "one_instruction base c (cs @ rest) = Inr (instruction_result base i, rest)"
proof (cases i)
  case (Copy off len)
  have b: "off + len \<le> length base" "0 < len" "len < 2 ^ 24" "off < 2 ^ 32" using assms(1) Copy by auto
  have c: "byte c = copy_op off len"
    "cs = concat (map (\<lambda>k. if bit (copy_op off len) k then [char_of (copy_byte off len k)] else []) [0..<7])"
    using assms(3) Copy copy_op_range[of off len] by auto
  have "copy_bytes (byte c) [0..<7] (0, 0) (cs @ rest) = Inr ((word_of_nat off, word_of_nat len), rest)"
    unfolding c copied_fields[OF b(4,3), symmetric]
    by (rule copy_bytes_text) (auto simp: copy_op_bits copy_byte_def take_bit_nat_less_exp[of 8, simplified])
  moreover have u: "unat (word_of_nat off :: 64 word) = off" "unat (word_of_nat len :: 64 word) = len"
    "unat (word_of_nat (length base) :: 64 word) = length base"
    using b assms(2) by (auto simp: unat_of_nat)
  moreover have "(word_of_nat len :: 64 word) \<noteq> 0" using u(2) b(2) by (metis less_numeral_extra(3) unat_0)
  moreover have "\<not> word_of_nat off + word_of_nat len > (word_of_nat (length base) :: 64 word)"
    using b assms(2) by (simp add: not_less word_le_nat_alt unat_of_nat flip: of_nat_add)
  ultimately show ?thesis using c copy_op_range[of off len] Copy by (simp add: one_instruction_def Let_def)
next
  case (Insert s)
  then show ?thesis using assms by (auto simp: one_instruction_def Let_def)
qed

lemma replay_text:
  assumes "list_all (good_instruction base) is" "length base < 2 ^ 63"
    "n + length (concat (map (instruction_result base) is)) = m" "m < 2 ^ 63"
  shows "replay base (concat (map instruction_text is)) (word_of_nat m) (word_of_nat n) =
         (concat (map (instruction_result base) is), None)"
  using assms
proof (induction "is" arbitrary: n)
  case (Cons i "is")
  obtain c cs where t: "instruction_text i = c # cs" by (cases i) auto
  let ?n = "n + length (instruction_result base i)"
  have "replay base (concat (map instruction_text is)) (word_of_nat m) (word_of_nat ?n) =
        (concat (map (instruction_result base) is), None)"
    by (rule Cons(1)) (use Cons(2-) in auto)
  moreover have "\<not> word_of_nat ?n > (word_of_nat m :: 64 word)"
    using Cons(4,5) by (simp add: not_less word_le_nat_alt unat_of_nat del: of_nat_add)
  ultimately show ?case
    using one_instruction_text[OF _ Cons(3) t] Cons(2) t by (simp add: Let_def add.assoc)
qed simp


text \<open>
  A delta written from ranges that lie in the base and from bytes of its own is applied to exactly what those say, however
  many and in whatever order, as long as the result is within what the caller allows.
\<close>

theorem written_deltas_apply:
  assumes "list_all (good_instruction base) is" "length base < 2 ^ 63" "most < 2 ^ 63"
    "int (length (concat (map (instruction_result base) is))) \<le> most"
  shows "applyDelta base (delta_text base is) most = Inr (concat (map (instruction_result base) is))"
proof -
  let ?out = "concat (map (instruction_result base) is)"
  obtain k where k: "most = int k" using assms(4) zero_le_imp_eq_int[of most] by fastforce
  have o: "length ?out < 2 ^ 63" using assms(3,4) by simp
  then have s: "deltaSizes (delta_text base is) =
      Inr (word_of_nat (length base), word_of_nat (length ?out),
           length (varint_text (length base)) + length (varint_text (length ?out)))"
    using assms(2) by (simp add: deltaSizes_def delta_text_def deltaVarint_text)
  moreover have "replay base (concat (map instruction_text is)) (word_of_nat (length ?out)) 0 = (?out, None)"
    using replay_text[OF assms(1,2), of 0] o by simp
  moreover have "\<not> word_of_nat (length ?out) > (word_of_int most :: 64 word)"
    using assms(3,4) o k by (simp add: not_less word_le_nat_alt unat_of_nat)
  ultimately show ?thesis by (simp add: applyDelta_def delta_text_def)
qed

text \<open>A base of ten digits, of which the delta keeps the middle, between bytes of its own.\<close>

definition example_delta :: "instruction list" where
  "example_delta = [Insert ''<'', Copy 3 4, Insert ''>'']"

theorem written_deltas_apply_witness:
  "applyDelta ''0123456789'' (delta_text ''0123456789'' example_delta) 100 = Inr ''<3456>''"
  using written_deltas_apply[of "''0123456789''" example_delta 100] by (simp add: example_delta_def)


end
