(* ===== verification/Packets.thy ===== *)
theory Packets
  imports Bytes
begin

text \<open>
  Package \<open>repo\<close>, \<open>pktline.go\<close>: the pkt-line framing of git's protocols and the side-bands a response multiplexes. A reader is
  the bytes it has still to hand out, after which it answers \<open>io.EOF\<close>; a writer is a state \<open>'w\<close> with the function
  its \<open>Write\<close> is, which may fail. \<open>PktReader\<close>'s and \<open>sidebandWriter\<close>'s buffers carry nothing from one call to the next.
\<close>

section \<open>Packets\<close>

datatype PktKind = PktData | PktFlush | PktDelim | PktResponseEnd

datatype pkt_error =
    EOF
  | ErrUnexpectedEOF
  | LengthNotHex string
  | LengthIsNoPacket nat
  | LengthPastMost nat
  | DataPastMost nat
  | BandCarriesNothing int
  | PacketNamesNoBand PktKind
  | RemoteError string
  | NoSuchBand nat
  | WriterFailed string

type_synonym 'w writer = "'w \<Rightarrow> string \<Rightarrow> 'w \<times> pkt_error option"

definition MaxPktLen :: nat where "MaxPktLen = 65520"

definition MaxPktData :: nat where "MaxPktData = MaxPktLen - 4"

text \<open>\<open>io.ReadFull\<close>: a stream that ends before the first byte wanted is at its end, one that ends later ends unexpectedly.\<close>

definition ReadFull :: "nat \<Rightarrow> string \<Rightarrow> (pkt_error, string) result \<times> string" where
  "ReadFull k r =
     (if k \<le> length r then (Inr (take k r), drop k r)
      else (Inl (if r = [] then EOF else ErrUnexpectedEOF), []))"

definition hexDigit :: "char \<Rightarrow> int" where
  "hexDigit c =
     (let b = byte c in
      if 48 \<le> b \<and> b \<le> 57 then int b - 48
      else if 97 \<le> b \<and> b \<le> 102 then int b - 97 + 10
      else if 65 \<le> b \<and> b \<le> 70 then int b - 65 + 10
      else - 1)"

fun pkt_length :: "nat \<Rightarrow> string \<Rightarrow> nat option" where
  "pkt_length n [] = Some n"
| "pkt_length n (c # cs) =
     (let d = hexDigit c in if d < 0 then None else pkt_length (push_bit 4 n OR nat d) cs)"

definition pkt_next :: "string \<Rightarrow> (pkt_error, PktKind \<times> string) result \<times> string" where
  "pkt_next r =
     (case ReadFull 4 r of
        (Inl err, r1) \<Rightarrow> (Inl err, r1)
      | (Inr head, r1) \<Rightarrow>
          (case pkt_length 0 head of
             None \<Rightarrow> (Inl (LengthNotHex head), r1)
           | Some n \<Rightarrow>
               if n = 0 then (Inr (PktFlush, []), r1)
               else if n = 1 then (Inr (PktDelim, []), r1)
               else if n = 2 then (Inr (PktResponseEnd, []), r1)
               else if n < 4 then (Inl (LengthIsNoPacket n), r1)
               else if n > MaxPktLen then (Inl (LengthPastMost n), r1)
               else (case ReadFull (n - 4) r1 of
                       (Inl err, r2) \<Rightarrow> (Inl (if err = EOF then ErrUnexpectedEOF else err), r2)
                     | (Inr data, r2) \<Rightarrow> (Inr (PktData, data), r2))))"

text \<open>\<open>fmt\<close>'s \<open>%04x\<close>.\<close>

fun hex_of :: "nat \<Rightarrow> string" where
  "hex_of n = (if n < 16 then [hex_char n] else hex_of (n div 16) @ [hex_char (n mod 16)])"

declare hex_of.simps [simp del]

definition hex04 :: "nat \<Rightarrow> string" where
  "hex04 n = replicate (4 - length (hex_of n)) CHR ''0'' @ hex_of n"

definition AppendPkt :: "string \<Rightarrow> string \<Rightarrow> (pkt_error, string) result" where
  "AppendPkt b data =
     (if length data > MaxPktData then Inl (DataPastMost (length data))
      else Inr (b @ hex04 (length data + 4) @ data))"

definition WritePkt :: "'w writer \<Rightarrow> 'w \<Rightarrow> string \<Rightarrow> 'w \<times> pkt_error option" where
  "WritePkt put w data =
     (case AppendPkt [] data of Inl err \<Rightarrow> (w, Some err) | Inr b \<Rightarrow> put w b)"

definition WriteFlush :: "'w writer \<Rightarrow> 'w \<Rightarrow> 'w \<times> pkt_error option" where
  "WriteFlush put w = put w ''0000''"

definition WriteDelim :: "'w writer \<Rightarrow> 'w \<Rightarrow> 'w \<times> pkt_error option" where
  "WriteDelim put w = put w ''0001''"

definition WriteResponseEnd :: "'w writer \<Rightarrow> 'w \<Rightarrow> 'w \<times> pkt_error option" where
  "WriteResponseEnd put w = put w ''0002''"

section \<open>Side-bands\<close>

definition BandData :: nat where "BandData = 1"
definition BandProgress :: nat where "BandProgress = 2"
definition BandError :: nat where "BandError = 3"

record 'w sidebandWriter =
  sw_w :: 'w
  sw_band :: nat
  sw_max :: int

definition NewSidebandWriter :: "'w \<Rightarrow> nat \<Rightarrow> int \<Rightarrow> 'w sidebandWriter" where
  "NewSidebandWriter w band maxPkt = \<lparr>sw_w = w, sw_band = band, sw_max = min maxPkt (int MaxPktLen) - 5\<rparr>"

text \<open>The loop of \<open>Write\<close>; the guard before it has made \<open>most\<close> positive.\<close>

function sideband_packets :: "'w writer \<Rightarrow> nat \<Rightarrow> nat \<Rightarrow> 'w \<Rightarrow> string \<Rightarrow> nat \<Rightarrow> 'w \<times> nat \<times> pkt_error option" where
  "sideband_packets put band most w b written =
     (if b = [] \<or> most = 0 then (w, written, None)
      else let n = min (length b) most in
           case put w (hex04 (n + 5) @ [char_of band] @ take n b) of
             (w', Some err) \<Rightarrow> (w', written, Some err)
           | (w', None) \<Rightarrow> sideband_packets put band most w' (drop n b) (written + n))"
  by pat_completeness auto
termination
  by (relation "measure (\<lambda>(put, band, most, w, b, written). length b)") auto

declare sideband_packets.simps [simp del]

definition sideband_Write :: "'w writer \<Rightarrow> 'w sidebandWriter \<Rightarrow> string \<Rightarrow> 'w sidebandWriter \<times> nat \<times> pkt_error option" where
  "sideband_Write put s b =
     (if sw_max s < 1 \<and> b \<noteq> [] then (s, 0, Some (BandCarriesNothing (sw_max s + 5)))
      else let (w, res) = sideband_packets put (sw_band s) (nat (sw_max s)) (sw_w s) b 0
           in (s\<lparr>sw_w := w\<rparr>, res))"

record 'w SidebandReader =
  pkts :: string
  Progress :: "'w option"
  sr_rest :: string
  sr_err :: "pkt_error option"

definition NewSidebandReader :: "string \<Rightarrow> 'w option \<Rightarrow> 'w SidebandReader" where
  "NewSidebandReader r progress = \<lparr>pkts = r, Progress = progress, sr_rest = [], sr_err = None\<rparr>"

text \<open>One turn of the loop of \<open>Read\<close>: the next packet, and what it does to the reader.\<close>

definition sideband_packet :: "'w writer \<Rightarrow> 'w SidebandReader \<Rightarrow> 'w SidebandReader" where
  "sideband_packet put s =
     (case pkt_next (pkts s) of
        (Inl err, r) \<Rightarrow> s\<lparr>pkts := r, sr_err := Some (if err = EOF then ErrUnexpectedEOF else err)\<rparr>
      | (Inr (kind, data), r) \<Rightarrow>
          let s = s\<lparr>pkts := r\<rparr> in
          if kind = PktFlush then s\<lparr>sr_err := Some EOF\<rparr>
          else if kind \<noteq> PktData \<or> data = [] then s\<lparr>sr_err := Some (PacketNamesNoBand kind)\<rparr>
          else if byte (hd data) = BandData then s\<lparr>sr_rest := tl data\<rparr>
          else if byte (hd data) = BandProgress then
            (case Progress s of
               None \<Rightarrow> s
             | Some w \<Rightarrow>
                 (case put w (tl data) of
                    (w', None) \<Rightarrow> s\<lparr>Progress := Some w'\<rparr>
                  | (w', Some err) \<Rightarrow> s\<lparr>Progress := Some w', sr_err := Some err\<rparr>))
          else if byte (hd data) = BandError then
            s\<lparr>sr_err := Some (RemoteError (rev (dropWhile (\<lambda>c. c = CHR 0x0A) (rev (tl data)))))\<rparr>
          else s\<lparr>sr_err := Some (NoSuchBand (byte (hd data)))\<rparr>)"

lemma ReadFull_shorter: "ReadFull k r = (res, r') \<Longrightarrow> length r' \<le> length r"
  by (auto simp: ReadFull_def split: if_splits)

lemma ReadFull_consumes: "ReadFull k r = (Inr d, r') \<Longrightarrow> length r = k + length r'"
  by (auto simp: ReadFull_def split: if_splits)

lemma pkt_next_consumes: "pkt_next r = (Inr kd, r') \<Longrightarrow> length r' < length r"
  by (auto simp: pkt_next_def dest!: ReadFull_consumes split: prod.splits sum.splits option.splits if_splits)

lemma pkt_next_shorter: "pkt_next r = (res, r') \<Longrightarrow> length r' \<le> length r"
  by (auto simp: pkt_next_def dest!: ReadFull_shorter split: prod.splits sum.splits option.splits if_splits)

function sideband_fill :: "'w writer \<Rightarrow> 'w SidebandReader \<Rightarrow> 'w SidebandReader" where
  "sideband_fill put s =
     (if sr_rest s \<noteq> [] \<or> sr_err s \<noteq> None then s else sideband_fill put (sideband_packet put s))"
  by pat_completeness auto
termination
proof (relation "measure (\<lambda>(put, s). 2 * length (pkts s) + of_bool (sr_err s = None))", goal_cases)
  case (2 put s)
  have "length (pkts (sideband_packet put s)) < length (pkts s) \<or>
        length (pkts (sideband_packet put s)) \<le> length (pkts s) \<and> sr_err (sideband_packet put s) \<noteq> None"
    by (cases "pkt_next (pkts s)")
       (auto simp: sideband_packet_def Let_def dest: pkt_next_consumes pkt_next_shorter split: sum.splits option.splits prod.splits)
  then show ?case using 2 by auto
qed simp

declare sideband_fill.simps [simp del]

definition sideband_Read :: "'w writer \<Rightarrow> nat \<Rightarrow> 'w SidebandReader \<Rightarrow> 'w SidebandReader \<times> (pkt_error, string) result" where
  "sideband_Read put k s =
     (let s = sideband_fill put s in
      if sr_rest s = [] then (s, Inl (the (sr_err s)))
      else let n = min k (length (sr_rest s)) in (s\<lparr>sr_rest := drop n (sr_rest s)\<rparr>, Inr (take n (sr_rest s))))"

lemma sideband_fill_stops: "sr_rest (sideband_fill put s) \<noteq> [] \<or> sr_err (sideband_fill put s) \<noteq> None"
proof (induction put s rule: sideband_fill.induct)
  case (1 put s)
  then show ?case by (subst (1 2) sideband_fill.simps) auto
qed

section \<open>A packet is read as it was written\<close>

lemma hexDigit_hex_char: "d < 16 \<Longrightarrow> hexDigit (hex_char d) = int d"
  by (auto simp: hexDigit_def hex_char_def Let_def)

lemma or_digit: "d < 16 \<Longrightarrow> push_bit 4 n OR d = 16 * n + (d :: nat)"
proof -
  assume "d < 16"
  then have "push_bit 4 n AND d = 0"
    using bit_below[of d 4] by (intro bit_eqI) (fastforce simp: bit_simps)
  then show ?thesis by (simp add: push_bit_eq_mult ac_simps flip: disjunctive_add_eq_or)
qed

lemma pkt_length_append: "pkt_length n (xs @ ys) = Option.bind (pkt_length n xs) (\<lambda>m. pkt_length m ys)"
  by (induction n xs rule: pkt_length.induct) (auto simp: Let_def)

lemma pkt_length_hex_of: "pkt_length 0 (hex_of n) = Some n"
proof (induction n rule: hex_of.induct)
  case (1 n)
  then show ?case
    by (subst hex_of.simps) (auto simp: pkt_length_append hexDigit_hex_char or_digit)
qed

lemma pkt_length_zeros: "pkt_length 0 (replicate k CHR ''0'' @ s) = pkt_length 0 s"
  by (induction k) (auto simp: hexDigit_def byte_def)

lemma length_hex_of: "n < 16 ^ Suc k \<Longrightarrow> length (hex_of n) \<le> Suc k"
proof (induction k arbitrary: n)
  case 0
  then show ?case by (simp add: hex_of.simps)
next
  case (Suc k)
  then have "n div 16 < 16 ^ Suc k" by (simp add: less_mult_imp_div_less)
  then show ?case using Suc(1) by (subst hex_of.simps) auto
qed

lemma hex04_length [simp]: "n < 65536 \<Longrightarrow> length (hex04 n) = 4"
  using length_hex_of[of n 3] by (simp add: hex04_def)

lemma pkt_length_hex04 [simp]: "pkt_length 0 (hex04 n) = Some n"
  by (simp add: hex04_def pkt_length_zeros pkt_length_hex_of)

lemma ReadFull_append [simp]: "length a = k \<Longrightarrow> ReadFull k (a @ b) = (Inr a, b)"
  by (simp add: ReadFull_def)

lemma next_of_packet:
  "length data \<le> MaxPktData \<Longrightarrow> pkt_next (hex04 (length data + 4) @ data @ r) = (Inr (PktData, data), r)"
  by (simp add: pkt_next_def MaxPktData_def MaxPktLen_def)

definition flush_text :: string where "flush_text = ''0000''"

lemma next_of_flush: "pkt_next (flush_text @ r) = (Inr (PktFlush, []), r)"
  by (simp add: flush_text_def pkt_next_def ReadFull_def hexDigit_def byte_def)

section \<open>What is written to side-bands is read from them\<close>

text \<open>
  What a stream of side-band packets says: on the data band, and on the progress band. \<open>buffer\<close> is a writer that keeps what it
  is given and never fails.
\<close>

definition frame :: "nat \<times> string \<Rightarrow> string" where
  "frame = (\<lambda>(band, d). hex04 (length d + 5) @ [char_of band] @ d)"

definition good_frame :: "nat \<times> string \<Rightarrow> bool" where
  "good_frame = (\<lambda>(band, d). (band = BandData \<or> band = BandProgress) \<and> length d < MaxPktData)"

definition on_band :: "nat \<Rightarrow> (nat \<times> string) list \<Rightarrow> string" where
  "on_band band fs = concat (map snd (filter (\<lambda>f. fst f = band) fs))"

definition buffer :: "string writer" where "buffer w b = (w @ b, None)"

lemma on_band_simps [simp]:
  "on_band b [] = []"
  "on_band b (f # fs) = (if fst f = b then snd f else []) @ on_band b fs"
  "on_band b (fs @ gs) = on_band b fs @ on_band b gs"
  by (auto simp: on_band_def)

lemma next_of_frame:
  "good_frame f \<Longrightarrow> pkt_next (frame f @ r) = (Inr (PktData, char_of (fst f) # snd f), r)"
  using next_of_packet[of "char_of (fst f) # snd f" r] by (simp add: frame_def good_frame_def add.commute split: prod.splits)

text \<open>
  A reader with data \<open>d\<close> at hand before the packets \<open>fs\<close> and a flush, and a reader after the flush. Filling the first, where it
  has no data at hand, comes to the first data there is, or to the flush, having handed on the progress before it.
\<close>

definition at_frames :: "string \<Rightarrow> string \<Rightarrow> string \<Rightarrow> (nat \<times> string) list \<Rightarrow> string SidebandReader" where
  "at_frames r w d fs =
     \<lparr>pkts = concat (map frame fs) @ flush_text @ r, Progress = Some w, sr_rest = d, sr_err = None\<rparr>"

definition at_flush :: "string \<Rightarrow> string \<Rightarrow> string SidebandReader" where
  "at_flush r w = \<lparr>pkts = r, Progress = Some w, sr_rest = [], sr_err = Some EOF\<rparr>"

lemma packet_flush: "sideband_packet buffer (at_frames r w [] []) = at_flush r w"
  by (simp add: sideband_packet_def at_frames_def at_flush_def next_of_flush)

lemma packet_frame:
  "good_frame f \<Longrightarrow>
   sideband_packet buffer (at_frames r w [] (f # fs)) =
     at_frames r (w @ (if fst f = BandProgress then snd f else [])) (if fst f = BandData then snd f else []) fs"
  using next_of_frame[of f]
  by (auto simp: sideband_packet_def at_frames_def good_frame_def BandData_def BandProgress_def buffer_def)

lemma fill_at_frames:
  "sideband_fill buffer (at_frames r w d fs) =
     (if d \<noteq> [] then at_frames r w d fs else sideband_fill buffer (sideband_packet buffer (at_frames r w d fs)))"
  by (subst sideband_fill.simps) (simp add: at_frames_def)

lemma fill_at_flush: "sideband_fill buffer (at_flush r w) = at_flush r w"
  by (subst sideband_fill.simps) (simp add: at_flush_def)

lemma fill_frames:
  assumes "list_all good_frame fs"
  shows "\<exists>fs1 fs2. fs = fs1 @ fs2 \<and> (on_band BandData fs1 = [] \<longrightarrow> fs2 = []) \<and>
    sideband_fill buffer (at_frames r w [] fs) =
      (if on_band BandData fs1 = [] then at_flush r (w @ on_band BandProgress fs1)
       else at_frames r (w @ on_band BandProgress fs1) (on_band BandData fs1) fs2)"
  using assms
proof (induction fs arbitrary: w)
  case Nil
  then show ?case by (simp add: fill_at_frames packet_flush fill_at_flush)
next
  case (Cons f fs)
  let ?w = "w @ (if fst f = BandProgress then snd f else [])"
  have f: "good_frame f" "list_all good_frame fs" using Cons(2) by auto
  show ?case
  proof (cases "fst f = BandData \<and> snd f \<noteq> []")
    case True
    then show ?thesis
      by (intro exI[of _ "[f]"] exI[of _ fs])
        (simp add: fill_at_frames packet_frame[OF f(1)] BandData_def BandProgress_def)
  next
    case False
    obtain fs1 fs2 where *: "fs = fs1 @ fs2" "on_band BandData fs1 = [] \<longrightarrow> fs2 = []"
      "sideband_fill buffer (at_frames r ?w [] fs) =
        (if on_band BandData fs1 = [] then at_flush r (?w @ on_band BandProgress fs1)
         else at_frames r (?w @ on_band BandProgress fs1) (on_band BandData fs1) fs2)"
      using Cons(1)[OF f(2), of ?w] by blast
    have "(if fst f = BandData then snd f else []) = []" using False by auto
    then show ?thesis using * False
      by (intro exI[of _ "f # fs1"] exI[of _ fs2]) (simp add: fill_at_frames packet_frame[OF f(1)])
  qed
qed

text \<open>Reading with buffers of the given sizes, one after the other, up to the first error.\<close>

fun reads :: "nat list \<Rightarrow> string SidebandReader \<Rightarrow> string SidebandReader \<times> string \<times> pkt_error option" where
  "reads [] s = (s, [], None)"
| "reads (k # ks) s =
     (case sideband_Read buffer k s of
        (s', Inl err) \<Rightarrow> (s', [], Some err)
      | (s', Inr d) \<Rightarrow> let (s'', d', err) = reads ks s' in (s'', d @ d', err))"

lemma read_at_frames:
  assumes "list_all good_frame fs" "0 < k"
  shows "(d @ on_band BandData fs = [] \<and>
            sideband_Read buffer k (at_frames r w d fs) = (at_flush r (w @ on_band BandProgress fs), Inl EOF)) \<or>
         (\<exists>fs1 fs2 d1 d2. fs = fs1 @ fs2 \<and> d1 \<noteq> [] \<and> d @ on_band BandData fs1 = d1 @ d2 \<and>
            sideband_Read buffer k (at_frames r w d fs) =
              (at_frames r (w @ on_band BandProgress fs1) d2 fs2, Inr d1))"
proof (cases "d = []")
  case False
  then show ?thesis
    using assms(2)
    by (intro disjI2 exI[of _ "[]"] exI[of _ fs] exI[of _ "take k d"] exI[of _ "drop k d"])
      (simp add: sideband_Read_def fill_at_frames Let_def, simp add: at_frames_def min_def)
next
  case True
  obtain fs1 fs2 where *: "fs = fs1 @ fs2" "on_band BandData fs1 = [] \<longrightarrow> fs2 = []"
      "sideband_fill buffer (at_frames r w [] fs) =
        (if on_band BandData fs1 = [] then at_flush r (w @ on_band BandProgress fs1)
         else at_frames r (w @ on_band BandProgress fs1) (on_band BandData fs1) fs2)"
    using fill_frames[OF assms(1)] by blast
  let ?d = "on_band BandData fs1"
  show ?thesis
  proof (cases "?d = []")
    case True
    then show ?thesis using * \<open>d = []\<close> by (simp add: sideband_Read_def at_flush_def)
  next
    case False
    then show ?thesis
      using * \<open>d = []\<close> assms(2)
      by (intro disjI2 exI[of _ fs1] exI[of _ fs2] exI[of _ "take k ?d"] exI[of _ "drop k ?d"])
        (simp add: sideband_Read_def Let_def, simp add: at_frames_def min_def)
  qed
qed

lemma reads_at_frames:
  assumes "list_all good_frame fs" "list_all (\<lambda>k. 0 < k) ks" "length (d @ on_band BandData fs) < length ks"
  shows "reads ks (at_frames r w d fs) =
         (at_flush r (w @ on_band BandProgress fs), d @ on_band BandData fs, Some EOF)"
  using assms
proof (induction ks arbitrary: w d fs)
  case (Cons k ks)
  have k: "0 < k" using Cons(3) by simp
  from read_at_frames[OF Cons(2) k, of d r w] show ?case
  proof (elim disjE exE conjE, goal_cases)
    case 1
    then show ?case by simp
  next
    case (2 fs1 fs2 d1 d2)
    have e: "d @ on_band BandData fs = d1 @ d2 @ on_band BandData fs2" using 2 by simp
    have "length (d2 @ on_band BandData fs2) < length ks" using Cons(4) 2(2) unfolding e by (cases d1) auto
    then have "reads ks (at_frames r (w @ on_band BandProgress fs1) d2 fs2) =
       (at_flush r (w @ on_band BandProgress fs), d2 @ on_band BandData fs2, Some EOF)"
      using Cons(1)[of fs2 d2 "w @ on_band BandProgress fs1"] Cons(2-4) 2 by auto
    then show ?case using 2 e by simp
  qed
qed simp

text \<open>Writing a piece to a band sends it in frames that carry it and nothing else.\<close>

lemma packets_written:
  assumes "0 < most" "most < MaxPktData" "band = BandData \<or> band = BandProgress"
  shows "\<exists>fs. sideband_packets buffer band most w b n = (w @ concat (map frame fs), n + length b, None) \<and>
              list_all good_frame fs \<and> (\<forall>c. on_band c fs = (if c = band then b else []))"
proof (induction "length b" arbitrary: b w n rule: less_induct)
  case less
  show ?case
  proof (cases "b = []")
    case True
    then show ?thesis by (intro exI[of _ "[]"]) (simp add: sideband_packets.simps)
  next
    case False
    let ?k = "min (length b) most"
    let ?f = "(band, take ?k b)"
    have "length (drop ?k b) < length b" using False assms(1) by simp
    then obtain fs where *: "sideband_packets buffer band most (w @ frame ?f) (drop ?k b) (n + ?k) =
        (w @ frame ?f @ concat (map frame fs), n + ?k + length (drop ?k b), None)"
      "list_all good_frame fs" "\<forall>c. on_band c fs = (if c = band then drop ?k b else [])"
      using less[of "drop ?k b" "w @ frame ?f" "n + ?k"] by auto
    have "sideband_packets buffer band most w b n = sideband_packets buffer band most (w @ frame ?f) (drop ?k b) (n + ?k)"
      using False assms(1) by (subst sideband_packets.simps) (simp add: buffer_def frame_def Let_def min_def)
    moreover have "good_frame ?f" using assms by (auto simp: good_frame_def)
    ultimately show ?thesis using * by (intro exI[of _ "?f # fs"]) auto
  qed
qed

text \<open>Several writers on the same connection, each write with its band, in the order they are made.\<close>

fun multiplex :: "int \<Rightarrow> string \<Rightarrow> (nat \<times> string) list \<Rightarrow> string" where
  "multiplex maxPkt w [] = w"
| "multiplex maxPkt w ((band, b) # ws) =
     multiplex maxPkt (sw_w (fst (sideband_Write buffer (NewSidebandWriter w band maxPkt) b))) ws"

lemma multiplex_frames:
  assumes "6 \<le> maxPkt" "list_all (\<lambda>(band, b). band = BandData \<or> band = BandProgress) ws"
  shows "\<exists>fs. multiplex maxPkt w ws = w @ concat (map frame fs) \<and> list_all good_frame fs \<and>
              (\<forall>c. on_band c fs = on_band c ws)"
  using assms(2)
proof (induction ws arbitrary: w)
  case Nil
  then show ?case by (intro exI[of _ "[]"]) simp
next
  case (Cons x ws)
  obtain band b where x: "x = (band, b)" by force
  let ?most = "nat (min maxPkt (int MaxPktLen) - 5)"
  have m: "0 < ?most" "?most < MaxPktData" using assms(1) by (auto simp: MaxPktLen_def MaxPktData_def)
  have "band = BandData \<or> band = BandProgress" using Cons(2) x by simp
  then obtain fs where f: "sideband_packets buffer band ?most w b 0 = (w @ concat (map frame fs), 0 + length b, None)"
    "list_all good_frame fs" "\<forall>c. on_band c fs = (if c = band then b else [])"
    using packets_written[OF m] by blast
  moreover have "\<not> min maxPkt (int MaxPktLen) - 5 < 1" using assms(1) by (simp add: MaxPktLen_def)
  ultimately have "sw_w (fst (sideband_Write buffer (NewSidebandWriter w band maxPkt) b)) = w @ concat (map frame fs)"
    by (simp add: sideband_Write_def NewSidebandWriter_def)
  moreover obtain gs where g: "multiplex maxPkt (w @ concat (map frame fs)) ws = (w @ concat (map frame fs)) @ concat (map frame gs)"
    "list_all good_frame gs" "\<forall>c. on_band c gs = on_band c ws"
    using Cons(1)[of "w @ concat (map frame fs)"] Cons(2) by auto
  ultimately show ?case using f(2,3) x by (intro exI[of _ "fs @ gs"]) auto
qed

text \<open>
  What is written to the data band and to the progress band of a response, in pieces of any size and in any order, and
  ended with a flush, is read back whole: the reader's buffers, of whatever sizes, receive the data band, its
  progress writer the progress band, the end is reported as \<open>io.EOF\<close>, and what follows the flush is left unread.
\<close>

theorem side_bands_arrive:
  assumes "6 \<le> maxPkt" "list_all (\<lambda>(band, b). band = BandData \<or> band = BandProgress) ws"
    "list_all (\<lambda>k. 0 < k) ks" "length (on_band BandData ws) < length ks"
  shows "reads ks (NewSidebandReader (fst (WriteFlush buffer (multiplex maxPkt [] ws)) @ r) (Some [])) =
         (\<lparr>pkts = r, Progress = Some (on_band BandProgress ws), sr_rest = [], sr_err = Some EOF\<rparr>,
          on_band BandData ws, Some EOF)"
proof -
  obtain fs where fs: "multiplex maxPkt [] ws = concat (map frame fs)" "list_all good_frame fs"
    "\<forall>c. on_band c fs = on_band c ws"
    using multiplex_frames[OF assms(1,2), of "[]"] by auto
  have "NewSidebandReader (fst (WriteFlush buffer (multiplex maxPkt [] ws)) @ r) (Some []) = at_frames r [] [] fs"
    by (simp add: NewSidebandReader_def WriteFlush_def buffer_def at_frames_def fs(1) flush_text_def)
  then show ?thesis
    using reads_at_frames[OF fs(2) assms(3), of "[]" r "[]"] assms(4) fs(3) by (simp add: at_flush_def)
qed

theorem side_bands_arrive_witness:
  "reads [2, 1, 7, 1, 1, 3] (NewSidebandReader (fst (WriteFlush buffer
      (multiplex 7 [] [(1, ''abc''), (2, ''hi!''), (1, ''de'')])) @ ''more'') (Some [])) =
   (\<lparr>pkts = ''more'', Progress = Some ''hi!'', sr_rest = [], sr_err = Some EOF\<rparr>, ''abcde'', Some EOF)"
  using side_bands_arrive[of 7 "[(1, ''abc''), (2, ''hi!''), (1, ''de'')]" "[2, 1, 7, 1, 1, 3]" "''more''"]
  by (simp add: BandData_def BandProgress_def)

text \<open>
  A stream that ends between two packets is told from one that ends inside a packet, wherever in the packet that is, its
  four digits, right after them or its data.
\<close>

theorem cut_packets_are_told:
  assumes "AppendPkt [] data = Inr p" "k < length p"
  shows "pkt_next (take k p) = (Inl (if k = 0 then EOF else ErrUnexpectedEOF), [])"
proof -
  have p: "p = hex04 (length data + 4) @ data" "length data \<le> MaxPktData"
    using assms(1) by (auto simp: AppendPkt_def split: if_splits)
  then have n: "length data + 4 < 65536" by (simp add: MaxPktData_def MaxPktLen_def)
  show ?thesis
  proof (cases "k < 4")
    case True
    then have "length (take k p) = k" "k < 4" using assms(2) by auto
    then show ?thesis by (auto simp: pkt_next_def ReadFull_def)
  next
    case False
    then have "take k p = hex04 (length data + 4) @ take (k - 4) data" "k - 4 < length data" "0 < k"
      using p n assms(2) by auto
    then show ?thesis using p(2) n by (simp add: pkt_next_def ReadFull_def[of "length data"] MaxPktData_def MaxPktLen_def)
  qed
qed

theorem cut_packets_are_told_witness:
  "AppendPkt [] ''want'' = Inr ''0008want'' \<and> pkt_next ''0008wa'' = (Inl ErrUnexpectedEOF, [])"
proof -
  have "AppendPkt [] ''want'' = Inr ''0008want''"
    by (simp add: AppendPkt_def hex04_def hex_of.simps hex_char_def MaxPktData_def MaxPktLen_def) code_simp
  from this and cut_packets_are_told[OF this, of 6] show ?thesis by simp
qed

end
