(* ===== verification/Masking.thy ===== *)
theory Masking
  imports Envelope "HOL-Library.Sublist"
begin

text \<open>
  Package \<open>driver\<close>, \<open>mask.go\<close>: the secret values a task was given, replaced wherever they appear literally. A \<open>masker\<close> is
  its values, longest first; a nil one has none. \<open>replace_all\<close> is \<open>bytes.ReplaceAll\<close> for a value that is not empty,
  which those of a masker never are.
\<close>

section \<open>The masker\<close>

definition maskToken :: string where "maskToken = ''[masked]''"

type_synonym masker = "string list"

fun replace_all :: "string \<Rightarrow> string \<Rightarrow> string \<Rightarrow> string" where
  "replace_all v token [] = []"
| "replace_all v token (c # cs) =
     (if prefix v (c # cs) then token @ replace_all v token (drop (length v - 1) cs)
      else c # replace_all v token cs)"

text \<open>The values as they arrived and with the whitespace around them removed, each once, none of them empty.\<close>

definition add_value :: "string \<Rightarrow> masker \<Rightarrow> masker" where
  "add_value v m = (if v = [] \<or> v \<in> set m then m else m @ [v])"

definition newMasker :: "string list \<Rightarrow> masker" where
  "newMasker vals =
     sort_key (\<lambda>v. - int (length v))
       (sort (fold (\<lambda>v m. add_value (trim_space v) (add_value v m)) vals []))"

text \<open>One turn of the loop of \<open>mask\<close>: asked for before it is replaced.\<close>

definition mask_one :: "string \<Rightarrow> string \<Rightarrow> string" where
  "mask_one v b = (if sublist v b then replace_all v maskToken b else b)"

definition mask :: "masker \<Rightarrow> string \<Rightarrow> string" where
  "mask m b = (if m = [] \<or> b = [] then b
     else fold mask_one m b)"

definition maskString :: "masker \<Rightarrow> string \<Rightarrow> string" where
  "maskString m s = (if m = [] \<or> s = [] then s else mask m s)"

definition hold :: "masker \<Rightarrow> nat" where
  "hold m = (case m of [] \<Rightarrow> 0 | v # _ \<Rightarrow> length v - 1)"

text \<open>
  \<open>maskValue\<close> on an object goes through its members in the order the map gives them, and where two keys are the
  same once masked the later member is the one that stays.
\<close>

fun maskValue :: "masker \<Rightarrow> json \<Rightarrow> json" where
  "maskValue m (JObj kvs) =
     JObj (fold (\<lambda>(k, v). AList.update (maskString m k) v) (map (\<lambda>(k, v). (k, maskValue m v)) kvs) [])"
| "maskValue m (JArr vs) = JArr (map (maskValue m) vs)"
| "maskValue m (JStr s) = JStr (maskString m s)"
| "maskValue m JNull = JNull"
| "maskValue m (JBool b) = JBool b"
| "maskValue m (JNum s) = JNum s"
| "maskValue m (JSecret s) = JSecret s"

definition maskItems :: "masker \<Rightarrow> item list \<Rightarrow> item list" where
  "maskItems m items =
     (if m = [] \<or> items = [] then items
      else map (\<lambda>it. it\<lparr>it_Data := (case maskValue m (JObj (it_Data it)) of JObj kvs \<Rightarrow> kvs | _ \<Rightarrow> [])\<rparr>) items)"

section \<open>Nothing masked shows\<close>

text \<open>
  The token must not itself bring a value back: a value with a bracket in it can arise around one, and a value that is a
  piece of \<open>masked\<close> is written by every replacement.
\<close>

definition maskable :: "string \<Rightarrow> bool" where
  "maskable v \<longleftrightarrow> CHR ''['' \<notin> set v \<and> CHR '']'' \<notin> set v \<and> \<not> sublist v ''masked''"

definition clean :: "masker \<Rightarrow> string \<Rightarrow> bool" where
  "clean m s \<longleftrightarrow> list_all (\<lambda>v. \<not> sublist v s) m"

lemma sublist_between:
  assumes "sublist w (a @ x # b)" "x \<notin> set w"
  shows "sublist w a \<or> sublist w b"
proof -
  from assms(1) obtain p s where e: "a @ x # b = p @ w @ s" by (auto simp: sublist_def)
  then consider us where "a = p @ us" "us @ x # b = w @ s" | us where "p = a @ us" "x # b = us @ w @ s"
    by (auto simp: append_eq_append_conv2)
  then show ?thesis
  proof cases
    case 1
    from 1(2) consider vs where "us = w @ vs" | vs where "w = us @ vs" "x # b = vs @ s"
      by (auto simp: append_eq_append_conv2)
    then show ?thesis
    proof cases
      case 1
      then show ?thesis using \<open>a = p @ us\<close> by (auto simp: sublist_def)
    next
      case 2
      then show ?thesis using assms(2) \<open>a = p @ us\<close> by (cases vs) auto
    qed
  next
    case 2
    then show ?thesis using assms(2) by (cases us; cases w) (auto simp: sublist_def)
  qed
qed

lemma sublist_token: "maskable w \<Longrightarrow> sublist w (maskToken @ r) \<Longrightarrow> sublist w r"
  using sublist_between[of w "[]" "CHR ''[''" "''masked'' @ CHR '']'' # r"] sublist_between[of w "''masked''" "CHR '']''" r]
  by (auto simp: maskToken_def maskable_def)

lemma prefix_replaced:
  "CHR ''['' \<notin> set w \<Longrightarrow> prefix w (replace_all v maskToken s) \<Longrightarrow> prefix w s"
proof (induction s arbitrary: w)
  case (Cons c cs)
  then show ?case by (cases w) (auto simp: maskToken_def split: if_splits)
qed simp

lemma sublist_replaced:
  "maskable w \<Longrightarrow> v \<noteq> [] \<Longrightarrow> sublist w (replace_all v maskToken s) \<Longrightarrow> sublist w s"
proof (induction v maskToken s rule: replace_all.induct)
  case (2 v c cs)
  show ?case
  proof (cases "prefix v (c # cs)")
    case True
    then have "sublist w (replace_all v maskToken (drop (length v - 1) cs))" using 2(3,5) sublist_token by simp
    then have "sublist w (drop (length v - 1) cs)" using 2(1)[OF True 2(3,4)] by simp
    then show ?thesis by (meson sublist_Cons_right sublist_drop sublist_order.order_trans)
  next
    case False
    then have "prefix w (replace_all v maskToken (c # cs)) \<or> sublist w (replace_all v maskToken cs)"
      using 2(5) by (simp add: sublist_Cons_right)
    then show ?thesis
      using prefix_replaced[of w v "c # cs"] 2(2)[OF False 2(3,4)] 2(3) by (auto simp: sublist_Cons_right maskable_def)
  qed
qed simp

lemma replaced_gone:
  "maskable v \<Longrightarrow> v \<noteq> [] \<Longrightarrow> \<not> sublist v (replace_all v maskToken s)"
proof (induction v maskToken s rule: replace_all.induct)
  case (2 v c cs)
  show ?case
  proof (cases "prefix v (c # cs)")
    case True
    then show ?thesis using 2(1)[OF True 2(3,4)] sublist_token[OF 2(3)] by auto
  next
    case False
    then show ?thesis
      using 2(2)[OF False 2(3,4)] prefix_replaced[of v v "c # cs"] 2(3) by (auto simp: sublist_Cons_right maskable_def)
  qed
qed simp

lemma mask_one_gone: "maskable v \<Longrightarrow> v \<noteq> [] \<Longrightarrow> \<not> sublist v (mask_one v b)"
  using replaced_gone by (simp add: mask_one_def)

lemma mask_one_adds_none: "maskable w \<Longrightarrow> v \<noteq> [] \<Longrightarrow> sublist w (mask_one v b) \<Longrightarrow> sublist w b"
  using sublist_replaced by (simp add: mask_one_def split: if_splits)

lemma mask_fold_adds_none:
  "[] \<notin> set m \<Longrightarrow> maskable w \<Longrightarrow> sublist w (fold mask_one m b) \<Longrightarrow> sublist w b"
proof (induction m arbitrary: b)
  case (Cons v m)
  then have "sublist w (mask_one v b)" by simp
  then show ?case using Cons(2,3) mask_one_adds_none[of w v b] by auto
qed simp

text \<open>A value the token can bring back spoils nothing for the others: each value it cannot bring back is gone, whatever the rest are.\<close>

lemma mask_fold_clean: "[] \<notin> set m \<Longrightarrow> clean (filter maskable m) (fold mask_one m b)"
proof (induction m arbitrary: b)
  case (Cons v m)
  have "maskable v \<Longrightarrow> \<not> sublist v (fold mask_one m (mask_one v b))"
    using mask_fold_adds_none[of m v "mask_one v b"] mask_one_gone[of v b] Cons(2) by auto
  then show ?case using Cons(1)[of "mask_one v b"] Cons(2) by (simp add: clean_def)
qed (simp add: clean_def)

lemma mask_clean_maskable: "[] \<notin> set m \<Longrightarrow> clean (filter maskable m) (mask m b)"
  using mask_fold_clean[of m b] by (auto simp: mask_def clean_def list_all_iff)

lemma mask_clean: "list_all maskable m \<Longrightarrow> [] \<notin> set m \<Longrightarrow> clean m (mask m b)"
  using mask_clean_maskable[of m b] by (simp add: list_all_iff)

lemma maskString_mask: "maskString m s = mask m s"
  by (simp add: maskString_def mask_def)

text \<open>What \<open>newMasker\<close> makes of the values: each of them that is not empty, as it arrived and trimmed, longest first.\<close>

lemma set_add_value [simp]: "set (add_value v m) = (if v = [] then set m else insert v (set m))"
  by (auto simp: add_value_def)

lemma set_newMasker: "set (newMasker vals) = (set vals \<union> trim_space ` set vals) - {[]}"
proof -
  have "set (fold (\<lambda>v m. add_value (trim_space v) (add_value v m)) vals m) =
        set m \<union> ((set vals \<union> trim_space ` set vals) - {[]})" for m
    by (induction vals arbitrary: m) auto
  then show ?thesis by (simp add: newMasker_def)
qed

lemma newMasker_longest_first: "sorted_wrt (\<lambda>v w. length w \<le> length v) (newMasker vals)"
proof -
  have "sorted (map (\<lambda>v. - int (length v)) (newMasker vals))" by (simp add: newMasker_def)
  then show ?thesis by (simp add: sorted_map)
qed

lemma hold_covers: "v \<in> set (newMasker vals) \<Longrightarrow> length v \<le> hold (newMasker vals) + 1"
  using newMasker_longest_first[of vals] set_newMasker[of vals]
  by (cases "newMasker vals") (auto simp: hold_def)

text \<open>The texts of a document: its strings and the keys of its objects.\<close>

fun json_texts :: "json \<Rightarrow> string list" where
  "json_texts (JObj kvs) = concat (map (\<lambda>(k, v). k # json_texts v) kvs)"
| "json_texts (JArr vs) = concat (map json_texts vs)"
| "json_texts (JStr s) = [s]"
| "json_texts _ = []"

lemma update_members:
  "kv \<in> set (AList.update k v m) \<Longrightarrow> kv = (k, v) \<or> kv \<in> set m"
  by (induction m) (auto split: if_splits)

lemma fold_update_members:
  "kv \<in> set (fold (\<lambda>(k, v). AList.update (f k) v) kvs m) \<Longrightarrow>
   kv \<in> set m \<or> (\<exists>(k, v) \<in> set kvs. kv = (f k, v))"
  by (induction kvs arbitrary: m) (auto dest: update_members)

lemma maskValue_clean:
  assumes "list_all maskable m" "[] \<notin> set m"
  shows "t \<in> set (json_texts (maskValue m v)) \<Longrightarrow> clean m t"
proof (induction v arbitrary: t)
  case (JObj kvs)
  then obtain k v where kv: "(k, v) \<in> set (fold (\<lambda>(k, v). AList.update (maskString m k) v) (map (\<lambda>(k, v). (k, maskValue m v)) kvs) [])"
    "t = k \<or> t \<in> set (json_texts v)"
    by auto
  from fold_update_members[OF kv(1)] obtain k' v' where "(k', v') \<in> set kvs" "k = maskString m k'" "v = maskValue m v'"
    by auto
  then show ?case using kv(2) JObj(1)[of "(k', v')" v' t] mask_clean[OF assms] by (auto simp: maskString_mask)
next
  case (JArr vs)
  then show ?case by auto
qed (use mask_clean[OF assms] in \<open>auto simp: maskString_mask\<close>)

text \<open>
  Whatever a container writes, none of the values its task was given shows in what is left of it once masked, neither as
  the value arrived nor without the whitespace around it.
\<close>

theorem masked_text_shows_no_secret:
  assumes "list_all maskable (newMasker vals)" "v \<in> set vals" "w = v \<or> w = trim_space v" "w \<noteq> []"
  shows "\<not> sublist w (mask (newMasker vals) b)"
  using mask_clean[OF assms(1), of b] set_newMasker[of vals] assms(2-4) by (auto simp: clean_def list_all_iff)

text \<open>A password that ends in the newline of the file it came in.\<close>

lemma example_masker: "newMasker [''hunter2'' @ [CHR 0x0A]] = [''hunter2'' @ [CHR 0x0A], ''hunter2'']"
proof -
  have "trim_space (''hunter2'' @ [CHR 0x0A]) = ''hunter2''" by code_simp
  then show ?thesis by (simp add: newMasker_def add_value_def)
qed

theorem masked_text_shows_no_secret_witness:
  "mask (newMasker [''hunter2'' @ [CHR 0x0A]]) ''pw=hunter2;'' = ''pw=[masked];'' \<and>
   \<not> sublist ''hunter2'' (mask (newMasker [''hunter2'' @ [CHR 0x0A]]) ''pw=hunter2;'')"
proof
  show "mask (newMasker [''hunter2'' @ [CHR 0x0A]]) ''pw=hunter2;'' = ''pw=[masked];''"
    unfolding example_masker by (simp add: mask_def mask_one_def maskToken_def sublist_Cons_right)
  show "\<not> sublist ''hunter2'' (mask (newMasker [''hunter2'' @ [CHR 0x0A]]) ''pw=hunter2;'')"
  proof (rule masked_text_shows_no_secret[of _ "''hunter2'' @ [CHR 0x0A]"])
    show "list_all maskable (newMasker [''hunter2'' @ [CHR 0x0A]])"
      unfolding example_masker by (simp add: maskable_def sublist_Cons_right)
    show "''hunter2'' = ''hunter2'' @ [CHR 0x0A] \<or> ''hunter2'' = trim_space (''hunter2'' @ [CHR 0x0A])" by code_simp
  qed simp_all
qed

text \<open>
  Masking a payload masks every string and every key of every item's data, however deep, and leaves each item its
  identity and its files.
\<close>

theorem masked_payload_shows_no_secret:
  assumes "list_all maskable (newMasker vals)"
  shows "map it_ID (maskItems (newMasker vals) items) = map it_ID items \<and>
         map it_Files (maskItems (newMasker vals) items) = map it_Files items \<and>
         (\<forall>it t. it \<in> set (maskItems (newMasker vals) items) \<longrightarrow> t \<in> set (json_texts (JObj (it_Data it))) \<longrightarrow>
            clean (newMasker vals) t)"
proof (cases "newMasker vals = [] \<or> items = []")
  case True
  then show ?thesis by (auto simp: maskItems_def clean_def)
next
  case False
  have "[] \<notin> set (newMasker vals)" by (simp add: set_newMasker)
  moreover have "JObj (case maskValue m (JObj kvs) of JObj l \<Rightarrow> l | _ \<Rightarrow> []) = maskValue m (JObj kvs)" for m kvs by simp
  ultimately show ?thesis
    using False maskValue_clean[OF assms] by (auto simp: maskItems_def comp_def simp del: maskValue.simps json_texts.simps)
qed

definition example_item :: item where
  "example_item = \<lparr>it_ID = ''a'', it_Data = [(''hunter2'', JArr [JStr ''say hunter2'', JNum ''7''])], it_Files = []\<rparr>"

theorem masked_payload_shows_no_secret_witness:
  "maskItems (newMasker [''hunter2'' @ [CHR 0x0A]]) [example_item] =
     [example_item\<lparr>it_Data := [(''[masked]'', JArr [JStr ''say [masked]'', JNum ''7''])]\<rparr>] \<and>
   clean (newMasker [''hunter2'' @ [CHR 0x0A]]) ''say [masked]''"
proof -
  let ?m = "newMasker [''hunter2'' @ [CHR 0x0A]]"
  have e: "maskItems ?m [example_item] =
      [example_item\<lparr>it_Data := [(''[masked]'', JArr [JStr ''say [masked]'', JNum ''7''])]\<rparr>]"
    unfolding example_masker
    by (simp add: maskItems_def example_item_def maskString_def mask_def mask_one_def maskToken_def sublist_Cons_right)
  have "list_all maskable ?m" unfolding example_masker by (simp add: maskable_def sublist_Cons_right)
  from masked_payload_shows_no_secret[OF this, of "[example_item]"] show ?thesis unfolding e by simp
qed

end
