(* ===== verification/Task_Log.thy ===== *)
theory Task_Log
  imports Masking
begin

text \<open>
  Package \<open>driver\<close>, \<open>log.go\<close>: the log of one task, as a state and the operations the runner calls on it under its mutex. The
  sink is a state \<open>'w\<close> and the function its \<open>Write\<close> is, which may fail. The clock is the function from how often it has been
  read to what it answers: it is read once for each line put, so the count of lines is that number. \<open>tl_put\<close> is the
  lines put so far, which the code only counts in \<open>lines\<close>; no operation reads it.
\<close>

section \<open>Streams and lines\<close>

type_synonym Stream = int

definition Stdout :: Stream where "Stdout = 1"
definition Stderr :: Stream where "Stderr = 2"

definition streams :: "string list" where "streams = ['''', ''stdout'', ''stderr'']"

definition named_stream :: "Stream \<Rightarrow> bool" where
  "named_stream s \<longleftrightarrow> \<not> (s < 0 \<or> s \<ge> int (length streams) \<or> streams ! nat s = [])"

definition stream_String :: "Stream \<Rightarrow> string" where
  "stream_String s = (if named_stream s then streams ! nat s else ''stream '' @ itoa s)"

datatype log_error = NoStream Stream | NoStreamText string | LineNotWritten | SinkFailed string

definition stream_MarshalText :: "Stream \<Rightarrow> (log_error, string) result" where
  "stream_MarshalText s = (if named_stream s then Inr (streams ! nat s) else Inl (NoStream s))"

fun stream_from :: "nat \<Rightarrow> string list \<Rightarrow> string \<Rightarrow> (log_error, Stream) result" where
  "stream_from i [] b = Inl (NoStreamText b)"
| "stream_from i (name # names) b = (if name \<noteq> [] \<and> name = b then Inr (int i) else stream_from (i + 1) names b)"

definition stream_UnmarshalText :: "string \<Rightarrow> (log_error, Stream) result" where
  "stream_UnmarshalText b = stream_from 0 streams b"

definition stream_index :: "Stream \<Rightarrow> nat" where
  "stream_index s = (if s = Stdout then 0 else 1)"

record line =
  ln_At :: time
  ln_Index :: int
  ln_Stream :: Stream
  ln_Text :: string

record LogRef =
  lr_Lines :: int
  lr_Truncated :: bool

text \<open>\<open>json.Marshal\<close> of a line, which fails where its instant has no year of four digits or its stream no name.\<close>

definition line_json :: "line \<Rightarrow> string option" where
  "line_json ln =
     (case (time_text (ln_At ln), stream_MarshalText (ln_Stream ln)) of
        (Some at, Inr s) \<Rightarrow>
          Some (obj_text True [(''at'', quote True at), (''index'', itoa (ln_Index ln)),
                               (''stream'', quote True s), (''text'', quote True (ln_Text ln))])
      | _ \<Rightarrow> None)"

definition notePrefix :: string where "notePrefix = ''driver: ''"
definition outputPrefix :: string where "outputPrefix = ''stdout: ''"
definition maxLineBytes :: nat where "maxLineBytes = 65536"
definition outputTailLines :: nat where "outputTailLines = 200"
definition outputTailBytes :: nat where "outputTailBytes = maxLineBytes"

section \<open>The log\<close>

record counted =
  c_lines :: int
  c_bytes :: int
  c_stopped :: bool

record 'w taskLog =
  tl_w :: "'w option"
  tl_mask :: masker
  tl_now :: "nat \<Rightarrow> time"
  tl_maxBytes :: int
  tl_maxLines :: int
  tl_outBytes :: int
  tl_pending :: "nat \<Rightarrow> string"
  tl_lines :: nat
  tl_truncated :: bool
  tl_sealed :: bool
  tl_err :: "log_error option"
  tl_stderr :: counted
  tl_stdout :: counted
  tl_alone :: bool
  tl_tail :: "string list"
  tl_tailBytes :: int
  tl_written :: nat
  tl_put :: "line list"

type_synonym 'w sink = "'w \<Rightarrow> string \<Rightarrow> 'w \<times> string option"

text \<open>\<open>newLog\<close>; \<open>alone\<close> says whether the sink is a \<open>StderrLog\<close>, which no sink is not.\<close>

definition newLog :: "'w option \<Rightarrow> bool \<Rightarrow> masker \<Rightarrow> (nat \<Rightarrow> time) \<Rightarrow> int \<Rightarrow> int \<Rightarrow> int \<Rightarrow> 'w taskLog" where
  "newLog w alone m clock maxBytes maxLines outBytes =
     \<lparr>tl_w = w, tl_mask = m, tl_now = clock, tl_maxBytes = maxBytes, tl_maxLines = maxLines, tl_outBytes = outBytes,
      tl_pending = (\<lambda>i. []), tl_lines = 0, tl_truncated = False, tl_sealed = False, tl_err = None,
      tl_stderr = \<lparr>c_lines = 0, c_bytes = 0, c_stopped = False\<rparr>,
      tl_stdout = \<lparr>c_lines = 0, c_bytes = 0, c_stopped = False\<rparr>,
      tl_alone = (alone \<and> w \<noteq> None), tl_tail = [], tl_tailBytes = 0, tl_written = 0, tl_put = []\<rparr>"

fun cut_back :: "string \<Rightarrow> nat \<Rightarrow> nat" where
  "cut_back s 0 = 0"
| "cut_back s (Suc n) = (if cont_byte (byte (s ! Suc n)) then cut_back s n else Suc n)"

definition cut :: "string \<Rightarrow> nat \<Rightarrow> string" where
  "cut s n = (if n \<ge> length s then s else take (cut_back s n) s)"

definition fit :: "string \<Rightarrow> int \<Rightarrow> int \<Rightarrow> string \<times> bool \<times> bool" where
  "fit s most used =
     (if most \<le> 0 then (s, True, True)
      else let room = most - used in
           if room \<le> 0 then ([], False, False)
           else if int (length s) > room then (cut s (nat room), False, True)
           else (s, True, True))"

definition put_line :: "'w sink \<Rightarrow> line \<Rightarrow> 'w taskLog \<Rightarrow> 'w taskLog" where
  "put_line wr ln l0 =
     (let l = l0\<lparr>tl_lines := tl_lines l0 + 1, tl_put := tl_put l0 @ [ln]\<rparr> in
      case tl_w l of
        None \<Rightarrow> l
      | Some w \<Rightarrow>
          if tl_err l \<noteq> None then l
          else (case line_json ln of
                  None \<Rightarrow> l\<lparr>tl_err := Some LineNotWritten\<rparr>
                | Some b \<Rightarrow>
                    (case wr w (b @ [CHR 0x0A]) of
                       (w', None) \<Rightarrow> l\<lparr>tl_w := Some w'\<rparr>
                     | (w', Some e) \<Rightarrow> l\<lparr>tl_w := Some w', tl_err := Some (SinkFailed e)\<rparr>)))"

text \<open>The next line of a stream, with its moment and its index.\<close>

definition next_line :: "'w taskLog \<Rightarrow> Stream \<Rightarrow> string \<Rightarrow> line" where
  "next_line l s t = \<lparr>ln_At = tl_now l (tl_lines l), ln_Index = int (tl_lines l) + 1, ln_Stream = s, ln_Text = t\<rparr>"

definition log_stop :: "'w sink \<Rightarrow> string \<Rightarrow> 'w taskLog \<Rightarrow> 'w taskLog" where
  "log_stop wr why l =
     (if c_stopped (tl_stderr l) then l
      else put_line wr (next_line l Stderr (notePrefix @ why))
             (l\<lparr>tl_stderr := (tl_stderr l)\<lparr>c_stopped := True\<rparr>, tl_truncated := True\<rparr>))"

definition outputEnds :: "'w sink \<Rightarrow> string \<Rightarrow> 'w taskLog \<Rightarrow> 'w taskLog" where
  "outputEnds wr why l =
     put_line wr (next_line l Stdout (notePrefix @ why))
       (l\<lparr>tl_stdout := (tl_stdout l)\<lparr>c_stopped := True\<rparr>\<rparr>)"

text \<open>\<open>keep\<close> and its loop, which lets the oldest lines go.\<close>

fun let_go :: "string list \<Rightarrow> int \<Rightarrow> string list \<times> int" where
  "let_go [] n = ([], n)"
| "let_go (t # ts) n =
     (if length (t # ts) > outputTailLines \<or> n > int outputTailBytes then let_go ts (n - int (length t)) else (t # ts, n))"

definition keep :: "string \<Rightarrow> 'w taskLog \<Rightarrow> 'w taskLog" where
  "keep t0 l0 =
     (let l = l0\<lparr>tl_written := tl_written l0 + 1\<rparr> in
      if \<not> tl_alone l then l
      else let t = cut t0 outputTailBytes;
               (ts, n) = let_go (tl_tail l @ [t]) (tl_tailBytes l + int (length t))
           in l\<lparr>tl_tail := ts, tl_tailBytes := n\<rparr>)"

definition linesReached :: "int \<Rightarrow> string" where
  "linesReached n = ''the log reached the '' @ itoa n @ '' lines the runner policy allows, and the rest of it was dropped''"

definition bytesReached :: "int \<Rightarrow> string" where
  "bytesReached n = ''the log reached the '' @ itoa n @ '' bytes the runner policy allows, and the rest of it was dropped''"

definition outputLinesReached :: "int \<Rightarrow> string" where
  "outputLinesReached n =
     ''standard output reached the '' @ itoa n @ '' lines the log holds of it, and the rest of it is left out of the log''"

definition outputBytesReached :: "int \<Rightarrow> string" where
  "outputBytesReached n =
     ''standard output reached the '' @ itoa n @ '' bytes an envelope may hold, and the rest of it is left out of the log''"

definition count_line :: "string \<Rightarrow> counted \<Rightarrow> counted" where
  "count_line t c = c\<lparr>c_lines := c_lines c + 1, c_bytes := c_bytes c + int (length t)\<rparr>"

definition emitOutput :: "'w sink \<Rightarrow> string \<Rightarrow> 'w taskLog \<Rightarrow> 'w taskLog" where
  "emitOutput wr t0 l =
     (let c = tl_stdout l in
      if c_stopped c then l
      else if tl_maxLines l > 0 \<and> c_lines c \<ge> tl_maxLines l then outputEnds wr (outputLinesReached (tl_maxLines l)) l
      else let (t, whole, room) = fit t0 (tl_outBytes l) (c_bytes c) in
           if \<not> room then outputEnds wr (outputBytesReached (tl_outBytes l)) l
           else let l1 = put_line wr (next_line l Stdout t) l;
                    l2 = l1\<lparr>tl_stdout := count_line t (tl_stdout l1)\<rparr>
                in if \<not> whole then outputEnds wr (outputBytesReached (tl_outBytes l)) l2 else l2)"

definition emit :: "'w sink \<Rightarrow> Stream \<Rightarrow> string \<Rightarrow> 'w taskLog \<Rightarrow> 'w taskLog" where
  "emit wr s t0 l =
     (if s = Stdout then emitOutput wr t0 (keep t0 l)
      else let c = tl_stderr l in
      if c_stopped c then l
      else if tl_maxLines l > 0 \<and> c_lines c \<ge> tl_maxLines l then log_stop wr (linesReached (tl_maxLines l)) l
      else let (t, whole, room) = fit t0 (tl_maxBytes l) (c_bytes c) in
           if \<not> room then log_stop wr (bytesReached (tl_maxBytes l)) l
           else let l1 = put_line wr (next_line l s t) l;
                    l2 = l1\<lparr>tl_stderr := count_line t (tl_stderr l1)\<rparr>
                in if \<not> whole then log_stop wr (bytesReached (tl_maxBytes l)) l2 else l2)"

definition trim_cr :: "string \<Rightarrow> string" where
  "trim_cr s = (case cut_suffix s [CHR 0x0D] of Some p \<Rightarrow> p | None \<Rightarrow> s)"

definition log_text :: "'w taskLog \<Rightarrow> string \<Rightarrow> string" where
  "log_text l b = trim_cr (mask (tl_mask l) b)"

function complete_lines :: "'w sink \<Rightarrow> Stream \<Rightarrow> string \<Rightarrow> 'w taskLog \<Rightarrow> 'w taskLog \<times> string" where
  "complete_lines wr s buf l =
     (case cut_at (CHR 0x0A) buf of
        None \<Rightarrow> (l, buf)
      | Some (p, rest) \<Rightarrow> complete_lines wr s rest (emit wr s (log_text l p) l))"
  by pat_completeness auto
termination
  by (relation "measure (\<lambda>(wr, s, buf, l). length buf)") (auto simp: cut_at_Some)

declare complete_lines.simps [simp del]

text \<open>A line long enough to be written out in pieces: masked whole, and cut so that what may be the start of a value stays.\<close>

definition long_line :: "'w sink \<Rightarrow> Stream \<Rightarrow> string \<Rightarrow> 'w taskLog \<Rightarrow> 'w taskLog \<times> string" where
  "long_line wr s buf l =
     (if length buf > maxLineBytes then
        let masked = mask (tl_mask l) buf;
            kept = min (hold (tl_mask l)) (length masked);
            piece = take (length masked - kept) masked
        in (if length piece > 0 then emit wr s piece l else l,
            take (length buf) (drop (length masked - kept) masked))
      else (l, buf))"

definition log_append :: "'w sink \<Rightarrow> Stream \<Rightarrow> string \<Rightarrow> 'w taskLog \<Rightarrow> 'w taskLog" where
  "log_append wr s b l0 =
     (let i = stream_index s;
          (l1, buf) = complete_lines wr s (tl_pending l0 i @ b) l0;
          (l2, rest) = long_line wr s buf l1
      in l2\<lparr>tl_pending := (tl_pending l2)(i := rest)\<rparr>)"

definition log_flush :: "'w sink \<Rightarrow> Stream \<Rightarrow> 'w taskLog \<Rightarrow> 'w taskLog" where
  "log_flush wr s l =
     (let i = stream_index s in
      if tl_pending l i = [] then l
      else emit wr s (log_text l (tl_pending l i)) (l\<lparr>tl_pending := (tl_pending l)(i := [])\<rparr>))"

section \<open>What the runner calls\<close>

definition log_write :: "'w sink \<Rightarrow> Stream \<Rightarrow> string \<Rightarrow> 'w taskLog \<Rightarrow> 'w taskLog" where
  "log_write wr s b l = (if b = [] then l else if tl_sealed l then l else log_append wr s b l)"

definition log_note :: "'w sink \<Rightarrow> string \<Rightarrow> 'w taskLog \<Rightarrow> 'w taskLog" where
  "log_note wr t l =
     (if tl_sealed l then l
      else fold (\<lambda>piece. emit wr Stderr (notePrefix @ trim_cr piece))
             (split_on (CHR 0x0A) (maskString (tl_mask l) t)) (log_flush wr Stderr l))"

definition what_follows :: "nat \<Rightarrow> nat \<Rightarrow> string" where
  "what_follows written n =
     (if written > n \<and> n = 1 then ''the last of its '' @ itoa (int written) @ '' lines follows,''
      else if written > n then
        ''the last '' @ itoa (int n) @ '' of its '' @ itoa (int written) @ '' lines follow, each''
      else if n = 1 then ''its one line follows,''
      else ''its '' @ itoa (int n) @ '' lines follow, each'')"

definition keptNote :: "nat \<Rightarrow> nat \<Rightarrow> string" where
  "keptNote written n =
     ''standard output did not become the step'' @ [CHR 0x27] @ ''s result, so '' @ what_follows written n @ '' beginning '' @
     [CHR 0x22] @ outputPrefix @ [CHR 0x22]"

definition keepOutput :: "'w sink \<Rightarrow> 'w taskLog \<Rightarrow> 'w taskLog" where
  "keepOutput wr l0 =
     (if tl_sealed l0 \<or> \<not> tl_alone l0 then l0
      else let l = log_flush wr Stdout l0 in
      if tl_tail l = [] then l
      else let l = log_flush wr Stderr l;
               l = emit wr Stderr (notePrefix @ keptNote (tl_written l) (length (tl_tail l))) l;
               l = fold (\<lambda>t. emit wr Stderr (outputPrefix @ t)) (tl_tail l) l
           in l\<lparr>tl_tail := [], tl_tailBytes := 0\<rparr>)"

definition log_finish :: "'w sink \<Rightarrow> 'w taskLog \<Rightarrow> 'w taskLog \<times> LogRef \<times> log_error option" where
  "log_finish wr l0 =
     (let l = (log_flush wr Stderr (log_flush wr Stdout l0))\<lparr>tl_sealed := True\<rparr>
      in (l, \<lparr>lr_Lines = int (tl_lines l), lr_Truncated = tl_truncated l\<rparr>, tl_err l))"

text \<open>What can happen to a log, one call at a time.\<close>

datatype log_op = OWrite Stream string | ONote string | OKeepOutput | OFinish

fun log_do :: "'w sink \<Rightarrow> log_op \<Rightarrow> 'w taskLog \<Rightarrow> 'w taskLog" where
  "log_do wr (OWrite s b) l = log_write wr s b l"
| "log_do wr (ONote t) l = log_note wr t l"
| "log_do wr OKeepOutput l = keepOutput wr l"
| "log_do wr OFinish l = fst (log_finish wr l)"

section \<open>Every line goes through put\<close>

text \<open>
  Every operation of the log comes down to \<open>emit\<close>. The locale states what makes an invariant of the log one that all of them
  keep: that emitting a text that is \<open>ok\<close> keeps it, that the texts the operations emit are, and that the pending bytes, the
  seal and the tail being emptied are nothing to it.
\<close>

locale log_invariant =
  fixes wr :: "'w sink" and I :: "'w taskLog \<Rightarrow> bool" and ok :: "'w taskLog \<Rightarrow> Stream \<Rightarrow> string \<Rightarrow> bool"
  assumes I_emit: "I l \<Longrightarrow> ok l s t \<Longrightarrow> I (emit wr s t l)"
    and ok_emit: "ok l s t \<Longrightarrow> ok (emit wr s' t' l) s t"
    and I_pending: "I l \<Longrightarrow> I (l\<lparr>tl_pending := q\<rparr>)"
    and ok_pending: "ok l s t \<Longrightarrow> ok (l\<lparr>tl_pending := q\<rparr>) s t"
    and I_sealed: "I l \<Longrightarrow> I (l\<lparr>tl_sealed := z\<rparr>)"
    and I_no_tail: "I l \<Longrightarrow> I (l\<lparr>tl_tail := [], tl_tailBytes := 0\<rparr>)"
    and ok_text: "I l \<Longrightarrow> ok l s (log_text l b)"
    and ok_piece: "I l \<Longrightarrow> ok l s (take n (mask (tl_mask l) b))"
    and ok_note: "I l \<Longrightarrow> p \<in> set (split_on (CHR 0x0A) (maskString (tl_mask l) b)) \<Longrightarrow> ok l Stderr (notePrefix @ trim_cr p)"
    and ok_kept: "I l \<Longrightarrow> ok l Stderr (notePrefix @ keptNote n k)"
    and ok_tail: "I l \<Longrightarrow> t \<in> set (tl_tail l) \<Longrightarrow> ok l Stderr (outputPrefix @ t)"
begin

lemma I_flush: "I l \<Longrightarrow> I (log_flush wr s l)"
  using I_emit[OF I_pending ok_pending, OF _ ok_text] by (simp add: log_flush_def Let_def)

lemma I_complete: "I l \<Longrightarrow> I (fst (complete_lines wr s buf l))"
proof (induction "length buf" arbitrary: buf l rule: less_induct)
  case less
  show ?case
  proof (cases "cut_at (CHR 0x0A) buf")
    case None
    then show ?thesis using less(2) by (simp add: complete_lines.simps)
  next
    case (Some pr)
    then obtain p r where pr: "cut_at (CHR 0x0A) buf = Some (p, r)" by (cases pr) auto
    then have "length r < length buf" by (auto simp: cut_at_Some)
    then show ?thesis
      using less(1)[of r "emit wr s (log_text l p) l"] I_emit[OF less(2) ok_text] less(2) pr
      by (subst complete_lines.simps) simp
  qed
qed

lemma I_append: "I l \<Longrightarrow> I (log_append wr s b l)"
  using I_complete[of l s "tl_pending l (stream_index s) @ b"]
  by (auto simp: log_append_def long_line_def Let_def intro!: I_pending I_emit ok_piece split: prod.splits)

lemma I_emits:
  "I l \<Longrightarrow> (\<And>t. t \<in> set ts \<Longrightarrow> ok l s (f t)) \<Longrightarrow> I (fold (\<lambda>t. emit wr s (f t)) ts l)"
  by (induction ts arbitrary: l) (auto intro: I_emit ok_emit)

lemma I_keepOutput: "I l \<Longrightarrow> I (keepOutput wr l)"
proof -
  assume l: "I l"
  let ?l1 = "log_flush wr Stdout l"
  let ?l2 = "log_flush wr Stderr ?l1"
  let ?l3 = "emit wr Stderr (notePrefix @ keptNote (tl_written ?l2) (length (tl_tail ?l2))) ?l2"
  have "I ?l1" using l by (rule I_flush)
  moreover have "I ?l3" using l by (intro I_emit I_flush ok_kept)
  moreover have "I (fold (\<lambda>t. emit wr Stderr (outputPrefix @ t)) (tl_tail ?l3) ?l3)"
    using \<open>I ?l3\<close> by (intro I_emits ok_tail)
  ultimately show ?thesis using l by (simp add: keepOutput_def Let_def I_no_tail)
qed

lemma I_do: "I l \<Longrightarrow> I (log_do wr x l)"
proof (cases x)
  case (ONote t)
  assume l: "I l"
  have "ok (log_flush wr Stderr l) Stderr (notePrefix @ trim_cr p)" if "p \<in> set (split_on (CHR 0x0A) (maskString (tl_mask l) t))" for p
    using ok_note[OF l that] by (auto simp: log_flush_def Let_def intro: ok_emit ok_pending)
  then show ?thesis using ONote l by (auto simp: log_note_def intro!: I_emits I_flush)
qed (auto simp: log_write_def log_finish_def Let_def intro: I_append I_keepOutput I_sealed I_flush)

lemma I_all: "I l \<Longrightarrow> I (fold (log_do wr) ops l)"
  by (induction ops arbitrary: l) (auto intro: I_do)

end

end
