(* ===== verification/Log_Caps.thy ===== *)
theory Log_Caps
  imports Task_Log
begin

text \<open>
  What the log of a task promises whatever its container and the runner do: its caps, its indices and its tail are
  kept, as an invariant of every sequence of calls, and a finished log is not touched again.
\<close>

section \<open>The caps\<close>

lemma put_line_simps [simp]:
  "tl_mask (put_line wr ln l) = tl_mask l"
  "tl_now (put_line wr ln l) = tl_now l"
  "tl_maxBytes (put_line wr ln l) = tl_maxBytes l"
  "tl_maxLines (put_line wr ln l) = tl_maxLines l"
  "tl_outBytes (put_line wr ln l) = tl_outBytes l"
  "tl_pending (put_line wr ln l) = tl_pending l"
  "tl_lines (put_line wr ln l) = tl_lines l + 1"
  "tl_truncated (put_line wr ln l) = tl_truncated l"
  "tl_sealed (put_line wr ln l) = tl_sealed l"
  "tl_stderr (put_line wr ln l) = tl_stderr l"
  "tl_stdout (put_line wr ln l) = tl_stdout l"
  "tl_alone (put_line wr ln l) = tl_alone l"
  "tl_tail (put_line wr ln l) = tl_tail l"
  "tl_tailBytes (put_line wr ln l) = tl_tailBytes l"
  "tl_written (put_line wr ln l) = tl_written l"
  "tl_put (put_line wr ln l) = tl_put l @ [ln]"
  by (simp_all add: put_line_def Let_def split: option.splits prod.splits)

definition text_bytes :: "line list \<Rightarrow> int" where
  "text_bytes ls = (\<Sum>ln\<leftarrow>ls. int (length (ln_Text ln)))"

text \<open>What one stream has put in the log, the line that says its bound ended it apart.\<close>

definition accounted :: "counted \<Rightarrow> line list \<Rightarrow> bool" where
  "accounted c ls \<longleftrightarrow>
     (let body = (if c_stopped c then butlast ls else ls)
      in (c_stopped c \<longrightarrow> ls \<noteq> []) \<and> c_lines c = int (length body) \<and> c_bytes c = text_bytes body)"

definition within :: "int \<Rightarrow> int \<Rightarrow> counted \<Rightarrow> bool" where
  "within maxLines maxBytes c \<longleftrightarrow> (0 < maxLines \<longrightarrow> c_lines c \<le> maxLines) \<and> (0 < maxBytes \<longrightarrow> c_bytes c \<le> maxBytes)"

definition err_lines :: "'w taskLog \<Rightarrow> line list" where
  "err_lines l = filter (\<lambda>ln. ln_Stream ln \<noteq> Stdout) (tl_put l)"

definition out_lines :: "'w taskLog \<Rightarrow> line list" where
  "out_lines l = filter (\<lambda>ln. ln_Stream ln = Stdout) (tl_put l)"

definition tail_ok :: "'w taskLog \<Rightarrow> bool" where
  "tail_ok l \<longleftrightarrow> length (tl_tail l) \<le> outputTailLines \<and> tl_tailBytes l \<le> int outputTailBytes \<and>
     tl_tailBytes l = (\<Sum>t\<leftarrow>tl_tail l. int (length t))"

definition good_log :: "int \<Rightarrow> int \<Rightarrow> int \<Rightarrow> 'w taskLog \<Rightarrow> bool" where
  "good_log maxBytes maxLines outBytes l \<longleftrightarrow>
     tl_maxBytes l = maxBytes \<and> tl_maxLines l = maxLines \<and> tl_outBytes l = outBytes \<and>
     tl_lines l = length (tl_put l) \<and> map ln_Index (tl_put l) = map (\<lambda>i. int i + 1) [0..<tl_lines l] \<and>
     accounted (tl_stderr l) (err_lines l) \<and> within maxLines maxBytes (tl_stderr l) \<and>
     accounted (tl_stdout l) (out_lines l) \<and> within maxLines outBytes (tl_stdout l) \<and>
     tl_truncated l = c_stopped (tl_stderr l) \<and> tail_ok l"

lemma accounted_line:
  "accounted c ls \<Longrightarrow> \<not> c_stopped c \<Longrightarrow> ln_Text ln = t \<Longrightarrow> accounted (count_line t c) (ls @ [ln])"
  by (simp add: accounted_def count_line_def text_bytes_def)

lemma accounted_marker:
  "accounted c ls \<Longrightarrow> \<not> c_stopped c \<Longrightarrow> accounted (c\<lparr>c_stopped := True\<rparr>) (ls @ [ln])"
  by (simp add: accounted_def)

lemma accounted_within:
  assumes "accounted c ls" "within maxLines maxBytes c" "0 < maxLines" "0 < maxBytes"
  shows "int (length ls) \<le> maxLines + of_bool (c_stopped c)"
    "text_bytes (if c_stopped c then butlast ls else ls) \<le> maxBytes"
  using assms by (auto simp: accounted_def within_def Let_def)

lemma cut_back_le: "cut_back s n \<le> n"
  by (induction n) auto

lemma cut_prefix_of: "prefix (cut s n) s" "length (cut s n) \<le> n"
  using cut_back_le[of s n] by (auto simp: cut_def take_is_prefix)

lemma fit_spec:
  assumes "fit t most used = (t', whole, room)" "room"
  shows "prefix t' t" "0 < most \<Longrightarrow> used + int (length t') \<le> most"
  using assms cut_prefix_of[of t "nat (most - used)"] by (auto simp: fit_def Let_def split: if_splits)

lemma within_line:
  assumes "fit t0 maxBytes (c_bytes c) = (t, whole, room)" "room" "\<not> (maxLines > 0 \<and> c_lines c \<ge> maxLines)"
  shows "within maxLines maxBytes (count_line t c)"
  using fit_spec(2)[OF assms(1,2)] assms(3) by (auto simp: within_def count_line_def)

lemma within_stopped [simp]: "within a b (c\<lparr>c_stopped := z\<rparr>) = within a b c"
  by (simp add: within_def)

lemma let_go_spec:
  assumes "let_go ts n = (ts', n')" "n = (\<Sum>t\<leftarrow>ts. int (length t))"
  shows "length ts' \<le> outputTailLines \<and> n' \<le> int outputTailBytes \<and> n' = (\<Sum>t\<leftarrow>ts'. int (length t)) \<and> set ts' \<subseteq> set ts"
  using assms
proof (induction ts n rule: let_go.induct)
  case (2 t ts n)
  then show ?case by (auto split: if_splits)
qed (auto simp: outputTailBytes_def maxLineBytes_def)

lemma tail_ok_keep: "tail_ok l \<Longrightarrow> tail_ok (keep t l)"
  by (auto simp: keep_def tail_ok_def Let_def dest!: let_go_spec split: prod.splits)

text \<open>One line of a stream and the line that ends it, as they change the account.\<close>

lemma good_put_err:
  assumes "good_log B M N l" "\<not> c_stopped (tl_stderr l)" "s \<noteq> Stdout"
    "fit t0 (tl_maxBytes l) (c_bytes (tl_stderr l)) = (t, whole, True)"
    "\<not> (tl_maxLines l > 0 \<and> c_lines (tl_stderr l) \<ge> tl_maxLines l)"
  shows "good_log B M N (put_line wr (next_line l s t) l\<lparr>tl_stderr := count_line t (tl_stderr l)\<rparr>)"
  using assms(1-3) accounted_line[of "tl_stderr l" "err_lines l" "next_line l s t" t]
    within_line[OF assms(4) TrueI assms(5)]
  by (simp add: good_log_def err_lines_def out_lines_def next_line_def tail_ok_def, simp add: count_line_def)

lemma good_put_out:
  assumes "good_log B M N l" "\<not> c_stopped (tl_stdout l)"
    "fit t0 (tl_outBytes l) (c_bytes (tl_stdout l)) = (t, whole, True)"
    "\<not> (tl_maxLines l > 0 \<and> c_lines (tl_stdout l) \<ge> tl_maxLines l)"
  shows "good_log B M N (put_line wr (next_line l Stdout t) l\<lparr>tl_stdout := count_line t (tl_stdout l)\<rparr>)"
  using assms(1,2) accounted_line[of "tl_stdout l" "out_lines l" "next_line l Stdout t" t]
    within_line[OF assms(3) TrueI assms(4)]
  by (simp add: good_log_def err_lines_def out_lines_def next_line_def tail_ok_def)

lemma good_stop: "good_log B M N l \<Longrightarrow> good_log B M N (log_stop wr why l)"
  using accounted_marker[of "tl_stderr l" "err_lines l" "next_line l Stderr (notePrefix @ why)"]
  by (simp add: log_stop_def good_log_def err_lines_def out_lines_def next_line_def tail_ok_def Stderr_def Stdout_def)

lemma good_ends: "good_log B M N l \<Longrightarrow> \<not> c_stopped (tl_stdout l) \<Longrightarrow> good_log B M N (outputEnds wr why l)"
  using accounted_marker[of "tl_stdout l" "out_lines l" "next_line l Stdout (notePrefix @ why)"]
  by (simp add: outputEnds_def good_log_def err_lines_def out_lines_def next_line_def tail_ok_def Stderr_def Stdout_def)

lemma good_keep: "good_log B M N l \<Longrightarrow> good_log B M N (keep t l)"
  using tail_ok_keep[of l t] by (simp add: good_log_def keep_def Let_def err_lines_def out_lines_def split: prod.splits)

lemma count_line_stopped [simp]: "c_stopped (count_line t c) = c_stopped c"
  by (simp add: count_line_def)

lemma good_emitOutput: "good_log B M N l \<Longrightarrow> good_log B M N (emitOutput wr t l)"
proof -
  assume l: "good_log B M N l"
  obtain t' whole room where f: "fit t (tl_outBytes l) (c_bytes (tl_stdout l)) = (t', whole, room)" by (metis prod_cases3)
  show ?thesis
    using good_put_out[OF l, of t t' whole wr] good_ends[OF l, of wr] f l
    by (auto simp: emitOutput_def Let_def intro!: good_ends)
qed

lemma good_emit: "good_log B M N l \<Longrightarrow> good_log B M N (emit wr s t l)"
proof -
  assume l: "good_log B M N l"
  obtain t' whole room where f: "fit t (tl_maxBytes l) (c_bytes (tl_stderr l)) = (t', whole, room)" by (metis prod_cases3)
  show ?thesis
    using good_put_err[OF l _ _, of s t t' whole wr] good_stop[OF l, of wr] f l
    by (auto simp: emit_def Let_def intro!: good_stop good_emitOutput good_keep)
qed

interpretation caps: log_invariant wr "good_log B M N" "\<lambda>l s t. True" for wr B M N
proof (unfold_locales, goal_cases)
  case 1
  then show ?case by (simp add: good_emit)
qed (auto simp: good_log_def err_lines_def out_lines_def tail_ok_def outputTailBytes_def maxLineBytes_def)

lemma good_new: "good_log B M N (newLog w alone m clock B M N)"
  by (simp add: good_log_def newLog_def accounted_def within_def err_lines_def out_lines_def tail_ok_def text_bytes_def
      outputTailBytes_def maxLineBytes_def)

text \<open>
  C32: whatever the container writes and whatever is noted, standard error puts at most the lines and bytes of its caps in the
  log, and one line more that says so where the log was cut; the same holds of standard output within its own
  bounds; the lines are indexed from one without a gap, and their number is what the log reports.
\<close>

theorem log_keeps_its_caps:
  assumes "l = fold (log_do wr) ops (newLog w alone m clock maxBytes maxLines outBytes)"
    "0 < maxBytes" "0 < maxLines" "0 < outBytes"
  shows "int (length (err_lines l)) \<le> maxLines + of_bool (tl_truncated l) \<and>
         text_bytes (if tl_truncated l then butlast (err_lines l) else err_lines l) \<le> maxBytes \<and>
         int (length (out_lines l)) \<le> maxLines + 1 \<and> text_bytes (butlast (out_lines l)) \<le> outBytes \<and>
         map ln_Index (tl_put l) = map (\<lambda>i. int i + 1) [0..<length (tl_put l)] \<and>
         lr_Lines (fst (snd (log_finish wr l))) = int (length (tl_put (fst (log_finish wr l))))"
proof -
  have g: "good_log maxBytes maxLines outBytes l" unfolding assms(1) by (intro caps.I_all good_new)
  then have f: "good_log maxBytes maxLines outBytes (fst (log_finish wr l))" using caps.I_do[of _ _ _ _ _ OFinish] by simp
  have "text_bytes (butlast (out_lines l)) \<le> text_bytes (if c_stopped (tl_stdout l) then butlast (out_lines l) else out_lines l)"
    by (cases "out_lines l" rule: rev_cases) (auto simp: text_bytes_def)
  moreover have "accounted (tl_stderr l) (err_lines l)" "within maxLines maxBytes (tl_stderr l)"
    "accounted (tl_stdout l) (out_lines l)" "within maxLines outBytes (tl_stdout l)" "tl_truncated l = c_stopped (tl_stderr l)"
    "map ln_Index (tl_put l) = map (\<lambda>i. int i + 1) [0..<length (tl_put l)]"
    "tl_lines (fst (log_finish wr l)) = length (tl_put (fst (log_finish wr l)))"
    using g f by (simp_all add: good_log_def)
  moreover have "lr_Lines (fst (snd (log_finish wr l))) = int (tl_lines (fst (log_finish wr l)))"
    by (simp add: log_finish_def Let_def)
  ultimately show ?thesis
    using accounted_within[of "tl_stderr l" "err_lines l" maxLines maxBytes]
      accounted_within[of "tl_stdout l" "out_lines l" maxLines outBytes] assms(2-4)
    by (simp add: of_bool_def split: if_splits)
qed

text \<open>A log of two lines at most, into which three are written.\<close>

definition example_log :: "string taskLog" where
  "example_log =
     fold (log_do (\<lambda>w b. (w @ b, None)))
       [OWrite 2 ''one'', OWrite 2 (CHR 0x0A # ''two'' @ [CHR 0x0A]), ONote ''three'']
       (newLog (Some []) False [] (\<lambda>i. 0) 100 2 100)"

theorem log_keeps_its_caps_witness:
  "int (length (err_lines example_log)) \<le> 2 + of_bool (tl_truncated example_log)"
  using log_keeps_its_caps[OF example_log_def] by simp

section \<open>A finished log\<close>

lemma next_line_pending: "next_line (l\<lparr>tl_pending := p\<rparr>) s t = next_line l s t"
  by (simp add: next_line_def)

lemma put_line_pending: "put_line wr ln (l\<lparr>tl_pending := p\<rparr>) = (put_line wr ln l)\<lparr>tl_pending := p\<rparr>"
  by (cases l) (simp add: put_line_def Let_def split: option.splits prod.splits)

lemma update_pending:
  "l\<lparr>tl_pending := p, tl_stderr := c\<rparr> = l\<lparr>tl_stderr := c, tl_pending := p\<rparr>"
  "l\<lparr>tl_pending := p, tl_stdout := c\<rparr> = l\<lparr>tl_stdout := c, tl_pending := p\<rparr>"
  "l\<lparr>tl_pending := p, tl_truncated := z\<rparr> = l\<lparr>tl_truncated := z, tl_pending := p\<rparr>"
  by simp_all

lemma log_stop_pending: "log_stop wr why (l\<lparr>tl_pending := p\<rparr>) = (log_stop wr why l)\<lparr>tl_pending := p\<rparr>"
  by (simp add: log_stop_def next_line_pending update_pending put_line_pending)

lemma outputEnds_pending: "outputEnds wr why (l\<lparr>tl_pending := p\<rparr>) = (outputEnds wr why l)\<lparr>tl_pending := p\<rparr>"
  by (simp add: outputEnds_def next_line_pending update_pending put_line_pending)

lemma keep_pending: "keep t (l\<lparr>tl_pending := p\<rparr>) = (keep t l)\<lparr>tl_pending := p\<rparr>"
  by (cases l) (simp add: keep_def Let_def split: prod.splits)

lemma emitOutput_pending: "emitOutput wr t (l\<lparr>tl_pending := p\<rparr>) = (emitOutput wr t l)\<lparr>tl_pending := p\<rparr>"
  by (simp add: emitOutput_def Let_def put_line_pending next_line_pending update_pending outputEnds_pending split: prod.splits)

lemma emit_pending: "emit wr s t (l\<lparr>tl_pending := p\<rparr>) = (emit wr s t l)\<lparr>tl_pending := p\<rparr>"
  by (simp add: emit_def Let_def keep_pending emitOutput_pending put_line_pending next_line_pending update_pending
      log_stop_pending split: prod.splits)

lemma pending_emit [simp]: "tl_pending (emit wr s t l) = tl_pending l"
proof -
  have "emit wr s t l = (emit wr s t l)\<lparr>tl_pending := tl_pending l\<rparr>"
    using emit_pending[where l = l and p = "tl_pending l"] by simp
  from arg_cong[OF this, of tl_pending] show ?thesis by simp
qed

text \<open>
  Once a log is finished nothing changes it any more: every later write, note and call is dropped, so what was reported of
  the log stays true of its sink.
\<close>

theorem finished_logs_are_sealed:
  "fold (log_do wr) ops (fst (log_finish wr l)) = fst (log_finish wr l)"
proof -
  let ?l = "fst (log_finish wr l)"
  have p: "tl_pending ?l 0 = []" "tl_pending ?l 1 = []" "tl_sealed ?l"
    by (auto simp: log_finish_def log_flush_def Let_def stream_index_def Stdout_def Stderr_def)
  then have "fst (log_finish wr ?l) = ?l"
    by (subst (1) log_finish_def) (simp add: log_flush_def Let_def stream_index_def Stdout_def Stderr_def)
  then have "log_do wr x ?l = ?l" for x
    using p(3) by (cases x) (auto simp: log_write_def log_note_def keepOutput_def)
  then show ?thesis by (induction ops) auto
qed


end
