(* ===== verification/Log_Secrets.thy ===== *)
theory Log_Secrets
  imports Log_Caps
begin

text \<open>
  Secrets in the log of a task: how the bytes of a stream are cut into reads does not matter to what is masked, nothing the
  container wrote shows a value the token of masking cannot bring back, and where a line is too long to be held whole the second of these is weaker than the
  comments in \<open>log.go\<close> and \<open>mask.go\<close> say.
\<close>

section \<open>How the bytes arrive does not matter\<close>

text \<open>What follows the last newline.\<close>

definition last_part :: "string \<Rightarrow> string" where
  "last_part buf = rev (takeWhile (\<lambda>c. c \<noteq> CHR 0x0A) (rev buf))"

lemma last_part_free: "CHR 0x0A \<notin> set buf \<Longrightarrow> last_part buf = buf"
proof -
  assume "CHR 0x0A \<notin> set buf"
  then have "takeWhile (\<lambda>c. c \<noteq> CHR 0x0A) (rev buf) = rev buf" by (subst takeWhile_eq_all_conv) auto
  then show ?thesis unfolding last_part_def by (metis rev_rev_ident)
qed

lemma last_part_cut: "last_part (p @ CHR 0x0A # r) = last_part r"
proof (cases "CHR 0x0A \<in> set r")
  case True
  then have "takeWhile (\<lambda>c. c \<noteq> CHR 0x0A) (rev r @ CHR 0x0A # rev p) = takeWhile (\<lambda>c. c \<noteq> CHR 0x0A) (rev r)"
    by (intro takeWhile_append1) auto
  then show ?thesis by (simp add: last_part_def)
next
  case False
  then have "takeWhile (\<lambda>c. c \<noteq> CHR 0x0A) (rev r @ CHR 0x0A # rev p) = rev r"
    by (subst takeWhile_append2) auto
  then show ?thesis using False by (simp add: last_part_free) (simp add: last_part_def)
qed

lemma complete_lines_rest: "snd (complete_lines wr s buf l) = last_part buf"
proof (induction wr s buf l rule: complete_lines.induct)
  case (1 wr s buf l)
  then show ?case
    by (subst complete_lines.simps)
      (auto simp: cut_at_None_iff last_part_free cut_at_Some last_part_cut split: option.splits)
qed

lemma complete_lines_append:
  "complete_lines wr s (x @ y) l =
   complete_lines wr s (last_part x @ y) (fst (complete_lines wr s x l))"
proof (induction wr s x l rule: complete_lines.induct)
  case (1 wr s x l)
  show ?case
  proof (cases "cut_at (CHR 0x0A) x")
    case None
    then have "complete_lines wr s x l = (l, x)" by (simp add: complete_lines.simps[of wr s x])
    then show ?thesis using None by (simp add: cut_at_None_iff last_part_free)
  next
    case (Some pr)
    then obtain p r where pr: "x = p @ CHR 0x0A # r" "CHR 0x0A \<notin> set p" "cut_at (CHR 0x0A) x = Some (p, r)"
      by (cases pr) (auto simp: cut_at_Some)
    have "cut_at (CHR 0x0A) (x @ y) = Some (p, r @ y)" using pr by (simp add: cut_at_Some)
    then have "complete_lines wr s (x @ y) l = complete_lines wr s (r @ y) (emit wr s (log_text l p) l)"
      by (subst complete_lines.simps) simp
    moreover have "complete_lines wr s x l = complete_lines wr s r (emit wr s (log_text l p) l)"
      using pr(3) by (subst complete_lines.simps) simp
    moreover have "last_part x = last_part r" using last_part_cut[of p r] pr(1) by simp
    ultimately show ?thesis using 1[OF pr(3) refl] by simp
  qed
qed

lemma complete_lines_pending:
  "complete_lines wr s buf (l\<lparr>tl_pending := p\<rparr>) =
   (let (l', r) = complete_lines wr s buf l in (l'\<lparr>tl_pending := p\<rparr>, r))"
proof (induction wr s buf l rule: complete_lines.induct)
  case (1 wr s buf l)
  then show ?case
    by (subst (1 2) complete_lines.simps) (auto simp: log_text_def emit_pending split: option.splits)
qed

lemma pending_complete_lines [simp]: "tl_pending (fst (complete_lines wr s buf l)) = tl_pending l"
proof (induction wr s buf l rule: complete_lines.induct)
  case (1 wr s buf l)
  then show ?case by (subst complete_lines.simps) (auto split: option.splits)
qed

lemma long_line_pending:
  "long_line wr s buf (l\<lparr>tl_pending := p\<rparr>) = (let (l', r) = long_line wr s buf l in (l'\<lparr>tl_pending := p\<rparr>, r))"
  by (simp add: long_line_def Let_def emit_pending)

lemma pending_long_line [simp]: "tl_pending (fst (long_line wr s buf l)) = tl_pending l"
  by (simp add: long_line_def Let_def)

lemma sealed_emit [simp]: "tl_sealed (emit wr s t l) = tl_sealed l"
  by (simp add: emit_def emitOutput_def keep_def log_stop_def outputEnds_def Let_def split: prod.splits)

lemma mask_emit [simp]: "tl_mask (emit wr s t l) = tl_mask l"
  by (simp add: emit_def emitOutput_def keep_def log_stop_def outputEnds_def Let_def split: prod.splits)

lemma log_append_sealed: "tl_sealed (log_append wr s b l) = tl_sealed l"
proof -
  have "tl_sealed (fst (complete_lines wr s buf l)) = tl_sealed l" for buf
  proof (induction wr s buf l rule: complete_lines.induct)
    case (1 wr s buf l)
    then show ?case by (subst complete_lines.simps) (auto split: option.splits)
  qed
  from this[of "tl_pending l (stream_index s) @ b"] show ?thesis
    by (auto simp: log_append_def long_line_def Let_def split: prod.splits)
qed

text \<open>
  How the bytes of a stream are cut into reads makes no difference to the log, so a value that two reads carry is masked
  as one that came whole; only a line longer than the bound at which one is written out in pieces is an exception.
\<close>

theorem reads_may_be_cut_anywhere:
  assumes "length (last_part (tl_pending l (stream_index s) @ b1)) \<le> maxLineBytes"
    "b1 \<noteq> []" "b2 \<noteq> []"
  shows "log_write wr s b2 (log_write wr s b1 l) = log_write wr s (b1 @ b2) l"
proof -
  let ?i = "stream_index s"
  let ?r1 = "last_part (tl_pending l ?i @ b1)"
  obtain l1 where c: "complete_lines wr s (tl_pending l ?i @ b1) l = (l1, ?r1)"
    by (metis complete_lines_rest prod.collapse)
  have 1: "log_append wr s b1 l = l1\<lparr>tl_pending := (tl_pending l)(?i := ?r1)\<rparr>"
    using assms pending_complete_lines[of wr s "tl_pending l ?i @ b1" l]
    by (simp add: log_append_def c long_line_def Let_def)
  have 2: "complete_lines wr s (?r1 @ b2) l1 = complete_lines wr s (tl_pending l ?i @ b1 @ b2) l"
    using complete_lines_append[of wr s "tl_pending l ?i @ b1" b2 l] c by simp
  obtain l2 r2 where l2: "complete_lines wr s (tl_pending l ?i @ b1 @ b2) l = (l2, r2)" by fastforce
  obtain l3 r3 where l3: "long_line wr s r2 l2 = (l3, r3)" by fastforce
  let ?p = "(tl_pending l)(?i := ?r1)"
  have p: "tl_pending l2 = tl_pending l" "tl_pending l3 = tl_pending l2"
    using pending_complete_lines[of wr s "tl_pending l ?i @ b1 @ b2" l] pending_long_line[of wr s r2 l2] l2 l3 by simp_all
  have "log_append wr s (b1 @ b2) l = l3\<lparr>tl_pending := (tl_pending l)(?i := r3)\<rparr>"
    using p by (simp add: log_append_def l2 l3 Let_def)
  moreover have "complete_lines wr s (?r1 @ b2) (l1\<lparr>tl_pending := ?p\<rparr>) = (l2\<lparr>tl_pending := ?p\<rparr>, r2)"
    using 2 l2 by (simp add: complete_lines_pending)
  moreover have "long_line wr s r2 (l2\<lparr>tl_pending := ?p\<rparr>) = (l3\<lparr>tl_pending := ?p\<rparr>, r3)"
    using l3 by (simp add: long_line_pending)
  ultimately have "log_append wr s b2 (log_append wr s b1 l) = log_append wr s (b1 @ b2) l"
    using p by (simp add: 1 log_append_def[of wr s b2] Let_def)
  then show ?thesis using assms(2,3) log_append_sealed[of wr s b1 l] by (auto simp: log_write_def)
qed

theorem reads_may_be_cut_anywhere_witness:
  "log_write (\<lambda>w b. (w @ b, None)) 2 ''ter2'' (log_write (\<lambda>w b. (w @ b, None)) 2 ''pw=hun'' (newLog (Some []) True [''hunter2''] (\<lambda>i. 0) 9 9 9)) =
   log_write (\<lambda>w b. (w @ b, None)) 2 ''pw=hunter2'' (newLog (Some []) True [''hunter2''] (\<lambda>i. 0) 9 9 9)"
  using reads_may_be_cut_anywhere[of "newLog (Some []) True [''hunter2''] (\<lambda>i. 0) 9 9 9" 2 "''pw=hun''" "''ter2''" "\<lambda>w b. (w @ b, None)"]
  by (simp add: newLog_def last_part_def maxLineBytes_def)

section \<open>Nothing the container wrote shows a secret\<close>

text \<open>
  What a line may say: words of the driver's own, whole or cut by a cap, and after them text in which no value
  appears. The first are its two prefixes and the sentences it writes itself.
\<close>

definition driver_words :: "string \<Rightarrow> bool" where
  "driver_words p \<longleftrightarrow> (\<exists>q. prefix p q \<and>
     (q = notePrefix \<or> q = outputPrefix \<or> (\<exists>n k. q = notePrefix @ keptNote n k) \<or>
      (\<exists>n. q \<in> {notePrefix @ linesReached n, notePrefix @ bytesReached n,
                notePrefix @ outputLinesReached n, notePrefix @ outputBytesReached n})))"

definition shown :: "masker \<Rightarrow> string \<Rightarrow> bool" where
  "shown m t \<longleftrightarrow> (\<exists>p u. t = p @ u \<and> driver_words p \<and> clean m u)"

lemma clean_sublist: "clean m t \<Longrightarrow> sublist t' t \<Longrightarrow> clean m t'"
  by (auto simp: clean_def list_all_iff intro: sublist_order.order_trans)

lemma clean_prefix: "clean m t \<Longrightarrow> prefix t' t \<Longrightarrow> clean m t'"
  by (blast intro: clean_sublist prefix_imp_sublist)

lemma clean_Nil: "[] \<notin> set m \<Longrightarrow> clean m []"
  by (auto simp: clean_def list_all_iff)

lemma driver_words_Nil: "driver_words []"
  by (auto simp: driver_words_def)

lemma driver_words_prefix: "driver_words p \<Longrightarrow> prefix p' p \<Longrightarrow> driver_words p'"
  unfolding driver_words_def
  by (elim exE conjE, rule exI, rule conjI, erule (1) prefix_order.order_trans, assumption)

lemma shown_clean: "clean m t \<Longrightarrow> shown m t"
  using driver_words_Nil by (auto simp: shown_def)

lemma shown_own: "[] \<notin> set m \<Longrightarrow> driver_words t \<Longrightarrow> shown m t"
  using clean_Nil by (auto simp: shown_def)

lemma shown_after: "driver_words p \<Longrightarrow> clean m t \<Longrightarrow> shown m (p @ t)"
  by (auto simp: shown_def)

lemma shown_prefix:
  assumes "[] \<notin> set m" "shown m t" "prefix t' t"
  shows "shown m t'"
proof -
  obtain p u where t: "t = p @ u" "driver_words p" "clean m u" using assms(2) by (auto simp: shown_def)
  then consider "prefix t' p" | u' where "t' = p @ u'" "prefix u' u" using assms(3) by (auto simp: prefix_append)
  then show ?thesis
    using t shown_own[OF assms(1)] driver_words_prefix[OF t(2)] shown_after[OF t(2)] clean_prefix[OF t(3)] by cases auto
qed

lemma own_markers:
  "driver_words (notePrefix @ linesReached n)" "driver_words (notePrefix @ bytesReached n)"
  "driver_words (notePrefix @ outputLinesReached n)" "driver_words (notePrefix @ outputBytesReached n)"
  "driver_words (notePrefix @ keptNote k j)" "driver_words notePrefix" "driver_words outputPrefix"
  by (auto simp: driver_words_def)

lemma trim_cr_prefix: "prefix (trim_cr s) s"
  by (auto simp: trim_cr_def cut_suffix_Some_iff split: option.splits)

lemma join_sublist: "p \<in> set ps \<Longrightarrow> sublist p (join_with sep ps)"
proof (induction sep ps rule: join_with.induct)
  case (3 sep q r ps)
  then show ?case by (fastforce simp: sublist_append intro: sublist_appendI)
qed auto

lemma split_on_sublist: "p \<in> set (split_on c s) \<Longrightarrow> sublist p s"
  using join_sublist[of p "split_on c s" "[c]"] by (simp add: join_split)

text \<open>The values \<open>h\<close> of a masker \<open>m\<close> that do not show are those the token cannot bring back.\<close>

definition secret_log :: "masker \<Rightarrow> 'w taskLog \<Rightarrow> bool" where
  "secret_log m l \<longleftrightarrow> list_all (\<lambda>ln. shown m (ln_Text ln)) (tl_put l) \<and> list_all (clean m) (tl_tail l)"

definition fit_to_show :: "masker \<Rightarrow> Stream \<Rightarrow> string \<Rightarrow> bool" where
  "fit_to_show m s t \<longleftrightarrow> (if s = Stdout then clean m t else shown m t)"

lemma secret_put: "secret_log m l \<Longrightarrow> shown m (ln_Text ln) \<Longrightarrow> secret_log m (put_line wr ln l)"
  by (simp add: secret_log_def)

lemma secret_counts [simp]:
  "secret_log m (l\<lparr>tl_stderr := c\<rparr>) = secret_log m l"
  "secret_log m (l\<lparr>tl_stdout := c\<rparr>) = secret_log m l"
  "secret_log m (l\<lparr>tl_truncated := z\<rparr>) = secret_log m l"
  "secret_log m (l\<lparr>tl_pending := p\<rparr>) = secret_log m l"
  "secret_log m (l\<lparr>tl_sealed := z\<rparr>) = secret_log m l"
  by (simp_all add: secret_log_def)

lemma text_next_line [simp]: "ln_Text (next_line l s t) = t"
  by (simp add: next_line_def)

lemma secret_stop:
  "secret_log m l \<Longrightarrow> shown m (notePrefix @ why) \<Longrightarrow> secret_log m (log_stop wr why l)"
  by (auto simp: log_stop_def intro!: secret_put)

lemma secret_ends:
  "secret_log m l \<Longrightarrow> shown m (notePrefix @ why) \<Longrightarrow> secret_log m (outputEnds wr why l)"
  by (auto simp: outputEnds_def intro!: secret_put)

lemma secret_keep: "secret_log m l \<Longrightarrow> clean m t \<Longrightarrow> secret_log m (keep t l)"
proof -
  assume l: "secret_log m l" "clean m t"
  have tail: "set (fst (let_go ts n)) \<subseteq> set ts" for ts n
    by (induction ts n rule: let_go.induct) auto
  have c: "clean m (cut t outputTailBytes)" using clean_prefix[OF l(2) cut_prefix_of(1)] .
  show ?thesis
    using l(1) tail[of "tl_tail l @ [cut t outputTailBytes]" "tl_tailBytes l + int (length (cut t outputTailBytes))"] c
    by (auto simp: keep_def Let_def secret_log_def list_all_iff split: prod.splits)
qed

lemma secret_emitOutput:
  assumes "[] \<notin> set m" "secret_log m l" "clean m t"
  shows "secret_log m (emitOutput wr t l)"
proof -
  obtain t' whole room where f: "fit t (tl_outBytes l) (c_bytes (tl_stdout l)) = (t', whole, room)" by (metis prod_cases3)
  have "shown m t'" if room using fit_spec(1)[OF f that] assms(3) by (blast intro: shown_clean clean_prefix)
  then show ?thesis
    using assms f shown_own[OF assms(1)] own_markers
    by (auto simp: emitOutput_def Let_def intro!: secret_put secret_ends)
qed

lemma secret_emit:
  assumes "[] \<notin> set m" "secret_log m l" "fit_to_show m s t"
  shows "secret_log m (emit wr s t l)"
proof (cases "s = Stdout")
  case True
  then show ?thesis
    using assms secret_emitOutput[OF assms(1) secret_keep] by (simp add: emit_def fit_to_show_def)
next
  case False
  obtain t' whole room where f: "fit t (tl_maxBytes l) (c_bytes (tl_stderr l)) = (t', whole, room)" by (metis prod_cases3)
  have "shown m t'" if room
    using fit_spec(1)[OF f that] assms(1,3) False by (auto simp: fit_to_show_def intro: shown_prefix)
  then show ?thesis
    using assms(1,2) f shown_own[OF assms(1)] own_markers False
    by (auto simp: emit_def Let_def intro!: secret_put secret_stop)
qed

lemma masked_to_show:
  assumes "[] \<notin> set m"
  shows "sublist t (mask m b) \<Longrightarrow> fit_to_show (filter maskable m) s t"
  using clean_sublist[OF mask_clean_maskable[OF assms]] shown_clean by (auto simp: fit_to_show_def)

definition secret_invariant :: "masker \<Rightarrow> 'w taskLog \<Rightarrow> bool" where
  "secret_invariant m l \<longleftrightarrow> [] \<notin> set m \<and> tl_mask l = m \<and> secret_log (filter maskable m) l"

interpretation secrets: log_invariant wr "secret_invariant m" "\<lambda>l. fit_to_show (filter maskable m)" for wr m
proof (unfold_locales, goal_cases)
  case (1 l s t)
  then show ?case using secret_emit[of "filter maskable m" l s t wr] by (simp add: secret_invariant_def)
next
  case (6 l)
  then show ?case by (simp add: secret_invariant_def secret_log_def)
next
  case (7 l s b)
  then show ?case
    using masked_to_show[of m "log_text l b" b s] prefix_imp_sublist[OF trim_cr_prefix, of "mask m b"]
    by (simp add: secret_invariant_def secret_log_def log_text_def)
next
  case (8 l s n b)
  then show ?case
    using masked_to_show[of m "take n (mask m b)" b s] by (simp add: secret_invariant_def secret_log_def)
next
  case (9 l p b)
  then have "clean (filter maskable m) p"
    using split_on_sublist[of p] mask_clean_maskable[of m b] clean_sublist[of "filter maskable m" "mask m b" p]
    by (auto simp: secret_invariant_def secret_log_def maskString_mask)
  then have "clean (filter maskable m) (trim_cr p)" using clean_prefix trim_cr_prefix by blast
  then show ?case using shown_after[OF own_markers(6)] by (simp add: fit_to_show_def Stdout_def Stderr_def)
next
  case (10 l n k)
  then show ?case
    using shown_own[OF _ own_markers(5)] by (simp add: secret_invariant_def fit_to_show_def Stdout_def Stderr_def)
next
  case (11 l t)
  then show ?case
    using shown_after[OF own_markers(7)]
    by (simp add: secret_invariant_def secret_log_def list_all_iff fit_to_show_def Stdout_def Stderr_def)
qed (auto simp: secret_invariant_def)

text \<open>
  C33: whatever a container writes on either stream, in whatever pieces, and whatever the driver notes, every line put in the
  log is words of the driver's own and after them text in which no value the task was given appears, of those the token of masking
  cannot bring back: values that hold no bracket and are no piece of the word \<open>masked\<close>. The other values a task may have
  been given make no difference to these.
\<close>

theorem log_shows_no_secret:
  "list_all (\<lambda>ln. shown (filter maskable (newMasker vals)) (ln_Text ln))
     (tl_put (fold (log_do wr) ops (newLog w alone (newMasker vals) clock maxBytes maxLines outBytes)))"
proof -
  have "secret_invariant (newMasker vals) (newLog w alone (newMasker vals) clock maxBytes maxLines outBytes)"
    using set_newMasker[of vals] by (simp add: secret_invariant_def secret_log_def newLog_def)
  from secrets.I_all[OF this, where wr = wr and ops = ops] show ?thesis
    by (simp add: secret_invariant_def secret_log_def)
qed

text \<open>A value with a bracket beside a password: the password is gone all the same.\<close>

theorem log_shows_no_secret_witness:
  "list_all (\<lambda>ln. shown [''hunter2''] (ln_Text ln))
     (tl_put (fold (log_do (\<lambda>w b. (w @ b, None))) [OWrite 1 ''pw=hun'', ONote ''hunter2'', OWrite 1 ''ter2'', OKeepOutput, OFinish]
        (newLog (Some []) True (newMasker [''hunter2'', '']x'']) (\<lambda>i. 0) 1000 100 1000)))"
proof -
  have "trim_space ''hunter2'' = ''hunter2''" "trim_space '']x'' = '']x''" by code_simp+
  then have f: "filter maskable (newMasker [''hunter2'', '']x'']) = [''hunter2'']"
    by (simp add: newMasker_def add_value_def maskable_def sublist_Cons_right)
  from log_shows_no_secret[of "[''hunter2'', '']x'']"] show ?thesis unfolding f .
qed

section \<open>A value cut by the end of a long line\<close>

lemma sublist_replicate: "c \<noteq> x \<Longrightarrow> sublist (c # v) (replicate n x @ r) = sublist (c # v) r"
  by (induction n) (auto simp: sublist_Cons_right)

lemma replace_all_replicate:
  "c \<noteq> x \<Longrightarrow> replace_all (c # v) t (replicate n x @ r) = replicate n x @ replace_all (c # v) t r"
  by (induction n) auto

lemma replace_all_none: "\<not> sublist v s \<Longrightarrow> replace_all v t s = s"
  by (induction v t s rule: replace_all.induct) (auto simp: sublist_Cons_right)

text \<open>A value that occurs at one place is replaced there.\<close>

definition once_in :: "string \<Rightarrow> string \<Rightarrow> string \<Rightarrow> bool" where
  "once_in p a v \<longleftrightarrow> (\<forall>u w. v = u @ p @ w \<longrightarrow> u = a)"

lemma once_around:
  assumes "once_in p a (a @ p @ b)" "p \<noteq> []"
  shows "\<not> sublist p a" "\<not> sublist p b"
proof -
  have u: "u = a" if "a @ p @ b = u @ p @ w" for u w using assms(1) that by (auto simp: once_in_def)
  show "\<not> sublist p a"
  proof
    assume "sublist p a"
    then obtain y z where "a = y @ p @ z" by (auto simp: sublist_def)
    with u[of y "z @ p @ b"] have "length a = length y + length p + length z" "y = a" by simp_all
    then show False using assms(2) by simp
  qed
  show "\<not> sublist p b"
  proof
    assume "sublist p b"
    then obtain y z where "b = y @ p @ z" by (auto simp: sublist_def)
    with u[of "a @ p @ y" z] show False using assms(2) by simp
  qed
qed

lemma once_prefix: "once_in p a (a @ p @ b1 @ b2) \<Longrightarrow> once_in p a (a @ p @ b1)"
  by (auto simp: once_in_def) (metis append.assoc)

lemma replace_once:
  assumes "once_in p a (a @ p @ b)" "p \<noteq> []"
  shows "replace_all p t (a @ p @ b) = a @ t @ b"
  using assms(1)
proof (induction a)
  case Nil
  have "\<not> sublist p b" using once_around(2)[OF Nil assms(2)] .
  then have "replace_all p t (drop (length p - 1) (tl p @ b)) = b" using assms(2) replace_all_none by (cases p) simp_all
  then show ?case using assms(2) by (cases p) simp_all
next
  case (Cons c a)
  have "\<not> prefix p (c # a @ p @ b)"
    using Cons(2) unfolding once_in_def prefix_def by (metis append_Cons append_Nil list.distinct(1))
  moreover have "once_in p a (a @ p @ b)"
    using Cons(2) unfolding once_in_def by (metis append_Cons list.inject)
  ultimately show ?case using Cons(1) by simp
qed

lemma mask_one_none: "\<not> sublist v s \<Longrightarrow> mask_one v s = s"
  by (simp add: mask_one_def)

lemma mask_one_once: "once_in p a (a @ p @ b) \<Longrightarrow> p \<noteq> [] \<Longrightarrow> mask_one p (a @ p @ b) = a @ maskToken @ b"
  using replace_once by (auto simp: mask_one_def)

lemma complete_none: "CHR 0x0A \<notin> set buf \<Longrightarrow> complete_lines wr s buf l = (l, buf)"
  by (subst complete_lines.simps) (simp add: cut_at_None_iff[THEN iffD2])

lemma complete_one:
  "CHR 0x0A \<notin> set p \<Longrightarrow> complete_lines wr s (p @ [CHR 0x0A]) l = (emit wr s (log_text l p) l, [])"
  by (subst complete_lines.simps) (simp add: cut_at_append complete_none)

lemma emit_uncapped:
  assumes "tl_w l = None" "tl_maxLines l = 0" "tl_maxBytes l = 0" "\<not> c_stopped (tl_stderr l)"
  shows "tl_put (emit wr Stderr t l) = tl_put l @ [next_line l Stderr t]"
    "tl_w (emit wr Stderr t l) = None" "tl_maxLines (emit wr Stderr t l) = 0" "tl_maxBytes (emit wr Stderr t l) = 0"
    "\<not> c_stopped (tl_stderr (emit wr Stderr t l))"
  using assms by (simp_all add: emit_def fit_def put_line_def Let_def Stdout_def Stderr_def count_line_def)

lemma trim_cr_none: "s \<noteq> [] \<Longrightarrow> last s \<noteq> CHR 0x0D \<Longrightarrow> trim_cr s = s"
  by (auto simp: trim_cr_def cut_suffix_Some_iff split: option.splits)

lemma write_line:
  assumes "CHR 0x0A \<notin> set (tl_pending l 1 @ b)" "\<not> tl_sealed l"
  shows "log_write wr Stderr (b @ [CHR 0x0A]) l =
    (emit wr Stderr (log_text l (tl_pending l 1 @ b)) l)\<lparr>tl_pending := (tl_pending l)(1 := [])\<rparr>"
  using complete_one[OF assms(1), of wr Stderr l] assms(2)
  by (simp add: log_write_def log_append_def long_line_def Let_def stream_index_def Stdout_def Stderr_def)

lemma write_part:
  assumes "CHR 0x0A \<notin> set (tl_pending l 1 @ b)" "\<not> tl_sealed l" "b \<noteq> []" "long_line wr Stderr (tl_pending l 1 @ b) l = (l', r)"
  shows "log_write wr Stderr b l = l'\<lparr>tl_pending := (tl_pending l')(1 := r)\<rparr>"
  using complete_none[OF assms(1), of wr Stderr l] assms(2-4)
  by (simp add: log_write_def log_append_def Let_def stream_index_def Stdout_def Stderr_def)

lemma long_line_cut:
  "maxLineBytes < length buf \<Longrightarrow> mask (tl_mask l) buf = m \<Longrightarrow> hold (tl_mask l) \<le> length buf \<Longrightarrow> hold (tl_mask l) \<le> length m \<Longrightarrow>
   0 < length m - hold (tl_mask l) \<Longrightarrow>
   long_line wr s buf l = (emit wr s (take (length m - hold (tl_mask l)) m) l, drop (length m - hold (tl_mask l)) m)"
  by (auto simp: long_line_def Let_def)

text \<open>
  The line: a run of one character as long as the bound at which a line is written out in pieces, the start of the value,
  its part, and what of the rest arrived with them.
\<close>

lemma value_cut:
  assumes "v = a @ p @ b1 @ b2" "b2 \<noteq> []" "p \<noteq> []" "once_in p a v" "maskable p" "x \<notin> set v"
  shows "fold mask_one [v, p] (replicate n x @ a @ p @ b1) = replicate n x @ a @ maskToken @ b1"
    and "suffix t (replicate n x @ a @ maskToken @ b1 @ b2) \<Longrightarrow> fold mask_one [v, p] t = t"
    and "fold mask_one [v, p] v = maskToken"
proof -
  obtain c p' where p: "p = c # p'" using assms(3) by (cases p) auto
  then have cx: "c \<noteq> x" using assms(1,6) by auto
  have "v \<noteq> []" using assms(1,3) by simp
  then obtain d v' where v: "v = d # v'" by (metis neq_Nil_conv)
  then have dx: "d \<noteq> x" using assms(6) by auto
  have "\<not> sublist v (a @ p @ b1)" using assms(1,2) sublist_length_le[of v "a @ p @ b1"] by auto
  then have nv: "\<not> sublist v (replicate n x @ a @ p @ b1)" using sublist_replicate[OF dx, of v' n] v by simp
  have o: "once_in p a (a @ p @ b1)" using assms(1,4) once_prefix by blast
  have "replace_all p maskToken (replicate n x @ a @ p @ b1) = replicate n x @ a @ maskToken @ b1"
    using replace_all_replicate[OF cx, of p' maskToken n "a @ p @ b1"] replace_once[OF o assms(3)] p by simp
  moreover have "sublist p (replicate n x @ a @ p @ b1)" by (metis append.assoc sublist_appendI)
  ultimately show "fold mask_one [v, p] (replicate n x @ a @ p @ b1) = replicate n x @ a @ maskToken @ b1"
    using mask_one_none[OF nv] by (simp add: mask_one_def)
  have around: "\<not> sublist p a" "\<not> sublist p (b1 @ b2)" using once_around[of p a "b1 @ b2"] assms(1,3,4) by auto
  have np: "\<not> sublist p (replicate n x @ a @ maskToken @ b1 @ b2)"
  proof
    assume "sublist p (replicate n x @ a @ maskToken @ b1 @ b2)"
    then have "sublist p ((replicate n x @ a) @ CHR ''['' # ''masked'' @ CHR '']'' # b1 @ b2)" by (simp add: maskToken_def)
    then have "sublist p (replicate n x @ a) \<or> sublist p (''masked'' @ CHR '']'' # b1 @ b2)"
      by (rule sublist_between) (use assms(5) in \<open>simp add: maskable_def\<close>)
    then show False
      using sublist_between[of p "''masked''" "CHR '']''" "b1 @ b2"] sublist_replicate[OF cx, of p' n a] p around assms(5)
      by (auto simp: maskable_def)
  qed
  have pv: "sublist p v" using assms(1) by (metis sublist_appendI)
  have vt: "\<not> sublist v t" "\<not> sublist p t" if "suffix t (replicate n x @ a @ maskToken @ b1 @ b2)" for t
    using np pv suffix_imp_sublist[OF that] sublist_order.order_trans by blast+
  show "fold mask_one [v, p] t = t" if "suffix t (replicate n x @ a @ maskToken @ b1 @ b2)"
    using vt[OF that] by (simp add: mask_one_none)
  have "u = []" if "v = u @ v @ w" for u w
    using arg_cong[OF that, of length] by simp
  then have "once_in v [] ([] @ v @ [])" by (simp add: once_in_def)
  then have "mask_one v v = maskToken" using mask_one_once[of v "[]" "[]"] v by simp
  moreover have "\<not> sublist p maskToken" using sublist_token[OF assms(5), of "[]"] assms(3) by auto
  ultimately show "fold mask_one [v, p] v = maskToken" by (simp add: mask_one_none)
qed

text \<open>A log as it starts, with no sink and no caps.\<close>

definition plain_log :: "masker \<Rightarrow> 'w taskLog \<Rightarrow> bool" where
  "plain_log m l \<longleftrightarrow> tl_mask l = m \<and> tl_w l = None \<and> tl_maxLines l = 0 \<and> tl_maxBytes l = 0 \<and> \<not> c_stopped (tl_stderr l) \<and>
     tl_put l = [] \<and> \<not> tl_sealed l \<and> tl_pending l = (\<lambda>i. [])"

lemma plain_logD:
  assumes "plain_log m l"
  shows "tl_mask l = m" "tl_w l = None" "tl_maxLines l = 0" "tl_maxBytes l = 0" "\<not> c_stopped (tl_stderr l)" "tl_put l = []"
    "\<not> tl_sealed l" "tl_pending l = (\<lambda>i. [])"
  using assms by (simp_all add: plain_log_def)

lemma held_line_put:
  assumes "plain_log m l" "CHR 0x0A \<notin> set b"
  shows "map ln_Text (tl_put (log_write wr Stderr (b @ [CHR 0x0A]) l)) = [log_text l b]"
proof -
  note l = plain_logD[OF assms(1)]
  have "log_write wr Stderr (b @ [CHR 0x0A]) l = (emit wr Stderr (log_text l b) l)\<lparr>tl_pending := (\<lambda>i. [])(1 := [])\<rparr>"
    using write_line[of l b wr] assms(2) l(7,8) by simp
  then show ?thesis using emit_uncapped(1)[OF l(2-5)] l(6) by simp
qed

text \<open>A line written in two parts, cut after the first: what is put is what the first was masked to, and the second as it came.\<close>

lemma cut_line_put:
  fixes wr :: "'w sink" and l :: "'w taskLog"
  assumes "plain_log m l" "CHR 0x0A \<notin> set buf" "maxLineBytes < length buf" "hold m \<le> length buf" "hold m < length (mask m buf)"
    and "rest = drop (length (mask m buf) - hold m) (mask m buf)" "CHR 0x0A \<notin> set (rest @ b)" "trim_cr (mask m (rest @ b)) = rest @ b"
  shows "concat (map ln_Text (tl_put (log_write wr Stderr (b @ [CHR 0x0A]) (log_write wr Stderr buf l)))) = mask m buf @ b"
proof -
  define piece where "piece = take (length (mask m buf) - hold m) (mask m buf)"
  note l = plain_logD[OF assms(1)]
  have ll: "long_line wr Stderr buf l = (emit wr Stderr piece l, rest)"
    using long_line_cut[of buf l "mask m buf" wr Stderr] assms(3-5) by (simp add: l(1) piece_def assms(6))
  define l1 where "l1 = (emit wr Stderr piece l)\<lparr>tl_pending := (\<lambda>i. [])(1 := rest)\<rparr>"
  have "buf \<noteq> []" using assms(3) by auto
  then have w1: "log_write wr Stderr buf l = l1"
    using write_part[of l buf wr "emit wr Stderr piece l" rest] ll l(7,8) assms(2) by (simp add: l1_def)
  have l1: "tl_pending l1 = (\<lambda>i. [])(1 := rest)" "\<not> tl_sealed l1" "tl_mask l1 = m" "tl_w l1 = None" "tl_maxLines l1 = 0"
    "tl_maxBytes l1 = 0" "\<not> c_stopped (tl_stderr l1)" "map ln_Text (tl_put l1) = [piece]"
    using emit_uncapped[OF l(2-5), of wr piece] l(1,6,7) by (simp_all add: l1_def)
  have "log_write wr Stderr (b @ [CHR 0x0A]) l1 =
      (emit wr Stderr (log_text l1 (tl_pending l1 1 @ b)) l1)\<lparr>tl_pending := (tl_pending l1)(1 := [])\<rparr>"
    by (rule write_line) (use l1 assms(7) in simp_all)
  moreover have "log_text l1 (rest @ b) = rest @ b" using assms(8) by (simp only: log_text_def l1(3))
  ultimately have "map ln_Text (tl_put (log_write wr Stderr (b @ [CHR 0x0A]) l1)) = [piece, rest @ b]"
    using emit_uncapped(1)[OF l1(4-7), of wr "rest @ b"] l1(1,8) by simp
  moreover have "piece @ rest = mask m buf" by (simp add: piece_def assms(6))
  ultimately show ?thesis by (simp add: w1)
qed

text \<open>
  C35: a value that another value is a part of, where a line too long to be held whole ends inside it after the part has arrived: the
  part is masked before the rest of the value arrives, so the value is never matched, and what is around the part goes out in the
  clear, where a line that holds the value whole has it masked. So it is whichever the two values of a masker are, where the part
  occurs at one place of the other and is none the token can bring back, and wherever after the part the line was cut.
\<close>

theorem long_lines_break_a_value_apart:
  fixes wr :: "'w sink"
  assumes "newMasker vals = [v, p]" "v = a @ p @ b1 @ b2" "b2 \<noteq> []" "once_in p a v" "maskable p"
    and "CHR 0x0A \<notin> set v" "last v \<noteq> CHR 0x0D" "x \<notin> set v" "x \<noteq> CHR 0x0A" "maxLineBytes \<le> n" "length v \<le> n"
  shows "map ln_Text (tl_put (log_write wr Stderr (v @ [CHR 0x0A]) (newLog None False (newMasker vals) clock 0 0 0))) = [''[masked]''] \<and>
    concat (map ln_Text (tl_put (log_write wr Stderr (b2 @ [CHR 0x0A])
      (log_write wr Stderr (replicate n x @ a @ p @ b1) (newLog None False (newMasker vals) clock 0 0 0))))) =
    replicate n x @ a @ ''[masked]'' @ b1 @ b2"
proof -
  let ?m = "newMasker vals" and ?buf = "replicate n x @ a @ p @ b1" and ?masked = "replicate n x @ a @ maskToken @ b1"
  define rest where "rest = drop (length ?masked - hold ?m) ?masked"
  have "[] \<notin> set (newMasker vals)" by (simp add: set_newMasker)
  then have p: "p \<noteq> []" using assms(1) by auto
  note cut = value_cut[OF assms(2,3) p assms(4,5,8)]
  have l: "plain_log ?m (newLog None False ?m clock 0 0 0 :: 'w taskLog)" by (simp add: plain_log_def newLog_def)
  have mask: "mask ?m t = fold mask_one [v, p] t" for t by (simp add: mask_def mask_one_def assms(1))
  have whole: "trim_cr (mask ?m v) = ''[masked]''" using cut(3) by (simp only: mask trim_cr_none) (simp add: trim_cr_none maskToken_def)
  have m: "mask ?m ?buf = ?masked" unfolding mask by (rule cut(1))
  have pos: "0 < length p" "0 < length b2" using p assms(3) by simp_all
  have "length v = length a + length p + length b1 + length b2" "hold ?m = length v - 1" using assms(1,2) by (simp_all add: hold_def)
  then have lens: "maxLineBytes < length ?buf" "hold ?m \<le> length ?buf" "hold ?m < length ?masked"
    using pos assms(10,11) by (simp_all add: maskToken_def del: length_greater_0_conv)
  have nl: "CHR 0x0A \<notin> set ?buf" using assms(2,6,9) by auto
  have "suffix (rest @ b2) (?masked @ b2)" unfolding rest_def same_suffix_suffix by (rule suffix_drop)
  then have "fold mask_one [v, p] (rest @ b2) = rest @ b2" by (intro cut(2)) simp
  moreover have t: "rest @ b2 \<noteq> []" "last (rest @ b2) \<noteq> CHR 0x0D" "CHR 0x0A \<notin> set (rest @ b2)"
    using assms(2,3,6,7,9) by (auto simp: rest_def maskToken_def dest!: in_set_dropD)
  ultimately have "trim_cr (mask ?m (rest @ b2)) = rest @ b2" by (simp only: mask trim_cr_none not_False_eq_True)
  from cut_line_put[OF l nl lens(1,2) lens(3)[folded m] _ t(3) this, of wr] show ?thesis
    using held_line_put[OF l assms(6), of wr] whole unfolding m rest_def by (simp add: log_text_def newLog_def maskToken_def)
qed

text \<open>A password, and the address of a database with the password in it.\<close>

lemma address_masker: "newMasker [''pw'', ''u:pw@host''] = [''u:pw@host'', ''pw'']"
proof -
  have "trim_space ''pw'' = ''pw''" "trim_space ''u:pw@host'' = ''u:pw@host''" by code_simp+
  then show ?thesis by (simp add: newMasker_def add_value_def)
qed

lemma address_once: "once_in ''pw'' ''u:'' ''u:pw@host''"
  by (auto simp: once_in_def Cons_eq_append_conv)

theorem long_lines_break_a_value_apart_witness:
  "map ln_Text (tl_put (log_write (\<lambda>w b. (w, None)) Stderr (''u:pw@host'' @ [CHR 0x0A])
     (newLog None False (newMasker [''pw'', ''u:pw@host'']) (\<lambda>i. 0) 0 0 0 :: unit taskLog))) = [''[masked]''] \<and>
   concat (map ln_Text (tl_put (log_write (\<lambda>w b. (w, None)) Stderr (''host'' @ [CHR 0x0A])
     (log_write (\<lambda>w b. (w, None)) Stderr (replicate maxLineBytes CHR ''x'' @ ''u:'' @ ''pw'' @ ''@'')
       (newLog None False (newMasker [''pw'', ''u:pw@host'']) (\<lambda>i. 0) 0 0 0 :: unit taskLog))))) =
   replicate maxLineBytes CHR ''x'' @ ''u:'' @ ''[masked]'' @ ''@'' @ ''host''"
proof (rule long_lines_break_a_value_apart[OF address_masker])
  show "once_in ''pw'' ''u:'' ''u:pw@host''" by (rule address_once)
  show "maskable ''pw''" by (simp add: maskable_def sublist_Cons_right)
qed (simp_all add: maxLineBytes_def)

end
