(* ===== verification/Audit_Trail.thy ===== *)
theory Audit_Trail
  imports Calendar Bytes "HOL-Library.Sublist"
begin

text \<open>
  Package \<open>audit\<close>, \<open>audit.go\<close>, the cursor of \<open>export.go\<close> and \<open>through.go\<close>: what an entry of the audit log is, the hash that chains
  it to the one before, how a chain is verified, what the export sends and what a receiver checks. SHA-256 is the argument \<open>H\<close>.
  The lines of an export are taken as the entries they decode to.
\<close>

section \<open>Records\<close>

record audit_record =
  ar_Actor :: string
  ar_Action :: string
  ar_Target :: string
  ar_Result :: string
  ar_Detail :: "(string, json) gomap option"

definition Done :: string where "Done = ''done''"
definition Unchanged :: string where "Unchanged = ''unchanged''"

text \<open>The actions the package names.\<close>

definition actions :: "string list" where
  "actions =
    [''run.trigger'', ''run.cancel'', ''secret.write'', ''secret.delete'', ''runner_pool.create'',
     ''join_token.issue'', ''runner.join'', ''runner.drain'', ''runner.revoke'', ''namespace.create'',
     ''namespace.delete'', ''namespace.update'', ''namespace.rename'', ''namespace.avatar'', ''grant.create'',
     ''grant.delete'', ''user.create'', ''user.delete'', ''enrolment.issue'', ''user.profile'',
     ''user.avatar'', ''user.update'', ''user.rename'', ''group.create'', ''group.delete'',
     ''group_member.add'', ''group_member.remove'', ''service_account.create'', ''service_account.delete'', ''api_token.create'',
     ''api_token.revoke'', ''credential.enrol'', ''credential.remove'', ''enrolment.use'', ''bootstrap.end'',
     ''signin.succeed'', ''signin.fail'', ''policy.change'', ''image.pin'', ''image.manifest'',
     ''ref.update'', ''push.refuse'', ''workflow.create'', ''workflow.update'', ''workflow.delete'',
     ''ref.protect'', ''trigger.arm'', ''trigger.disarm'', ''webhook_credential.write'', ''variable.write'',
     ''variable.delete'']"

datatype record_error = NobodyActed | NoKind | DoneToNothing string | OtherOutcome string string

definition record_Check :: "audit_record \<Rightarrow> record_error option" where
  "record_Check r =
     (if ar_Actor r = [] then Some NobodyActed
      else if ar_Action r = [] then Some NoKind
      else if ar_Target r = [] then Some (DoneToNothing (ar_Action r))
      else if ar_Result r \<noteq> Done \<and> ar_Result r \<noteq> Unchanged then Some (OtherOutcome (ar_Action r) (ar_Result r))
      else None)"

definition DetailText :: "audit_record \<Rightarrow> string" where
  "DetailText r = (case ar_Detail r of None \<Rightarrow> ''{}'' | Some d \<Rightarrow> encode True (JObj d))"

text \<open>A context carries the tool of an MCP server an act was asked for by, or none.\<close>

definition Marked :: "string option \<Rightarrow> audit_record \<Rightarrow> audit_record" where
  "Marked ctx r =
     (case ctx of
        None \<Rightarrow> r
      | Some tool \<Rightarrow>
          let detail = (case ar_Detail r of None \<Rightarrow> [] | Some d \<Rightarrow> d);
              detail = (if map_of detail ''through'' = None then AList.update ''through'' (JStr ''mcp'') detail else detail);
              detail = (if map_of detail ''tool'' = None then AList.update ''tool'' (JStr tool) detail else detail)
          in r\<lparr>ar_Detail := Some detail\<rparr>)"

section \<open>The chain\<close>

definition HashSize :: nat where "HashSize = 32"

definition Genesis :: string where "Genesis = replicate HashSize (CHR 0x00)"

record audit_entry =
  ae_Seq :: int
  ae_At :: time
  ae_Actor :: string
  ae_Action :: string
  ae_Namespace :: string
  ae_Target :: string
  ae_Result :: string
  ae_Detail :: string
  ae_PrevHash :: string
  ae_Hash :: string

definition Moment :: "time \<Rightarrow> string" where
  "Moment t =
     (let secs = t div 1000000000; ns = t mod 1000000000;
          days = secs div 86400; sod = secs mod 86400;
          (y, yd) = year_day days; (mo, da) = month_day (months y) 1 yd
      in (if y < 0 then CHR ''-'' # pad 4 (- y) else pad 4 y) @ ''-'' @ pad 2 mo @ ''-'' @ pad 2 da @ ''T'' @
         pad 2 (sod div 3600) @ '':'' @ pad 2 (sod mod 3600 div 60) @ '':'' @ pad 2 (sod mod 60) @ ''.'' @
         pad 6 (ns div 1000) @ ''Z'')"

definition hashed_field :: "string \<Rightarrow> string" where
  "hashed_field f = big_endian 4 (length f mod 2 ^ 32) @ f"

definition hashed_fields :: "audit_entry \<Rightarrow> string list" where
  "hashed_fields e =
     [Moment (ae_At e), ae_Actor e, ae_Action e, ae_Namespace e, ae_Target e, ae_Result e, ae_Detail e]"

definition hashed :: "audit_entry \<Rightarrow> string" where
  "hashed e =
     ''agentiik audit 1'' @ ae_PrevHash e @ big_endian 8 (nat (ae_Seq e mod 2 ^ 64)) @
     concat (map hashed_field (hashed_fields e))"

definition Sum :: "(string \<Rightarrow> string) \<Rightarrow> audit_entry \<Rightarrow> string" where
  "Sum H e = H (hashed e)"

datatype break_why =
    NextIsNotThere int
  | DoesNotFollow
  | WasChanged
  | Differs nat
  | LastWereRemoved int int
  | NotTheHead

datatype Break = Break int break_why

record Chain =
  ch_seq :: int
  ch_hash :: "string option"

definition chain_From :: "int \<Rightarrow> string \<Rightarrow> Chain" where
  "chain_From seq hash = \<lparr>ch_seq = seq, ch_hash = Some hash\<rparr>"

definition zero_chain :: Chain where
  "zero_chain = \<lparr>ch_seq = 0, ch_hash = None\<rparr>"

definition chain_prev :: "Chain \<Rightarrow> string" where
  "chain_prev c = (case ch_hash c of None \<Rightarrow> Genesis | Some h \<Rightarrow> h)"

definition chain_Next :: "(string \<Rightarrow> string) \<Rightarrow> audit_entry \<Rightarrow> Chain \<Rightarrow> (Break, Chain) result" where
  "chain_Next H e c =
     (if ae_Seq e \<noteq> ch_seq c + 1 then Inl (Break (ch_seq c + 1) (NextIsNotThere (ae_Seq e)))
      else if ae_PrevHash e \<noteq> chain_prev c then Inl (Break (ae_Seq e) DoesNotFollow)
      else if ae_Hash e \<noteq> Sum H e then Inl (Break (ae_Seq e) WasChanged)
      else Inr \<lparr>ch_seq = ae_Seq e, ch_hash = Some (ae_Hash e)\<rparr>)"

definition chain_Last :: "Chain \<Rightarrow> int \<times> string" where
  "chain_Last c = (ch_seq c, chain_prev c)"

definition chain_run :: "(string \<Rightarrow> string) \<Rightarrow> audit_entry list \<Rightarrow> Chain \<Rightarrow> (Break, Chain) result" where
  "chain_run H es c = rfold (chain_Next H) es c"

definition Verify :: "(string \<Rightarrow> string) \<Rightarrow> audit_entry list \<Rightarrow> Break option" where
  "Verify H es = (case chain_run H es zero_chain of Inl b \<Rightarrow> Some b | Inr _ \<Rightarrow> None)"

section \<open>The export\<close>

text \<open>
  \<open>Once\<close> is given what the log answers for the cursor (\<open>Exported\<close>) and for the entries after it (\<open>After\<close>), what the sink answers
  when entries are sent and whether the cursor could be moved. It answers the count and the error it returns, what was
  sent to the sink, and the cursor it asked to be moved to, where that was done.
\<close>

datatype export_error = SourceFailed string | SinkRefused string | CursorFailed string | ChainBroke Break

record once_result =
  on_count :: nat
  on_err :: "export_error option"
  on_sent :: "audit_entry list"
  on_cursor :: "(int \<times> string) option"

fun before_break :: "(string \<Rightarrow> string) \<Rightarrow> audit_entry list \<Rightarrow> Chain \<Rightarrow> audit_entry list \<times> Chain \<times> Break option" where
  "before_break H [] c = ([], c, None)"
| "before_break H (e # es) c =
     (case chain_Next H e c of
        Inl b \<Rightarrow> ([], c, Some b)
      | Inr c' \<Rightarrow> let (es', c'', b) = before_break H es c' in (e # es', c'', b))"

definition Once :: "(string \<Rightarrow> string) \<Rightarrow> (string, int \<times> string) result \<Rightarrow> (string, audit_entry list) result \<Rightarrow>
    (audit_entry list \<Rightarrow> string option) \<Rightarrow> string option \<Rightarrow> once_result" where
  "Once H Exported After send MarkExported =
     (let stop = (\<lambda>err. \<lparr>on_count = 0, on_err = err, on_sent = [], on_cursor = None\<rparr>) in
      case Exported of
        Inl e \<Rightarrow> stop (Some (SourceFailed e))
      | Inr (seq, hash) \<Rightarrow>
      (case After of
         Inl e \<Rightarrow> stop (Some (SourceFailed e))
       | Inr entries0 \<Rightarrow>
      (let (es, chain, broke) = before_break H entries0 (chain_From seq hash) in
       if es = [] then stop (map_option ChainBroke broke)
       else case send es of
         Some e \<Rightarrow> \<lparr>on_count = 0, on_err = Some (SinkRefused e), on_sent = es, on_cursor = None\<rparr>
       | None \<Rightarrow>
         (case MarkExported of
            Some e \<Rightarrow> \<lparr>on_count = 0, on_err = Some (CursorFailed e), on_sent = es, on_cursor = None\<rparr>
          | None \<Rightarrow> \<lparr>on_count = length es, on_err = map_option ChainBroke broke, on_sent = es,
                     on_cursor = Some (chain_Last chain)\<rparr>))))"

text \<open>
  What a receiver checks: the entries it wrote down, some perhaps twice and out of order. The map by number keeps the
  entries in the order their numbers first came.
\<close>

datatype export_check = NoEntry | ExportBreak Break

fun by_seq :: "(string \<Rightarrow> string) \<Rightarrow> nat \<Rightarrow> audit_entry list \<Rightarrow> (int, audit_entry) gomap \<Rightarrow> (export_check, (int, audit_entry) gomap) result" where
  "by_seq H line [] m = Inr m"
| "by_seq H line (e # es) m =
     (case map_of m (ae_Seq e) of
        Some seen \<Rightarrow>
          if ae_Hash seen \<noteq> ae_Hash e \<or> Sum H seen \<noteq> Sum H e then Inl (ExportBreak (Break (ae_Seq e) (Differs line)))
          else by_seq H (line + 1) es m
      | None \<Rightarrow> by_seq H (line + 1) es (AList.update (ae_Seq e) e m))"

definition VerifyExport :: "(string \<Rightarrow> string) \<Rightarrow> audit_entry list \<Rightarrow> (export_check, int \<times> int) result" where
  "VerifyExport H lines =
     rbind (by_seq H 1 lines []) (\<lambda>m.
     if m = [] then Inl NoEntry
     else let es = map (\<lambda>k. the (map_of m k)) (sorted_keys m);
              first = hd es;
              chain = (if ae_Seq first = 1 then chain_From 0 Genesis
                       else chain_From (ae_Seq first - 1) (ae_PrevHash first))
          in case chain_run H es chain of
               Inl b \<Rightarrow> Inl (ExportBreak b)
             | Inr c \<Rightarrow> Inr (ae_Seq first, fst (chain_Last c)))"

end
