(* ===== verification/Audit_Log.thy ===== *)
theory Audit_Log
  imports Audit_Trail
begin

text \<open>
  \<open>db/audit.go\<close> and the trigger of \<open>db/migrations/0030_audit_log.sql\<close>: the audit log as the database keeps it, an append in the
  transaction of the act it records, the pages a reader is given, the verification of the chain in batches and the
  record of how far it went, and the cursor of the export. The rows of \<open>audit_log\<close> are kept in the order of their key. A
  failure of the database itself is not a value here, apart from what \<open>verifyChain\<close> is given to read with.
\<close>

section \<open>The tables and the append\<close>

record audit_db =
  ad_log :: "audit_entry list"
  ad_head :: "int \<times> string"
  ad_export :: "int \<times> string"
  ad_verified :: "int \<times> string"

definition empty_audit :: audit_db where
  "empty_audit = \<lparr>ad_log = [], ad_head = (0, Genesis), ad_export = (0, Genesis), ad_verified = (0, Genesis)\<rparr>"

text \<open>The keys of the table are positive and no two rows share one.\<close>

definition keyed :: "audit_entry list \<Rightarrow> bool" where
  "keyed es \<longleftrightarrow> sorted_wrt (<) (map ae_Seq es) \<and> list_all (\<lambda>e. 0 < ae_Seq e) es"

text \<open>\<^verbatim>\<open>^[a-z][a-z_]*\.[a-z][a-z_]*$\<close>, the shape the table asks of an action.\<close>

definition lower :: "char \<Rightarrow> bool" where
  "lower c \<longleftrightarrow> CHR ''a'' \<le> c \<and> c \<le> CHR ''z''"

definition action_word :: "string \<Rightarrow> bool" where
  "action_word w \<longleftrightarrow> w \<noteq> [] \<and> lower (hd w) \<and> list_all (\<lambda>c. lower c \<or> c = CHR ''_'') w"

definition action_shape :: "string \<Rightarrow> bool" where
  "action_shape a \<longleftrightarrow>
     (let (w, r) = (takeWhile (\<lambda>c. c \<noteq> CHR ''.'') a, dropWhile (\<lambda>c. c \<noteq> CHR ''.'') a)
      in action_word w \<and> r \<noteq> [] \<and> action_word (tl r))"

datatype append_error = NotARecord record_error | NoNamespace string | RowRefused

definition audit_log_append :: "(string \<Rightarrow> string) \<Rightarrow> time \<Rightarrow> audit_entry \<Rightarrow> audit_db \<Rightarrow> (append_error, audit_db) result" where
  "audit_log_append H now new db =
     (let (seq, hash) = ad_head db;
          new = new\<lparr>ae_Seq := seq + 1, ae_At := now div 1000 * 1000, ae_PrevHash := hash\<rparr>;
          new = new\<lparr>ae_Hash := Sum H new\<rparr>
      in if \<not> action_shape (ae_Action new) \<or> 2 ^ 63 \<le> ae_Seq new \<or> length (ae_Hash new) \<noteq> HashSize
            \<or> ae_PrevHash new \<in> set (map ae_PrevHash (ad_log db)) \<or> ae_Hash new \<in> set (map ae_Hash (ad_log db))
         then Inl RowRefused
         else Inr (db\<lparr>ad_log := ad_log db @ [new], ad_head := (ae_Seq new, ae_Hash new)\<rparr>))"

definition appendAudit :: "(string \<Rightarrow> string) \<Rightarrow> time \<Rightarrow> string option \<Rightarrow> string \<Rightarrow> audit_record \<Rightarrow> audit_db \<Rightarrow> (append_error, audit_db) result" where
  "appendAudit H now ctx namespace r db =
     (case record_Check r of
        Some e \<Rightarrow> Inl (NotARecord e)
      | None \<Rightarrow>
          let r = Marked ctx r; detail = DetailText r
          in audit_log_append H now
               \<lparr>ae_Seq = 0, ae_At = 0, ae_Actor = ar_Actor r, ae_Action = ar_Action r, ae_Namespace = namespace,
                ae_Target = ar_Target r, ae_Result = ar_Result r, ae_Detail = detail, ae_PrevHash = [], ae_Hash = []\<rparr> db)"

definition AuditIn :: "(string \<Rightarrow> string) \<Rightarrow> time \<Rightarrow> string option \<Rightarrow> string \<Rightarrow> audit_record \<Rightarrow> audit_db \<Rightarrow> (append_error, audit_db) result" where
  "AuditIn H now ctx namespace r db =
     (if namespace = [] then Inl (NoNamespace (ar_Action r)) else appendAudit H now ctx namespace r db)"

section \<open>Reading\<close>

definition AuditEntries :: "int \<Rightarrow> nat \<Rightarrow> audit_entry list \<Rightarrow> audit_entry list" where
  "AuditEntries seq limit log = take limit (filter (\<lambda>e. seq < ae_Seq e) log)"

record AuditQuery =
  aq_Before :: int
  aq_Limit :: int
  aq_Actor :: string
  aq_Action :: string
  aq_Target :: string
  aq_Namespace :: string
  aq_Installation :: bool
  aq_Since :: "time option"
  aq_Until :: "time option"

definition query_matches :: "AuditQuery \<Rightarrow> audit_entry \<Rightarrow> bool" where
  "query_matches q e \<longleftrightarrow>
     (aq_Before q = 0 \<or> ae_Seq e < aq_Before q) \<and> (aq_Actor q = [] \<or> ae_Actor e = aq_Actor q) \<and>
     (aq_Action q = [] \<or> ae_Action e = aq_Action q) \<and> (aq_Target q = [] \<or> ae_Target e = aq_Target q) \<and>
     (aq_Namespace q = [] \<or> ae_Namespace e = aq_Namespace q) \<and> (\<not> aq_Installation q \<or> ae_Namespace e = []) \<and>
     (case aq_Since q of None \<Rightarrow> True | Some t \<Rightarrow> t \<le> ae_At e) \<and> (case aq_Until q of None \<Rightarrow> True | Some t \<Rightarrow> ae_At e \<le> t)"

text \<open>The answer is \<open>None\<close> for a page that could hold nothing.\<close>

definition AuditPage :: "AuditQuery \<Rightarrow> audit_db \<Rightarrow> (audit_entry list \<times> int \<times> int) option" where
  "AuditPage q db =
     (if aq_Limit q < 1 then None
      else Some (take (nat (aq_Limit q)) (filter (query_matches q) (rev (ad_log db))), fst (ad_head db), fst (ad_verified db)))"

section \<open>Verifying\<close>

datatype verify_error = ReadFailed string | NotRecorded string | Broken Break | RecordDisagrees int bool

text \<open>\<open>verifyChain\<close> keeps the chain, the last link proved, and how far progress was told; \<open>vs_tells\<close> is what it was told.\<close>

record verify_state =
  vs_chain :: Chain
  vs_proved :: "int \<times> string"
  vs_told :: int
  vs_tells :: "(int \<times> string) list"

type_synonym progress = "(int \<times> string \<Rightarrow> string option) option"

definition tell :: "progress \<Rightarrow> int \<times> string \<Rightarrow> verify_state \<Rightarrow> verify_error option \<times> verify_state" where
  "tell progress p s =
     (case progress of
        None \<Rightarrow> (None, s)
      | Some f \<Rightarrow>
          if fst p \<le> vs_told s then (None, s)
          else (map_option NotRecorded (f p), s\<lparr>vs_told := fst p, vs_tells := vs_tells s @ [p]\<rparr>))"

fun verify_entries :: "(string \<Rightarrow> string) \<Rightarrow> audit_entry list \<Rightarrow> verify_state \<Rightarrow> Break option \<times> verify_state" where
  "verify_entries H [] s = (None, s)"
| "verify_entries H (e # es) s =
     (case chain_Next H e (vs_chain s) of
        Inl b \<Rightarrow> (Some b, s)
      | Inr c \<Rightarrow> verify_entries H es (s\<lparr>vs_chain := c, vs_proved := chain_Last (vs_chain s)\<rparr>))"

lemma verify_entries_seq:
  "verify_entries H es s = (None, s') \<Longrightarrow> ch_seq (vs_chain s') = ch_seq (vs_chain s) + int (length es)"
proof (induction es arbitrary: s)
  case (Cons e es)
  from Cons.prems obtain c where c: "chain_Next H e (vs_chain s) = Inr c" by (cases "chain_Next H e (vs_chain s)") auto
  then have "ch_seq c = ch_seq (vs_chain s) + 1" by (auto simp: chain_Next_def split: if_splits)
  then show ?case using Cons c by fastforce
qed simp

lemma tell_chain [simp]: "tell progress p s = (e, s') \<Longrightarrow> vs_chain s' = vs_chain s"
  by (auto simp: tell_def split: option.splits if_splits)

function verify_loop :: "(string \<Rightarrow> string) \<Rightarrow> int \<Rightarrow> int \<Rightarrow> (int \<Rightarrow> nat \<Rightarrow> (string, audit_entry list) result) \<Rightarrow> progress \<Rightarrow>
    verify_state \<Rightarrow> verify_error option \<times> verify_state" where
  "verify_loop H head batch read progress s =
     (let last = ch_seq (vs_chain s) in
      if head \<le> last then (None, s)
      else case read last (nat (min batch (head - last))) of
        Inl e \<Rightarrow> (Some (ReadFailed e), s)
      | Inr es \<Rightarrow>
          if es = [] then (None, s)
          else case verify_entries H es s of
            (Some b, s') \<Rightarrow> (case tell progress (vs_proved s') s' of (Some e, s'') \<Rightarrow> (Some e, s'') | (None, s'') \<Rightarrow> (Some (Broken b), s''))
          | (None, s') \<Rightarrow>
              (case tell progress (vs_proved s') s' of
                 (Some e, s'') \<Rightarrow> (Some e, s'')
               | (None, s'') \<Rightarrow> verify_loop H head batch read progress s''))"
  by pat_completeness auto
termination
  by (relation "measure (\<lambda>(H, head, batch, read, progress, s). nat (head - ch_seq (vs_chain s)))")
    (auto dest!: verify_entries_seq[OF sym] tell_chain[OF sym])

declare verify_loop.simps [simp del]

definition verifyChain :: "(string \<Rightarrow> string) \<Rightarrow> Chain \<Rightarrow> int \<Rightarrow> string \<Rightarrow> int \<Rightarrow>
    (int \<Rightarrow> nat \<Rightarrow> (string, audit_entry list) result) \<Rightarrow> progress \<Rightarrow> verify_error option \<times> verify_state" where
  "verifyChain H chain head hash batch read progress =
     (let s0 = \<lparr>vs_chain = chain, vs_proved = chain_Last chain, vs_told = fst (chain_Last chain), vs_tells = []\<rparr> in
      case verify_loop H head batch read progress s0 of
        (Some e, s) \<Rightarrow> (Some e, s)
      | (None, s) \<Rightarrow>
          let (last, lastHash) = chain_Last (vs_chain s) in
          if last < head then (Some (Broken (Break (last + 1) (LastWereRemoved head last))), s)
          else if lastHash \<noteq> hash then (Some (Broken (Break last NotTheHead)), s)
          else tell progress (last, lastHash) s)"

definition auditBatch :: int where "auditBatch = 1000"

definition VerifyAuditLog :: "(string \<Rightarrow> string) \<Rightarrow> audit_db \<Rightarrow> verify_error option" where
  "VerifyAuditLog H db =
     fst (verifyChain H zero_chain (fst (ad_head db)) (snd (ad_head db)) auditBatch
            (\<lambda>seq limit. Inr (AuditEntries seq limit (ad_log db))) None)"

definition MarkExported :: "int \<times> string \<Rightarrow> audit_db \<Rightarrow> audit_db" where
  "MarkExported p db = (if fst (ad_export db) < fst p then db\<lparr>ad_export := p\<rparr> else db)"

definition markVerified :: "int \<times> string \<Rightarrow> audit_db \<Rightarrow> audit_db" where
  "markVerified p db = (if fst (ad_verified db) < fst p then db\<lparr>ad_verified := p\<rparr> else db)"

record AuditVerification =
  av_From :: int
  av_Through :: int

definition AuditTrail_Verify :: "(string \<Rightarrow> string) \<Rightarrow> int \<Rightarrow> audit_db \<Rightarrow> (verify_error option \<times> AuditVerification) \<times> audit_db" where
  "AuditTrail_Verify H batch0 db =
     (let batch = (if batch0 \<le> 0 then auditBatch else batch0);
          (seq, fromHash) = ad_verified db; (head, headHash) = ad_head db;
          recorded = (if 0 < seq \<and> seq \<le> head then AuditEntries (seq - 1) 1 (ad_log db) else []);
          read = (\<lambda>s limit. Inr (AuditEntries s limit (ad_log db)));
          holds = (seq = 0 \<or> (case recorded of
                     [e] \<Rightarrow> ae_Seq e = seq \<and> ae_Hash e = fromHash \<and> ae_Hash e = Sum H e
                   | _ \<Rightarrow> False))
      in if holds then
           let chain = (if seq = 0 then chain_From 0 Genesis else chain_From seq fromHash);
               (err, s) = verifyChain H chain head headHash batch read (Some (\<lambda>_. None))
           in ((err, \<lparr>av_From = seq, av_Through = fst (chain_Last (vs_chain s))\<rparr>), foldl (\<lambda>db p. markVerified p db) db (vs_tells s))
         else
           let (err, s) = verifyChain H (chain_From 0 Genesis) head headHash batch read None;
               v = \<lparr>av_From = 0, av_Through = fst (chain_Last (vs_chain s))\<rparr>
           in case err of
                Some e \<Rightarrow> ((Some e, v), db)
              | None \<Rightarrow> ((Some (RecordDisagrees seq (head < seq)), v), markVerified (chain_Last (vs_chain s)) db))"

end
