(* ===== verification/Audit_Verified.thy ===== *)
theory Audit_Verified
  imports Audit_Chain Audit_Log
begin

text \<open>
  The audit log in the database and its chain. What is appended is a chain whose end is the head; verifying it in batches
  is verifying the whole of it; and a log that verifies under the head that the appends left says what was appended.
\<close>

section \<open>Actions\<close>

text \<open>The table takes every action the package names.\<close>

lemma actions_are_shaped: "list_all action_shape actions \<and> distinct actions"
  by code_simp

section \<open>Rows in the order of their key\<close>

lemma keyed_filter_join:
  assumes "keyed log" "a \<le> b" "b \<le> d"
  shows "filter (\<lambda>e. a < ae_Seq e \<and> ae_Seq e \<le> b) log @ filter (\<lambda>e. b < ae_Seq e \<and> ae_Seq e \<le> d) log =
         filter (\<lambda>e. a < ae_Seq e \<and> ae_Seq e \<le> d) log"
  using assms(1)
proof (induction log)
  case (Cons e log)
  have "filter (\<lambda>e. a < ae_Seq e \<and> ae_Seq e \<le> b) log = []" if "b < ae_Seq e"
    using that Cons.prems by (auto simp: keyed_def filter_empty_conv)
  moreover have "keyed log" using Cons.prems by (simp add: keyed_def)
  ultimately show ?case using Cons.IH assms(2,3) by auto
qed simp

lemma take_filter_less:
  assumes "keyed log" "es = take k (filter (\<lambda>e. a < ae_Seq e) log)" "es \<noteq> []" "ae_Seq (last es) = b"
  shows "es = filter (\<lambda>e. a < ae_Seq e \<and> ae_Seq e \<le> b) log"
proof -
  define F where "F = filter (\<lambda>e. a < ae_Seq e) log"
  have F: "F = es @ drop k F" by (simp add: F_def assms(2))
  have "sorted_wrt (<) (map ae_Seq F)"
    using assms(1) by (auto simp: F_def keyed_def sorted_wrt_map intro!: sorted_wrt_filter)
  then have s: "sorted_wrt (<) (map ae_Seq (es @ drop k F))" by (subst (asm) F)
  have "filter (\<lambda>e. ae_Seq e \<le> b) es = es"
  proof (rule filter_True, rule ballI)
    fix e assume "e \<in> set es"
    moreover have "es = butlast es @ [last es]" using assms(3) by simp
    ultimately consider "e \<in> set (butlast es)" | "e = last es" by (metis UnE set_append set_ConsD empty_iff list.set(1))
    then show "ae_Seq e \<le> b"
    proof cases
      case 1
      have "sorted_wrt (<) (map ae_Seq (butlast es @ [last es]))" using s assms(3) by (simp add: sorted_wrt_append)
      then show ?thesis using 1 assms(4) by (auto simp: sorted_wrt_append)
    qed (simp add: assms(4))
  qed
  moreover have "filter (\<lambda>e. ae_Seq e \<le> b) (drop k F) = []"
    using s last_in_set[OF assms(3)] assms(4) by (force simp: filter_empty_conv sorted_wrt_append)
  ultimately have "filter (\<lambda>e. ae_Seq e \<le> b) F = es" by (metis F filter_append append_Nil2)
  then show ?thesis by (simp add: F_def conj_commute)
qed

lemma chain_run_last:
  "chain_run H es c = Inr c' \<Longrightarrow> es \<noteq> [] \<Longrightarrow> ae_Seq (last es) = ch_seq c'"
  by (cases es rule: rev_cases) (auto simp: chain_run_snoc chain_Next_Inr)

lemma chain_run_seq: "chain_run H es c = Inr c' \<Longrightarrow> ch_seq c' = ch_seq c + int (length es)"
  using chain_run_numbers by blast

lemma chain_run_keyed:
  assumes "chain_run H es c = Inr c'" "0 \<le> ch_seq c"
  shows "keyed es"
proof -
  have m: "map ae_Seq es = map (\<lambda>i. ch_seq c + 1 + int i) [0..<length es]" using chain_run_numbers[OF assms(1)] by simp
  have "sorted_wrt (<) (map ae_Seq es)" unfolding m by (simp add: sorted_wrt_iff_nth_less)
  moreover have "list_all (\<lambda>n. 0 < n) (map ae_Seq es)" unfolding m using assms(2) by (auto simp: list_all_iff)
  ultimately show ?thesis by (simp add: keyed_def list_all_iff)
qed

section \<open>Batches\<close>

abbreviation db_read :: "audit_entry list \<Rightarrow> int \<Rightarrow> nat \<Rightarrow> (string, audit_entry list) result" where
  "db_read log \<equiv> \<lambda>seq limit. Inr (AuditEntries seq limit log)"

abbreviation between :: "int \<Rightarrow> int \<Rightarrow> audit_entry list \<Rightarrow> audit_entry list" where
  "between a b log \<equiv> filter (\<lambda>e. a < ae_Seq e \<and> ae_Seq e \<le> b) log"

definition recorded_well :: "progress \<Rightarrow> bool" where
  "recorded_well progress \<longleftrightarrow> (case progress of None \<Rightarrow> True | Some f \<Rightarrow> (\<forall>p. f p = None))"

lemma recorded_well_tell: "recorded_well progress \<Longrightarrow> tell progress p s = (e, s') \<Longrightarrow> e = None"
  by (cases progress; cases p) (auto simp: recorded_well_def tell_def split: if_splits)

lemma verify_entries_run:
  "verify_entries H es s = (None, s') \<Longrightarrow> chain_run H es (vs_chain s) = Inr (vs_chain s')"
proof (induction es arbitrary: s)
  case (Cons e es)
  then show ?case by (cases "chain_Next H e (vs_chain s)") (fastforce simp: chain_run_Cons)+
qed simp

lemma run_verify_entries:
  "chain_run H es (vs_chain s) = Inr c \<Longrightarrow> \<exists>s'. verify_entries H es s = (None, s') \<and> vs_chain s' = c"
proof (induction es arbitrary: s)
  case (Cons e es)
  then show ?case by (auto simp: chain_run_Cons)
qed simp

lemma read_between:
  assumes "keyed log" "AuditEntries (ch_seq c) k log \<noteq> []" "chain_run H (AuditEntries (ch_seq c) k log) c = Inr c1"
  shows "AuditEntries (ch_seq c) k log = between (ch_seq c) (ch_seq c1) log"
  using take_filter_less[OF assms(1) AuditEntries_def assms(2)] chain_run_last[OF assms(3,2)] by simp

lemma verify_loop_sound:
  assumes "verify_loop H head batch (db_read log) progress s = (None, s')" "keyed log"
  shows "chain_run H (between (ch_seq (vs_chain s)) (ch_seq (vs_chain s')) log) (vs_chain s) = Inr (vs_chain s') \<and>
         ch_seq (vs_chain s) \<le> ch_seq (vs_chain s') \<and> ch_seq (vs_chain s') \<le> max head (ch_seq (vs_chain s))"
  using assms(1)
proof (induction "nat (head - ch_seq (vs_chain s))" arbitrary: s rule: less_induct)
  case less
  let ?a = "ch_seq (vs_chain s)"
  let ?k = "nat (min batch (head - ?a))"
  let ?es = "AuditEntries ?a ?k log"
  show ?case
  proof (cases "head \<le> ?a \<or> ?es = []")
    case True
    then show ?thesis using less.prems by (subst (asm) verify_loop.simps) (auto simp: Let_def split: if_splits)
  next
    case False
    then obtain s1 s2 where v: "verify_entries H ?es s = (None, s1)" "tell progress (vs_proved s1) s1 = (None, s2)"
        "verify_loop H head batch (db_read log) progress s2 = (None, s')"
      using less.prems
      by (subst (asm) verify_loop.simps) (auto simp: Let_def split: if_splits prod.splits option.splits)
    have r: "chain_run H ?es (vs_chain s) = Inr (vs_chain s2)" using verify_entries_run[OF v(1)] tell_chain[OF v(2)] by simp
    have n: "ch_seq (vs_chain s2) = ?a + int (length ?es)" using chain_run_seq[OF r] .
    have l: "0 < length ?es" "int (length ?es) \<le> head - ?a" using False by (auto simp: AuditEntries_def)
    have i: "chain_run H (between (ch_seq (vs_chain s2)) (ch_seq (vs_chain s')) log) (vs_chain s2) = Inr (vs_chain s')"
      "ch_seq (vs_chain s2) \<le> ch_seq (vs_chain s')" "ch_seq (vs_chain s') \<le> max head (ch_seq (vs_chain s2))"
      using less.hyps[OF _ v(3)] n l by auto
    have e: "?es = between ?a (ch_seq (vs_chain s2)) log" using read_between[OF assms(2) _ r] False by blast
    have "chain_run H (?es @ between (ch_seq (vs_chain s2)) (ch_seq (vs_chain s')) log) (vs_chain s) = Inr (vs_chain s')"
      using r i(1) by (simp add: chain_run_append)
    moreover have "?es @ between (ch_seq (vs_chain s2)) (ch_seq (vs_chain s')) log = between ?a (ch_seq (vs_chain s')) log"
      using keyed_filter_join[OF assms(2), of ?a "ch_seq (vs_chain s2)" "ch_seq (vs_chain s')"] n i(2) by (metis e le_add_same_cancel1 of_nat_0_le_iff)
    ultimately show ?thesis using n l i(2,3) by auto
  qed
qed

lemma verify_loop_complete:
  assumes "chain_run H (between (ch_seq (vs_chain s)) head log) (vs_chain s) = Inr c" "ch_seq c = head" "keyed log"
    "0 < batch" "recorded_well progress"
  shows "\<exists>s'. verify_loop H head batch (db_read log) progress s = (None, s') \<and> vs_chain s' = c"
  using assms(1)
proof (induction "nat (head - ch_seq (vs_chain s))" arbitrary: s rule: less_induct)
  case less
  let ?a = "ch_seq (vs_chain s)"
  let ?k = "nat (min batch (head - ?a))"
  let ?es = "AuditEntries ?a ?k log"
  let ?R = "between ?a head log"
  have R: "head = ?a + int (length ?R)" using chain_run_seq[OF less.prems] assms(2) by simp
  show ?case
  proof (cases "head \<le> ?a")
    case True
    then have "?R = []" using R by (metis add_le_same_cancel1 length_0_conv of_nat_le_0_iff)
    then have "vs_chain s = c" using less.prems by (simp only: chain_run_Nil sum.inject)
    then show ?thesis using True by (subst verify_loop.simps) simp
  next
    case False
    have "?R \<noteq> []" using R False by force
    have "filter (\<lambda>e. ?a < ae_Seq e) log = ?R @ filter (\<lambda>e. head < ae_Seq e) log"
    proof -
      obtain m where m: "\<forall>e \<in> set log. ae_Seq e \<le> m" "head \<le> m"
        by (metis finite_set finite_imageI Max_ge imageI insertI1 insertI2 finite_insert finite.emptyI)
      have "filter (\<lambda>e. ?a < ae_Seq e) log = between ?a m log" "filter (\<lambda>e. head < ae_Seq e) log = between head m log"
        using m(1) by (auto intro!: filter_cong)
      then show ?thesis using keyed_filter_join[OF assms(3), of ?a head m] m(2) False by simp
    qed
    moreover have "?k \<le> length ?R" using R by linarith
    ultimately have es: "?es = take ?k ?R" by (simp add: AuditEntries_def)
    have ne: "?es \<noteq> []" using es \<open>?R \<noteq> []\<close> False assms(4) by simp
    have "chain_run H (?es @ drop ?k ?R) (vs_chain s) = Inr c" using less.prems es by simp
    then obtain c1 where c1: "chain_run H ?es (vs_chain s) = Inr c1" "chain_run H (drop ?k ?R) c1 = Inr c"
      by (auto simp: chain_run_append)
    have n: "ch_seq c1 = ?a + int (length ?es)" using chain_run_seq[OF c1(1)] .
    have "length ?es \<le> length ?R" unfolding es by simp
    then have le: "ch_seq c1 \<le> head" using n R by linarith
    have "between ?a (ch_seq c1) log @ between (ch_seq c1) head log = ?R"
      using n le by (intro keyed_filter_join[OF assms(3)]) auto
    then have "?es @ between (ch_seq c1) head log = ?R" by (simp only: read_between[OF assms(3) ne c1(1)])
    then have "take ?k ?R @ between (ch_seq c1) head log = take ?k ?R @ drop ?k ?R" by (simp only: es append_take_drop_id)
    then have d: "drop ?k ?R = between (ch_seq c1) head log" by (simp only: same_append_eq)
    obtain s1 where s1: "verify_entries H ?es s = (None, s1)" "vs_chain s1 = c1" using run_verify_entries[OF c1(1)] by blast
    obtain s2 where s2: "tell progress (vs_proved s1) s1 = (None, s2)"
      using recorded_well_tell[OF assms(5)] by (metis surj_pair)
    then have "vs_chain s2 = c1" using s1 by simp
    moreover have "0 < length ?es" using ne by blast
    ultimately have "\<exists>s'. verify_loop H head batch (db_read log) progress s2 = (None, s') \<and> vs_chain s' = c"
      using c1(2) d n False by (intro less.hyps) auto
    then show ?thesis using s1 s2 ne False by (subst verify_loop.simps) (simp add: Let_def)
  qed
qed

section \<open>The log and its head\<close>

definition log_ok :: "(string \<Rightarrow> string) \<Rightarrow> audit_db \<Rightarrow> bool" where
  "log_ok H db \<longleftrightarrow> (case chain_run H (ad_log db) zero_chain of Inl _ \<Rightarrow> False | Inr c \<Rightarrow> chain_Last c = ad_head db)"

lemma log_ok_iff: "log_ok H db \<longleftrightarrow> (\<exists>c. chain_run H (ad_log db) zero_chain = Inr c \<and> chain_Last c = ad_head db)"
  by (auto simp: log_ok_def split: sum.splits)

lemma audit_log_append_Inr:
  assumes "audit_log_append H now new db = Inr db'"
  obtains e where "ad_log db' = ad_log db @ [e]" "ad_head db' = (ae_Seq e, ae_Hash e)" "ae_Hash e = Sum H e"
    "(ae_Seq e - 1, ae_PrevHash e) = ad_head db" "ad_verified db' = ad_verified db" "ad_export db' = ad_export db"
proof -
  obtain seq hash where h: "ad_head db = (seq, hash)" by fastforce
  let ?e = "new\<lparr>ae_Seq := seq + 1, ae_At := now div 1000 * 1000, ae_PrevHash := hash\<rparr>"
  have "Sum H (?e\<lparr>ae_Hash := Sum H ?e\<rparr>) = Sum H ?e" by (simp add: Sum_def hashed_def hashed_fields_def)
  then show thesis using that[of "?e\<lparr>ae_Hash := Sum H ?e\<rparr>"] assms h by (auto simp: audit_log_append_def Let_def split: if_splits)
qed

lemma append_log_ok:
  assumes "audit_log_append H now new db = Inr db'" "log_ok H db"
  shows "log_ok H db'"
proof -
  obtain e where e: "ad_log db' = ad_log db @ [e]" "ad_head db' = (ae_Seq e, ae_Hash e)" "ae_Hash e = Sum H e"
    "ad_head db = (ae_Seq e - 1, ae_PrevHash e)" using audit_log_append_Inr[OF assms(1)] by metis
  obtain c where c: "chain_run H (ad_log db) zero_chain = Inr c" "chain_Last c = ad_head db" using assms(2) by (auto simp: log_ok_iff)
  have "chain_Next H e c = Inr \<lparr>ch_seq = ae_Seq e, ch_hash = Some (ae_Hash e)\<rparr>"
    using e c(2) by (auto simp: chain_Next_Inr chain_Last_def Sum_def)
  then show ?thesis using c(1) e(1,2) by (auto simp: log_ok_iff chain_run_snoc chain_Last_def chain_prev_def)
qed

text \<open>An act that is not recorded leaves the log as it was.\<close>

fun audits :: "(string \<Rightarrow> string) \<Rightarrow> (time \<times> string option \<times> string \<times> audit_record) list \<Rightarrow> audit_db \<Rightarrow> audit_db" where
  "audits H [] db = db"
| "audits H ((now, ctx, namespace, r) # as) db =
     audits H as (case appendAudit H now ctx namespace r db of Inl _ \<Rightarrow> db | Inr db' \<Rightarrow> db')"

lemma appendAudit_log_ok: "appendAudit H now ctx namespace r db = Inr db' \<Longrightarrow> log_ok H db \<Longrightarrow> log_ok H db'"
  by (auto simp: appendAudit_def Let_def split: option.splits intro: append_log_ok)

lemma audits_log_ok: "log_ok H db \<Longrightarrow> log_ok H (audits H as db)"
proof (induction H as db rule: audits.induct)
  case (2 H now ctx namespace r as db)
  then show ?case by (cases "appendAudit H now ctx namespace r db") (auto dest: appendAudit_log_ok)
qed simp

lemma empty_log_ok: "log_ok H empty_audit"
  by (simp add: log_ok_iff empty_audit_def zero_chain_def chain_Last_def chain_prev_def)

lemma between_whole:
  assumes "chain_run H log zero_chain = Inr c" "chain_Last c = (head, hash)"
  shows "between 0 head log = log"
proof -
  have "keyed log" using chain_run_keyed[OF assms(1)] by (simp add: zero_chain_def)
  moreover have "ae_Seq e \<le> head" if "e \<in> set log" for e
  proof -
    have "ae_Seq e \<in> set (map (\<lambda>i. ch_seq zero_chain + 1 + int i) [0..<length log])"
      using chain_run_numbers[OF assms(1)] that by (metis image_eqI list.set_map)
    then show ?thesis using chain_run_seq[OF assms(1)] assms(2) by (auto simp: zero_chain_def chain_Last_def)
  qed
  ultimately show ?thesis by (auto simp: keyed_def list_all_iff)
qed

lemma chain_end: "chain_run H log zero_chain = Inr c \<Longrightarrow> chain_Last c = p \<Longrightarrow> fst p = int (length log)"
  using chain_run_seq[of H log zero_chain c] by (auto simp: zero_chain_def chain_Last_def)

text \<open>Verifying in batches is verifying the rows up to the head, and that the last of them is the head.\<close>

lemma VerifyAuditLog_iff:
  assumes "keyed (ad_log db)" "0 \<le> fst (ad_head db)"
  shows "VerifyAuditLog H db = None \<longleftrightarrow>
         (\<exists>c. chain_run H (between 0 (fst (ad_head db)) (ad_log db)) zero_chain = Inr c \<and> chain_Last c = ad_head db)"
    (is "?L \<longleftrightarrow> ?R")
proof -
  obtain head hash where h: "ad_head db = (head, hash)" by fastforce
  let ?s = "\<lparr>vs_chain = zero_chain, vs_proved = chain_Last zero_chain, vs_told = fst (chain_Last zero_chain), vs_tells = []\<rparr>"
  let ?loop = "verify_loop H head auditBatch (db_read (ad_log db)) None ?s"
  have z: "ch_seq zero_chain = 0" by (simp add: zero_chain_def)
  have v: "?L \<longleftrightarrow> (\<exists>s. ?loop = (None, s) \<and> head \<le> ch_seq (vs_chain s) \<and> chain_prev (vs_chain s) = hash)"
  proof (cases "?loop")
    case (Pair e s)
    then show ?thesis
      by (cases e) (simp_all add: VerifyAuditLog_def verifyChain_def h chain_Last_def tell_def not_less)
  qed
  show ?thesis
  proof
    assume ?L
    then obtain s where s: "?loop = (None, s)" "head \<le> ch_seq (vs_chain s)" "chain_prev (vs_chain s) = hash" using v by blast
    have r: "chain_run H (between 0 (ch_seq (vs_chain s)) (ad_log db)) zero_chain = Inr (vs_chain s)" "ch_seq (vs_chain s) \<le> max head 0"
      using verify_loop_sound[OF s(1) assms(1)] z by simp_all
    moreover have "ch_seq (vs_chain s) = head" using r(2) s(2) assms(2) h by simp
    ultimately show ?R using s(3) h by (auto simp: chain_Last_def)
  next
    assume ?R
    then obtain c where c: "chain_run H (between 0 head (ad_log db)) zero_chain = Inr c" "chain_Last c = (head, hash)" using h by auto
    then have "\<exists>s'. ?loop = (None, s') \<and> vs_chain s' = c"
      using assms(1) z by (intro verify_loop_complete) (auto simp: chain_Last_def auditBatch_def recorded_well_def)
    then show ?L using v c(2) by (auto simp: chain_Last_def)
  qed
qed

text \<open>
  Whatever acts are recorded, and whichever of them are refused, the log verifies: each append follows the head that the
  one before left, as the trigger of the database spells the hash and the package spells it again.
\<close>

theorem what_is_appended_verifies: "VerifyAuditLog H (audits H as empty_audit) = None"
proof -
  let ?db = "audits H as empty_audit"
  obtain c where c: "chain_run H (ad_log ?db) zero_chain = Inr c" "chain_Last c = ad_head ?db"
    using audits_log_ok[OF empty_log_ok] by (auto simp: log_ok_iff)
  have "keyed (ad_log ?db)" using chain_run_keyed[OF c(1)] by (simp add: zero_chain_def)
  moreover have "between 0 (fst (ad_head ?db)) (ad_log ?db) = ad_log ?db"
    using between_whole[OF c(1), of "fst (ad_head ?db)" "snd (ad_head ?db)"] c(2) by simp
  ultimately show ?thesis using VerifyAuditLog_iff[of ?db H] c chain_end[OF c] by simp
qed


section \<open>One row\<close>

text \<open>A log of one row, under a hash that hashes everything alike, whose actor is changed: the collision is what hides it.\<close>

lemma Moment_0: "Moment 0 = ''0001-01-01T00:00:00.000000Z''" by code_simp

definition first_row :: audit_entry where
  "first_row = \<lparr>ae_Seq = 1, ae_At = 0, ae_Actor = ''ada'', ae_Action = ''run.trigger'', ae_Namespace = ''main'', ae_Target = ''r1'',
     ae_Result = ''done'', ae_Detail = ''{}'', ae_PrevHash = Genesis, ae_Hash = Genesis\<rparr>"

definition first_act :: audit_record where
  "first_act = \<lparr>ar_Actor = ''ada'', ar_Action = ''run.trigger'', ar_Target = ''r1'', ar_Result = ''done'', ar_Detail = None\<rparr>"

lemma first_act_row:
  "audits (\<lambda>_. Genesis) [(0, None, ''main'', first_act)] empty_audit = empty_audit\<lparr>ad_log := [first_row], ad_head := (1, Genesis)\<rparr>"
  by (simp add: first_act_def first_row_def appendAudit_def audit_log_append_def record_Check_def Done_def Unchanged_def Marked_def DetailText_def
    empty_audit_def action_shape_def action_word_def lower_def Sum_def Genesis_def HashSize_def)

lemma first_row_chain: "chain_run (\<lambda>_. Genesis) [first_row\<lparr>ae_Actor := a\<rparr>] zero_chain = Inr \<lparr>ch_seq = 1, ch_hash = Some Genesis\<rparr>"
  by (simp add: chain_run_Cons chain_Next_def Sum_def first_row_def zero_chain_def chain_prev_def)

lemma first_row_short: "length a < 100 \<Longrightarrow> short_fields (first_row\<lparr>ae_Actor := a\<rparr>)"
  by (simp add: short_fields_def hashed_fields_def first_row_def Moment_0)

lemma first_row_verifies: "VerifyAuditLog (\<lambda>_. Genesis) (empty_audit\<lparr>ad_head := (1, Genesis), ad_log := [first_row\<lparr>ae_Actor := a\<rparr>]\<rparr>) = None"
  by (subst VerifyAuditLog_iff) (use first_row_chain[of a] in \<open>auto simp: keyed_def first_row_def chain_Last_def chain_prev_def\<close>)


end
