(* ===== verification/Audit_Exported.thy ===== *)
theory Audit_Exported
  imports Audit_Verified
begin

text \<open>
  The export of the audit log and its receiver. An attempt to export meets the rows of the log as they are then, a sink that
  accepts what it is sent, or does not and perhaps keeps it all the same, and a cursor that is moved or not. What the
  cursor has moved past is a chain whatever was done to the rows between attempts; and where nothing was done to them, a
  receiver verifies what it has been sent, in whatever order and however often it came.
\<close>

section \<open>Attempts\<close>

record export_attempt =
  at_log :: "audit_entry list"
  at_batch :: nat
  at_send :: "string option"
  at_kept :: bool
  at_mark :: "string option"

record exported =
  ex_db :: audit_db
  ex_held :: "audit_entry list"
  ex_past :: "audit_entry list"

definition start_export :: exported where
  "start_export = \<lparr>ex_db = empty_audit, ex_held = [], ex_past = []\<rparr>"

definition try_export :: "(string \<Rightarrow> string) \<Rightarrow> export_attempt \<Rightarrow> exported \<Rightarrow> exported" where
  "try_export H a x =
     (let db = (ex_db x)\<lparr>ad_log := at_log a\<rparr>;
          r = Once H (Inr (ad_export db)) (Inr (AuditEntries (fst (ad_export db)) (at_batch a) (ad_log db))) (\<lambda>_. at_send a) (at_mark a)
      in \<lparr>ex_db = (case on_cursor r of None \<Rightarrow> db | Some p \<Rightarrow> MarkExported p db),
          ex_held = ex_held x @ (if at_send a = None \<or> at_kept a then on_sent r else []),
          ex_past = ex_past x @ (if on_cursor r = None then [] else on_sent r)\<rparr>)"

definition exports :: "(string \<Rightarrow> string) \<Rightarrow> export_attempt list \<Rightarrow> exported" where
  "exports H as = foldl (\<lambda>x a. try_export H a x) start_export as"

lemma exports_snoc: "exports H (as @ [a]) = try_export H a (exports H as)"
  by (simp add: exports_def)

lemma before_break_run: "before_break H es c = (es', c', b) \<Longrightarrow> chain_run H es' c = Inr c'"
proof (induction H es c arbitrary: es' rule: before_break.induct)
  case (2 H e es c)
  then show ?case by (cases "chain_Next H e c") (auto simp: chain_run_Cons split: prod.splits)
qed simp

lemma run_before_break: "chain_run H es c = Inr c' \<Longrightarrow> before_break H es c = (es, c', None)"
  by (induction es arbitrary: c) (auto simp: chain_run_Cons)

text \<open>A chain goes on from its last link.\<close>

lemma chain_Next_Last: "chain_Last c = chain_Last d \<Longrightarrow> chain_Next H e c = chain_Next H e d"
  by (simp add: chain_Next_def chain_Last_def)

lemma chain_run_Last:
  assumes "chain_run H es c = Inr c'" "chain_Last c = chain_Last d"
  obtains d' where "chain_run H es d = Inr d'" "chain_Last d' = chain_Last c'"
proof (cases es)
  case Nil
  then show thesis using assms that[of d] by simp
next
  case (Cons e fs)
  then have "chain_run H es d = chain_run H es c" using chain_Next_Last[OF assms(2)] by (simp add: chain_run_Cons)
  then show thesis using assms(1) that by simp
qed

lemma chain_Last_From [simp]: "chain_Last (chain_From seq hash) = (seq, hash)"
  by (simp add: chain_Last_def chain_From_def chain_prev_def)

text \<open>What one call of \<open>Once\<close> does, the log and the cursor being read.\<close>

lemma Once_sent:
  assumes "before_break H after (chain_From seq hash) = (es, c, b)"
  shows "on_sent (Once H (Inr (seq, hash)) (Inr after) (\<lambda>_. answer) marked) = es"
    "on_cursor (Once H (Inr (seq, hash)) (Inr after) (\<lambda>_. answer) marked) =
       (if es \<noteq> [] \<and> answer = None \<and> marked = None then Some (chain_Last c) else None)"
  using assms by (auto simp: Once_def split: option.splits)

lemma try_export_eq:
  assumes "ad_export (ex_db x) = (seq, hash)"
    "before_break H (AuditEntries seq (at_batch a) (at_log a)) (chain_From seq hash) = (es, c, b)"
  shows "ad_export (ex_db (try_export H a x)) = (if es \<noteq> [] \<and> at_send a = None \<and> at_mark a = None then chain_Last c else (seq, hash))"
    "ex_held (try_export H a x) = ex_held x @ (if at_send a = None \<or> at_kept a then es else [])"
    "ex_past (try_export H a x) = ex_past x @ (if at_send a = None \<and> at_mark a = None then es else [])"
proof -
  have "seq < fst (chain_Last c)" if "es \<noteq> []"
    using chain_run_seq[OF before_break_run[OF assms(2)]] that by (simp add: chain_Last_def chain_From_def)
  then show "ad_export (ex_db (try_export H a x)) = (if es \<noteq> [] \<and> at_send a = None \<and> at_mark a = None then chain_Last c else (seq, hash))"
    using assms by (auto simp: try_export_def Let_def Once_sent[OF assms(2)] MarkExported_def)
qed (use assms in \<open>auto simp: try_export_def Let_def Once_sent[OF assms(2)]\<close>)

text \<open>
  Whatever is done to the rows of the log between two attempts to export it, and whichever attempts the sink or the
  database fails, what the export's cursor has moved past is one chain from its first entry, the sink holds all of it, and
  the cursor is its last link: nothing is exported past a break.
\<close>

theorem what_is_exported_is_a_chain:
  "\<exists>c. chain_run H (ex_past (exports H as)) zero_chain = Inr c \<and> chain_Last c = ad_export (ex_db (exports H as)) \<and>
       set (ex_past (exports H as)) \<subseteq> set (ex_held (exports H as))"
proof (induction as rule: rev_induct)
  case Nil
  then show ?case by (simp add: exports_def start_export_def empty_audit_def zero_chain_def chain_Last_def chain_prev_def)
next
  case (snoc a as)
  let ?x = "exports H as"
  obtain c where c: "chain_run H (ex_past ?x) zero_chain = Inr c" "chain_Last c = ad_export (ex_db ?x)"
    "set (ex_past ?x) \<subseteq> set (ex_held ?x)" using snoc by blast
  obtain seq hash where q: "ad_export (ex_db ?x) = (seq, hash)" by fastforce
  obtain es d b where b: "before_break H (AuditEntries seq (at_batch a) (at_log a)) (chain_From seq hash) = (es, d, b)" by (metis surj_pair)
  obtain d' where d: "chain_run H es c = Inr d'" "chain_Last d' = chain_Last d"
    using chain_run_Last[OF before_break_run[OF b], of c] c(2) q by auto
  show ?case
  proof (cases "es \<noteq> [] \<and> at_send a = None \<and> at_mark a = None")
    case True
    then have "chain_run H (ex_past ?x @ es) zero_chain = Inr d'" using c(1) d(1) by (simp add: chain_run_append)
    then show ?thesis using True d(2) c(3) by (auto simp: exports_snoc try_export_eq[OF q b])
  next
    case False
    then show ?thesis using c q by (auto simp: exports_snoc try_export_eq[OF q b])
  qed
qed

section \<open>The receiver\<close>

text \<open>Lines of one chain: a number names one entry.\<close>

lemma by_seq_lines:
  assumes "inj_on ae_Seq D" "set lines \<subseteq> D" "\<And>k e. map_of m k = Some e \<Longrightarrow> e \<in> D \<and> ae_Seq e = k"
  shows "\<exists>m'. by_seq H n lines m = Inr m' \<and> (\<forall>k e. map_of m' k = Some e \<longleftrightarrow> map_of m k = Some e \<or> e \<in> set lines \<and> ae_Seq e = k)"
  using assms(2,3)
proof (induction lines arbitrary: n m)
  case (Cons e es)
  show ?case
  proof (cases "map_of m (ae_Seq e)")
    case None
    then have "\<exists>m'. by_seq H (n + 1) es (AList.update (ae_Seq e) e m) = Inr m' \<and>
        (\<forall>k f. map_of m' k = Some f \<longleftrightarrow> map_of (AList.update (ae_Seq e) e m) k = Some f \<or> f \<in> set es \<and> ae_Seq f = k)"
      using Cons.prems by (intro Cons.IH) (auto split: if_splits)
    then show ?thesis using None by auto
  next
    case (Some f)
    have "f \<in> D" "e \<in> D" "ae_Seq f = ae_Seq e" using Cons.prems(1) Cons.prems(2)[OF Some] by auto
    then have "f = e" using inj_onD[OF assms(1)] by blast
    moreover have "\<exists>m'. by_seq H (n + 1) es m = Inr m' \<and> (\<forall>k f. map_of m' k = Some f \<longleftrightarrow> map_of m k = Some f \<or> f \<in> set es \<and> ae_Seq f = k)"
      using Cons.prems by (intro Cons.IH) auto
    ultimately show ?thesis using Some by auto
  qed
qed simp

lemma VerifyExport_of_chain:
  assumes "chain_run H d zero_chain = Inr c" "set lines = set d"
  shows "VerifyExport H lines = (if d = [] then Inl NoEntry else Inr (1, int (length d)))"
proof -
  have k: "keyed d" using chain_run_keyed[OF assms(1)] by (simp add: zero_chain_def)
  have inj: "inj_on ae_Seq (set d)" using k by (auto simp: keyed_def strict_sorted_iff distinct_map)
  obtain m where m: "by_seq H 1 lines [] = Inr m" "\<And>k e. map_of m k = Some e \<longleftrightarrow> e \<in> set d \<and> ae_Seq e = k"
    using by_seq_lines[OF inj, of lines "[]" H 1] assms(2) by auto
  have e: "m = [] \<longleftrightarrow> d = []"
  proof
    assume "m = []"
    then have "hd d \<notin> set d" using m(2)[of "ae_Seq (hd d)" "hd d"] by simp
    then show "d = []" by (cases d) auto
  next
    assume "d = []"
    then have "\<And>k. map_of m k = None" using m(2) by (metis empty_iff list.set(1) not_None_eq)
    then have "map_of m (fst (hd m)) = None" .
    then show "m = []" by (cases m) auto
  qed
  have "fst ` set m = set (map ae_Seq d)"
    using m(2) by (auto simp: dom_map_of_conv_image_fst[symmetric] dom_def image_iff)
  then have "sorted_keys m = map ae_Seq d"
    using k by (intro sorted_distinct_set_unique) (auto simp: keyed_def strict_sorted_iff)
  moreover have "map (\<lambda>k. the (map_of m k)) (map ae_Seq d) = d"
    unfolding map_map using m(2)[THEN iffD2] by (intro map_idI) auto
  ultimately have es: "map (\<lambda>k. the (map_of m k)) (sorted_keys m) = d" by simp
  show ?thesis
  proof (cases d)
    case Nil
    then show ?thesis using m(1) e by (simp add: VerifyExport_def)
  next
    case (Cons f fs)
    have first: "ae_Seq f = 1" using assms(1) Cons by (auto simp: chain_run_Cons chain_Next_Inr zero_chain_def)
    obtain c' where c': "chain_run H d (chain_From 0 Genesis) = Inr c'" "chain_Last c' = chain_Last c"
      using chain_run_Last[OF assms(1), of "chain_From 0 Genesis"]
      by (auto simp: zero_chain_def chain_Last_def chain_prev_def chain_From_def)
    then have "fst (chain_Last c') = int (length d)" using chain_end[OF assms(1) refl] by simp
    then show ?thesis using m(1) e es first c'(1) Cons by (simp add: VerifyExport_def Let_def)
  qed
qed

section \<open>Delivery\<close>

text \<open>An attempt that meets no failure and has the whole log \<open>L\<close> to send.\<close>

definition goes_well :: "audit_entry list \<Rightarrow> export_attempt \<Rightarrow> bool" where
  "goes_well L a \<longleftrightarrow> at_log a = L \<and> at_send a = None \<and> at_mark a = None \<and> 0 < at_batch a"

lemma AuditEntries_chain:
  assumes "chain_run H L zero_chain = Inr c"
  shows "AuditEntries (int m) b (take k L) = take (min b (k - m)) (drop m L)"
proof -
  have n: "ae_Seq (L ! i) = 1 + int i" if "i < length L" for i
    using arg_cong[OF conjunct1[OF chain_run_numbers[OF assms]], of "\<lambda>xs. xs ! i"] that by (simp add: zero_chain_def)
  have "filter (\<lambda>e. int m < ae_Seq e) (take k L) = drop m (take k L)"
  proof -
    have "filter (\<lambda>e. int m < ae_Seq e) (take m (take k L)) = []"
      by (auto simp: filter_empty_conv in_set_conv_nth n)
    moreover have "filter (\<lambda>e. int m < ae_Seq e) (drop m (take k L)) = drop m (take k L)"
      by (rule filter_True) (auto simp: in_set_conv_nth n drop_take)
    ultimately show ?thesis by (metis append_take_drop_id filter_append append_Nil)
  qed
  then show ?thesis by (simp add: AuditEntries_def drop_take)
qed

definition delivered :: "(string \<Rightarrow> string) \<Rightarrow> audit_entry list \<Rightarrow> exported \<Rightarrow> nat \<Rightarrow> nat \<Rightarrow> bool" where
  "delivered H L x m n \<longleftrightarrow> m \<le> n \<and> n \<le> length L \<and> set (ex_held x) = set (take n L) \<and>
     (\<exists>c. chain_run H (take m L) zero_chain = Inr c \<and> chain_Last c = ad_export (ex_db x))"

lemma chain_run_take:
  "chain_run H L c = Inr c' \<Longrightarrow> \<exists>d. chain_run H (take k L) c = Inr d \<and> chain_run H (drop k L) d = Inr c'"
  using chain_run_append[of H "take k L" "drop k L" c] by (cases "chain_run H (take k L) c") auto

lemma set_take_join:
  "m \<le> n \<Longrightarrow> set (take n L) \<union> set (take j (drop m L)) = set (take (max n (m + j)) L)"
proof -
  assume "m \<le> n"
  have "set (take (m + j) L) = set (take m L) \<union> set (take j (drop m L))" by (simp add: take_add)
  moreover have "set (take m L) \<subseteq> set (take n L)" using \<open>m \<le> n\<close> by (rule set_take_subset_set_take)
  moreover have "set (take n L) \<subseteq> set (take (max n (m + j)) L)" "set (take (m + j) L) \<subseteq> set (take (max n (m + j)) L)"
    by (rule set_take_subset_set_take, simp)+
  ultimately show ?thesis by (cases "n \<le> m + j") (auto simp: max_def)
qed

lemma try_export_delivers:
  assumes "chain_run H L zero_chain = Inr cL" "delivered H L x m n" "at_log a = take k L"
  obtains m' n' where "delivered H L (try_export H a x) m' n'" "m \<le> m'"
    "goes_well L a \<Longrightarrow> m < length L \<Longrightarrow> m < m'"
proof -
  obtain c where c: "chain_run H (take m L) zero_chain = Inr c" "chain_Last c = ad_export (ex_db x)"
    and mn: "m \<le> n" "n \<le> length L" "set (ex_held x) = set (take n L)" using assms(2) by (auto simp: delivered_def)
  obtain hash where q: "ad_export (ex_db x) = (int m, hash)"
    using chain_end[OF c] mn by (metis length_take min.absorb2 order_trans prod.collapse)
  define j where "j = min (min (at_batch a) (k - m)) (length L - m)"
  have es: "AuditEntries (int m) (at_batch a) (at_log a) = take j (drop m L)"
    unfolding assms(3) AuditEntries_chain[OF assms(1)] j_def by (metis length_drop min_def order_refl take_all_iff take_take)
  have jl: "m + j \<le> length L" using mn by (simp add: j_def)
  obtain d where d: "chain_run H (take (m + j) L) zero_chain = Inr d" using chain_run_take[OF assms(1)] by blast
  have run: "chain_run H (take j (drop m L)) c = Inr d" using d c(1) by (simp add: take_add chain_run_append)
  obtain d' where d': "chain_run H (take j (drop m L)) (chain_From (int m) hash) = Inr d'" "chain_Last d' = chain_Last d"
    using chain_run_Last[OF run, of "chain_From (int m) hash"] c(2) q by auto
  have "before_break H (AuditEntries (int m) (at_batch a) (at_log a)) (chain_From (int m) hash) = (take j (drop m L), d', None)"
    using run_before_break[OF d'(1)] by (simp only: es)
  note eq = try_export_eq[OF q this]
  let ?ok = "take j (drop m L) \<noteq> [] \<and> at_send a = None \<and> at_mark a = None"
  let ?m = "if ?ok then m + j else m" and ?n = "if at_send a = None \<or> at_kept a then max n (m + j) else n"
  have "delivered H L (try_export H a x) ?m ?n"
  proof -
    have "set (ex_held (try_export H a x)) = set (take ?n L)" unfolding eq using set_take_join[OF mn(1), of L j] mn(3)
      by (cases "at_send a = None \<or> at_kept a") auto
    moreover have "\<exists>c. chain_run H (take ?m L) zero_chain = Inr c \<and> chain_Last c = ad_export (ex_db (try_export H a x))"
      unfolding eq using c d d'(2) q by (cases ?ok) (simp_all only: if_True if_False, auto)
    moreover have "?m \<le> ?n" "?n \<le> length L" using mn(1,2) jl by auto
    ultimately show ?thesis unfolding delivered_def by blast
  qed
  moreover have "m < ?m" if "goes_well L a" "m < length L"
  proof -
    have "length L \<le> k" using that(1) assms(3) unfolding goes_well_def by (metis length_take min.cobounded2)
    then show ?thesis using that by (auto simp: goes_well_def j_def)
  qed
  ultimately show thesis using that by auto
qed

lemma exports_deliver:
  assumes "chain_run H L zero_chain = Inr c" "list_all (\<lambda>a. prefix (at_log a) L) as"
  shows "\<exists>m n. delivered H L (exports H as) m n \<and> min (length L) (length (filter (goes_well L) as)) \<le> m"
  using assms(2)
proof (induction as rule: rev_induct)
  case Nil
  then show ?case
    by (auto simp: delivered_def exports_def start_export_def empty_audit_def zero_chain_def chain_Last_def chain_prev_def intro!: exI[of _ 0])
next
  case (snoc a as)
  then obtain m n where i: "delivered H L (exports H as) m n" "min (length L) (length (filter (goes_well L) as)) \<le> m" by auto
  have "prefix (at_log a) L" using snoc.prems by simp
  then obtain k where k: "at_log a = take k L" by (metis append_eq_conv_conj prefixE)
  obtain m' n' where "delivered H L (exports H (as @ [a])) m' n'" "m \<le> m'" "goes_well L a \<Longrightarrow> m < length L \<Longrightarrow> m < m'"
    using try_export_delivers[OF assms(1) i(1) k] exports_snoc by metis
  moreover from this have "min (length L) (length (filter (goes_well L) (as @ [a]))) \<le> m'" using i(2) by (cases "m < length L") auto
  ultimately show ?case by blast
qed

text \<open>
  C25: where the rows are only ever appended to, the receiver verifies what it holds whatever attempts failed, were repeated
  or were kept without being accepted: its lines are the first \<open>n\<close> entries of the log, the cursor is never past them, and
  as many attempts that go well as the log has entries are enough for it to hold the whole log.
\<close>

theorem the_receiver_verifies:
  assumes "chain_run H L zero_chain = Inr c" "list_all (\<lambda>a. prefix (at_log a) L) as"
  shows "\<exists>n \<le> length L. set (ex_held (exports H as)) = set (take n L) \<and> fst (ad_export (ex_db (exports H as))) \<le> int n \<and>
           VerifyExport H (ex_held (exports H as)) = (if n = 0 then Inl NoEntry else Inr (1, int n)) \<and>
           (length L \<le> length (filter (goes_well L) as) \<longrightarrow> n = length L)"
proof -
  obtain m n where d: "delivered H L (exports H as) m n" "min (length L) (length (filter (goes_well L) as)) \<le> m"
    using exports_deliver[OF assms] by blast
  obtain c' where "chain_run H (take n L) zero_chain = Inr c'" using chain_run_take[OF assms(1)] by blast
  then have "VerifyExport H (ex_held (exports H as)) = (if take n L = [] then Inl NoEntry else Inr (1, int (length (take n L))))"
    using d(1) by (intro VerifyExport_of_chain) (auto simp: delivered_def)
  moreover obtain d' where "chain_run H (take m L) zero_chain = Inr d'" "chain_Last d' = ad_export (ex_db (exports H as))"
    using d(1) by (auto simp: delivered_def)
  then have "fst (ad_export (ex_db (exports H as))) = int (length (take m L))" by (rule chain_end)
  ultimately show ?thesis using d by (intro exI[of _ n]) (auto simp: delivered_def)
qed

definition kept_unaccepted :: export_attempt where
  "kept_unaccepted = \<lparr>at_log = [first_row], at_batch = 500, at_send = Some ''503'', at_kept = True, at_mark = None\<rparr>"

definition accepted :: export_attempt where
  "accepted = \<lparr>at_log = [first_row], at_batch = 500, at_send = None, at_kept = True, at_mark = None\<rparr>"

theorem the_receiver_verifies_witness:
  "VerifyExport (\<lambda>_. Genesis) (ex_held (exports (\<lambda>_. Genesis) [kept_unaccepted, accepted])) = Inr (1, 1)"
proof -
  have c: "chain_run (\<lambda>_. Genesis) [first_row] zero_chain = Inr \<lparr>ch_seq = 1, ch_hash = Some Genesis\<rparr>"
    using first_row_chain[of "ae_Actor first_row"] by simp
  have "list_all (\<lambda>a. prefix (at_log a) [first_row]) [kept_unaccepted, accepted]"
    "filter (goes_well [first_row]) [kept_unaccepted, accepted] = [accepted]"
    by (simp_all add: kept_unaccepted_def accepted_def goes_well_def)
  then show ?thesis using the_receiver_verifies[OF c, of "[kept_unaccepted, accepted]"] by auto
qed

end
