(* ===== verification/Escape.thy ===== *)
theory Escape
  imports Golib
begin

text \<open>
  \<open>internal/expr/escape.go\<close> and the reading of \<open>internal/expr/interpolate.go\<close>: the rewriting of selector segments into the
  backtick form, with the offset of each byte in the source, and how a string of a workflow file is divided into text and
  expressions. A position in the source is what is left of it together with how many bytes came before. Compiling and
  evaluating an expression, and the text of a value, are arguments: CEL is a library.
\<close>

section \<open>Letters\<close>

definition isSpace :: "char \<Rightarrow> bool" where
  "isSpace c \<longleftrightarrow> c = CHR '' '' \<or> c = CHR 0x09 \<or> c = CHR 0x0D \<or> c = CHR 0x0A \<or> c = CHR 0x0C \<or> c = CHR 0x0B"

definition isHexDigit :: "char \<Rightarrow> bool" where
  "isHexDigit c \<longleftrightarrow> is_digit c \<or> CHR ''a'' \<le> c \<and> c \<le> CHR ''f'' \<or> CHR ''A'' \<le> c \<and> c \<le> CHR ''F''"

definition isLetter :: "char \<Rightarrow> bool" where
  "isLetter c \<longleftrightarrow> CHR ''A'' \<le> c \<and> c \<le> CHR ''Z'' \<or> CHR ''a'' \<le> c \<and> c \<le> CHR ''z''"

definition isIdentStart :: "char \<Rightarrow> bool" where
  "isIdentStart c \<longleftrightarrow> isLetter c \<or> c = CHR ''_''"

definition isIdentChar :: "char \<Rightarrow> bool" where
  "isIdentChar c \<longleftrightarrow> isIdentStart c \<or> is_digit c"

definition isQuote :: "char \<Rightarrow> bool" where
  "isQuote c \<longleftrightarrow> c = CHR 0x22 \<or> c = CHR 0x27"

abbreviation backtick :: char where "backtick \<equiv> CHR 0x60"

definition reservedWords :: "string list" where
  "reservedWords =
    [''as'', ''break'', ''const'', ''continue'', ''else'', ''false'', ''for'', ''function'', ''if'', ''import'',
     ''in'', ''let'', ''loop'', ''package'', ''namespace'', ''null'', ''return'', ''true'', ''var'', ''void'', ''while'']"

fun isBareIdentifier :: "string \<Rightarrow> bool" where
  "isBareIdentifier [] = False"
| "isBareIdentifier (c # s) = (isIdentStart c \<and> list_all isIdentChar s)"

section \<open>Tokens\<close>

text \<open>A scanner answers what it read and what is left.\<close>

datatype scan_error = StringUnclosed nat | StringRunsOver nat | BacktickUnclosed nat

fun triple_end :: "bool \<Rightarrow> char \<Rightarrow> string \<Rightarrow> (string \<times> string) option" where
  "triple_end raw q [] = None"
| "triple_end raw q [c] = None"
| "triple_end raw q (c # d # s) =
     (if \<not> raw \<and> c = CHR 0x5C then map_option (\<lambda>(w, r). (c # d # w, r)) (triple_end raw q s)
      else if c = q \<and> d = q \<and> s \<noteq> [] \<and> hd s = q then Some ([q, q, q], tl s)
      else map_option (\<lambda>(w, r). (c # w, r)) (triple_end raw q (d # s)))"

fun plain_end :: "nat \<Rightarrow> bool \<Rightarrow> char \<Rightarrow> string \<Rightarrow> (scan_error, string \<times> string) result" where
  "plain_end i raw q [] = Inl (StringUnclosed i)"
| "plain_end i raw q (c # s) =
     (if \<not> raw \<and> c = CHR 0x5C then
        (case s of [] \<Rightarrow> Inl (StringUnclosed i) | d # s' \<Rightarrow> map_sum id (\<lambda>(w, r). (c # d # w, r)) (plain_end i raw q s'))
      else if c = q then Inr ([c], s)
      else if c = CHR 0x0A then Inl (StringRunsOver i)
      else map_sum id (\<lambda>(w, r). (c # w, r)) (plain_end i raw q s))"

definition scanString :: "nat \<Rightarrow> bool \<Rightarrow> string \<Rightarrow> (scan_error, string \<times> string) result" where
  "scanString i raw s =
     (let q = hd s in
      if take 3 s = [q, q, q] then
        (case triple_end raw q (drop 3 s) of
           None \<Rightarrow> Inl (StringUnclosed i)
         | Some (w, r) \<Rightarrow> Inr ([q, q, q] @ w, r))
      else map_sum id (\<lambda>(w, r). (q # w, r)) (plain_end i raw q (tl s)))"

definition stringPrefix :: "string \<Rightarrow> bool option" where
  "stringPrefix word =
     (let w = to_lower word in
      if w = ''r'' then Some True else if w = ''b'' then Some False else if w = ''br'' then Some True else None)"

definition digits :: "string \<Rightarrow> string \<times> string" where
  "digits s = (takeWhile is_digit s, dropWhile is_digit s)"

text \<open>A fraction, an exponent and an unsigned suffix, where they follow a number.\<close>

definition fraction :: "string \<Rightarrow> string \<times> string" where
  "fraction s =
     (if 1 < length s \<and> s ! 0 = CHR ''.'' \<and> is_digit (s ! 1)
      then (CHR ''.'' # takeWhile is_digit (tl s), dropWhile is_digit (tl s)) else ([], s))"

definition exponent :: "string \<Rightarrow> string \<times> string" where
  "exponent s =
     (if s \<noteq> [] \<and> (hd s = CHR ''e'' \<or> hd s = CHR ''E'') then
        let (sign, r) = (if tl s \<noteq> [] \<and> (hd (tl s) = CHR ''+'' \<or> hd (tl s) = CHR ''-'') then ([hd (tl s)], tl (tl s)) else ([], tl s))
        in if r \<noteq> [] \<and> is_digit (hd r) then (hd s # sign @ takeWhile is_digit r, dropWhile is_digit r) else ([], s)
      else ([], s))"

definition unsigned_suffix :: "string \<Rightarrow> string \<times> string" where
  "unsigned_suffix s = (if s \<noteq> [] \<and> (hd s = CHR ''u'' \<or> hd s = CHR ''U'') then ([hd s], tl s) else ([], s))"

definition scanNumber :: "string \<Rightarrow> string \<times> string" where
  "scanNumber s =
     (let (w, r) =
        (if 1 < length s \<and> s ! 0 = CHR ''0'' \<and> (s ! 1 = CHR ''x'' \<or> s ! 1 = CHR ''X'')
         then (take 2 s @ takeWhile isHexDigit (drop 2 s), dropWhile isHexDigit (drop 2 s))
         else let (d, r1) = digits s; (f, r2) = fraction r1; (e, r3) = exponent r2 in (d @ f @ e, r3));
        (u, r') = unsigned_suffix r
      in (w @ u, r'))"

definition bareWord :: "string \<Rightarrow> string" where
  "bareWord s = takeWhile isIdentChar s"

function hyphenated :: "string \<Rightarrow> string \<times> string" where
  "hyphenated s =
     (if 1 < length s \<and> s ! 0 = CHR ''-'' \<and> isIdentStart (s ! 1)
      then let (w, r) = hyphenated (dropWhile isIdentChar (tl s)) in (CHR ''-'' # takeWhile isIdentChar (tl s) @ w, r)
      else ([], s))"
  by pat_completeness auto
termination
  by (relation "measure length") (auto simp: length_dropWhile_le less_Suc_eq_le intro: le_less_trans[OF length_dropWhile_le])

declare hyphenated.simps [simp del]

definition scanSegment :: "string \<Rightarrow> string \<times> string" where
  "scanSegment s =
     (if s = [] \<or> \<not> isIdentChar (hd s) then ([], s)
      else let (w, r) = hyphenated (dropWhile isIdentChar s) in (takeWhile isIdentChar s @ w, r))"

definition scanBacktick :: "nat \<Rightarrow> string \<Rightarrow> (scan_error, string \<times> string) result" where
  "scanBacktick i s =
     (let w = takeWhile (\<lambda>c. c \<noteq> backtick) (tl s); r = dropWhile (\<lambda>c. c \<noteq> backtick) (tl s)
      in if r = [] then Inl (BacktickUnclosed i) else Inr (backtick # w @ [backtick], tl r))"

definition scanIdent :: "nat \<Rightarrow> string \<Rightarrow> (scan_error, string \<times> string) result" where
  "scanIdent i s =
     (let w = takeWhile isIdentChar s; r = dropWhile isIdentChar s in
      if r \<noteq> [] \<and> isQuote (hd r) then
        (case stringPrefix w of
           None \<Rightarrow> Inr (w, r)
         | Some raw \<Rightarrow> map_sum id (\<lambda>(w', r'). (w @ w', r')) (scanString (i + length w) raw r))
      else Inr (w, r))"

text \<open>What follows a selecting dot: the optional mark and the space copied, what is inserted, the segment, the rest.\<close>

definition after_dot :: "string \<Rightarrow> string \<times> string" where
  "after_dot s =
     (let (m, r) = (if s \<noteq> [] \<and> hd s = CHR ''?'' then ([CHR ''?''], tl s) else ([], s))
      in (m @ takeWhile isSpace r, dropWhile isSpace r))"

datatype segment = NoSegment | MethodWord string | BareSegment string | EscapedSegment string

definition segment_of :: "string \<Rightarrow> segment \<times> string" where
  "segment_of s =
     (let (seg, r) = scanSegment s; ahead = dropWhile isSpace r in
      if seg = [] then (NoSegment, s)
      else if ahead \<noteq> [] \<and> hd ahead = CHR ''('' then (MethodWord (bareWord s), drop (length (bareWord s)) s)
      else if isBareIdentifier seg \<and> seg \<notin> set reservedWords then (BareSegment seg, r)
      else (EscapedSegment seg, r))"

section \<open>The rewriting\<close>

text \<open>The output is a list of bytes, each with the offset it is attributed to.\<close>

definition copyRange :: "nat \<Rightarrow> string \<Rightarrow> (char \<times> nat) list" where
  "copyRange i w = zip w [i..<i + length w]"

text \<open>One turn of the loop: the bytes it copies, the segment it puts in backticks after them, whether a dot selects from what it read, and what is left.\<close>

definition turn :: "nat \<Rightarrow> bool \<Rightarrow> char \<Rightarrow> string \<Rightarrow> (scan_error, string \<times> string \<times> bool \<times> string) result" where
  "turn i operand c s =
     (let plain = (\<lambda>op (w, r). (w, [], op, r)) in
      if isSpace c then Inr ([c], [], operand, s)
      else if c = CHR ''/'' \<and> s \<noteq> [] \<and> hd s = CHR ''/'' then
        Inr (takeWhile (\<lambda>d. d \<noteq> CHR 0x0A) (c # s), [], operand, dropWhile (\<lambda>d. d \<noteq> CHR 0x0A) (c # s))
      else if isQuote c then map_sum id (plain True) (scanString i False (c # s))
      else if c = backtick then map_sum id (plain True) (scanBacktick i (c # s))
      else if is_digit c then Inr (plain False (scanNumber (c # s)))
      else if isIdentStart c then map_sum id (plain True) (scanIdent i (c # s))
      else if c = CHR ''.'' \<and> operand then
        let (m, r) = after_dot s in
        (case segment_of r of
           (NoSegment, r') \<Rightarrow> Inr (c # m, [], False, r')
         | (MethodWord w, r') \<Rightarrow> Inr (c # m @ w, [], True, r')
         | (BareSegment w, r') \<Rightarrow> Inr (c # m @ w, [], True, r')
         | (EscapedSegment w, r') \<Rightarrow> Inr (c # m, w, True, r'))
      else Inr ([c], [], c = CHR '')'' \<or> c = CHR '']'' \<or> c = CHR ''}'', s))"

lemma map_sum_Inr [simp]: "map_sum g f x = Inr y \<longleftrightarrow> (\<exists>z. x = Inr z \<and> y = f z)"
  by (cases x) auto

text \<open>A scanner divides what it is given.\<close>

lemma plain_end_text: "plain_end i raw q s = Inr (w, r) \<Longrightarrow> w @ r = s"
proof (induction i raw q s arbitrary: w rule: plain_end.induct)
  case (2 i raw q c s)
  then show ?case by (auto split: if_splits list.splits)
qed simp

lemma triple_end_text: "triple_end raw q s = Some (w, r) \<Longrightarrow> w @ r = s"
proof (induction raw q s arbitrary: w rule: triple_end.induct)
  case (3 raw q c d s)
  then show ?case by (cases s) (auto split: if_splits)
qed simp_all

lemma scanString_text: "scanString i raw s = Inr (w, r) \<Longrightarrow> s \<noteq> [] \<Longrightarrow> w @ r = s \<and> w \<noteq> []"
  by (cases s; cases "take 3 s = [hd s, hd s, hd s]")
    (auto simp: scanString_def split: option.splits dest!: plain_end_text triple_end_text,
     metis append_take_drop_id append_Cons append_Nil drop_Suc_Cons numeral_3_eq_3 take_Suc_Cons)

lemma hyphenated_text: "hyphenated s = (w, r) \<Longrightarrow> w @ r = s"
proof (induction s arbitrary: w rule: hyphenated.induct)
  case (1 s)
  from 1(2) show ?case
  proof (cases "1 < length s \<and> s ! 0 = CHR ''-'' \<and> isIdentStart (s ! 1)")
    case True
    then obtain t where t: "s = CHR ''-'' # t" by (cases s) auto
    obtain v r' where v: "hyphenated (dropWhile isIdentChar t) = (v, r')" by fastforce
    then have "w = CHR ''-'' # takeWhile isIdentChar t @ v" "r = r'" using 1(2) True unfolding t by (auto simp: hyphenated.simps[of "CHR ''-'' # t"])
    then show ?thesis using 1(1)[OF True, of v] v t by simp
  qed (use 1(2) in \<open>auto simp: hyphenated.simps[of s]\<close>)
qed

lemma scanSegment_text: "scanSegment s = (w, r) \<Longrightarrow> w @ r = s"
  by (auto simp: scanSegment_def split: if_splits prod.splits dest!: hyphenated_text)

lemma exponent_text: "exponent s = (w, r) \<Longrightarrow> w @ r = s"
  by (cases s; cases "tl s") (auto simp: exponent_def split: if_splits)

lemma fraction_text: "fraction s = (w, r) \<Longrightarrow> w @ r = s"
  by (cases s) (auto simp: fraction_def split: if_splits)

lemma unsigned_suffix_text: "unsigned_suffix s = (w, r) \<Longrightarrow> w @ r = s"
  by (cases s) (auto simp: unsigned_suffix_def split: if_splits)

lemma scanNumber_text: "scanNumber (c # s) = (w, r) \<Longrightarrow> is_digit c \<Longrightarrow> w @ r = c # s \<and> w \<noteq> []"
  by (auto simp: scanNumber_def digits_def split: if_splits prod.splits dest!: exponent_text fraction_text unsigned_suffix_text)

lemma scanBacktick_text: "scanBacktick i (c # s) = Inr (w, r) \<Longrightarrow> c = backtick \<Longrightarrow> w @ r = c # s \<and> w \<noteq> []"
proof -
  assume a: "scanBacktick i (c # s) = Inr (w, r)" "c = backtick"
  let ?r = "dropWhile (\<lambda>c. c \<noteq> backtick) s"
  have n: "?r \<noteq> []" "w = backtick # takeWhile (\<lambda>c. c \<noteq> backtick) s @ [backtick]" "r = tl ?r"
    using a by (auto simp: scanBacktick_def Let_def split: if_splits)
  have "hd ?r = backtick" using hd_dropWhile[OF n(1)] by simp
  then have "[backtick] @ tl ?r = ?r" using n(1) by (cases ?r) auto
  then show ?thesis using n a(2) by simp
qed

lemma scanIdent_text: "scanIdent i (c # s) = Inr (w, r) \<Longrightarrow> isIdentStart c \<Longrightarrow> w @ r = c # s \<and> w \<noteq> []"
  by (auto simp: scanIdent_def isIdentChar_def Let_def split: if_splits option.splits dest!: scanString_text)

lemma after_dot_text: "after_dot s = (w, r) \<Longrightarrow> w @ r = s"
  by (cases s) (auto simp: after_dot_def split: if_splits)

lemma segment_of_text:
  "segment_of s = (g, r) \<Longrightarrow> (case g of NoSegment \<Rightarrow> [] | MethodWord w \<Rightarrow> w | BareSegment w \<Rightarrow> w | EscapedSegment w \<Rightarrow> w) @ r = s"
  by (auto simp: segment_of_def bareWord_def Let_def split: if_splits prod.splits dest!: scanSegment_text
      simp flip: dropWhile_eq_drop)

lemma turn_cases:
  assumes "turn i operand c s = Inr (w, seg, op, r)"
  obtains
    (space) "isSpace c" "w = [c]" "seg = []" "op = operand" "r = s"
  | (remark) "c = CHR ''/''" "s \<noteq> []" "hd s = CHR ''/''" "w = takeWhile (\<lambda>d. d \<noteq> CHR 0x0A) (c # s)" "seg = []" "op = operand"
      "r = dropWhile (\<lambda>d. d \<noteq> CHR 0x0A) (c # s)"
  | (quoted) "isQuote c" "scanString i False (c # s) = Inr (w, r)" "seg = []" "op"
  | (ticked) "c = backtick" "scanBacktick i (c # s) = Inr (w, r)" "seg = []" "op"
  | (numeral) "is_digit c" "scanNumber (c # s) = (w, r)" "seg = []" "\<not> op"
  | (ident) "isIdentStart c" "scanIdent i (c # s) = Inr (w, r)" "seg = []" "op"
  | (unselected) m r1 where "c = CHR ''.''" "operand" "after_dot s = (m, r1)" "segment_of r1 = (NoSegment, r)" "w = c # m" "seg = []" "\<not> op"
  | (selected) m r1 v where "c = CHR ''.''" "operand" "after_dot s = (m, r1)"
      "segment_of r1 = (MethodWord v, r) \<or> segment_of r1 = (BareSegment v, r)" "w = c # m @ v" "seg = []" "op"
  | (escaped) m r1 where "c = CHR ''.''" "operand" "after_dot s = (m, r1)" "segment_of r1 = (EscapedSegment seg, r)" "w = c # m" "op"
  | (other) "\<not> isSpace c" "\<not> (c = CHR ''/'' \<and> s \<noteq> [] \<and> hd s = CHR ''/'')" "\<not> isQuote c" "c \<noteq> backtick" "\<not> is_digit c" "\<not> isIdentStart c"
      "\<not> (c = CHR ''.'' \<and> operand)" "w = [c]" "seg = []" "op \<longleftrightarrow> c = CHR '')'' \<or> c = CHR '']'' \<or> c = CHR ''}''" "r = s"
proof -
  obtain m r1 where d: "after_dot s = (m, r1)" by fastforce
  obtain g r2 where g: "segment_of r1 = (g, r2)" by fastforce
  consider "isSpace c" | "\<not> isSpace c" "c = CHR ''/''" "s \<noteq> []" "hd s = CHR ''/''"
    | "\<not> isSpace c" "\<not> (c = CHR ''/'' \<and> s \<noteq> [] \<and> hd s = CHR ''/'')" "isQuote c"
    | "\<not> isSpace c" "\<not> (c = CHR ''/'' \<and> s \<noteq> [] \<and> hd s = CHR ''/'')" "\<not> isQuote c" by blast
  then show thesis
  proof cases
    case 1
    then show thesis using assms space by (simp add: turn_def)
  next
    case 2
    then show thesis using assms remark by (simp add: turn_def)
  next
    case 3
    then show thesis using assms quoted by (auto simp: turn_def Let_def)
  next
    case n: 4
    consider "c = backtick" | "c \<noteq> backtick" "is_digit c" | "c \<noteq> backtick" "\<not> is_digit c" "isIdentStart c"
      | "c \<noteq> backtick" "\<not> is_digit c" "\<not> isIdentStart c" "c = CHR ''.'' \<and> operand"
      | "c \<noteq> backtick" "\<not> is_digit c" "\<not> isIdentStart c" "\<not> (c = CHR ''.'' \<and> operand)" by blast
    then show thesis
    proof cases
      case 1
      then show thesis using assms n ticked by (auto simp: turn_def Let_def)
    next
      case 2
      then show thesis using assms n numeral by (cases "scanNumber (c # s)") (simp add: turn_def Let_def)
    next
      case 3
      then show thesis using assms n ident by (auto simp: turn_def Let_def)
    next
      case 4
      then show thesis
        using assms n d g unselected[OF _ _ d] selected[OF _ _ d] escaped[OF _ _ d] by (cases g) (simp_all add: turn_def Let_def)
    next
      case 5
      then have "turn i operand c s = Inr ([c], [], c = CHR '')'' \<or> c = CHR '']'' \<or> c = CHR ''}'', s)"
        using n unfolding turn_def Let_def by (simp only: if_False)
      then show thesis using assms n 5 other by simp
    qed
  qed
qed

lemma turn_text: "turn i operand c s = Inr (w, seg, op, r) \<Longrightarrow> w @ seg @ r = c # s \<and> w \<noteq> []"
proof (erule turn_cases, goal_cases)
  case 3
  then show ?case using scanString_text by fastforce
next
  case (8 m r1 v)
  then show ?case using after_dot_text[OF 8(3)] segment_of_text[of r1] by auto
qed (auto dest!: scanBacktick_text scanNumber_text scanIdent_text after_dot_text segment_of_text)

function escape_from :: "nat \<Rightarrow> bool \<Rightarrow> string \<Rightarrow> (scan_error, (char \<times> nat) list) result" where
  "escape_from i operand [] = Inr []"
| "escape_from i operand (c # s) =
     (case turn i operand c s of
        Inl e \<Rightarrow> Inl e
      | Inr (w, seg, op, r) \<Rightarrow>
          let j = i + length w; k = j + length seg;
              out = copyRange i w @ (if seg = [] then [] else (backtick, j) # copyRange j seg @ [(backtick, k)])
          in map_sum id (\<lambda>more. out @ more) (escape_from k op r))"
  by pat_completeness auto
termination
proof (relation "measure (\<lambda>(i, operand, s). length s)", goal_cases)
  case (2 i operand c s x w y seg z op r j k out)
  then show ?case using turn_text[of i operand c s w seg op r] arg_cong[of "w @ seg @ r" "c # s" length] by (cases w) auto
qed simp

definition Escape :: "string \<Rightarrow> (scan_error, string \<times> nat list) result" where
  "Escape src = map_sum id (\<lambda>out. (map fst out, map snd out @ [length src])) (escape_from 0 False src)"

definition sourceOffset :: "nat list \<Rightarrow> int \<Rightarrow> nat" where
  "sourceOffset offsets at =
     (if offsets = [] then 0
      else if at < 0 then offsets ! 0
      else if int (length offsets) \<le> at then last offsets
      else offsets ! nat at)"

end
