(* ===== verification/Templates.thy ===== *)
theory Templates
  imports Escape "HOL-Library.Sublist"
begin

text \<open>
  \<open>internal/expr/interpolate.go\<close>: a string of a workflow file divided into text and the expressions in \<open>${{ }}\<close>, and what it
  evaluates to. Compiling an expression, whether the checker says it is a secret, evaluating it and the text of a value are
  arguments, since they are CEL's.
\<close>

section \<open>Where an expression ends\<close>

definition openBraces :: string where "openBraces = ''${{''"
definition closeBraces :: string where "closeBraces = ''}}''"

datatype template_error =
    Scan scan_error
  | NeverClosed nat
  | CommentRunsOn nat
  | ClosesNothing nat
  | NotCompiled string
  | SecretEmbedded string

text \<open>
  \<open>scanInterpolation\<close> is given what follows the opening braces, the offset they opened at and the offset it is at; it
  answers the text of the expression and what is left after the closing braces. One turn answers what it read, the depth
  after it and what is left, or that the expression is over.
\<close>

definition interp_turn :: "nat \<Rightarrow> nat \<Rightarrow> nat \<Rightarrow> char \<Rightarrow> string \<Rightarrow> (template_error, (string \<times> nat \<times> string) option) result" where
  "interp_turn opened i depth c s =
     (let word = (\<lambda>res. map_sum Scan (\<lambda>(w, r). Some (w, depth, r)) res) in
      if isQuote c then word (scanString i False (c # s))
      else if isIdentStart c then word (scanIdent i (c # s))
      else if c = backtick then word (scanBacktick i (c # s))
      else if c = CHR ''/'' \<and> s \<noteq> [] \<and> hd s = CHR ''/'' then
        (let w = takeWhile (\<lambda>d. d \<noteq> CHR 0x0A) (c # s); r = dropWhile (\<lambda>d. d \<noteq> CHR 0x0A) (c # s)
         in if r = [] then Inl (CommentRunsOn opened) else Inr (Some (w @ [CHR 0x0A], depth, tl r)))
      else if c = CHR ''{'' then Inr (Some ([c], depth + 1, s))
      else if c = CHR ''}'' then
        (if 0 < depth then Inr (Some ([c], depth - 1, s))
         else if s \<noteq> [] \<and> hd s = CHR ''}'' then Inr None
         else Inl (ClosesNothing i))
      else Inr (Some ([c], depth, s)))"

lemma interp_turn_text: "interp_turn opened i depth c s = Inr (Some (w, d, r)) \<Longrightarrow> w @ r = c # s \<and> w \<noteq> []"
proof -
  assume t: "interp_turn opened i depth c s = Inr (Some (w, d, r))"
  have cut: "takeWhile P x @ CHR 0x0A # tl (dropWhile P x) = x" if "P = (\<lambda>d. d \<noteq> CHR 0x0A)" "dropWhile P x \<noteq> []" for P and x :: string
    using that hd_dropWhile[OF that(2)] by (metis list.collapse takeWhile_dropWhile_id)
  show ?thesis
  proof (cases "isQuote c \<or> isIdentStart c \<or> c = backtick")
    case True
    then show ?thesis
      using t scanString_text[of i False "c # s"] scanIdent_text[of i c s] scanBacktick_text[of i c s]
      by (cases "scanString i False (c # s)"; cases "scanIdent i (c # s)"; cases "scanBacktick i (c # s)")
        (auto simp: interp_turn_def Let_def split: if_splits)
  next
    case False
    then show ?thesis using t cut[OF refl, of "c # s"] by (auto simp: interp_turn_def Let_def split: if_splits)
  qed
qed

function scanInterpolation :: "nat \<Rightarrow> nat \<Rightarrow> nat \<Rightarrow> string \<Rightarrow> (template_error, string \<times> string) result" where
  "scanInterpolation opened i depth [] = Inl (NeverClosed opened)"
| "scanInterpolation opened i depth (c # s) =
     (case interp_turn opened i depth c s of
        Inl e \<Rightarrow> Inl e
      | Inr None \<Rightarrow> Inr ([], tl s)
      | Inr (Some (w, d, r)) \<Rightarrow> map_sum id (\<lambda>(e, r'). (w @ e, r')) (scanInterpolation opened (i + length w) d r))"
  by pat_completeness auto
termination
proof (relation "measure (\<lambda>(opened, i, depth, s). length s)", goal_cases)
  case (2 opened i depth c s x y w z d r)
  then show ?case using interp_turn_text[of opened i depth c s w d r] arg_cong[of "w @ r" "c # s" length] by (cases w) auto
qed simp

section \<open>Templates\<close>

text \<open>A program is kept with the text it was compiled from, as \<open>Program.Source\<close> is.\<close>

datatype 'p part = Text string | Prog string 'p

record 'p Template =
  tm_source :: string
  tm_parts :: "'p part list"
  tm_whole :: bool

fun cut_open :: "string \<Rightarrow> (string \<times> string) option" where
  "cut_open [] = None"
| "cut_open (c # s) =
     (if prefix openBraces (c # s) then Some ([], drop (length openBraces) (c # s))
      else map_option (\<lambda>(b, a). (c # b, a)) (cut_open s))"

lemma cut_open_text: "cut_open s = Some (b, a) \<Longrightarrow> s = b @ openBraces @ a"
proof (induction s arbitrary: b)
  case (Cons c s)
  then show ?case by (auto split: if_splits simp: prefix_def)
qed simp

lemma scanInterpolation_text: "scanInterpolation opened i depth s = Inr (e, r) \<Longrightarrow> s = e @ closeBraces @ r"
proof (induction opened i depth s arbitrary: e rule: scanInterpolation.induct)
  case (2 opened i depth c s)
  then obtain x where x: "interp_turn opened i depth c s = Inr x" by (cases "interp_turn opened i depth c s") auto
  show ?case
  proof (cases x)
    case None
    then have "c = CHR ''}''" "s \<noteq> []" "hd s = CHR ''}''" using x by (auto simp: interp_turn_def Let_def split: if_splits)
    then show ?thesis using 2 x None by (cases s) (auto simp: closeBraces_def)
  next
    case (Some y)
    obtain w d r' where y: "y = (w, d, r')" by (cases y) auto
    then obtain e' where e': "scanInterpolation opened (i + length w) d r' = Inr (e', r)" "e = w @ e'" using 2(2) x Some by auto
    have "r' = e' @ closeBraces @ r" using 2(1)[OF x Some[unfolded y] refl refl e'(1)] by simp
    then show ?thesis using interp_turn_text[OF x[unfolded Some y]] e'(2) by simp
  qed
qed simp

text \<open>Offsets are counted from the beginning of the source.\<close>

function interpolate_from :: "(string \<Rightarrow> (string, 'p) result) \<Rightarrow> nat \<Rightarrow> string \<Rightarrow> (template_error, 'p part list) result" where
  "interpolate_from Compile i s =
     (case cut_open s of
        None \<Rightarrow> Inr (if s = [] then [] else [Text s])
      | Some (before, after) \<Rightarrow>
          (let at = i + length before; start = at + length openBraces in
           case scanInterpolation at start 0 after of
             Inl e \<Rightarrow> Inl e
           | Inr (src, rest) \<Rightarrow>
               (case Compile src of
                  Inl e \<Rightarrow> Inl (NotCompiled e)
                | Inr prog \<Rightarrow>
                    map_sum id (\<lambda>parts. (if before = [] then [] else [Text before]) @ Prog src prog # parts)
                      (interpolate_from Compile (start + length src + length closeBraces) rest))))"
  by pat_completeness auto
termination
  by (relation "measure (\<lambda>(Compile, i, s). length s)")
    (auto dest!: cut_open_text scanInterpolation_text simp: openBraces_def)

declare interpolate_from.simps [simp del]

definition is_prog :: "'p part \<Rightarrow> bool" where
  "is_prog p \<longleftrightarrow> (case p of Text _ \<Rightarrow> False | Prog _ _ \<Rightarrow> True)"

definition secret_in :: "('p \<Rightarrow> bool) \<Rightarrow> 'p part list \<Rightarrow> string option" where
  "secret_in isSecret parts =
     map_option (\<lambda>p. case p of Text t \<Rightarrow> t | Prog src _ \<Rightarrow> src)
       (find (\<lambda>p. case p of Text _ \<Rightarrow> False | Prog _ prog \<Rightarrow> isSecret prog) parts)"

definition Interpolate :: "(string \<Rightarrow> (string, 'p) result) \<Rightarrow> ('p \<Rightarrow> bool) \<Rightarrow> string \<Rightarrow> (template_error, 'p Template) result" where
  "Interpolate Compile isSecret s =
     rbind (interpolate_from Compile 0 s) (\<lambda>parts.
     let whole = (length parts = 1 \<and> is_prog (hd parts)) in
     case (if whole then None else secret_in isSecret parts) of
       Some src \<Rightarrow> Inl (SecretEmbedded src)
     | None \<Rightarrow> Inr \<lparr>tm_source = s, tm_parts = parts, tm_whole = whole\<rparr>)"

definition Programs :: "'p Template \<Rightarrow> 'p list" where
  "Programs t = concat (map (\<lambda>p. case p of Text _ \<Rightarrow> [] | Prog _ prog \<Rightarrow> [prog]) (tm_parts t))"

text \<open>A value of a template is the value of the one expression that fills it, or text.\<close>

datatype 'v evaluated = Typed 'v | AsText string

fun evaluate_parts :: "('p \<Rightarrow> (string, 'v) result) \<Rightarrow> ('v \<Rightarrow> (string, string) result) \<Rightarrow> 'p part list \<Rightarrow> (string, string) result" where
  "evaluate_parts eval asText [] = Inr []"
| "evaluate_parts eval asText (Text t # ps) = map_sum id (\<lambda>r. t @ r) (evaluate_parts eval asText ps)"
| "evaluate_parts eval asText (Prog _ p # ps) =
     rbind (eval p) (\<lambda>v. rbind (asText v) (\<lambda>t. map_sum id (\<lambda>r. t @ r) (evaluate_parts eval asText ps)))"

definition Evaluate :: "('p \<Rightarrow> (string, 'v) result) \<Rightarrow> ('v \<Rightarrow> (string, string) result) \<Rightarrow> 'p Template \<Rightarrow> (string, 'v evaluated) result" where
  "Evaluate eval asText t =
     (if tm_whole t then
        (case tm_parts t of Prog _ p # _ \<Rightarrow> map_sum id Typed (eval p) | _ \<Rightarrow> Inr (AsText []))
      else map_sum id AsText (evaluate_parts eval asText (tm_parts t)))"

end
