(* ===== verification/Escaping.thy ===== *)
theory Escaping
  imports Escape
begin

text \<open>
  What the rewriting of an expression promises: it only adds backticks, and says of each byte where it came from; and a text
  that has been rewritten is left as it is.
\<close>

section \<open>Offsets\<close>

lemma copyRange_Cons [simp]: "copyRange i (c # w) = (c, i) # copyRange (Suc i) w"
  by (simp add: copyRange_def upt_conv_Cons del: upt_Suc)

lemma copyRange_Nil [simp]: "copyRange i [] = []"
  by (simp add: copyRange_def)

lemma copyRange_append: "copyRange i (v @ w) = copyRange i v @ copyRange (i + length v) w"
  by (induction v arbitrary: i) auto

lemma fst_copyRange [simp]: "map fst (copyRange i w) = w"
  by (induction w arbitrary: i) auto

lemma snd_copyRange [simp]: "map snd (copyRange i w) = [i..<i + length w]"
  by (simp add: copyRange_def)

lemma length_copyRange [simp]: "length (copyRange i w) = length w"
  by (simp add: copyRange_def)

text \<open>The bytes that are the author's, and those that were added.\<close>

definition authored :: "('a \<times> bool) list \<Rightarrow> 'a list" where
  "authored xs = map fst (filter (\<lambda>x. \<not> snd x) xs)"

definition adds_backticks :: "(char \<times> nat) list \<Rightarrow> nat \<Rightarrow> string \<Rightarrow> bool list \<Rightarrow> bool" where
  "adds_backticks out i s added \<longleftrightarrow>
     length added = length out \<and> authored (zip out added) = copyRange i s \<and>
     list_all (\<lambda>(p, b). b \<longrightarrow> fst p = backtick) (zip out added) \<and>
     sorted (map snd out) \<and> list_all (\<lambda>p. i \<le> snd p \<and> snd p \<le> i + length s) out"

lemma adds_nothing: "adds_backticks (copyRange i w) i w (replicate (length w) False)"
proof -
  have "zip (copyRange i w) (replicate (length w) False) = map (\<lambda>p. (p, False)) (copyRange i w)"
    by (simp add: zip_replicate2)
  then show ?thesis
    by (auto simp: adds_backticks_def authored_def list_all_iff comp_def filter_map copyRange_def dest!: set_zip_rightD)
qed

lemma adds_append:
  assumes "adds_backticks out i s a" "adds_backticks out' (i + length s) s' a'"
  shows "adds_backticks (out @ out') i (s @ s') (a @ a')"
  using assms by (fastforce simp: adds_backticks_def authored_def copyRange_append sorted_append list_all_iff)

lemma adds_backtick: "adds_backticks [(backtick, i)] i [] [True]"
  by (simp add: adds_backticks_def authored_def)

lemma escape_from_adds: "escape_from i operand s = Inr out \<Longrightarrow> \<exists>added. adds_backticks out i s added"
proof (induction i operand s arbitrary: out rule: escape_from.induct)
  case (1 i operand)
  then show ?case using adds_nothing[of i "[]"] by auto
next
  case (2 i operand c s)
  obtain w seg op r where t: "turn i operand c s = Inr (w, seg, op, r)" using 2(2) by (cases "turn i operand c s") auto
  let ?k = "i + length w + length seg"
  obtain out' where o: "escape_from ?k op r = Inr out'" using 2(2) t by (auto simp: Let_def)
  have out: "out = copyRange i w @ (if seg = [] then [] else (backtick, i + length w) # copyRange (i + length w) seg @ [(backtick, ?k)]) @ out'"
    using 2(2) t o by (auto simp: Let_def)
  obtain a where a: "adds_backticks out' ?k r a" using 2(1)[OF t refl refl refl refl refl refl o] by blast
  have "\<exists>b. adds_backticks (if seg = [] then [] else (backtick, i + length w) # copyRange (i + length w) seg @ [(backtick, ?k)]) (i + length w) seg b"
    using adds_append[OF adds_append[OF adds_backtick[of "i + length w"]], of "copyRange (i + length w) seg" seg "replicate (length seg) False"]
      adds_nothing[of "i + length w" seg] adds_backtick[of ?k] adds_nothing[of "i + length w" "[]"] by fastforce
  then obtain b where b: "adds_backticks (if seg = [] then [] else (backtick, i + length w) # copyRange (i + length w) seg @ [(backtick, ?k)]) (i + length w) seg b" ..
  show ?case using adds_append[OF adds_nothing adds_append[OF b a]] out turn_text[OF t] by metis
qed

text \<open>
  An expression that is rewritten keeps every byte its author wrote, in order and attributed to where it was written, and
  the bytes added are backticks; the offsets never go back and end at the end of the source, so a position in what the
  parser reads always names a place in what the author wrote.
\<close>

theorem escape_only_adds_backticks:
  assumes "Escape src = Inr (out, off)"
  shows "\<exists>added. length added = length out \<and> authored (zip (zip out off) added) = zip src [0..<length src] \<and>
           set (authored (zip out (map Not added))) \<subseteq> {backtick} \<and>
           sorted off \<and> length off = Suc (length out) \<and> last off = length src"
proof -
  obtain ps where ps: "escape_from 0 False src = Inr ps" "out = map fst ps" "off = map snd ps @ [length src]"
    using assms by (auto simp: Escape_def)
  obtain added where a: "adds_backticks ps 0 src added" using escape_from_adds[OF ps(1)] by blast
  have "zip out off = ps" using ps(2,3) zip_append1[of "map fst ps" "[]" off] by (simp add: zip_append2 zip_map_fst_snd)
  moreover have "set (authored (zip out (map Not added))) \<subseteq> {backtick}"
    using a ps(2) by (fastforce simp: adds_backticks_def authored_def list_all_iff zip_map_map zip_map1 zip_map2)
  ultimately show ?thesis
    using a ps by (intro exI[of _ added]) (auto simp: adds_backticks_def copyRange_def sorted_append list_all_iff)
qed

theorem escape_only_adds_backticks_witness:
  "\<exists>added. length added = 17 \<and> set (authored (zip ''inputs.`in`.count'' (map Not added))) \<subseteq> {backtick}"
proof -
  have "Escape ''inputs.in.count'' = Inr (''inputs.`in`.count'', [0, 1, 2, 3, 4, 5, 6, 7, 7, 8, 9, 9, 10, 11, 12, 13, 14, 15])"
    by code_simp
  from escape_only_adds_backticks[OF this] obtain added where
    "length added = length ''inputs.`in`.count''" "set (authored (zip ''inputs.`in`.count'' (map Not added))) \<subseteq> {backtick}"
    by blast
  then show ?thesis by (intro exI[of _ added]) simp
qed

section \<open>Once is enough\<close>

text \<open>What a scanner reads, it reads before another rest.\<close>

lemma plain_end_rest: "plain_end i raw q s = Inr (w, r) \<Longrightarrow> plain_end j raw q (w @ t) = Inr (w, t)"
proof (induction i raw q s arbitrary: w rule: plain_end.induct)
  case (2 i raw q c s)
  then show ?case by (auto split: if_splits list.splits)
qed simp

lemma triple_end_long: "triple_end raw q s = Some (w, r) \<Longrightarrow> 3 \<le> length w"
proof (induction raw q s arbitrary: w rule: triple_end.induct)
  case (3 raw q c d s)
  then show ?case by (auto split: if_splits)
qed simp_all

lemma triple_end_rest: "triple_end raw q s = Some (w, r) \<Longrightarrow> triple_end raw q (w @ t) = Some (w, t)"
proof (induction raw q s arbitrary: w rule: triple_end.induct)
  case (3 raw q c d s)
  show ?case
  proof (cases "\<not> raw \<and> c = CHR 0x5C \<or> c = q \<and> d = q \<and> s \<noteq> [] \<and> hd s = q")
    case True
    then show ?thesis using 3 by (auto split: if_splits)
  next
    case False
    then obtain v where v: "triple_end raw q (d # s) = Some (v, r)" "w = c # v" using 3(3) by (auto split: if_splits)
    obtain x y z where x: "v = d # x # y # z" "s = (x # y # z) @ r"
      using triple_end_long[OF v(1)] triple_end_text[OF v(1)] by (cases v; cases "tl v"; cases "tl (tl v)") auto
    have "triple_end raw q (v @ t) = Some (v, t)" using 3(2)[OF _ _ v(1)] False by auto
    then show ?thesis using False v(2) x by auto
  qed
qed simp_all

lemma scanString_rest:
  assumes "scanString i raw s = Inr (w, r)" "s \<noteq> []" "take 1 t = take 1 r"
  shows "scanString j raw (w @ t) = Inr (w, t)"
proof (cases "take 3 s = [hd s, hd s, hd s]")
  case True
  then obtain v where "triple_end raw (hd s) (drop 3 s) = Some (v, r)" "w = [hd s, hd s, hd s] @ v"
    using assms(1) by (auto simp: scanString_def Let_def split: option.splits)
  then show ?thesis using triple_end_rest[of raw "hd s" "drop 3 s" v r t] by (simp add: scanString_def Let_def)
next
  case False
  then obtain v where v: "plain_end i raw (hd s) (tl s) = Inr (v, r)" "w = hd s # v" using assms(1) by (auto simp: scanString_def Let_def)
  have "v \<noteq> []" using v(1) by (cases "tl s") (auto split: if_splits list.splits)
  moreover have "s = hd s # v @ r" using assms(2) plain_end_text[OF v(1)] by simp
  then have "take 3 (hd s # v @ r) \<noteq> [hd s, hd s, hd s]" using False by metis
  ultimately have "take 3 (hd s # v @ t) \<noteq> [hd s, hd s, hd s]"
    using assms(3) by (cases v; cases "tl v"; cases t; cases r) (auto simp: numeral_3_eq_3)
  then show ?thesis using v plain_end_rest[OF v(1)] by (simp add: scanString_def Let_def)
qed

lemma scanBacktick_rest: "scanBacktick i (c # s) = Inr (w, r) \<Longrightarrow> c = backtick \<Longrightarrow> scanBacktick j (w @ t) = Inr (w, t)"
  by (auto simp: scanBacktick_def Let_def takeWhile_append dropWhile_append split: if_splits dest: set_takeWhileD)

lemma word_rest:
  assumes "list_all P v" "t = [] \<or> \<not> P (hd t)"
  shows "takeWhile P (v @ t) = v" "dropWhile P (v @ t) = t"
proof -
  have p: "\<And>x. x \<in> set v \<Longrightarrow> P x" using assms(1) by (simp add: list_all_iff)
  have t: "takeWhile P t = []" "dropWhile P t = t" using assms(2) by (cases t; simp)+
  show "takeWhile P (v @ t) = v" using takeWhile_append2[of v P t, OF p] t(1) by (simp only: append_Nil2)
  show "dropWhile P (v @ t) = t" using dropWhile_append2[of v P t, OF p] t(2) by (simp only:)
qed

lemma list_all_takeWhile: "list_all P (takeWhile P s)"
  by (induction s) auto

lemma takeWhile_rest:
  assumes "take 1 t = take 1 (dropWhile P s)"
  shows "takeWhile P (takeWhile P s @ t) = takeWhile P s" "dropWhile P (takeWhile P s @ t) = t"
proof -
  have "t = [] \<or> \<not> P (hd t)" using assms hd_dropWhile[of P s] by (cases t; cases "dropWhile P s") auto
  note w = word_rest[of P "takeWhile P s" t, OF list_all_takeWhile this]
  show "takeWhile P (takeWhile P s @ t) = takeWhile P s" "dropWhile P (takeWhile P s @ t) = t" by (rule w)+
qed

lemma scanIdent_rest:
  assumes "scanIdent i s = Inr (w, r)" "take 1 t = take 1 r"
  shows "scanIdent j (w @ t) = Inr (w, t)"
proof -
  let ?v = "takeWhile isIdentChar s" and ?u = "dropWhile isIdentChar s"
  show ?thesis
  proof (cases "?u \<noteq> [] \<and> isQuote (hd ?u) \<and> stringPrefix ?v \<noteq> None")
    case True
    then obtain raw x where x: "stringPrefix ?v = Some raw" "scanString (i + length ?v) raw ?u = Inr (x, r)" "w = ?v @ x"
      using assms(1) by (auto simp: scanIdent_def Let_def)
    have xr: "x @ r = ?u" "x \<noteq> []" using scanString_text[OF x(2)] True by auto
    then have "take 1 (x @ t) = take 1 ?u" by (cases x; cases ?u) auto
    note tw = takeWhile_rest[OF this]
    have "hd (x @ t) = hd ?u" using xr by (metis hd_append2)
    then show ?thesis
      using True x(1,3) xr(2) tw scanString_rest[OF x(2) _ assms(2)] by (simp add: scanIdent_def Let_def)
  next
    case False
    then have "w = ?v" "r = ?u" using assms(1) by (auto simp: scanIdent_def Let_def split: if_splits)
    then show ?thesis using False takeWhile_rest[of t isIdentChar s] assms(2) by (cases t; cases ?u) (auto simp: scanIdent_def Let_def)
  qed
qed

text \<open>Two rests that no scanner of a number can tell apart.\<close>

fun alike :: "string \<Rightarrow> string \<Rightarrow> bool" where
  "alike [] t = (t = [])"
| "alike [c] t = (t = [c])"
| "alike (c # d # r) t =
     (\<exists>u. t = c # d # u \<and> ((c = CHR ''e'' \<or> c = CHR ''E'') \<and> (d = CHR ''+'' \<or> d = CHR ''-'') \<longrightarrow> take 1 r = take 1 u))"

lemma alike_Cons: "alike r t \<Longrightarrow> alike (c # r) (c # t)"
  by (cases "(r, t)" rule: alike.cases) auto

lemma alike_append: "alike r t \<Longrightarrow> alike (w @ r) (w @ t)"
  by (induction w) (auto intro: alike_Cons)

lemma alike_take1: "alike r t \<Longrightarrow> take 1 t = take 1 r"
  by (cases "(r, t)" rule: alike.cases) auto

lemma alike_hd: "alike r t \<Longrightarrow> (r = [] \<longleftrightarrow> t = []) \<and> hd r = hd t"
  by (cases "(r, t)" rule: alike.cases) auto

lemma unsigned_suffix_rest: "unsigned_suffix s = (w, r) \<Longrightarrow> alike r t \<Longrightarrow> unsigned_suffix (w @ t) = (w, t)"
  using alike_hd[of r t] by (auto simp: unsigned_suffix_def split: if_splits)

lemma fraction_rest:
  assumes "fraction s = (w, r)" "alike r t"
  shows "fraction (w @ t) = (w, t)"
proof (cases "1 < length s \<and> s ! 0 = CHR ''.'' \<and> is_digit (s ! 1)")
  case True
  then have w: "w = CHR ''.'' # takeWhile is_digit (tl s)" "r = dropWhile is_digit (tl s)" using assms(1) by (auto simp: fraction_def)
  obtain d u where "tl s = d # u" "is_digit d" using True by (cases s; cases "tl s") auto
  then show ?thesis using w takeWhile_rest[of t is_digit "tl s"] alike_take1[OF assms(2)] by (auto simp: fraction_def)
next
  case False
  then have "w = []" "r = s" using assms(1) by (auto simp: fraction_def)
  then show ?thesis using False assms(2) by (cases "(r, t)" rule: alike.cases) (auto simp: fraction_def)
qed

lemma digits_rest:
  assumes "digits s = (w, r)" "alike r t"
  shows "digits (w @ t) = (w, t)"
  using assms takeWhile_rest[of t is_digit s] alike_take1[OF assms(2)] by (auto simp: digits_def)

lemma exponent_Nil:
  assumes "exponent s = ([], s)" "alike s t"
  shows "exponent t = ([], t)"
  using assms
proof (cases "(s, t)" rule: alike.cases)
  case (3 c d r u)
  then obtain v where v: "t = c # d # v" "((c = CHR ''e'' \<or> c = CHR ''E'') \<and> (d = CHR ''+'' \<or> d = CHR ''-'') \<longrightarrow> take 1 r = take 1 v)"
    using assms(2) by auto
  show ?thesis
  proof (cases "(c = CHR ''e'' \<or> c = CHR ''E'') \<and> (d = CHR ''+'' \<or> d = CHR ''-'')")
    case True
    then show ?thesis using assms(1) 3 v by (cases r; cases v) (auto simp: exponent_def split: if_splits)
  next
    case False
    then show ?thesis using assms(1) 3 v by (auto simp: exponent_def split: if_splits)
  qed
qed auto

lemma exponent_rest:
  assumes "exponent s = (w, r)" "alike r t"
  shows "exponent (w @ t) = (w, t)"
proof (cases "w = []")
  case True
  then show ?thesis using exponent_Nil[of s t] assms exponent_text[OF assms(1)] by simp
next
  case False
  define signed where "signed \<longleftrightarrow> tl s \<noteq> [] \<and> (hd (tl s) = CHR ''+'' \<or> hd (tl s) = CHR ''-'')"
  define sign where "sign = (if signed then [hd (tl s)] else [])"
  define x where "x = (if signed then tl (tl s) else tl s)"
  have x: "w = hd s # sign @ takeWhile is_digit x" "r = dropWhile is_digit x" "x \<noteq> []" "is_digit (hd x)"
      "hd s = CHR ''e'' \<or> hd s = CHR ''E''" "sign = [] \<or> sign = ''+'' \<or> sign = ''-''"
    using assms(1) False unfolding exponent_def signed_def[symmetric] Let_def sign_def x_def by (auto simp: signed_def split: if_splits)
  obtain d u where d: "x = d # u" "is_digit d" using x(3,4) by (cases x) auto
  have nd: "d \<noteq> CHR ''+''" "d \<noteq> CHR ''-''" using d(2) by (auto simp: is_digit_def)
  have tw: "takeWhile is_digit (takeWhile is_digit x @ t) = takeWhile is_digit x" "dropWhile is_digit (takeWhile is_digit x @ t) = t"
    using takeWhile_rest[of t is_digit x] alike_take1[OF assms(2)] x(2) by auto
  show ?thesis using x(1,5,6) tw d nd by (auto simp: exponent_def Let_def)
qed

lemma scanNumber_rest:
  assumes "scanNumber s = (w, r)" "alike r t" "is_digit (hd s)"
  shows "scanNumber (w @ t) = (w, t)"
proof (cases "1 < length s \<and> s ! 0 = CHR ''0'' \<and> (s ! 1 = CHR ''x'' \<or> s ! 1 = CHR ''X'')")
  case True
  then obtain x v where s: "s = CHR ''0'' # x # v" "x = CHR ''x'' \<or> x = CHR ''X''" by (cases s; cases "tl s") auto
  obtain u r1 where u: "unsigned_suffix (dropWhile isHexDigit v) = (u, r1)" by fastforce
  have w: "w = CHR ''0'' # x # takeWhile isHexDigit v @ u" "r = r1" using assms(1) s u by (auto simp: scanNumber_def)
  have su: "unsigned_suffix (u @ t) = (u, t)" using unsigned_suffix_rest[OF u] assms(2) w(2) by simp
  have "take 1 (u @ t) = take 1 (dropWhile isHexDigit v)"
    using unsigned_suffix_text[OF u] alike_take1[OF alike_append[OF assms(2), of u]] w(2) by simp
  then show ?thesis using takeWhile_rest[of "u @ t" isHexDigit v] w s(2) su by (auto simp: scanNumber_def)
next
  case False
  obtain d r1 where d: "digits s = (d, r1)" by fastforce
  obtain f r2 where f: "fraction r1 = (f, r2)" by fastforce
  obtain e r3 where e: "exponent r2 = (e, r3)" by fastforce
  obtain u r4 where u: "unsigned_suffix r3 = (u, r4)" by fastforce
  have w: "w = d @ f @ e @ u" "r = r4" using assms(1) False d f e u by (auto simp: scanNumber_def Let_def)
  have a: "alike r4 t" "alike r3 (u @ t)" "alike r2 (e @ u @ t)" "alike r1 (f @ e @ u @ t)"
    using alike_append[OF assms(2)] w(2) assms(2) unsigned_suffix_text[OF u] exponent_text[OF e] fraction_text[OF f] by (metis append_assoc)+
  have s: "s = d @ f @ e @ u @ r4"
    using d unsigned_suffix_text[OF u] exponent_text[OF e] fraction_text[OF f] takeWhile_dropWhile_id[of is_digit s] by (simp add: digits_def)
  have "alike s (d @ f @ e @ u @ t)" using alike_append[OF a(1), of "d @ f @ e @ u"] s by simp
  then have "\<not> (1 < length (d @ f @ e @ u @ t) \<and> (d @ f @ e @ u @ t) ! 0 = CHR ''0'' \<and>
      ((d @ f @ e @ u @ t) ! 1 = CHR ''x'' \<or> (d @ f @ e @ u @ t) ! 1 = CHR ''X''))"
    using False by (cases "(s, d @ f @ e @ u @ t)" rule: alike.cases) auto
  then show ?thesis
    using w digits_rest[OF d a(4)] fraction_rest[OF f a(3)] exponent_rest[OF e a(2)] unsigned_suffix_rest[OF u a(1)]
    by (auto simp: scanNumber_def)
qed

text \<open>The kinds of byte a turn tells apart.\<close>

lemma apart:
  "isQuote c \<Longrightarrow> \<not> isSpace c \<and> c \<noteq> CHR ''/''"
  "is_digit c \<Longrightarrow> \<not> isSpace c \<and> c \<noteq> CHR ''/'' \<and> \<not> isQuote c \<and> c \<noteq> backtick"
  "isIdentStart c \<Longrightarrow> \<not> isSpace c \<and> c \<noteq> CHR ''/'' \<and> \<not> isQuote c \<and> c \<noteq> backtick \<and> \<not> is_digit c \<and> c \<noteq> CHR ''-''"
  "isIdentChar c \<Longrightarrow> c \<noteq> backtick \<and> c \<noteq> CHR ''-'' \<and> \<not> isQuote c \<and> \<not> isSpace c"
  by (auto simp: isQuote_def isSpace_def is_digit_def isIdentStart_def isIdentChar_def isLetter_def less_eq_char_def)

lemma turn_space: "isSpace c \<Longrightarrow> turn i operand c s = Inr ([c], [], operand, s)"
  by (simp add: turn_def)

lemma turn_remark:
  "turn i operand (CHR ''/'') (CHR ''/'' # s) = Inr (takeWhile (\<lambda>d. d \<noteq> CHR 0x0A) (CHR ''/'' # CHR ''/'' # s), [], operand, dropWhile (\<lambda>d. d \<noteq> CHR 0x0A) s)"
  by (simp add: turn_def isSpace_def)

lemma turn_quoted: "isQuote c \<Longrightarrow> scanString i False (c # s) = Inr (w, r) \<Longrightarrow> turn i operand c s = Inr (w, [], True, r)"
  using apart(1)[of c] by (auto simp: turn_def Let_def)

lemma turn_ticked: "scanBacktick i (backtick # s) = Inr (w, r) \<Longrightarrow> turn i operand backtick s = Inr (w, [], True, r)"
  by (auto simp: turn_def Let_def isSpace_def isQuote_def)

lemma turn_numeral: "is_digit c \<Longrightarrow> scanNumber (c # s) = (w, r) \<Longrightarrow> turn i operand c s = Inr (w, [], False, r)"
  using apart(2)[of c] by (auto simp: turn_def Let_def)

lemma turn_ident: "isIdentStart c \<Longrightarrow> scanIdent i (c # s) = Inr (w, r) \<Longrightarrow> turn i operand c s = Inr (w, [], True, r)"
  using apart(3)[of c] by (auto simp: turn_def Let_def)

lemma turn_dot:
  assumes "after_dot s = (m, r1)" "segment_of r1 = (g, r)"
  shows "turn i True (CHR ''.'') s =
    (case g of NoSegment \<Rightarrow> Inr (CHR ''.'' # m, [], False, r) | MethodWord w \<Rightarrow> Inr (CHR ''.'' # m @ w, [], True, r)
     | BareSegment w \<Rightarrow> Inr (CHR ''.'' # m @ w, [], True, r) | EscapedSegment w \<Rightarrow> Inr (CHR ''.'' # m, w, True, r))"
  using assms by (simp add: turn_def Let_def isSpace_def isQuote_def is_digit_def isIdentStart_def isLetter_def)

lemma turn_other:
  assumes "\<not> isSpace c" "\<not> (c = CHR ''/'' \<and> s \<noteq> [] \<and> hd s = CHR ''/'')" "\<not> isQuote c" "c \<noteq> backtick" "\<not> is_digit c" "\<not> isIdentStart c"
    "\<not> (c = CHR ''.'' \<and> operand)"
  shows "turn i operand c s = Inr ([c], [], c = CHR '')'' \<or> c = CHR '']'' \<or> c = CHR ''}'', s)"
  using assms unfolding turn_def Let_def by (simp only: if_False)

text \<open>The text of what is rewritten.\<close>

definition ticked :: "string \<Rightarrow> string" where
  "ticked seg = (if seg = [] then [] else backtick # seg @ [backtick])"

definition becomes :: "nat \<Rightarrow> bool \<Rightarrow> string \<Rightarrow> string \<Rightarrow> bool" where
  "becomes i operand s t \<longleftrightarrow> map_sum id (map fst) (escape_from i operand s) = Inr t"

lemma becomes_Nil [simp]: "becomes i operand [] t \<longleftrightarrow> t = []"
  by (auto simp: becomes_def)

lemma becomes_Cons:
  "becomes i operand (c # s) t \<longleftrightarrow>
   (\<exists>w seg op r t'. turn i operand c s = Inr (w, seg, op, r) \<and> becomes (i + length w + length seg) op r t' \<and> t = w @ ticked seg @ t')"
proof (cases "turn i operand c s")
  case (Inr x)
  obtain w seg op r where x: "x = (w, seg, op, r)" by (cases x) auto
  show ?thesis
    by (cases "escape_from (i + length w + length seg) op r"; cases "seg = []") (auto simp: becomes_def Inr x Let_def ticked_def)
qed (simp add: becomes_def)

lemma becomes_head:
  assumes "becomes i operand s t"
  shows "take 1 t = take 1 s"
proof (cases s)
  case (Cons c s')
  then obtain w seg op r t' where w: "turn i operand c s' = Inr (w, seg, op, r)" "t = w @ ticked seg @ t'"
    using assms by (auto simp: becomes_Cons)
  then show ?thesis using turn_text[OF w(1)] Cons by (cases w) auto
qed (use assms in simp)

lemma becomes_second:
  assumes "becomes i operand s t" "\<not> (operand \<and> s \<noteq> [] \<and> hd s = CHR ''.'')"
  shows "take 2 t = take 2 s"
proof (cases s)
  case (Cons c s')
  then obtain w seg op r t' where w: "turn i operand c s' = Inr (w, seg, op, r)" "t = w @ ticked seg @ t'"
      and b: "becomes (i + length w + length seg) op r t'"
    using assms(1) by (auto simp: becomes_Cons)
  have "seg = []" using w(1) assms(2) Cons by (cases rule: turn_cases[OF w(1)]) auto
  then show ?thesis using turn_text[OF w(1)] w(2) becomes_head[OF b] Cons by (cases w; cases "tl w") (auto simp: ticked_def numeral_2_eq_2)
qed (use assms in simp)

lemma becomes_word:
  assumes "becomes i operand (v @ r) t" "v \<noteq> []" "isIdentStart (hd v)" "list_all isIdentChar v"
    "r = [] \<or> \<not> isIdentChar (hd r) \<and> \<not> isQuote (hd r)"
  obtains t' where "becomes (i + length v) True r t'" "t = v @ t'"
proof -
  obtain c u where c: "v = c # u" using assms(2) by (cases v) auto
  have tw: "takeWhile isIdentChar (v @ r) = v" "dropWhile isIdentChar (v @ r) = r"
    using word_rest[OF assms(4)] assms(5) by blast+
  have "scanIdent i (c # u @ r) = Inr (v, r)"
    using tw assms(5) unfolding c append_Cons by (auto simp: scanIdent_def Let_def)
  then have "turn i operand c (u @ r) = Inr (v, [], True, r)" using assms(3) c by (intro turn_ident) auto
  then show thesis using assms(1) that c by (auto simp: becomes_Cons ticked_def)
qed

lemma becomes_sign:
  assumes "becomes i operand (c # r) t" "c = CHR ''-'' \<or> c = CHR ''+''"
  obtains t' where "becomes (Suc i) False r t'" "t = c # t'"
proof -
  have "turn i operand c r = Inr ([c], [], False, r)"
    using assms(2) by (subst turn_other) (auto simp: isSpace_def isQuote_def is_digit_def isIdentStart_def isLetter_def less_eq_char_def)
  then show thesis using assms(1) that by (auto simp: becomes_Cons ticked_def)
qed

lemma becomes_alike:
  assumes "becomes i False s t"
  shows "alike s t"
proof -
  have t: "take 2 t = take 2 s" by (rule becomes_second[OF assms]) simp
  show ?thesis
  proof (cases "(s, t)" rule: alike.cases)
    case (3 c d r u)
    obtain v where v: "t = c # d # v" using t 3 by (cases t; cases "tl t") (auto simp: numeral_2_eq_2)
    have "take 1 r = take 1 v" if e: "c = CHR ''e'' \<or> c = CHR ''E''" "d = CHR ''+'' \<or> d = CHR ''-''"
    proof -
      have "becomes i False ([c] @ d # r) t" using assms 3 by simp
      then obtain t1 where "becomes (i + 1) True (d # r) t1" "t = c # t1"
        by (rule becomes_word) (use e in \<open>auto simp: isIdentStart_def isIdentChar_def isLetter_def isQuote_def is_digit_def less_eq_char_def\<close>)
      moreover from this obtain t2 where "becomes (Suc (i + 1)) False r t2" "t1 = d # t2" using e(2) by (auto elim: becomes_sign)
      ultimately show ?thesis using becomes_head v by fastforce
    qed
    then show ?thesis using 3 v by auto
  next
    case (2 c u)
    then show ?thesis using t by (cases t; cases "tl t") (auto simp: numeral_2_eq_2)
  qed (use t in \<open>auto simp: numeral_2_eq_2\<close>)
qed

lemma becomes_spaces:
  "becomes i operand s t \<Longrightarrow>
   \<exists>j u. t = takeWhile isSpace s @ u \<and> becomes j operand (dropWhile isSpace s) u"
proof (induction s arbitrary: i t)
  case (Cons c s)
  show ?case
  proof (cases "isSpace c")
    case True
    then obtain t' where "becomes (Suc i) operand s t'" "t = c # t'" using Cons.prems by (auto simp: becomes_Cons turn_space ticked_def)
    then show ?thesis using Cons.IH True by fastforce
  qed (use Cons.prems in auto)
qed simp

text \<open>What stops a segment.\<close>

definition stops :: "string \<Rightarrow> bool" where
  "stops r \<longleftrightarrow> (r = [] \<or> \<not> isIdentChar (hd r)) \<and> \<not> (1 < length r \<and> r ! 0 = CHR ''-'' \<and> isIdentStart (r ! 1))"

lemma hyphenated_stops: "hyphenated s = (h, r) \<Longrightarrow> s = [] \<or> \<not> isIdentChar (hd s) \<Longrightarrow> stops r"
proof (induction s arbitrary: h rule: hyphenated.induct)
  case (1 s)
  show ?case
  proof (cases "1 < length s \<and> s ! 0 = CHR ''-'' \<and> isIdentStart (s ! 1)")
    case True
    obtain h' where "hyphenated (dropWhile isIdentChar (tl s)) = (h', r)"
      using 1(2) True by (auto simp: hyphenated.simps[of s] split: prod.splits)
    then show ?thesis using 1(1)[OF True] hd_dropWhile[of isIdentChar "tl s"] by blast
  next
    case False
    then have "r = s" using 1(2) by (subst (asm) hyphenated.simps) auto
    then show ?thesis using False 1(3) by (auto simp: stops_def)
  qed
qed

lemma hyphenated_Nil: "stops t \<Longrightarrow> hyphenated t = ([], t)"
  by (subst hyphenated.simps) (auto simp: stops_def)

lemma hyphenated_rest: "hyphenated s = (h, r) \<Longrightarrow> stops t \<Longrightarrow> hyphenated (h @ t) = (h, t)"
proof (induction s arbitrary: h rule: hyphenated.induct)
  case (1 s)
  show ?case
  proof (cases "1 < length s \<and> s ! 0 = CHR ''-'' \<and> isIdentStart (s ! 1)")
    case True
    obtain c u where c: "tl s = c # u" "isIdentStart c" using True by (cases s; cases "tl s") auto
    obtain h' where h': "hyphenated (dropWhile isIdentChar (tl s)) = (h', r)" "h = CHR ''-'' # takeWhile isIdentChar (tl s) @ h'"
      using 1(2) True by (auto simp: hyphenated.simps[of s] split: prod.splits)
    have ih: "hyphenated (h' @ t) = (h', t)" by (rule 1(1)[OF True h'(1) 1(3)])
    have "h' @ t = [] \<or> \<not> isIdentChar (hd (h' @ t))"
    proof (cases "h' = []")
      case False
      then have "hd h' = CHR ''-''" using h'(1) by (subst (asm) hyphenated.simps) (auto split: if_splits prod.splits)
      then show ?thesis using False apart(4)[of "CHR ''-''"] by auto
    qed (use 1(3) in \<open>auto simp: stops_def\<close>)
    note tw = word_rest[of isIdentChar "takeWhile isIdentChar (tl s)" "h' @ t", OF list_all_takeWhile this]
    have "isIdentChar c" using c(2) by (simp add: isIdentChar_def)
    then show ?thesis unfolding h'(2) by (subst hyphenated.simps) (use tw ih c in auto)
  next
    case False
    then have "h = []" using 1(2) by (subst (asm) hyphenated.simps) auto
    then show ?thesis using hyphenated_Nil[OF 1(3)] by simp
  qed
qed

lemma becomes_hyphens:
  "becomes i operand r t \<Longrightarrow> hyphenated r = (h, r2) \<Longrightarrow> r2 = [] \<or> \<not> isQuote (hd r2) \<Longrightarrow>
   \<exists>j op u. t = h @ u \<and> becomes j op r2 u"
proof (induction r arbitrary: i operand t h rule: hyphenated.induct)
  case (1 r)
  show ?case
  proof (cases "1 < length r \<and> r ! 0 = CHR ''-'' \<and> isIdentStart (r ! 1)")
    case True
    let ?v = "takeWhile isIdentChar (tl r)" and ?r = "dropWhile isIdentChar (tl r)"
    obtain c u where c: "tl r = c # u" "isIdentStart c" "r = CHR ''-'' # c # u" using True by (cases r; cases "tl r") auto
    obtain h' where h: "hyphenated ?r = (h', r2)" "h = CHR ''-'' # ?v @ h'"
      using 1(3) True by (auto simp: hyphenated.simps[of r] split: prod.splits)
    obtain t1 where t1: "becomes (Suc i) False (tl r) t1" "t = CHR ''-'' # t1" using 1(2) c by (auto elim: becomes_sign)
    have q: "?r = [] \<or> \<not> isIdentChar (hd ?r) \<and> \<not> isQuote (hd ?r)"
    proof -
      have "\<not> isQuote (hd ?r)" if "?r \<noteq> []"
      proof
        assume "isQuote (hd ?r)"
        then have "hd ?r \<noteq> CHR ''-''" by (auto simp: isQuote_def)
        then have "hyphenated ?r = ([], ?r)" using that by (subst hyphenated.simps) (auto simp: hd_conv_nth)
        then show False using h(1) 1(4) that \<open>isQuote (hd ?r)\<close> by simp
      qed
      then show ?thesis using hd_dropWhile[of isIdentChar "tl r"] by blast
    qed
    have v: "?v \<noteq> []" "isIdentStart (hd ?v)" using c by (auto simp: isIdentChar_def)
    obtain t2 where t2: "becomes (Suc i + length ?v) True ?r t2" "t1 = ?v @ t2"
      by (rule becomes_word[OF _ v list_all_takeWhile q]) (use t1 in auto)
    show ?thesis using 1(1)[OF True t2(1) h(1) 1(4)] h(2) t1(2) t2(2) by auto
  next
    case False
    then have "h = [] \<and> r2 = r" using 1(3) by (subst (asm) hyphenated.simps) auto
    then show ?thesis using 1(2) by auto
  qed
qed

lemma stops_alike: "stops r \<Longrightarrow> take 1 t = take 1 r \<Longrightarrow> r = [] \<or> hd r \<noteq> CHR ''-'' \<or> take 2 t = take 2 r \<Longrightarrow> stops t"
  by (cases r; cases "tl r"; cases t; cases "tl t") (auto simp: stops_def numeral_2_eq_2)

text \<open>A segment is read as the same segment before the rewritten rest.\<close>

lemma scanSegment_rest:
  assumes "scanSegment s = (seg, r)" "seg \<noteq> []" "stops t"
  shows "scanSegment (seg @ t) = (seg, t)"
proof -
  obtain h where h: "hyphenated (dropWhile isIdentChar s) = (h, r)" "seg = takeWhile isIdentChar s @ h" "s \<noteq> []" "isIdentChar (hd s)"
    using assms(1,2) by (auto simp: scanSegment_def split: if_splits prod.splits)
  have ht: "hyphenated (h @ t) = (h, t)" by (rule hyphenated_rest[OF h(1) assms(3)])
  have "h @ t = [] \<or> \<not> isIdentChar (hd (h @ t))"
  proof (cases "h = []")
    case False
    then have "hd h = CHR ''-''" using h(1) by (subst (asm) hyphenated.simps) (auto split: if_splits prod.splits)
    then show ?thesis using False apart(4)[of "CHR ''-''"] by auto
  qed (use assms(3) in \<open>auto simp: stops_def\<close>)
  note tw = word_rest[of isIdentChar "takeWhile isIdentChar s" "h @ t", OF list_all_takeWhile this]
  have "isIdentChar (hd (seg @ t))" using h by (cases s) auto
  then show ?thesis using h(2) assms(2) tw ht by (simp add: scanSegment_def)
qed

lemma no_backtick [simp]: "\<not> isIdentChar backtick" "backtick \<notin> set (takeWhile isIdentChar s)"
proof -
  show n: "\<not> isIdentChar backtick" using apart(4)[of backtick] by blast
  show "backtick \<notin> set (takeWhile isIdentChar s)" using n by (auto dest: set_takeWhileD)
qed

lemma hyphenated_no_backtick: "hyphenated s = (h, r) \<Longrightarrow> backtick \<notin> set h"
proof (induction s arbitrary: h rule: hyphenated.induct)
  case (1 s)
  show ?case
  proof (cases "1 < length s \<and> s ! 0 = CHR ''-'' \<and> isIdentStart (s ! 1)")
    case True
    then obtain h' where "hyphenated (dropWhile isIdentChar (tl s)) = (h', r)" "h = CHR ''-'' # takeWhile isIdentChar (tl s) @ h'"
      using 1(2) by (auto simp: hyphenated.simps[of s] split: prod.splits)
    then show ?thesis using 1(1)[OF True] by simp
  qed (use 1(2) in \<open>subst (asm) hyphenated.simps, auto\<close>)
qed

lemma segment_no_backtick: "segment_of s = (EscapedSegment seg, r) \<Longrightarrow> backtick \<notin> set seg"
  by (auto simp: segment_of_def scanSegment_def Let_def split: if_splits prod.splits dest!: hyphenated_no_backtick)

lemma after_dot_rest:
  assumes "after_dot s = (m, r)" "t = [] \<or> \<not> isSpace (hd t) \<and> (m = [] \<longrightarrow> hd t \<noteq> CHR ''?'')"
  shows "after_dot (m @ t) = (m, t)"
proof -
  define p where "p = (if s \<noteq> [] \<and> hd s = CHR ''?'' then ''?'' else [])"
  define u where "u = (if p = [] then s else tl s)"
  have m: "m = p @ takeWhile isSpace u" "r = dropWhile isSpace u" using assms(1) by (auto simp: after_dot_def p_def u_def split: if_splits)
  have tw: "takeWhile isSpace (takeWhile isSpace u @ t) = takeWhile isSpace u" "dropWhile isSpace (takeWhile isSpace u @ t) = t"
    using word_rest[of isSpace "takeWhile isSpace u" t, OF list_all_takeWhile] assms(2) by blast+
  show ?thesis
  proof (cases "p = []")
    case True
    then have "m @ t = [] \<or> hd (m @ t) \<noteq> CHR ''?''"
      using assms(2) m(1) by (cases u) (auto simp: isSpace_def)
    then show ?thesis using True m(1) tw by (auto simp: after_dot_def)
  next
    case False
    then have "p = ''?''" by (auto simp: p_def split: if_splits)
    then show ?thesis using m(1) tw by (simp add: after_dot_def)
  qed
qed

lemma after_dot_next:
  "after_dot s = (m, r) \<Longrightarrow> r = [] \<or> \<not> isSpace (hd r) \<and> (m = [] \<longrightarrow> hd r \<noteq> CHR ''?'')"
  using hd_dropWhile[of isSpace s] hd_dropWhile[of isSpace "tl s"]
  by (cases s) (auto simp: after_dot_def split: if_splits)

lemma segment_of_again:
  assumes "segment_of s = (g, r)" "g = MethodWord v \<or> g = BareSegment v" "becomes i True r t"
  shows "segment_of (v @ t) = (g, t)"
proof -
  obtain seg r2 where seg: "scanSegment s = (seg, r2)" by fastforce
  have ne: "seg \<noteq> []" using assms(1,2) seg by (auto simp: segment_of_def Let_def split: if_splits)
  then obtain h where h: "hyphenated (dropWhile isIdentChar s) = (h, r2)" "seg = takeWhile isIdentChar s @ h" "s \<noteq> []" "isIdentChar (hd s)"
    using seg by (auto simp: scanSegment_def split: if_splits prod.splits)
  have st: "stops r2" using hyphenated_stops[OF h(1)] hd_dropWhile[of isIdentChar s] by blast
  let ?paren = "\<lambda>r. dropWhile isSpace r \<noteq> [] \<and> hd (dropWhile isSpace r) = CHR ''(''"
  show ?thesis
  proof (cases "?paren r2")
    case True
    then have g: "g = MethodWord (takeWhile isIdentChar s)" "r = dropWhile isIdentChar s"
      using assms(1) seg ne by (auto simp: segment_of_def bareWord_def Let_def simp flip: dropWhile_eq_drop)
    have q: "r2 = [] \<or> hd r2 \<noteq> CHR ''-'' \<and> \<not> isQuote (hd r2)"
      using True by (cases r2) (auto simp: isSpace_def isQuote_def split: if_splits)
    then obtain j op u where u: "t = h @ u" "becomes j op r2 u" using becomes_hyphens[OF assms(3)[unfolded g(2)] h(1)] by blast
    have su: "stops u" using stops_alike[OF st becomes_head[OF u(2)]] q by blast
    obtain j' u' where u': "u = takeWhile isSpace r2 @ u'" "becomes j' op (dropWhile isSpace r2) u'" using becomes_spaces[OF u(2)] by blast
    then have "u' \<noteq> []" "hd u' = CHR ''(''" using True becomes_head[OF u'(2)] by (cases u'; cases "dropWhile isSpace r2"; auto)+
    then have "?paren u" using u'(1) word_rest[of isSpace "takeWhile isSpace r2" u', OF list_all_takeWhile] by (auto simp: isSpace_def)
    moreover have "scanSegment (seg @ u) = (seg, u)" by (rule scanSegment_rest[OF seg ne su])
    moreover have "takeWhile isIdentChar (takeWhile isIdentChar s @ h @ u) = takeWhile isIdentChar s"
      using takeWhile_rest(1)[of "h @ u" isIdentChar s] becomes_head[OF assms(3)] g(2) u(1) by simp
    ultimately show ?thesis using g assms(2) u(1) h(2) ne by (auto simp: segment_of_def bareWord_def Let_def)
  next
    case False
    then have g: "g = BareSegment seg" "r = r2" "isBareIdentifier seg" "seg \<notin> set reservedWords" "v = seg"
      using assms(1,2) seg ne by (auto simp: segment_of_def Let_def split: if_splits)
    have "take 2 t = take 2 r2 \<or> r2 = [] \<or> hd r2 \<noteq> CHR ''-''" using becomes_second[OF assms(3)] g(2) by fastforce
    then have su: "stops t" using stops_alike[OF st] becomes_head[OF assms(3)] g(2) by blast
    obtain j' u' where u': "t = takeWhile isSpace r2 @ u'" "becomes j' True (dropWhile isSpace r2) u'" using becomes_spaces[OF assms(3)] g(2) by blast
    have hu: "take 1 u' = take 1 (dropWhile isSpace r2)" by (rule becomes_head[OF u'(2)])
    then have "dropWhile isSpace t = u'" using takeWhile_rest(2)[of u' isSpace r2] u'(1) by simp
    then have "\<not> ?paren t" using False hu by (cases u'; cases "dropWhile isSpace r2") auto
    then show ?thesis using g scanSegment_rest[OF seg ne su] ne by (auto simp: segment_of_def Let_def)
  qed
qed

lemma turn_again:
  assumes "turn i operand c s = Inr (w, [], op, r)" "becomes k op r t"
  shows "turn j operand c (tl w @ t) = Inr (w, [], op, t)"
proof -
  have w: "w @ r = c # s" "w \<noteq> []" using turn_text[OF assms(1)] by auto
  have cw: "c # tl w = w" using w by (cases w) auto
  have ct: "c # tl w @ t = w @ t" by (subst append_Cons[symmetric]) (simp only: cw)
  note h = becomes_head[OF assms(2)]
  from assms(1) show ?thesis
  proof (cases rule: turn_cases)
    case space
    then show ?thesis by (simp add: turn_space)
  next
    case remark
    obtain u where u: "s = CHR ''/'' # u" using remark by (cases s) auto
    have tw: "takeWhile (\<lambda>d. d \<noteq> CHR 0x0A) (w @ t) = w" "dropWhile (\<lambda>d. d \<noteq> CHR 0x0A) (w @ t) = t"
      using takeWhile_rest[of t "\<lambda>d. d \<noteq> CHR 0x0A" "c # s"] h remark by simp_all
    have "w = CHR ''/'' # CHR ''/'' # tl (tl w)" using remark u by simp
    then obtain v where v: "w = CHR ''/'' # CHR ''/'' # v" by blast
    show ?thesis using turn_remark[of j operand "v @ t"] tw v remark(1,6) by simp
  next
    case quoted
    have "scanString j False (c # tl w @ t) = Inr (w, t)" unfolding ct by (rule scanString_rest[OF quoted(2) _ h]) simp
    then show ?thesis using turn_quoted quoted by simp
  next
    case ticked
    have "scanBacktick j (c # tl w @ t) = Inr (w, t)" unfolding ct by (rule scanBacktick_rest[OF ticked(2,1)])
    then show ?thesis using turn_ticked ticked by simp
  next
    case numeral
    then have "alike r t" using becomes_alike assms(2) by simp
    then have "scanNumber (c # tl w @ t) = (w, t)" unfolding ct using numeral(1) by (intro scanNumber_rest[OF numeral(2)]) auto
    then show ?thesis using turn_numeral numeral by simp
  next
    case ident
    have "scanIdent j (c # tl w @ t) = Inr (w, t)" unfolding ct by (rule scanIdent_rest[OF ident(2) h])
    then show ?thesis using turn_ident ident by simp
  next
    case (unselected m r1)
    have r: "r = r1" "r1 = [] \<or> \<not> isIdentChar (hd r1)"
      using unselected(4) by (auto simp: segment_of_def scanSegment_def Let_def takeWhile_eq_Nil_iff split: if_splits prod.splits)
    have t: "t = [] \<or> \<not> isIdentChar (hd t)" "t = [] \<or> \<not> isSpace (hd t) \<and> (m = [] \<longrightarrow> hd t \<noteq> CHR ''?'')"
      using h r after_dot_next[OF unselected(3)] by (cases t; cases r1; auto)+
    have "segment_of t = (NoSegment, t)" using t(1) by (simp add: segment_of_def scanSegment_def)
    then show ?thesis using turn_dot[OF after_dot_rest[OF unselected(3) t(2)], of NoSegment t j] unselected by simp
  next
    case (selected m r1 v)
    obtain g where g: "segment_of r1 = (g, r)" "g = MethodWord v \<or> g = BareSegment v" using selected by blast
    have vr: "v @ r = r1" using segment_of_text[OF g(1)] g(2) by auto
    have "take 1 (v @ t) = take 1 r1" using vr h by (cases v) auto
    then have "v @ t = [] \<or> \<not> isSpace (hd (v @ t)) \<and> (m = [] \<longrightarrow> hd (v @ t) \<noteq> CHR ''?'')"
      using after_dot_next[OF selected(3)] by (cases "v @ t"; cases r1) auto
    note d = after_dot_rest[OF selected(3) this]
    have "segment_of (v @ t) = (g, t)" using segment_of_again[OF g] assms(2) selected(7) by simp
    then show ?thesis using turn_dot[OF d, of g t j] g(2) selected by auto
  next
    case other
    have "\<not> (c = CHR ''/'' \<and> t \<noteq> [] \<and> hd t = CHR ''/'')" using other(2,11) h by (cases t; cases s) auto
    then show ?thesis using turn_other[OF other(1) _ other(3-7), of t j] other by simp
  next
    case (escaped m r1)
    then show ?thesis by (auto simp: segment_of_def Let_def split: if_splits prod.splits)
  qed
qed

lemma becomes_again: "becomes i operand s t \<Longrightarrow> becomes j operand t t"
proof (induction "length s" arbitrary: i j operand s t rule: less_induct)
  case less
  show ?case
  proof (cases s)
    case (Cons c s')
    obtain w seg op r t' where t: "turn i operand c s' = Inr (w, seg, op, r)" "becomes (i + length w + length seg) op r t'" "t = w @ ticked seg @ t'"
      using less.prems Cons by (auto simp: becomes_Cons)
    have w: "w @ seg @ r = c # s'" "w \<noteq> []" using turn_text[OF t(1)] by auto
    have "length r < length s" using arg_cong[OF w(1), of length] w(2) Cons by (cases w) auto
    then have again: "becomes k op t' t'" for k using less.hyps t(2) by blast
    have cw: "w = c # tl w" using w by (cases w) auto
    show ?thesis
    proof (cases "seg = []")
      case True
      have "turn j operand c (tl w @ t') = Inr (w, [], op, t')" using turn_again t(1,2) True by blast
      then have "becomes j operand (c # tl w @ t') (c # tl w @ t')" unfolding becomes_Cons
        by (intro exI[of _ w] exI[of _ "[]"] exI[of _ op] exI[of _ t']) (use again cw in \<open>simp add: ticked_def\<close>)
      moreover have "t = c # tl w @ t'" using t(3) True cw by (simp add: ticked_def)
      ultimately show ?thesis by simp
    next
      case False
      then obtain m r1 where e: "c = CHR ''.''" "operand" "after_dot s' = (m, r1)" "segment_of r1 = (EscapedSegment seg, r)" "w = c # m" "op"
        using t(1) by (cases rule: turn_cases[OF t(1)]) auto
      let ?u = "backtick # seg @ backtick # t'"
      have "backtick \<notin> set seg" using e(4) segment_no_backtick by blast
      then have "scanBacktick (j + length w) ?u = Inr (backtick # seg @ [backtick], t')"
        by (simp add: scanBacktick_def takeWhile_append dropWhile_append)
      then have b: "turn (j + length w) False backtick (seg @ backtick # t') = Inr (backtick # seg @ [backtick], [], True, t')"
        by (rule turn_ticked)
      have "after_dot (m @ ?u) = (m, ?u)" using after_dot_rest[OF e(3), of ?u] by (simp add: isSpace_def)
      moreover have "segment_of ?u = (NoSegment, ?u)" by (simp add: segment_of_def scanSegment_def)
      ultimately have a: "turn j operand c (m @ ?u) = Inr (w, [], False, ?u)" using turn_dot[of "m @ ?u" m ?u NoSegment ?u j] e by simp
      have b': "becomes (j + length w) False ?u ?u" unfolding becomes_Cons
        by (intro exI[of _ "backtick # seg @ [backtick]"] exI[of _ "[]"] exI[of _ True] exI[of _ t'])
          (use b again e(6) in \<open>simp add: ticked_def\<close>)
      have "becomes j operand (c # m @ ?u) (c # m @ ?u)" unfolding becomes_Cons
        by (intro exI[of _ w] exI[of _ "[]"] exI[of _ False] exI[of _ ?u]) (use a b' e(5) in \<open>simp add: ticked_def\<close>)
      moreover have "t = c # m @ ?u" using t(3) e(5) False by (simp add: ticked_def)
      ultimately show ?thesis by (simp only:)
    qed
  qed (use less.prems in simp)
qed

text \<open>
  C21: an expression that has been rewritten is left exactly as it is when it is rewritten again, each byte attributed to
  itself: the rewriting settles what the parser cannot read and touches nothing it can.
\<close>

theorem escape_is_idempotent:
  assumes "Escape src = Inr (out, off)"
  shows "Escape out = Inr (out, [0..<Suc (length out)])"
proof -
  have "becomes 0 False src out" using assms by (auto simp: Escape_def becomes_def)
  then have "becomes 0 False out out" by (rule becomes_again)
  then obtain ps where ps: "escape_from 0 False out = Inr ps" "map fst ps = out" by (auto simp: becomes_def)
  obtain added where a: "adds_backticks ps 0 out added" using escape_from_adds[OF ps(1)] by blast
  have l: "length ps = length out" using ps(2) by (metis length_map)
  then have "length (filter (\<lambda>x. \<not> snd x) (zip ps added)) = length (zip ps added)"
    using a by (auto simp: adds_backticks_def authored_def dest: arg_cong[of _ _ length])
  then have "filter (\<lambda>x. \<not> snd x) (zip ps added) = zip ps added" by (metis length_filter_less filter_True less_irrefl)
  then have "ps = copyRange 0 out" using a by (auto simp: adds_backticks_def authored_def)
  then show ?thesis using ps by (simp add: Escape_def)
qed

theorem escape_is_idempotent_witness:
  "Escape ''inputs.`in`.count'' = Inr (''inputs.`in`.count'', [0..<18])"
proof -
  have "Escape ''inputs.in.count'' = Inr (''inputs.`in`.count'', [0, 1, 2, 3, 4, 5, 6, 7, 7, 8, 9, 9, 10, 11, 12, 13, 14, 15])"
    by code_simp
  moreover have "Suc (length ''inputs.`in`.count'') = 18" by simp
  ultimately show ?thesis using escape_is_idempotent by (simp only:)
qed

end
