(* ===== verification/Interpolating.thy ===== *)
theory Interpolating
  imports Templates Escaping
begin

text \<open>
  What reading a template promises: exactly the lists of parts that can be told apart are read, each from the one text that
  spells it, and a secret is never turned into text.
\<close>

section \<open>Expressions end where they end\<close>

lemma take1_append: "w \<noteq> [] \<Longrightarrow> take 1 (w @ s) = take 1 (w @ t)"
  by (cases w) auto

text \<open>A turn that goes on reads the same before any rest with the same first byte.\<close>

lemma interp_turn_rest:
  assumes "interp_turn opened i depth c s = Inr (Some (w, d, r))" "take 1 t = take 1 r"
  shows "interp_turn opened' i' depth c (tl w @ t) = Inr (Some (w, d, t))"
proof -
  have w: "w @ r = c # s" "w \<noteq> []" using interp_turn_text[OF assms(1)] by auto
  have cw: "w = c # tl w" using w by (cases w) auto
  have ct: "c # tl w @ t = w @ t" using cw by simp
  show ?thesis
  proof (cases "isQuote c \<or> isIdentStart c \<or> c = backtick")
    case True
    consider "isQuote c" | "\<not> isQuote c" "isIdentStart c" | "\<not> isQuote c" "\<not> isIdentStart c" "c = backtick" using True by blast
    then show ?thesis
    proof cases
      case 1
      then have "scanString i False (c # s) = Inr (w, r)" "d = depth" using assms(1) by (auto simp: interp_turn_def Let_def)
      then have "scanString i' False (w @ t) = Inr (w, t)" "d = depth" using scanString_rest assms(2) by blast+
      then show ?thesis using 1 by (simp add: interp_turn_def Let_def ct)
    next
      case 2
      then have "scanIdent i (c # s) = Inr (w, r)" "d = depth" using assms(1) by (auto simp: interp_turn_def Let_def)
      then have "scanIdent i' (w @ t) = Inr (w, t)" "d = depth" using scanIdent_rest assms(2) by blast+
      then show ?thesis using 2 by (simp add: interp_turn_def Let_def ct)
    next
      case 3
      then have "scanBacktick i (c # s) = Inr (w, r)" "d = depth" using assms(1) by (auto simp: interp_turn_def Let_def)
      then have "scanBacktick i' (w @ t) = Inr (w, t)" "d = depth" using scanBacktick_rest 3(3) by blast+
      moreover obtain v where "w = backtick # v" using cw 3(3) by blast
      ultimately show ?thesis using 3 by (simp add: interp_turn_def Let_def)
    qed
  next
    case False
    show ?thesis
    proof (cases "c = CHR ''/'' \<and> s \<noteq> [] \<and> hd s = CHR ''/''")
      case True
      let ?P = "\<lambda>d. d \<noteq> CHR 0x0A"
      have v: "w = takeWhile ?P (c # s) @ [CHR 0x0A]" "d = depth" using assms(1) False True by (auto simp: interp_turn_def Let_def split: if_splits)
      have "takeWhile ?P (w @ t) = takeWhile ?P (c # s)" "dropWhile ?P (w @ t) = CHR 0x0A # t"
        using word_rest[of ?P "takeWhile ?P (c # s)" "CHR 0x0A # t", OF list_all_takeWhile] v(1) by simp_all
      moreover obtain u where "w = CHR ''/'' # CHR ''/'' # u" using v(1) True by (cases s) auto
      ultimately show ?thesis using False True v by (simp add: interp_turn_def Let_def ct)
    next
      case nc: False
      then have v: "w = [c]" "r = s" using assms(1) False by (auto simp: interp_turn_def Let_def split: if_splits)
      have "\<not> (c = CHR ''/'' \<and> t \<noteq> [] \<and> hd t = CHR ''/'')" using nc v(2) assms(2) by (cases t; cases s) auto
      then show ?thesis using assms(1) False nc v by (auto simp: interp_turn_def Let_def split: if_splits)
    qed
  qed
qed

lemma scanInterpolation_rest:
  "scanInterpolation opened i depth s = Inr (e, r) \<Longrightarrow> scanInterpolation opened' i' depth (e @ closeBraces @ t) = Inr (e, t)"
proof (induction opened i depth s arbitrary: e i' rule: scanInterpolation.induct)
  case (2 opened i depth c s)
  then obtain x where x: "interp_turn opened i depth c s = Inr x" by (cases "interp_turn opened i depth c s") auto
  show ?case
  proof (cases x)
    case None
    then have c: "c = CHR ''}''" "depth = 0" using x by (auto simp: interp_turn_def Let_def split: if_splits)
    have "interp_turn opened' i' 0 (CHR ''}'') (CHR ''}'' # t) = Inr None"
      by (simp add: interp_turn_def isQuote_def isIdentStart_def isLetter_def)
    then show ?thesis using 2 x None c by (auto simp: closeBraces_def)
  next
    case (Some y)
    obtain w d r' where y: "y = (w, d, r')" by (cases y) auto
    then obtain e' where e': "scanInterpolation opened (i + length w) d r' = Inr (e', r)" "e = w @ e'" using 2(2) x Some by auto
    note xt = x[unfolded Some y]
    have "take 1 (e' @ closeBraces @ t) = take 1 r'"
      using scanInterpolation_text[OF e'(1)] take1_append[of "e' @ closeBraces"] by (simp add: closeBraces_def)
    note tr = interp_turn_rest[OF xt this, of opened' i']
    have "w = c # tl w" using interp_turn_text[OF xt] by (cases w) auto
    then obtain v where v: "w = c # v" by blast
    show ?thesis using tr 2(1)[OF x Some[unfolded y] refl refl e'(1), of "i' + length w"] e'(2) v by simp
  qed
qed simp

section \<open>Parts\<close>

definition closes :: "string \<Rightarrow> bool" where
  "closes src \<longleftrightarrow> scanInterpolation 0 0 0 (src @ closeBraces) = Inr (src, [])"

fun written :: "'p part \<Rightarrow> string" where
  "written (Text t) = t"
| "written (Prog src _) = openBraces @ src @ closeBraces"

text \<open>Parts that can be told apart: text that is not empty, opens nothing and does not follow text; expressions that compile and close.\<close>

fun told_apart :: "(string \<Rightarrow> (string, 'p) result) \<Rightarrow> 'p part list \<Rightarrow> bool" where
  "told_apart Compile [] = True"
| "told_apart Compile (Text t # ps) =
     (t \<noteq> [] \<and> cut_open t = None \<and> (case ps of [] \<Rightarrow> True | p # _ \<Rightarrow> is_prog p) \<and> told_apart Compile ps)"
| "told_apart Compile (Prog src p # ps) = (Compile src = Inr p \<and> closes src \<and> told_apart Compile ps)"

lemma cut_open_None: "cut_open t = None \<Longrightarrow> cut_open (t @ openBraces @ s) = Some (t, s)"
proof (induction t)
  case Nil
  show ?case by (simp add: openBraces_def prefix_def)
next
  case (Cons c t)
  then have n: "\<not> prefix openBraces (c # t)" "cut_open t = None" by (auto split: if_splits)
  have "\<not> prefix openBraces (c # t @ openBraces @ s)"
    using n(1) by (cases t; cases "tl t") (auto simp: openBraces_def)
  then show ?case using Cons.IH[OF n(2)] by simp
qed

lemma cut_open_Some: "cut_open s = Some (b, a) \<Longrightarrow> cut_open b = None"
proof (induction s arbitrary: b)
  case (Cons c s)
  show ?case
  proof (cases "prefix openBraces (c # s)")
    case False
    then obtain b' where b: "cut_open s = Some (b', a)" "b = c # b'" using Cons.prems by auto
    have "\<not> prefix openBraces b" using False cut_open_text[OF Cons.prems] prefix_prefix[of openBraces b] by metis
    then show ?thesis using b Cons.IH by simp
  qed (use Cons.prems in simp)
qed simp

lemma interpolate_Prog:
  assumes "cut_open t = None" "closes src" "Compile src = Inr p"
  shows "interpolate_from Compile i (t @ openBraces @ src @ closeBraces @ s) =
    map_sum id (\<lambda>ps. (if t = [] then [] else [Text t]) @ Prog src p # ps)
      (interpolate_from Compile (i + length t + length openBraces + length src + length closeBraces) s)"
proof -
  have "scanInterpolation j k 0 (src @ closeBraces @ s) = Inr (src, s)" for j k
    using scanInterpolation_rest assms(2) unfolding closes_def by blast
  then show ?thesis using cut_open_None[OF assms(1), of "src @ closeBraces @ s"] assms(3)
    by (subst interpolate_from.simps) (simp add: Let_def)
qed

lemma told_apart_read: "told_apart Compile ps \<Longrightarrow> interpolate_from Compile i (concat (map written ps)) = Inr ps"
proof (induction "length ps" arbitrary: ps i rule: less_induct)
  case less
  consider "ps = []" | t where "ps = [Text t]" | t src p qs where "ps = Text t # Prog src p # qs" | src p qs where "ps = Prog src p # qs"
    using less.prems by (cases "(Compile, ps)" rule: told_apart.cases) (auto split: list.splits part.splits simp: is_prog_def)
  then show ?case
  proof cases
    case (3 t src p qs)
    then have "interpolate_from Compile j (concat (map written qs)) = Inr qs" for j using less by simp
    then show ?thesis using interpolate_Prog[of t src Compile p i "concat (map written qs)"] less.prems 3 by simp
  next
    case (4 src p qs)
    then have "interpolate_from Compile j (concat (map written qs)) = Inr qs" for j using less by simp
    then show ?thesis using interpolate_Prog[of "[]" src Compile p i "concat (map written qs)"] less.prems 4 by simp
  qed (use less.prems in \<open>simp_all add: interpolate_from.simps\<close>)
qed

lemma read_told_apart:
  "interpolate_from Compile i s = Inr ps \<Longrightarrow> told_apart Compile ps \<and> concat (map written ps) = s"
proof (induction Compile i s arbitrary: ps rule: interpolate_from.induct)
  case (1 Compile i s)
  show ?case
  proof (cases "cut_open s")
    case None
    then show ?thesis using 1(2) by (subst (asm) interpolate_from.simps) auto
  next
    case (Some ba)
    obtain b a where ba: "ba = (b, a)" by fastforce
    let ?at = "i + length b"
    obtain src r p qs where x: "scanInterpolation ?at (?at + length openBraces) 0 a = Inr (src, r)" "Compile src = Inr p"
      "interpolate_from Compile (?at + length openBraces + length src + length closeBraces) r = Inr qs"
      "ps = (if b = [] then [] else [Text b]) @ Prog src p # qs"
      using 1(2) Some ba by (subst (asm) interpolate_from.simps) (auto simp: Let_def split: sum.splits)
    have ih: "told_apart Compile qs" "concat (map written qs) = r" using 1(1)[OF Some[unfolded ba] refl refl refl x(1) refl x(2,3)] by auto
    have "closes src" unfolding closes_def using scanInterpolation_rest[OF x(1), of 0 0 "[]"] by simp
    moreover have "s = b @ openBraces @ src @ closeBraces @ r" using cut_open_text[OF Some[unfolded ba]] scanInterpolation_text[OF x(1)] by simp
    ultimately show ?thesis using x(2,4) ih cut_open_Some[OF Some[unfolded ba]] by (auto simp: is_prog_def)
  qed
qed

text \<open>
  C37: a string of a workflow file is read as parts exactly where it spells them and they can be told apart: text is never empty,
  never opens an expression and never follows text, and an expression compiles and ends at its own closing braces,
  whatever follows. So a string has one reading, and what a template keeps spells its source back.
\<close>

theorem templates_have_one_reading:
  "interpolate_from Compile i s = Inr ps \<longleftrightarrow> told_apart Compile ps \<and> concat (map written ps) = s"
  using told_apart_read read_told_apart by blast

text \<open>
  A template that is accepted is either one expression that fills the whole value, or text in which no expression is a
  secret: the text a template evaluates to holds no value the checker knows for a secret. A string that opens no
  expression evaluates to itself.
\<close>

theorem secrets_fill_whole_values:
  assumes "Interpolate Compile isSecret s = Inr t"
  shows "tm_whole t = (\<exists>src p. tm_parts t = [Prog src p]) \<and>
         (list_ex isSecret (Programs t) \<longrightarrow> tm_whole t) \<and>
         (cut_open s = None \<longrightarrow> Evaluate eval asText t = Inr (AsText s))"
proof -
  obtain ps where ps: "interpolate_from Compile 0 s = Inr ps" "tm_parts t = ps" "tm_whole t = (length ps = 1 \<and> is_prog (hd ps))"
    "tm_whole t \<or> secret_in isSecret ps = None"
    using assms by (auto simp: Interpolate_def Let_def split: option.splits if_splits)
  have w: "tm_whole t = (\<exists>src p. tm_parts t = [Prog src p])"
    using ps(2,3) by (cases ps) (auto simp: is_prog_def split: part.splits)
  moreover have "tm_whole t" if "list_ex isSecret (Programs t)"
    using that ps(2,4) by (auto simp: secret_in_def find_None_iff Programs_def list_ex_iff split: part.splits)
  moreover have "Evaluate eval asText t = Inr (AsText s)" if "cut_open s = None"
  proof -
    have "ps = (if s = [] then [] else [Text s])" using ps(1) that by (subst (asm) interpolate_from.simps) simp
    then show ?thesis using w ps(2) by (auto simp: Evaluate_def)
  qed
  ultimately show ?thesis by blast
qed

theorem secrets_fill_whole_values_witness:
  "Interpolate (\<lambda>src. Inr src) (\<lambda>src. src = '' secrets.key '') ''${{ secrets.key }}'' =
     Inr \<lparr>tm_source = ''${{ secrets.key }}'', tm_parts = [Prog '' secrets.key '' '' secrets.key ''], tm_whole = True\<rparr> \<and>
   Interpolate (\<lambda>src. Inr src) (\<lambda>src. src = '' secrets.key '') ''k=${{ secrets.key }}'' = Inl (SecretEmbedded '' secrets.key '') \<and>
   Evaluate (\<lambda>p. Inr p) (\<lambda>v. Inr v) \<lparr>tm_source = ''on'', tm_parts = [Text ''on''], tm_whole = False\<rparr> = Inr (AsText ''on'')"
proof -
  have i: "Interpolate (\<lambda>src. Inr src) (\<lambda>src. src = '' secrets.key '') ''on'' = Inr \<lparr>tm_source = ''on'', tm_parts = [Text ''on''], tm_whole = False\<rparr>"
    "cut_open ''on'' = None" by code_simp+
  have "Evaluate (\<lambda>p. Inr p) (\<lambda>v. Inr v) \<lparr>tm_source = ''on'', tm_parts = [Text ''on''], tm_whole = False\<rparr> = Inr (AsText ''on'')"
    using secrets_fill_whole_values[OF i(1)] i(2) by blast
  moreover have "Interpolate (\<lambda>src. Inr src) (\<lambda>src. src = '' secrets.key '') ''${{ secrets.key }}'' =
     Inr \<lparr>tm_source = ''${{ secrets.key }}'', tm_parts = [Prog '' secrets.key '' '' secrets.key ''], tm_whole = True\<rparr>" by code_simp
  moreover have "Interpolate (\<lambda>src. Inr src) (\<lambda>src. src = '' secrets.key '') ''k=${{ secrets.key }}'' = Inl (SecretEmbedded '' secrets.key '')"
    by code_simp
  ultimately show ?thesis by blast
qed

end
