(* ===== verification/Ulid.thy ===== *)
theory Ulid
  imports Vocabulary
begin

text \<open>
  \<open>internal/ulid\<close>: minting identifiers. The state is the millisecond and the ten bytes last used; the clock and what
  \<open>crypto/rand\<close> draws are given to each call. A byte is a number below 256. Identifiers sort, as text, in the order in which
  they were minted, whatever the clock does, until the forty-eight bits of the milliseconds are spent.
\<close>

section \<open>Minting\<close>

definition crockford :: string where
  "crockford = ''0123456789ABCDEFGHJKMNPQRSTVWXYZ''"

record ulid_state =
  lastMS :: nat
  entropy :: "nat list"

text \<open>The bytes from the last on.\<close>

fun increment_rev :: "nat list \<Rightarrow> nat list \<times> bool" where
  "increment_rev [] = ([], False)"
| "increment_rev (b # bs) =
     (let b' = (b + 1) mod 256 in
      if b' \<noteq> 0 then (b' # bs, True) else let (bs', ok) = increment_rev bs in (b' # bs', ok))"

definition increment :: "nat list \<Rightarrow> nat list \<times> bool" where
  "increment e = (let (r, ok) = increment_rev (rev e) in (rev r, ok))"

definition char_bits :: "nat list \<Rightarrow> nat \<Rightarrow> nat" where
  "char_bits b i =
     foldl (\<lambda>v j. if i * 5 + j < 2 then v
                  else let pos = i * 5 + j - 2 in v * 2 + (b ! (pos div 8) div 2 ^ (7 - pos mod 8)) mod 2) 0 [0..<5]"

definition ulid_encode :: "nat list \<Rightarrow> string" where
  "ulid_encode b = map (\<lambda>i. crockford ! char_bits b i) [0..<26]"

definition ms_bytes :: "nat \<Rightarrow> nat list" where
  "ms_bytes ms = map (\<lambda>i. ms div 2 ^ (40 - 8 * i) mod 256) [0..<6]"

definition ulid_New :: "nat \<Rightarrow> nat list \<Rightarrow> ulid_state \<Rightarrow> string \<times> ulid_state" where
  "ulid_New now rand s =
     (let s' = (if lastMS s < now then \<lparr>lastMS = now, entropy = rand\<rparr>
                else let (e, ok) = increment (entropy s)
                     in if ok then s\<lparr>entropy := e\<rparr> else \<lparr>lastMS = lastMS s + 1, entropy = rand\<rparr>)
      in (ulid_encode (ms_bytes (lastMS s') @ entropy s'), s'))"

fun mints :: "(nat \<times> nat list) list \<Rightarrow> ulid_state \<Rightarrow> string list \<times> ulid_state" where
  "mints [] s = ([], s)"
| "mints ((now, rand) # calls) s =
     (let (name, s') = ulid_New now rand s; (names, s'') = mints calls s' in (name # names, s''))"

section \<open>Digits and their order\<close>

definition num :: "nat \<Rightarrow> nat list \<Rightarrow> nat" where
  "num B ds = foldl (\<lambda>n d. n * B + d) 0 ds"

lemma num_foldl: "foldl (\<lambda>n d. n * B + d) a ds = a * B ^ length ds + num B ds"
proof (induction ds arbitrary: a)
  case (Cons d ds)
  have "num B (d # ds) = d * B ^ length ds + num B ds" using Cons[of d] by (simp add: num_def[of B "d # ds"])
  then show ?case using Cons[of "a * B + d"] by (simp add: algebra_simps)
qed (simp add: num_def)

lemma num_Nil [simp]: "num B [] = 0"
  by (simp add: num_def)

lemma num_Cons: "num B (d # ds) = d * B ^ length ds + num B ds"
  using num_foldl[of B d ds] by (simp add: num_def)

lemma num_append: "num B (xs @ ys) = num B xs * B ^ length ys + num B ys"
  using num_foldl[of B "num B xs" ys] by (simp add: num_def)

lemma num_bound: "list_all (\<lambda>d. d < B) ds \<Longrightarrow> num B ds < B ^ length ds"
proof (induction ds)
  case (Cons d ds)
  then have "d * B ^ length ds + num B ds < d * B ^ length ds + B ^ length ds" by simp
  also have "\<dots> = Suc d * B ^ length ds" by simp
  also have "\<dots> \<le> B * B ^ length ds" using Cons.prems by (intro mult_right_mono) auto
  finally show ?case by (simp add: num_Cons)
qed simp

text \<open>Lists of digits of one length sort as their numbers do.\<close>

lemma num_less_iff:
  "length xs = length ys \<Longrightarrow> list_all (\<lambda>d. d < B) xs \<Longrightarrow> list_all (\<lambda>d. d < B) ys \<Longrightarrow> xs < ys \<longleftrightarrow> num B xs < num B ys"
proof (induction xs ys rule: list_induct2)
  case (Cons x xs y ys)
  have b: "num B xs < B ^ length ys" "num B ys < B ^ length ys" using num_bound[of B xs] num_bound[of B ys] Cons by auto
  have "num B (x # xs) < num B (y # ys)" if "x < y"
  proof -
    have "x * B ^ length ys + num B xs < Suc x * B ^ length ys" using b(1) by simp
    also have "\<dots> \<le> y * B ^ length ys" using that by (intro mult_right_mono) auto
    finally show ?thesis using Cons by (simp add: num_Cons)
  qed
  moreover have "num B (y # ys) < num B (x # xs)" if "y < x"
  proof -
    have "y * B ^ length ys + num B ys < Suc y * B ^ length ys" using b(2) by simp
    also have "\<dots> \<le> x * B ^ length ys" using that by (intro mult_right_mono) auto
    finally show ?thesis using Cons by (simp add: num_Cons)
  qed
  ultimately show ?case using Cons by (cases x y rule: linorder_cases) (auto simp: num_Cons)
qed simp

lemma num_blocks: "list_all (\<lambda>c. length c = k) cs \<Longrightarrow> num B (concat cs) = num (B ^ k) (map (num B) cs)"
  by (induction cs rule: rev_induct) (auto simp: num_append num_Cons)

text \<open>A text whose letters are drawn in order from an alphabet that is in order sorts as what it was drawn from.\<close>

lemma alphabet_less:
  fixes alphabet :: "'a::linorder list"
  assumes "sorted_wrt (<) alphabet" "length xs = length ys" "list_all (\<lambda>d. d < length alphabet) xs" "list_all (\<lambda>d. d < length alphabet) ys"
  shows "map ((!) alphabet) xs < map ((!) alphabet) ys \<longleftrightarrow> xs < ys"
  using assms(2-)
proof (induction xs ys rule: list_induct2)
  case (Cons x xs y ys)
  have m: "i < j \<Longrightarrow> j < length alphabet \<Longrightarrow> alphabet ! i < alphabet ! j" for i j
    using assms(1) by (simp add: sorted_wrt_iff_nth_less)
  show ?case using Cons m[of x y] m[of y x] by (cases x y rule: linorder_cases) auto
qed simp

section \<open>The text of sixteen bytes\<close>

definition bits :: "nat \<Rightarrow> nat list" where
  "bits b = map (\<lambda>k. b div 2 ^ (7 - k) mod 2) [0..<8]"

lemma num_digits: "0 < B \<Longrightarrow> num B (map (\<lambda>k. b div B ^ (n - Suc k) mod B) [0..<n]) = b mod B ^ n"
proof (induction n)
  case (Suc n)
  have "map (\<lambda>k. b div B ^ (Suc n - Suc k) mod B) [0..<Suc n] = b div B ^ n mod B # map (\<lambda>k. b div B ^ (n - Suc k) mod B) [0..<n]"
    by (simp add: upt_conv_Cons map_Suc_upt[symmetric] del: upt_Suc)
  then have "num B (map (\<lambda>k. b div B ^ (Suc n - Suc k) mod B) [0..<Suc n]) = (b div B ^ n mod B) * B ^ n + b mod B ^ n"
    using Suc by (simp only: num_Cons length_map length_upt diff_zero)
  also have "\<dots> = b mod B ^ Suc n" using mod_mult2_eq[of b "B ^ n" B] by (simp add: mult.commute)
  finally show ?case .
qed simp

lemma num_bits: "b < 256 \<Longrightarrow> num 2 (bits b) = b"
  using num_digits[of 2 b 8] by (simp add: bits_def)

definition padded :: "nat list \<Rightarrow> nat list" where
  "padded b = [0, 0] @ concat (map bits b)"

lemma nth_concat_bits: "pos < 8 * length b \<Longrightarrow> concat (map bits b) ! pos = b ! (pos div 8) div 2 ^ (7 - pos mod 8) mod 2"
proof (induction b arbitrary: pos)
  case (Cons x b)
  show ?case
  proof (cases "pos < 8")
    case True
    then show ?thesis by (simp add: nth_append bits_def)
  next
    case False
    then obtain q where q: "pos = 8 + q" using le_Suc_ex[of 8 pos] by auto
    then have "concat (map bits b) ! q = b ! (q div 8) div 2 ^ (7 - q mod 8) mod 2" using Cons by (intro Cons.IH) auto
    moreover have "length (bits x) = 8" "(8 + q) div 8 = Suc (q div 8)" by (simp_all add: bits_def)
    ultimately show ?thesis by (simp add: q nth_append)
  qed
qed simp

lemma char_bits_num:
  assumes "length b = 16" "i < 26"
  shows "char_bits b i = num 2 (take 5 (drop (5 * i) (padded b)))"
proof -
  have l: "length (concat (map bits b)) = 128" using assms(1) by (simp add: length_concat bits_def comp_def sum_list_triv)
  have p: "padded b ! k = (if k < 2 then 0 else b ! ((k - 2) div 8) div 2 ^ (7 - (k - 2) mod 8) mod 2)" if "k < 130" for k
    using that nth_concat_bits[of "k - 2" b] assms(1) by (auto simp: padded_def nth_append nth_Cons split: nat.splits)
  have "take 5 (drop (5 * i) (padded b)) = map (\<lambda>j. padded b ! (5 * i + j)) [0..<5]"
    using assms(2) l by (intro nth_equalityI) (auto simp: padded_def)
  then have t: "take 5 (drop (5 * i) (padded b)) =
      map (\<lambda>j. if i * 5 + j < 2 then 0 else b ! ((i * 5 + j - 2) div 8) div 2 ^ (7 - (i * 5 + j - 2) mod 8) mod 2) [0..<5]"
    using assms(2) p by (auto simp: mult.commute)
  show ?thesis
  proof (cases "i = 0")
    case True
    then show ?thesis unfolding t by (simp add: char_bits_def num_def upt_rec Let_def)
  next
    case False
    then have "\<not> i * 5 + j < 2" for j by auto
    then show ?thesis unfolding t by (simp add: char_bits_def num_def foldl_map Let_def)
  qed
qed

lemma blocks: "length xs = k * n \<Longrightarrow> concat (map (\<lambda>i. take k (drop (k * i) xs)) [0..<n]) = xs"
proof (induction n arbitrary: xs)
  case (Suc n)
  have "concat (map (\<lambda>i. take k (drop (k * i) (drop k xs))) [0..<n]) = drop k xs" using Suc by (intro Suc.IH) auto
  moreover have "map (\<lambda>i. take k (drop (k * i) xs)) [0..<Suc n] = take k xs # map (\<lambda>i. take k (drop (k * i) (drop k xs))) [0..<n]"
    by (simp add: upt_conv_Cons map_Suc_upt[symmetric] add.commute del: upt_Suc)
  ultimately show ?case by (simp del: upt_Suc)
qed simp

definition is_bytes :: "nat \<Rightarrow> nat list \<Rightarrow> bool" where
  "is_bytes n b \<longleftrightarrow> length b = n \<and> list_all (\<lambda>x. x < 256) b"

lemma length_concat_bits: "length (concat (map bits b)) = 8 * length b"
  by (induction b) (auto simp: bits_def)

lemma num_char_bits:
  assumes "is_bytes 16 b"
  shows "num 32 (map (char_bits b) [0..<26]) = num 256 b"
proof -
  let ?c = "map (\<lambda>i. take 5 (drop (5 * i) (padded b))) [0..<26]"
  have l: "length (padded b) = 5 * 26" using assms by (simp add: padded_def length_concat_bits is_bytes_def)
  have "list_all (\<lambda>c. length c = 5) ?c" using l by (auto simp: list_all_iff)
  then have "num 2 (concat ?c) = num (2 ^ 5) (map (num 2) ?c)" by (rule num_blocks)
  moreover have "concat ?c = padded b" by (rule blocks[OF l])
  moreover have "map (num 2) ?c = map (char_bits b) [0..<26]" using assms by (auto simp: char_bits_num is_bytes_def)
  ultimately have "num 32 (map (char_bits b) [0..<26]) = num 2 (padded b)" by (simp only: numeral_power_eq_of_nat_cancel_iff) simp
  also have "\<dots> = num 2 (concat (map bits b))" by (simp add: padded_def num_Cons)
  also have "\<dots> = num (2 ^ 8) (map (num 2) (map bits b))" by (rule num_blocks) (auto simp: list_all_iff bits_def)
  also have "map (num 2) (map bits b) = b" using assms by (auto simp: is_bytes_def list_all_iff num_bits intro!: map_idI)
  finally show ?thesis by simp
qed

lemma char_bits_less: "is_bytes 16 b \<Longrightarrow> i < 26 \<Longrightarrow> char_bits b i < 32"
proof -
  assume b: "is_bytes 16 b" "i < 26"
  let ?c = "take 5 (drop (5 * i) (padded b))"
  have "list_all (\<lambda>d. d < 2) (padded b)" by (auto simp: padded_def bits_def list_all_iff)
  then have "list_all (\<lambda>d. d < 2) ?c" by (auto simp: list_all_iff dest!: in_set_takeD in_set_dropD)
  then have "num 2 ?c < 2 ^ length ?c" by (rule num_bound)
  also have "\<dots> \<le> 2 ^ 5" by (intro power_increasing) auto
  finally show ?thesis using char_bits_num[of b i] b by (simp add: is_bytes_def)
qed

lemma ulid_encode_less:
  assumes "is_bytes 16 b" "is_bytes 16 b'"
  shows "ulid_encode b < ulid_encode b' \<longleftrightarrow> num 256 b < num 256 b'"
proof -
  have e: "ulid_encode b = map ((!) crockford) (map (char_bits b) [0..<26])" for b by (simp add: ulid_encode_def)
  have d: "list_all (\<lambda>d. d < 32) (map (char_bits b) [0..<26])" if "is_bytes 16 b" for b
    using char_bits_less[OF that] by (auto simp: list_all_iff)
  have c: "sorted_wrt (<) crockford" "length crockford = 32" by (simp_all add: crockford_def)
  have "ulid_encode b < ulid_encode b' \<longleftrightarrow> map (char_bits b) [0..<26] < map (char_bits b') [0..<26]"
    unfolding e using d[OF assms(1)] d[OF assms(2)] c(2) by (intro alphabet_less[OF c(1)]) auto
  then show ?thesis using num_less_iff[of _ _ 32] d[OF assms(1)] d[OF assms(2)] num_char_bits[OF assms(1)] num_char_bits[OF assms(2)] by auto
qed

section \<open>Identifiers sort in the order they were minted\<close>

lemma increment_rev_num:
  "increment_rev r = (r', ok) \<Longrightarrow> list_all (\<lambda>x. x < 256) r \<Longrightarrow>
   length r' = length r \<and> list_all (\<lambda>x. x < 256) r' \<and> (ok \<longrightarrow> num 256 (rev r') = num 256 (rev r) + 1)"
proof (induction r arbitrary: r' ok)
  case (Cons b bs)
  show ?case
  proof (cases "(b + 1) mod 256 = 0")
    case True
    obtain bs' where bs: "increment_rev bs = (bs', ok)" "r' = 0 # bs'" using Cons.prems(1) True by (auto simp: Let_def split: prod.splits)
    have "\<not> b + 1 < 256" using True mod_less[of "b + 1" 256] by linarith
    then have "b = 255" using Cons.prems(2) by simp
    then show ?thesis using Cons.IH[OF bs(1)] Cons.prems(2) bs(2) by (auto simp: num_append num_Cons)
  next
    case False
    then have "b + 1 < 256" using Cons.prems(2) by (cases "b = 255") auto
    then show ?thesis using False Cons.prems by (auto simp: Let_def num_append num_Cons)
  qed
qed simp

lemma increment_num:
  "increment e = (e', ok) \<Longrightarrow> is_bytes n e \<Longrightarrow> is_bytes n e' \<and> (ok \<longrightarrow> num 256 e' = num 256 e + 1)"
  using increment_rev_num[of "rev e"] by (auto simp: increment_def is_bytes_def list_all_iff split: prod.splits)

lemma ms_bytes_num: "num 256 (ms_bytes ms) = ms mod 2 ^ 48"
proof -
  have "ms_bytes ms = map (\<lambda>k. ms div 256 ^ (6 - Suc k) mod 256) [0..<6]" by (simp add: ms_bytes_def upt_rec)
  then show ?thesis using num_digits[of 256 ms 6] by simp
qed

lemma ms_bytes_bytes: "is_bytes 6 (ms_bytes ms)"
  by (simp add: ms_bytes_def is_bytes_def list_all_iff)

text \<open>Where the generator is, as one number: the millisecond and the randomness.\<close>

definition position :: "ulid_state \<Rightarrow> nat" where
  "position s = lastMS s * 256 ^ 10 + num 256 (entropy s)"

definition ulid_text :: "ulid_state \<Rightarrow> string" where
  "ulid_text s = ulid_encode (ms_bytes (lastMS s) @ entropy s)"

lemma ulid_text_less:
  assumes "is_bytes 10 (entropy s)" "is_bytes 10 (entropy s')" "lastMS s < 2 ^ 48" "lastMS s' < 2 ^ 48"
  shows "ulid_text s < ulid_text s' \<longleftrightarrow> position s < position s'"
proof -
  have b: "is_bytes 16 (ms_bytes (lastMS s) @ entropy s)" if "is_bytes 10 (entropy s)" for s
    using ms_bytes_bytes[of "lastMS s"] that by (simp add: is_bytes_def)
  have n: "num 256 (ms_bytes (lastMS s) @ entropy s) = position s" if "is_bytes 10 (entropy s)" "lastMS s < 2 ^ 48" for s
    using that by (simp add: num_append ms_bytes_num position_def is_bytes_def)
  show ?thesis unfolding ulid_text_def using ulid_encode_less[OF b[OF assms(1)] b[OF assms(2)]] n assms by simp
qed

lemma ulid_New_step:
  assumes "ulid_New now rand s = (name, s')" "is_bytes 10 (entropy s)" "is_bytes 10 rand"
  shows "name = ulid_text s' \<and> is_bytes 10 (entropy s') \<and> position s < position s' \<and> lastMS s \<le> lastMS s'"
proof -
  obtain e ok where e: "increment (entropy s) = (e, ok)" by fastforce
  have ms: "position s < position t" if "lastMS s < lastMS t" for t
  proof -
    have "position s < Suc (lastMS s) * 256 ^ 10" using num_bound[of 256 "entropy s"] assms(2) by (simp add: position_def is_bytes_def)
    also have "\<dots> \<le> lastMS t * 256 ^ 10" using that by (intro mult_right_mono) auto
    finally show ?thesis by (simp add: position_def)
  qed
  show ?thesis using assms e increment_num[OF e assms(2)] ms[of s']
    by (auto simp: ulid_New_def ulid_text_def position_def split: if_splits)
qed

lemma mints_from:
  assumes "mints calls s = (ids, s')" "is_bytes 10 (entropy s)" "list_all (\<lambda>(now, rand). is_bytes 10 rand) calls" "lastMS s' < 2 ^ 48"
  shows "lastMS s \<le> lastMS s' \<and> sorted_wrt (<) (ulid_text s # ids)"
  using assms
proof (induction calls arbitrary: s ids)
  case (Cons c calls)
  obtain now rand where c: "c = (now, rand)" by fastforce
  obtain name t where n: "ulid_New now rand s = (name, t)" by fastforce
  obtain ids' where m: "mints calls t = (ids', s')" "ids = name # ids'" using Cons.prems(1) c n by (auto split: prod.splits)
  have st: "name = ulid_text t" "is_bytes 10 (entropy t)" "position s < position t" "lastMS s \<le> lastMS t"
    using ulid_New_step[OF n Cons.prems(2)] Cons.prems(3) c by auto
  have ih: "lastMS t \<le> lastMS s'" "sorted_wrt (<) (ulid_text t # ids')" using Cons.IH[OF m(1) st(2)] Cons.prems(3,4) by auto
  have "ulid_text s < ulid_text t" using ulid_text_less[OF Cons.prems(2) st(2)] st(3,4) ih(1) Cons.prems(4) by simp
  then show ?case using ih st m(2) by (auto intro: less_trans)
qed simp

text \<open>
  C38: identifiers sort as text in the order they were minted, each before every later one, whatever the clock says between two
  calls and whatever is drawn, as long as the milliseconds fit in forty-eight bits: where the clock stands still or goes
  back the randomness counts on, and where that is spent a millisecond is.
\<close>

theorem identifiers_sort_as_minted:
  assumes "mints calls s = (ids, s')" "is_bytes 10 (entropy s)" "list_all (\<lambda>(now, rand). is_bytes 10 rand) calls" "lastMS s' < 2 ^ 48"
  shows "sorted_wrt (<) ids"
  using mints_from[OF assms] by simp

definition ulid_start :: ulid_state where
  "ulid_start = \<lparr>lastMS = 5, entropy = [255, 255, 255, 255, 255, 255, 255, 255, 255, 254]\<rparr>"

theorem identifiers_sort_as_minted_witness:
  "sorted_wrt (<) (fst (mints [(4, replicate 10 0), (4, replicate 10 7), (9, replicate 10 1)] ulid_start))"
proof -
  let ?m = "mints [(4, replicate 10 0), (4, replicate 10 7), (9, replicate 10 1)] ulid_start"
  have "lastMS (snd ?m) < 2 ^ 48" "is_bytes 10 (entropy ulid_start)"
    by (simp_all add: ulid_start_def ulid_New_def increment_def is_bytes_def)
  moreover have "list_all (\<lambda>(now, rand). is_bytes 10 rand) [(4::nat, replicate 10 0), (4, replicate 10 7), (9, replicate 10 1)]" by (simp add: is_bytes_def list_all_iff)
  moreover have "?m = (fst ?m, snd ?m)" by (rule prod.collapse[symmetric])
  ultimately show ?thesis using identifiers_sort_as_minted by blast
qed

end
