(* ===== verification/Totp.thy ===== *)
theory Totp
  imports Bytes
begin

text \<open>
  \<open>internal/totp\<close> and the statement of \<open>db/credentials.go\<close> that spends a step: the codes of a generator and which of them a
  sign-in accepts. HMAC-SHA-1 is the argument \<open>hmac\<close>, and a moment is its Unix seconds. No step is accepted twice, whatever
  sign-ins overlap, and a code is accepted only within one step of the clock.
\<close>

section \<open>Codes\<close>

definition Step :: int where "Step = 30"
definition Digits :: nat where "Digits = 6"
definition Skew :: int where "Skew = 1"
definition modulus :: nat where "modulus = 1000000"

text \<open>Go's division of integers drops the fraction; \<open>quot\<close> is it, for a positive divisor.\<close>

definition quot :: "int \<Rightarrow> int \<Rightarrow> int" where
  "quot a b = (if 0 \<le> a then a div b else - (- a div b))"

definition StepAt :: "int \<Rightarrow> int" where
  "StepAt seconds = (if seconds < 0 then quot (seconds - Step + 1) Step else quot seconds Step)"

definition Code :: "(string \<Rightarrow> string \<Rightarrow> string) \<Rightarrow> string \<Rightarrow> int \<Rightarrow> string" where
  "Code hmac secret step =
     (let counter = big_endian 8 (nat (step mod 2 ^ 64));
          sum = hmac secret counter;
          offset = byte (last sum) mod 16;
          val = big_endian_val (take 4 (drop offset sum)) mod 2 ^ 31
      in pad Digits (int (val mod modulus)))"

text \<open>The loop computes every step within \<open>Skew\<close> and keeps the first that matched.\<close>

definition Match :: "(string \<Rightarrow> string \<Rightarrow> string) \<Rightarrow> string \<Rightarrow> string \<Rightarrow> int \<Rightarrow> int \<Rightarrow> int option" where
  "Match hmac secret code now after =
     (let at = StepAt now in
      foldl (\<lambda>found step. if Code hmac secret step = code \<and> after < step \<and> found = None then Some step else found) None
        [at - Skew .. at + Skew])"

section \<open>A step is spent once\<close>

text \<open>The column \<open>totp_step\<close> of a generator, null before a code was accepted, and read as 0 then.\<close>

datatype totp_answer = Accepted int | NoMatch | Spent

definition TOTPUsed :: "int \<Rightarrow> int option \<Rightarrow> int option option" where
  "TOTPUsed step stored =
     (case stored of
        None \<Rightarrow> Some (Some step)
      | Some s \<Rightarrow> if s < step then Some (Some step) else None)"

text \<open>
  One sign-in checks its code against the step as it read it, which another may have moved since, and spends the step it
  matched: \<open>seen\<close> is what it read, and the row is as it is when it writes.
\<close>

definition sign_in :: "(string \<Rightarrow> string \<Rightarrow> string) \<Rightarrow> string \<Rightarrow> string \<times> int \<times> int option \<Rightarrow> int option \<Rightarrow> totp_answer \<times> int option" where
  "sign_in hmac secret ask stored =
     (let (code, now, seen) = ask in
      case Match hmac secret code now (case seen of None \<Rightarrow> 0 | Some s \<Rightarrow> s) of
        None \<Rightarrow> (NoMatch, stored)
      | Some step \<Rightarrow>
          (case TOTPUsed step stored of
             None \<Rightarrow> (Spent, stored)
           | Some stored' \<Rightarrow> (Accepted step, stored')))"

fun sign_ins :: "(string \<Rightarrow> string \<Rightarrow> string) \<Rightarrow> string \<Rightarrow> (string \<times> int \<times> int option) list \<Rightarrow> int option \<Rightarrow> totp_answer list" where
  "sign_ins hmac secret [] stored = []"
| "sign_ins hmac secret (ask # asks) stored =
     (let (a, stored') = sign_in hmac secret ask stored in a # sign_ins hmac secret asks stored')"

definition accepted_steps :: "totp_answer list \<Rightarrow> int list" where
  "accepted_steps as = concat (map (\<lambda>a. case a of Accepted s \<Rightarrow> [s] | _ \<Rightarrow> []) as)"

text \<open>Steps are whole intervals of thirty seconds, before the epoch too.\<close>

lemma StepAt_floor: "StepAt t = t div 30"
proof (cases "0 \<le> t")
  case True
  then show ?thesis by (simp add: StepAt_def quot_def Step_def)
next
  case False
  have "t = 30 * (t div 30) + t mod 30" "0 \<le> t mod 30" "t mod 30 < 30" by simp_all
  then have "(29 - t) div 30 = - (t div 30)" by (intro int_div_pos_eq[of _ _ _ "29 - t mod 30"]) linarith+
  then show ?thesis using False by (simp add: StepAt_def quot_def Step_def)
qed

lemma foldl_found: "foldl (\<lambda>found x. if P x \<and> found = None then Some x else found) f xs = (if f = None then find P xs else f)"
  by (induction xs arbitrary: f) auto

lemma Match_find: "Match hmac secret code now after =
    find (\<lambda>step. Code hmac secret step = code \<and> after < step) [StepAt now - 1, StepAt now, StepAt now + 1]"
proof -
  have l: "[a - 1..a + 1] = [a - 1, a, a + 1]" for a :: int using upto_rec1[of "a - 1" "a + 1"] upto_rec1[of a "a + 1"] by simp
  have "(\<lambda>found step. if Code hmac secret step = code \<and> after < step \<and> found = None then Some step else found) =
    (\<lambda>found step. if (Code hmac secret step = code \<and> after < step) \<and> found = None then Some step else found)"
    by (intro ext) auto
  then show ?thesis unfolding Match_def Let_def Skew_def l using foldl_found by metis
qed

lemma find_first:
  "sorted_wrt (<) xs \<Longrightarrow> find P xs = Some x \<longleftrightarrow> x \<in> set xs \<and> P x \<and> (\<forall>y \<in> set xs. P y \<longrightarrow> x \<le> y)" for x :: "'a::linorder"
proof (induction xs)
  case (Cons y ys)
  then have l: "\<And>z. z \<in> set ys \<Longrightarrow> y < z" by simp
  show ?case
  proof (cases "P y")
    case True
    have "x = y" if "x \<in> set (y # ys)" "\<forall>z \<in> set (y # ys). P z \<longrightarrow> x \<le> z" using that True l[of x] by force
    then show ?thesis using True l by (auto intro: less_imp_le)
  next
    case False
    then show ?thesis using Cons by auto
  qed
qed simp

text \<open>A code is matched at the earliest step it may be.\<close>

lemma Match_Some_iff:
  "Match hmac secret code now after = Some step \<longleftrightarrow>
   \<bar>step - now div 30\<bar> \<le> 1 \<and> after < step \<and> Code hmac secret step = code \<and>
   (\<forall>s. \<bar>s - now div 30\<bar> \<le> 1 \<and> after < s \<and> Code hmac secret s = code \<longrightarrow> step \<le> s)"
proof -
  define a where "a = now div 30"
  have r: "s \<in> set [a - 1, a, a + 1] \<longleftrightarrow> \<bar>s - a\<bar> \<le> 1" for s by auto
  have "sorted_wrt (<) [a - 1, a, a + 1]" by simp
  then show ?thesis unfolding Match_find StepAt_floor a_def[symmetric] by (subst find_first) (auto simp only: r)
qed

lemma sign_ins_increase:
  "sorted_wrt (<) ((case stored of None \<Rightarrow> [] | Some s \<Rightarrow> [s]) @ accepted_steps (sign_ins hmac secret asks stored))"
proof (induction asks arbitrary: stored)
  case (Cons ask asks)
  obtain a stored' where s: "sign_in hmac secret ask stored = (a, stored')" by fastforce
  have ih: "sorted_wrt (<) ((case stored' of None \<Rightarrow> [] | Some s \<Rightarrow> [s]) @ accepted_steps (sign_ins hmac secret asks stored'))"
    by (rule Cons.IH)
  show ?case
  proof (cases a)
    case (Accepted step)
    then have "stored' = Some step" "\<forall>s. stored = Some s \<longrightarrow> s < step"
      using s by (auto simp: sign_in_def TOTPUsed_def split: prod.splits option.splits if_splits)
    then show ?thesis using s ih Accepted by (cases stored) (auto simp: accepted_steps_def)
  qed (use s ih in \<open>auto simp: accepted_steps_def sign_in_def split: prod.splits option.splits if_splits\<close>)
qed (auto simp: accepted_steps_def split: option.splits)

text \<open>
  C26: whatever sign-ins overlap, each having read the last step spent at any moment before, the steps at which codes are
  accepted only go up, so no code is accepted twice; and each is accepted at a step whose code it is, within one step of
  the clock.
\<close>

theorem no_code_is_accepted_twice:
  "sorted_wrt (<) (accepted_steps (sign_ins hmac secret asks stored)) \<and>
   list_all2 (\<lambda>(code, now, seen) a. case a of Accepted step \<Rightarrow> Code hmac secret step = code \<and> \<bar>step - now div 30\<bar> \<le> 1 | _ \<Rightarrow> True)
     asks (sign_ins hmac secret asks stored)"
proof
  show "sorted_wrt (<) (accepted_steps (sign_ins hmac secret asks stored))"
    using sign_ins_increase[of stored hmac secret asks] by (simp add: sorted_wrt_append)
  show "list_all2 (\<lambda>(code, now, seen) a. case a of Accepted step \<Rightarrow> Code hmac secret step = code \<and> \<bar>step - now div 30\<bar> \<le> 1 | _ \<Rightarrow> True)
     asks (sign_ins hmac secret asks stored)"
  proof (induction asks arbitrary: stored)
    case (Cons ask asks)
    obtain a stored' where s: "sign_in hmac secret ask stored = (a, stored')" by fastforce
    obtain code now seen where k: "ask = (code, now, seen)" by (cases ask) auto
    have "case a of Accepted step \<Rightarrow> Code hmac secret step = code \<and> \<bar>step - now div 30\<bar> \<le> 1 | _ \<Rightarrow> True"
      using s k by (auto simp: sign_in_def Match_Some_iff split: option.splits)
    then show ?case using s k Cons.IH by simp
  qed simp
qed

end
