(* ===== verification/Cbor.thy ===== *)
theory Cbor
  imports Bytes
begin

text \<open>
  \<open>internal/webauthn/cbor.go\<close>: the decoder of the CBOR a passkey ceremony carries. What is left of the input stands for the
  decoder's offset. How deep an item may still nest is the argument the recursion is on, from \<open>maxDepth\<close> down. A map is the
  list of its entries as they were read, its keys distinct.
\<close>

datatype cbor =
    CInt int
  | CBytes string
  | CText string
  | CBool bool
  | CArr "cbor list"
  | CMap "(cbor \<times> cbor) list"

definition maxInput :: nat where "maxInput = 16384"
definition maxDepth :: nat where "maxDepth = 5"
definition maxItems :: nat where "maxItems = 256"

definition majorUint :: nat where "majorUint = 0"
definition majorNeg :: nat where "majorNeg = 1"
definition majorBytes :: nat where "majorBytes = 2"
definition majorText :: nat where "majorText = 3"
definition majorArray :: nat where "majorArray = 4"
definition majorMap :: nat where "majorMap = 5"
definition majorTag :: nat where "majorTag = 6"
definition majorSimple :: nat where "majorSimple = 7"

lemmas majors = majorUint_def majorNeg_def majorBytes_def majorText_def majorArray_def majorMap_def majorTag_def majorSimple_def

datatype cbor_error =
    EndsInside
  | TooManyItems
  | SimpleRefused
  | Indefinite
  | Reserved nat
  | NotShortest nat nat
  | DoesNotFit nat
  | RunsPast nat
  | NotUTF8
  | TooDeep
  | KeyRefused
  | KeyTwice
  | Tagged
  | InputTooLong
  | BytesLeft nat

section \<open>Heads\<close>

definition info_size :: "nat \<Rightarrow> (cbor_error, nat) result" where
  "info_size info =
     (if info = 24 then Inr 1 else if info = 25 then Inr 2 else if info = 26 then Inr 4 else if info = 27 then Inr 8
      else if info = 31 then Inl Indefinite else Inl (Reserved info))"

definition smallest :: "nat \<Rightarrow> nat" where
  "smallest n = (if n = 1 then 24 else if n = 2 then 2 ^ 8 else if n = 4 then 2 ^ 16 else 2 ^ 32)"

definition cbor_head :: "string \<Rightarrow> (cbor_error, nat \<times> nat \<times> string) result" where
  "cbor_head s =
     (let initial = byte (hd s); r = tl s; major = initial div 32; info = initial mod 32 in
      if info < 24 then Inr (major, info, r)
      else rbind (info_size info) (\<lambda>n.
        if length r < n then Inl EndsInside
        else let arg = big_endian_val (take n r) in
          if arg < smallest n then Inl (NotShortest arg n) else Inr (major, arg, drop n r)))"

section \<open>Text\<close>

text \<open>\<open>utf8.Valid\<close>.\<close>

function utf8_valid :: "string \<Rightarrow> bool" where
  "utf8_valid [] = True"
| "utf8_valid (c # s) =
     (if byte c < 128 then utf8_valid s
      else let k = utf8_len (map byte (c # s)) in k \<noteq> 0 \<and> utf8_valid (drop (k - 1) s))"
  by pat_completeness auto
termination
  by (relation "measure length") auto

section \<open>Items\<close>

type_synonym reader = "string \<Rightarrow> nat \<Rightarrow> (cbor_error, cbor \<times> string \<times> nat) result"

fun read_array :: "reader \<Rightarrow> nat \<Rightarrow> string \<Rightarrow> nat \<Rightarrow> (cbor_error, cbor list \<times> string \<times> nat) result" where
  "read_array f 0 s items = Inr ([], s, items)"
| "read_array f (Suc n) s items =
     rbind (f s items) (\<lambda>(v, s', items'). rbind (read_array f n s' items') (\<lambda>(vs, s'', items''). Inr (v # vs, s'', items'')))"

definition is_key :: "cbor \<Rightarrow> bool" where
  "is_key k \<longleftrightarrow> (case k of CInt _ \<Rightarrow> True | CText _ \<Rightarrow> True | _ \<Rightarrow> False)"

fun read_map :: "reader \<Rightarrow> nat \<Rightarrow> (cbor \<times> cbor) list \<Rightarrow> string \<Rightarrow> nat \<Rightarrow> (cbor_error, (cbor \<times> cbor) list \<times> string \<times> nat) result" where
  "read_map f 0 m s items = Inr (m, s, items)"
| "read_map f (Suc n) m s items =
     rbind (f s items) (\<lambda>(k, s', items').
     if \<not> is_key k then Inl KeyRefused
     else if k \<in> set (map fst m) then Inl KeyTwice
     else rbind (f s' items') (\<lambda>(v, s'', items''). read_map f n (m @ [(k, v)]) s'' items''))"

text \<open>An item, \<open>inner\<close> reading what it holds, or nothing where nothing may be nested any deeper.\<close>

definition item_with :: "reader option \<Rightarrow> reader" where
  "item_with inner s items0 =
     (if s = [] then Inl EndsInside
      else let items = items0 + 1 in
      if maxItems < items then Inl TooManyItems
      else if byte (hd s) div 32 = majorSimple then
        (if byte (hd s) mod 32 = 20 then Inr (CBool False, tl s, items)
         else if byte (hd s) mod 32 = 21 then Inr (CBool True, tl s, items)
         else Inl SimpleRefused)
      else rbind (cbor_head s) (\<lambda>(major, arg, r).
        let left = length r in
        if major = majorUint then (if 2 ^ 63 \<le> arg then Inl (DoesNotFit arg) else Inr (CInt (int arg), r, items))
        else if major = majorNeg then (if 2 ^ 63 \<le> arg then Inl (DoesNotFit arg) else Inr (CInt (- 1 - int arg), r, items))
        else if major = majorBytes \<or> major = majorText then
          (if left < arg then Inl (RunsPast arg)
           else if major = majorText then
             (if \<not> utf8_valid (take arg r) then Inl NotUTF8 else Inr (CText (take arg r), drop arg r, items))
           else Inr (CBytes (take arg r), drop arg r, items))
        else if major = majorArray then
          (case inner of
             None \<Rightarrow> Inl TooDeep
           | Some f \<Rightarrow>
               if left < arg then Inl (RunsPast arg)
               else if maxItems - items < arg then Inl TooManyItems
               else rbind (read_array f arg r items) (\<lambda>(vs, r', items'). Inr (CArr vs, r', items')))
        else if major = majorMap then
          (case inner of
             None \<Rightarrow> Inl TooDeep
           | Some f \<Rightarrow>
               if left div 2 < arg then Inl (RunsPast arg)
               else if (maxItems - items) div 2 < arg then Inl TooManyItems
               else rbind (read_map f arg [] r items) (\<lambda>(m, r', items'). Inr (CMap m, r', items')))
        else Inl Tagged))"

primrec item_at :: "nat \<Rightarrow> reader" where
  "item_at 0 = item_with None"
| "item_at (Suc k) = item_with (Some (item_at k))"

definition decodeCBORPrefix :: "string \<Rightarrow> (cbor_error, cbor \<times> nat) result" where
  "decodeCBORPrefix b =
     (if maxInput < length b then Inl InputTooLong
      else rbind (item_at maxDepth b 0) (\<lambda>(v, r, _). Inr (v, length b - length r)))"

definition decodeCBOR :: "string \<Rightarrow> (cbor_error, cbor) result" where
  "decodeCBOR b =
     rbind (decodeCBORPrefix b) (\<lambda>(v, n). if n \<noteq> length b then Inl (BytesLeft (length b - n)) else Inr v)"

section \<open>The one encoding\<close>

definition enc_head :: "nat \<Rightarrow> nat \<Rightarrow> string" where
  "enc_head major n =
     (if n < 24 then [char_of (major * 32 + n)]
      else if n < 2 ^ 8 then char_of (major * 32 + 24) # big_endian 1 n
      else if n < 2 ^ 16 then char_of (major * 32 + 25) # big_endian 2 n
      else if n < 2 ^ 32 then char_of (major * 32 + 26) # big_endian 4 n
      else char_of (major * 32 + 27) # big_endian 8 n)"

fun enc :: "cbor \<Rightarrow> string" where
  "enc (CInt i) = (if 0 \<le> i then enc_head majorUint (nat i) else enc_head majorNeg (nat (- 1 - i)))"
| "enc (CBytes b) = enc_head majorBytes (length b) @ b"
| "enc (CText t) = enc_head majorText (length t) @ t"
| "enc (CBool b) = [char_of (majorSimple * 32 + (if b then 21 else 20))]"
| "enc (CArr vs) = enc_head majorArray (length vs) @ concat (map enc vs)"
| "enc (CMap m) = enc_head majorMap (length m) @ concat (map (\<lambda>(k, v). enc k @ enc v) m)"

fun nitems :: "cbor \<Rightarrow> nat" where
  "nitems (CArr vs) = 1 + sum_list (map nitems vs)"
| "nitems (CMap m) = 1 + sum_list (map (\<lambda>(k, v). nitems k + nitems v) m)"
| "nitems _ = 1"

text \<open>What may be decoded with \<open>k\<close> levels left to nest.\<close>

fun canonical :: "nat \<Rightarrow> cbor \<Rightarrow> bool" where
  "canonical k (CInt i) = (- (2 ^ 63) \<le> i \<and> i < 2 ^ 63)"
| "canonical k (CBytes b) = (length b < 2 ^ 64)"
| "canonical k (CText t) = (length t < 2 ^ 64 \<and> utf8_valid t)"
| "canonical k (CBool b) = True"
| "canonical 0 (CArr vs) = False"
| "canonical (Suc k) (CArr vs) = list_all (canonical k) vs"
| "canonical 0 (CMap m) = False"
| "canonical (Suc k) (CMap m) =
     (distinct (map fst m) \<and> list_all (\<lambda>(key, v). is_key key \<and> canonical k key \<and> canonical k v) m)"

section \<open>Heads are read as they are written\<close>

lemma head_byte: "major < 8 \<Longrightarrow> info < 32 \<Longrightarrow>
  byte (char_of (major * 32 + info)) div 32 = major \<and> byte (char_of (major * 32 + info)) mod 32 = info"
  by (subst (1 2) byte_char_of) auto

text \<open>The sizes an argument may have after its initial byte, and the additional information that says so.\<close>

definition sized :: "nat \<Rightarrow> nat \<Rightarrow> bool" where
  "sized info n \<longleftrightarrow> (info, n) \<in> {(24, 1), (25, 2), (26, 4), (27, 8)}"

lemma info_size_iff: "info_size info = Inr n \<longleftrightarrow> sized info n"
  by (auto simp: info_size_def sized_def)

lemma enc_head_sized:
  assumes "sized info n" "smallest n \<le> arg" "arg < 256 ^ n"
  shows "enc_head major arg = char_of (major * 32 + info) # big_endian n arg"
proof -
  consider "info = 24" "n = 1" | "info = 25" "n = 2" | "info = 26" "n = 4" | "info = 27" "n = 8"
    using assms(1) by (auto simp: sized_def)
  then show ?thesis using assms(2,3) by cases (simp_all add: smallest_def enc_head_def del: big_endian.simps)
qed

lemma head_size:
  assumes "24 \<le> arg" "arg < 2 ^ 64"
  obtains info n where "sized info n" "smallest n \<le> arg" "arg < 256 ^ n"
proof -
  consider "arg < 256" | "256 \<le> arg" "arg < 65536" | "65536 \<le> arg" "arg < 4294967296" | "4294967296 \<le> arg" by linarith
  then show ?thesis
  proof cases
    case 1
    then show ?thesis using that[of 24 1] assms by (simp add: sized_def smallest_def)
  next
    case 2
    then show ?thesis using that[of 25 2] by (simp add: sized_def smallest_def)
  next
    case 3
    then show ?thesis using that[of 26 4] by (simp add: sized_def smallest_def)
  next
    case 4
    then show ?thesis using that[of 27 8] assms by (simp add: sized_def smallest_def)
  qed
qed

lemma sized_info: "sized info n \<Longrightarrow> 24 \<le> info \<and> info < 32"
  by (auto simp: sized_def)

lemma cbor_head_enc:
  assumes "major < 8" "arg < 2 ^ 64"
  shows "cbor_head (enc_head major arg @ r) = Inr (major, arg, r)"
proof (cases "arg < 24")
  case True
  then show ?thesis using head_byte[of major arg] assms(1) by (simp add: cbor_head_def enc_head_def)
next
  case False
  then obtain info n where n: "sized info n" "smallest n \<le> arg" "arg < 256 ^ n" using head_size[of arg] assms(2) not_less[of arg 24] by blast
  have b: "byte (char_of (major * 32 + info)) div 32 = major" "byte (char_of (major * 32 + info)) mod 32 = info"
    using head_byte[of major info] assms(1) sized_info[OF n(1)] by simp_all
  have v: "big_endian_val (big_endian n arg) = arg" by (rule big_endian_val_big_endian[OF n(3)])
  have i: "info_size info = Inr n" using n(1) info_size_iff by simp
  have "cbor_head ((char_of (major * 32 + info) # big_endian n arg) @ r) = Inr (major, arg, r)"
    unfolding cbor_head_def Let_def append_Cons list.sel b i rbind.simps
    using sized_info[OF n(1)] v n(2) by simp
  then show ?thesis using enc_head_sized[OF n] by simp
qed

lemma enc_cbor_head:
  assumes "cbor_head s = Inr (major, arg, r)" "s \<noteq> []"
  shows "s = enc_head major arg @ r \<and> major < 8 \<and> arg < 2 ^ 64 \<and> major = byte (hd s) div 32"
proof -
  let ?b = "byte (hd s)"
  have m: "major = ?b div 32" using assms(1) by (auto simp: cbor_head_def info_size_def Let_def split: if_splits)
  have m8: "major < 8" using byte_less[of "hd s"] m by (simp add: less_mult_imp_div_less)
  have c: "char_of (major * 32 + ?b mod 32) = hd s" unfolding m by (simp add: byte_def)
  show ?thesis
  proof (cases "?b mod 32 < 24")
    case True
    then have "arg = ?b mod 32" "r = tl s" using assms(1) by (auto simp: cbor_head_def Let_def)
    then show ?thesis using True c m m8 assms(2) by (simp add: enc_head_def)
  next
    case False
    then obtain n where n: "info_size (?b mod 32) = Inr n" "n \<le> length (tl s)" "arg = big_endian_val (take n (tl s))" "smallest n \<le> arg" "r = drop n (tl s)"
      using assms(1) by (auto simp: cbor_head_def Let_def not_less split: if_splits)
    have l: "length (take n (tl s)) = n" using n(2) by simp
    then have e: "big_endian n arg = take n (tl s)" using big_endian_big_endian_val[of "take n (tl s)"] n(3) by simp
    have u: "arg < 256 ^ n" using big_endian_val_bound[of "take n (tl s)"] l n(3) by simp
    have s: "s = hd s # take n (tl s) @ r" using assms(2) n(5) by simp
    have z: "sized (?b mod 32) n" using n(1) info_size_iff by simp
    have "enc_head major arg = hd s # take n (tl s)" using enc_head_sized[OF z n(4) u, of major] c e by simp
    moreover have "n \<le> 8" using z by (auto simp: sized_def)
    then have "(256::nat) ^ n \<le> 256 ^ 8" by (intro power_increasing) auto
    then have "arg < 2 ^ 64" using u by simp
    ultimately show ?thesis using s m m8 by (metis append_Cons)
  qed
qed

lemma enc_head_nonempty [simp]: "enc_head major n \<noteq> []"
  by (simp add: enc_head_def)

lemma enc_nonempty: "enc v \<noteq> []"
  by (cases v) auto

lemma hd_enc_head: "major < 8 \<Longrightarrow> byte (hd (enc_head major n @ r)) div 32 = major"
  using head_byte[of major n] head_byte[of major 24] head_byte[of major 25] head_byte[of major 26] head_byte[of major 27]
  by (simp add: enc_head_def)

end
