(* ===== verification/Passkey_Bytes.thy ===== *)
theory Passkey_Bytes
  imports Cbor
begin

text \<open>
  What \<open>decodeCBOR\<close> of \<open>internal/webauthn/cbor.go\<close> accepts: one encoding of every value. The locale says what a reader of items does,
  every level of the decoder is one, by induction on how deep it may still nest, and the theorem is read off the outermost.
\<close>

section \<open>Readers\<close>

text \<open>A reader reads an encoded item, counts it, and reads nothing else.\<close>

locale item_reader =
  fixes f :: reader and ok :: "cbor \<Rightarrow> bool"
  assumes reads: "f s i = Inr (v, r, j) \<longleftrightarrow> ok v \<and> s = enc v @ r \<and> j = i + nitems v \<and> j \<le> maxItems"
begin

lemma array_reads:
  "i \<le> maxItems \<Longrightarrow>
   read_array f n s i = Inr (vs, r, j) \<longleftrightarrow>
   length vs = n \<and> list_all ok vs \<and> s = concat (map enc vs) @ r \<and> j = i + sum_list (map nitems vs) \<and> j \<le> maxItems"
proof (induction n arbitrary: s i vs)
  case (Suc n)
  show ?case
  proof
    assume "read_array f (Suc n) s i = Inr (vs, r, j)"
    then obtain v s' i' ws where v: "f s i = Inr (v, s', i')" "read_array f n s' i' = Inr (ws, r, j)" "vs = v # ws" by auto
    then show "length vs = Suc n \<and> list_all ok vs \<and> s = concat (map enc vs) @ r \<and> j = i + sum_list (map nitems vs) \<and> j \<le> maxItems"
      using Suc.IH[of i' s' ws] reads by auto
  next
    assume a: "length vs = Suc n \<and> list_all ok vs \<and> s = concat (map enc vs) @ r \<and> j = i + sum_list (map nitems vs) \<and> j \<le> maxItems"
    then obtain v ws where v: "vs = v # ws" by (cases vs) auto
    have "f s i = Inr (v, concat (map enc ws) @ r, i + nitems v)" using a v reads by auto
    moreover have "read_array f n (concat (map enc ws) @ r) (i + nitems v) = Inr (ws, r, j)" using a v by (subst Suc.IH) auto
    ultimately show "read_array f (Suc n) s i = Inr (vs, r, j)" using v by simp
  qed
qed auto

lemma map_reads:
  "i \<le> maxItems \<Longrightarrow> distinct (map fst m) \<Longrightarrow>
   read_map f n m s i = Inr (m', r, j) \<longleftrightarrow>
   (\<exists>es. m' = m @ es \<and> length es = n \<and> distinct (map fst m') \<and> list_all (\<lambda>(k, v). is_key k \<and> ok k \<and> ok v) es \<and>
      s = concat (map (\<lambda>(k, v). enc k @ enc v) es) @ r \<and> j = i + sum_list (map (\<lambda>(k, v). nitems k + nitems v) es) \<and> j \<le> maxItems)"
    (is "_ \<Longrightarrow> _ \<Longrightarrow> ?L n m s i \<longleftrightarrow> (\<exists>es. ?R es n m s i)")
proof (induction n arbitrary: s i m)
  case (Suc n)
  show ?case
  proof
    assume "?L (Suc n) m s i"
    then obtain k s1 i1 v s2 i2 where k: "f s i = Inr (k, s1, i1)" "is_key k" "k \<notin> set (map fst m)" "f s1 i1 = Inr (v, s2, i2)"
      "read_map f n (m @ [(k, v)]) s2 i2 = Inr (m', r, j)" by (auto split: if_splits)
    have i2: "i2 \<le> maxItems" using k(4) reads by auto
    obtain es where es: "?R es n (m @ [(k, v)]) s2 i2" using Suc.IH[OF i2, of "m @ [(k, v)]" s2] k(3,5) Suc.prems(2) by auto
    then have "distinct (map fst (m @ (k, v) # es))" by (metis append_assoc append_Cons append_Nil)
    then have "?R ((k, v) # es) (Suc n) m s i" using es k(1,2,4) by (simp add: reads)
    then show "\<exists>es. ?R es (Suc n) m s i" by blast
  next
    assume "\<exists>es. ?R es (Suc n) m s i"
    then obtain es' where es': "?R es' (Suc n) m s i" by blast
    then obtain e es where e: "es' = e # es" by (cases es') auto
    obtain k v where kv: "e = (k, v)" by (cases e)
    have es: "?R ((k, v) # es) (Suc n) m s i" using es' unfolding e kv .
    let ?s = "concat (map (\<lambda>(k, v). enc k @ enc v) es) @ r"
    have "f s i = Inr (k, enc v @ ?s, i + nitems k)" "f (enc v @ ?s) (i + nitems k) = Inr (v, ?s, i + nitems k + nitems v)"
      using es reads by auto
    moreover have dm: "distinct (map fst (m @ (k, v) # es))" using es by blast
    have l: "i + nitems k + nitems v \<le> maxItems" using es by simp
    have d: "distinct (map fst (m @ [(k, v)]))" using dm by simp
    have m': "m' = (m @ [(k, v)]) @ es" using es by simp
    have "distinct (map fst m')" using es by blast
    then have "?R es n (m @ [(k, v)]) ?s (i + nitems k + nitems v)" using es m' by simp
    then have "?L n (m @ [(k, v)]) ?s (i + nitems k + nitems v)" using Suc.IH[OF l d] by blast
    moreover have "is_key k" "k \<notin> set (map fst m)" using es dm by simp_all
    ultimately show "?L (Suc n) m s i" by simp
  qed
qed auto

end

lemma nitems_pos: "0 < nitems v"
  by (cases v) auto

lemma length_le_nitems: "length vs \<le> sum_list (map nitems vs)"
proof (induction vs)
  case (Cons v vs)
  then show ?case using nitems_pos[of v] by simp
qed simp

lemma length_le_enc: "length vs \<le> length (concat (map enc vs))"
proof (induction vs)
  case (Cons v vs)
  then show ?case using enc_nonempty[of v] by (cases "enc v") auto
qed simp

lemma length_entries:
  "2 * length m \<le> sum_list (map (\<lambda>(k, v). nitems k + nitems v) m)"
  "2 * length m \<le> length (concat (map (\<lambda>(k, v). enc k @ enc v) m))"
proof (induction m)
  case (Cons e m)
  obtain k v where e: "e = (k, v)" by fastforce
  {
    case 1
    then show ?case using Cons(1) nitems_pos[of k] nitems_pos[of v] e by simp
  next
    case 2
    then show ?case using Cons(2) enc_nonempty[of k] enc_nonempty[of v] e by (cases "enc k"; cases "enc v") auto
  }
qed simp_all

text \<open>What an item without nesting is, and what one is whose contents are read.\<close>

lemma simple_byte:
  assumes "byte c div 32 = majorSimple" "n < 32"
  shows "c = char_of (majorSimple * 32 + n) \<longleftrightarrow> byte c mod 32 = n"
proof -
  have b: "byte c = majorSimple * 32 + byte c mod 32" using div_mult_mod_eq[of "byte c" 32] assms(1) by simp
  have "char_of (majorSimple * 32 + byte c mod 32) = c" unfolding b[symmetric] by simp
  moreover have "byte (char_of (majorSimple * 32 + n)) mod 32 = n" using head_byte[of majorSimple n] assms(2) by (simp add: majors)
  ultimately show ?thesis by auto
qed

lemma item_with_simple:
  assumes "s \<noteq> []" "byte (hd s) div 32 = majorSimple"
  shows "item_with inner s i = Inr (v, r, j) \<longleftrightarrow> (\<exists>b. v = CBool b) \<and> s = enc v @ r \<and> j = i + nitems v \<and> j \<le> maxItems"
proof -
  obtain c t where s: "s = c # t" using assms(1) by (cases s) auto
  have m: "byte c div 32 = majorSimple" using assms(2) s by simp
  have c: "c = char_of (majorSimple * 32 + 20) \<longleftrightarrow> byte c mod 32 = 20" "c = char_of (majorSimple * 32 + 21) \<longleftrightarrow> byte c mod 32 = 21"
    using simple_byte[OF m] by simp_all
  have e: "item_with inner s i =
    (if maxItems < i + 1 then Inl TooManyItems
     else if byte c mod 32 = 20 then Inr (CBool False, t, i + 1)
     else if byte c mod 32 = 21 then Inr (CBool True, t, i + 1) else Inl SimpleRefused)"
    unfolding item_with_def Let_def s by (simp add: m)
  have f: "s = enc (CBool False) @ r \<longleftrightarrow> byte c mod 32 = 20 \<and> t = r" "s = enc (CBool True) @ r \<longleftrightarrow> byte c mod 32 = 21 \<and> t = r"
    unfolding s using c by simp_all
  show ?thesis
  proof (cases "\<exists>b. v = CBool b")
    case True
    then obtain b where v: "v = CBool b" by blast
    show ?thesis by (cases b) (auto simp: e v f[simplified] f simp del: enc.simps)
  qed (auto simp: e)
qed

lemma item_with_head:
  assumes "major \<noteq> majorSimple" "major < 8" "arg < 2 ^ 64"
  shows "item_with inner (enc_head major arg @ t) i = Inr (v, r, j) \<longleftrightarrow>
    i < maxItems \<and>
    (if major = majorUint then arg < 2 ^ 63 \<and> v = CInt (int arg) \<and> r = t \<and> j = i + 1
     else if major = majorNeg then arg < 2 ^ 63 \<and> v = CInt (- 1 - int arg) \<and> r = t \<and> j = i + 1
     else if major = majorBytes then arg \<le> length t \<and> v = CBytes (take arg t) \<and> r = drop arg t \<and> j = i + 1
     else if major = majorText then arg \<le> length t \<and> utf8_valid (take arg t) \<and> v = CText (take arg t) \<and> r = drop arg t \<and> j = i + 1
     else if major = majorArray then
       (\<exists>f vs. inner = Some f \<and> arg \<le> length t \<and> arg \<le> maxItems - (i + 1) \<and> read_array f arg t (i + 1) = Inr (vs, r, j) \<and> v = CArr vs)
     else major = majorMap \<and>
       (\<exists>f m. inner = Some f \<and> arg \<le> length t div 2 \<and> arg \<le> (maxItems - (i + 1)) div 2 \<and> read_map f arg [] t (i + 1) = Inr (m, r, j) \<and> v = CMap m))"
proof -
  have h: "cbor_head (enc_head major arg @ t) = Inr (major, arg, t)" using cbor_head_enc assms by simp
  have d: "byte (hd (enc_head major arg @ t)) div 32 \<noteq> majorSimple" using hd_enc_head[OF assms(2)] assms(1) by simp
  show ?thesis
  proof (cases "i < maxItems")
    case True
    then show ?thesis unfolding item_with_def using h d by (cases inner) (auto simp: majors Let_def not_less)
  qed (simp add: item_with_def)
qed

section \<open>Every level reads one encoding\<close>

text \<open>An item that starts with a head, where the reader of what it holds is the reader of the level below.\<close>

lemma head_item:
  assumes "major \<noteq> majorSimple" "major < 8" "arg < 2 ^ 64"
    and "inner = None \<longrightarrow> k = 0"
    and "\<And>f. inner = Some f \<Longrightarrow> \<exists>k'. k = Suc k' \<and> item_reader f (canonical k')"
  shows "item_with inner (enc_head major arg @ t) i = Inr (v, r, j) \<Longrightarrow>
    canonical k v \<and> enc_head major arg @ t = enc v @ r \<and> j = i + nitems v \<and> j \<le> maxItems"
proof -
  assume a: "item_with inner (enc_head major arg @ t) i = Inr (v, r, j)"
  note b = item_with_head[OF assms(1-3), of inner t i v r j, THEN iffD1, OF a]
  have i: "i + 1 \<le> maxItems" using b by simp
  consider "major = majorUint" | "major = majorNeg" | "major = majorBytes" | "major = majorText" | "major = majorArray" | "major = majorMap"
    using b by metis
  then show ?thesis
  proof cases
    case 5
    then obtain f vs where f: "inner = Some f" "read_array f arg t (i + 1) = Inr (vs, r, j)" "v = CArr vs" using b by (auto simp: majors)
    obtain k' where k: "k = Suc k'" "item_reader f (canonical k')" using assms(5) f(1) by blast
    show ?thesis using item_reader.array_reads[OF k(2) i, THEN iffD1, OF f(2)] 5 f k(1) by auto
  next
    case 6
    then obtain f m where f: "inner = Some f" "read_map f arg [] t (i + 1) = Inr (m, r, j)" "v = CMap m" using b by (auto simp: majors)
    obtain k' where k: "k = Suc k'" "item_reader f (canonical k')" using assms(5) f(1) by blast
    show ?thesis using item_reader.map_reads[OF k(2) i, of "[]" arg t m r j] 6 f k(1) by auto
  qed (use b assms(3) in \<open>auto simp: majors\<close>)
qed

text \<open>What one level reads is what it writes: the converse of the lemma above, over the forms of an item.\<close>

lemma item_written:
  assumes "inner = None \<longrightarrow> k = 0"
    and "\<And>f. inner = Some f \<Longrightarrow> \<exists>k'. k = Suc k' \<and> item_reader f (canonical k')"
    and "k = 0 \<longrightarrow> inner = None"
    and "canonical k v" "i + nitems v \<le> maxItems"
  shows "item_with inner (enc v @ r) i = Inr (v, r, i + nitems v)"
proof (cases v)
  case (CInt n)
  show ?thesis
  proof (cases "0 \<le> n")
    case True
    then show ?thesis using CInt assms(4,5) item_with_head[of majorUint "nat n" inner r i v r "i + 1"] by (simp add: majors)
  next
    case False
    then show ?thesis using CInt assms(4,5) item_with_head[of majorNeg "nat (- 1 - n)" inner r i v r "i + 1"] by (simp add: majors)
  qed
next
  case (CBytes b)
  then show ?thesis using assms(4,5) item_with_head[of majorBytes "length b" inner "b @ r" i v r "i + 1"] by (simp add: majors)
next
  case (CText b)
  then show ?thesis using assms(4,5) item_with_head[of majorText "length b" inner "b @ r" i v r "i + 1"] by (simp add: majors)
next
  case (CBool b)
  have "byte (hd (enc v @ r)) div 32 = majorSimple" using CBool head_byte[of majorSimple 20] head_byte[of majorSimple 21] by (simp add: majors)
  then show ?thesis using CBool assms(5) item_with_simple[of "enc v @ r" inner i v r "i + nitems v"] enc_nonempty[of v] by simp
next
  case (CArr vs)
  then obtain k' f where f: "inner = Some f" "k = Suc k'" "item_reader f (canonical k')" using assms(1-4) by (cases k; cases inner) auto
  let ?t = "concat (map enc vs) @ r" and ?j = "i + nitems v"
  have n: "length vs \<le> ?j - (i + 1)" "length vs \<le> length ?t" using length_le_nitems[of vs] length_le_enc[of vs] CArr by simp_all
  have l: "length vs < 2 ^ 64" "i + 1 \<le> maxItems" using n assms(5) CArr by (simp_all add: maxItems_def)
  have "read_array f (length vs) ?t (i + 1) = Inr (vs, r, ?j)"
    using item_reader.array_reads[OF f(3) l(2), of "length vs" ?t vs r ?j] assms(4,5) CArr f(2) by simp
  then show ?thesis using n l assms(5) CArr f(1) item_with_head[of majorArray "length vs" inner ?t i v r ?j] by (simp add: majors)
next
  case (CMap m)
  then obtain k' f where f: "inner = Some f" "k = Suc k'" "item_reader f (canonical k')" using assms(1-4) by (cases k; cases inner) auto
  let ?t = "concat (map (\<lambda>(k, v). enc k @ enc v) m) @ r" and ?j = "i + nitems v"
  have n: "2 * length m \<le> ?j - (i + 1)" "2 * length m \<le> length ?t" using length_entries[of m] CMap by simp_all
  have l: "length m < 2 ^ 64" "i + 1 \<le> maxItems" using n assms(5) CMap by (simp_all add: maxItems_def)
  have h: "length m \<le> length ?t div 2" "length m \<le> (maxItems - (i + 1)) div 2" using n assms(5) by linarith+
  have "read_map f (length m) [] ?t (i + 1) = Inr (m, r, ?j)"
    using item_reader.map_reads[OF f(3) l(2), of "[]" "length m" ?t m r ?j] assms(4,5) CMap f(2) by simp
  then show ?thesis using h l assms(5) CMap f(1) item_with_head[of majorMap "length m" inner ?t i v r ?j] by (simp add: majors)
qed

lemma item_reads:
  assumes "inner = None \<longleftrightarrow> k = 0"
    and "\<And>f. inner = Some f \<Longrightarrow> \<exists>k'. k = Suc k' \<and> item_reader f (canonical k')"
  shows "item_with inner s i = Inr (v, r, j) \<longleftrightarrow> canonical k v \<and> s = enc v @ r \<and> j = i + nitems v \<and> j \<le> maxItems"
proof
  assume a: "item_with inner s i = Inr (v, r, j)"
  then have s: "s \<noteq> []" by (auto simp: item_with_def)
  show "canonical k v \<and> s = enc v @ r \<and> j = i + nitems v \<and> j \<le> maxItems"
  proof (cases "byte (hd s) div 32 = majorSimple")
    case True
    then show ?thesis using item_with_simple[OF s True, of inner i v r j] a by auto
  next
    case False
    then obtain major arg t where h: "cbor_head s = Inr (major, arg, t)"
      using a s by (cases "cbor_head s") (auto simp: item_with_def Let_def split: if_splits)
    have e: "s = enc_head major arg @ t" "major < 8" "arg < 2 ^ 64" "major = byte (hd s) div 32" using enc_cbor_head[OF h s] by blast+
    have m: "major \<noteq> majorSimple" using False unfolding e(4) .
    have "item_with inner (enc_head major arg @ t) i = Inr (v, r, j)" using a unfolding e(1) .
    then have "canonical k v \<and> enc_head major arg @ t = enc v @ r \<and> j = i + nitems v \<and> j \<le> maxItems"
      using head_item[OF m e(2,3) _ assms(2)] assms(1) by blast
    then show ?thesis unfolding e(1) by blast
  qed
next
  assume a: "canonical k v \<and> s = enc v @ r \<and> j = i + nitems v \<and> j \<le> maxItems"
  have "item_with inner (enc v @ r) i = Inr (v, r, i + nitems v)"
    by (rule item_written[OF _ assms(2)]) (use a assms(1) in auto)
  then show "item_with inner s i = Inr (v, r, j)" using a by simp
qed

lemma level_reads: "item_reader (item_at k) (canonical k)"
proof (induction k)
  case 0
  have "item_with None s i = Inr (v, r, j) \<longleftrightarrow> canonical 0 v \<and> s = enc v @ r \<and> j = i + nitems v \<and> j \<le> maxItems"
    for s i v r j by (rule item_reads) auto
  then show ?case by unfold_locales simp
next
  case (Suc k)
  have "item_with (Some (item_at k)) s i = Inr (v, r, j) \<longleftrightarrow> canonical (Suc k) v \<and> s = enc v @ r \<and> j = i + nitems v \<and> j \<le> maxItems"
    for s i v r j by (rule item_reads) (use Suc in auto)
  then show ?case by unfold_locales simp
qed

interpretation cbor_item: item_reader "item_at k" "canonical k" for k
  by (rule level_reads)

text \<open>
  C20: The decoder of the passkey ceremony accepts exactly one spelling of a value: \<open>decodeCBOR\<close> returns a value on an input iff
  the input is the canonical encoding of that value, of 16 KiB at most, and the value nests at most five deep, holds 256 items at
  most, has integers of 64 signed bits, valid UTF-8 and maps whose keys are integers or texts, each once. So no two inputs
  decode to one value, no longer head and no repeated key passes, and everything within the limits that is written that way is read.
\<close>

theorem one_encoding_is_read:
  "decodeCBOR b = Inr v \<longleftrightarrow> length b \<le> maxInput \<and> canonical maxDepth v \<and> nitems v \<le> maxItems \<and> b = enc v"
proof -
  have "item_at maxDepth b 0 = Inr (v, [], j) \<longleftrightarrow> canonical maxDepth v \<and> b = enc v \<and> j = nitems v \<and> j \<le> maxItems" for j
    using cbor_item.reads[of maxDepth b 0 v "[]" j] by simp
  moreover have "decodeCBOR b = Inr v \<longleftrightarrow> length b \<le> maxInput \<and> (\<exists>j. item_at maxDepth b 0 = Inr (v, [], j))"
  proof (cases "item_at maxDepth b 0")
    case (Inr p)
    obtain w r j where p: "p = (w, r, j)" by (cases p)
    have "b = enc w @ r" using cbor_item.reads[of maxDepth b 0 w r j] Inr p by simp
    then have "length b - length r = length b \<longleftrightarrow> r = []" using enc_nonempty[of w] by (cases "enc w") auto
    then show ?thesis using Inr p by (auto simp: decodeCBOR_def decodeCBORPrefix_def)
  qed (simp add: decodeCBOR_def decodeCBORPrefix_def)
  ultimately show ?thesis by auto
qed

end
