(* ===== verification/Admission.thy ===== *)
theory Admission
  imports Vocabulary
begin

text \<open>
  What a queued run waits on: \<open>controller/admit.go\<close>, over the tables it reads and writes through \<open>db/runs.go\<close> (\<open>SetGroup\<close>, \<open>Holding\<close>,
  \<open>NextInLine\<close>, \<open>Slots\<close>, \<open>SaveDecision\<close>, \<open>Published\<close>), behind the fence of \<open>db/controller.go\<close> and \<open>controller/elect.go\<close>. A table is the list
  of its rows, a row holds the columns these operations use, and a transaction is a function of the tables that fails or
  answers with the tables it leaves. Of a decision, the row of the run is written here; its steps, tasks and envelopes are not.
\<close>

record run_row =
  rr_ns :: string
  rr_id :: string
  rr_group :: "string option"
  rr_state :: run_state
  rr_created :: int
  rr_seq :: nat
  rr_doc :: bool

record task_row =
  tr_ns :: string
  tr_key :: string
  tr_state :: task_state
  tr_published :: bool

record tables =
  tb_token :: nat
  tb_runs :: "run_row list"
  tb_tasks :: "task_row list"
  tb_ceilings :: "(string \<times> int) list"

datatype db_error =
    ErrFenced
  | NoCeiling string
  | DecisionWithNoNamespace
  | NotADecision nat nat
  | ErrStale

section \<open>The term\<close>

definition BeginTerm :: "tables \<Rightarrow> nat \<times> tables" where
  "BeginTerm tb = (tb_token tb + 1, tb\<lparr>tb_token := tb_token tb + 1\<rparr>)"

definition Fence :: "nat \<Rightarrow> tables \<Rightarrow> (db_error, unit) result" where
  "Fence token tb = (if tb_token tb \<noteq> token then Inl ErrFenced else Inr ())"

definition Fenced :: "nat \<Rightarrow> (tables \<Rightarrow> (db_error, 'a) result) \<Rightarrow> tables \<Rightarrow> (db_error, 'a) result" where
  "Fenced token f tb = rbind (Fence token tb) (\<lambda>_. f tb)"

section \<open>Groups\<close>

definition nilIfEmpty :: "string \<Rightarrow> string option" where
  "nilIfEmpty s = (if s = '''' then None else Some s)"

text \<open>The run states the queries list: started, and holding the group.\<close>

definition run_started :: "run_state \<Rightarrow> bool" where
  "run_started s \<longleftrightarrow> s \<in> {Running, Waiting}"

definition first_id :: "run_row list \<Rightarrow> string option" where
  "first_id rs = (case rs of [] \<Rightarrow> None | r # _ \<Rightarrow> Some (rr_id r))"

definition Holding :: "string \<Rightarrow> string \<Rightarrow> run_row list \<Rightarrow> string" where
  "Holding namespace grp rs =
     (if grp = '''' then ''''
      else case first_id (sort_key rr_created
               (filter (\<lambda>r. rr_ns r = namespace \<and> rr_group r = Some grp \<and> run_started (rr_state r)) rs)) of
             None \<Rightarrow> '''' | Some i \<Rightarrow> i)"

text \<open>\<open>order by created_at, id\<close>: sorted by the second column, and then by the first.\<close>

definition NextInLine :: "string \<Rightarrow> string \<Rightarrow> string \<Rightarrow> run_row list \<Rightarrow> bool" where
  "NextInLine namespace grp run rs =
     (if grp = '''' then True
      else case first_id (sort_key rr_created (sort_key rr_id
               (filter (\<lambda>r. rr_ns r = namespace \<and> rr_group r = Some grp \<and> rr_state r = Queued) rs))) of
             None \<Rightarrow> True | Some i \<Rightarrow> i = run)"

definition SetGroup :: "string \<Rightarrow> string \<Rightarrow> string \<Rightarrow> tables \<Rightarrow> tables" where
  "SetGroup namespace run grp tb =
     tb\<lparr>tb_runs := map (\<lambda>r. if rr_ns r = namespace \<and> rr_id r = run then r\<lparr>rr_group := nilIfEmpty grp\<rparr> else r) (tb_runs tb)\<rparr>"

section \<open>Quotas\<close>

definition occupies :: "string \<Rightarrow> string list \<Rightarrow> task_row \<Rightarrow> bool" where
  "occupies namespace ending t \<longleftrightarrow>
     tr_ns t = namespace \<and> tr_state t \<in> {TaskPending, TaskDispatched, TaskRunning, TaskPublishing} \<and>
     tr_published t \<and> tr_key t \<notin> set ending"

definition Slots :: "string \<Rightarrow> string list \<Rightarrow> tables \<Rightarrow> (db_error, int) result" where
  "Slots namespace ending tb =
     (case map_of (tb_ceilings tb) namespace of
        None \<Rightarrow> Inl (NoCeiling namespace)
      | Some ceiling \<Rightarrow>
          let held = int (length (filter (occupies namespace ending) (tb_tasks tb))) in
          Inr (if ceiling \<le> held then 0 else ceiling - held))"

definition withinTheQuota :: "nat \<Rightarrow> string \<Rightarrow> string list \<Rightarrow> string list \<Rightarrow> tables \<Rightarrow> (db_error, string list) result" where
  "withinTheQuota token namespace start stopped tb =
     (if start = [] then Inr start
      else rbind (Fenced token (Slots namespace stopped) tb) (\<lambda>free.
        if int (length start) \<le> free then Inr start else Inr (take (nat free) start)))"

definition Published :: "string \<Rightarrow> string list \<Rightarrow> tables \<Rightarrow> tables" where
  "Published namespace keys tb =
     tb\<lparr>tb_tasks := map (\<lambda>t. if tr_ns t = namespace \<and> tr_key t \<in> set keys \<and> \<not> tr_published t then t\<lparr>tr_published := True\<rparr> else t) (tb_tasks tb)\<rparr>"

section \<open>Admission and decisions\<close>

record concurrency =
  cc_Group :: string
  cc_CancelInProgress :: bool

text \<open>
  What \<open>admitted\<close> answers: whether the run may start, the run to cancel before it may (empty where none is), and the tables
  as its transaction leaves them. \<open>e\<close> is the run as the pass read it.
\<close>

definition admitted :: "concurrency \<Rightarrow> nat \<Rightarrow> run_row \<Rightarrow> tables \<Rightarrow> (db_error, bool \<times> string \<times> tables) result" where
  "admitted conc token e tb0 =
     (if rr_doc e then Inr (True, '''', tb0)
      else Fenced token (\<lambda>tb0.
        let tb = SetGroup (rr_ns e) (rr_id e) (cc_Group conc) tb0;
            holder = Holding (rr_ns e) (cc_Group conc) (tb_runs tb);
            admit = (if cc_Group conc = '''' then True
                     else if holder = '''' then NextInLine (rr_ns e) (cc_Group conc) (rr_id e) (tb_runs tb)
                     else holder = rr_id e);
            cancel = (if cc_Group conc \<noteq> '''' \<and> holder \<noteq> '''' \<and> holder \<noteq> rr_id e \<and> cc_CancelInProgress conc then holder else '''')
        in if \<not> admit then Inr (False, cancel, tb)
           else rbind (Slots (rr_ns e) [] tb) (\<lambda>free. Inr (0 < free, '''', tb))) tb0)"

record decision =
  dc_ns :: string
  dc_run :: string
  dc_was :: nat
  dc_seq :: nat
  dc_state :: run_state

definition SaveDecision :: "decision \<Rightarrow> tables \<Rightarrow> (db_error, tables) result" where
  "SaveDecision d tb =
     (let hit = (\<lambda>r. rr_ns r = dc_ns d \<and> rr_id r = dc_run d \<and> rr_seq r = dc_was d) in
      if dc_ns d = '''' then Inl DecisionWithNoNamespace
      else if dc_seq d \<le> dc_was d then Inl (NotADecision (dc_was d) (dc_seq d))
      else if \<not> list_ex hit (tb_runs tb) then Inl ErrStale
      else Inr (tb\<lparr>tb_runs := map (\<lambda>r. if hit r then r\<lparr>rr_doc := True, rr_seq := dc_seq d, rr_state := dc_state d\<rparr> else r) (tb_runs tb)\<rparr>))"

section \<open>What a group lets in\<close>

lemma first_id_None: "first_id rs = None \<longleftrightarrow> rs = []"
  by (auto simp: first_id_def split: list.splits)

lemma first_id_mem: "first_id rs = Some i \<Longrightarrow> \<exists>r \<in> set rs. rr_id r = i"
  by (auto simp: first_id_def split: list.splits)

lemma sort_key_Nil_iff: "sort_key f xs = [] \<longleftrightarrow> xs = []"
  by (metis length_0_conv length_sort)

text \<open>No run holds a group whose holder has no name, since a run's identifier is never empty.\<close>

lemma Holding_none:
  assumes "Holding namespace grp rs = ''''" "grp \<noteq> ''''" "\<forall>r \<in> set rs. rr_id r \<noteq> ''''" "r \<in> set rs"
    "rr_ns r = namespace" "rr_group r = Some grp"
  shows "\<not> run_started (rr_state r)"
proof
  assume s: "run_started (rr_state r)"
  let ?q = "filter (\<lambda>r. rr_ns r = namespace \<and> rr_group r = Some grp \<and> run_started (rr_state r)) rs"
  have "r \<in> set ?q" using assms s by simp
  then obtain i where i: "first_id (sort_key rr_created ?q) = Some i"
    using first_id_None[of "sort_key rr_created ?q"] sort_key_Nil_iff[of rr_created ?q] list.set_cases
    by (cases "first_id (sort_key rr_created ?q)") force+
  then have "i = ''''" using assms(1,2) by (simp add: Holding_def)
  moreover obtain q where "q \<in> set rs" "rr_id q = i" using first_id_mem[OF i] by auto
  ultimately show False using assms(3) by auto
qed

lemma Holding_some:
  assumes "Holding namespace grp rs = i" "i \<noteq> ''''"
  shows "\<exists>r \<in> set rs. rr_id r = i \<and> rr_ns r = namespace \<and> rr_group r = Some grp \<and> run_started (rr_state r)"
proof -
  let ?q = "filter (\<lambda>r. rr_ns r = namespace \<and> rr_group r = Some grp \<and> run_started (rr_state r)) rs"
  have "first_id (sort_key rr_created ?q) = Some i" using assms by (auto simp: Holding_def split: if_splits option.splits)
  from first_id_mem[OF this] show ?thesis by auto
qed

lemma hd_sort_least: "sort_key f xs = x # ys \<Longrightarrow> y \<in> set xs \<Longrightarrow> f x \<le> f y"
  using sorted_sort_key[of f xs] set_sort[of f xs] by auto

lemma sort_key_stable_hd:
  assumes "sort_key f xs = x # ys"
  shows "\<exists>zs. filter (\<lambda>y. f y = f x) xs = x # zs"
proof -
  have "filter (\<lambda>y. f y = f x) xs = x # filter (\<lambda>y. f y = f x) ys"
    using sort_key_stable[of f "f x" xs] unfolding assms by simp
  then show ?thesis by blast
qed

text \<open>The first in line is created no later than any other, and of those created at one moment has the least identifier.\<close>

lemma NextInLine_oldest:
  assumes "NextInLine namespace grp i rs" "grp \<noteq> ''''" "r \<in> set rs" "rr_ns r = namespace" "rr_group r = Some grp" "rr_state r = Queued"
  shows "\<exists>q \<in> set rs. rr_id q = i \<and> rr_ns q = namespace \<and> rr_group q = Some grp \<and> rr_state q = Queued \<and>
    (rr_created q < rr_created r \<or> rr_created q = rr_created r \<and> rr_id q \<le> rr_id r)"
proof -
  let ?w = "filter (\<lambda>r. rr_ns r = namespace \<and> rr_group r = Some grp \<and> rr_state r = Queued) rs"
  have r: "r \<in> set ?w" using assms by simp
  then obtain q qs where q: "sort_key rr_created (sort_key rr_id ?w) = q # qs"
    using sort_key_Nil_iff[of rr_created "sort_key rr_id ?w"] sort_key_Nil_iff[of rr_id ?w] list.set_cases[OF r]
    by (cases "sort_key rr_created (sort_key rr_id ?w)") force+
  have i: "rr_id q = i" using assms(1,2) by (simp add: NextInLine_def q first_id_def)
  have "set (q # qs) = set ?w" unfolding q[symmetric] by simp
  then have m: "q \<in> set ?w" by auto
  have c: "rr_created q \<le> rr_created r" using hd_sort_least[OF q, of r] r by simp
  have "rr_id q \<le> rr_id r" if e: "rr_created q = rr_created r"
  proof -
    obtain zs where z: "filter (\<lambda>y. rr_created y = rr_created q) (sort_key rr_id ?w) = q # zs" using sort_key_stable_hd[OF q] by blast
    have s: "sorted (map rr_id (filter (\<lambda>y. rr_created y = rr_created q) (sort_key rr_id ?w)))"
      by (rule sorted_filter[OF sorted_sort_key])
    have "r \<in> set (filter (\<lambda>y. rr_created y = rr_created q) (sort_key rr_id ?w))" using r e by simp
    then have "r \<in> set (q # zs)" unfolding z .
    then show ?thesis using s unfolding z by auto
  qed
  then show ?thesis using m i c by force
qed

section \<open>What a quota lets out\<close>

text \<open>The tasks that count against a namespace, those a pass is ending left out.\<close>

definition held_by :: "string \<Rightarrow> string list \<Rightarrow> tables \<Rightarrow> nat" where
  "held_by namespace ending tb = length (filter (occupies namespace ending) (tb_tasks tb))"

text \<open>The index of the tasks: every dispatch of a key but one was lost.\<close>

definition one_dispatch :: "tables \<Rightarrow> bool" where
  "one_dispatch tb \<longleftrightarrow> distinct (map (\<lambda>t. (tr_ns t, tr_key t)) (filter (\<lambda>t. tr_state t \<noteq> TaskLost) (tb_tasks tb)))"

lemma count_keys:
  assumes "distinct (map (\<lambda>t. (tr_ns t, tr_key t)) (filter (\<lambda>t. tr_state t \<noteq> TaskLost) ts))"
    "\<And>t. P t \<Longrightarrow> tr_state t \<noteq> TaskLost \<and> tr_ns t = namespace \<and> tr_key t \<in> set keys"
  shows "length (filter P ts) \<le> length keys"
proof -
  let ?f = "\<lambda>t. (tr_ns t, tr_key t)" and ?q = "filter (\<lambda>t. tr_state t \<noteq> TaskLost) ts"
  have "filter P ?q = filter P ts" using assms(2) by (auto intro: filter_cong)
  then have d: "distinct (map ?f (filter P ts))" using distinct_map_filter[OF assms(1), of P] by simp
  have "set (map ?f (filter P ts)) \<subseteq> (\<lambda>k. (namespace, k)) ` set keys" using assms(2) by auto
  then have "card (set (map ?f (filter P ts))) \<le> card ((\<lambda>k. (namespace, k)) ` set keys)" by (intro card_mono) auto
  also have "\<dots> \<le> card (set keys)" by (rule card_image_le) simp
  also have "\<dots> \<le> length keys" by (rule card_length)
  finally show ?thesis using distinct_card[OF d] by simp
qed

lemma filter_disj_length: "length (filter (\<lambda>x. P x \<or> Q x) xs) \<le> length (filter P xs) + length (filter Q xs)"
  by (induction xs) auto

text \<open>
  A pass hands out no more than the quota leaves: whatever a namespace holds when \<open>withinTheQuota\<close> looks, publishing the tasks
  it lets through leaves the namespace holding its \<open>max_concurrent_tasks\<close> at most, or what it held before where that was more
  already, counted as \<open>Slots\<close> counts them: the lost, the ended and those the pass is stopping left out.
\<close>

theorem a_pass_keeps_to_the_quota:
  assumes "withinTheQuota token namespace start stopped tb = Inr ts" "one_dispatch tb" "map_of (tb_ceilings tb) namespace = Some ceiling"
  shows "int (held_by namespace stopped (Published namespace ts tb)) \<le> max ceiling (int (held_by namespace stopped tb))"
proof -
  let ?h = "held_by namespace stopped tb"
  let ?new = "\<lambda>t. tr_ns t = namespace \<and> tr_state t \<in> {TaskPending, TaskDispatched, TaskRunning, TaskPublishing} \<and> \<not> tr_published t \<and>
    tr_key t \<notin> set stopped \<and> tr_key t \<in> set ts"
  have "int (length ts) \<le> max 0 (ceiling - int ?h)"
  proof (cases "start = []")
    case False
    then obtain free where "Slots namespace stopped tb = Inr free" "length ts \<le> nat free"
      using assms(1) by (auto simp: withinTheQuota_def Fenced_def split: if_splits)
    then show ?thesis using assms(3) by (auto simp: Slots_def Let_def held_by_def split: if_splits)
  qed (use assms(1) in \<open>simp add: withinTheQuota_def\<close>)
  moreover have "held_by namespace stopped (Published namespace ts tb) = length (filter (\<lambda>t. occupies namespace stopped t \<or> ?new t) (tb_tasks tb))"
    unfolding held_by_def Published_def by (simp add: filter_map comp_def) (rule arg_cong[where f = length], rule filter_cong, auto simp: occupies_def)
  moreover have "\<dots> \<le> ?h + length (filter ?new (tb_tasks tb))" unfolding held_by_def by (rule filter_disj_length)
  moreover have "length (filter ?new (tb_tasks tb)) \<le> length ts"
    using assms(2) unfolding one_dispatch_def by (rule count_keys[where namespace = namespace]) auto
  ultimately show ?thesis by linarith
qed

definition one_slot :: tables where
  "one_slot = \<lparr>tb_token = 1, tb_runs = [],
     tb_tasks = [\<lparr>tr_ns = ''lab'', tr_key = ''a'', tr_state = TaskPending, tr_published = False\<rparr>,
       \<lparr>tr_ns = ''lab'', tr_key = ''b'', tr_state = TaskPending, tr_published = False\<rparr>],
     tb_ceilings = [(''lab'', 1)]\<rparr>"

theorem a_pass_keeps_to_the_quota_witness:
  "int (held_by ''lab'' [] (Published ''lab'' [''a''] one_slot)) \<le> max 1 (int (held_by ''lab'' [] one_slot)) \<and>
   withinTheQuota 1 ''lab'' [''a'', ''b''] [] one_slot = Inr [''a'']"
proof
  have q: "withinTheQuota 1 ''lab'' [''a'', ''b''] [] one_slot = Inr [''a'']" by code_simp
  have d: "one_dispatch one_slot" "map_of (tb_ceilings one_slot) ''lab'' = Some 1" by code_simp+
  show "int (held_by ''lab'' [] (Published ''lab'' [''a''] one_slot)) \<le> max 1 (int (held_by ''lab'' [] one_slot))"
    by (rule a_pass_keeps_to_the_quota[OF q d])
  show "withinTheQuota 1 ''lab'' [''a'', ''b''] [] one_slot = Inr [''a'']" by (rule q)
qed

lemma let_through:
  assumes "withinTheQuota token namespace start stopped tb = Inr ts" "map_of (tb_ceilings tb) namespace = Some ceiling"
  shows "ts = take (nat (ceiling - int (held_by namespace stopped tb))) start"
  using assms by (auto simp: withinTheQuota_def Fenced_def Slots_def Let_def held_by_def split: if_splits)

text \<open>A task a decision has written and no pass has sent.\<close>

definition unsent :: "string \<Rightarrow> string \<Rightarrow> task_row \<Rightarrow> bool" where
  "unsent namespace key t \<longleftrightarrow> tr_ns t = namespace \<and> tr_key t = key \<and> tr_state t = TaskPending \<and> \<not> tr_published t"

lemma Published_twice: "Published namespace ks' (Published namespace ks tb) = Published namespace (ks @ ks') tb"
  by (auto simp: Published_def)

lemma filter_disj_disjoint: "(\<And>x. P x \<Longrightarrow> \<not> Q x) \<Longrightarrow> length (filter (\<lambda>x. P x \<or> Q x) xs) = length (filter P xs) + length (filter Q xs)"
  by (induction xs) auto

lemma Published_counts:
  assumes "one_dispatch tb" "distinct ks" "\<forall>k \<in> set ks. \<exists>t \<in> set (tb_tasks tb). unsent namespace k t"
  shows "held_by namespace [] (Published namespace ks tb) = held_by namespace [] tb + length ks"
proof -
  let ?new = "\<lambda>t. tr_ns t = namespace \<and> tr_state t \<in> {TaskPending, TaskDispatched, TaskRunning, TaskPublishing} \<and> \<not> tr_published t \<and>
    tr_key t \<in> set ks"
  let ?q = "filter ?new (tb_tasks tb)"
  have "held_by namespace [] (Published namespace ks tb) = length (filter (\<lambda>t. occupies namespace [] t \<or> ?new t) (tb_tasks tb))"
    unfolding held_by_def Published_def by (simp add: filter_map comp_def) (rule arg_cong[where f = length], rule filter_cong, auto simp: occupies_def)
  also have "\<dots> = held_by namespace [] tb + length ?q" unfolding held_by_def by (rule filter_disj_disjoint) (simp add: occupies_def)
  also have "length ?q = length ks"
  proof (rule antisym)
    show "length ?q \<le> length ks" using assms(1) unfolding one_dispatch_def by (rule count_keys[where namespace = namespace]) auto
    have "set ks \<subseteq> set (map tr_key ?q)" using assms(3) by (fastforce simp: unsent_def)
    then have "card (set ks) \<le> card (set (map tr_key ?q))" by (intro card_mono) auto
    then show "length ks \<le> length ?q" using distinct_card[OF assms(2)] card_length[of "map tr_key ?q"] by simp
  qed
  finally show ?thesis .
qed

text \<open>
  C39: What two passes hand out together: \<open>Watch\<close> and \<open>Answers\<close> decide runs at the same time, each reads the slots in one transaction
  and records what it published in another. Where both read before either has recorded, each is let through all that is free, so
  the namespace ends up holding what it held and twice what one pass may add: where each has as many tasks to start as slots were
  free, its \<open>max_concurrent_tasks\<close> is passed by just that many, under one term and with every write fenced. Where the second
  reads after the first has recorded, the quota is kept.
\<close>

theorem two_passes_pass_the_quota:
  assumes "withinTheQuota token namespace start1 [] tb1 = Inr ts1" "withinTheQuota token namespace start2 [] tb2 = Inr ts2"
    and "map_of (tb_ceilings tb1) namespace = Some ceiling" "map_of (tb_ceilings tb2) namespace = Some ceiling"
    and "one_dispatch tb" "distinct (start1 @ start2)" "\<forall>k \<in> set (start1 @ start2). \<exists>t \<in> set (tb_tasks tb). unsent namespace k t"
    and "held_by namespace [] tb1 = held_by namespace [] tb" "int (held_by namespace [] tb) + free = ceiling" "0 \<le> free"
    and "after = int (held_by namespace [] (Published namespace ts2 (Published namespace ts1 tb)))"
  shows "(held_by namespace [] tb2 = held_by namespace [] tb \<longrightarrow>
      after = int (held_by namespace [] tb) + min free (int (length start1)) + min free (int (length start2)) \<and>
      (free \<le> int (length start1) \<and> free \<le> int (length start2) \<longrightarrow> after = ceiling + free)) \<and>
    (held_by namespace [] tb2 = held_by namespace [] (Published namespace ts1 tb) \<longrightarrow> after \<le> ceiling)"
proof -
  have t: "ts1 = take (nat (ceiling - int (held_by namespace [] tb1))) start1" "ts2 = take (nat (ceiling - int (held_by namespace [] tb2))) start2"
    using let_through assms(1-4) by blast+
  have sub: "set ts1 \<subseteq> set start1" "set ts2 \<subseteq> set start2" by (simp_all add: t set_take_subset)
  then have d: "distinct (ts1 @ ts2)" using assms(6) by (auto simp: t distinct_take)
  have u: "\<forall>k \<in> set (ts1 @ ts2). \<exists>t \<in> set (tb_tasks tb). unsent namespace k t" using assms(7) sub by auto
  have "held_by namespace [] (Published namespace (ts1 @ ts2) tb) = held_by namespace [] tb + length (ts1 @ ts2)"
    using Published_counts[OF assms(5) d u] .
  then have after: "after = int (held_by namespace [] tb) + int (length ts1) + int (length ts2)" by (simp add: assms(11) Published_twice)
  have one: "held_by namespace [] (Published namespace ts1 tb) = held_by namespace [] tb + length ts1"
    using Published_counts[OF assms(5), of ts1] d u by simp
  have l1: "int (length ts1) = min free (int (length start1))" 
  proof -
    have "ceiling - int (held_by namespace [] tb1) = free" using assms(8,9) by simp
    then show ?thesis using assms(10) by (simp add: t(1) of_nat_min min.commute)
  qed
  have l2: "int (length ts2) = min (max 0 (ceiling - int (held_by namespace [] tb2))) (int (length start2))"
    by (simp add: t(2) of_nat_min min.commute max.commute)
  show ?thesis using after one l1 l2 assms(9,10) by (auto simp: min_def max_def split: if_splits)
qed

theorem two_passes_pass_the_quota_witness:
  "int (held_by ''lab'' [] (Published ''lab'' [''b''] (Published ''lab'' [''a''] one_slot))) = 2 \<and> map_of (tb_ceilings one_slot) ''lab'' = Some 1"
proof -
  have q: "withinTheQuota 1 ''lab'' [''a''] [] one_slot = Inr [''a'']" "withinTheQuota 1 ''lab'' [''b''] [] one_slot = Inr [''b'']"
    "map_of (tb_ceilings one_slot) ''lab'' = Some 1" "map_of (tb_ceilings one_slot) ''lab'' = Some 1" "one_dispatch one_slot"
    by code_simp+
  have "distinct ([''a''] @ [''b''])" by simp
  moreover have "\<forall>k \<in> set ([''a''] @ [''b'']). \<exists>t \<in> set (tb_tasks one_slot). unsent ''lab'' k t" by code_simp
  moreover have "int (held_by ''lab'' [] one_slot) + 1 = 1" by code_simp
  ultimately show ?thesis using two_passes_pass_the_quota[OF q, of 1 "int (held_by ''lab'' [] (Published ''lab'' [''b''] (Published ''lab'' [''a''] one_slot)))"] q(3) by simp
qed

end
