(* ===== verification/Leading.thy ===== *)
theory Leading
  imports Admission
begin

text \<open>
  The controllers of one installation as a machine over the tables of \<open>Admission\<close>. Each term has two loops that decide runs, \<open>Watch\<close>
  and \<open>Answers\<close>, and a loop reads a run, asks \<open>admitted\<close> and writes a decision in transactions of their own, so that the loops of
  a term, and those of a former holder that has not noticed, take their steps in any order. Runs are created by the API, and the
  answers loop only takes up runs something has decided, as \<open>Answer\<close> does.
\<close>

datatype phase =
    Away
  | Seen run_row
  | LetIn run_row

record cluster =
  cl_db :: tables
  cl_watch :: "nat \<Rightarrow> phase"
  cl_answers :: "nat \<Rightarrow> phase"

text \<open>The row as the decision leaves it, which the pass goes on with.\<close>

definition decided :: "decision \<Rightarrow> run_row \<Rightarrow> run_row" where
  "decided d r = r\<lparr>rr_doc := True, rr_seq := dc_seq d, rr_state := dc_state d\<rparr>"

definition decision_for :: "run_row \<Rightarrow> decision \<Rightarrow> bool" where
  "decision_for e d \<longleftrightarrow> dc_ns d = rr_ns e \<and> dc_run d = rr_id e \<and> dc_was d = rr_seq e \<and>
     (if run_Terminal (rr_state e) then dc_state d = rr_state e else dc_state d \<noteq> Queued)"

text \<open>
  What a loop in a phase may write: a run it let in, a run read with a document, or the end of a run called off.
\<close>

definition may_decide :: "phase \<Rightarrow> run_row \<Rightarrow> decision \<Rightarrow> bool" where
  "may_decide p e d \<longleftrightarrow> decision_for e d \<and> (p = LetIn e \<or> p = Seen e \<and> (rr_doc e \<or> dc_state d = Cancelled))"

type_synonym concurrencies = "string \<Rightarrow> string \<Rightarrow> concurrency"

inductive turn :: "concurrencies \<Rightarrow> cluster \<Rightarrow> cluster \<Rightarrow> bool" for conc where
  Created: "\<forall>r \<in> set (tb_runs (cl_db s)). rr_id r \<noteq> rr_id n \<Longrightarrow> rr_id n \<noteq> '''' \<Longrightarrow>
     rr_state n = Queued \<Longrightarrow> rr_group n = None \<Longrightarrow> rr_seq n = 0 \<Longrightarrow> \<not> rr_doc n \<Longrightarrow>
     turn conc s (s\<lparr>cl_db := (cl_db s)\<lparr>tb_runs := tb_runs (cl_db s) @ [n]\<rparr>\<rparr>)"
| Elected: "turn conc s (s\<lparr>cl_db := snd (BeginTerm (cl_db s))\<rparr>)"
| Elsewhere: "turn conc s (s\<lparr>cl_db := (cl_db s)\<lparr>tb_tasks := ts, tb_ceilings := cs\<rparr>\<rparr>)"
| WatchReads: "Fence t (cl_db s) = Inr () \<Longrightarrow> r \<in> set (tb_runs (cl_db s)) \<Longrightarrow> \<not> run_Terminal (rr_state r) \<Longrightarrow>
     turn conc s (s\<lparr>cl_watch := (cl_watch s)(t := Seen r)\<rparr>)"
| AnswersRead: "Fence t (cl_db s) = Inr () \<Longrightarrow> r \<in> set (tb_runs (cl_db s)) \<Longrightarrow> \<not> run_Terminal (rr_state r) \<Longrightarrow> rr_doc r \<Longrightarrow>
     turn conc s (s\<lparr>cl_answers := (cl_answers s)(t := Seen r)\<rparr>)"
| WatchAdmits: "cl_watch s t = Seen e \<Longrightarrow> admitted (conc (rr_ns e) (rr_id e)) t e (cl_db s) = Inr (ok, cancel, tb) \<Longrightarrow>
     turn conc s (s\<lparr>cl_db := tb, cl_watch := (cl_watch s)(t := if ok then LetIn e else Away)\<rparr>)"
| AnswersAdmit: "cl_answers s t = Seen e \<Longrightarrow> admitted (conc (rr_ns e) (rr_id e)) t e (cl_db s) = Inr (ok, cancel, tb) \<Longrightarrow>
     turn conc s (s\<lparr>cl_db := tb, cl_answers := (cl_answers s)(t := if ok then LetIn e else Away)\<rparr>)"
| WatchDecides: "may_decide (cl_watch s t) e d \<Longrightarrow> Fenced t (SaveDecision d) (cl_db s) = Inr tb \<Longrightarrow>
     turn conc s (s\<lparr>cl_db := tb, cl_watch := (cl_watch s)(t := LetIn (decided d e))\<rparr>)"
| AnswersDecide: "may_decide (cl_answers s t) e d \<Longrightarrow> Fenced t (SaveDecision d) (cl_db s) = Inr tb \<Longrightarrow>
     turn conc s (s\<lparr>cl_db := tb, cl_answers := (cl_answers s)(t := LetIn (decided d e))\<rparr>)"
| WatchLeaves: "turn conc s (s\<lparr>cl_watch := (cl_watch s)(t := Away)\<rparr>)"
| AnswersLeave: "turn conc s (s\<lparr>cl_answers := (cl_answers s)(t := Away)\<rparr>)"

definition installed :: "cluster \<Rightarrow> bool" where
  "installed s \<longleftrightarrow> tb_runs (cl_db s) = [] \<and> (\<forall>t. cl_watch s t = Away \<and> cl_answers s t = Away)"

section \<open>The invariant\<close>

text \<open>The run a loop is on, where it is on one.\<close>

definition on_run :: "phase \<Rightarrow> run_row option" where
  "on_run p = (case p of Away \<Rightarrow> None | Seen e \<Rightarrow> Some e | LetIn e \<Rightarrow> Some e)"

lemma on_run_simps [simp]: "on_run Away = None" "on_run (Seen e) = Some e" "on_run (LetIn e) = Some e"
  by (simp_all add: on_run_def)

definition group_of :: "concurrencies \<Rightarrow> run_row \<Rightarrow> string" where
  "group_of conc r = cc_Group (conc (rr_ns r) (rr_id r))"

text \<open>A row is well formed: a run something decided has left the queue, one nothing decided is in it, and a started run is stamped.\<close>

definition row_ok :: "concurrencies \<Rightarrow> run_row \<Rightarrow> bool" where
  "row_ok conc r \<longleftrightarrow> rr_id r \<noteq> '''' \<and> (rr_doc r \<longleftrightarrow> rr_state r \<noteq> Queued) \<and>
     (rr_group r = None \<or> rr_group r = nilIfEmpty (group_of conc r)) \<and>
     (run_started (rr_state r) \<longrightarrow> rr_group r = nilIfEmpty (group_of conc r))"

definition rows_ok :: "concurrencies \<Rightarrow> run_row list \<Rightarrow> bool" where
  "rows_ok conc rs \<longleftrightarrow> distinct (map rr_id rs) \<and> list_all (row_ok conc) rs"

definition same_group :: "concurrencies \<Rightarrow> run_row \<Rightarrow> run_row \<Rightarrow> bool" where
  "same_group conc r q \<longleftrightarrow> rr_ns r = rr_ns q \<and> group_of conc r = group_of conc q \<and> group_of conc r \<noteq> ''''"

text \<open>No group has two started runs.\<close>

definition exclusive :: "concurrencies \<Rightarrow> run_row list \<Rightarrow> bool" where
  "exclusive conc rs \<longleftrightarrow>
     (\<forall>r \<in> set rs. \<forall>q \<in> set rs. run_started (rr_state r) \<and> run_started (rr_state q) \<and> same_group conc r q \<longrightarrow> r = q)"

text \<open>What was read of a run is the past of its row: either the row has been decided since, or it says the same but for its stamp.\<close>

definition read_of :: "run_row list \<Rightarrow> run_row \<Rightarrow> bool" where
  "read_of rs e \<longleftrightarrow> (\<exists>r \<in> set rs. rr_id r = rr_id e \<and> rr_ns r = rr_ns e \<and> rr_seq e \<le> rr_seq r \<and>
     (rr_seq r = rr_seq e \<longrightarrow> rr_doc r = rr_doc e \<and> rr_state r = rr_state e))"

text \<open>A run let in from the queue has its group to itself until it is decided.\<close>

definition clear_for :: "concurrencies \<Rightarrow> run_row list \<Rightarrow> run_row \<Rightarrow> bool" where
  "clear_for conc rs e \<longleftrightarrow>
     (\<forall>r \<in> set rs. rr_id r = rr_id e \<and> rr_seq r = rr_seq e \<longrightarrow>
        rr_group r = nilIfEmpty (group_of conc e) \<and> (\<forall>q \<in> set rs. run_started (rr_state q) \<longrightarrow> \<not> same_group conc e q))"

definition loops_ok :: "concurrencies \<Rightarrow> cluster \<Rightarrow> bool" where
  "loops_ok conc s \<longleftrightarrow>
     (\<forall>t e. on_run (cl_watch s t) = Some e \<or> on_run (cl_answers s t) = Some e \<longrightarrow>
        t \<le> tb_token (cl_db s) \<and> read_of (tb_runs (cl_db s)) e) \<and>
     (\<forall>t e. on_run (cl_answers s t) = Some e \<longrightarrow> rr_doc e) \<and>
     (\<forall>e. cl_watch s (tb_token (cl_db s)) = LetIn e \<longrightarrow> \<not> rr_doc e \<longrightarrow> clear_for conc (tb_runs (cl_db s)) e)"

definition cluster_ok :: "concurrencies \<Rightarrow> cluster \<Rightarrow> bool" where
  "cluster_ok conc s \<longleftrightarrow> rows_ok conc (tb_runs (cl_db s)) \<and> exclusive conc (tb_runs (cl_db s)) \<and> loops_ok conc s"

section \<open>Rows that change\<close>

text \<open>What a transaction does to the rows: each keeps its identity, and what is read of it ages.\<close>

definition ages :: "run_row list \<Rightarrow> (run_row \<Rightarrow> run_row) \<Rightarrow> bool" where
  "ages rs f \<longleftrightarrow> (\<forall>r \<in> set rs. rr_id (f r) = rr_id r \<and> rr_ns (f r) = rr_ns r \<and> rr_seq r \<le> rr_seq (f r) \<and>
     (rr_seq (f r) = rr_seq r \<longrightarrow> rr_doc (f r) = rr_doc r \<and> rr_state (f r) = rr_state r))"

lemma group_of_cong: "rr_id r = rr_id q \<Longrightarrow> rr_ns r = rr_ns q \<Longrightarrow> group_of conc r = group_of conc q"
  by (simp add: group_of_def)

lemma same_group_cong:
  "rr_id r = rr_id r' \<Longrightarrow> rr_ns r = rr_ns r' \<Longrightarrow> rr_id q = rr_id q' \<Longrightarrow> rr_ns q = rr_ns q' \<Longrightarrow>
   same_group conc r q \<longleftrightarrow> same_group conc r' q'"
  by (simp add: same_group_def group_of_def)

lemma row_unique: "rows_ok conc rs \<Longrightarrow> r \<in> set rs \<Longrightarrow> q \<in> set rs \<Longrightarrow> rr_id r = rr_id q \<Longrightarrow> r = q"
  unfolding rows_ok_def by (metis distinct_map inj_onD)

lemma row_okD: "rows_ok conc rs \<Longrightarrow> r \<in> set rs \<Longrightarrow> row_ok conc r"
  by (simp add: rows_ok_def list_all_iff)

lemma read_of_ages:
  assumes "ages rs f" "read_of rs e"
  shows "read_of (map f rs) e"
proof -
  obtain r where r: "r \<in> set rs" "rr_id r = rr_id e" "rr_ns r = rr_ns e" "rr_seq e \<le> rr_seq r"
    "rr_seq r = rr_seq e \<longrightarrow> rr_doc r = rr_doc e \<and> rr_state r = rr_state e"
    using assms(2) unfolding read_of_def by blast
  have f: "rr_id (f r) = rr_id r" "rr_ns (f r) = rr_ns r" "rr_seq r \<le> rr_seq (f r)"
    "rr_seq (f r) = rr_seq r \<longrightarrow> rr_doc (f r) = rr_doc r \<and> rr_state (f r) = rr_state r"
    using assms(1) r(1) unfolding ages_def by blast+
  have "f r \<in> set (map f rs)" using r(1) by simp
  moreover have "rr_seq e \<le> rr_seq (f r)" using r(4) f(3) by linarith
  moreover have "rr_seq (f r) = rr_seq e \<longrightarrow> rr_doc (f r) = rr_doc e \<and> rr_state (f r) = rr_state e" using r(4,5) f(3,4) by auto
  ultimately show ?thesis unfolding read_of_def using r f by auto
qed

lemma rows_ok_map:
  assumes "rows_ok conc rs" "ages rs f" "\<And>r. r \<in> set rs \<Longrightarrow> row_ok conc (f r)"
  shows "rows_ok conc (map f rs)"
proof -
  have m: "map rr_id (map f rs) = map rr_id rs" unfolding map_map by (rule map_cong) (use assms(2) in \<open>auto simp: ages_def\<close>)
  show ?thesis using assms(1,3) unfolding rows_ok_def m by (simp add: list_all_iff)
qed

lemma exclusive_map:
  assumes "ages rs f"
    "\<And>r q. r \<in> set rs \<Longrightarrow> q \<in> set rs \<Longrightarrow> run_started (rr_state (f r)) \<Longrightarrow> run_started (rr_state (f q)) \<Longrightarrow> same_group conc r q \<Longrightarrow> r = q"
  shows "exclusive conc (map f rs)"
proof -
  have "f r = f q" if "r \<in> set rs" "q \<in> set rs" "run_started (rr_state (f r)) \<and> run_started (rr_state (f q)) \<and> same_group conc (f r) (f q)" for r q
    using that assms same_group_cong[of "f r" r "f q" q conc] unfolding ages_def by metis
  then show ?thesis unfolding exclusive_def by auto
qed

text \<open>Where no row is started that was not, a run let in keeps its group to itself.\<close>

lemma clear_for_map:
  assumes "ages rs f" "clear_for conc rs e"
    and "\<And>r. r \<in> set rs \<Longrightarrow> rr_seq (f r) = rr_seq r \<Longrightarrow> rr_id r = rr_id e \<Longrightarrow> rr_group r = nilIfEmpty (group_of conc e) \<Longrightarrow>
      rr_group (f r) = nilIfEmpty (group_of conc e)"
    and "\<And>r. r \<in> set rs \<Longrightarrow> run_started (rr_state (f r)) \<Longrightarrow> run_started (rr_state r)"
    and "read_of rs e" "rows_ok conc rs"
  shows "clear_for conc (map f rs) e"
proof -
  have "rr_group (f r) = nilIfEmpty (group_of conc e) \<and> (\<forall>q \<in> set (map f rs). run_started (rr_state q) \<longrightarrow> \<not> same_group conc e q)"
    if r: "r \<in> set rs" "rr_id (f r) = rr_id e" "rr_seq (f r) = rr_seq e" for r
  proof -
    have a: "rr_id (f r) = rr_id r" "rr_seq r \<le> rr_seq (f r)" using assms(1) r(1) unfolding ages_def by blast+
    obtain q where q: "q \<in> set rs" "rr_id q = rr_id e" "rr_seq e \<le> rr_seq q" using assms(5) unfolding read_of_def by blast
    have "q = r" using row_unique[OF assms(6) q(1) r(1)] q(2) r(2) a(1) by simp
    then have s: "rr_seq r = rr_seq e" "rr_id r = rr_id e" using q a r by simp_all
    note c = assms(2)[unfolded clear_for_def, rule_format, OF r(1) conjI[OF s(2) s(1)]]
    have "\<not> same_group conc e (f q)" if "q \<in> set rs" "run_started (rr_state (f q))" for q
    proof -
      have "\<not> same_group conc e q" using c assms(4)[OF that] that(1) by blast
      moreover have "rr_id (f q) = rr_id q" "rr_ns (f q) = rr_ns q" using assms(1) that(1) unfolding ages_def by blast+
      ultimately show ?thesis using same_group_cong[of e e "f q" q conc] by simp
    qed
    then show ?thesis using assms(3)[OF r(1)] c s r(3) by auto
  qed
  then show ?thesis unfolding clear_for_def by auto
qed

section \<open>Admission\<close>

definition stamped :: "string \<Rightarrow> string \<Rightarrow> string \<Rightarrow> run_row \<Rightarrow> run_row" where
  "stamped namespace run grp r = (if rr_ns r = namespace \<and> rr_id r = run then r\<lparr>rr_group := nilIfEmpty grp\<rparr> else r)"

lemma stamped_simps [simp]:
  "rr_id (stamped ns i g r) = rr_id r" "rr_ns (stamped ns i g r) = rr_ns r" "rr_seq (stamped ns i g r) = rr_seq r"
  "rr_doc (stamped ns i g r) = rr_doc r" "rr_state (stamped ns i g r) = rr_state r" "rr_created (stamped ns i g r) = rr_created r"
  "rr_group (stamped ns i g r) = (if rr_ns r = ns \<and> rr_id r = i then nilIfEmpty g else rr_group r)"
  by (simp_all add: stamped_def)

lemma SetGroup_runs: "tb_runs (SetGroup ns i g tb) = map (stamped ns i g) (tb_runs tb)"
  by (simp add: SetGroup_def stamped_def)

lemma SetGroup_token [simp]: "tb_token (SetGroup ns i g tb) = tb_token tb"
  by (simp add: SetGroup_def)

lemma ages_stamped: "ages rs (stamped ns i g)"
  by (simp add: ages_def)

lemma stamped_row_ok: "row_ok conc r \<Longrightarrow> row_ok conc (stamped (rr_ns e) (rr_id e) (group_of conc e) r)"
  by (simp add: row_ok_def group_of_cong[of "stamped (rr_ns e) (rr_id e) (group_of conc e) r" r] group_of_def)

lemma stamped_clear:
  assumes "clear_for conc rs x" "read_of rs x" "rows_ok conc rs"
  shows "clear_for conc (map (stamped (rr_ns e) (rr_id e) (group_of conc e)) rs) x"
proof (rule clear_for_map[OF ages_stamped assms(1) _ _ assms(2,3)])
  fix r assume r: "r \<in> set rs" "rr_id r = rr_id x" "rr_group r = nilIfEmpty (group_of conc x)"
  obtain q where q: "q \<in> set rs" "rr_id q = rr_id x" "rr_ns q = rr_ns x" using assms(2) unfolding read_of_def by blast
  have "q = r" by (rule row_unique[OF assms(3) q(1) r(1)]) (simp add: q r)
  then show "rr_group (stamped (rr_ns e) (rr_id e) (group_of conc e) r) = nilIfEmpty (group_of conc x)"
    using q r by (simp add: group_of_def)
qed simp

lemma admitted_iff:
  "admitted c t e tb = Inr (ok, cancel, tb') \<longleftrightarrow>
   (if rr_doc e then ok \<and> cancel = '''' \<and> tb' = tb
    else t = tb_token tb \<and> admitted c t e tb = Inr (ok, cancel, tb'))"
  by (auto simp: admitted_def Fenced_def Fence_def split: if_splits)

lemma admitted_tables:
  assumes "admitted c t e tb = Inr (ok, cancel, tb')" "\<not> rr_doc e"
  shows "t = tb_token tb \<and> tb' = SetGroup (rr_ns e) (rr_id e) (cc_Group c) tb"
  using assms by (auto simp: admitted_def Fenced_def Fence_def Let_def split: if_splits)

lemma admitted_holder:
  assumes "admitted c t e tb = Inr (True, cancel, tb')" "\<not> rr_doc e" "cc_Group c \<noteq> ''''"
  shows "Holding (rr_ns e) (cc_Group c) (tb_runs tb') \<in> {'''', rr_id e} \<and>
    (Holding (rr_ns e) (cc_Group c) (tb_runs tb') = '''' \<longrightarrow> NextInLine (rr_ns e) (cc_Group c) (rr_id e) (tb_runs tb'))"
  using assms by (auto simp: admitted_def Fenced_def Fence_def Let_def split: if_splits)

text \<open>What is let in from the queue is stamped, and its group is free.\<close>

lemma admitted_clear:
  assumes "admitted (conc (rr_ns e) (rr_id e)) t e tb = Inr (True, cancel, tb')" "\<not> rr_doc e"
    and "rows_ok conc (tb_runs tb)" "read_of (tb_runs tb) e"
  shows "clear_for conc (tb_runs tb') e"
proof -
  let ?rs = "tb_runs tb'" and ?g = "cc_Group (conc (rr_ns e) (rr_id e))"
  have rs: "?rs = map (stamped (rr_ns e) (rr_id e) ?g) (tb_runs tb)"
    using admitted_tables[OF assms(1,2)] by (simp add: SetGroup_runs)
  have g: "group_of conc e = ?g" by (simp add: group_of_def)
  have ok: "rows_ok conc ?rs" unfolding rs
    by (rule rows_ok_map[OF assms(3) ages_stamped]) (use stamped_row_ok[of conc _ e] row_okD[OF assms(3)] in \<open>simp add: group_of_def\<close>)
  have e: "read_of ?rs e" unfolding rs by (rule read_of_ages[OF ages_stamped assms(4)])
  show ?thesis unfolding clear_for_def
  proof (intro ballI impI conjI)
    fix r assume r: "r \<in> set ?rs" "rr_id r = rr_id e \<and> rr_seq r = rr_seq e"
    obtain r' where r': "r' \<in> set ?rs" "rr_id r' = rr_id e" "rr_ns r' = rr_ns e"
      "rr_seq r' = rr_seq e \<longrightarrow> rr_doc r' = rr_doc e \<and> rr_state r' = rr_state e" using e unfolding read_of_def by blast
    have "r' = r" by (rule row_unique[OF ok r'(1) r(1)]) (use r' r in simp)
    then have m: "rr_ns r = rr_ns e" "\<not> rr_doc r" using r' r(2) assms(2) by auto
    show "rr_group r = nilIfEmpty (group_of conc e)" using r m(1) unfolding rs g by auto
    fix q assume q: "q \<in> set ?rs" "run_started (rr_state q)"
    show "\<not> same_group conc e q"
    proof
      assume s: "same_group conc e q"
      then have gq: "?g \<noteq> ''''" "rr_ns q = rr_ns e" "group_of conc q = ?g" by (auto simp: same_group_def g)
      have qs: "rr_group q = Some ?g" using row_okD[OF ok q(1)] q(2) gq by (simp add: row_ok_def nilIfEmpty_def)
      note h = admitted_holder[OF assms(1,2) gq(1)]
      have ids: "\<forall>r \<in> set ?rs. rr_id r \<noteq> ''''" using row_okD[OF ok] by (simp add: row_ok_def)
      show False
      proof (cases "Holding (rr_ns e) ?g ?rs = ''''")
        case True
        then show False using Holding_none[OF True gq(1) ids q(1) gq(2) qs] q(2) by simp
      next
        case False
        then obtain p where p: "p \<in> set ?rs" "rr_id p = rr_id e" "run_started (rr_state p)" using Holding_some[OF refl False] h by auto
        have "p = r" by (rule row_unique[OF ok p(1) r(1)]) (use p r in simp)
        then show False using p(3) m(2) row_okD[OF ok r(1)] by (auto simp: row_ok_def run_started_def)
      qed
    qed
  qed
qed

section \<open>Decisions\<close>

definition hit :: "decision \<Rightarrow> run_row \<Rightarrow> bool" where
  "hit d r \<longleftrightarrow> rr_ns r = dc_ns d \<and> rr_id r = dc_run d \<and> rr_seq r = dc_was d"

definition updated :: "decision \<Rightarrow> run_row \<Rightarrow> run_row" where
  "updated d r = (if hit d r then decided d r else r)"

lemma decided_simps [simp]:
  "rr_id (decided d r) = rr_id r" "rr_ns (decided d r) = rr_ns r" "rr_group (decided d r) = rr_group r"
  "rr_seq (decided d r) = dc_seq d" "rr_doc (decided d r)" "rr_state (decided d r) = dc_state d"
  by (simp_all add: decided_def)

lemma updated_simps [simp]: "rr_id (updated d r) = rr_id r" "rr_ns (updated d r) = rr_ns r" "rr_group (updated d r) = rr_group r"
  by (simp_all add: updated_def)

lemma SaveDecision_iff:
  "Fenced t (SaveDecision d) tb = Inr tb' \<longleftrightarrow>
   t = tb_token tb \<and> dc_ns d \<noteq> '''' \<and> dc_was d < dc_seq d \<and> list_ex (hit d) (tb_runs tb) \<and>
   tb' = tb\<lparr>tb_runs := map (updated d) (tb_runs tb)\<rparr>"
  by (auto simp: Fenced_def Fence_def SaveDecision_def Let_def updated_def[abs_def] hit_def[abs_def] decided_def)

lemma ages_updated: "dc_was d < dc_seq d \<Longrightarrow> ages rs (updated d)"
  by (auto simp: ages_def updated_def hit_def)

lemma started_not_terminal: "run_started st \<longleftrightarrow> st \<noteq> Queued \<and> \<not> run_Terminal st"
  by (cases st) (simp_all add: run_started_def)

text \<open>The row a decision finds is the one its pass read.\<close>

lemma hit_row:
  assumes "rows_ok conc rs" "read_of rs e" "decision_for e d" "r \<in> set rs" "hit d r"
  shows "rr_id r = rr_id e \<and> rr_ns r = rr_ns e \<and> rr_seq r = rr_seq e \<and> rr_doc r = rr_doc e \<and> rr_state r = rr_state e"
proof -
  obtain q where q: "q \<in> set rs" "rr_id q = rr_id e" "rr_ns q = rr_ns e"
    "rr_seq q = rr_seq e \<longrightarrow> rr_doc q = rr_doc e \<and> rr_state q = rr_state e" using assms(2) unfolding read_of_def by blast
  have h: "rr_id r = rr_id e" "rr_seq r = rr_seq e" using assms(3,5) by (simp_all add: hit_def decision_for_def)
  have "q = r" by (rule row_unique[OF assms(1) q(1) assms(4)]) (simp add: q h)
  then show ?thesis using q h by simp
qed

text \<open>A decision starts a run only where it was let in from the queue.\<close>

lemma decided_started:
  assumes "rows_ok conc rs" "read_of rs e" "decision_for e d" "r \<in> set rs" "run_started (rr_state (updated d r))"
  shows "run_started (rr_state r) \<or> hit d r \<and> \<not> rr_doc e \<and> dc_state d \<noteq> Cancelled"
proof (cases "hit d r")
  case True
  note h = hit_row[OF assms(1-4) True]
  have s: "run_started (dc_state d)" using assms(5) True by (simp add: updated_def)
  show ?thesis
  proof (cases "rr_doc e")
    case d: True
    then have "rr_state r \<noteq> Queued" using h row_okD[OF assms(1,4)] by (simp add: row_ok_def)
    then show ?thesis using s assms(3) h by (auto simp: decision_for_def started_not_terminal split: if_splits)
  next
    case False
    then show ?thesis using True s by (auto simp: run_started_def)
  qed
qed (use assms(5) in \<open>simp add: updated_def\<close>)

lemma decide_rows:
  assumes ok: "rows_ok conc rs" and ex: "exclusive conc rs" and e: "read_of rs e" "decision_for e d"
    and d: "dc_was d < dc_seq d" "rr_doc e \<or> dc_state d = Cancelled \<or> clear_for conc rs e"
  shows "rows_ok conc (map (updated d) rs) \<and> exclusive conc (map (updated d) rs)"
proof
  note a = ages_updated[OF d(1), of rs]
  have c: "rr_group r = nilIfEmpty (group_of conc r) \<and> (\<forall>q \<in> set rs. run_started (rr_state q) \<longrightarrow> \<not> same_group conc r q)"
    if "r \<in> set rs" "hit d r" "\<not> rr_doc e" "dc_state d \<noteq> Cancelled" for r
  proof -
    note h = hit_row[OF ok e that(1,2)]
    have "clear_for conc rs e" using d(2) that(3,4) by blast
    then have "rr_group r = nilIfEmpty (group_of conc e) \<and> (\<forall>q \<in> set rs. run_started (rr_state q) \<longrightarrow> \<not> same_group conc e q)"
      using that(1) h unfolding clear_for_def by blast
    moreover have "group_of conc r = group_of conc e" "\<And>q. same_group conc r q \<longleftrightarrow> same_group conc e q"
      using h by (simp_all add: same_group_def group_of_def)
    ultimately show ?thesis by simp
  qed
  show "rows_ok conc (map (updated d) rs)"
  proof (rule rows_ok_map[OF ok a])
    fix r assume r: "r \<in> set rs"
    show "row_ok conc (updated d r)"
    proof (cases "hit d r")
      case True
      note h = hit_row[OF ok e r True]
      have q: "dc_state d \<noteq> Queued" using e(2) by (cases "rr_state e") (auto simp: decision_for_def split: if_splits)
      have "run_started (dc_state d) \<longrightarrow> rr_group r = nilIfEmpty (group_of conc r)"
        using decided_started[OF ok e r] c[OF r True] row_okD[OF ok r] True by (auto simp: updated_def row_ok_def)
      then show ?thesis using True q row_okD[OF ok r] by (simp add: row_ok_def updated_def group_of_def)
    qed (use row_okD[OF ok r] in \<open>simp add: updated_def\<close>)
  qed
  show "exclusive conc (map (updated d) rs)"
  proof (rule exclusive_map[OF a])
    fix r q assume r: "r \<in> set rs" "q \<in> set rs" "run_started (rr_state (updated d r))" "run_started (rr_state (updated d q))" "same_group conc r q"
    note sr = decided_started[OF ok e r(1,3)] and sq = decided_started[OF ok e r(2,4)]
    have sym: "same_group conc q r" using r(5) by (auto simp: same_group_def)
    consider "run_started (rr_state r)" "run_started (rr_state q)" | "hit d r" "hit d q"
      | "hit d r" "\<not> rr_doc e" "dc_state d \<noteq> Cancelled" "run_started (rr_state q)"
      | "hit d q" "\<not> rr_doc e" "dc_state d \<noteq> Cancelled" "run_started (rr_state r)" using sr sq by blast
    then show "r = q"
    proof cases
      case 1
      then show ?thesis using ex r(1,2,5) unfolding exclusive_def by blast
    next
      case 2
      show ?thesis by (rule row_unique[OF ok r(1,2)]) (use 2 in \<open>simp add: hit_def\<close>)
    next
      case 3
      then show ?thesis using c[OF r(1) 3(1-3)] r(2,5) by blast
    next
      case 4
      then show ?thesis using c[OF r(2) 4(1-3)] r(1) sym by blast
    qed
  qed
qed

lemma decide_clear:
  assumes "rows_ok conc rs" "read_of rs e" "decision_for e d" "dc_was d < dc_seq d" "rr_doc e \<or> dc_state d = Cancelled"
    and "clear_for conc rs x" "read_of rs x"
  shows "clear_for conc (map (updated d) rs) x"
  by (rule clear_for_map[OF ages_updated[OF assms(4)] assms(6) _ _ assms(7,1)])
    (use decided_started[OF assms(1-3)] assms(5) in auto)

section \<open>Every turn keeps the invariant\<close>

lemmas cluster_parts = cluster_ok_def loops_ok_def

text \<open>Where the tables change and the loops that still hold a term stay on runs they have read, the invariant is kept.\<close>

lemma loops_after:
  assumes "cluster_ok conc s" "ages (tb_runs (cl_db s)) f" "tb_runs tb = map f (tb_runs (cl_db s)) @ new" "tb_token (cl_db s) \<le> tb_token tb"
    and "\<And>e. cl_watch s' (tb_token tb) = LetIn e \<Longrightarrow> \<not> rr_doc e \<Longrightarrow> clear_for conc (tb_runs tb) e"
    and "\<And>t e. on_run (cl_watch s' t) = Some e \<Longrightarrow> on_run (cl_watch s t) = Some e \<or> t \<le> tb_token tb \<and> read_of (tb_runs tb) e"
    and "\<And>t e. on_run (cl_answers s' t) = Some e \<Longrightarrow> on_run (cl_answers s t) = Some e \<or> t \<le> tb_token tb \<and> read_of (tb_runs tb) e \<and> rr_doc e"
    and "cl_db s' = tb"
  shows "loops_ok conc s'"
proof -
  have r: "read_of (tb_runs tb) e" if "read_of (tb_runs (cl_db s)) e" for e
    using read_of_ages[OF assms(2) that] unfolding assms(3) read_of_def by auto
  have old: "t \<le> tb_token tb \<and> read_of (tb_runs tb) e" if "on_run (cl_watch s t) = Some e \<or> on_run (cl_answers s t) = Some e" for t e
    using assms(1,4) that r[of e] unfolding cluster_parts by (meson le_trans)
  have docs: "rr_doc e" if "on_run (cl_answers s t) = Some e" for t e using assms(1) that unfolding cluster_parts by blast
  show ?thesis unfolding loops_ok_def assms(8) using assms(5-7) old docs by blast
qed

lemma cluster_map:
  assumes "cluster_ok conc s" "ages (tb_runs (cl_db s)) f" "tb_runs (cl_db s') = map f (tb_runs (cl_db s))" "tb_token (cl_db s) = tb_token (cl_db s')"
    and "rows_ok conc (map f (tb_runs (cl_db s)))" "exclusive conc (map f (tb_runs (cl_db s)))"
    and "\<And>e. cl_watch s' (tb_token (cl_db s)) = LetIn e \<Longrightarrow> \<not> rr_doc e \<Longrightarrow> clear_for conc (map f (tb_runs (cl_db s))) e"
    and "\<And>t e. on_run (cl_watch s' t) = Some e \<Longrightarrow> on_run (cl_watch s t) = Some e \<or> t \<le> tb_token (cl_db s) \<and> read_of (map f (tb_runs (cl_db s))) e"
    and "\<And>t e. on_run (cl_answers s' t) = Some e \<Longrightarrow> on_run (cl_answers s t) = Some e \<or> t \<le> tb_token (cl_db s) \<and> read_of (map f (tb_runs (cl_db s))) e \<and> rr_doc e"
  shows "cluster_ok conc s'"
  using loops_after[OF assms(1,2), of "cl_db s'" "[]" s'] assms(3-9) by (simp add: cluster_ok_def)

lemma turn_db_same:
  assumes "cluster_ok conc s" "cl_db s' = cl_db s"
    and "\<And>e. cl_watch s' (tb_token (cl_db s)) = LetIn e \<Longrightarrow> \<not> rr_doc e \<Longrightarrow> cl_watch s (tb_token (cl_db s)) = LetIn e"
    and "\<And>t e. on_run (cl_watch s' t) = Some e \<Longrightarrow> on_run (cl_watch s t) = Some e \<or> t \<le> tb_token (cl_db s) \<and> read_of (tb_runs (cl_db s)) e"
    and "\<And>t e. on_run (cl_answers s' t) = Some e \<Longrightarrow> on_run (cl_answers s t) = Some e \<or> t \<le> tb_token (cl_db s) \<and> read_of (tb_runs (cl_db s)) e \<and> rr_doc e"
  shows "cluster_ok conc s'"
proof (rule cluster_map[OF assms(1), of id])
  show "ages (tb_runs (cl_db s)) id" by (simp add: ages_def)
qed (use assms in \<open>auto simp: cluster_parts\<close>)

lemma read_of_self: "r \<in> set rs \<Longrightarrow> read_of rs r"
  unfolding read_of_def by blast

lemma watch_read: "cluster_ok conc s \<Longrightarrow> on_run (cl_watch s t) = Some e \<Longrightarrow> t \<le> tb_token (cl_db s) \<and> read_of (tb_runs (cl_db s)) e"
  unfolding cluster_parts by blast

lemma answers_read:
  "cluster_ok conc s \<Longrightarrow> on_run (cl_answers s t) = Some e \<Longrightarrow> t \<le> tb_token (cl_db s) \<and> read_of (tb_runs (cl_db s)) e \<and> rr_doc e"
  unfolding cluster_parts by blast

lemma watch_clear:
  "cluster_ok conc s \<Longrightarrow> cl_watch s (tb_token (cl_db s)) = LetIn e \<Longrightarrow> \<not> rr_doc e \<Longrightarrow> clear_for conc (tb_runs (cl_db s)) e"
  unfolding cluster_parts by blast

lemma created_ok:
  assumes "cluster_ok conc s" "\<forall>r \<in> set (tb_runs (cl_db s)). rr_id r \<noteq> rr_id n" "rr_id n \<noteq> ''''"
    "rr_state n = Queued" "rr_group n = None" "\<not> rr_doc n"
  shows "cluster_ok conc (s\<lparr>cl_db := (cl_db s)\<lparr>tb_runs := tb_runs (cl_db s) @ [n]\<rparr>\<rparr>)"
proof -
  let ?rs = "tb_runs (cl_db s)"
  have "rows_ok conc (?rs @ [n])" using assms by (auto simp: cluster_ok_def rows_ok_def row_ok_def run_started_def image_iff)
  moreover have "exclusive conc (?rs @ [n])" using assms(1,4) by (auto simp: cluster_ok_def exclusive_def run_started_def)
  moreover have c: "clear_for conc (?rs @ [n]) e" if "cl_watch s (tb_token (cl_db s)) = LetIn e" "\<not> rr_doc e" for e
  proof -
    have e: "clear_for conc ?rs e" "read_of ?rs e" using watch_clear[OF assms(1) that] watch_read[OF assms(1), of "tb_token (cl_db s)" e] that(1) by simp_all
    have "rr_id n \<noteq> rr_id e" using e(2) assms(2) unfolding read_of_def by auto
    then show ?thesis using e(1) assms(4) by (auto simp: clear_for_def run_started_def)
  qed
  moreover have "loops_ok conc (s\<lparr>cl_db := (cl_db s)\<lparr>tb_runs := ?rs @ [n]\<rparr>\<rparr>)"
    by (rule loops_after[OF assms(1), of id _ "[n]"]) (use c in \<open>simp_all add: ages_def\<close>)
  ultimately show ?thesis by (simp add: cluster_ok_def)
qed

lemma elected_ok:
  assumes "cluster_ok conc s"
  shows "cluster_ok conc (s\<lparr>cl_db := snd (BeginTerm (cl_db s))\<rparr>)"
proof -
  have "cl_watch s (Suc (tb_token (cl_db s))) \<noteq> LetIn e" for e
    using assms unfolding cluster_parts by (metis not_less_eq_eq on_run_simps(3) order_refl)
  then have "loops_ok conc (s\<lparr>cl_db := snd (BeginTerm (cl_db s))\<rparr>)"
    by (intro loops_after[OF assms, of id _ "[]"]) (simp_all add: ages_def BeginTerm_def)
  then show ?thesis using assms by (simp add: cluster_ok_def BeginTerm_def)
qed

lemma watch_admits_ok:
  assumes "cluster_ok conc s" "cl_watch s t = Seen e" "admitted (conc (rr_ns e) (rr_id e)) t e (cl_db s) = Inr (ok, cancel, tb)"
  shows "cluster_ok conc (s\<lparr>cl_db := tb, cl_watch := (cl_watch s)(t := if ok then LetIn e else Away)\<rparr>)"
    (is "cluster_ok conc ?s")
proof (cases "rr_doc e")
  case True
  then have "tb = cl_db s" using assms(3) by (simp add: admitted_def)
  then show ?thesis using True assms(2) by (intro turn_db_same[OF assms(1)]) (auto split: if_splits)
next
  case False
  let ?g = "cc_Group (conc (rr_ns e) (rr_id e))" and ?rs = "tb_runs (cl_db s)"
  let ?f = "stamped (rr_ns e) (rr_id e) ?g"
  note a = admitted_tables[OF assms(3) False]
  have runs: "tb_runs tb = map ?f ?rs" using a by (simp add: SetGroup_runs)
  have rows: "rows_ok conc ?rs" "exclusive conc ?rs" using assms(1) by (simp_all add: cluster_ok_def)
  have e: "read_of ?rs e" using watch_read[OF assms(1), of t e] assms(2) by simp
  show ?thesis
  proof (rule cluster_map[OF assms(1) ages_stamped])
    show "tb_runs (cl_db ?s) = map ?f ?rs" "tb_token (cl_db s) = tb_token (cl_db ?s)" using runs a by simp_all
    show "rows_ok conc (map ?f ?rs)"
      by (rule rows_ok_map[OF rows(1) ages_stamped]) (use stamped_row_ok[of conc _ e] row_okD[OF rows(1)] in \<open>simp add: group_of_def\<close>)
    show "exclusive conc (map ?f ?rs)"
      by (rule exclusive_map[OF ages_stamped]) (use rows(2) in \<open>simp add: exclusive_def\<close>)
    fix x assume x: "cl_watch ?s (tb_token (cl_db s)) = LetIn x" "\<not> rr_doc x"
    then have "ok" "x = e" using a by (simp_all split: if_splits)
    then show "clear_for conc (map ?f ?rs) x" using admitted_clear[OF _ False rows(1) e, of t cancel tb] assms(3) runs by simp
  next
    fix u x assume "on_run (cl_watch ?s u) = Some x"
    then show "on_run (cl_watch s u) = Some x \<or> u \<le> tb_token (cl_db s) \<and> read_of (map ?f ?rs) x" using assms(2) by (auto split: if_splits)
  qed simp
qed

lemma answers_admit_ok:
  assumes "cluster_ok conc s" "cl_answers s t = Seen e" "admitted (conc (rr_ns e) (rr_id e)) t e (cl_db s) = Inr (ok, cancel, tb)"
  shows "cluster_ok conc (s\<lparr>cl_db := tb, cl_answers := (cl_answers s)(t := if ok then LetIn e else Away)\<rparr>)"
proof -
  have "rr_doc e" using answers_read[OF assms(1), of t e] assms(2) by simp
  then have "tb = cl_db s" using assms(3) by (simp add: admitted_def)
  then show ?thesis using assms(2) by (intro turn_db_same[OF assms(1)]) (auto split: if_splits)
qed

lemma read_of_decided:
  assumes "rows_ok conc rs" "read_of rs e" "decision_for e d" "list_ex (hit d) rs"
  shows "read_of (map (updated d) rs) (decided d e)"
proof -
  obtain r where r: "r \<in> set rs" "hit d r" using assms(4) by (auto simp: list_ex_iff)
  note h = hit_row[OF assms(1-3) r]
  have "decided d r \<in> set (map (updated d) rs)" using r by (force simp: updated_def)
  then show ?thesis unfolding read_of_def by (rule bexI[rotated]) (simp add: h)
qed

lemma watch_decides_ok:
  assumes "cluster_ok conc s" "may_decide (cl_watch s t) e d" "Fenced t (SaveDecision d) (cl_db s) = Inr tb"
  shows "cluster_ok conc (s\<lparr>cl_db := tb, cl_watch := (cl_watch s)(t := LetIn (decided d e))\<rparr>)"
    (is "cluster_ok conc ?s")
proof -
  let ?rs = "tb_runs (cl_db s)"
  note v = assms(3)[unfolded SaveDecision_iff]
  have d: "decision_for e d" "dc_was d < dc_seq d" "list_ex (hit d) ?rs" using assms(2) v by (auto simp: may_decide_def)
  have on: "on_run (cl_watch s t) = Some e" using assms(2) by (auto simp: may_decide_def)
  have rows: "rows_ok conc ?rs" "exclusive conc ?rs" using assms(1) by (simp_all add: cluster_ok_def)
  have e: "read_of ?rs e" using watch_read[OF assms(1) on] by simp
  have "rr_doc e \<or> dc_state d = Cancelled \<or> clear_for conc ?rs e"
    using assms(2) watch_clear[OF assms(1), of e] v by (auto simp: may_decide_def)
  note both = decide_rows[OF rows e d(1,2) this]
  show ?thesis
  proof (rule cluster_map[OF assms(1) ages_updated[OF d(2)]])
    show "tb_runs (cl_db ?s) = map (updated d) ?rs" "tb_token (cl_db s) = tb_token (cl_db ?s)" using v by simp_all
    show "rows_ok conc (map (updated d) ?rs)" "exclusive conc (map (updated d) ?rs)" using both by simp_all
    fix x assume "cl_watch ?s (tb_token (cl_db s)) = LetIn x" "\<not> rr_doc x"
    then show "clear_for conc (map (updated d) ?rs) x" using v by auto
  next
    fix u x assume "on_run (cl_watch ?s u) = Some x"
    then show "on_run (cl_watch s u) = Some x \<or> u \<le> tb_token (cl_db s) \<and> read_of (map (updated d) ?rs) x"
      using v read_of_decided[OF rows(1) e d(1,3)] by (auto split: if_splits)
  qed simp
qed

lemma answers_decide_ok:
  assumes "cluster_ok conc s" "may_decide (cl_answers s t) e d" "Fenced t (SaveDecision d) (cl_db s) = Inr tb"
  shows "cluster_ok conc (s\<lparr>cl_db := tb, cl_answers := (cl_answers s)(t := LetIn (decided d e))\<rparr>)"
    (is "cluster_ok conc ?s")
proof -
  let ?rs = "tb_runs (cl_db s)"
  note v = assms(3)[unfolded SaveDecision_iff]
  have d: "decision_for e d" "dc_was d < dc_seq d" "list_ex (hit d) ?rs" using assms(2) v by (auto simp: may_decide_def)
  have on: "on_run (cl_answers s t) = Some e" using assms(2) by (auto simp: may_decide_def)
  have rows: "rows_ok conc ?rs" "exclusive conc ?rs" using assms(1) by (simp_all add: cluster_ok_def)
  have e: "read_of ?rs e" "rr_doc e" using answers_read[OF assms(1) on] by simp_all
  note both = decide_rows[OF rows e(1) d(1,2) disjI1[OF e(2)]]
  show ?thesis
  proof (rule cluster_map[OF assms(1) ages_updated[OF d(2)]])
    show "tb_runs (cl_db ?s) = map (updated d) ?rs" "tb_token (cl_db s) = tb_token (cl_db ?s)" using v by simp_all
    show "rows_ok conc (map (updated d) ?rs)" "exclusive conc (map (updated d) ?rs)" using both by simp_all
    fix x assume x: "cl_watch ?s (tb_token (cl_db s)) = LetIn x" "\<not> rr_doc x"
    then have w: "cl_watch s (tb_token (cl_db s)) = LetIn x" by simp
    have "read_of ?rs x" using watch_read[OF assms(1), of "tb_token (cl_db s)" x] w by simp
    then show "clear_for conc (map (updated d) ?rs) x"
      using decide_clear[OF rows(1) e(1) d(1,2) disjI1[OF e(2)] watch_clear[OF assms(1) w x(2)]] by simp
  next
    fix u x assume "on_run (cl_answers ?s u) = Some x"
    then show "on_run (cl_answers s u) = Some x \<or> u \<le> tb_token (cl_db s) \<and> read_of (map (updated d) ?rs) x \<and> rr_doc x"
      using v read_of_decided[OF rows(1) e(1) d(1,3)] by (auto split: if_splits)
  qed simp
qed

interpretation controllers: machine installed "turn conc" "cluster_ok conc" for conc
proof
  show "cluster_ok conc s" if "installed s" for s
    using that by (simp add: installed_def cluster_parts rows_ok_def exclusive_def)
  show "cluster_ok conc s'" if ok: "cluster_ok conc s" and t: "turn conc s s'" for s s'
    using t
  proof cases
    case (Created n)
    then show ?thesis using created_ok[OF ok] by blast
  next
    case Elected
    then show ?thesis using elected_ok[OF ok] by simp
  next
    case (Elsewhere cs ts)
    have "cluster_ok conc (s\<lparr>cl_db := (cl_db s)\<lparr>tb_tasks := ts, tb_ceilings := cs\<rparr>\<rparr>)"
      using ok by (simp add: cluster_parts)
    then show ?thesis using Elsewhere by simp
  next
    case (WatchReads u r)
    show ?thesis unfolding WatchReads(1)
      by (rule turn_db_same[OF ok]) (use WatchReads read_of_self in \<open>auto simp: Fence_def split: if_splits\<close>)
  next
    case (AnswersRead u r)
    show ?thesis unfolding AnswersRead(1)
      by (rule turn_db_same[OF ok]) (use AnswersRead read_of_self in \<open>auto simp: Fence_def split: if_splits\<close>)
  next
    case (WatchAdmits u e a c tb)
    then show ?thesis using watch_admits_ok[OF ok] by blast
  next
    case (AnswersAdmit u e a c tb)
    then show ?thesis using answers_admit_ok[OF ok] by blast
  next
    case (WatchDecides u e d tb)
    then show ?thesis using watch_decides_ok[OF ok] by blast
  next
    case (AnswersDecide u e d tb)
    then show ?thesis using answers_decide_ok[OF ok] by blast
  next
    case (WatchLeaves u)
    show ?thesis unfolding WatchLeaves by (rule turn_db_same[OF ok]) (auto split: if_splits)
  next
    case (AnswersLeave u)
    show ?thesis unfolding AnswersLeave by (rule turn_db_same[OF ok]) (auto split: if_splits)
  qed
qed

section \<open>One started run in a group\<close>

text \<open>
  C2: A concurrency group holds one started run: from an empty installation, whatever controllers are elected and however the steps
  of their two loops are taken in turn, those of a former holder that has not noticed among them, no two runs of one namespace
  whose workflows name one group are ever running or waiting at the same time.
\<close>

theorem a_group_holds_one_started_run:
  assumes "installed s" "(turn conc)\<^sup>*\<^sup>* s s'"
    and "r \<in> set (tb_runs (cl_db s'))" "q \<in> set (tb_runs (cl_db s'))"
    and "run_started (rr_state r)" "run_started (rr_state q)" "same_group conc r q"
  shows "r = q"
proof -
  have "cluster_ok conc s'" by (rule controllers.inv_reachable[OF assms(1,2)])
  then show ?thesis using assms(3-7) unfolding cluster_ok_def exclusive_def by blast
qed

text \<open>
  Two runs of one group on an installation whose controller changes hands: the first is let in by term 1 and its decision is
  written by it; term 2 is elected, reads the second and does not let it in.
\<close>

definition deploys :: concurrencies where
  "deploys ns i = \<lparr>cc_Group = ''deploy'', cc_CancelInProgress = False\<rparr>"

definition queued_run :: "string \<Rightarrow> int \<Rightarrow> run_row" where
  "queued_run i at = \<lparr>rr_ns = ''lab'', rr_id = i, rr_group = None, rr_state = Queued, rr_created = at, rr_seq = 0, rr_doc = False\<rparr>"

definition fresh_db :: tables where
  "fresh_db = \<lparr>tb_token = 1, tb_runs = [], tb_tasks = [], tb_ceilings = [(''lab'', 20)]\<rparr>"

definition first_cluster :: cluster where
  "first_cluster = \<lparr>cl_db = fresh_db, cl_watch = \<lambda>_. Away, cl_answers = \<lambda>_. Away\<rparr>"

definition running_run :: run_row where
  "running_run = \<lparr>rr_ns = ''lab'', rr_id = ''A'', rr_group = Some ''deploy'', rr_state = Running, rr_created = 1, rr_seq = 1, rr_doc = True\<rparr>"

definition first_decision :: decision where
  "first_decision = \<lparr>dc_ns = ''lab'', dc_run = ''A'', dc_was = 0, dc_seq = 1, dc_state = Running\<rparr>"

definition at_work :: cluster where
  "at_work = \<lparr>cl_db = fresh_db\<lparr>tb_runs := [running_run, queued_run ''B'' 2]\<rparr>,
     cl_watch = (\<lambda>_. Away)(1 := LetIn (decided first_decision (queued_run ''A'' 1))), cl_answers = \<lambda>_. Away\<rparr>"

lemma at_work_reached: "(turn deploys)\<^sup>*\<^sup>* first_cluster at_work"
proof -
  let ?A = "queued_run ''A'' 1" and ?B = "queued_run ''B'' 2" and ?away = "\<lambda>_. Away"
  let ?s1 = "first_cluster\<lparr>cl_db := fresh_db\<lparr>tb_runs := [?A]\<rparr>\<rparr>"
  let ?s2 = "first_cluster\<lparr>cl_db := fresh_db\<lparr>tb_runs := [?A, ?B]\<rparr>\<rparr>"
  let ?s3 = "?s2\<lparr>cl_watch := ?away(1 := Seen ?A)\<rparr>"
  let ?db = "fresh_db\<lparr>tb_runs := [?A\<lparr>rr_group := Some ''deploy''\<rparr>, ?B]\<rparr>"
  let ?s4 = "?s3\<lparr>cl_db := ?db, cl_watch := ?away(1 := LetIn ?A)\<rparr>"
  have "turn deploys first_cluster ?s1"
    using turn.Created[of first_cluster ?A deploys] by (simp add: first_cluster_def fresh_db_def queued_run_def)
  moreover have "turn deploys ?s1 ?s2"
    using turn.Created[of ?s1 ?B deploys] by (simp add: first_cluster_def fresh_db_def queued_run_def)
  moreover have "turn deploys ?s2 ?s3"
    using turn.WatchReads[of 1 ?s2 ?A deploys] by (simp add: first_cluster_def fresh_db_def queued_run_def Fence_def)
  moreover have "admitted (deploys ''lab'' ''A'') 1 ?A (cl_db ?s3) = Inr (True, '''', ?db)"
    by (simp add: admitted_def Fenced_def Fence_def deploys_def SetGroup_def Holding_def NextInLine_def first_id_def nilIfEmpty_def
        queued_run_def first_cluster_def fresh_db_def Slots_def run_started_def Let_def)
  then have "turn deploys ?s3 ?s4"
    using turn.WatchAdmits[of ?s3 1 ?A deploys True "''''" ?db] by (simp add: queued_run_def fun_upd_def cong: if_cong)
  moreover have "turn deploys ?s4 at_work"
  proof -
    have m: "may_decide (cl_watch ?s4 1) ?A first_decision"
      by (simp add: may_decide_def decision_for_def first_decision_def queued_run_def)
    have f: "Fenced 1 (SaveDecision first_decision) (cl_db ?s4) = Inr (cl_db at_work)"
      by (simp add: SaveDecision_def Fenced_def Fence_def first_decision_def queued_run_def fresh_db_def at_work_def running_run_def Let_def)
    have "?s4\<lparr>cl_db := cl_db at_work, cl_watch := (cl_watch ?s4)(1 := LetIn (decided first_decision ?A))\<rparr> = at_work"
      by (simp add: at_work_def first_cluster_def)
    then show ?thesis using turn.WatchDecides[OF m f] by simp
  qed
  ultimately show ?thesis by (meson converse_rtranclp_into_rtranclp rtranclp.rtrancl_refl)
qed

theorem a_group_holds_one_started_run_witness:
  "{q \<in> set (tb_runs (cl_db at_work)). run_started (rr_state q)} = {running_run} \<and>
   admitted (deploys ''lab'' ''B'') 1 (queued_run ''B'' 2) (cl_db at_work) =
     Inr (False, '''', SetGroup ''lab'' ''B'' ''deploy'' (cl_db at_work))"
proof
  have i: "installed first_cluster" by (simp add: installed_def first_cluster_def fresh_db_def)
  have m: "running_run \<in> set (tb_runs (cl_db at_work))" "run_started (rr_state running_run)"
    by (simp_all add: at_work_def running_run_def run_started_def)
  have "running_run = q" if q: "q \<in> set (tb_runs (cl_db at_work))" "run_started (rr_state q)" for q
  proof -
    have "rr_ns q = ''lab''" using q(1) by (auto simp: at_work_def running_run_def queued_run_def)
    then have "same_group deploys running_run q" by (simp add: same_group_def group_of_def deploys_def running_run_def)
    then show ?thesis by (rule a_group_holds_one_started_run[OF i at_work_reached m(1) q(1) m(2) q(2)])
  qed
  then show "{q \<in> set (tb_runs (cl_db at_work)). run_started (rr_state q)} = {running_run}" using m by blast
  show "admitted (deploys ''lab'' ''B'') 1 (queued_run ''B'' 2) (cl_db at_work) = Inr (False, '''', SetGroup ''lab'' ''B'' ''deploy'' (cl_db at_work))"
    by (simp add: admitted_def Fenced_def Fence_def deploys_def SetGroup_def Holding_def first_id_def nilIfEmpty_def
        queued_run_def running_run_def at_work_def fresh_db_def run_started_def Let_def)
qed

text \<open>
  Runs of a group leave the queue in the order they were created: a run nothing has decided that \<open>admitted\<close> lets into a group
  nobody holds is the oldest of the queued runs stamped with it, the least identifier where two were created at one moment.
\<close>

theorem the_oldest_of_a_group_goes_next:
  assumes "admitted (conc (rr_ns e) (rr_id e)) t e tb = Inr (True, cancel, tb')" "\<not> rr_doc e" "group_of conc e \<noteq> ''''"
    and "Holding (rr_ns e) (group_of conc e) (tb_runs tb') = ''''"
    and "r \<in> set (tb_runs tb')" "rr_ns r = rr_ns e" "rr_group r = Some (group_of conc e)" "rr_state r = Queued"
  shows "\<exists>q \<in> set (tb_runs tb'). rr_id q = rr_id e \<and> rr_state q = Queued \<and>
    (rr_created q < rr_created r \<or> rr_created q = rr_created r \<and> rr_id q \<le> rr_id r)"
proof -
  have "NextInLine (rr_ns e) (group_of conc e) (rr_id e) (tb_runs tb')"
    using admitted_holder[OF assms(1,2)] assms(3,4) by (simp add: group_of_def)
  from NextInLine_oldest[OF this assms(3,5-8)] show ?thesis by blast
qed

definition both_queued :: tables where
  "both_queued = fresh_db\<lparr>tb_runs := [(queued_run ''A'' 1)\<lparr>rr_group := Some ''deploy''\<rparr>, (queued_run ''B'' 2)\<lparr>rr_group := Some ''deploy''\<rparr>]\<rparr>"

lemmas queue_simps = admitted_def Fenced_def Fence_def deploys_def SetGroup_def Holding_def NextInLine_def first_id_def nilIfEmpty_def
  queued_run_def both_queued_def fresh_db_def Slots_def run_started_def Let_def group_of_def

theorem the_oldest_of_a_group_goes_next_witness:
  "(\<exists>q \<in> set (tb_runs both_queued). rr_id q = ''A'' \<and> rr_state q = Queued \<and>
      (rr_created q < 2 \<or> rr_created q = 2 \<and> rr_id q \<le> ''B'')) \<and>
   admitted (deploys ''lab'' ''B'') 1 (queued_run ''B'' 2) both_queued = Inr (False, '''', both_queued)"
proof
  let ?A = "queued_run ''A'' 1"
  have a: "admitted (deploys (rr_ns ?A) (rr_id ?A)) 1 ?A both_queued = Inr (True, '''', both_queued)" by (simp add: queue_simps)
  have h: "Holding (rr_ns ?A) (group_of deploys ?A) (tb_runs both_queued) = ''''" by (simp add: queue_simps)
  have g: "\<not> rr_doc ?A" "group_of deploys ?A \<noteq> ''''" by (simp_all add: queue_simps)
  have r: "(queued_run ''B'' 2)\<lparr>rr_group := Some ''deploy''\<rparr> \<in> set (tb_runs both_queued)" by (simp add: both_queued_def)
  show "\<exists>q \<in> set (tb_runs both_queued). rr_id q = ''A'' \<and> rr_state q = Queued \<and>
      (rr_created q < 2 \<or> rr_created q = 2 \<and> rr_id q \<le> ''B'')"
    using the_oldest_of_a_group_goes_next[OF a g h r] by (simp add: queued_run_def group_of_def deploys_def)
  show "admitted (deploys ''lab'' ''B'') 1 (queued_run ''B'' 2) both_queued = Inr (False, '''', both_queued)" by (simp add: queue_simps)
qed

end
