(* ===== verification/Pools.thy ===== *)
theory Pools
  imports Vocabulary
begin

text \<open>
  The runner pool a step's labels select: \<open>Route\<close> and \<open>carries\<close> of \<open>bus/bus.go\<close>, \<open>Accepts\<close> of \<open>db/pools.go\<close> and \<open>poolOf\<close> of
  \<open>controller/pool.go\<close>. A list that may be nil is an option. A refusal keeps what its sentence names.
\<close>

record bus_pool =
  bp_Name :: string
  bp_Labels :: "string list"

record runner_pool =
  rp_Name :: string
  rp_Labels :: "string list"
  rp_AcceptedNamespaces :: "string list"
  rp_CPU :: string
  rp_Memory :: string
  rp_PIDs :: int
  rp_Containment :: string

definition DefaultPool :: string where "DefaultPool = ''default''"

definition Accepts :: "runner_pool \<Rightarrow> string \<Rightarrow> bool" where
  "Accepts p namespace \<longleftrightarrow> rp_AcceptedNamespaces p = [] \<or> namespace \<in> set (rp_AcceptedNamespaces p)"

datatype route_error =
    NotALabel string
  | Unrouted "string list" "string list"

definition runner_label :: "string \<Rightarrow> bool" where
  "runner_label l \<longleftrightarrow> (case cut_at CHR ''='' l of None \<Rightarrow> False | Some (k, v) \<Rightarrow> k \<noteq> [] \<and> v \<noteq> [])"

definition carries :: "string list \<Rightarrow> string list \<Rightarrow> bool" where
  "carries labels asked \<longleftrightarrow> list_all (\<lambda>l. l \<in> set labels) asked"

definition matches :: "string list \<Rightarrow> bus_pool \<Rightarrow> bool" where
  "matches runsOn p \<longleftrightarrow> (if runsOn = [] then bp_Name p = DefaultPool else carries (bp_Labels p) runsOn)"

definition Route :: "string list \<Rightarrow> bus_pool list \<Rightarrow> (route_error, string) result" where
  "Route runsOn pools =
     (case find (\<lambda>l. \<not> runner_label l) runsOn of
        Some l \<Rightarrow> Inl (NotALabel l)
      | None \<Rightarrow>
          (case map bp_Name (filter (matches runsOn) pools) of
             [name] \<Rightarrow> Inr name
           | matching \<Rightarrow> Inl (Unrouted runsOn (sort matching))))"

datatype unpublishable =
    NotAllowed string "string list"
  | RefusedByBoth string "string list"
  | NotAccepted string
  | NoDefaultPool
  | NoPoolCarries "string list"
  | ManyCarry "string list" "string list"
  | NamesNoPool route_error

definition candidate :: "runner_pool \<Rightarrow> bus_pool" where
  "candidate p = \<lparr>bp_Name = rp_Name p, bp_Labels = rp_Labels p\<rparr>"

definition allows :: "string list option \<Rightarrow> string \<Rightarrow> bool" where
  "allows allowed name \<longleftrightarrow> (case allowed of None \<Rightarrow> True | Some ns \<Rightarrow> name \<in> set ns)"

definition reachable :: "string \<Rightarrow> string list option \<Rightarrow> runner_pool \<Rightarrow> bool" where
  "reachable namespace allowed p \<longleftrightarrow> Accepts p namespace \<and> allows allowed (rp_Name p)"

text \<open>What a refusal says where no pool both sides allow carries the labels.\<close>

definition refusal_of :: "string \<Rightarrow> string list option \<Rightarrow> string list \<Rightarrow> runner_pool list \<Rightarrow> unpublishable option" where
  "refusal_of namespace allowed runsOn pools =
     (let disallowed = map candidate (filter (\<lambda>p. Accepts p namespace \<and> \<not> allows allowed (rp_Name p)) pools);
          refusing = map candidate (filter (\<lambda>p. \<not> Accepts p namespace) pools);
          named = (case allowed of None \<Rightarrow> [] | Some ns \<Rightarrow> ns)
      in case Route runsOn disallowed of
           Inr other \<Rightarrow> Some (NotAllowed other named)
         | Inl _ \<Rightarrow>
             (case Route runsOn refusing of
                Inr other \<Rightarrow> Some (if \<not> allows allowed other then RefusedByBoth other named else NotAccepted other)
              | Inl _ \<Rightarrow> None))"

definition poolOf :: "string \<Rightarrow> string list option \<Rightarrow> string list \<Rightarrow> runner_pool list \<Rightarrow> (unpublishable, runner_pool) result" where
  "poolOf namespace allowed runsOn pools =
     (case Route runsOn (map candidate (filter (reachable namespace allowed) pools)) of
        Inr name \<Rightarrow> (case find (\<lambda>p. rp_Name p = name) pools of Some p \<Rightarrow> Inr p | None \<Rightarrow> Inl NoDefaultPool)
      | Inl (NotALabel l) \<Rightarrow> Inl (NamesNoPool (NotALabel l))
      | Inl (Unrouted asked matching) \<Rightarrow>
          (case (if matching = [] then refusal_of namespace allowed runsOn pools else None) of
             Some why \<Rightarrow> Inl why
           | None \<Rightarrow>
               if asked = [] then Inl NoDefaultPool
               else if matching = [] then Inl (NoPoolCarries asked)
               else Inl (ManyCarry asked matching)))"

section \<open>What a route is\<close>

lemma matches_candidate: "matches runsOn (candidate p) \<longleftrightarrow>
  (if runsOn = [] then rp_Name p = DefaultPool else set runsOn \<subseteq> set (rp_Labels p))"
  by (auto simp: matches_def candidate_def carries_def list_all_iff)

text \<open>The pool is selected by what a step may reach: both sides agree, and its labels include every label asked.\<close>

definition selects :: "string \<Rightarrow> string list option \<Rightarrow> string list \<Rightarrow> runner_pool \<Rightarrow> bool" where
  "selects namespace allowed runsOn p \<longleftrightarrow>
     Accepts p namespace \<and> allows allowed (rp_Name p) \<and>
     (if runsOn = [] then rp_Name p = DefaultPool else set runsOn \<subseteq> set (rp_Labels p))"

lemma find_SomeD_mem: "find P xs = Some x \<Longrightarrow> x \<in> set xs \<and> P x"
  by (induction xs) (auto split: if_splits)

lemma Route_iff:
  "Route runsOn (map candidate ps) = Inr name \<longleftrightarrow>
   (\<forall>l \<in> set runsOn. runner_label l) \<and> map rp_Name (filter (\<lambda>p. matches runsOn (candidate p)) ps) = [name]"
proof (cases "find (\<lambda>l. \<not> runner_label l) runsOn")
  case None
  then have l: "\<forall>l \<in> set runsOn. runner_label l" by (auto simp: find_None_iff)
  have m: "map bp_Name (filter (matches runsOn) (map candidate ps)) = map rp_Name (filter (\<lambda>p. matches runsOn (candidate p)) ps)"
    by (simp add: filter_map comp_def candidate_def)
  have "Route runsOn (map candidate ps) = Inr name \<longleftrightarrow> map bp_Name (filter (matches runsOn) (map candidate ps)) = [name]"
    unfolding Route_def None option.case by (auto split: list.splits)
  then show ?thesis unfolding m by (simp add: l)
next
  case (Some l)
  have "l \<in> set runsOn \<and> \<not> runner_label l" by (rule find_SomeD_mem[OF Some])
  then show ?thesis unfolding Route_def Some by auto
qed

lemma find_name:
  assumes "distinct (map rp_Name pools)" "p \<in> set pools"
  shows "find (\<lambda>q. rp_Name q = rp_Name p) pools = Some p"
  using assms by (induction pools) (auto simp: rev_image_eqI)

lemma distinct_one: "distinct ys \<Longrightarrow> set ys = {x} \<Longrightarrow> ys = [x]"
proof (cases ys)
  case (Cons y zs)
  assume "distinct ys" "set ys = {x}"
  then have "y = x" "set zs \<subseteq> {x}" "x \<notin> set zs" using Cons by auto
  then have "set zs = {}" using subset_singletonD[of "set zs" x] by auto
  then show ?thesis using Cons \<open>y = x\<close> by simp
qed simp

lemma filter_single:
  assumes "distinct (map f xs)"
  shows "map f (filter P xs) = [f x] \<and> x \<in> set xs \<longleftrightarrow> x \<in> set xs \<and> P x \<and> (\<forall>y \<in> set xs. P y \<longrightarrow> y = x)"
proof
  assume a: "map f (filter P xs) = [f x] \<and> x \<in> set xs"
  then obtain z where z: "filter P xs = [z]" "f z = f x" by (auto simp: map_eq_Cons_conv)
  have m: "set (filter P xs) = {z}" using z(1) by simp
  then have "z \<in> set xs" "P z" by auto
  then have "z = x" using assms a z(2) by (meson distinct_map inj_onD)
  then show "x \<in> set xs \<and> P x \<and> (\<forall>y \<in> set xs. P y \<longrightarrow> y = x)"
    using a m \<open>P z\<close> by auto
next
  assume a: "x \<in> set xs \<and> P x \<and> (\<forall>y \<in> set xs. P y \<longrightarrow> y = x)"
  have "distinct (filter P xs)" using assms by (simp add: distinct_map)
  moreover have "set (filter P xs) = {x}" using a by auto
  ultimately have "filter P xs = [x]" by (rule distinct_one)
  then show "map f (filter P xs) = [f x] \<and> x \<in> set xs" using a by simp
qed


definition two_pools :: "runner_pool list" where
  "two_pools =
     [\<lparr>rp_Name = ''default'', rp_Labels = [''os=linux''], rp_AcceptedNamespaces = [], rp_CPU = '''', rp_Memory = '''', rp_PIDs = 0, rp_Containment = ''''\<rparr>,
      \<lparr>rp_Name = ''gpu'', rp_Labels = [''os=linux'', ''gpu=a100''], rp_AcceptedNamespaces = [''lab''], rp_CPU = ''8'', rp_Memory = ''64Gi'', rp_PIDs = 0, rp_Containment = ''''\<rparr>]"


end
