(* ===== verification/Grants.thy ===== *)
theory Grants
  imports Pools
begin

text \<open>
  Credentials and the grant of a task: \<open>internal/token/token.go\<close>, and of \<open>db/grants.go\<close> \<open>Redeemable\<close>, \<open>Redeem\<close> and \<open>mayTake\<close>, with \<open>BindUnredeemed\<close>
  and the row \<open>writeTask\<close> writes from \<open>db/runs.go\<close>. A hash is an argument, SHA-256 in the sources, and so are the random bytes of a
  credential. What a redemption answers beside the task, its scope and its run, is not modelled; a failure of the database is not a value.
\<close>

section \<open>Credentials\<close>

datatype credential_kind = API | GrantToken | Join | Runner | Enrol | Code | Refresh

definition kind_text :: "credential_kind \<Rightarrow> string" where
  "kind_text k = (case k of API \<Rightarrow> ''agktoken'' | GrantToken \<Rightarrow> ''agkgrant'' | Join \<Rightarrow> ''agkjoin'' | Runner \<Rightarrow> ''agkrunner''
     | Enrol \<Rightarrow> ''agkenrol'' | Code \<Rightarrow> ''agkcode'' | Refresh \<Rightarrow> ''agkrefresh'')"

definition kinds :: "credential_kind list" where
  "kinds = [API, GrantToken, Join, Runner, Enrol, Code, Refresh]"

definition secretLength :: nat where "secretLength = 43"

text \<open>\<open>base64.RawURLEncoding\<close>.\<close>

definition b64_char :: "nat \<Rightarrow> char" where
  "b64_char n = ''ABCDEFGHIJKLMNOPQRSTUVWXYZabcdefghijklmnopqrstuvwxyz0123456789-_'' ! n"

fun b64 :: "nat list \<Rightarrow> string" where
  "b64 [] = []"
| "b64 [a] = [b64_char (a div 4), b64_char (a mod 4 * 16)]"
| "b64 [a, b] = [b64_char (a div 4), b64_char (a mod 4 * 16 + b div 16), b64_char (b mod 16 * 4)]"
| "b64 (a # b # c # r) =
     [b64_char (a div 4), b64_char (a mod 4 * 16 + b div 16), b64_char (b mod 16 * 4 + c div 64), b64_char (c mod 64)] @ b64 r"

datatype token_error = CarriesNoIdentifier | NamesNoTask | CannotName | WrongLength nat

text \<open>\<open>New\<close>, \<open>raw\<close> being the bytes read from the generator; the hash is made of what it answers.\<close>

definition token_New :: "credential_kind \<Rightarrow> string \<Rightarrow> nat list \<Rightarrow> (token_error, string) result" where
  "token_New kind i raw =
     (if kind = GrantToken \<and> i = '''' then Inl NamesNoTask
      else if kind \<noteq> GrantToken \<and> i \<noteq> '''' then Inl CarriesNoIdentifier
      else if list_ex (\<lambda>c. c = CHR ''_'' \<or> c = CHR '' '') i then Inl CannotName
      else if length (b64 raw) \<noteq> secretLength then Inl (WrongLength (length (b64 raw)))
      else Inr (kind_text kind @ ''_'' @ (if i \<noteq> '''' then i @ ''_'' else '''') @ b64 raw))"

definition KindOf :: "string \<Rightarrow> credential_kind option" where
  "KindOf clear =
     (case cut_at CHR ''_'' clear of
        None \<Rightarrow> None
      | Some (prefix, rest) \<Rightarrow>
          if rest = [] then None
          else case find (\<lambda>k. kind_text k = prefix) kinds of
                 None \<Rightarrow> None
               | Some k \<Rightarrow>
                   if k = GrantToken then
                     (case cut_at CHR ''_'' rest of
                        None \<Rightarrow> None
                      | Some (i, secret) \<Rightarrow> if i \<noteq> [] \<and> 16 \<le> length secret then Some k else None)
                   else if secretLength \<le> length rest then Some k else None)"

definition TaskOf :: "string \<Rightarrow> string option" where
  "TaskOf grant =
     (case cut_prefix grant (kind_text GrantToken @ ''_'') of
        None \<Rightarrow> None
      | Some rest \<Rightarrow>
          (case cut_at CHR ''_'' rest of
             None \<Rightarrow> None
           | Some (i, secret) \<Rightarrow> if i = [] \<or> length secret < 16 then None else Some i))"

section \<open>Tables\<close>

record dispatch_row =
  dp_ns :: string
  dp_id :: string
  dp_key :: string
  dp_requeue :: nat
  dp_state :: task_state
  dp_runner :: "string option"

record task_grant =
  tg_ns :: string
  tg_task :: string
  tg_hash :: string
  tg_expires :: int
  tg_redeemed :: "int option"

record runner_row =
  ru_id :: string
  ru_state :: string
  ru_pool :: string
  ru_narrowed :: "string list option"

record grant_tables =
  gt_tasks :: "dispatch_row list"
  gt_grants :: "task_grant list"
  gt_runners :: "runner_row list"
  gt_pools :: "runner_pool list"
  gt_allowed :: "(string \<times> string list option) list"

section \<open>Redemptions\<close>

datatype redeem_error = NoGrant | NoRunner | TaskHeld | RunnerNotTaking | PoolRefusesNamespace | NamespaceRefusesPool | RunnerNarrowed | NoDispatch

definition mayTake :: "string \<Rightarrow> string \<Rightarrow> grant_tables \<Rightarrow> (redeem_error, unit) result" where
  "mayTake runner namespace tb =
     (case find (\<lambda>(r, p). ru_id r = runner \<and> rp_Name p = ru_pool r) (List.product (gt_runners tb) (gt_pools tb)) of
        None \<Rightarrow> Inr ()
      | Some (r, p) \<Rightarrow>
          if ru_state r \<noteq> ''ready'' then Inl RunnerNotTaking
          else if \<not> Accepts p namespace then Inl PoolRefusesNamespace
          else if \<not> allows (case map_of (gt_allowed tb) namespace of None \<Rightarrow> None | Some a \<Rightarrow> a) (ru_pool r) then Inl NamespaceRefusesPool
          else if \<not> allows (ru_narrowed r) namespace then Inl RunnerNarrowed
          else Inr ())"

definition granted_row :: "(string \<Rightarrow> string) \<Rightarrow> string \<Rightarrow> grant_tables \<Rightarrow> (task_grant \<times> dispatch_row) option" where
  "granted_row hash clear tb =
     (case TaskOf clear of
        None \<Rightarrow> None
      | Some i \<Rightarrow> find (\<lambda>(g, t). tg_task g = i \<and> tg_hash g = hash clear \<and> dp_ns t = tg_ns g \<and> dp_id t = tg_task g)
                   (List.product (gt_grants tb) (gt_tasks tb)))"

definition redeemable ::
    "(string \<Rightarrow> string) \<Rightarrow> string \<Rightarrow> string \<Rightarrow> string \<Rightarrow> int \<Rightarrow> grant_tables \<Rightarrow> (redeem_error, string \<times> string \<times> string) result" where
  "redeemable hash clear task runner now tb =
     (case granted_row hash clear tb of
        None \<Rightarrow> Inl NoGrant
      | Some (g, t) \<Rightarrow>
          if tg_expires g \<le> now then Inl NoGrant
          else if task \<noteq> '''' \<and> task \<noteq> dp_key t then Inl NoGrant
          else if runner = '''' then Inl NoRunner
          else if dp_runner t \<noteq> None \<and> dp_runner t \<noteq> Some runner then Inl TaskHeld
          else if task_Terminal (dp_state t) then Inl TaskHeld
          else rbind (if dp_runner t = None then mayTake runner (tg_ns g) tb else Inr ()) (\<lambda>_.
            Inr (tg_ns g, dp_id t, dp_key t)))"

definition Redeem ::
    "(string \<Rightarrow> string) \<Rightarrow> string \<Rightarrow> string \<Rightarrow> string \<Rightarrow> int \<Rightarrow> grant_tables \<Rightarrow>
     (redeem_error, (string \<times> string \<times> string) \<times> grant_tables) result" where
  "Redeem hash clear task runner now tb =
     rbind (redeemable hash clear task runner now tb) (\<lambda>(ns, row, key).
       Inr ((ns, row, key), tb\<lparr>
         gt_tasks := map (\<lambda>t. if dp_ns t = ns \<and> dp_id t = row then t\<lparr>dp_runner := Some runner\<rparr> else t) (gt_tasks tb),
         gt_grants := map (\<lambda>g. if tg_ns g = ns \<and> tg_task g = row \<and> tg_hash g = hash clear then g\<lparr>tg_redeemed := Some now\<rparr> else g) (gt_grants tb)\<rparr>))"

definition BindUnredeemed :: "string \<Rightarrow> string \<Rightarrow> string \<Rightarrow> string \<Rightarrow> grant_tables \<Rightarrow> (redeem_error, string \<times> grant_tables) result" where
  "BindUnredeemed namespace key row runner tb =
     (if runner = '''' then Inl NoRunner
      else case find (\<lambda>t. dp_ns t = namespace \<and> dp_id t = row \<and> dp_key t = key) (gt_tasks tb) of
             None \<Rightarrow> Inl NoDispatch
           | Some t \<Rightarrow>
               let holder = (case dp_runner t of None \<Rightarrow> runner | Some h \<Rightarrow> h) in
               Inr (holder, tb\<lparr>gt_tasks := map (\<lambda>t. if dp_ns t = namespace \<and> dp_id t = row \<and> dp_key t = key
                                                   then t\<lparr>dp_runner := Some (case dp_runner t of None \<Rightarrow> runner | Some h \<Rightarrow> h)\<rparr> else t) (gt_tasks tb)\<rparr>))"

section \<open>What a decision writes of a dispatch\<close>

definition in_flight :: "task_state \<Rightarrow> bool" where
  "in_flight s \<longleftrightarrow> s \<in> {TaskPending, TaskDispatched, TaskRunning, TaskPublishing}"

text \<open>The state a row is left in where it says \<open>was\<close> and the decision says \<open>now\<close>; \<open>silent\<close> is an ending with no start and no exit code.\<close>

definition merged_state :: "task_state \<Rightarrow> task_state \<Rightarrow> bool \<Rightarrow> task_state" where
  "merged_state was now silent =
     (if was = TaskLost \<and> in_flight now then was
      else if was = TaskLost \<and> now = TaskCancelled \<and> silent then was
      else if was \<in> {TaskRunning, TaskPublishing} \<and> now \<in> {TaskPending, TaskDispatched} then was
      else if was = TaskPublishing \<and> now = TaskRunning then was
      else now)"

definition writeTask ::
    "string \<Rightarrow> string \<Rightarrow> nat \<Rightarrow> task_state \<Rightarrow> bool \<Rightarrow> string option \<Rightarrow> string \<Rightarrow> dispatch_row list \<Rightarrow> dispatch_row list" where
  "writeTask namespace key requeue st silent runner fresh rows =
     (let same = (\<lambda>t. dp_ns t = namespace \<and> dp_key t = key \<and> dp_requeue t = requeue) in
      if list_ex same rows
      then map (\<lambda>t. if same t then t\<lparr>dp_state := merged_state (dp_state t) st silent, dp_runner := (if runner = None then dp_runner t else runner)\<rparr>
                     else t) rows
      else rows @ [\<lparr>dp_ns = namespace, dp_id = fresh, dp_key = key, dp_requeue = requeue, dp_state = st, dp_runner = runner\<rparr>])"

section \<open>A credential says what it is\<close>

lemma length_b64: "length (b64 xs) = (4 * length xs + 2) div 3"
  by (induction xs rule: b64.induct) auto

lemma kind_text_no_mark: "CHR ''_'' \<notin> set (kind_text k)"
  by (cases k) (simp_all add: kind_text_def)

lemma find_kind: "find (\<lambda>k'. kind_text k' = kind_text k) kinds = Some k"
  by (cases k) (simp_all add: kinds_def kind_text_def)

lemma cut_at_first: "c \<notin> set x \<Longrightarrow> cut_at c (x @ c # y) = Some (x, y)"
  by (simp add: cut_at_def takeWhile_append2 dropWhile_append2)

lemma b64_char_inj: "n < 64 \<Longrightarrow> m < 64 \<Longrightarrow> b64_char n = b64_char m \<Longrightarrow> n = m"
  unfolding b64_char_def by (subst (asm) nth_eq_iff_index_eq) simp_all

lemma sextets:
  assumes "a < 256" "b < 256" "c < (256 :: nat)"
  shows "a div 4 < 64" "a mod 4 * 16 + b div 16 < 64" "b mod 16 * 4 + c div 64 < 64" "c mod 64 < 64" "a mod 4 * 16 < 64" "b mod 16 * 4 < 64"
proof -
  have p: "x * 16 + y < 64" if "x < 4" "y < 16" for x y :: nat using that by linarith
  have q: "x * 4 + y < 64" if "x < 16" "y < 4" for x y :: nat using that by linarith
  have "b < 16 * 16" "c < 4 * 64" "a < 64 * 4" using assms by simp_all
  note d = this[THEN less_mult_imp_div_less]
  have b: "a mod 4 < 4" "b div 16 < 16" "b mod 16 < 16" "c div 64 < 4" using d by simp_all
  show "a div 4 < 64" by (rule d(3))
  show "c mod 64 < 64" by simp
  show "a mod 4 * 16 + b div 16 < 64" by (rule p[OF b(1,2)])
  show "b mod 16 * 4 + c div 64 < 64" by (rule q[OF b(3,4)])
  show "a mod 4 * 16 < 64" using p[OF b(1), of 0] by simp
  show "b mod 16 * 4 < 64" using q[OF b(3), of 0] by simp
qed

lemma joined:
  assumes "x * k + y = x' * k + y'" "y < k" "y' < (k :: nat)"
  shows "x = x' \<and> y = y'"
proof -
  have "(x * k + y) div k = x" "(x' * k + y') div k = x'" using assms(2,3) by simp_all
  then have "x = x'" using assms(1) by simp
  then show ?thesis using assms(1) by simp
qed

lemma split_byte: "(a :: nat) div k = a' div k \<Longrightarrow> a mod k = a' mod k \<Longrightarrow> a = a'"
proof -
  assume e: "a div k = a' div k" "a mod k = a' mod k"
  have "a = a div k * k + a mod k" by (rule div_mult_mod_eq[symmetric])
  also have "\<dots> = a' div k * k + a' mod k" by (simp only: e)
  also have "\<dots> = a'" by (rule div_mult_mod_eq)
  finally show ?thesis .
qed

lemma b64_inj:
  "length xs = length ys \<Longrightarrow> \<forall>x \<in> set xs. x < 256 \<Longrightarrow> \<forall>y \<in> set ys. y < 256 \<Longrightarrow> b64 xs = b64 ys \<Longrightarrow> xs = ys"
proof (induction xs arbitrary: ys rule: b64.induct)
  case (2 a)
  then obtain a' where ys: "ys = [a']" by (cases ys) auto
  have l: "a < 256" "0 < (256::nat)" "a' < 256" using 2(2,3) ys by simp_all
  have q: "b64_char (a div 4) = b64_char (a' div 4)" "b64_char (a mod 4 * 16) = b64_char (a' mod 4 * 16)" using 2(4) unfolding ys by simp_all
  have "a div 4 = a' div 4" "a mod 4 * 16 = a' mod 4 * 16"
    by (rule b64_char_inj[OF sextets(1)[OF l(1,2,2)] sextets(1)[OF l(3,2,2)] q(1)])
      (rule b64_char_inj[OF sextets(5)[OF l(1,2,2)] sextets(5)[OF l(3,2,2)] q(2)])
  then show ?case using split_byte[of a 4 a'] ys by simp
next
  case (3 a b)
  then obtain a' b' where ys: "ys = [a', b']" by (cases ys; cases "tl ys") auto
  have l: "a < 256" "b < 256" "0 < (256::nat)" "a' < 256" "b' < 256" using 3(2,3) ys by simp_all
  have q: "b64_char (a div 4) = b64_char (a' div 4)" "b64_char (a mod 4 * 16 + b div 16) = b64_char (a' mod 4 * 16 + b' div 16)"
    "b64_char (b mod 16 * 4) = b64_char (b' mod 16 * 4)" using 3(4) unfolding ys by simp_all
  have e: "a div 4 = a' div 4" "a mod 4 * 16 + b div 16 = a' mod 4 * 16 + b' div 16" "b mod 16 * 4 = b' mod 16 * 4"
    by (rule b64_char_inj[OF sextets(1)[OF l(1-3)] sextets(1)[OF l(4,5,3)] q(1)], rule b64_char_inj[OF sextets(2)[OF l(1-3)] sextets(2)[OF l(4,5,3)] q(2)])
      (rule b64_char_inj[OF sextets(6)[OF l(1-3)] sextets(6)[OF l(4,5,3)] q(3)])
  have "a mod 4 = a' mod 4 \<and> b div 16 = b' div 16"
    by (rule joined[OF e(2)]) (use l in \<open>simp_all add: less_mult_imp_div_less\<close>)
  then show ?case using split_byte[OF e(1)] split_byte[of b 16 b'] e(3) ys by simp
next
  case (4 a b c r)
  then obtain a' b' c' r' where ys: "ys = a' # b' # c' # r'" by (cases ys; cases "tl ys"; cases "tl (tl ys)") auto
  have l: "a < 256" "b < 256" "c < 256" "a' < 256" "b' < 256" "c' < 256" using 4(3,4) ys by simp_all
  have q: "b64_char (a div 4) = b64_char (a' div 4)" "b64_char (a mod 4 * 16 + b div 16) = b64_char (a' mod 4 * 16 + b' div 16)"
    "b64_char (b mod 16 * 4 + c div 64) = b64_char (b' mod 16 * 4 + c' div 64)" "b64_char (c mod 64) = b64_char (c' mod 64)" "b64 r = b64 r'"
    using 4(5) unfolding ys by simp_all
  note l1 = l(1-3) and l2 = l(4-6)
  note e = b64_char_inj[OF sextets(1)[OF l1] sextets(1)[OF l2] q(1)] b64_char_inj[OF sextets(2)[OF l1] sextets(2)[OF l2] q(2)]
    b64_char_inj[OF sextets(3)[OF l1] sextets(3)[OF l2] q(3)] b64_char_inj[OF sextets(4)[OF l1] sextets(4)[OF l2] q(4)] q(5)
  have ab: "a mod 4 = a' mod 4 \<and> b div 16 = b' div 16"
    by (rule joined[OF e(2)]) (use l in \<open>simp_all add: less_mult_imp_div_less\<close>)
  have bc: "b mod 16 = b' mod 16 \<and> c div 64 = c' div 64"
    by (rule joined[OF e(3)]) (use l in \<open>simp_all add: less_mult_imp_div_less\<close>)
  have "r = r'" using 4(1)[of r'] 4(2-4) e(5) ys by simp
  then show ?case using split_byte[OF e(1)] split_byte[of b 16 b'] split_byte[of c 64 c'] ab bc e(4) ys by simp
qed simp

definition carried :: "credential_kind \<Rightarrow> string \<Rightarrow> nat list \<Rightarrow> string" where
  "carried k i raw = (if k = GrantToken then i @ CHR ''_'' # b64 raw else b64 raw)"

lemma token_form:
  assumes "token_New k i raw = Inr clear"
  shows "clear = kind_text k @ CHR ''_'' # carried k i raw \<and> CHR ''_'' \<notin> set i \<and> (k = GrantToken \<longleftrightarrow> i \<noteq> [])"
  using assms by (auto simp: token_New_def carried_def list_ex_iff split: if_splits)

lemma token_cut: "token_New k i raw = Inr clear \<Longrightarrow> cut_at CHR ''_'' clear = Some (kind_text k, carried k i raw)"
  using token_form cut_at_first[OF kind_text_no_mark[of k]] by metis

lemma carried_cut: "token_New k i raw = Inr clear \<Longrightarrow> cut_at CHR ''_'' (i @ CHR ''_'' # b64 raw) = Some (i, b64 raw)"
  using token_form by (intro cut_at_first) blast

lemma kind_of_token:
  assumes "token_New k i raw = Inr clear" "length raw = 32"
  shows "KindOf clear = Some k"
proof -
  have l: "length (b64 raw) = 43" using assms(2) by (simp add: length_b64)
  then have n: "carried k i raw \<noteq> []" by (auto simp: carried_def)
  show ?thesis
  proof (cases "k = GrantToken")
    case True
    then show ?thesis using token_cut[OF assms(1)] carried_cut[OF assms(1)] n l token_form[OF assms(1)]
      unfolding KindOf_def by (simp add: find_kind[of GrantToken] carried_def)
  next
    case False
    then show ?thesis using token_cut[OF assms(1)] n l unfolding KindOf_def by (simp add: find_kind secretLength_def carried_def)
  qed
qed

lemma task_of_token:
  assumes "token_New k i raw = Inr clear" "length raw = 32"
  shows "TaskOf clear = (if k = GrantToken then Some i else None)"
proof (cases "k = GrantToken")
  case True
  have "cut_prefix clear (kind_text GrantToken @ ''_'') = Some (i @ CHR ''_'' # b64 raw)"
    using token_form[OF assms(1)] True by (simp add: cut_prefix_def carried_def)
  then show ?thesis using True carried_cut[OF assms(1)] assms(2) token_form[OF assms(1)] by (simp add: TaskOf_def length_b64)
next
  case False
  have "cut_prefix clear (kind_text GrantToken @ ''_'') = None"
  proof (rule ccontr)
    assume "cut_prefix clear (kind_text GrantToken @ ''_'') \<noteq> None"
    then have "clear = kind_text GrantToken @ CHR ''_'' # drop (length (kind_text GrantToken @ ''_'')) clear"
      unfolding cut_prefix_def by (metis append.assoc append_Cons append_Nil append_take_drop_id)
    then have "cut_at CHR ''_'' clear = Some (kind_text GrantToken, drop (length (kind_text GrantToken @ ''_'')) clear)"
      using cut_at_first[OF kind_text_no_mark[of GrantToken]] by metis
    then have "kind_text GrantToken = kind_text k" using token_cut[OF assms(1)] by simp
    then show False using False find_kind[of k] find_kind[of GrantToken] by simp
  qed
  then show ?thesis using False by (simp add: TaskOf_def)
qed

lemma token_once:
  assumes "token_New k i raw = Inr clear" "token_New k' i' raw' = Inr clear" "length raw = 32" "length raw' = 32"
    and "\<forall>b \<in> set raw. b < 256" "\<forall>b \<in> set raw'. b < 256"
  shows "k' = k \<and> i' = i \<and> raw' = raw"
proof -
  have e: "kind_text k' = kind_text k" "carried k' i' raw' = carried k i raw" using token_cut[OF assms(1)] token_cut[OF assms(2)] by simp_all
  have k: "k' = k" using e(1) find_kind[of k] find_kind[of k'] by simp
  have "i' = i \<and> b64 raw' = b64 raw"
  proof (cases "k = GrantToken")
    case True
    then show ?thesis using e(2) k carried_cut[OF assms(1)] carried_cut[OF assms(2)] by (simp add: carried_def)
  qed (use e(2) k token_form[OF assms(1)] token_form[OF assms(2)] in \<open>auto simp: carried_def\<close>)
  then show ?thesis using k b64_inj[of raw' raw] assms(3-6) by simp
qed

text \<open>
  C40: a credential made of 32 random bytes says what it is and nothing else can be read into it: its kind is read back from its text,
  the task a grant was made for is read back from the grant and no other kind names one, and two credentials are the same text
  only where they are of one kind, for one identifier and made of the same bytes.
\<close>

theorem credentials_say_what_they_are:
  assumes "token_New k i raw = Inr clear" "length raw = 32"
  shows "KindOf clear = Some k \<and> TaskOf clear = (if k = GrantToken then Some i else None) \<and>
    (\<forall>k' i' raw'. token_New k' i' raw' = Inr clear \<longrightarrow> length raw' = 32 \<longrightarrow>
       (\<forall>b \<in> set raw. b < 256) \<longrightarrow> (\<forall>b \<in> set raw'. b < 256) \<longrightarrow> k' = k \<and> i' = i \<and> raw' = raw)"
  using kind_of_token[OF assms] task_of_token[OF assms] token_once[OF assms(1) _ assms(2)] by blast

definition sample_bytes :: "nat list" where
  "sample_bytes = replicate 31 0 @ [255]"

definition sample_grant :: string where
  "sample_grant = ''agkgrant_01J_'' @ b64 sample_bytes"

theorem credentials_say_what_they_are_witness:
  "KindOf sample_grant = Some GrantToken \<and> TaskOf sample_grant = Some ''01J''"
proof -
  have "token_New GrantToken ''01J'' sample_bytes = Inr sample_grant" by code_simp
  moreover have "length sample_bytes = 32" by (simp add: sample_bytes_def)
  ultimately show ?thesis using credentials_say_what_they_are[of GrantToken "''01J''" sample_bytes sample_grant] by simp
qed

end
