(* ===== verification/Custody.thy ===== *)
theory Custody
  imports Grants
begin

text \<open>
  Who works on a task, as a machine over the tables of \<open>Grants\<close>: redemptions, grants issued, dispatches written by decisions and moved by
  the heartbeat, by progress and by a run's ending, in any order. What was redeemed is kept beside the tables. A statement that
  would break an index of the tasks is refused, which is its transaction, and is then no step.
\<close>

definition completed :: "task_state \<Rightarrow> bool" where
  "completed s \<longleftrightarrow> task_Terminal s \<and> s \<noteq> TaskLost"

text \<open>The primary key, \<open>tasks_by_dispatch\<close> and \<open>tasks_by_idempotency_key\<close>.\<close>

definition indexed :: "dispatch_row list \<Rightarrow> bool" where
  "indexed rows \<longleftrightarrow> distinct (map (\<lambda>t. (dp_ns t, dp_id t)) rows) \<and>
     distinct (map (\<lambda>t. (dp_ns t, dp_key t, dp_requeue t)) rows) \<and>
     distinct (map (\<lambda>t. (dp_ns t, dp_key t)) (filter (\<lambda>t. dp_state t \<noteq> TaskLost) rows))"

type_synonym taken = "string \<times> string \<times> string \<times> string"

text \<open>
  A decision names no runner of a dispatch (the controller's \<open>taskOf\<close> leaves it empty), and never takes a completed dispatch back: its
  shard ended under that key, and a key never comes back to a run. The rows
  in flight move as \<open>Lost\<close>, \<open>Progress\<close>, \<open>CancelTasks\<close> and \<open>EndTasks\<close> move them, any of them to any state.
\<close>

inductive custody :: "(string \<Rightarrow> string) \<Rightarrow> grant_tables \<times> taken list \<Rightarrow> grant_tables \<times> taken list \<Rightarrow> bool" for hash where
  Redeems: "Redeem hash clear task runner now tb = Inr ((ns, row, key), tb') \<Longrightarrow>
     custody hash (tb, taken) (tb', taken @ [(ns, row, key, runner)])"
| Binds: "BindUnredeemed ns key row runner tb = Inr (holder, tb') \<Longrightarrow> custody hash (tb, taken) (tb', taken)"
| Issues: "custody hash (tb, taken) (tb\<lparr>gt_grants := gt_grants tb @ [g]\<rparr>, taken)"
| Decides: "rows = writeTask ns key requeue st silent None fresh (gt_tasks tb) \<Longrightarrow> indexed rows \<Longrightarrow>
     \<forall>t \<in> set (gt_tasks tb). dp_ns t = ns \<and> dp_key t = key \<and> dp_requeue t = requeue \<and> completed (dp_state t) \<longrightarrow> completed st \<Longrightarrow>
     custody hash (tb, taken) (tb\<lparr>gt_tasks := rows\<rparr>, taken)"
| Moves: "rows = map (\<lambda>t. if in_flight (dp_state t) \<and> P t then t\<lparr>dp_state := st\<rparr> else t) (gt_tasks tb) \<Longrightarrow> indexed rows \<Longrightarrow>
     custody hash (tb, taken) (tb\<lparr>gt_tasks := rows\<rparr>, taken)"
| Administers: "custody hash (tb, taken) (tb\<lparr>gt_runners := rs, gt_pools := ps, gt_allowed := as\<rparr>, taken)"

definition nothing_taken :: "grant_tables \<times> taken list \<Rightarrow> bool" where
  "nothing_taken s \<longleftrightarrow> gt_tasks (fst s) = [] \<and> snd s = []"

definition custody_ok :: "grant_tables \<times> taken list \<Rightarrow> bool" where
  "custody_ok s \<longleftrightarrow> indexed (gt_tasks (fst s)) \<and>
     (\<forall>(ns, row, key, runner) \<in> set (snd s). \<exists>t \<in> set (gt_tasks (fst s)).
        dp_ns t = ns \<and> dp_id t = row \<and> dp_key t = key \<and> dp_runner t = Some runner)"

section \<open>What a step leaves\<close>

text \<open>A row goes on as the same dispatch, keeps the runner it has, and once completed stays completed.\<close>

definition carries_on :: "dispatch_row \<Rightarrow> dispatch_row \<Rightarrow> bool" where
  "carries_on t t' \<longleftrightarrow> dp_ns t' = dp_ns t \<and> dp_id t' = dp_id t \<and> dp_key t' = dp_key t \<and> dp_requeue t' = dp_requeue t \<and>
     (dp_runner t \<noteq> None \<longrightarrow> dp_runner t' = dp_runner t) \<and> (completed (dp_state t) \<longrightarrow> completed (dp_state t'))"

lemma carries_on_refl [simp]: "carries_on t t"
  by (simp add: carries_on_def)

lemma carries_on_trans: "carries_on t u \<Longrightarrow> carries_on u v \<Longrightarrow> carries_on t v"
  by (auto simp: carries_on_def)

lemma indexed_same:
  assumes "indexed rows" "\<And>t. t \<in> set rows \<Longrightarrow> dp_ns (f t) = dp_ns t \<and> dp_id (f t) = dp_id t \<and> dp_key (f t) = dp_key t \<and>
    dp_requeue (f t) = dp_requeue t \<and> dp_state (f t) = dp_state t"
  shows "indexed (map f rows)"
proof -
  have m: "map g (map f rows) = map g rows" if "\<And>t. t \<in> set rows \<Longrightarrow> g (f t) = g t" for g :: "dispatch_row \<Rightarrow> 'b"
    unfolding map_map by (rule map_cong) (simp_all add: that)
  have "filter (\<lambda>t. dp_state t \<noteq> TaskLost) (map f rows) = map f (filter (\<lambda>t. dp_state t \<noteq> TaskLost) rows)"
    unfolding filter_map comp_def by (rule arg_cong[where f = "map f"], rule filter_cong) (simp_all add: assms(2))
  moreover have "map (\<lambda>t. (dp_ns t, dp_key t)) (map f (filter P rows)) = map (\<lambda>t. (dp_ns t, dp_key t)) (filter P rows)" for P
    unfolding map_map by (rule map_cong) (simp_all add: assms(2))
  moreover have "map (\<lambda>t. (dp_ns t, dp_id t)) (map f rows) = map (\<lambda>t. (dp_ns t, dp_id t)) rows"
    "map (\<lambda>t. (dp_ns t, dp_key t, dp_requeue t)) (map f rows) = map (\<lambda>t. (dp_ns t, dp_key t, dp_requeue t)) rows"
    by (rule m, simp add: assms(2))+
  ultimately show ?thesis using assms(1) unfolding indexed_def by (simp only:)
qed

lemma row_once: "indexed rows \<Longrightarrow> t \<in> set rows \<Longrightarrow> u \<in> set rows \<Longrightarrow> dp_ns t = dp_ns u \<Longrightarrow> dp_id t = dp_id u \<Longrightarrow> t = u"
  unfolding indexed_def distinct_map inj_on_def by auto

lemma key_once: "indexed rows \<Longrightarrow> t \<in> set rows \<Longrightarrow> u \<in> set rows \<Longrightarrow> dp_ns t = dp_ns u \<Longrightarrow> dp_key t = dp_key u \<Longrightarrow>
  dp_state t \<noteq> TaskLost \<Longrightarrow> dp_state u \<noteq> TaskLost \<Longrightarrow> t = u"
  unfolding indexed_def distinct_map inj_on_def by auto

lemma redeemable_row:
  assumes "redeemable hash clear task runner now tb = Inr (ns, row, key)"
  shows "\<exists>t \<in> set (gt_tasks tb). dp_ns t = ns \<and> dp_id t = row \<and> dp_key t = key \<and> \<not> task_Terminal (dp_state t) \<and>
    (dp_runner t = None \<or> dp_runner t = Some runner)"
proof -
  obtain g t where gt: "granted_row hash clear tb = Some (g, t)" using assms by (auto simp: redeemable_def split: option.splits)
  have m: "t \<in> set (gt_tasks tb) \<and> dp_ns t = tg_ns g"
    using gt by (auto simp: granted_row_def split: option.splits dest!: find_SomeD_mem)
  have "ns = tg_ns g \<and> row = dp_id t \<and> key = dp_key t \<and> \<not> task_Terminal (dp_state t) \<and> (dp_runner t = None \<or> dp_runner t = Some runner)"
    using assms gt by (auto simp: redeemable_def split: if_splits)
  then show ?thesis using m by blast
qed

text \<open>A step that changes rows one by one.\<close>

lemma custody_map:
  assumes "custody_ok (tb, taken)" "gt_tasks tb' = map f (gt_tasks tb)" "indexed (map f (gt_tasks tb))"
    and "\<And>t. t \<in> set (gt_tasks tb) \<Longrightarrow> carries_on t (f t)"
    and "\<And>x. x \<in> set added \<Longrightarrow> \<exists>t \<in> set (gt_tasks tb). dp_ns t = fst x \<and> dp_id t = fst (snd x) \<and> dp_key t = fst (snd (snd x)) \<and>
      dp_runner (f t) = Some (snd (snd (snd x)))"
  shows "custody_ok (tb', taken @ added) \<and> (\<forall>t \<in> set (gt_tasks tb). \<exists>t' \<in> set (gt_tasks tb'). carries_on t t')"
proof -
  have held: "\<exists>t \<in> set (gt_tasks tb'). dp_ns t = ns \<and> dp_id t = row \<and> dp_key t = key \<and> dp_runner t = Some runner"
    if x: "(ns, row, key, runner) \<in> set (taken @ added)" for ns row key runner
  proof (cases "(ns, row, key, runner) \<in> set added")
    case True
    then obtain t where t: "t \<in> set (gt_tasks tb)" "dp_ns t = ns" "dp_id t = row" "dp_key t = key" "dp_runner (f t) = Some runner"
      using assms(5)[of "(ns, row, key, runner)"] by auto
    then have "f t \<in> set (gt_tasks tb')" "dp_ns (f t) = ns \<and> dp_id (f t) = row \<and> dp_key (f t) = key"
      using assms(2) assms(4)[OF t(1)] by (auto simp: carries_on_def)
    then show ?thesis using t(5) by blast
  next
    case False
    then obtain t where t: "t \<in> set (gt_tasks tb)" "dp_ns t = ns" "dp_id t = row" "dp_key t = key" "dp_runner t = Some runner"
      using x assms(1) by (fastforce simp: custody_ok_def)
    then have "f t \<in> set (gt_tasks tb')" "dp_ns (f t) = ns \<and> dp_id (f t) = row \<and> dp_key (f t) = key \<and> dp_runner (f t) = Some runner"
      using assms(2) assms(4)[OF t(1)] by (auto simp: carries_on_def)
    then show ?thesis by blast
  qed
  then have "custody_ok (tb', taken @ added)" using assms(2,3) by (auto simp: custody_ok_def)
  moreover have "\<forall>t \<in> set (gt_tasks tb). \<exists>t' \<in> set (gt_tasks tb'). carries_on t t'" using assms(2,4) by auto
  ultimately show ?thesis by blast
qed

lemma redeems_step:
  assumes ok: "custody_ok (tb, taken)" and r: "Redeem hash clear task runner now tb = Inr ((ns, row, key), tb')"
  shows "custody_ok (tb', taken @ [(ns, row, key, runner)]) \<and> (\<forall>t \<in> set (gt_tasks tb). \<exists>t' \<in> set (gt_tasks tb'). carries_on t t')"
proof -
  let ?f = "\<lambda>t. if dp_ns t = ns \<and> dp_id t = row then t\<lparr>dp_runner := Some runner\<rparr> else t"
  have a: "redeemable hash clear task runner now tb = Inr (ns, row, key)" "gt_tasks tb' = map ?f (gt_tasks tb)"
    using r by (auto simp: Redeem_def)
  obtain t where t: "t \<in> set (gt_tasks tb)" "dp_ns t = ns" "dp_id t = row" "dp_key t = key" "dp_runner t = None \<or> dp_runner t = Some runner"
    using redeemable_row[OF a(1)] by blast
  have ix: "indexed (gt_tasks tb)" using ok by (simp add: custody_ok_def)
  show ?thesis
  proof (rule custody_map[OF ok a(2)])
    show "indexed (map ?f (gt_tasks tb))" by (rule indexed_same[OF ix]) simp
    show "carries_on u (?f u)" if "u \<in> set (gt_tasks tb)" for u
    proof (cases "dp_ns u = ns \<and> dp_id u = row")
      case True
      then have "u = t" using row_once[OF ix that t(1)] t by simp
      then show ?thesis using t by (auto simp: carries_on_def)
    qed (auto simp: carries_on_def)
    show "\<exists>t \<in> set (gt_tasks tb). dp_ns t = fst x \<and> dp_id t = fst (snd x) \<and> dp_key t = fst (snd (snd x)) \<and> dp_runner (?f t) = Some (snd (snd (snd x)))"
      if "x \<in> set [(ns, row, key, runner)]" for x using that t by (intro bexI[of _ t]) auto
  qed
qed

lemma binds_step:
  assumes ok: "custody_ok (tb, taken)" and b: "BindUnredeemed ns key row runner tb = Inr (holder, tb')"
  shows "custody_ok (tb', taken) \<and> (\<forall>t \<in> set (gt_tasks tb). \<exists>t' \<in> set (gt_tasks tb'). carries_on t t')"
proof -
  let ?f = "\<lambda>t. if dp_ns t = ns \<and> dp_id t = row \<and> dp_key t = key
    then t\<lparr>dp_runner := Some (case dp_runner t of None \<Rightarrow> runner | Some h \<Rightarrow> h)\<rparr> else t"
  have a: "gt_tasks tb' = map ?f (gt_tasks tb)"
    using b by (auto simp: BindUnredeemed_def Let_def split: if_splits option.splits)
  have "indexed (map ?f (gt_tasks tb))" by (rule indexed_same) (use ok in \<open>simp_all add: custody_ok_def\<close>)
  then show ?thesis using custody_map[OF ok a, of "[]"] by (auto simp: carries_on_def split: option.splits)
qed

lemma writeTask_cases:
  "writeTask ns key requeue st silent None fresh rows =
     (if list_ex (\<lambda>t. dp_ns t = ns \<and> dp_key t = key \<and> dp_requeue t = requeue) rows
      then map (\<lambda>t. if dp_ns t = ns \<and> dp_key t = key \<and> dp_requeue t = requeue then t\<lparr>dp_state := merged_state (dp_state t) st silent\<rparr> else t) rows
      else rows @ [\<lparr>dp_ns = ns, dp_id = fresh, dp_key = key, dp_requeue = requeue, dp_state = st, dp_runner = None\<rparr>])"
  by (simp add: writeTask_def Let_def)

lemma merged_completed: "completed was \<Longrightarrow> completed st \<Longrightarrow> completed (merged_state was st silent)"
  by (cases was; cases st) (simp_all add: merged_state_def completed_def in_flight_def)

lemma decides_step:
  assumes ok: "custody_ok (tb, taken)" and ix: "indexed (writeTask ns key requeue st silent None fresh (gt_tasks tb))"
    and keep: "\<forall>t \<in> set (gt_tasks tb). dp_ns t = ns \<and> dp_key t = key \<and> dp_requeue t = requeue \<and> completed (dp_state t) \<longrightarrow> completed st"
  shows "custody_ok (tb\<lparr>gt_tasks := writeTask ns key requeue st silent None fresh (gt_tasks tb)\<rparr>, taken) \<and>
    (\<forall>t \<in> set (gt_tasks tb). \<exists>t' \<in> set (writeTask ns key requeue st silent None fresh (gt_tasks tb)). carries_on t t')"
proof (cases "list_ex (\<lambda>t. dp_ns t = ns \<and> dp_key t = key \<and> dp_requeue t = requeue) (gt_tasks tb)")
  case True
  let ?f = "\<lambda>t. if dp_ns t = ns \<and> dp_key t = key \<and> dp_requeue t = requeue then t\<lparr>dp_state := merged_state (dp_state t) st silent\<rparr> else t"
  have w: "writeTask ns key requeue st silent None fresh (gt_tasks tb) = map ?f (gt_tasks tb)" using True by (simp add: writeTask_cases)
  show ?thesis
    using custody_map[OF ok _ _ _, of "tb\<lparr>gt_tasks := map ?f (gt_tasks tb)\<rparr>" ?f "[]"] ix keep merged_completed
    unfolding w by (auto simp: carries_on_def)
next
  case False
  then have "writeTask ns key requeue st silent None fresh (gt_tasks tb) =
    gt_tasks tb @ [\<lparr>dp_ns = ns, dp_id = fresh, dp_key = key, dp_requeue = requeue, dp_state = st, dp_runner = None\<rparr>]" by (simp add: writeTask_cases)
  then show ?thesis using ok ix by (fastforce simp: custody_ok_def)
qed

lemma custody_step:
  assumes "custody_ok s" "custody hash s s'"
  shows "custody_ok s' \<and> (\<forall>t \<in> set (gt_tasks (fst s)). \<exists>t' \<in> set (gt_tasks (fst s')). carries_on t t')"
  using assms(2)
proof cases
  case (Redeems clear task runner now tb ns row key tb' taken)
  then show ?thesis using redeems_step[of tb taken] assms(1) by simp
next
  case (Binds ns key row runner tb holder tb' taken)
  then show ?thesis using binds_step[of tb taken] assms(1) by simp
next
  case (Issues tb taken g)
  then have "custody_ok s'" "gt_tasks (fst s') = gt_tasks (fst s)" using assms(1) by (simp_all add: custody_ok_def)
  then show ?thesis by (metis carries_on_refl)
next
  case (Decides rows ns key requeue st silent fresh tb taken)
  then show ?thesis using decides_step[of tb taken ns key requeue st silent fresh] assms(1) by simp
next
  case (Moves rows P st tb taken)
  let ?f = "\<lambda>t. if in_flight (dp_state t) \<and> P t then t\<lparr>dp_state := st\<rparr> else t"
  have "carries_on t (?f t)" for t by (cases "dp_state t") (auto simp: carries_on_def completed_def in_flight_def)
  then show ?thesis using custody_map[of tb taken "tb\<lparr>gt_tasks := rows\<rparr>" ?f "[]"] Moves assms(1) by simp
next
  case (Administers tb taken rs ps as)
  then have "custody_ok s'" "gt_tasks (fst s') = gt_tasks (fst s)" using assms(1) by (simp_all add: custody_ok_def)
  then show ?thesis by (metis carries_on_refl)
qed

interpretation custodians: machine nothing_taken "custody hash" custody_ok for hash
proof
  show "custody_ok s" if "nothing_taken s" for s using that by (simp add: nothing_taken_def custody_ok_def indexed_def)
  show "custody_ok s'" if "custody_ok s" "custody hash s s'" for s s' using custody_step[OF that] by simp
qed

lemma rows_carry_on:
  assumes "custody_ok s" "(custody hash)\<^sup>*\<^sup>* s s'" "t \<in> set (gt_tasks (fst s))"
  shows "\<exists>t' \<in> set (gt_tasks (fst s')). carries_on t t'"
  using assms(2)
proof (induction rule: rtranclp_induct)
  case base
  then show ?case using assms(3) carries_on_refl by blast
next
  case (step u v)
  obtain t' where t': "t' \<in> set (gt_tasks (fst u))" "carries_on t t'" using step.IH by blast
  have "custody_ok u" using custodians.inv_steps[OF assms(1) step.hyps(1)] .
  then obtain t'' where "t'' \<in> set (gt_tasks (fst v))" "carries_on t' t''" using custody_step[OF _ step.hyps(2)] t'(1) by blast
  then show ?case using carries_on_trans[OF t'(2)] by blast
qed

section \<open>Nobody works twice\<close>

text \<open>
  C3: two runners never work on one task: of two redemptions of one key, however messages are delivered and in whatever order
  everything else happens, either both are of one dispatch and by one runner, or the dispatch of one of them has been declared lost.
\<close>

theorem one_runner_works_on_a_key:
  assumes "nothing_taken s" "(custody hash)\<^sup>*\<^sup>* s s'"
    and "(ns, row, key, runner) \<in> set (snd s')" "(ns, row', key, runner') \<in> set (snd s')"
  shows "row = row' \<and> runner = runner' \<or>
    (\<exists>t \<in> set (gt_tasks (fst s')). dp_ns t = ns \<and> dp_key t = key \<and> dp_id t \<in> {row, row'} \<and> dp_state t = TaskLost)"
proof -
  have ok: "custody_ok s'" by (rule custodians.inv_reachable[OF assms(1,2)])
  then have ix: "indexed (gt_tasks (fst s'))" by (simp add: custody_ok_def)
  obtain t where t: "t \<in> set (gt_tasks (fst s'))" "dp_ns t = ns" "dp_id t = row" "dp_key t = key" "dp_runner t = Some runner"
    using ok assms(3) by (fastforce simp: custody_ok_def)
  obtain u where u: "u \<in> set (gt_tasks (fst s'))" "dp_ns u = ns" "dp_id u = row'" "dp_key u = key" "dp_runner u = Some runner'"
    using ok assms(4) by (fastforce simp: custody_ok_def)
  show ?thesis
  proof (cases "dp_state t = TaskLost \<or> dp_state u = TaskLost")
    case True
    then show ?thesis using t u by blast
  next
    case False
    then have "t = u" using key_once[OF ix t(1) u(1)] t u by simp
    then show ?thesis using t u by simp
  qed
qed

text \<open>
  C4: a key that has completed is never redeemed again: once a dispatch of it has ended other than by being lost, no grant of any
  dispatch of that key redeems, in any later state, whatever runner asks.
\<close>

theorem a_completed_key_is_never_redeemed:
  assumes "nothing_taken s0" "(custody hash)\<^sup>*\<^sup>* s0 s" "t \<in> set (gt_tasks (fst s))" "completed (dp_state t)"
    and "(custody hash)\<^sup>*\<^sup>* s s'"
  shows "redeemable hash clear task runner now (fst s') \<noteq> Inr (dp_ns t, row, dp_key t)"
proof
  assume "redeemable hash clear task runner now (fst s') = Inr (dp_ns t, row, dp_key t)"
  then obtain u where u: "u \<in> set (gt_tasks (fst s'))" "dp_ns u = dp_ns t" "dp_key u = dp_key t" "\<not> task_Terminal (dp_state u)"
    using redeemable_row by blast
  have ok: "custody_ok s" by (rule custodians.inv_reachable[OF assms(1,2)])
  obtain t' where t': "t' \<in> set (gt_tasks (fst s'))" "carries_on t t'" using rows_carry_on[OF ok assms(5,3)] by blast
  have c: "completed (dp_state t')" using t'(2) assms(4) by (simp add: carries_on_def)
  have "custody_ok s'" by (rule custodians.inv_steps[OF ok assms(5)])
  then have ix: "indexed (gt_tasks (fst s'))" by (simp add: custody_ok_def)
  have "t' = u"
    by (rule key_once[OF ix t'(1) u(1)]) (use t'(2) u c in \<open>auto simp: carries_on_def completed_def\<close>)
  then show False using c u(4) by (simp add: completed_def)
qed

section \<open>A task lost and handed out again\<close>

definition grant_text :: "string \<Rightarrow> string" where
  "grant_text i = ''agkgrant_'' @ i @ ''_0123456789abcdef''"

definition dispatch :: "string \<Rightarrow> nat \<Rightarrow> task_state \<Rightarrow> string option \<Rightarrow> dispatch_row" where
  "dispatch i n st r = \<lparr>dp_ns = ''lab'', dp_id = i, dp_key = ''run/step/1'', dp_requeue = n, dp_state = st, dp_runner = r\<rparr>"

definition grant_for :: "string \<Rightarrow> int option \<Rightarrow> task_grant" where
  "grant_for i at = \<lparr>tg_ns = ''lab'', tg_task = i, tg_hash = grant_text i, tg_expires = 100, tg_redeemed = at\<rparr>"

definition ledger :: "dispatch_row list \<Rightarrow> task_grant list \<Rightarrow> grant_tables" where
  "ledger ts gs = \<lparr>gt_tasks = ts, gt_grants = gs, gt_runners = [], gt_pools = [], gt_allowed = []\<rparr>"

definition no_work :: "grant_tables \<times> taken list" where
  "no_work = (ledger [] [], [])"

definition taken_once :: "grant_tables \<times> taken list" where
  "taken_once = (ledger [dispatch ''A'' 0 TaskPending (Some ''r1'')] [grant_for ''A'' (Some 5)], [(''lab'', ''A'', ''run/step/1'', ''r1'')])"

definition taken_again :: "grant_tables \<times> taken list" where
  "taken_again =
     (ledger [dispatch ''A'' 0 TaskLost (Some ''r1''), dispatch ''B'' 1 TaskPending (Some ''r2'')] [grant_for ''A'' (Some 5), grant_for ''B'' (Some 9)],
      [(''lab'', ''A'', ''run/step/1'', ''r1''), (''lab'', ''B'', ''run/step/1'', ''r2'')])"

lemma taken_once_reached: "(custody (\<lambda>c. c))\<^sup>*\<^sup>* no_work taken_once"
proof -
  let ?w = "(ledger [dispatch ''A'' 0 TaskPending None] [], [])"
  let ?g = "(ledger [dispatch ''A'' 0 TaskPending None] [grant_for ''A'' None], [])"
  have "custody (\<lambda>c. c) no_work ?w"
    using custody.Decides[of "[dispatch ''A'' 0 TaskPending None]" "''lab''" "''run/step/1''" 0 TaskPending True "''A''" "ledger [] []" "\<lambda>c. c" "[]"]
    by (simp add: no_work_def ledger_def dispatch_def writeTask_def indexed_def)
  moreover have "custody (\<lambda>c. c) ?w ?g"
    using custody.Issues[of "\<lambda>c. c" "ledger [dispatch ''A'' 0 TaskPending None] []" "[]" "grant_for ''A'' None"] by (simp add: ledger_def)
  moreover have "Redeem (\<lambda>c. c) (grant_text ''A'') '''' ''r1'' 5 (fst ?g) = Inr ((''lab'', ''A'', ''run/step/1''), fst taken_once)" by code_simp
  then have "custody (\<lambda>c. c) ?g taken_once"
    using custody.Redeems[of "\<lambda>c. c" "grant_text ''A''" "''''" "''r1''" 5 "fst ?g" "''lab''" "''A''" "''run/step/1''" "fst taken_once" "[]"]
    by (simp add: taken_once_def)
  ultimately show ?thesis by (meson converse_rtranclp_into_rtranclp rtranclp.rtrancl_refl)
qed

lemma taken_again_reached: "(custody (\<lambda>c. c))\<^sup>*\<^sup>* no_work taken_again"
proof -
  let ?A = "dispatch ''A'' 0 TaskLost (Some ''r1'')" and ?t = "[(''lab'', ''A'', ''run/step/1'', ''r1'')]"
  let ?l = "(ledger [?A] [grant_for ''A'' (Some 5)], ?t)"
  let ?w = "(ledger [?A, dispatch ''B'' 1 TaskPending None] [grant_for ''A'' (Some 5)], ?t)"
  let ?g = "(ledger [?A, dispatch ''B'' 1 TaskPending None] [grant_for ''A'' (Some 5), grant_for ''B'' None], ?t)"
  have "custody (\<lambda>c. c) taken_once ?l"
    using custody.Moves[of "[?A]" "\<lambda>_. True" TaskLost "fst taken_once" "\<lambda>c. c" ?t]
    by (simp add: taken_once_def ledger_def dispatch_def indexed_def in_flight_def)
  moreover have "custody (\<lambda>c. c) ?l ?w"
    using custody.Decides[of "[?A, dispatch ''B'' 1 TaskPending None]" "''lab''" "''run/step/1''" 1 TaskPending True "''B''" "fst ?l" "\<lambda>c. c" ?t]
    by (simp add: ledger_def dispatch_def writeTask_def indexed_def)
  moreover have "custody (\<lambda>c. c) ?w ?g"
    using custody.Issues[of "\<lambda>c. c" "fst ?w" ?t "grant_for ''B'' None"] by (simp add: ledger_def)
  moreover have "Redeem (\<lambda>c. c) (grant_text ''B'') '''' ''r2'' 9 (fst ?g) = Inr ((''lab'', ''B'', ''run/step/1''), fst taken_again)" by code_simp
  then have "custody (\<lambda>c. c) ?g taken_again"
    using custody.Redeems[of "\<lambda>c. c" "grant_text ''B''" "''''" "''r2''" 9 "fst ?g" "''lab''" "''B''" "''run/step/1''" "fst taken_again" ?t]
    by (simp add: taken_again_def)
  ultimately show ?thesis using taken_once_reached by (meson rtranclp.rtrancl_into_rtrancl)
qed

theorem one_runner_works_on_a_key_witness:
  "(\<exists>t \<in> set (gt_tasks (fst taken_again)). dp_ns t = ''lab'' \<and> dp_key t = ''run/step/1'' \<and> dp_id t \<in> {''A'', ''B''} \<and> dp_state t = TaskLost) \<and>
   redeemable (\<lambda>c. c) (grant_text ''A'') '''' ''r1'' 9 (fst taken_again) = Inl TaskHeld"
proof
  have n: "nothing_taken no_work" by (simp add: nothing_taken_def no_work_def ledger_def)
  have m: "(''lab'', ''A'', ''run/step/1'', ''r1'') \<in> set (snd taken_again)" "(''lab'', ''B'', ''run/step/1'', ''r2'') \<in> set (snd taken_again)"
    by (simp_all add: taken_again_def)
  show "\<exists>t \<in> set (gt_tasks (fst taken_again)). dp_ns t = ''lab'' \<and> dp_key t = ''run/step/1'' \<and> dp_id t \<in> {''A'', ''B''} \<and> dp_state t = TaskLost"
    using one_runner_works_on_a_key[OF n taken_again_reached m] by simp
  show "redeemable (\<lambda>c. c) (grant_text ''A'') '''' ''r1'' 9 (fst taken_again) = Inl TaskHeld" by code_simp
qed

definition ended_once :: "grant_tables \<times> taken list" where
  "ended_once = (ledger [dispatch ''A'' 0 TaskSucceeded (Some ''r1'')] [grant_for ''A'' (Some 5)], [(''lab'', ''A'', ''run/step/1'', ''r1'')])"

theorem a_completed_key_is_never_redeemed_witness:
  "redeemable (\<lambda>c. c) (grant_text ''A'') '''' ''r1'' 9 (fst ended_once) \<noteq> Inr (''lab'', ''A'', ''run/step/1'') \<and>
   redeemable (\<lambda>c. c) (grant_text ''A'') '''' ''r1'' 9 (fst taken_once) = Inr (''lab'', ''A'', ''run/step/1'')"
proof
  let ?A = "dispatch ''A'' 0 TaskSucceeded (Some ''r1'')"
  have n: "nothing_taken no_work" by (simp add: nothing_taken_def no_work_def ledger_def)
  have "custody (\<lambda>c. c) taken_once ended_once"
    using custody.Decides[of "[?A]" "''lab''" "''run/step/1''" 0 TaskSucceeded False "''Z''" "fst taken_once" "\<lambda>c. c" "snd taken_once"]
    by (simp add: taken_once_def ended_once_def ledger_def dispatch_def writeTask_def indexed_def merged_state_def completed_def)
  then have e: "(custody (\<lambda>c. c))\<^sup>*\<^sup>* no_work ended_once" using taken_once_reached by (rule rtranclp.rtrancl_into_rtrancl[rotated])
  have "redeemable (\<lambda>c. c) (grant_text ''A'') '''' ''r1'' 9 (fst ended_once) \<noteq> Inr (dp_ns ?A, ''A'', dp_key ?A)"
    by (rule a_completed_key_is_never_redeemed[OF n e _ _ rtranclp.rtrancl_refl])
      (simp_all add: ended_once_def ledger_def dispatch_def completed_def)
  then show "redeemable (\<lambda>c. c) (grant_text ''A'') '''' ''r1'' 9 (fst ended_once) \<noteq> Inr (''lab'', ''A'', ''run/step/1'')"
    by (simp add: dispatch_def)
  show "redeemable (\<lambda>c. c) (grant_text ''A'') '''' ''r1'' 9 (fst taken_once) = Inr (''lab'', ''A'', ''run/step/1'')" by code_simp
qed

end
