(* ===== verification/Sealing.thy ===== *)
theory Sealing
  imports Cbor
begin

text \<open>
  Package \<open>secret\<close>: a value sealed in an envelope bound to the key, the namespace, the name and the write it is (\<open>seal.go\<close>), the ring of
  master keys and moving a value from one key to another (\<open>rotate.go\<close>), and where the secrets of generators and of webhooks are
  bound (\<open>totp.go\<close>, \<open>hooks.go\<close>). The cryptography is an argument: HKDF, and sealing and opening of AES-GCM. Random bytes are arguments
  of the call that draws them; a row is kept as JSON, which is left out.
\<close>

section \<open>Sealing one value\<close>

record crypto =
  cr_hkdf :: "string \<Rightarrow> string \<Rightarrow> string \<Rightarrow> nat \<Rightarrow> string"
  cr_seal :: "string \<Rightarrow> string \<Rightarrow> string \<Rightarrow> string \<Rightarrow> string"
  cr_open :: "string \<Rightarrow> string \<Rightarrow> string \<Rightarrow> string \<Rightarrow> string option"

record master =
  ma_id :: string
  ma_key :: string

record sealed =
  se_Master :: string
  se_Version :: int
  se_Salt :: string
  se_Key :: string
  se_WrapNonce :: string
  se_Value :: string
  se_Nonce :: string

text \<open>What one write draws: the data key, the salt and the two nonces.\<close>

record draws =
  dr_data :: string
  dr_salt :: string
  dr_nonce :: string
  dr_wrap :: string

datatype seal_error = NoNamespace | NotText | VersionLow int | ValueTooLong nat | ErrNotMine | VersionDisagrees int | SaltLength nat
  | WrapNonceLength nat | NonceLength nat | NotUnwrapped | NotOpened | KeyUnusable nat | NothingToBind

definition domain :: string where "domain = ''agentiik.secret.v1''"
definition saltLength :: nat where "saltLength = 32"
definition maxValue :: nat where "maxValue = 1048576"
definition KeyLength :: nat where "KeyLength = 32"

text \<open>\<open>cipher.AEAD\<close>'s \<open>NonceSize\<close>, which is GCM's standard one.\<close>

definition NonceSize :: nat where "NonceSize = 12"

definition seal_check :: "string \<Rightarrow> string \<Rightarrow> int \<Rightarrow> (seal_error, unit) result" where
  "seal_check namespace name version =
     (if namespace = '''' \<or> name = '''' then Inl NoNamespace
      else if \<not> utf8_valid namespace \<or> \<not> utf8_valid name then Inl NotText
      else if version < 1 then Inl (VersionLow version)
      else Inr ())"

definition part_bytes :: "string \<Rightarrow> string" where
  "part_bytes part = big_endian 8 (length part) @ part"

definition bind_to :: "string \<Rightarrow> string \<Rightarrow> string \<Rightarrow> int \<Rightarrow> string" where
  "bind_to master namespace name version =
     concat (map part_bytes [domain, master, namespace, name]) @ big_endian 8 (nat (version mod 2 ^ 64))"

text \<open>\<open>aes.NewCipher\<close> takes keys of three lengths; the key is what the cipher is made of.\<close>

definition gcm :: "string \<Rightarrow> (seal_error, string) result" where
  "gcm key = (if length key \<in> {16, 24, 32} then Inr key else Inl (KeyUnusable (length key)))"

definition wrapping :: "crypto \<Rightarrow> master \<Rightarrow> string \<Rightarrow> string \<Rightarrow> (seal_error, string) result" where
  "wrapping c m salt aad = gcm (cr_hkdf c (ma_key m) salt aad KeyLength)"

definition Seal :: "crypto \<Rightarrow> master \<Rightarrow> draws \<Rightarrow> string \<Rightarrow> string \<Rightarrow> int \<Rightarrow> string \<Rightarrow> (seal_error, sealed) result" where
  "Seal c m d namespace name version val =
     rbind (seal_check namespace name version) (\<lambda>_.
       if length val > maxValue then Inl (ValueTooLong (length val))
       else let aad = bind_to (ma_id m) namespace name version in
         rbind (wrapping c m (dr_salt d) aad) (\<lambda>outer.
         rbind (gcm (dr_data d)) (\<lambda>inner.
           Inr \<lparr>se_Master = ma_id m, se_Version = version, se_Salt = dr_salt d,
                se_Key = cr_seal c outer (dr_wrap d) (dr_data d) aad, se_WrapNonce = dr_wrap d,
                se_Value = cr_seal c inner (dr_nonce d) val aad, se_Nonce = dr_nonce d\<rparr>)))"

definition Open :: "crypto \<Rightarrow> master \<Rightarrow> string \<Rightarrow> string \<Rightarrow> int \<Rightarrow> sealed \<Rightarrow> (seal_error, string) result" where
  "Open c m namespace name version s =
     rbind (seal_check namespace name version) (\<lambda>_.
       if se_Master s \<noteq> ma_id m then Inl ErrNotMine
       else if se_Version s \<noteq> version then Inl (VersionDisagrees (se_Version s))
       else if length (se_Salt s) \<noteq> saltLength then Inl (SaltLength (length (se_Salt s)))
       else let aad = bind_to (ma_id m) namespace name version in
         rbind (wrapping c m (se_Salt s) aad) (\<lambda>outer.
           if length (se_WrapNonce s) \<noteq> NonceSize then Inl (WrapNonceLength (length (se_WrapNonce s)))
           else case cr_open c outer (se_WrapNonce s) (se_Key s) aad of
             None \<Rightarrow> Inl NotUnwrapped
           | Some data \<Rightarrow>
               rbind (gcm data) (\<lambda>inner.
                 if length (se_Nonce s) \<noteq> NonceSize then Inl (NonceLength (length (se_Nonce s)))
                 else case cr_open c inner (se_Nonce s) (se_Value s) aad of
                   None \<Rightarrow> Inl NotOpened
                 | Some val \<Rightarrow> Inr val)))"

section \<open>The ring of keys\<close>

record keyring =
  kr_current :: master
  kr_past :: "(string, master) gomap"

datatype ring_error = NothingToSealUnder | KeyTwice string

fun ring_past :: "string \<Rightarrow> master option list \<Rightarrow> (string, master) gomap \<Rightarrow> (ring_error, (string, master) gomap) result" where
  "ring_past current [] held = Inr held"
| "ring_past current (None # past) held = ring_past current past held"
| "ring_past current (Some m # past) held =
     (if ma_id m = current then Inl (KeyTwice (ma_id m))
      else if has_key held (ma_id m) then Inl (KeyTwice (ma_id m))
      else ring_past current past (AList.update (ma_id m) m held))"

definition NewKeyring :: "master option \<Rightarrow> master option list \<Rightarrow> (ring_error, keyring) result" where
  "NewKeyring current past =
     (case current of
        None \<Rightarrow> Inl NothingToSealUnder
      | Some m \<Rightarrow> rbind (ring_past (ma_id m) past []) (\<lambda>held. Inr \<lparr>kr_current = m, kr_past = held\<rparr>))"

definition keyFor :: "keyring \<Rightarrow> sealed \<Rightarrow> (seal_error, master) result" where
  "keyFor k s =
     (if se_Master s = ma_id (kr_current k) then Inr (kr_current k)
      else case map_of (kr_past k) (se_Master s) of None \<Rightarrow> Inl ErrNotMine | Some m \<Rightarrow> Inr m)"

definition ring_Seal :: "crypto \<Rightarrow> keyring \<Rightarrow> draws \<Rightarrow> string \<Rightarrow> string \<Rightarrow> int \<Rightarrow> string \<Rightarrow> (seal_error, sealed) result" where
  "ring_Seal c k = Seal c (kr_current k)"

definition ring_Open :: "crypto \<Rightarrow> keyring \<Rightarrow> string \<Rightarrow> string \<Rightarrow> int \<Rightarrow> sealed \<Rightarrow> (seal_error, string) result" where
  "ring_Open c k namespace name version s = rbind (keyFor k s) (\<lambda>m. Open c m namespace name version s)"

definition Reseal :: "crypto \<Rightarrow> keyring \<Rightarrow> draws \<Rightarrow> string \<Rightarrow> string \<Rightarrow> int \<Rightarrow> sealed \<Rightarrow> (seal_error, sealed \<times> bool) result" where
  "Reseal c k d namespace name version s =
     (if se_Master s = ma_id (kr_current k) then Inr (s, False)
      else rbind (keyFor k s) (\<lambda>m.
        rbind (Open c m namespace name version s) (\<lambda>val.
        rbind (Seal c (kr_current k) d namespace name version val) (\<lambda>next. Inr (next, True)))))"

definition Retirable :: "keyring \<Rightarrow> string list \<Rightarrow> bool \<times> string list" where
  "Retirable k held = (let left = filter (\<lambda>i. i \<noteq> ma_id (kr_current k)) held in (length left = 0, left))"

section \<open>Generators and webhooks\<close>

definition totpNamespace :: string where "totpNamespace = ''totp:''"
definition totpVersion :: int where "totpVersion = 1"
definition hookNamespace :: string where "hookNamespace = ''webhook:''"

definition SealTOTP :: "crypto \<Rightarrow> keyring \<Rightarrow> draws \<Rightarrow> string \<Rightarrow> string \<Rightarrow> string \<Rightarrow> (seal_error, sealed) result" where
  "SealTOTP c k d login i secret =
     (if login = '''' \<or> i = '''' then Inl NothingToBind
      else ring_Seal c k d (totpNamespace @ login) i totpVersion secret)"

definition OpenTOTP :: "crypto \<Rightarrow> keyring \<Rightarrow> string \<Rightarrow> string \<Rightarrow> sealed \<Rightarrow> (seal_error, string) result" where
  "OpenTOTP c k login i s =
     (if login = '''' \<or> i = '''' then Inl NothingToBind
      else ring_Open c k (totpNamespace @ login) i totpVersion s)"

definition SealHook :: "crypto \<Rightarrow> keyring \<Rightarrow> draws \<Rightarrow> string \<Rightarrow> string \<Rightarrow> string \<Rightarrow> int \<Rightarrow> string \<Rightarrow> (seal_error, sealed) result" where
  "SealHook c k d namespace method path version secret =
     (if namespace = '''' \<or> method = '''' \<or> path = '''' then Inl NothingToBind
      else ring_Seal c k d (hookNamespace @ namespace) (method @ '' '' @ path) version secret)"

definition OpenHook :: "crypto \<Rightarrow> keyring \<Rightarrow> string \<Rightarrow> string \<Rightarrow> string \<Rightarrow> int \<Rightarrow> sealed \<Rightarrow> (seal_error, string) result" where
  "OpenHook c k namespace method path version s =
     (if namespace = '''' \<or> method = '''' \<or> path = '''' then Inl NothingToBind
      else ring_Open c k (hookNamespace @ namespace) (method @ '' '' @ path) version s)"

section \<open>A binding names one place\<close>

lemma part_bytes_first:
  assumes "part_bytes p @ r = part_bytes q @ s" "length p < 2 ^ 64" "length q < 2 ^ 64"
  shows "p = q \<and> r = s"
proof -
  have "big_endian 8 (length p) = big_endian 8 (length q)" "p @ r = q @ s"
    using assms(1) unfolding part_bytes_def append_assoc by (simp_all add: append_eq_append_conv)
  moreover from this(1) have "length p = length q" by (rule big_endian_inj) (use assms(2,3) in simp_all)
  ultimately show ?thesis by (simp add: append_eq_append_conv)
qed

lemma bind_to_inj:
  assumes "bind_to m ns n v = bind_to m' ns' n' v'" "length m < 2 ^ 64" "length ns < 2 ^ 64" "length n < 2 ^ 64"
    and "length m' < 2 ^ 64" "length ns' < 2 ^ 64" "length n' < 2 ^ 64" "0 \<le> v" "v \<le> max_int64" "0 \<le> v'" "v' \<le> max_int64"
  shows "m = m' \<and> ns = ns' \<and> n = n' \<and> v = v'"
proof -
  have "part_bytes domain @ part_bytes m @ part_bytes ns @ part_bytes n @ big_endian 8 (nat (v mod 2 ^ 64)) =
    part_bytes domain @ part_bytes m' @ part_bytes ns' @ part_bytes n' @ big_endian 8 (nat (v' mod 2 ^ 64))"
    using assms(1) by (simp add: bind_to_def)
  then have "part_bytes m @ part_bytes ns @ part_bytes n @ big_endian 8 (nat (v mod 2 ^ 64)) =
    part_bytes m' @ part_bytes ns' @ part_bytes n' @ big_endian 8 (nat (v' mod 2 ^ 64))" by (simp only: same_append_eq)
  note a = part_bytes_first[OF this assms(2,5)]
  note b = part_bytes_first[OF conjunct2[OF a] assms(3,6)]
  note e = part_bytes_first[OF conjunct2[OF b] assms(4,7)]
  have small: "x mod 2 ^ 64 = x" if "0 \<le> x" "x \<le> max_int64" for x :: int
    using that by (intro mod_pos_pos_trivial) (simp_all add: max_int64_def)
  have "nat v = nat v'"
    by (rule big_endian_inj[of 8])
      (use conjunct2[OF e] assms(8-11) in \<open>simp_all add: small, simp_all add: max_int64_def\<close>)
  then show ?thesis using a b e assms(8,10) by simp
qed

lemma seal_check_Inr [simp]:
  "seal_check ns n v = Inr u \<longleftrightarrow> ns \<noteq> [] \<and> n \<noteq> [] \<and> utf8_valid ns \<and> utf8_valid n \<and> 1 \<le> v"
  by (auto simp: seal_check_def)

lemma gcm_Inr [simp]: "gcm k = Inr k' \<longleftrightarrow> k' = k \<and> length k \<in> {16, 24, 32}"
  by (auto simp: gcm_def)

lemma Seal_Inr:
  "Seal c m d ns n v val = Inr s \<longleftrightarrow>
     seal_check ns n v = Inr () \<and> length val \<le> maxValue \<and>
     (let aad = bind_to (ma_id m) ns n v; outer = cr_hkdf c (ma_key m) (dr_salt d) aad KeyLength in
      length outer \<in> {16, 24, 32} \<and> length (dr_data d) \<in> {16, 24, 32} \<and>
      s = \<lparr>se_Master = ma_id m, se_Version = v, se_Salt = dr_salt d, se_Key = cr_seal c outer (dr_wrap d) (dr_data d) aad,
           se_WrapNonce = dr_wrap d, se_Value = cr_seal c (dr_data d) (dr_nonce d) val aad, se_Nonce = dr_nonce d\<rparr>)"
  by (auto simp: Seal_def wrapping_def Let_def)

lemma Open_Inr:
  "Open c m ns n v s = Inr val \<longleftrightarrow>
     seal_check ns n v = Inr () \<and> se_Master s = ma_id m \<and> se_Version s = v \<and> length (se_Salt s) = saltLength \<and>
     length (se_WrapNonce s) = NonceSize \<and> length (se_Nonce s) = NonceSize \<and>
     (let aad = bind_to (ma_id m) ns n v; outer = cr_hkdf c (ma_key m) (se_Salt s) aad KeyLength in
      length outer \<in> {16, 24, 32} \<and>
      (\<exists>data. cr_open c outer (se_WrapNonce s) (se_Key s) aad = Some data \<and> length data \<in> {16, 24, 32} \<and>
              cr_open c data (se_Nonce s) (se_Value s) aad = Some val))"
  by (auto simp: Open_def wrapping_def Let_def split: option.splits if_splits)

text \<open>
  C18: a value opens only where it was sealed. Whatever else is changed in a row, its salt, its version, its master key's name and its
  ciphertext, the wrapped key of one write opens at no other namespace, name, version or master key, unless the cipher opens what
  was sealed under one additional data under another: then it is that ciphertext, under the keys the two places derive.
\<close>

theorem values_open_only_where_sealed:
  assumes "Seal c m d ns n v val = Inr s" "Open c m' ns' n' v' s' = Inr val'" "se_Key s' = se_Key s" "se_WrapNonce s' = se_WrapNonce s"
    and "length (ma_id m) < 2 ^ 64" "length ns < 2 ^ 64" "length n < 2 ^ 64" "length (ma_id m') < 2 ^ 64" "length ns' < 2 ^ 64"
    and "length n' < 2 ^ 64" "v \<le> max_int64" "v' \<le> max_int64"
  shows "ma_id m' = ma_id m \<and> ns' = ns \<and> n' = n \<and> v' = v \<or>
    (let aad = bind_to (ma_id m) ns n v; aad' = bind_to (ma_id m') ns' n' v' in aad' \<noteq> aad \<and>
       cr_open c (cr_hkdf c (ma_key m') (se_Salt s') aad' KeyLength) (dr_wrap d)
         (cr_seal c (cr_hkdf c (ma_key m) (dr_salt d) aad KeyLength) (dr_wrap d) (dr_data d) aad) aad' \<noteq> None)"
proof (cases "bind_to (ma_id m') ns' n' v' = bind_to (ma_id m) ns n v")
  case True
  have "0 \<le> v" "0 \<le> v'" using assms(1,2) by (simp_all add: Seal_Inr Open_Inr)
  then show ?thesis using bind_to_inj[OF True assms(8-10,5-7) _ assms(12) _ assms(11)] by blast
next
  case False
  then show ?thesis using assms(1-4) by (auto simp: Seal_Inr Open_Inr Let_def)
qed

section \<open>Moving from one key to another\<close>

text \<open>What the cryptography is documented to do: what was sealed opens, and as many bytes are derived as were asked for.\<close>

definition crypto_laws :: "crypto \<Rightarrow> bool" where
  "crypto_laws c \<longleftrightarrow> (\<forall>k n p a. cr_open c k n (cr_seal c k n p a) a = Some p) \<and> (\<forall>k s i n. length (cr_hkdf c k s i n) = n)"

definition drawn :: "draws \<Rightarrow> bool" where
  "drawn d \<longleftrightarrow> length (dr_data d) = KeyLength \<and> length (dr_salt d) = saltLength \<and> length (dr_nonce d) = NonceSize \<and> length (dr_wrap d) = NonceSize"

lemma Seal_opens:
  assumes "crypto_laws c" "drawn d" "seal_check ns n v = Inr ()" "length val \<le> maxValue"
  shows "\<exists>s. Seal c m d ns n v val = Inr s \<and> Open c m ns n v s = Inr val \<and> se_Master s = ma_id m"
  using assms by (simp add: Seal_Inr Open_Inr Let_def crypto_laws_def drawn_def KeyLength_def)

type_synonym row_at = "(string \<times> string \<times> int) \<times> sealed"

definition reseal_row :: "crypto \<Rightarrow> keyring \<Rightarrow> draws \<times> row_at \<Rightarrow> (seal_error, row_at \<times> bool) result" where
  "reseal_row c k = (\<lambda>(d, ((ns, n, v), s)). rbind (Reseal c k d ns n v s) (\<lambda>(s', moved). Inr (((ns, n, v), s'), moved)))"

definition opened :: "crypto \<Rightarrow> keyring \<Rightarrow> row_at \<Rightarrow> (seal_error, string) result" where
  "opened c k = (\<lambda>((ns, n, v), s). ring_Open c k ns n v s)"

definition only_current :: "keyring \<Rightarrow> keyring" where
  "only_current k = k\<lparr>kr_past := []\<rparr>"

lemma reseal_row_opens:
  assumes "crypto_laws c" "drawn d" "opened c k r = Inr val" "length val \<le> maxValue"
  shows "\<exists>r' moved. reseal_row c k (d, r) = Inr (r', moved) \<and> fst r' = fst r \<and> se_Master (snd r') = ma_id (kr_current k) \<and>
    opened c (only_current k) r' = Inr val \<and> (moved \<longleftrightarrow> se_Master (snd r) \<noteq> ma_id (kr_current k)) \<and> (\<not> moved \<longrightarrow> r' = r)"
proof -
  obtain ns n v s where r: "r = ((ns, n, v), s)" by (cases r) auto
  have o: "ring_Open c k ns n v s = Inr val" using assms(3) by (simp add: opened_def r)
  show ?thesis
  proof (cases "se_Master s = ma_id (kr_current k)")
    case True
    then have "reseal_row c k (d, r) = Inr (r, False)" "opened c (only_current k) r = Inr val"
      using o by (simp_all add: r reseal_row_def Reseal_def opened_def ring_Open_def keyFor_def only_current_def)
    then show ?thesis using True by (intro exI[of _ r] exI[of _ False]) (simp add: r)
  next
    case False
    obtain m where m: "keyFor k s = Inr m" "Open c m ns n v s = Inr val" using o by (auto simp: ring_Open_def)
    then have "seal_check ns n v = Inr ()" by (simp add: Open_Inr)
    then obtain s' where "Seal c (kr_current k) d ns n v val = Inr s'" "Open c (kr_current k) ns n v s' = Inr val" "se_Master s' = ma_id (kr_current k)"
      using Seal_opens[OF assms(1,2) _ assms(4)] by blast
    then have "reseal_row c k (d, r) = Inr (((ns, n, v), s'), True)" "opened c (only_current k) ((ns, n, v), s') = Inr val"
      "se_Master s' = ma_id (kr_current k)"
      using m False by (simp_all add: r reseal_row_def Reseal_def opened_def ring_Open_def only_current_def) (simp add: keyFor_def)
    then show ?thesis using False by (intro exI[of _ "((ns, n, v), s')"] exI[of _ True]) (simp add: r)
  qed
qed

lemma rall_over:
  assumes "\<And>x. x \<in> set xs \<Longrightarrow> \<exists>y. f x = Inr y \<and> P x y"
  shows "\<exists>ys. rall f xs = Inr ys \<and> list_all2 P xs ys"
  using assms
proof (induction xs)
  case (Cons x xs)
  obtain y where "f x = Inr y" "P x y" using Cons.prems[of x] by auto
  moreover obtain ys where "rall f xs = Inr ys" "list_all2 P xs ys" using Cons.IH Cons.prems by auto
  ultimately show ?case by simp
qed simp

lemma resealed_row_rests:
  "se_Master (snd r) = ma_id (kr_current k) \<Longrightarrow> reseal_row c k (d, r) = Inr (r, False)"
  by (cases r) (auto simp: reseal_row_def Reseal_def)

text \<open>
  C19: moving a store to the current key loses nothing and ends: where every value opens, a sweep of the rows moves each of them, every
  value then opens as what it was under a ring that holds the current key alone, the store holds the names of no other key, and a
  second sweep leaves every row as it is.
\<close>

theorem a_swept_store_needs_one_key:
  assumes "crypto_laws c" "\<forall>d \<in> set ds. drawn d" "length ds = length rows"
    and "\<forall>r \<in> set rows. \<exists>val. opened c k r = Inr val \<and> length val \<le> maxValue"
  shows "\<exists>swept. rall (reseal_row c k) (zip ds rows) = Inr swept \<and>
    map (opened c (only_current k)) (map fst swept) = map (opened c k) rows \<and> map (fst \<circ> fst) swept = map fst rows \<and>
    Retirable k (map (se_Master \<circ> snd \<circ> fst) swept) = (True, []) \<and>
    (\<forall>ds'. length ds' = length rows \<longrightarrow> rall (reseal_row c k) (zip ds' (map fst swept)) = Inr (map (\<lambda>r. (fst r, False)) swept))"
proof -
  let ?P = "\<lambda>x y. opened c (only_current k) (fst y) = opened c k (snd x) \<and> fst (fst y) = fst (snd x) \<and>
    se_Master (snd (fst y)) = ma_id (kr_current k)"
  have "\<exists>y. reseal_row c k x = Inr y \<and> ?P x y" if x: "x \<in> set (zip ds rows)" for x
  proof -
    obtain d r where e: "x = (d, r)" by (rule prod.exhaust)
    then have dr: "d \<in> set ds" "r \<in> set rows" using set_zip_leftD set_zip_rightD x by fast+
    obtain val where "opened c k r = Inr val" "length val \<le> maxValue" using assms(4) dr(2) by blast
    then show ?thesis using reseal_row_opens[OF assms(1), of d k r val] assms(2) dr unfolding e by fastforce
  qed
  then obtain swept where s: "rall (reseal_row c k) (zip ds rows) = Inr swept" "list_all2 ?P (zip ds rows) swept"
    using rall_over[of "zip ds rows" "reseal_row c k" ?P] by blast
  have l: "length swept = length rows" using list_all2_lengthD[OF s(2)] assms(3) by simp
  have at: "?P (ds ! i, rows ! i) (swept ! i)" if "i < length rows" for i
    using list_all2_nthD[OF s(2), of i] that assms(3) by simp
  have "map (opened c (only_current k)) (map fst swept) = map (opened c k) rows" "map (fst \<circ> fst) swept = map fst rows"
    by (rule nth_equalityI; use l at in simp)+
  moreover have cur: "se_Master (snd (fst y)) = ma_id (kr_current k)" if "y \<in> set swept" for y
    using that at l by (auto simp: in_set_conv_nth)
  then have "Retirable k (map (se_Master \<circ> snd \<circ> fst) swept) = (True, [])" by (simp add: Retirable_def Let_def filter_empty_conv)
  moreover have "rall (reseal_row c k) (zip ds' (map fst swept)) = Inr (map (\<lambda>r. (fst r, False)) swept)" if "length ds' = length rows" for ds'
  proof -
    have "length ds' = length swept" using that l by simp
    then show ?thesis using cur
    proof (induction ds' swept rule: list_induct2)
      case (Cons d ds y ys)
      then show ?case using resealed_row_rests[of "fst y" k c d] by simp
    qed simp
  qed
  ultimately show ?thesis using s(1) by blast
qed

section \<open>A value moved, and a row copied elsewhere\<close>

text \<open>A cipher that keeps what it seals beside what it authenticates, which is enough for the laws.\<close>

definition clear_crypto :: crypto where
  "clear_crypto = \<lparr>cr_hkdf = (\<lambda>k s i n. replicate n (CHR ''k'')), cr_seal = (\<lambda>k n p a. a @ p),
     cr_open = (\<lambda>k n s a. if take (length a) s = a then Some (drop (length a) s) else None)\<rparr>"

lemma clear_crypto_laws: "crypto_laws clear_crypto"
  by (simp add: crypto_laws_def clear_crypto_def)

definition plain_draws :: draws where
  "plain_draws = \<lparr>dr_data = replicate 32 (CHR ''d''), dr_salt = replicate 32 (CHR ''s''), dr_nonce = replicate 12 (CHR ''n''),
     dr_wrap = replicate 12 (CHR ''w'')\<rparr>"

definition key_2025 :: master where "key_2025 = \<lparr>ma_id = ''2025'', ma_key = replicate 32 (CHR ''a'')\<rparr>"
definition key_2026 :: master where "key_2026 = \<lparr>ma_id = ''2026'', ma_key = replicate 32 (CHR ''b'')\<rparr>"

definition two_keys :: keyring where "two_keys = \<lparr>kr_current = key_2026, kr_past = [(''2025'', key_2025)]\<rparr>"

definition kept_row :: sealed where
  "kept_row = \<lparr>se_Master = ''2025'', se_Version = 1, se_Salt = replicate 32 (CHR ''s''),
     se_Key = bind_to ''2025'' ''lab'' ''token'' 1 @ replicate 32 (CHR ''d''), se_WrapNonce = replicate 12 (CHR ''w''),
     se_Value = bind_to ''2025'' ''lab'' ''token'' 1 @ ''hunter2'', se_Nonce = replicate 12 (CHR ''n'')\<rparr>"

lemma written_text [simp]: "utf8_valid ''lab''" "utf8_valid ''token''" "utf8_valid ''other''"
  by code_simp+

lemma kept_row_sealed: "Seal clear_crypto key_2025 plain_draws ''lab'' ''token'' 1 ''hunter2'' = Inr kept_row"
  by (simp add: Seal_Inr Let_def kept_row_def key_2025_def plain_draws_def clear_crypto_def KeyLength_def maxValue_def del: utf8_valid.simps)

lemma kept_row_opens: "Open clear_crypto key_2025 ''lab'' ''token'' 1 kept_row = Inr ''hunter2''"
  by code_simp

lemma key_ids [simp]: "ma_id key_2025 = ''2025''" "ma_id key_2026 = ''2026''"
  by (simp_all add: key_2025_def key_2026_def)

theorem a_swept_store_needs_one_key_witness:
  "\<exists>r. opened clear_crypto (only_current two_keys) ((''lab'', ''token'', 1), r) = Inr ''hunter2'' \<and>
     opened clear_crypto (only_current two_keys) ((''lab'', ''token'', 1), kept_row) = Inl ErrNotMine"
proof -
  let ?rows = "[((''lab'', ''token'', 1), kept_row)]"
  have o: "opened clear_crypto two_keys ((''lab'', ''token'', 1), kept_row) = Inr ''hunter2''"
    using kept_row_opens by (simp add: opened_def ring_Open_def keyFor_def two_keys_def kept_row_def)
  have "drawn plain_draws" by (simp add: drawn_def plain_draws_def KeyLength_def saltLength_def NonceSize_def)
  then have d: "\<forall>d \<in> set [plain_draws]. drawn d" by simp
  have v: "\<forall>r \<in> set ?rows. \<exists>val. opened clear_crypto two_keys r = Inr val \<and> length val \<le> maxValue" using o by (simp add: maxValue_def)
  have l: "length [plain_draws] = length ?rows" by simp
  obtain swept :: "(row_at \<times> bool) list" where w: "map (opened clear_crypto (only_current two_keys)) (map fst swept) = map (opened clear_crypto two_keys) ?rows"
    "map (fst \<circ> fst) swept = map fst ?rows"
    using a_swept_store_needs_one_key[OF clear_crypto_laws d l v] by (elim exE conjE) (rule that)
  have "length swept = 1" using arg_cong[OF w(2), of length] by simp
  then obtain y where "swept = [y]" by (auto simp: length_Suc_conv)
  then have "opened clear_crypto (only_current two_keys) (fst y) = Inr ''hunter2''" "fst (fst y) = (''lab'', ''token'', 1)" using w o by simp_all
  then have "opened clear_crypto (only_current two_keys) ((''lab'', ''token'', 1), snd (fst y)) = Inr ''hunter2''" by (metis prod.collapse)
  moreover have "opened clear_crypto (only_current two_keys) ((''lab'', ''token'', 1), kept_row) = Inl ErrNotMine"
    by (simp add: opened_def ring_Open_def keyFor_def only_current_def two_keys_def kept_row_def)
  ultimately show ?thesis by blast
qed

text \<open>A cipher that authenticates nothing opens a row anywhere, and then it is its own doing.\<close>

definition careless_crypto :: crypto where
  "careless_crypto = \<lparr>cr_hkdf = (\<lambda>k s i n. replicate n (CHR ''k'')), cr_seal = (\<lambda>k n p a. p), cr_open = (\<lambda>k n s a. Some s)\<rparr>"

definition bare_row :: sealed where
  "bare_row = \<lparr>se_Master = ''2025'', se_Version = 1, se_Salt = replicate 32 (CHR ''s''), se_Key = replicate 32 (CHR ''d''),
     se_WrapNonce = replicate 12 (CHR ''w''), se_Value = ''hunter2'', se_Nonce = replicate 12 (CHR ''n'')\<rparr>"

theorem values_open_only_where_sealed_witness:
  "Open careless_crypto key_2025 ''lab'' ''other'' 1 bare_row = Inr ''hunter2'' \<and>
   bind_to ''2025'' ''lab'' ''other'' 1 \<noteq> bind_to ''2025'' ''lab'' ''token'' 1 \<and>
   Open clear_crypto key_2025 ''lab'' ''other'' 1 kept_row = Inl NotUnwrapped"
proof (intro conjI)
  have s: "Seal careless_crypto key_2025 plain_draws ''lab'' ''token'' 1 ''hunter2'' = Inr bare_row"
    by (simp add: Seal_Inr Let_def bare_row_def key_2025_def plain_draws_def careless_crypto_def KeyLength_def maxValue_def del: utf8_valid.simps)
  show o: "Open careless_crypto key_2025 ''lab'' ''other'' 1 bare_row = Inr ''hunter2''"
    by code_simp
  show "bind_to ''2025'' ''lab'' ''other'' 1 \<noteq> bind_to ''2025'' ''lab'' ''token'' 1"
    using values_open_only_where_sealed[OF s o] by (simp add: Let_def max_int64_def)
  show "Open clear_crypto key_2025 ''lab'' ''other'' 1 kept_row = Inl NotUnwrapped" by code_simp
qed

end
