(* ===== verification/Endings.thy ===== *)
theory Endings
  imports Envelope Bytes
begin

text \<open>
  What a runner says of a task that ended and what its host writes down: the address of a log (\<open>agk/log.go\<close>), a result with the rules it is held
  to (\<open>bus/wire.go\<close>), the record of the keys a host took and ended (\<open>driver/record.go\<close>), the results kept until the bus has taken them
  (\<open>runner/pending.go\<close>) and the report made from the record by the agent that comes back (\<open>runner/result.go\<close>). A file holds the value it is
  the JSON of; a write answers what became of it, and a removal may fail. A usage's seconds are a number whose sign is read.
\<close>

section \<open>Where a log is\<close>

definition logPrefix :: string where "logPrefix = ''agk://log/''"

record log_uri =
  lu_Run :: string
  lu_Task :: string

text \<open>\<open>url.PathEscape\<close> and \<open>url.PathUnescape\<close>.\<close>

definition path_plain :: "char \<Rightarrow> bool" where
  "path_plain c = (is_alnum c \<or> c \<in> set ''-_.~$&+:=@'')"

definition upper_hex :: "nat \<Rightarrow> char" where
  "upper_hex n = ''0123456789ABCDEF'' ! n"

definition path_escape :: "string \<Rightarrow> string" where
  "path_escape s = concat (map (\<lambda>c. if path_plain c then [c] else [CHR ''%'', upper_hex (byte c div 16), upper_hex (byte c mod 16)]) s)"

definition hex_value :: "char \<Rightarrow> nat option" where
  "hex_value c = (let n = byte c in
     if 48 \<le> n \<and> n \<le> 57 then Some (n - 48) else if 97 \<le> n \<and> n \<le> 102 then Some (n - 87)
     else if 65 \<le> n \<and> n \<le> 70 then Some (n - 55) else None)"

fun path_unescape :: "string \<Rightarrow> string option" where
  "path_unescape [] = Some []"
| "path_unescape (c # s) =
     (if c \<noteq> CHR ''%'' then map_option (\<lambda>r. c # r) (path_unescape s)
      else case s of
        a # b # r \<Rightarrow>
          (case (hex_value a, hex_value b) of
             (Some x, Some y) \<Rightarrow> map_option (\<lambda>t. char_of (x * 16 + y) # t) (path_unescape r)
           | _ \<Rightarrow> None)
      | _ \<Rightarrow> None)"

definition LogURI_String :: "log_uri \<Rightarrow> string" where
  "LogURI_String l = logPrefix @ lu_Run l @ ''/'' @ path_escape (lu_Task l)"

definition ParseLogURI :: "string \<Rightarrow> (parse_error, log_uri) result" where
  "ParseLogURI s =
     (case cut_prefix s logPrefix of
        None \<Rightarrow> Inl NotURI
      | Some rest \<Rightarrow>
          (case cut_at CHR ''/'' rest of
             None \<Rightarrow> Inl NotURIForm
           | Some (run, escaped) \<Rightarrow>
               if escaped = '''' then Inl NotURIForm
               else case path_unescape escaped of
                      None \<Rightarrow> Inl NotURIForm
                    | Some task \<Rightarrow>
                        rbind (named (RunID_Validate run)) (\<lambda>_.
                          case TaskID_Validate task of
                            Some e \<Rightarrow> Inl e
                          | None \<Rightarrow>
                              (case ParseTaskID task of
                                 Inr (theRun, _) \<Rightarrow> if theRun \<noteq> run then Inl NotURIForm else Inr \<lparr>lu_Run = run, lu_Task = task\<rparr>
                               | Inl _ \<Rightarrow> Inr \<lparr>lu_Run = run, lu_Task = task\<rparr>))))"

definition NewLogURI :: "string \<Rightarrow> (parse_error, log_uri) result" where
  "NewLogURI task = rbind (ParseTaskID task) (\<lambda>(run, _). Inr \<lparr>lu_Run = run, lu_Task = task\<rparr>)"

section \<open>Results\<close>

record wire_output =
  wo_Port :: string
  wo_Digest :: string
  wo_Items :: int

record wire_artifact =
  wa_SHA256 :: string
  wa_Bytes :: int

record wire_log =
  wl_URI :: string
  wl_Lines :: int
  wl_Truncated :: bool

record wire_usage =
  wu_CPUSeconds :: "int option"
  wu_MaxRSSBytes :: "int option"
  wu_ImagePullMS :: int

record task_result =
  tr_TaskID :: string
  tr_Key :: string
  tr_Runner :: string
  tr_State :: task_state
  tr_ExitCode :: "int option"
  tr_StartedAt :: time
  tr_FinishedAt :: time
  tr_Outputs :: "wire_output list option"
  tr_Artifacts :: "wire_artifact list option"
  tr_Log :: "wire_log option"
  tr_Usage :: "wire_usage option"

datatype result_error = NotULID | BadKey parse_error | BadRunner | NotAnEnding | NoStart | ExitRange int | ExitNoInstant | RanNoExit
  | SuccessNotZero | SuccessNoPorts | LostOutcome | BadPort name_error | PortTwice string | BadDigest string | BadCount int
  | BadArtifact | BadLog parse_error | LogOfRun string | BadLines int | HalfUsage | NegativeUsage

definition isULID :: "string \<Rightarrow> bool" where
  "isULID s = (s \<noteq> '''' \<and> list_all (\<lambda>c. (48 \<le> byte c \<and> byte c \<le> 57) \<or> (65 \<le> byte c \<and> byte c \<le> 90 \<and> c \<notin> set ''ILOU'')) s)"

text \<open>\<open>runnerName\<close>: words of lower case letters and digits joined by hyphens.\<close>

definition runner_word :: "string \<Rightarrow> bool" where
  "runner_word w = (w \<noteq> '''' \<and> list_all (\<lambda>c. (97 \<le> byte c \<and> byte c \<le> 122) \<or> (48 \<le> byte c \<and> byte c \<le> 57)) w)"

definition validRunner :: "string \<Rightarrow> bool" where
  "validRunner r = list_all runner_word (split_on CHR ''-'' r)"

definition hexOf :: "string \<Rightarrow> string option" where
  "hexOf d = (case cut_prefix d ''sha256:'' of None \<Rightarrow> None | Some h \<Rightarrow> if digest h then Some h else None)"

fun outputs_check :: "wire_output list \<Rightarrow> string list \<Rightarrow> result_error option" where
  "outputs_check [] seen = None"
| "outputs_check (u # r) seen =
     (case agk_identifier (wo_Port u) of
        Some e \<Rightarrow> Some (BadPort e)
      | None \<Rightarrow>
          if wo_Port u \<in> set seen then Some (PortTwice (wo_Port u))
          else if hexOf (wo_Digest u) = None then Some (BadDigest (wo_Digest u))
          else if wo_Items u < 0 then Some (BadCount (wo_Items u))
          else outputs_check r (wo_Port u # seen))"

definition log_check :: "string \<Rightarrow> wire_log \<Rightarrow> result_error option" where
  "log_check key l =
     (case ParseLogURI (wl_URI l) of
        Inl e \<Rightarrow> Some (BadLog e)
      | Inr u \<Rightarrow>
          if (case ParseTaskID key of Inr (run, _) \<Rightarrow> lu_Run u \<noteq> run | Inl _ \<Rightarrow> False) then Some (LogOfRun (lu_Run u))
          else if wl_Lines l < 0 then Some (BadLines (wl_Lines l))
          else None)"

definition usage_check :: "wire_usage \<Rightarrow> result_error option" where
  "usage_check u =
     (if (wu_CPUSeconds u = None) \<noteq> (wu_MaxRSSBytes u = None) then Some HalfUsage
      else if wu_CPUSeconds u \<noteq> None \<and> (the (wu_CPUSeconds u) < 0 \<or> the (wu_MaxRSSBytes u) < 0) \<or> wu_ImagePullMS u < 0 then Some NegativeUsage
      else None)"

definition describes_container :: "task_result \<Rightarrow> bool" where
  "describes_container r =
     (tr_ExitCode r \<noteq> None \<or> tr_FinishedAt r \<noteq> zero_time \<or> tr_Outputs r \<noteq> None \<or> tr_Artifacts r \<noteq> None \<or> tr_Usage r \<noteq> None)"

definition container_check :: "task_result \<Rightarrow> result_error option" where
  "container_check r =
     (let ran = tr_StartedAt r \<noteq> zero_time; finished = tr_FinishedAt r \<noteq> zero_time in
      if describes_container r \<and> \<not> ran then Some NoStart
      else if tr_ExitCode r \<noteq> None \<and> (the (tr_ExitCode r) < 0 \<or> the (tr_ExitCode r) > 255) then Some (ExitRange (the (tr_ExitCode r)))
      else if tr_ExitCode r \<noteq> None \<and> \<not> finished then Some ExitNoInstant
      else if ran \<and> tr_State r \<in> {TaskSucceeded, TaskFailed} \<and> (tr_ExitCode r = None \<or> \<not> finished) then Some RanNoExit
      else if tr_State r = TaskSucceeded \<and> tr_ExitCode r \<noteq> Some 0 then Some SuccessNotZero
      else if tr_State r = TaskSucceeded \<and> tr_Outputs r = None then Some SuccessNoPorts
      else if tr_State r = TaskLost \<and> (describes_container r \<or> tr_Log r \<noteq> None) then Some LostOutcome
      else None)"

definition result_Check :: "task_result \<Rightarrow> result_error option" where
  "result_Check r =
     first_some
      [if \<not> isULID (tr_TaskID r) then Some NotULID else None,
       map_option BadKey (TaskID_Validate (tr_Key r)),
       if \<not> validRunner (tr_Runner r) then Some BadRunner else None,
       if \<not> task_Terminal (tr_State r) then Some NotAnEnding else None,
       container_check r,
       (case tr_Outputs r of None \<Rightarrow> None | Some os \<Rightarrow> outputs_check os []),
       (case tr_Artifacts r of None \<Rightarrow> None
        | Some as \<Rightarrow> if list_ex (\<lambda>a. \<not> digest (wa_SHA256 a) \<or> wa_Bytes a < 0) as then Some BadArtifact else None),
       (case tr_Log r of None \<Rightarrow> None | Some l \<Rightarrow> log_check (tr_Key r) l),
       (case tr_Usage r of None \<Rightarrow> None | Some u \<Rightarrow> usage_check u)]"

section \<open>The record of the keys a host took and ended\<close>

record ended_log =
  el_URI :: log_uri
  el_Lines :: int
  el_Truncated :: bool

record ending =
  en_Key :: string
  en_State :: task_state
  en_ExitCode :: "int option"
  en_StartedAt :: time
  en_FinishedAt :: time
  en_Outputs :: "wire_output list option"
  en_Artifacts :: "wire_artifact list"
  en_Log :: "ended_log option"
  en_At :: time

text \<open>The files of the record by the key they are kept under; \<open>None\<close> is a file that does not read.\<close>

record keys_dir =
  kd_ended :: "(string, ending option) gomap"
  kd_taken :: "(string, ending option) gomap"

datatype record_error = RecordUnreadable | RecordOfAnother | NoEndingHeld

definition keys_taken :: "keys_dir \<Rightarrow> string \<Rightarrow> ending option" where
  "keys_taken k i =
     (case map_of (kd_taken k) i of
        Some (Some e) \<Rightarrow> if en_Key e \<noteq> i \<or> task_Terminal (en_State e) then None else Some e
      | _ \<Rightarrow> None)"

definition keys_read :: "keys_dir \<Rightarrow> string \<Rightarrow> (record_error, ending option) result" where
  "keys_read k i =
     (case map_of (kd_ended k) i of
        None \<Rightarrow> Inr (keys_taken k i)
      | Some None \<Rightarrow> Inl RecordUnreadable
      | Some (Some e) \<Rightarrow> if en_Key e \<noteq> i then Inl RecordOfAnother else Inr (Some e))"

text \<open>\<open>put\<close> is whether the file was put in place, and \<open>gone\<close> whether the entry saying the key was taken was removed.\<close>

definition keys_write :: "bool \<Rightarrow> bool \<Rightarrow> ending \<Rightarrow> keys_dir \<Rightarrow> keys_dir" where
  "keys_write put gone e k =
     (if \<not> put then k
      else if task_Terminal (en_State e)
      then k\<lparr>kd_ended := AList.update (en_Key e) (Some e) (kd_ended k),
             kd_taken := (if gone then AList.delete (en_Key e) (kd_taken k) else kd_taken k)\<rparr>
      else k\<lparr>kd_taken := AList.update (en_Key e) (Some e) (kd_taken k)\<rparr>)"

definition keys_forget :: "bool \<Rightarrow> string \<Rightarrow> keys_dir \<Rightarrow> keys_dir" where
  "keys_forget gone i k = (if gone then k\<lparr>kd_taken := AList.delete i (kd_taken k)\<rparr> else k)"

definition key_Ended :: "keys_dir \<Rightarrow> string \<Rightarrow> (record_error, ending option) result" where
  "key_Ended k i = rbind (keys_read k i) (\<lambda>e. case e of None \<Rightarrow> Inr None | Some x \<Rightarrow> Inr (if task_Terminal (en_State x) then Some x else None))"

definition Logged :: "bool \<Rightarrow> bool \<Rightarrow> string \<Rightarrow> ended_log option \<Rightarrow> keys_dir \<Rightarrow> (record_error, keys_dir) result" where
  "Logged put gone i l k =
     rbind (keys_read k i) (\<lambda>e. case e of
        None \<Rightarrow> Inl NoEndingHeld
      | Some x \<Rightarrow> if \<not> task_Terminal (en_State x) then Inl NoEndingHeld else Inr (keys_write put gone (x\<lparr>en_Log := l\<rparr>) k))"

datatype hold_answer = Held | HoldCompleted ending | HoldInFlight | HoldFailed

text \<open>The keys in flight are held in memory beside the record.\<close>

definition Hold :: "bool \<Rightarrow> time \<Rightarrow> string \<Rightarrow> keys_dir \<times> string list \<Rightarrow> hold_answer \<times> keys_dir \<times> string list" where
  "Hold put now i st =
     (let (k, flight) = st in
      case keys_read k i of
        Inl _ \<Rightarrow> (HoldFailed, st)
      | Inr found \<Rightarrow>
          if (case found of Some e \<Rightarrow> task_Terminal (en_State e) | None \<Rightarrow> False) then (HoldCompleted (the found), st)
          else if i \<in> set flight then (HoldInFlight, st)
          else if put
          then (Held, keys_write True True \<lparr>en_Key = i, en_State = TaskDispatched, en_ExitCode = None, en_StartedAt = zero_time,
                  en_FinishedAt = zero_time, en_Outputs = None, en_Artifacts = [], en_Log = None, en_At = now\<rparr> k, i # flight)
          else (HoldFailed, st))"

section \<open>Results kept until the bus has taken them\<close>

record owed_result =
  ow_TaskID :: string
  ow_Key :: string
  ow_Runner :: string

record results_mem =
  rm_kept :: "(string, task_result) gomap"
  rm_owed :: "(string, owed_result) gomap"

text \<open>The files under the directory of results, \<open>.json\<close> and \<open>.owed\<close>, by the dispatch their name says.\<close>

record results_dir =
  rd_kept :: "(string, task_result option) gomap"
  rd_owed :: "(string, owed_result option) gomap"

text \<open>What became of a write: in place and synced, not in place, or in place with the directory not synced, which is an error too.\<close>

datatype put = Synced | NotPut | Unsynced

definition unreached :: "string \<Rightarrow> string \<Rightarrow> string \<Rightarrow> task_result" where
  "unreached task key runner =
     \<lparr>tr_TaskID = task, tr_Key = key, tr_Runner = runner, tr_State = TaskFailed, tr_ExitCode = None, tr_StartedAt = zero_time,
      tr_FinishedAt = zero_time, tr_Outputs = None, tr_Artifacts = None, tr_Log = None, tr_Usage = None\<rparr>"

definition timedOut :: "string \<Rightarrow> string \<Rightarrow> string \<Rightarrow> task_result" where
  "timedOut task key runner = (unreached task key runner)\<lparr>tr_State := TaskTimedOut\<rparr>"

definition kept_reads :: "string \<Rightarrow> string \<Rightarrow> task_result option \<Rightarrow> bool" where
  "kept_reads runner i c =
     (case c of None \<Rightarrow> False | Some r \<Rightarrow> result_Check r = None \<and> tr_TaskID r = i \<and> tr_Runner r = runner)"

definition owed_reads :: "string \<Rightarrow> string \<Rightarrow> owed_result option \<Rightarrow> bool" where
  "owed_reads runner i c =
     (case c of None \<Rightarrow> False
      | Some u \<Rightarrow> ow_TaskID u = i \<and> ow_Runner u = runner \<and> result_Check (unreached (ow_TaskID u) (ow_Key u) (ow_Runner u)) = None)"

text \<open>
  \<open>reads\<close> says which files can be read and \<open>goes\<close> which are gone when they are removed, by their names. What is answered is what the agent
  holds and the files left.
\<close>

definition OpenResults :: "string \<Rightarrow> (string \<Rightarrow> bool) \<Rightarrow> (string \<Rightarrow> bool) \<Rightarrow> results_dir \<Rightarrow> results_mem \<times> results_dir" where
  "OpenResults runner reads goes d =
     (let json = (\<lambda>i. i @ ''.json''); ext = (\<lambda>i. i @ ''.owed'');
          kept = filter (\<lambda>(i, c). reads (json i) \<and> kept_reads runner i c) (rd_kept d);
          owed = filter (\<lambda>(i, c). reads (ext i) \<and> owed_reads runner i c) (rd_owed d) in
      (\<lparr>rm_kept = map (\<lambda>(i, c). (i, the c)) kept,
        rm_owed = map (\<lambda>(i, c). (i, the c)) (filter (\<lambda>(i, c). i \<notin> fst ` set kept) owed)\<rparr>,
       \<lparr>rd_kept = filter (\<lambda>(i, c). \<not> reads (json i) \<or> kept_reads runner i c \<or> \<not> goes (json i)) (rd_kept d),
        rd_owed = filter (\<lambda>(i, c). \<not> reads (ext i) \<or> owed_reads runner i c \<and> i \<notin> fst ` set kept \<or> \<not> goes (ext i)) (rd_owed d)\<rparr>))"

type_synonym results = "results_mem \<times> results_dir"

definition unowe :: "bool \<Rightarrow> string \<Rightarrow> results \<Rightarrow> results" where
  "unowe gone i s =
     (if \<not> has_key (rm_owed (fst s)) i then s
      else ((fst s)\<lparr>rm_owed := AList.delete i (rm_owed (fst s))\<rparr>,
            if gone then (snd s)\<lparr>rd_owed := AList.delete i (rd_owed (snd s))\<rparr> else snd s))"

definition settle :: "bool \<Rightarrow> string \<Rightarrow> results \<Rightarrow> results" where
  "settle = unowe"

text \<open>Whether this call wrote the entry, whether it failed, and what is held then.\<close>

definition owe :: "put \<Rightarrow> string \<Rightarrow> string \<Rightarrow> string \<Rightarrow> results \<Rightarrow> bool \<times> bool \<times> results" where
  "owe w task key runner s =
     (if has_key (rm_owed (fst s)) task \<or> has_key (rm_kept (fst s)) task then (False, False, s)
      else let u = \<lparr>ow_TaskID = task, ow_Key = key, ow_Runner = runner\<rparr> in
        (True, w \<noteq> Synced,
         ((fst s)\<lparr>rm_owed := AList.update task u (rm_owed (fst s))\<rparr>,
          if w = NotPut then snd s else (snd s)\<lparr>rd_owed := AList.update task (Some u) (rd_owed (snd s))\<rparr>)))"

definition keep :: "put \<Rightarrow> bool \<Rightarrow> task_result \<Rightarrow> results \<Rightarrow> bool \<times> results" where
  "keep w gone res s =
     (let held = (fst s)\<lparr>rm_kept := AList.update (tr_TaskID res) res (rm_kept (fst s))\<rparr>;
          files = (if w = NotPut then snd s else (snd s)\<lparr>rd_kept := AList.update (tr_TaskID res) (Some res) (rd_kept (snd s))\<rparr>) in
      if w \<noteq> Synced then (False, (held, files)) else (True, unowe gone (tr_TaskID res) (held, files)))"

datatype report_error = NotAResult result_error | NotKept | NeitherKeptNorPublished | KeptForLater

definition Keep :: "put \<Rightarrow> bool \<Rightarrow> task_result \<Rightarrow> results \<Rightarrow> report_error option \<times> results" where
  "Keep w gone res s =
     (case result_Check res of
        Some e \<Rightarrow> (Some (NotAResult e), s)
      | None \<Rightarrow> (let (kept, s') = keep w gone res s in (if kept then None else Some NotKept, s')))"

text \<open>\<open>gone\<close> is for the entry saying the result is owed, \<open>gone'\<close> for the result's own file.\<close>

definition forget :: "bool \<Rightarrow> bool \<Rightarrow> task_result \<Rightarrow> results \<Rightarrow> results" where
  "forget gone gone' res s =
     (let (m, d) = unowe gone (tr_TaskID res) s in
      if map_of (rm_kept m) (tr_TaskID res) \<noteq> Some res then (m, d)
      else (m\<lparr>rm_kept := AList.delete (tr_TaskID res) (rm_kept m)\<rparr>,
            if gone' then d\<lparr>rd_kept := AList.delete (tr_TaskID res) (rd_kept d)\<rparr> else d))"

text \<open>\<open>took\<close> is whether the bus took it.\<close>

definition Report :: "put \<Rightarrow> bool \<Rightarrow> bool \<Rightarrow> bool \<Rightarrow> task_result \<Rightarrow> results \<Rightarrow> report_error option \<times> results" where
  "Report w gone gone' took res s =
     (case result_Check res of
        Some e \<Rightarrow> (Some (NotAResult e), s)
      | None \<Rightarrow>
          (let (kept, s') = keep w gone res s in
           if took then (None, forget gone gone' res s')
           else (Some (if kept then KeptForLater else NeitherKeptNorPublished), s')))"

text \<open>The results held as it starts, in the order of their dispatches; \<open>n\<close> of them are tried before the agent stops.\<close>

definition Flush :: "nat \<Rightarrow> (task_result \<Rightarrow> bool) \<Rightarrow> results \<Rightarrow> bool \<times> results" where
  "Flush n took s =
     (let pending = map (\<lambda>i. the (map_of (rm_kept (fst s)) i)) (sorted_keys (rm_kept (fst s)));
          tried = take n pending in
      (length tried = length pending \<and> list_all took tried,
       foldl (\<lambda>s res. forget True True res s) s (filter took tried)))"

definition Keys :: "results_mem \<Rightarrow> string list" where
  "Keys m = sorted_list_of_set (set (map (\<lambda>i. tr_Key (the (map_of (rm_kept m) i))) (map fst (rm_kept m))))"

definition Owed :: "results_mem \<Rightarrow> owed_result list" where
  "Owed m = map (\<lambda>i. the (map_of (rm_owed m) i)) (sorted_keys (rm_owed m))"

section \<open>The report made from the record\<close>

datatype ending_error = EndingOfAnother | StillGoing task_state | EndingRecord record_error | EndingLog parse_error

definition appendArtifact :: "wire_artifact list \<Rightarrow> wire_artifact \<Rightarrow> wire_artifact list" where
  "appendArtifact l a = (if list_ex (\<lambda>had. wa_SHA256 had = wa_SHA256 a) l then l else l @ [a])"

definition EndingOf :: "string \<Rightarrow> string \<Rightarrow> string \<Rightarrow> ending \<Rightarrow> (ending_error, task_result) result" where
  "EndingOf task key runner e =
     (if en_Key e \<noteq> key then Inl EndingOfAnother
      else if \<not> task_Terminal (en_State e) then Inl (StillGoing (en_State e))
      else let started = en_StartedAt e \<noteq> zero_time; exited = started \<and> en_ExitCode e \<noteq> None \<and> en_FinishedAt e \<noteq> zero_time in
        Inr \<lparr>tr_TaskID = task, tr_Key = key, tr_Runner = runner, tr_State = en_State e,
             tr_ExitCode = (if exited then en_ExitCode e else None),
             tr_StartedAt = (if started then en_StartedAt e else zero_time),
             tr_FinishedAt = (if exited then en_FinishedAt e else zero_time),
             tr_Outputs = (if started then Some (case en_Outputs e of None \<Rightarrow> [] | Some os \<Rightarrow> os) else None),
             tr_Artifacts = (if started then Some (foldl appendArtifact [] (en_Artifacts e)) else None),
             tr_Log = map_option (\<lambda>l. \<lparr>wl_URI = LogURI_String (el_URI l), wl_Lines = el_Lines l, wl_Truncated = el_Truncated l\<rparr>) (en_Log e),
             tr_Usage = None\<rparr>)"

text \<open>\<open>ships\<close> is whether the agent ships the logs of its tasks.\<close>

definition recovered :: "bool \<Rightarrow> string \<Rightarrow> owed_result \<Rightarrow> ending \<Rightarrow> (ending_error, task_result) result" where
  "recovered ships runner u e =
     rbind (EndingOf (ow_TaskID u) (ow_Key u) runner e) (\<lambda>r.
       if ships \<and> (en_Log e \<noteq> None \<or> en_StartedAt e \<noteq> zero_time)
       then case NewLogURI (ow_Key u) of
              Inl x \<Rightarrow> Inl (EndingLog x)
            | Inr l \<Rightarrow> Inr (r\<lparr>tr_Log := Some \<lparr>wl_URI = LogURI_String l, wl_Lines = 0, wl_Truncated = True\<rparr>\<rparr>)
       else Inr r)"

definition logged :: "bool \<Rightarrow> bool \<Rightarrow> string \<Rightarrow> wire_log \<Rightarrow> keys_dir \<Rightarrow> keys_dir" where
  "logged put gone key l k =
     (case ParseLogURI (wl_URI l) of
        Inl _ \<Rightarrow> k
      | Inr u \<Rightarrow>
          (case Logged put gone key (Some \<lparr>el_URI = u, el_Lines = wl_Lines l, el_Truncated = wl_Truncated l\<rparr>) k of Inl _ \<Rightarrow> k | Inr k' \<Rightarrow> k'))"

text \<open>What becomes of the write of the result, of the removal of its entry, and of the record's write with the removal it makes.\<close>

record outcomes =
  oc_put :: "string \<Rightarrow> put"
  oc_gone :: "string \<Rightarrow> bool"
  oc_logged :: "string \<Rightarrow> bool"

definition recover_one :: "bool \<Rightarrow> string \<Rightarrow> outcomes \<Rightarrow> owed_result \<Rightarrow> results \<times> keys_dir \<Rightarrow> results \<times> keys_dir" where
  "recover_one ships runner oc u st =
     (let (s, k) = st; i = ow_TaskID u in
      case key_Ended k (ow_Key u) of
        Inl _ \<Rightarrow> st
      | Inr None \<Rightarrow> (settle (oc_gone oc i) i s, k)
      | Inr (Some e) \<Rightarrow>
          (case recovered ships runner u e of
             Inl _ \<Rightarrow> st
           | Inr r \<Rightarrow>
               (snd (Keep (oc_put oc i) (oc_gone oc i) r s),
                case tr_Log r of None \<Rightarrow> k | Some l \<Rightarrow> logged (oc_logged oc i) True (ow_Key u) l k)))"

definition Recover :: "bool \<Rightarrow> string \<Rightarrow> outcomes \<Rightarrow> results \<times> keys_dir \<Rightarrow> results \<times> keys_dir" where
  "Recover ships runner oc st = foldl (\<lambda>st u. recover_one ships runner oc u st) st (Owed (fst (fst st)))"

section \<open>The address of a log reads back\<close>

lemma hex_value_upper: "n < 16 \<Longrightarrow> hex_value (upper_hex n) = Some n"
proof -
  assume "n < 16"
  then have "n \<in> set [0..<16]" by simp
  moreover have "list_all (\<lambda>n. hex_value (upper_hex n) = Some n) [0..<16]" by code_simp
  ultimately show ?thesis by (simp only: list_all_iff)
qed

lemma path_unescape_escape: "path_unescape (path_escape s) = Some s"
proof (induction s)
  case (Cons c s)
  have p: "\<not> path_plain CHR ''%''" by code_simp
  have h: "byte c div 16 * 16 + byte c mod 16 = byte c" by (rule div_mult_mod_eq)
  show ?case
  proof (cases "path_plain c")
    case True
    then show ?thesis using Cons p by (auto simp: path_escape_def)
  next
    case False
    then show ?thesis
      using Cons by (simp add: path_escape_def hex_value_upper[OF byte_halves(1)] hex_value_upper[OF byte_halves(2)] h)
  qed
qed (simp add: path_escape_def)

lemma log_uri_reads_back:
  assumes "RunID_Validate (lu_Run u) = None" "TaskID_Validate (lu_Task u) = None" "ParseTaskID (lu_Task u) = Inr (lu_Run u, rest)"
  shows "ParseLogURI (LogURI_String u) = Inr u"
proof -
  have "CHR ''/'' \<notin> set (lu_Run u)" using assms(1) by (simp add: RunID_Validate_None_iff segment_no_slash)
  then have c: "cut_at CHR ''/'' (lu_Run u @ CHR ''/'' # path_escape (lu_Task u)) = Some (lu_Run u, path_escape (lu_Task u))" by (rule cut_at_append)
  have "lu_Task u \<noteq> []" using assms(2) by (auto simp: TaskID_Validate_def ParseTaskID_def)
  then have e: "path_escape (lu_Task u) \<noteq> []" by (cases "lu_Task u") (simp_all add: path_escape_def)
  show ?thesis using c e assms by (simp add: ParseLogURI_def LogURI_String_def path_unescape_escape named_def)
qed

end
