(* ===== verification/Kept_Results.thy ===== *)
theory Kept_Results
  imports Endings
begin

text \<open>
  An agent that can stop anywhere, as a machine over the files of \<open>Endings\<close>: what it holds is lost when it stops, the files stay, and the
  next agent opens them. The steps are the pieces the sources do under one lock each, in any order they may come in. The record's
  week is not modelled: no entry of it is old enough to be pruned.
\<close>

record agent =
  ag_res :: results
  ag_rec :: keys_dir
  ag_out :: "task_result list"
  ag_did :: "string list"

definition owing :: "string \<Rightarrow> (string \<Rightarrow> string) \<Rightarrow> string \<Rightarrow> owed_result" where
  "owing runner key_of i = \<lparr>ow_TaskID = i, ow_Key = key_of i, ow_Runner = runner\<rparr>"

definition of_dispatch :: "string \<Rightarrow> (string \<Rightarrow> string) \<Rightarrow> task_result \<Rightarrow> bool" where
  "of_dispatch runner key_of r \<longleftrightarrow> result_Check r = None \<and> tr_Runner r = runner \<and> tr_Key r = key_of (tr_TaskID r)"

text \<open>
  \<open>key_of\<close> is the key each dispatch is of. What is kept beside the files is the results the bus took and the dispatches whose ending was
  written down here while they were owed a result. A dispatch is settled only where nothing of it ended: \<open>Carry\<close> settles what
  another delivery runs, and \<open>Hold\<close> lets one delivery of a key through.
\<close>

inductive agent_step :: "string \<Rightarrow> (string \<Rightarrow> string) \<Rightarrow> agent \<Rightarrow> agent \<Rightarrow> bool" for runner key_of where
  Owes: "owe w i (key_of i) runner (ag_res s) = (mine, failed, res) \<Longrightarrow> result_Check (unreached i (key_of i) runner) = None \<Longrightarrow>
     agent_step runner key_of s (s\<lparr>ag_res := res\<rparr>)"
| Records: "agent_step runner key_of s (s\<lparr>ag_rec := keys_write put gone e (ag_rec s)\<rparr>)"
| Ends: "map_of (rd_owed (snd (ag_res s))) i = Some (Some (owing runner key_of i)) \<Longrightarrow> en_Key e = key_of i \<Longrightarrow> task_Terminal (en_State e) \<Longrightarrow>
     agent_step runner key_of s (s\<lparr>ag_rec := keys_write True gone e (ag_rec s), ag_did := i # ag_did s\<rparr>)"
| Logs: "Logged put gone i l (ag_rec s) = Inr rec \<Longrightarrow> agent_step runner key_of s (s\<lparr>ag_rec := rec\<rparr>)"
| Keeps: "of_dispatch runner key_of res \<Longrightarrow> agent_step runner key_of s (s\<lparr>ag_res := snd (keep w gone res (ag_res s))\<rparr>)"
| Publishes: "of_dispatch runner key_of res \<Longrightarrow> agent_step runner key_of s (s\<lparr>ag_out := ag_out s @ [res]\<rparr>)"
| Forgets: "res \<in> set (ag_out s) \<Longrightarrow> agent_step runner key_of s (s\<lparr>ag_res := forget gone gone' res (ag_res s)\<rparr>)"
| Settles: "i \<notin> set (ag_did s) \<Longrightarrow> agent_step runner key_of s (s\<lparr>ag_res := settle gone i (ag_res s)\<rparr>)"
| Stops: "agent_step runner key_of s (s\<lparr>ag_res := OpenResults runner reads goes (snd (ag_res s))\<rparr>)"
| Recovers: "u \<in> set (Owed (fst (ag_res s))) \<Longrightarrow> recover_one ships runner oc u (ag_res s, ag_rec s) = (res, rec) \<Longrightarrow>
     agent_step runner key_of s (s\<lparr>ag_res := res, ag_rec := rec\<rparr>)"

definition agent_new :: "agent \<Rightarrow> bool" where
  "agent_new s \<longleftrightarrow> ag_res s = (\<lparr>rm_kept = [], rm_owed = []\<rparr>, \<lparr>rd_kept = [], rd_owed = []\<rparr>) \<and>
     ag_rec s = \<lparr>kd_ended = [], kd_taken = []\<rparr> \<and> ag_did s = []"

definition published :: "agent \<Rightarrow> string \<Rightarrow> bool" where
  "published s i \<longleftrightarrow> (\<exists>r \<in> set (ag_out s). tr_TaskID r = i)"

definition kept_as :: "string \<Rightarrow> (string \<Rightarrow> string) \<Rightarrow> string \<Rightarrow> task_result \<Rightarrow> bool" where
  "kept_as runner key_of i r \<longleftrightarrow> tr_TaskID r = i \<and> of_dispatch runner key_of r"

definition on_disk :: "string \<Rightarrow> (string \<Rightarrow> string) \<Rightarrow> results_dir \<Rightarrow> keys_dir \<Rightarrow> string \<Rightarrow> bool" where
  "on_disk runner key_of d k i \<longleftrightarrow>
     (\<exists>r. map_of (rd_kept d) i = Some (Some r) \<and> kept_as runner key_of i r) \<or>
     (map_of (rd_owed d) i = Some (Some (owing runner key_of i)) \<and> (\<exists>e. key_Ended k (key_of i) = Inr (Some e)))"

section \<open>What a piece does to the files\<close>

declare map_of_eq_Some_iff [simp del]

lemma map_of_delete [simp]: "map_of (AList.delete k m) = (map_of m)(k := None)"
  by (rule delete_conv')

text \<open>A record that holds endings alone where it holds any, each under its key.\<close>

definition record_ok :: "keys_dir \<Rightarrow> bool" where
  "record_ok k \<longleftrightarrow> (\<forall>i c. map_of (kd_ended k) i = Some c \<longrightarrow> (\<exists>e. c = Some e \<and> en_Key e = i \<and> task_Terminal (en_State e)))"

lemma key_Ended_iff:
  "record_ok k \<Longrightarrow> key_Ended k i = Inr (Some e) \<longleftrightarrow> map_of (kd_ended k) i = Some (Some e)"
  by (auto simp: record_ok_def key_Ended_def keys_read_def keys_taken_def split: option.splits if_splits)

lemma keys_write_ok:
  assumes "record_ok k"
  shows "record_ok (keys_write put gone e k) \<and>
    (map_of (kd_ended k) i \<noteq> None \<longrightarrow> map_of (kd_ended (keys_write put gone e k)) i \<noteq> None) \<and>
    (put \<and> task_Terminal (en_State e) \<longrightarrow> map_of (kd_ended (keys_write put gone e k)) (en_Key e) = Some (Some e))"
  using assms by (auto simp: keys_write_def record_ok_def)

lemma Logged_ok:
  assumes "record_ok k" "Logged put gone i l k = Inr k'"
  shows "record_ok k' \<and> (map_of (kd_ended k) j \<noteq> None \<longrightarrow> map_of (kd_ended k') j \<noteq> None) \<and>
    (\<forall>e. map_of (kd_ended k) j = Some (Some e) \<longrightarrow> (\<exists>l'. map_of (kd_ended k') j = Some (Some (e\<lparr>en_Log := l'\<rparr>))))"
proof -
  obtain x where x: "keys_read k i = Inr (Some x)" "task_Terminal (en_State x)" "k' = keys_write put gone (x\<lparr>en_Log := l\<rparr>) k"
    using assms(2) by (auto simp: Logged_def split: option.splits if_splits)
  then have m: "map_of (kd_ended k) (en_Key x) = Some (Some x)"
    by (auto simp: keys_read_def keys_taken_def split: option.splits if_splits)
  have "\<exists>l'. map_of (kd_ended k') j = Some (Some (e\<lparr>en_Log := l'\<rparr>))" if "map_of (kd_ended k) j = Some (Some e)" for e
  proof (cases "j = en_Key x \<and> put")
    case True
    then show ?thesis using that m x(2,3) by (auto simp: keys_write_def)
  next
    case False
    then have "map_of (kd_ended k') j = Some (Some (e\<lparr>en_Log := en_Log e\<rparr>))" using that x(2,3) by (auto simp: keys_write_def)
    then show ?thesis by blast
  qed
  then show ?thesis using keys_write_ok[OF assms(1)] x(3) by blast
qed

lemma logged_ok:
  assumes "record_ok k"
  shows "record_ok (logged put gone key l k) \<and> (map_of (kd_ended k) j \<noteq> None \<longrightarrow> map_of (kd_ended (logged put gone key l k)) j \<noteq> None) \<and>
    (\<forall>e. map_of (kd_ended k) j = Some (Some e) \<longrightarrow> (\<exists>l'. map_of (kd_ended (logged put gone key l k)) j = Some (Some (e\<lparr>en_Log := l'\<rparr>))))"
proof -
  have same: "\<exists>l'. Some (Some e) = Some (Some (e\<lparr>en_Log := l'\<rparr>))" for e :: ending by (rule exI[of _ "en_Log e"]) simp
  show ?thesis
    using assms Logged_ok[OF assms] same by (auto simp: logged_def split: sum.splits)
qed

text \<open>Every entry of a map is as its key says.\<close>

definition entries_are :: "('k \<Rightarrow> 'v \<Rightarrow> bool) \<Rightarrow> ('k, 'v) gomap \<Rightarrow> bool" where
  "entries_are P m \<longleftrightarrow> (\<forall>i c. map_of m i = Some c \<longrightarrow> P i c)"

lemma entries_are_Nil [simp]: "entries_are P []"
  by (simp add: entries_are_def)

lemma entries_are_update [simp]: "entries_are P m \<Longrightarrow> P i c \<Longrightarrow> entries_are P (AList.update i c m)"
  by (simp add: entries_are_def)

lemma entries_are_delete [simp]: "entries_are P m \<Longrightarrow> entries_are P (AList.delete i m)"
  by (simp add: entries_are_def)

lemma entries_areD: "entries_are P m \<Longrightarrow> map_of m i = Some c \<Longrightarrow> P i c"
  by (simp add: entries_are_def)

text \<open>What is held and what is on disk is of this runner, and each entry under its own dispatch.\<close>

definition owed_as :: "string \<Rightarrow> (string \<Rightarrow> string) \<Rightarrow> string \<Rightarrow> owed_result \<Rightarrow> bool" where
  "owed_as runner key_of i u \<longleftrightarrow> u = owing runner key_of i \<and> result_Check (unreached i (key_of i) runner) = None"

definition files_ok :: "string \<Rightarrow> (string \<Rightarrow> string) \<Rightarrow> results \<Rightarrow> bool" where
  "files_ok runner key_of s \<longleftrightarrow>
     distinct (map fst (rd_kept (snd s))) \<and> distinct (map fst (rd_owed (snd s))) \<and>
     entries_are (\<lambda>i c. c \<noteq> None \<and> owed_as runner key_of i (the c)) (rd_owed (snd s)) \<and>
     entries_are (\<lambda>i c. c \<noteq> None \<and> kept_as runner key_of i (the c)) (rd_kept (snd s)) \<and>
     entries_are (owed_as runner key_of) (rm_owed (fst s)) \<and> entries_are (kept_as runner key_of) (rm_kept (fst s))"

lemma unowe_ok:
  assumes "files_ok runner key_of s"
  shows "files_ok runner key_of (unowe gone i s)"
  using assms by (simp add: files_ok_def unowe_def distinct_delete)

lemma unowe_disk:
  "on_disk runner key_of (snd s) k j \<Longrightarrow> j \<noteq> i \<or> (\<exists>r. map_of (rd_kept (snd s)) i = Some (Some r) \<and> kept_as runner key_of i r) \<Longrightarrow>
   on_disk runner key_of (snd (unowe gone i s)) k j"
  by (auto simp: on_disk_def unowe_def)

lemma owe_ok:
  assumes "files_ok runner key_of s" "owe w i (key_of i) runner s = (mine, failed, s')" "result_Check (unreached i (key_of i) runner) = None"
  shows "files_ok runner key_of s' \<and> (on_disk runner key_of (snd s) k j \<longrightarrow> on_disk runner key_of (snd s') k j)"
  using assms by (auto simp: owe_def Let_def files_ok_def on_disk_def owing_def owed_as_def distinct_update split: if_splits)

lemma keep_ok:
  assumes "files_ok runner key_of s" "of_dispatch runner key_of res"
  shows "files_ok runner key_of (snd (keep w gone res s)) \<and>
    (on_disk runner key_of (snd s) k j \<longrightarrow> on_disk runner key_of (snd (snd (keep w gone res s))) k j) \<and>
    map_of (rm_kept (fst (snd (keep w gone res s)))) (tr_TaskID res) = Some res"
proof -
  let ?held = "(fst s)\<lparr>rm_kept := AList.update (tr_TaskID res) res (rm_kept (fst s))\<rparr>"
  let ?files = "if w = NotPut then snd s else (snd s)\<lparr>rd_kept := AList.update (tr_TaskID res) (Some res) (rd_kept (snd s))\<rparr>"
  have p: "kept_as runner key_of (tr_TaskID res) res" using assms(2) by (simp add: kept_as_def)
  have f: "files_ok runner key_of (?held, ?files)" using assms(1) p by (simp add: files_ok_def distinct_update)
  have d: "on_disk runner key_of ?files k j" if "on_disk runner key_of (snd s) k j" using that p by (auto simp: on_disk_def)
  have m: "map_of (rm_kept (fst (unowe gone i (?held, ?files)))) (tr_TaskID res) = Some res" for i by (simp add: unowe_def)
  have e: "snd (keep w gone res s) = (if w \<noteq> Synced then (?held, ?files) else unowe gone (tr_TaskID res) (?held, ?files))"
    by (simp add: keep_def Let_def)
  show ?thesis
  proof (cases "w = Synced")
    case True
    then have "snd (keep w gone res s) = unowe gone (tr_TaskID res) (?held, ?files)" unfolding e by simp
    moreover have "on_disk runner key_of (snd (unowe gone (tr_TaskID res) (?held, ?files))) k j" if "on_disk runner key_of (snd s) k j"
      by (rule unowe_disk) (use d[OF that] p True in auto)
    ultimately show ?thesis using unowe_ok[OF f, of gone "tr_TaskID res"] m by simp
  next
    case False
    then have "snd (keep w gone res s) = (?held, ?files)" unfolding e by simp
    then show ?thesis using f d by simp
  qed
qed

lemma forget_ok:
  assumes "files_ok runner key_of s"
  shows "files_ok runner key_of (forget gone gone' res s) \<and>
    (on_disk runner key_of (snd s) k j \<longrightarrow> j \<noteq> tr_TaskID res \<longrightarrow> on_disk runner key_of (snd (forget gone gone' res s)) k j)"
proof -
  obtain m d where u: "unowe gone (tr_TaskID res) s = (m, d)" by (rule prod.exhaust)
  have f: "files_ok runner key_of (m, d)" using unowe_ok[OF assms, of gone "tr_TaskID res"] u by simp
  have "on_disk runner key_of d k j" if "on_disk runner key_of (snd s) k j" "j \<noteq> tr_TaskID res"
    using unowe_disk[OF that(1), of "tr_TaskID res" gone] that(2) u by simp
  then show ?thesis using f by (auto simp: forget_def u files_ok_def on_disk_def distinct_delete)
qed

lemma map_of_filtered:
  "distinct (map fst m) \<Longrightarrow> map_of (filter P m) i = (case map_of m i of None \<Rightarrow> None | Some c \<Rightarrow> if P (i, c) then Some c else None)"
  by (induction m) (auto simp: image_iff split: option.splits if_splits dest!: map_of_SomeD)

lemma map_of_the: "map_of (map (\<lambda>(i, c). (i, the c)) m) i = map_option the (map_of m i)"
  by (induction m) auto

lemma distinct_filtered: "distinct (map fst m) \<Longrightarrow> distinct (map fst (filter P m))"
  by (simp add: distinct_map_filter)

definition readable_kept :: "string \<Rightarrow> (string \<Rightarrow> bool) \<Rightarrow> results_dir \<Rightarrow> string \<Rightarrow> bool" where
  "readable_kept runner reads d i \<longleftrightarrow> reads (i @ ''.json'') \<and> (case map_of (rd_kept d) i of None \<Rightarrow> False | Some c \<Rightarrow> kept_reads runner i c)"

lemma OpenResults_maps:
  assumes "distinct (map fst (rd_kept d))" "distinct (map fst (rd_owed d))"
  shows "map_of (rm_kept (fst (OpenResults runner reads goes d))) i =
      (if readable_kept runner reads d i then map_option the (map_of (rd_kept d) i) else None)"
    and "map_of (rm_owed (fst (OpenResults runner reads goes d))) i =
      (case map_of (rd_owed d) i of None \<Rightarrow> None
       | Some c \<Rightarrow> if reads (i @ ''.owed'') \<and> owed_reads runner i c \<and> \<not> readable_kept runner reads d i then Some (the c) else None)"
    and "map_of (rd_kept (snd (OpenResults runner reads goes d))) i =
      (case map_of (rd_kept d) i of None \<Rightarrow> None
       | Some c \<Rightarrow> if \<not> reads (i @ ''.json'') \<or> kept_reads runner i c \<or> \<not> goes (i @ ''.json'') then Some c else None)"
    and "map_of (rd_owed (snd (OpenResults runner reads goes d))) i =
      (case map_of (rd_owed d) i of None \<Rightarrow> None
       | Some c \<Rightarrow> if \<not> reads (i @ ''.owed'') \<or> owed_reads runner i c \<and> \<not> readable_kept runner reads d i \<or> \<not> goes (i @ ''.owed'')
                  then Some c else None)"
proof -
  let ?kept = "filter (\<lambda>(i, c). reads (i @ ''.json'') \<and> kept_reads runner i c) (rd_kept d)"
  have m: "map_of ?kept i = (if readable_kept runner reads d i then map_of (rd_kept d) i else None)" for i
    using assms(1) by (simp add: map_of_filtered readable_kept_def split: option.splits)
  have k: "i \<in> fst ` set ?kept \<longleftrightarrow> readable_kept runner reads d i" for i
  proof -
    have "i \<in> fst ` set ?kept \<longleftrightarrow> map_of ?kept i \<noteq> None" by (simp add: map_of_eq_None_iff del: set_filter)
    also have "\<dots> \<longleftrightarrow> readable_kept runner reads d i" unfolding m by (auto simp: readable_kept_def split: option.splits)
    finally show ?thesis .
  qed
  show "map_of (rm_kept (fst (OpenResults runner reads goes d))) i =
      (if readable_kept runner reads d i then map_option the (map_of (rd_kept d) i) else None)"
    by (simp add: OpenResults_def Let_def map_of_the m)
  show "map_of (rm_owed (fst (OpenResults runner reads goes d))) i =
      (case map_of (rd_owed d) i of None \<Rightarrow> None
       | Some c \<Rightarrow> if reads (i @ ''.owed'') \<and> owed_reads runner i c \<and> \<not> readable_kept runner reads d i then Some (the c) else None)"
    by (simp add: OpenResults_def Let_def map_of_the map_of_filtered distinct_filtered assms(2) k del: filter_filter set_filter split: option.splits)
  show "map_of (rd_kept (snd (OpenResults runner reads goes d))) i =
      (case map_of (rd_kept d) i of None \<Rightarrow> None
       | Some c \<Rightarrow> if \<not> reads (i @ ''.json'') \<or> kept_reads runner i c \<or> \<not> goes (i @ ''.json'') then Some c else None)"
    by (simp add: OpenResults_def Let_def map_of_filtered assms(1) split: option.splits)
  show "map_of (rd_owed (snd (OpenResults runner reads goes d))) i =
      (case map_of (rd_owed d) i of None \<Rightarrow> None
       | Some c \<Rightarrow> if \<not> reads (i @ ''.owed'') \<or> owed_reads runner i c \<and> \<not> readable_kept runner reads d i \<or> \<not> goes (i @ ''.owed'')
                  then Some c else None)"
    by (simp add: OpenResults_def Let_def map_of_filtered assms(2) k del: set_filter split: option.splits)
qed

lemma kept_as_reads: "kept_as runner key_of i r \<Longrightarrow> kept_reads runner i (Some r)"
  by (simp add: kept_as_def kept_reads_def of_dispatch_def)

lemma owed_as_reads: "owed_as runner key_of i u \<Longrightarrow> owed_reads runner i (Some u)"
  by (simp add: owed_as_def owed_reads_def owing_def)

lemma OpenResults_ok:
  assumes "files_ok runner key_of (m, d)"
  shows "files_ok runner key_of (OpenResults runner reads goes d) \<and>
    (on_disk runner key_of d k j \<longrightarrow> on_disk runner key_of (snd (OpenResults runner reads goes d)) k j)"
proof -
  let ?o = "OpenResults runner reads goes d"
  have dist: "distinct (map fst (rd_kept d))" "distinct (map fst (rd_owed d))" using assms by (simp_all add: files_ok_def)
  note maps = OpenResults_maps[OF dist, of runner reads goes]
  have kept: "c \<noteq> None \<and> kept_as runner key_of i (the c) \<and> kept_reads runner i c" if "map_of (rd_kept d) i = Some c" for i c
  proof -
    have "c \<noteq> None \<and> kept_as runner key_of i (the c)" using assms that by (auto simp: files_ok_def dest: entries_areD)
    then show ?thesis using kept_as_reads[of runner key_of i "the c"] by auto
  qed
  have owed: "c \<noteq> None \<and> owed_as runner key_of i (the c) \<and> owed_reads runner i c" if "map_of (rd_owed d) i = Some c" for i c
  proof -
    have "c \<noteq> None \<and> owed_as runner key_of i (the c)" using assms that by (auto simp: files_ok_def dest: entries_areD)
    then show ?thesis using owed_as_reads[of runner key_of i "the c"] by auto
  qed
  have "distinct (map fst (rd_kept (snd ?o)))" "distinct (map fst (rd_owed (snd ?o)))"
    using dist by (simp_all add: OpenResults_def Let_def distinct_filtered)
  moreover have "entries_are (\<lambda>i c. c \<noteq> None \<and> owed_as runner key_of i (the c)) (rd_owed (snd ?o))"
    unfolding entries_are_def maps(4) by (auto split: option.splits if_splits dest: owed)
  moreover have "entries_are (\<lambda>i c. c \<noteq> None \<and> kept_as runner key_of i (the c)) (rd_kept (snd ?o))"
    unfolding entries_are_def maps(3) by (auto split: option.splits if_splits dest: kept)
  moreover have "entries_are (owed_as runner key_of) (rm_owed (fst ?o))"
    unfolding entries_are_def maps(2) by (auto split: option.splits if_splits dest: owed)
  moreover have "entries_are (kept_as runner key_of) (rm_kept (fst ?o))"
    unfolding entries_are_def maps(1) by (auto split: if_splits dest: kept)
  moreover have "on_disk runner key_of (snd ?o) k j" if od: "on_disk runner key_of d k j"
  proof (cases "\<exists>r. map_of (rd_kept d) j = Some (Some r) \<and> kept_as runner key_of j r")
    case True
    then show ?thesis using kept_as_reads by (auto simp: on_disk_def maps(3))
  next
    case False
    then have "map_of (rd_owed d) j = Some (Some (owing runner key_of j))" "\<exists>e. key_Ended k (key_of j) = Inr (Some e)"
      using od by (auto simp: on_disk_def)
    moreover have "\<not> readable_kept runner reads d j"
      using False kept by (fastforce simp: readable_kept_def split: option.splits)
    ultimately show ?thesis using owed[of j] by (simp add: on_disk_def maps(4))
  qed
  ultimately show ?thesis by (simp add: files_ok_def)
qed

section \<open>The invariant\<close>

definition agent_ok :: "string \<Rightarrow> (string \<Rightarrow> string) \<Rightarrow> agent \<Rightarrow> bool" where
  "agent_ok runner key_of s \<longleftrightarrow> record_ok (ag_rec s) \<and> files_ok runner key_of (ag_res s) \<and>
     (\<forall>i \<in> set (ag_did s). published s i \<or> on_disk runner key_of (snd (ag_res s)) (ag_rec s) i)"

lemma agent_okI:
  assumes "agent_ok runner key_of s" "record_ok (ag_rec t)" "files_ok runner key_of (ag_res t)" "set (ag_out s) \<subseteq> set (ag_out t)"
    and "\<And>i. i \<in> set (ag_did t) \<Longrightarrow> \<not> published t i \<Longrightarrow> on_disk runner key_of (snd (ag_res s)) (ag_rec s) i \<or> i \<notin> set (ag_did s) \<Longrightarrow>
      on_disk runner key_of (snd (ag_res t)) (ag_rec t) i"
  shows "agent_ok runner key_of t"
proof -
  have "published s i \<Longrightarrow> published t i" for i using assms(4) by (auto simp: published_def)
  then show ?thesis using assms unfolding agent_ok_def by blast
qed

lemma on_disk_record:
  assumes "on_disk runner key_of d k i" "record_ok k" "record_ok k'"
    and "map_of (kd_ended k) (key_of i) \<noteq> None \<longrightarrow> map_of (kd_ended k') (key_of i) \<noteq> None"
  shows "on_disk runner key_of d k' i"
proof -
  have "\<exists>e. key_Ended k' (key_of i) = Inr (Some e)" if "key_Ended k (key_of i) = Inr (Some e)" for e
  proof -
    have "map_of (kd_ended k) (key_of i) \<noteq> None" using that key_Ended_iff[OF assms(2)] by simp
    then obtain c where c: "map_of (kd_ended k') (key_of i) = Some c" using assms(4) by auto
    then obtain e' where "c = Some e'" using assms(3) by (auto simp: record_ok_def)
    then show ?thesis using c key_Ended_iff[OF assms(3)] by blast
  qed
  then show ?thesis using assms(1) by (auto simp: on_disk_def)
qed

text \<open>Recovering one dispatch.\<close>

lemma recovered_is:
  "recovered ships runner (owing runner key_of i) e = Inr r \<Longrightarrow> tr_TaskID r = i \<and> tr_Runner r = runner \<and> tr_Key r = key_of i"
  by (auto simp: recovered_def EndingOf_def owing_def Let_def split: if_splits sum.splits)

lemma recover_one_ok:
  assumes "record_ok k" "files_ok runner key_of s" "recover_one ships runner oc (owing runner key_of i) (s, k) = (s', k')"
  shows "record_ok k' \<and> files_ok runner key_of s' \<and> (on_disk runner key_of (snd s) k j \<longrightarrow> on_disk runner key_of (snd s') k' j)"
proof -
  let ?u = "owing runner key_of i"
  have ow: "ow_TaskID ?u = i" "ow_Key ?u = key_of i" by (simp_all add: owing_def)
  consider (err) x where "key_Ended k (key_of i) = Inl x" | (none) "key_Ended k (key_of i) = Inr None"
    | (some) e where "key_Ended k (key_of i) = Inr (Some e)" by (metis option.exhaust sum.exhaust)
  then show ?thesis
  proof cases
    case err
    then have "s' = s" "k' = k" using assms(3) by (simp_all add: recover_one_def ow)
    then show ?thesis using assms(1,2) by simp
  next
    case none
    then have e: "s' = unowe (oc_gone oc i) i s" "k' = k" using assms(3) by (simp_all add: recover_one_def ow settle_def)
    have "on_disk runner key_of (snd s') k j" if od: "on_disk runner key_of (snd s) k j"
      unfolding e(1) by (rule unowe_disk[OF od]) (use od none in \<open>auto simp: on_disk_def\<close>)
    then show ?thesis using unowe_ok[OF assms(2)] assms(1) e by simp
  next
    case (some e)
    show ?thesis
    proof (cases "recovered ships runner ?u e")
      case (Inl x)
      then have "s' = s" "k' = k" using assms(3) some by (simp_all add: recover_one_def ow)
      then show ?thesis using assms(1,2) by simp
    next
      case (Inr r)
      have sk: "s' = snd (Keep (oc_put oc i) (oc_gone oc i) r s)"
        "k' = (case tr_Log r of None \<Rightarrow> k | Some l \<Rightarrow> logged (oc_logged oc i) True (key_of i) l k)"
        using assms(3) some Inr by (auto simp: recover_one_def ow cong: option.case_cong)
      have rec: "record_ok k' \<and> (map_of (kd_ended k) (key_of j) \<noteq> None \<longrightarrow> map_of (kd_ended k') (key_of j) \<noteq> None)"
        unfolding sk(2) using assms(1) logged_ok[OF assms(1)] by (cases "tr_Log r") simp_all
      have res: "files_ok runner key_of s' \<and> (on_disk runner key_of (snd s) k j \<longrightarrow> on_disk runner key_of (snd s') k j)"
      proof (cases "result_Check r")
        case None
        then have "of_dispatch runner key_of r" using recovered_is[OF Inr] by (simp add: of_dispatch_def)
        have "s' = snd (keep (oc_put oc i) (oc_gone oc i) r s)" using None unfolding sk(1) Keep_def by (simp add: case_prod_beta)
        with \<open>of_dispatch runner key_of r\<close> show ?thesis using keep_ok[OF assms(2)] by simp
      next
        case (Some x)
        then show ?thesis using assms(2) unfolding sk(1) Keep_def by simp
      qed
      then show ?thesis using rec on_disk_record[OF _ assms(1)] by blast
    qed
  qed
qed

lemma Owed_owing:
  assumes "files_ok runner key_of s" "u \<in> set (Owed (fst s))"
  shows "\<exists>i. u = owing runner key_of i \<and> map_of (rm_owed (fst s)) i = Some u"
proof -
  obtain i where i: "i \<in> fst ` set (rm_owed (fst s))" "u = the (map_of (rm_owed (fst s)) i)" using assms(2) by (auto simp: Owed_def)
  then obtain v where v: "map_of (rm_owed (fst s)) i = Some v" by (metis map_of_eq_None_iff option.exhaust)
  then have "owed_as runner key_of i v" using assms(1) by (auto simp: files_ok_def dest: entries_areD)
  then show ?thesis using v i(2) by (auto simp: owed_as_def)
qed

lemma agent_step_ok:
  assumes "agent_ok runner key_of s" "agent_step runner key_of s t"
  shows "agent_ok runner key_of t"
proof -
  have r: "record_ok (ag_rec s)" and f: "files_ok runner key_of (ag_res s)" using assms(1) by (simp_all add: agent_ok_def)
  show ?thesis using assms(2)
  proof cases
    case (Owes w i mine failed res)
    show ?thesis
      by (rule agent_okI[OF assms(1)]) (use owe_ok[OF f Owes(2,3)] r Owes(1) in auto)
  next
    case (Records put gone e)
    show ?thesis
      by (rule agent_okI[OF assms(1)]) (use keys_write_ok[OF r, of put gone e] on_disk_record[OF _ r] f Records in auto)
  next
    case (Ends i e gone)
    let ?k = "keys_write True gone e (ag_rec s)"
    have k: "record_ok ?k" "map_of (kd_ended ?k) (key_of i) = Some (Some e)" using keys_write_ok[OF r, of True gone e] Ends(3,4) by auto
    then have "on_disk runner key_of (snd (ag_res s)) ?k i" using Ends(2) key_Ended_iff by (auto simp: on_disk_def)
    moreover have "on_disk runner key_of (snd (ag_res s)) ?k j" if "on_disk runner key_of (snd (ag_res s)) (ag_rec s) j" for j
      by (rule on_disk_record[OF that r k(1)]) (use keys_write_ok[OF r] in blast)
    ultimately show ?thesis by (intro agent_okI[OF assms(1)]) (use k(1) f Ends(1) in auto)
  next
    case (Logs put gone i l rec)
    show ?thesis
      by (rule agent_okI[OF assms(1)]) (use Logged_ok[OF r Logs(2)] on_disk_record[OF _ r] f Logs(1) in auto)
  next
    case (Keeps res w gone)
    show ?thesis
      by (rule agent_okI[OF assms(1)]) (use keep_ok[OF f Keeps(2)] r Keeps(1) in auto)
  next
    case (Publishes res)
    show ?thesis
      by (rule agent_okI[OF assms(1)]) (use r f Publishes(1) in auto)
  next
    case (Forgets res gone gone')
    have "published t (tr_TaskID res)" using Forgets by (auto simp: published_def)
    then have "on_disk runner key_of (snd (ag_res t)) (ag_rec t) i"
      if "\<not> published t i" "on_disk runner key_of (snd (ag_res s)) (ag_rec s) i" for i
    proof -
      have "i \<noteq> tr_TaskID res" using that(1) \<open>published t (tr_TaskID res)\<close> by blast
      then show ?thesis using that(2) forget_ok[OF f] unfolding Forgets(1) by simp
    qed
    then show ?thesis
      by (intro agent_okI[OF assms(1)]) (use forget_ok[OF f] r Forgets(1) in auto)
  next
    case (Settles i gone)
    have "on_disk runner key_of (snd (settle gone i (ag_res s))) (ag_rec s) j"
      if "on_disk runner key_of (snd (ag_res s)) (ag_rec s) j" "j \<noteq> i" for j
      unfolding settle_def by (rule unowe_disk[OF that(1)]) (use that(2) in simp)
    then show ?thesis
      by (intro agent_okI[OF assms(1)]) (use unowe_ok[OF f] r Settles in \<open>auto simp: settle_def\<close>)
  next
    case (Stops reads goes)
    show ?thesis
      by (rule agent_okI[OF assms(1)]) (use OpenResults_ok[of runner key_of "fst (ag_res s)" "snd (ag_res s)"] f r Stops in auto)
  next
    case (Recovers u ships oc res rec)
    obtain i where i: "u = owing runner key_of i" using Owed_owing[OF f Recovers(2)] by blast
    show ?thesis
      by (rule agent_okI[OF assms(1)]) (use recover_one_ok[OF r f Recovers(3)[unfolded i]] Recovers(1) in auto)
  qed
qed

lemma agent_new_ok: "agent_new s \<Longrightarrow> agent_ok runner key_of s"
  by (simp add: agent_new_def agent_ok_def record_ok_def files_ok_def)

interpretation agents: machine agent_new "agent_step runner key_of" "agent_ok runner key_of"
  by unfold_locales (rule agent_new_ok, assumption, rule agent_step_ok)

text \<open>
  C5: a task that ended is not forgotten, wherever the agent stops and whichever of its writes and removals fail: once the ending of a
  dispatch was written down while the dispatch was owed a result on disk, a result of it has been taken by the bus, or is kept on disk
  as one the next agent publishes, or is still owed on disk with the ending in the record.
\<close>

theorem an_ending_is_not_forgotten:
  assumes "agent_new s0" "(agent_step runner key_of)\<^sup>*\<^sup>* s0 s" "i \<in> set (ag_did s)"
  shows "(\<exists>r \<in> set (ag_out s). tr_TaskID r = i) \<or>
    (\<exists>r. map_of (rd_kept (snd (ag_res s))) i = Some (Some r) \<and> kept_reads runner i (Some r) \<and> tr_Key r = key_of i) \<or>
    (\<exists>u e. map_of (rd_owed (snd (ag_res s))) i = Some (Some u) \<and> ow_Key u = key_of i \<and> key_Ended (ag_rec s) (key_of i) = Inr (Some e))"
proof -
  have ok: "agent_ok runner key_of s" by (rule agents.inv_reachable[OF assms(1,2)])
  show ?thesis
  proof (cases "published s i")
    case True
    then show ?thesis by (simp add: published_def)
  next
    case False
    then have "on_disk runner key_of (snd (ag_res s)) (ag_rec s) i" using ok assms(3) by (auto simp: agent_ok_def)
    then consider r where "map_of (rd_kept (snd (ag_res s))) i = Some (Some r)" "kept_as runner key_of i r"
      | e where "map_of (rd_owed (snd (ag_res s))) i = Some (Some (owing runner key_of i))" "key_Ended (ag_rec s) (key_of i) = Inr (Some e)"
      by (auto simp: on_disk_def)
    then show ?thesis
    proof cases
      case (1 r)
      then have "kept_reads runner i (Some r) \<and> tr_Key r = key_of i" using kept_as_reads by (auto simp: kept_as_def of_dispatch_def)
      then show ?thesis using 1(1) by blast
    next
      case (2 e)
      moreover have "ow_Key (owing runner key_of i) = key_of i" by (simp add: owing_def)
      ultimately show ?thesis by blast
    qed
  qed
qed

section \<open>A restart names what it owes\<close>

definition reportable :: "string \<Rightarrow> (string \<Rightarrow> string) \<Rightarrow> string \<Rightarrow> ending \<Rightarrow> bool" where
  "reportable runner key_of i e \<longleftrightarrow>
     (\<forall>l. case recovered True runner (owing runner key_of i) (e\<lparr>en_Log := l\<rparr>) of Inl _ \<Rightarrow> False | Inr r \<Rightarrow> result_Check r = None)"

text \<open>A dispatch waiting for its turn, and one whose result is held.\<close>

definition waiting :: "string \<Rightarrow> (string \<Rightarrow> string) \<Rightarrow> string \<Rightarrow> ending \<Rightarrow> results \<times> keys_dir \<Rightarrow> bool" where
  "waiting runner key_of i e st \<longleftrightarrow> (\<exists>l. map_of (kd_ended (snd st)) (key_of i) = Some (Some (e\<lparr>en_Log := l\<rparr>)))"

definition held_result :: "(string \<Rightarrow> string) \<Rightarrow> string \<Rightarrow> results \<times> keys_dir \<Rightarrow> bool" where
  "held_result key_of i st \<longleftrightarrow> (\<exists>r. map_of (rm_kept (fst (fst st))) i = Some r \<and> tr_Key r = key_of i)"

lemma set_Keys: "set (Keys m) = (\<lambda>i. tr_Key (the (map_of (rm_kept m) i))) ` fst ` set (rm_kept m)"
  by (simp add: Keys_def image_image)

lemma held_named: "held_result key_of i st \<Longrightarrow> key_of i \<in> set (Keys (fst (fst st)))"
proof -
  assume "held_result key_of i st"
  then obtain r where r: "map_of (rm_kept (fst (fst st))) i = Some r" "tr_Key r = key_of i" by (auto simp: held_result_def)
  then have "i \<in> fst ` set (rm_kept (fst (fst st)))" by (force dest: map_of_SomeD)
  moreover have "key_of i = tr_Key (the (map_of (rm_kept (fst (fst st))) i))" using r by simp
  ultimately show ?thesis unfolding set_Keys by (rule image_eqI[rotated])
qed

lemma Keep_kept:
  "map_of (rm_kept (fst (snd (Keep w gone r s)))) =
     (if result_Check r = None then (map_of (rm_kept (fst s)))(tr_TaskID r \<mapsto> r) else map_of (rm_kept (fst s)))"
  by (auto simp: Keep_def keep_def Let_def unowe_def split: option.splits)

lemma recover_one_some:
  assumes "key_Ended k (key_of j) = Inr (Some e)" "recovered ships runner (owing runner key_of j) e = Inr r"
  shows "recover_one ships runner oc (owing runner key_of j) (s, k) =
    (snd (Keep (oc_put oc j) (oc_gone oc j) r s), case tr_Log r of None \<Rightarrow> k | Some l \<Rightarrow> logged (oc_logged oc j) True (key_of j) l k)"
  using assms by (simp add: recover_one_def owing_def cong: option.case_cong)

lemma recover_one_cases:
  obtains (kept) "fst (fst (recover_one ships runner oc (owing runner key_of j) (s, k))) = fst s"
      "snd (recover_one ships runner oc (owing runner key_of j) (s, k)) = k"
  | (settled) gone where "recover_one ships runner oc (owing runner key_of j) (s, k) = (unowe gone j s, k)"
  | (some) e r where "key_Ended k (key_of j) = Inr (Some e)" "recovered ships runner (owing runner key_of j) e = Inr r"
proof (cases "key_Ended k (key_of j)")
  case (Inl x)
  then show ?thesis by (intro kept) (simp_all add: recover_one_def owing_def)
next
  case (Inr f)
  show ?thesis
  proof (cases f)
    case None
    then show ?thesis using Inr by (intro settled[of "oc_gone oc j"]) (simp add: recover_one_def owing_def settle_def)
  next
    case (Some e)
    show ?thesis
    proof (cases "recovered ships runner (owing runner key_of j) e")
      case (Inl x)
      then show ?thesis using Inr Some by (intro kept) (simp_all add: recover_one_def owing_def)
    next
      case (Inr r)
      then show ?thesis using some \<open>key_Ended k (key_of j) = Inr f\<close> Some by blast
    qed
  qed
qed

lemma recover_one_holds:
  assumes "held_result key_of i (s, k)"
  shows "held_result key_of i (recover_one ships runner oc (owing runner key_of j) (s, k))"
proof (cases rule: recover_one_cases[where ships = ships and runner = runner and oc = oc and key_of = key_of and j = j and s = s and k = k])
  case kept
  then show ?thesis using assms by (simp add: held_result_def)
next
  case (settled gone)
  then show ?thesis using assms by (simp add: held_result_def unowe_def)
next
  case (some e r)
  then show ?thesis
    using assms recovered_is[OF some(2)] by (auto simp: held_result_def recover_one_some[OF some] Keep_kept)
qed

lemma recover_one_waits:
  assumes "record_ok k" "waiting runner key_of i e (s, k)"
  shows "waiting runner key_of i e (recover_one ships runner oc (owing runner key_of j) (s, k))"
proof (cases rule: recover_one_cases[where ships = ships and runner = runner and oc = oc and key_of = key_of and j = j and s = s and k = k])
  case kept
  then show ?thesis using assms(2) by (simp add: waiting_def)
next
  case (settled gone)
  then show ?thesis using assms(2) by (simp add: waiting_def)
next
  case (some e' r)
  obtain l where l: "map_of (kd_ended k) (key_of i) = Some (Some (e\<lparr>en_Log := l\<rparr>))" using assms(2) by (auto simp: waiting_def)
  have "\<exists>l'. map_of (kd_ended (logged put gone key x k)) (key_of i) = Some (Some (e\<lparr>en_Log := l'\<rparr>))" for put gone key x
  proof -
    have "\<exists>l'. map_of (kd_ended (logged put gone key x k)) (key_of i) = Some (Some (e\<lparr>en_Log := l\<rparr>\<lparr>en_Log := l'\<rparr>))"
      using logged_ok[OF assms(1)] l by blast
    then show ?thesis by simp
  qed
  then show ?thesis using l assms(2) by (cases "tr_Log r") (simp_all add: waiting_def recover_one_some[OF some])
qed

lemma recover_one_reports:
  assumes "record_ok k" "waiting runner key_of i e (s, k)" "reportable runner key_of i e"
  shows "held_result key_of i (recover_one True runner oc (owing runner key_of i) (s, k))"
proof -
  obtain l where l: "map_of (kd_ended k) (key_of i) = Some (Some (e\<lparr>en_Log := l\<rparr>))" using assms(2) by (auto simp: waiting_def)
  then have e: "key_Ended k (key_of i) = Inr (Some (e\<lparr>en_Log := l\<rparr>))" using key_Ended_iff[OF assms(1)] by simp
  have "case recovered True runner (owing runner key_of i) (e\<lparr>en_Log := l\<rparr>) of Inl _ \<Rightarrow> False | Inr r \<Rightarrow> result_Check r = None"
    using assms(3) by (simp only: reportable_def)
  then obtain r where r: "recovered True runner (owing runner key_of i) (e\<lparr>en_Log := l\<rparr>) = Inr r" "result_Check r = None"
    by (cases "recovered True runner (owing runner key_of i) (e\<lparr>en_Log := l\<rparr>)") auto
  then show ?thesis using recovered_is[OF r(1)] by (simp add: held_result_def recover_one_some[OF e r(1)] Keep_kept)
qed

lemma recover_folds:
  assumes "record_ok (snd st)" "files_ok runner key_of (fst st)"
    and "held_result key_of i st \<or> i \<in> set js \<and> waiting runner key_of i e st \<and> reportable runner key_of i e"
  shows "held_result key_of i (foldl (\<lambda>st u. recover_one True runner oc u st) st (map (owing runner key_of) js))"
  using assms
proof (induction js arbitrary: st)
  case (Cons j js)
  obtain s k where st: "st = (s, k)" by (rule prod.exhaust)
  let ?st = "recover_one True runner oc (owing runner key_of j) st"
  obtain s' k' where st': "?st = (s', k')" by (rule prod.exhaust)
  have ok: "record_ok (snd ?st)" "files_ok runner key_of (fst ?st)"
    using recover_one_ok[of k runner key_of s True oc j s' k'] Cons.prems(1,2) st st' by simp_all
  have "held_result key_of i ?st \<or> i \<in> set js \<and> waiting runner key_of i e ?st \<and> reportable runner key_of i e"
  proof -
    consider "held_result key_of i (s, k)" | "waiting runner key_of i e (s, k)" "reportable runner key_of i e" "i = j \<or> i \<in> set js"
      using Cons.prems(3) by (auto simp: st)
    then show ?thesis
    proof cases
      case 1
      then show ?thesis using recover_one_holds by (simp add: st)
    next
      case 2
      have r: "record_ok k" using Cons.prems(1) by (simp add: st)
      show ?thesis unfolding st using 2 recover_one_waits[OF r 2(1)] recover_one_reports[OF r 2(1,2)] by blast
    qed
  qed
  then show ?case using Cons.IH[OF ok] by simp
qed simp

text \<open>
  C6: a restart names what it owes from its first heartbeat: where the files can be read, the agent that opens them and recovers what is
  owed holds a result for every dispatch whose ending was written down and whose result the bus has not taken, and so names its
  key, whichever of the writes of the recovery fail, as long as the ending is one a result can say.
\<close>

theorem a_restart_names_what_it_owes:
  assumes "agent_new s0" "(agent_step runner key_of)\<^sup>*\<^sup>* s0 s" "i \<in> set (ag_did s)" "\<forall>r \<in> set (ag_out s). tr_TaskID r \<noteq> i"
    and "\<forall>e. key_Ended (ag_rec s) (key_of i) = Inr (Some e) \<longrightarrow> reportable runner key_of i e"
  shows "key_of i \<in> set (Keys (fst (fst (Recover True runner oc (OpenResults runner (\<lambda>_. True) goes (snd (ag_res s)), ag_rec s)))))"
proof -
  let ?d = "snd (ag_res s)" and ?k = "ag_rec s"
  let ?o = "OpenResults runner (\<lambda>_. True) goes ?d"
  have ok: "agent_ok runner key_of s" by (rule agents.inv_reachable[OF assms(1,2)])
  then have r: "record_ok ?k" and f: "files_ok runner key_of (fst (ag_res s), ?d)" by (simp_all add: agent_ok_def)
  have od: "on_disk runner key_of ?d ?k i" using ok assms(3,4) by (auto simp: agent_ok_def published_def)
  have fo: "files_ok runner key_of ?o" using OpenResults_ok[OF f] by blast
  have dist: "distinct (map fst (rd_kept ?d))" "distinct (map fst (rd_owed ?d))" using f by (simp_all add: files_ok_def)
  note maps = OpenResults_maps[OF dist, of runner "\<lambda>_. True" goes]
  define js where "js = map ow_TaskID (Owed (fst ?o))"
  have js: "Owed (fst ?o) = map (owing runner key_of) js"
  proof -
    have "owing runner key_of (ow_TaskID u) = u" if "u \<in> set (Owed (fst ?o))" for u
      using Owed_owing[OF fo that] by (auto simp: owing_def)
    then show ?thesis unfolding js_def map_map by (simp add: map_idI)
  qed
  have "\<exists>e. held_result key_of i (?o, ?k) \<or> i \<in> set js \<and> waiting runner key_of i e (?o, ?k) \<and> reportable runner key_of i e"
  proof (cases "\<exists>x. map_of (rd_kept ?d) i = Some (Some x) \<and> kept_as runner key_of i x")
    case True
    then obtain x where x: "map_of (rd_kept ?d) i = Some (Some x)" "kept_as runner key_of i x" by blast
    then have "readable_kept runner (\<lambda>_. True) ?d i" using kept_as_reads by (auto simp: readable_kept_def)
    then have "map_of (rm_kept (fst ?o)) i = Some x" using x(1) by (simp add: maps(1))
    then show ?thesis using x(2) by (auto simp: held_result_def kept_as_def of_dispatch_def)
  next
    case False
    then obtain e where e: "map_of (rd_owed ?d) i = Some (Some (owing runner key_of i))" "key_Ended ?k (key_of i) = Inr (Some e)"
      using od by (auto simp: on_disk_def)
    have "\<not> readable_kept runner (\<lambda>_. True) ?d i"
    proof
      assume "readable_kept runner (\<lambda>_. True) ?d i"
      then obtain c where "map_of (rd_kept ?d) i = Some c" by (auto simp: readable_kept_def split: option.splits)
      moreover from this have "c \<noteq> None \<and> kept_as runner key_of i (the c)" using f by (auto simp: files_ok_def dest: entries_areD)
      ultimately show False using False by auto
    qed
    moreover have "owed_as runner key_of i (owing runner key_of i)" using f e(1) by (auto simp: files_ok_def dest: entries_areD)
    ultimately have m: "map_of (rm_owed (fst ?o)) i = Some (owing runner key_of i)"
      using e(1) owed_as_reads by (simp add: maps(2))
    then have "i \<in> fst ` set (rm_owed (fst ?o))" by (metis map_of_eq_None_iff option.distinct(1))
    then have "owing runner key_of i \<in> set (Owed (fst ?o))" using m by (force simp: Owed_def)
    then have "i \<in> set js" unfolding js_def by (force simp: owing_def)
    moreover have "waiting runner key_of i e (?o, ?k)"
    proof -
      have "map_of (kd_ended ?k) (key_of i) = Some (Some (e\<lparr>en_Log := en_Log e\<rparr>))" using e(2) key_Ended_iff[OF r] by simp
      then show ?thesis unfolding waiting_def snd_conv by blast
    qed
    ultimately show ?thesis using assms(5) e(2) by blast
  qed
  then obtain e where start: "held_result key_of i (?o, ?k) \<or> i \<in> set js \<and> waiting runner key_of i e (?o, ?k) \<and> reportable runner key_of i e" ..
  show ?thesis
    unfolding Recover_def fst_conv js by (rule held_named, rule recover_folds[OF _ _ start]) (use r fo in simp_all)
qed

section \<open>An agent stopped between the ending and its result\<close>

definition dispatch_A :: string where "dispatch_A = ''01J''"
definition key_A :: string where "key_A = ''R/s/1''"

definition no_agent :: agent where
  "no_agent = \<lparr>ag_res = (\<lparr>rm_kept = [], rm_owed = []\<rparr>, \<lparr>rd_kept = [], rd_owed = []\<rparr>), ag_rec = \<lparr>kd_ended = [], kd_taken = []\<rparr>,
     ag_out = [], ag_did = []\<rparr>"

definition ended_A :: ending where
  "ended_A = \<lparr>en_Key = key_A, en_State = TaskSucceeded, en_ExitCode = Some 0, en_StartedAt = 5, en_FinishedAt = 9, en_Outputs = Some [],
     en_Artifacts = [], en_Log = None, en_At = 9\<rparr>"

definition owing_A :: owed_result where
  "owing_A = owing ''r1'' (\<lambda>_. key_A) dispatch_A"

definition stopped_agent :: agent where
  "stopped_agent = \<lparr>ag_res = (\<lparr>rm_kept = [], rm_owed = [(dispatch_A, owing_A)]\<rparr>, \<lparr>rd_kept = [], rd_owed = [(dispatch_A, Some owing_A)]\<rparr>),
     ag_rec = \<lparr>kd_ended = [(key_A, Some ended_A)], kd_taken = []\<rparr>, ag_out = [], ag_did = [dispatch_A]\<rparr>"

lemma stopped_agent_reached: "(agent_step ''r1'' (\<lambda>_. key_A))\<^sup>*\<^sup>* no_agent stopped_agent"
proof -
  let ?owes = "no_agent\<lparr>ag_res := (\<lparr>rm_kept = [], rm_owed = [(dispatch_A, owing_A)]\<rparr>, \<lparr>rd_kept = [], rd_owed = [(dispatch_A, Some owing_A)]\<rparr>)\<rparr>"
  have "result_Check (unreached dispatch_A key_A ''r1'') = None" by code_simp
  moreover have "owe Synced dispatch_A key_A ''r1'' (ag_res no_agent) = (True, False, ag_res ?owes)"
    by (simp add: owe_def no_agent_def has_key_def owing_A_def owing_def Let_def)
  ultimately have "agent_step ''r1'' (\<lambda>_. key_A) no_agent (no_agent\<lparr>ag_res := ag_res ?owes\<rparr>)" by (intro agent_step.Owes)
  moreover have "agent_step ''r1'' (\<lambda>_. key_A) ?owes stopped_agent"
    using agent_step.Ends[of ?owes dispatch_A "''r1''" "\<lambda>_. key_A" ended_A True]
    by (simp add: owing_A_def ended_A_def keys_write_def no_agent_def stopped_agent_def)
  ultimately show ?thesis by simp
qed

theorem an_ending_is_not_forgotten_witness:
  "(\<exists>u e. map_of (rd_owed (snd (ag_res stopped_agent))) dispatch_A = Some (Some u) \<and> key_Ended (ag_rec stopped_agent) key_A = Inr (Some e))"
proof -
  have "agent_new no_agent" by (simp add: agent_new_def no_agent_def)
  moreover have "dispatch_A \<in> set (ag_did stopped_agent)" by (simp add: stopped_agent_def)
  ultimately show ?thesis
    using an_ending_is_not_forgotten[OF _ stopped_agent_reached, of dispatch_A] by (simp add: stopped_agent_def)
qed

theorem a_restart_names_what_it_owes_witness:
  "key_A \<in> set (Keys (fst (fst (Recover True ''r1'' \<lparr>oc_put = \<lambda>_. NotPut, oc_gone = \<lambda>_. False, oc_logged = \<lambda>_. False\<rparr>
     (OpenResults ''r1'' (\<lambda>_. True) (\<lambda>_. True) (snd (ag_res stopped_agent)), ag_rec stopped_agent)))))"
proof -
  let ?log = "\<lparr>wl_URI = LogURI_String \<lparr>lu_Run = ''R'', lu_Task = key_A\<rparr>, wl_Lines = 0, wl_Truncated = True\<rparr>"
  have n: "NewLogURI key_A = Inr \<lparr>lu_Run = ''R'', lu_Task = key_A\<rparr>" by code_simp
  let ?r = "\<lparr>tr_TaskID = dispatch_A, tr_Key = key_A, tr_Runner = ''r1'', tr_State = TaskSucceeded, tr_ExitCode = Some 0, tr_StartedAt = 5,
    tr_FinishedAt = 9, tr_Outputs = Some [], tr_Artifacts = Some [], tr_Log = Some ?log, tr_Usage = None\<rparr>"
  have c: "result_Check ?r = None" by code_simp
  have "recovered True ''r1'' (owing ''r1'' (\<lambda>_. key_A) dispatch_A) (ended_A\<lparr>en_Log := l\<rparr>) = Inr ?r" for l
    by (simp add: recovered_def EndingOf_def owing_def ended_A_def Let_def n)
  then have rep: "reportable ''r1'' (\<lambda>_. key_A) dispatch_A ended_A" using c by (simp only: reportable_def sum.case) simp
  have e: "key_Ended (ag_rec stopped_agent) key_A = Inr (Some ended_A)"
    by (simp add: stopped_agent_def key_Ended_def keys_read_def ended_A_def)
  have "agent_new no_agent" by (simp add: agent_new_def no_agent_def)
  then show ?thesis
    by (rule a_restart_names_what_it_owes[OF _ stopped_agent_reached, where i = dispatch_A])
      (use rep e in \<open>simp_all add: stopped_agent_def\<close>)
qed

end
