(* ===== verification/Spec2Isabelle.thy ===== *)
theory Spec2Isabelle
  imports Broken_Retry Access Schedules Durations Histories Deltas Packets Log_Secrets Audit_Exported
    Interpolating Ulid Totp Passkey_Bytes Leading Custody Sealing Kept_Results
begin

text \<open>
  A verification library for agentiik, an engine that runs workflows of containers.

  \<^bold>\<open>The program.\<close> A workflow file names steps, what each reads from others and the bricks (container images) that run
  them. \<^verbatim>\<open>graph\<close> reads and checks it, builds the graph of its steps and holds the evaluator: a value that is given
  the state of one run and answers the tasks to hand out now (\<^verbatim>\<open>Next\<close>), takes the reports of those tasks
  (\<^verbatim>\<open>Record\<close>) and cancels (\<^verbatim>\<open>Cancel\<close>). \<^verbatim>\<open>agk\<close> holds the words everything shares: names, identifiers, states, envelopes.
  The controller stores the run's state, calls the evaluator and passes tasks to runners over a bus; the API
  serves people and asks \<^verbatim>\<open>access\<close> what each may do; schedules fire at the instants \<^verbatim>\<open>internal/cron\<close> finds.

  \<^bold>\<open>What models what.\<close> Each theory follows one part of the sources and keeps its names.
  \<^item> \<open>Prelude\<close>: results (\<open>'e + 'a\<close>, \<open>Inl\<close> the error), folds that stop at an error, Go maps as association lists
    read in key order, strings, decimal numbers, 64-bit wrap-around, and the interfaces \<open>codec\<close>, \<open>canonical_codec\<close>,
    \<open>spelling\<close> and \<open>machine\<close>, each interpreted below on the program's own definitions.
  \<^item> \<open>Vocabulary\<close>: \<^verbatim>\<open>agk/verdict.go\<close>, \<^verbatim>\<open>task.go\<close>, \<^verbatim>\<open>run.go\<close>, \<^verbatim>\<open>names.go\<close>, \<^verbatim>\<open>uri.go\<close>, \<^verbatim>\<open>image.go\<close>. Task identifiers and artifact
    URIs are canonical codecs.
  \<^item> \<open>Golib\<close> and \<open>Calendar\<close>: what the sources use of Go's library: JSON encoding, RFC 3339, media types, \<open>Atoi\<close>,
    \<open>Fields\<close>, dates and time zones.
  \<^item> \<open>Envelope\<close>: \<^verbatim>\<open>agk/envelope.go\<close> and its size rules; splitting and concatenating are inverse.
  \<^item> \<open>Workflow\<close>, \<open>Graph\<close>: the values of \<^verbatim>\<open>graph/workflow.go\<close>, the checks of \<^verbatim>\<open>validate.go\<close> and \<^verbatim>\<open>graph.go\<close>. The cycle check
    is exact, the order of a graph respects its edges, and \<open>Upstream\<close> is what a step reads.
  \<^item> \<open>State\<close>, \<open>Verdicts\<close>, \<open>Retries\<close>, \<open>Fan_Out\<close>, \<open>Merging\<close>, \<open>Barrier\<close>: \<^verbatim>\<open>state.go\<close>, \<^verbatim>\<open>verdict.go\<close>, \<^verbatim>\<open>retry.go\<close>, \<^verbatim>\<open>fanout.go\<close>,
    \<^verbatim>\<open>merge.go\<close> and \<^verbatim>\<open>jsonpath.go\<close>, \<^verbatim>\<open>barrier.go\<close>: the parts a decision is made of, each with what it promises: fanning
    out loses no item, a join matches or leaves over every item once, a backoff is the exponential it says it is up to
    its overflow, and the barrier starts a step exactly when its edges allow it.
  \<^item> \<open>Evaluator\<close>, \<open>Decisions\<close>: \<^verbatim>\<open>evaluator.go\<close>, \<^verbatim>\<open>task.go\<close> and \<^verbatim>\<open>replay.go\<close>, the whole of \<open>Next\<close>, \<open>Record\<close>, \<open>Cancel\<close>, \<open>New\<close>, \<open>Start\<close> and reuse.
    The state of a run is the record \<open>run_state\<close> of \<open>State\<close>; every operation takes it and returns it.
  \<^item> \<open>Runs\<close>: one run as a machine whose steps are the operations, with the invariant \<open>sound\<close> that every step keeps
    (\<open>run_machine\<close>) and the order \<open>later\<close> every step respects.
  \<^item> \<open>Safety\<close>, \<open>Progress\<close>, \<open>Broken_Retry\<close>: what every run then has. A verdict is final, a step publishes all its ports or
    none, attempts are bounded, reports are idempotent, a deadline ends a run; a run that is not over always has
    work handed out, a moment to wake at or a task to hear from; and the one way this fails, a further attempt
    whose task cannot be built.
  \<^item> \<open>Access\<close>: package \<^verbatim>\<open>access\<close>. Sets of permissions are sixteen bits and behave as sets; a permission is held exactly
    when a live grant gives it and none takes it away; an unreadable grant is refused, never skipped.
  \<^item> \<open>Cron\<close>, \<open>Schedules\<close>: \<^verbatim>\<open>internal/cron\<close>. \<open>Resolve\<close> is the first instant a zone's clock shows a time or a later one, \<open>Next\<close>
    the least occurrence after a moment, found whenever not both day fields restrict together; with both, the
    twenty-nine years it looks ahead are too few.
  \<^item> \<open>Durations\<close>: \<^verbatim>\<open>graph/duration.go\<close>. Which texts are durations and what they stand for, in 64 bits, and that what is written
    reads back.
  \<^item> \<open>Bytes\<close>, \<open>Git_Objects\<close>, \<open>Trees\<close>, \<open>Commits\<close>, \<open>Histories\<close>: \<^verbatim>\<open>repo/object.go\<close>, \<^verbatim>\<open>names.go\<close>, \<^verbatim>\<open>tree.go\<close>, \<^verbatim>\<open>commit.go\<close>, \<^verbatim>\<open>tag.go\<close>, \<^verbatim>\<open>fsck.go\<close>.
    A tree has one text, and the reader's stack of names sees every duplicate; the commits and tags that can be read
    are those that can be written, and read back as they were.
  \<^item> \<open>Deltas\<close>, \<open>Packets\<close>: \<^verbatim>\<open>repo/delta.go\<close> and \<^verbatim>\<open>pktline.go\<close>. A delta is applied within its bounds, its 64-bit sums never wrapping, and
    to what its instructions say; what is written to side-bands arrives, whole and in order.
  \<^item> \<open>Masking\<close>, \<open>Task_Log\<close>, \<open>Log_Caps\<close>, \<open>Log_Secrets\<close>: \<^verbatim>\<open>driver/mask.go\<close> and \<^verbatim>\<open>log.go\<close>. The log of a task is a state and the calls on it;
    the locale \<open>log_invariant\<close> says what makes a property one that every sequence of calls keeps, and is interpreted on the
    caps and on the absence of secrets: each value that masking's own token cannot spell, whatever the others are. A secret that another
    is part of can be broken apart by the end of a long line.
  \<^item> \<open>Audit_Trail\<close>, \<open>Audit_Log\<close>, \<open>Audit_Chain\<close>, \<open>Audit_Verified\<close>, \<open>Audit_Exported\<close>: package \<^verbatim>\<open>audit\<close>, \<^verbatim>\<open>db/audit.go\<close> and the trigger that hashes a row. What is
    appended verifies; what verifies under the appends' head is what was appended, up to a collision; an export never goes past
    a break; a receiver verifies what it holds, in any order and with any repetition, and is sent everything in the end.
  \<^item> \<open>Escape\<close>, \<open>Escaping\<close>, \<open>Templates\<close>, \<open>Interpolating\<close>: \<^verbatim>\<open>internal/expr/escape.go\<close> and \<^verbatim>\<open>interpolate.go\<close>. The rewriting only adds
    backticks and settles after one pass; a string of a workflow file has one reading as text and expressions, and a secret
    fills a whole value or is refused. Compiling and evaluating an expression are arguments.
  \<^item> \<open>Ulid\<close>, \<open>Totp\<close>: \<^verbatim>\<open>internal/ulid\<close> and \<^verbatim>\<open>internal/totp\<close> with the statement of \<^verbatim>\<open>db/credentials.go\<close> that spends a step. Identifiers sort
    as they were minted, and no code of a generator is accepted twice.
  \<^item> \<open>Cbor\<close>, \<open>Passkey_Bytes\<close>: \<^verbatim>\<open>internal/webauthn/cbor.go\<close>. What the decoder accepts is the one encoding of a value; the locale
    \<open>item_reader\<close> is what a reader of items does, and every level of the decoder is one.
  \<^item> \<open>Pools\<close>: \<^verbatim>\<open>bus.Route\<close> and \<^verbatim>\<open>controller/pool.go\<close>'s \<open>poolOf\<close>, which select one pool or none.
  \<^item> \<open>Admission\<close>, \<open>Leading\<close>: \<^verbatim>\<open>controller/admit.go\<close> with the statements of \<^verbatim>\<open>db/runs.go\<close> it makes, the fence of \<^verbatim>\<open>db/controller.go\<close> and
    the row a decision writes. \<open>Leading\<close> takes the two loops of every controller that is or was elected as one machine, a step
    for each transaction: a concurrency group never has two started runs. The quota is kept by each pass and by one after
    another; two that read it at once pass it by what was free.
  \<^item> \<open>Grants\<close>, \<open>Custody\<close>: \<^verbatim>\<open>internal/token\<close>, redemptions of \<^verbatim>\<open>db/grants.go\<close> and the rows of dispatches of \<^verbatim>\<open>db/runs.go\<close>. A credential says what it
    is and can be read as nothing else. \<open>Custody\<close> takes redemptions, bindings, decisions and losses in any order: two runners never
    work on one task unless one of its dispatches was lost, and a completed key is never redeemed again.
  \<^item> \<open>Sealing\<close>: \<^verbatim>\<open>secret/seal.go\<close>, \<^verbatim>\<open>rotate.go\<close>, \<^verbatim>\<open>totp.go\<close> and \<^verbatim>\<open>hooks.go\<close>. A value opens only where it was sealed, up to a cipher that opens
    under one additional data what was sealed under another; moving a store to the current key loses nothing and ends.
  \<^item> \<open>Endings\<close>, \<open>Kept_Results\<close>: \<^verbatim>\<open>agk/log.go\<close>, the results of \<^verbatim>\<open>bus/wire.go\<close>, \<^verbatim>\<open>runner/pending.go\<close>, the record of \<^verbatim>\<open>driver/record.go\<close> and the
    reports of \<^verbatim>\<open>runner/result.go\<close>. \<open>Kept_Results\<close> takes an agent that can stop between any two of its writes, and whose writes and
    removals may fail, as one machine: an ending written down is never forgotten, and a restart names what it owes.

  \<^bold>\<open>Loops and bounds.\<close> Every function is total. The walk of the cycle check and the climb of \<open>Upstream\<close> recurse with a
  depth of the number of steps, which the lemmas \<open>walked\<close> and \<open>climbed\<close> show is enough; the loop of \<open>Next\<close> (\<open>passes\<close>) ends because each
  turn that changes something leaves fewer pending steps or fewer live tasks; the loop of the schedule
  ends at its horizon; readers of bytes recurse on what is left of them. Durations keep their 64 bits where they can overflow (\<open>wrap64\<close>), permission sets, schedule
  fields and the sizes of a delta are words; counters that count attempts, items or days are integers, far from their width.

  \<^bold>\<open>Arguments.\<close> Code that is not in the repository is an argument: \<open>lib\<close> stands for what compiled expressions and
  schemas answer and for the hash that names a task, \<open>other_checks\<close> and \<open>schema\<close> for the checks a library makes, \<open>load\<close> for
  the time zone database, a sink or a writer for where bytes go, which may fail. No property assumes more of them than its statement says.

  \<^bold>\<open>Not modelled.\<close> Reading YAML into the workflow value, compiling and evaluating CEL, the stores but for the statements named
  above, the bus, the container driver, the HTTP handlers, the consoles and the commands: input and output or libraries the
  sources call. The packs of \<^verbatim>\<open>repo\<close> and the dispatch of a task are logic of the program that is left out.
\<close>

end
